(* ===== verification/Prelude.thy ===== *)
theory Prelude
  imports Main "HOL-Library.Word"
begin

text \<open>
  Shared vocabulary of the development: the machine types of the C++ code, byte strings, and the
  generic lemmas on lists and words the components use. A \<open>Slice\<close>, a \<open>std::string\<close> and a region
  \<open>[p, limit)\<close> between two pointers are all a list of bytes; \<open>size_t\<close> values that index memory are
  natural numbers, and every place where the code narrows one of them to 32 or 64 bits writes the
  narrowing out with \<open>word_of_nat\<close>.
\<close>

unbundle bit_operations_syntax

type_synonym byte = "8 word"
type_synonym uint32 = "32 word"
type_synonym uint64 = "64 word"
type_synonym slice = "byte list"

named_theorems coding_simps \<open>encoders and decoders of the coding layer, as rewrite rules\<close>
named_theorems bit_consts \<open>bits of the constants used as masks\<close>
named_theorems length_simps \<open>lengths of encoded data\<close>

subsection \<open>Lists\<close>

lemma take_length_append [simp]: "n = length xs \<Longrightarrow> take n (xs @ ys) = xs"
  by simp

lemma drop_length_append [simp]: "n = length xs \<Longrightarrow> drop n (xs @ ys) = ys"
  by simp

lemma length_4_conv: "length xs = 4 \<longleftrightarrow> (\<exists>a b c d. xs = [a, b, c, d])"
  by (auto simp: numeral_eq_Suc length_Suc_conv)

lemma length_ge_4_conv: "4 \<le> length xs \<Longrightarrow> \<exists>a b c d r. xs = a # b # c # d # r"
proof -
  assume "4 \<le> length xs"
  then have "length (take 4 xs) = 4" by simp
  then obtain a b c d where "take 4 xs = [a, b, c, d]" by (auto simp only: length_4_conv)
  then have "xs = [a, b, c, d] @ drop 4 xs" by (metis append_take_drop_id)
  then have "xs = a # b # c # d # drop 4 xs" by simp
  then show ?thesis by blast
qed

subsection \<open>Words\<close>

lemma word_of_nat_unat_eq:
  "n < 2 ^ LENGTH('a) \<Longrightarrow> unat (word_of_nat n :: 'a :: len word) = n"
  by (simp add: unat_of_nat take_bit_nat_eq_self)

lemma drop_bit7_less: "128 \<le> v \<Longrightarrow> unat (drop_bit 7 v) < unat (v :: uint64)"
  by (simp add: drop_bit_eq_div word_le_nat_alt unat_div)

text \<open>The bit masks the code writes as numerals; \<open>simp\<close> reads the bits of a word numeral as
  those of the integer.\<close>

lemma bit_127_iff [bit_consts]: "bit (127 :: int) n \<longleftrightarrow> n < 7"
proof -
  have "(127 :: int) = mask 7" by (simp add: mask_eq_exp_minus_1)
  then show ?thesis by (auto simp only: bit_mask_iff possible_bit_int)
qed

lemma bit_128_iff [bit_consts]: "bit (128 :: int) n \<longleftrightarrow> n = 7"
proof -
  have "(128 :: int) = 2 ^ 7" by simp
  then show ?thesis by (auto simp only: bit_exp_iff possible_bit_int)
qed

lemma bit_255_iff [bit_consts]: "bit (255 :: int) n \<longleftrightarrow> n < 8"
proof -
  have "(255 :: int) = mask 8" by (simp add: mask_eq_exp_minus_1)
  then show ?thesis by (auto simp only: bit_mask_iff possible_bit_int)
qed

lemma unat_ucast_up:
  "LENGTH('a) \<le> LENGTH('b) \<Longrightarrow> unat (ucast (v :: 'a :: len word) :: 'b :: len word) = unat v"
proof -
  assume "LENGTH('a) \<le> LENGTH('b)"
  then have "unat v < 2 ^ LENGTH('b)"
    by (intro less_le_trans [OF unsigned_less] power_increasing) simp_all
  then show ?thesis by (simp add: unsigned_ucast_eq take_bit_nat_eq_self)
qed

text \<open>Reassembling a word from its low seven bits and the rest, at a shift.\<close>

lemma push_bit_split7:
  fixes w :: "'a :: len word"
  shows "push_bit s (w AND 127) OR push_bit (s + 7) (drop_bit 7 w) = push_bit s w"
proof -
  have m: "(127 :: 'a word) = mask 7"
    by (simp add: mask_eq_exp_minus_1)
  have "(w AND 127) OR push_bit 7 (drop_bit 7 w) = w"
    unfolding m by (rule bit_word_eqI) (auto simp: bit_simps, metis add_diff_inverse_nat)
  then have "push_bit s ((w AND 127) OR push_bit 7 (drop_bit 7 w)) = push_bit s w"
    by simp
  then show ?thesis
    by (simp add: push_bit_or add.commute)
qed

lemma word_of_nat_inj:
  "m < 2 ^ LENGTH('a) \<Longrightarrow> n < 2 ^ LENGTH('a) \<Longrightarrow> (word_of_nat m :: 'a :: len word) = word_of_nat n \<longleftrightarrow> m = n"
  by (simp add: word_of_nat_eq_iff take_bit_nat_eq_self)

lemma unat_word_of_nat: "n < 2 ^ LENGTH('a) \<Longrightarrow> unat (word_of_nat n :: 'a :: len word) = n"
  by (simp add: unsigned_of_nat take_bit_nat_eq_self)

lemma unat_word32: "n < 2 ^ 32 \<Longrightarrow> unat (word_of_nat n :: uint32) = n"
  by (simp add: unat_word_of_nat)

lemma unat_word64: "n < 2 ^ 64 \<Longrightarrow> unat (word_of_nat n :: uint64) = n"
  by (simp add: unat_word_of_nat)

lemma unat_less_64: "unat (v :: uint64) < 2 ^ 64"
  using unsigned_less [of v, where ?'a = nat] by simp

lemma unat_less_32: "unat (v :: uint32) < 2 ^ 32"
  using unsigned_less [of v, where ?'a = nat] by simp

lemma unat_less_8: "unat (v :: byte) < 256"
  using unsigned_less [of v, where ?'a = nat] by simp

end
