(* ===== verification/Coding.thy ===== *)
theory Coding
  imports Prelude
begin

text \<open>
  \<open>util/coding.cc\<close> and \<open>util/coding.h\<close>: fixed-width little-endian integers, base-128 varints and
  length-prefixed slices. A \<open>Put\<close> routine appends to the string it is given; a \<open>Get\<close> routine
  returns the parsed value with the rest of the input, or \<open>None\<close> where the code returns
  \<open>false\<close> or \<open>NULL\<close>.
\<close>

subsection \<open>Fixed-width integers\<close>

text \<open>
  The object representation of a word on a machine of the given byte order, which \<open>memcpy\<close>
  copies. The code chooses between \<open>memcpy\<close> and explicit shifts by the port's
  \<open>kLittleEndian\<close>; both choices are modelled, and agree.
\<close>

definition native_bytes :: "bool \<Rightarrow> nat \<Rightarrow> 'a :: len word \<Rightarrow> slice" where
  "native_bytes le n v =
     (let bs = map (\<lambda>i. ucast (drop_bit (8 * i) v) :: byte) [0..<n] in if le then bs else rev bs)"

definition native_word :: "bool \<Rightarrow> slice \<Rightarrow> 'a :: len word" where
  "native_word le bs = foldr (\<lambda>b acc. ucast b OR push_bit 8 acc) (if le then bs else rev bs) 0"

definition EncodeFixed32_on :: "bool \<Rightarrow> uint32 \<Rightarrow> slice" where
  "EncodeFixed32_on kLittleEndian value =
     (if kLittleEndian then native_bytes kLittleEndian 4 value
      else [ucast (value AND 0xff),
            ucast (drop_bit 8 value AND 0xff),
            ucast (drop_bit 16 value AND 0xff),
            ucast (drop_bit 24 value AND 0xff)])"

definition EncodeFixed64_on :: "bool \<Rightarrow> uint64 \<Rightarrow> slice" where
  "EncodeFixed64_on kLittleEndian value =
     (if kLittleEndian then native_bytes kLittleEndian 8 value
      else [ucast (value AND 0xff),
            ucast (drop_bit 8 value AND 0xff),
            ucast (drop_bit 16 value AND 0xff),
            ucast (drop_bit 24 value AND 0xff),
            ucast (drop_bit 32 value AND 0xff),
            ucast (drop_bit 40 value AND 0xff),
            ucast (drop_bit 48 value AND 0xff),
            ucast (drop_bit 56 value AND 0xff)])"

definition EncodeFixed32 :: "uint32 \<Rightarrow> slice" where
  "EncodeFixed32 value = EncodeFixed32_on True value"

definition EncodeFixed64 :: "uint64 \<Rightarrow> slice" where
  "EncodeFixed64 value = EncodeFixed64_on True value"

definition PutFixed32 :: "slice \<Rightarrow> uint32 \<Rightarrow> slice" where
  "PutFixed32 dst value = dst @ EncodeFixed32 value"

definition PutFixed64 :: "slice \<Rightarrow> uint64 \<Rightarrow> slice" where
  "PutFixed64 dst value = dst @ EncodeFixed64 value"

text \<open>
  The decoders read four or eight bytes with no bounds check, so they are meaningful on inputs of
  at least that length only.
\<close>

definition DecodeFixed32_on :: "bool \<Rightarrow> slice \<Rightarrow> uint32" where
  "DecodeFixed32_on kLittleEndian ptr =
     (if kLittleEndian then native_word kLittleEndian [ptr ! 0, ptr ! 1, ptr ! 2, ptr ! 3]
      else ucast (ptr ! 0) OR push_bit 8 (ucast (ptr ! 1)) OR
           push_bit 16 (ucast (ptr ! 2)) OR push_bit 24 (ucast (ptr ! 3)))"

definition DecodeFixed64_on :: "bool \<Rightarrow> slice \<Rightarrow> uint64" where
  "DecodeFixed64_on kLittleEndian ptr =
     (if kLittleEndian
      then native_word kLittleEndian
             [ptr ! 0, ptr ! 1, ptr ! 2, ptr ! 3, ptr ! 4, ptr ! 5, ptr ! 6, ptr ! 7]
      else let lo = ucast (DecodeFixed32_on kLittleEndian ptr);
               hi = ucast (DecodeFixed32_on kLittleEndian (drop 4 ptr))
           in push_bit 32 hi OR lo)"

definition DecodeFixed32 :: "slice \<Rightarrow> uint32" where
  "DecodeFixed32 ptr = DecodeFixed32_on True ptr"

definition DecodeFixed64 :: "slice \<Rightarrow> uint64" where
  "DecodeFixed64 ptr = DecodeFixed64_on True ptr"

subsection \<open>Varints\<close>

definition EncodeVarint32 :: "uint32 \<Rightarrow> slice" where
  "EncodeVarint32 v =
     (let B = 128 in
      if v < push_bit 7 1 then [ucast v]
      else if v < push_bit 14 1 then [ucast (v OR B), ucast (drop_bit 7 v)]
      else if v < push_bit 21 1 then
        [ucast (v OR B), ucast (drop_bit 7 v OR B), ucast (drop_bit 14 v)]
      else if v < push_bit 28 1 then
        [ucast (v OR B), ucast (drop_bit 7 v OR B), ucast (drop_bit 14 v OR B),
         ucast (drop_bit 21 v)]
      else
        [ucast (v OR B), ucast (drop_bit 7 v OR B), ucast (drop_bit 14 v OR B),
         ucast (drop_bit 21 v OR B), ucast (drop_bit 28 v)])"

definition PutVarint32 :: "slice \<Rightarrow> uint32 \<Rightarrow> slice" where
  "PutVarint32 dst v = dst @ EncodeVarint32 v"

function EncodeVarint64 :: "uint64 \<Rightarrow> slice" where
  "EncodeVarint64 v =
     (if 128 \<le> v then ucast (v AND 127 OR 128) # EncodeVarint64 (drop_bit 7 v) else [ucast v])"
  by pat_completeness auto

termination EncodeVarint64
  by (relation "measure unat") (auto simp: drop_bit7_less)

declare EncodeVarint64.simps [simp del]

definition PutVarint64 :: "slice \<Rightarrow> uint64 \<Rightarrow> slice" where
  "PutVarint64 dst v = dst @ EncodeVarint64 v"

definition PutLengthPrefixedSlice :: "slice \<Rightarrow> slice \<Rightarrow> slice" where
  "PutLengthPrefixedSlice dst value = PutVarint32 dst (word_of_nat (length value)) @ value"

function VarintLength_loop :: "uint64 \<Rightarrow> nat \<Rightarrow> nat" where
  "VarintLength_loop v len =
     (if 128 \<le> v then VarintLength_loop (drop_bit 7 v) (len + 1) else len)"
  by pat_completeness auto
termination VarintLength_loop
  by (relation "measure (\<lambda>(v, len). unat v)") (auto simp: drop_bit7_less)

declare VarintLength_loop.simps [simp del]

definition VarintLength :: "uint64 \<Rightarrow> nat" where
  "VarintLength v = VarintLength_loop v 1"

fun GetVarint32PtrFallback_loop :: "nat \<Rightarrow> uint32 \<Rightarrow> slice \<Rightarrow> (uint32 \<times> slice) option" where
  "GetVarint32PtrFallback_loop shift result [] = None"
| "GetVarint32PtrFallback_loop shift result (c # p) =
     (if shift \<le> 28 then
        let byte = ucast c :: uint32 in
        if byte AND 128 \<noteq> 0
        then GetVarint32PtrFallback_loop (shift + 7) (result OR push_bit shift (byte AND 127)) p
        else Some (result OR push_bit shift byte, p)
      else None)"

definition GetVarint32PtrFallback :: "slice \<Rightarrow> (uint32 \<times> slice) option" where
  "GetVarint32PtrFallback p = GetVarint32PtrFallback_loop 0 0 p"

definition GetVarint32Ptr :: "slice \<Rightarrow> (uint32 \<times> slice) option" where
  "GetVarint32Ptr p =
     (case p of
        c # rest \<Rightarrow>
          let result = ucast c :: uint32 in
          if result AND 128 = 0 then Some (result, rest) else GetVarint32PtrFallback p
      | [] \<Rightarrow> GetVarint32PtrFallback p)"

definition GetVarint32 :: "slice \<Rightarrow> (uint32 \<times> slice) option" where
  "GetVarint32 input =
     (case GetVarint32Ptr input of None \<Rightarrow> None | Some (value, q) \<Rightarrow> Some (value, q))"

fun GetVarint64Ptr_loop :: "nat \<Rightarrow> uint64 \<Rightarrow> slice \<Rightarrow> (uint64 \<times> slice) option" where
  "GetVarint64Ptr_loop shift result [] = None"
| "GetVarint64Ptr_loop shift result (c # p) =
     (if shift \<le> 63 then
        let byte = ucast c :: uint64 in
        if byte AND 128 \<noteq> 0
        then GetVarint64Ptr_loop (shift + 7) (result OR push_bit shift (byte AND 127)) p
        else Some (result OR push_bit shift byte, p)
      else None)"

definition GetVarint64Ptr :: "slice \<Rightarrow> (uint64 \<times> slice) option" where
  "GetVarint64Ptr p = GetVarint64Ptr_loop 0 0 p"

definition GetVarint64 :: "slice \<Rightarrow> (uint64 \<times> slice) option" where
  "GetVarint64 input =
     (case GetVarint64Ptr input of None \<Rightarrow> None | Some (value, q) \<Rightarrow> Some (value, q))"

subsection \<open>Length-prefixed slices\<close>

text \<open>
  The pointer variant and the \<open>Slice\<close> variant of \<open>GetLengthPrefixedSlice\<close>; both give the
  slice and the input behind it.
\<close>

definition GetLengthPrefixedSlicePtr :: "slice \<Rightarrow> (slice \<times> slice) option" where
  "GetLengthPrefixedSlicePtr p =
     (case GetVarint32Ptr p of
        None \<Rightarrow> None
      | Some (len, q) \<Rightarrow>
          if length q < unat len then None else Some (take (unat len) q, drop (unat len) q))"

definition GetLengthPrefixedSlice :: "slice \<Rightarrow> (slice \<times> slice) option" where
  "GetLengthPrefixedSlice input =
     (case GetVarint32 input of
        Some (len, rest) \<Rightarrow>
          if unat len \<le> length rest then Some (take (unat len) rest, drop (unat len) rest) else None
      | None \<Rightarrow> None)"

subsection \<open>Fixed-width integers: both byte orders agree and decoding inverts encoding\<close>

lemma EncodeFixed32_bytes:
  "EncodeFixed32 v = [ucast v, ucast (drop_bit 8 v), ucast (drop_bit 16 v), ucast (drop_bit 24 v)]"
  by (simp add: EncodeFixed32_def EncodeFixed32_on_def native_bytes_def upt_conv_Cons)

lemma EncodeFixed64_bytes:
  "EncodeFixed64 v =
     [ucast v, ucast (drop_bit 8 v), ucast (drop_bit 16 v), ucast (drop_bit 24 v),
      ucast (drop_bit 32 v), ucast (drop_bit 40 v), ucast (drop_bit 48 v), ucast (drop_bit 56 v)]"
  by (simp add: EncodeFixed64_def EncodeFixed64_on_def native_bytes_def upt_conv_Cons)

lemma ucast_and_ff: "8 \<le> LENGTH('a) \<Longrightarrow> (ucast (v AND 0xff) :: byte) = ucast (v :: 'a :: len word)"
proof -
  assume "8 \<le> LENGTH('a)"
  moreover have "(v AND 0xff) = take_bit 8 v" by (simp add: take_bit_eq_mask mask_eq_exp_minus_1)
  ultimately show ?thesis by (intro bit_word_eqI) (auto simp: bit_simps)
qed

lemma EncodeFixed32_on_eq: "EncodeFixed32_on le v = EncodeFixed32 v"
  by (simp add: EncodeFixed32_bytes EncodeFixed32_on_def native_bytes_def upt_conv_Cons ucast_and_ff)

lemma EncodeFixed64_on_eq: "EncodeFixed64_on le v = EncodeFixed64 v"
  by (simp add: EncodeFixed64_bytes EncodeFixed64_on_def native_bytes_def upt_conv_Cons ucast_and_ff)

lemma DecodeFixed32_bytes:
  "DecodeFixed32 ptr = ucast (ptr ! 0) OR push_bit 8 (ucast (ptr ! 1)) OR
           push_bit 16 (ucast (ptr ! 2)) OR push_bit 24 (ucast (ptr ! 3))"
  by (simp add: DecodeFixed32_def DecodeFixed32_on_def native_word_def  or.assoc)

lemma DecodeFixed32_on_eq: "DecodeFixed32_on le ptr = DecodeFixed32 ptr"
  by (simp add: DecodeFixed32_bytes) (simp add: DecodeFixed32_on_def native_word_def  or.assoc)

lemma DecodeFixed64_bytes:
  "DecodeFixed64 ptr = ucast (ptr ! 0) OR push_bit 8 (ucast (ptr ! 1)) OR
     push_bit 16 (ucast (ptr ! 2)) OR push_bit 24 (ucast (ptr ! 3)) OR
     push_bit 32 (ucast (ptr ! 4)) OR push_bit 40 (ucast (ptr ! 5)) OR
     push_bit 48 (ucast (ptr ! 6)) OR push_bit 56 (ucast (ptr ! 7))"
  by (simp add: DecodeFixed64_def DecodeFixed64_on_def native_word_def  or.assoc)

lemma ucast_or_uint32: "(ucast (a OR b :: uint32) :: uint64) = ucast a OR ucast b"
  by (rule bit_word_eqI) (auto simp: bit_simps)

lemma ucast_push_byte: 
  "n \<le> 24 \<Longrightarrow> (ucast (push_bit n (ucast (c :: byte)) :: uint32) :: uint64) = push_bit n (ucast c)"
  by (rule bit_word_eqI) (auto simp: bit_simps dest: bit_imp_le_length)

lemma ucast_ucast_byte: "(ucast (ucast (c :: byte) :: uint32) :: uint64) = ucast c"
  by (rule bit_word_eqI) (auto simp: bit_simps dest: bit_imp_le_length)

lemma DecodeFixed64_on_eq: "8 \<le> length ptr \<Longrightarrow> DecodeFixed64_on le ptr = DecodeFixed64 ptr"
  by (simp add: DecodeFixed64_bytes)
   (simp add: DecodeFixed64_on_def DecodeFixed32_on_def native_word_def or.assoc 
      ucast_or_uint32 ucast_push_byte ucast_ucast_byte ac_simps)

lemma native_bytes_Suc: "native_bytes True (Suc n) v = ucast v # native_bytes True n (drop_bit 8 v)"
  by (simp add: native_bytes_def upt_conv_Cons map_Suc_upt [symmetric] comp_def add.commute del: upt_Suc)

lemma native_word_Cons: "native_word True (b # bs) = ucast b OR push_bit 8 (native_word True bs)"
  by (simp add: native_word_def)

lemma ucast_byte_or_take_bit:
  "8 \<le> LENGTH('a) \<Longrightarrow> ucast (ucast v :: byte) OR push_bit 8 (take_bit m (drop_bit 8 v)) = take_bit (8 + m) (v :: 'a :: len word)"
  by (rule bit_word_eqI, case_tac "n < 8") (auto simp: bit_simps)

lemma native_word_bytes:
  "8 \<le> LENGTH('a) \<Longrightarrow> native_word True (native_bytes True n v) = take_bit (8 * n) (v :: 'a :: len word)"
proof (induction n arbitrary: v)
  case 0
  then show ?case by (simp add: native_word_def native_bytes_def)
next
  case (Suc n)
  then show ?case by (simp add: native_bytes_Suc native_word_Cons ucast_byte_or_take_bit)
qed

lemma DecodeFixed32_Encode [coding_simps]: "DecodeFixed32 (EncodeFixed32 v @ rest) = v"
proof -
  have "DecodeFixed32 (EncodeFixed32 v @ rest) = native_word True (native_bytes True 4 v)"
    by (simp add: DecodeFixed32_def DecodeFixed32_on_def EncodeFixed32_bytes)
      (simp add: native_bytes_def upt_conv_Cons)
  then show ?thesis using take_bit_length_eq [of v] by (simp add: native_word_bytes)
qed

lemma DecodeFixed64_Encode [coding_simps]: "DecodeFixed64 (EncodeFixed64 v @ rest) = v"
proof -
  have "DecodeFixed64 (EncodeFixed64 v @ rest) = native_word True (native_bytes True 8 v)"
    by (simp add: DecodeFixed64_def DecodeFixed64_on_def EncodeFixed64_bytes)
      (simp add: native_bytes_def upt_conv_Cons)
  then show ?thesis using take_bit_length_eq [of v] by (simp add: native_word_bytes)
qed

lemma EncodeFixed32_Decode:
  "length bs = 4 \<Longrightarrow> EncodeFixed32 (DecodeFixed32 bs) = bs"
  by (auto simp: length_4_conv EncodeFixed32_bytes DecodeFixed32_bytes intro!: bit_word_eqI)
    (auto simp: bit_simps dest: bit_imp_le_length)

subsection \<open>Varint encoders\<close>

lemma EncodeVarint64_small: "v < 128 \<Longrightarrow> EncodeVarint64 v = [ucast v]"
  by (simp add: EncodeVarint64.simps)

lemma EncodeVarint64_big:
  "128 \<le> v \<Longrightarrow> EncodeVarint64 v = ucast (v AND 127 OR 128) # EncodeVarint64 (drop_bit 7 v)"
  by (simp add: EncodeVarint64.simps)

lemma ucast_or_128:
  "(ucast (v OR 128) :: byte) = ucast (ucast (v :: uint32) AND 127 OR 128 :: uint64)"
  by (rule bit_word_eqI) (auto simp: bit_simps bit_consts)

lemma ucast_drop_bit_up: "drop_bit n (ucast (v :: uint32) :: uint64) = ucast (drop_bit n v)"
  by (rule bit_word_eqI) (auto simp: bit_simps dest: bit_imp_le_length)

lemma ucast_ucast_down: "(ucast (ucast (v :: uint32) :: uint64) :: byte) = ucast v"
  by (rule bit_word_eqI) (auto simp: bit_simps)

lemma ucast_less_128: "(ucast (drop_bit n (v :: uint32)) :: uint64) < 128 \<longleftrightarrow> unat v < 2 ^ (n + 7)"
  by (simp add: word_less_nat_alt unat_drop_bit_eq unat_ucast_up
       drop_bit_eq_div [of _ "unat v"] div_less_iff_less_mult power_add mult.commute)

lemma EncodeVarint32_64: "EncodeVarint32 v = EncodeVarint64 (ucast v)"
proof -
  have step: "EncodeVarint64 (ucast (drop_bit n v)) =
      (if unat v < 2 ^ (n + 7) then [ucast (drop_bit n v)]
       else ucast (drop_bit n v OR 128) # EncodeVarint64 (ucast (drop_bit (n + 7) v)))" for n
    using EncodeVarint64.simps [of "ucast (drop_bit n v)"]
    by (simp add: ucast_less_128 ucast_or_128 ucast_ucast_down ucast_drop_bit_up not_less [symmetric] add.commute)
  have b: "unat v < 2 ^ 35" by (rule less_trans [OF unsigned_less]) simp
  show ?thesis
    using step [of 0] step [of 7] step [of 14] step [of 21] step [of 28] b
    by (simp add: EncodeVarint32_def word_less_nat_alt)
qed
lemma VarintLength_loop_eq: "VarintLength_loop v n = n + length (EncodeVarint64 v) - 1"
proof (induction v n rule: VarintLength_loop.induct)
  case (1 v n)
  show ?case
  proof (cases "128 \<le> v")
    case True
    with 1 show ?thesis
     by (simp add: VarintLength_loop.simps [of v n] EncodeVarint64_big)
  qed (simp add: VarintLength_loop.simps [of v n] EncodeVarint64_small)
qed

lemma VarintLength_eq: "VarintLength v = length (EncodeVarint64 v)"
  by (simp add: VarintLength_def VarintLength_loop_eq)

subsection \<open>Varint decoders\<close>


lemma cont_byte_64:
  "(ucast (ucast (v AND 127 OR 128) :: byte) :: uint64) AND 128 \<noteq> 0"
  "(ucast (ucast (v AND 127 OR 128) :: byte) :: uint64) AND 127 = (v :: uint64) AND 127"
proof -
  have "bit ((ucast (ucast (v AND 127 OR 128) :: byte) :: uint64) AND 128) 7"
    by (simp add: bit_simps bit_consts)
  then show "(ucast (ucast (v AND 127 OR 128) :: byte) :: uint64) AND 128 \<noteq> 0" by auto
qed (rule bit_word_eqI, auto simp: bit_simps bit_consts)

lemma cont_byte_32:
  "(ucast (ucast (v AND 127 OR 128) :: byte) :: uint32) AND 128 \<noteq> 0"
  "(ucast (ucast (v AND 127 OR 128) :: byte) :: uint32) AND 127 = ucast (v :: uint64) AND 127"
proof -
  have "bit ((ucast (ucast (v AND 127 OR 128) :: byte) :: uint32) AND 128) 7"
    by (simp add: bit_simps bit_consts)
  then show "(ucast (ucast (v AND 127 OR 128) :: byte) :: uint32) AND 128 \<noteq> 0" by auto
qed (rule bit_word_eqI, auto simp: bit_simps bit_consts)

lemma bit_bound: "unat (v :: 'a :: len word) < 2 ^ k \<Longrightarrow> bit v n \<Longrightarrow> n < k"
proof -
  assume "unat v < 2 ^ k" and "bit v n"
  then have "bit (take_bit k (unat v)) n"
    by (simp add: take_bit_nat_eq_self bit_unsigned_iff bit_imp_le_length)
  then show ?thesis by (simp add: bit_take_bit_iff)
qed

lemma div_128_bound: "7 \<le> k \<Longrightarrow> (x :: nat) < 2 ^ k \<Longrightarrow> x div 128 < 2 ^ (k - 7)"
  using power_add [of "2 :: nat" "k - 7" 7] by (simp add: less_mult_imp_div_less)

lemma less_128_bits: "(v :: uint64) < 128 \<Longrightarrow> bit v n \<Longrightarrow> n < 7"
  by (rule bit_bound [of v 7]) (simp_all add: word_less_nat_alt)

lemma last_byte_64:
  assumes "(v :: uint64) < 128"
  shows "v AND 128 = 0" "(ucast (ucast v :: byte) :: uint64) = v"
  by (rule bit_word_eqI; use less_128_bits [OF assms] in \<open>force simp: bit_simps bit_consts\<close>)+

lemma last_byte_32:
  assumes "(v :: uint64) < 128"
  shows "(ucast v :: uint32) AND 128 = 0" "(ucast (ucast v :: byte) :: uint32) = ucast v"
  by (rule bit_word_eqI; use less_128_bits [OF assms] in \<open>force simp: bit_simps bit_consts\<close>)+

lemma unat_drop_bit7: "unat (drop_bit 7 (v :: uint64)) = unat v div 128"
  by (simp add: unat_drop_bit_eq drop_bit_eq_div [of _ "unat v"])

lemma ucast_drop_bit7_down:
  "unat (v :: uint64) < 2 ^ 32 \<Longrightarrow> drop_bit 7 (ucast v :: uint32) = ucast (drop_bit 7 v)"
proof -
  assume "unat v < 2 ^ 32"
  note b = bit_bound [OF this]
  show ?thesis by (rule bit_word_eqI) (auto simp: bit_simps dest: b)
qed

lemma GetVarint64Ptr_loop_Encode:
  "s \<le> 63 \<Longrightarrow> unat v < 2 ^ (64 - s) \<Longrightarrow>
   GetVarint64Ptr_loop s r (EncodeVarint64 v @ rest) = Some (r OR push_bit s v, rest)"
proof (induction v arbitrary: s r rule: EncodeVarint64.induct)
  case (1 v)
  show ?case
  proof (cases "128 \<le> v")
    case True
    then have "2 ^ 7 < (2 :: nat) ^ (64 - s)"
      using 1(3) by (simp add: word_le_nat_alt)
    then have s: "7 < 64 - s" by (rule power_less_imp_less_exp [rotated]) simp
    have "unat (drop_bit 7 v) < 2 ^ (64 - (s + 7))"
      using div_128_bound [OF _ 1(3)] s by (simp add: unat_drop_bit7)
    with 1(1) [OF True, of "s + 7"] 1(2) True s show ?thesis
      by (simp add: EncodeVarint64_big cont_byte_64 or.assoc push_bit_split7 del: push_bit_and)
  next
    case False
    with 1(2) show ?thesis
      by (simp add: EncodeVarint64_small last_byte_64 not_le)
  qed
qed

lemma GetVarint32_loop_Encode:
  "7 dvd s \<Longrightarrow> s \<le> 28 \<Longrightarrow> unat v < 2 ^ (32 - s) \<Longrightarrow>
   GetVarint32PtrFallback_loop s r (EncodeVarint64 v @ rest) = Some (r OR push_bit s (ucast v), rest)"
proof (induction v arbitrary: s r rule: EncodeVarint64.induct)
  case (1 v)
  show ?case
  proof (cases "128 \<le> v")
    case True
    then have "2 ^ 7 < (2 :: nat) ^ (32 - s)"
      using 1(4) by (simp add: word_le_nat_alt)
    then have s: "7 < 32 - s" by (rule power_less_imp_less_exp [rotated]) simp
    with 1(2) have s28: "s + 7 \<le> 28" by presburger
    have *: "unat (drop_bit 7 v) < 2 ^ (32 - (s + 7))"
      using div_128_bound [OF _ 1(4)] s by (simp add: unat_drop_bit7)
    have v: "unat v < 2 ^ 32"
      using 1(4) by (rule less_le_trans) (intro power_increasing; simp)
    have d: "push_bit s (ucast v AND 127) OR push_bit (s + 7) (ucast (drop_bit 7 v)) =
        push_bit s (ucast v :: uint32)"
      using push_bit_split7 [of s "ucast v :: uint32"] by (simp add: ucast_drop_bit7_down [OF v])
    from 1(1) [OF True, of "s + 7"] True s28 * 1(2) 1(3) show ?thesis
      by (simp add: EncodeVarint64_big cont_byte_32 or.assoc d del: push_bit_and)
  next
    case False
    with 1(3) show ?thesis
      by (simp add: EncodeVarint64_small last_byte_32 not_le)
  qed
qed



lemma GetVarint32Ptr_eq: "GetVarint32Ptr p = GetVarint32PtrFallback p"
  by (cases p) (auto simp: GetVarint32Ptr_def GetVarint32PtrFallback_def Let_def)

lemma GetVarint32_eq: "GetVarint32 p = GetVarint32PtrFallback_loop 0 0 p"
  by (auto simp: GetVarint32_def GetVarint32Ptr_eq GetVarint32PtrFallback_def split: option.splits)

lemma GetVarint64_eq: "GetVarint64 p = GetVarint64Ptr_loop 0 0 p"
  by (auto simp: GetVarint64_def GetVarint64Ptr_def split: option.splits)

lemma ucast_up_down: "ucast (ucast (v :: uint32) :: uint64) = v"
  by (rule bit_word_eqI) (auto simp: bit_simps)

lemma GetVarint32_Encode [coding_simps]: "GetVarint32 (EncodeVarint32 v @ rest) = Some (v, rest)"
proof -
  have "unat (ucast v :: uint64) < 2 ^ 32" using unsigned_less [of v] by (simp add: unat_ucast_up)
  then show ?thesis
    using GetVarint32_loop_Encode [of 0 "ucast v" 0 rest] by (simp add: GetVarint32_eq EncodeVarint32_64 ucast_up_down)
qed

lemma GetVarint32Ptr_Encode [coding_simps]: "GetVarint32Ptr (EncodeVarint32 v @ rest) = Some (v, rest)"
  using GetVarint32_Encode [of v rest] by (simp add: GetVarint32_eq GetVarint32Ptr_eq GetVarint32PtrFallback_def)

lemma GetVarint64_Encode [coding_simps]: "GetVarint64 (EncodeVarint64 v @ rest) = Some (v, rest)"
  using GetVarint64Ptr_loop_Encode [of 0 v 0 rest] unsigned_less [of v] by (simp add: GetVarint64_eq)

lemma GetVarint32_loop_suffix:
  "GetVarint32PtrFallback_loop s r p = Some (v, q) \<Longrightarrow> \<exists>u. p = u @ q \<and> u \<noteq> [] \<and> 7 * length u + s \<le> 35"
  by (induction s r p rule: GetVarint32PtrFallback_loop.induct)
    (fastforce simp: Let_def split: if_splits intro: exI [of _ "_ # _"])+


lemma EncodeVarint64_length_bound: "unat v < 2 ^ (7 * n) \<Longrightarrow> 0 < n \<Longrightarrow> length (EncodeVarint64 v) \<le> n"
proof (induction v arbitrary: n rule: EncodeVarint64.induct)
  case (1 v)
  show ?case
  proof (cases "128 \<le> v")
    case True
    then have "2 ^ 7 < (2 :: nat) ^ (7 * n)"
      using 1(2) by (simp add: word_le_nat_alt)
    then have "7 < 7 * n" by (rule power_less_imp_less_exp [rotated]) simp
    then obtain m where n: "n = Suc m" "0 < m" by (cases n) auto
    have "unat (drop_bit 7 v) < 2 ^ (7 * m)"
      using div_128_bound [OF _ 1(2)] n by (simp add: unat_drop_bit7)
    from 1(1) [OF True this] n True show ?thesis by (simp add: EncodeVarint64_big)
  next
    case False
    with 1(3) show ?thesis by (simp add: EncodeVarint64_small)
  qed
qed

lemma length_EncodeVarint64: "length (EncodeVarint64 v) \<le> 10"
  by (rule EncodeVarint64_length_bound, rule less_le_trans [OF unsigned_less]) simp_all

lemma length_EncodeVarint32: "length (EncodeVarint32 v) \<le> 5"
  by (auto simp: EncodeVarint32_def Let_def)

lemma EncodeVarint64_nonempty [simp]: "EncodeVarint64 v \<noteq> []"
  by (subst EncodeVarint64.simps) simp

lemma EncodeVarint32_nonempty [simp]: "EncodeVarint32 v \<noteq> []"
  by (simp add: EncodeVarint32_def Let_def)

lemma length_EncodeFixed [simp]: "length (EncodeFixed32 v) = 4" "length (EncodeFixed64 w) = 8"
  by (simp_all add: EncodeFixed32_bytes EncodeFixed64_bytes)

text \<open>Arrays of fixed-width numbers.\<close>

lemma length_fixed32s [simp]: "length (concat (map (\<lambda>j. EncodeFixed32 (f j)) js)) = 4 * length js"
  by (induction js) simp_all

lemma drop_fixed32s:
  "i < length js \<Longrightarrow> drop (i * 4) (concat (map (\<lambda>j. EncodeFixed32 (f j)) js) @ rest) =
     EncodeFixed32 (f (js ! i)) @ drop (Suc i * 4) (concat (map (\<lambda>j. EncodeFixed32 (f j)) js) @ rest)"
proof (induction js arbitrary: i)
  case (Cons j js)
  have d: "drop (m + 4) (EncodeFixed32 w @ xs) = drop m xs" for m w xs by simp
  show ?case
  proof (cases i)
    case (Suc m)
    then show ?thesis using Cons.IH [of m] Cons.prems by (simp add: d add.commute [of 4])
  qed simp
qed simp

subsection \<open>Self-delimiting encodings\<close>

text \<open>
  The interface the readers of a byte stream rely on: a decoder that recovers an encoded value and
  stops exactly behind it, and that always consumes something. The bound \<open>ok\<close> names the values the
  encoding can carry.
\<close>

locale codec =
  fixes ok :: "'a \<Rightarrow> bool"
    and enc :: "'a \<Rightarrow> slice"
    and dec :: "slice \<Rightarrow> ('a \<times> slice) option"
  assumes dec_enc: "ok x \<Longrightarrow> dec (enc x @ rest) = Some (x, rest)"
    and dec_suffix: "dec p = Some (x, q) \<Longrightarrow> \<exists>u. p = u @ q \<and> u \<noteq> []"
begin

lemma dec_shorter: "dec p = Some (x, q) \<Longrightarrow> length q < length p"
  by (drule dec_suffix) auto

lemma enc_nonempty: "ok x \<Longrightarrow> enc x \<noteq> []"
  using dec_enc [of x "[]"] dec_shorter by fastforce

lemma enc_prefix_free:
  "ok x \<Longrightarrow> ok y \<Longrightarrow> enc x @ r = enc y @ r' \<longleftrightarrow> x = y \<and> r = r'"
  by (metis dec_enc option.inject prod.inject)

lemma enc_inj: "ok x \<Longrightarrow> ok y \<Longrightarrow> enc x = enc y \<longleftrightarrow> x = y"
  using enc_prefix_free [of x y "[]" "[]"] by simp

end

lemma GetVarint64_loop_suffix:
  "GetVarint64Ptr_loop s r p = Some (v, q) \<Longrightarrow> \<exists>u. p = u @ q \<and> u \<noteq> [] \<and> 7 * length u + s \<le> 70"
  by (induction s r p rule: GetVarint64Ptr_loop.induct)
    (fastforce simp: Let_def split: if_splits intro: exI [of _ "_ # _"])+

interpretation varint32: codec "\<lambda>_. True" EncodeVarint32 GetVarint32
  by unfold_locales (rule GetVarint32_Encode, auto simp: GetVarint32_eq dest!: GetVarint32_loop_suffix)

interpretation varint64: codec "\<lambda>_. True" EncodeVarint64 GetVarint64
  by unfold_locales (rule GetVarint64_Encode, auto simp: GetVarint64_eq dest!: GetVarint64_loop_suffix)

lemma PutLengthPrefixedSlice_append [coding_simps]:
  "PutLengthPrefixedSlice dst v = dst @ PutLengthPrefixedSlice [] v"
  "PutLengthPrefixedSlice [] v @ rest = EncodeVarint32 (word_of_nat (length v)) @ v @ rest"
  by (simp_all add: PutLengthPrefixedSlice_def PutVarint32_def)

lemma GetLengthPrefixedSlice_ptr: "GetLengthPrefixedSlicePtr p = GetLengthPrefixedSlice p"
  by (auto simp: GetLengthPrefixedSlicePtr_def GetLengthPrefixedSlice_def GetVarint32_def
      split: option.splits)

lemma GetLengthPrefixedSlice_Put:
  "length v < 2 ^ 32 \<Longrightarrow> GetLengthPrefixedSlice (PutLengthPrefixedSlice [] v @ rest) = Some (v, rest)"
  by (simp add: GetLengthPrefixedSlice_def PutLengthPrefixedSlice_append(2) varint32.dec_enc
      word_of_nat_unat_eq)

interpretation lpslice: codec "\<lambda>v. length v < 2 ^ 32" "PutLengthPrefixedSlice []" GetLengthPrefixedSlice
proof unfold_locales
  fix p x q
  assume "GetLengthPrefixedSlice p = Some (x, q)"
  then obtain len r where r: "GetVarint32 p = Some (len, r)" and "q = drop (unat len) r"
    by (auto simp: GetLengthPrefixedSlice_def split: option.splits if_splits)
  moreover from varint32.dec_suffix [OF r] obtain u where "p = u @ r" "u \<noteq> []" by blast
  ultimately have "p = (u @ take (unat len) r) @ q" "u @ take (unat len) r \<noteq> []" by simp_all
  then show "\<exists>u. p = u @ q \<and> u \<noteq> []" by blast
qed (rule GetLengthPrefixedSlice_Put)

text \<open>A decoder that reads no further than what it consumes: more input changes nothing, so an encoding
  cut short is not decoded at all.\<close>

locale streaming_codec = codec +
  assumes dec_extend: "dec p = Some (x, q) \<Longrightarrow> dec (p @ r) = Some (x, q @ r)"
begin

lemma dec_cut:
  assumes "ok x" "n < length (enc x)"
  shows "dec (take n (enc x)) = None"
proof (rule ccontr)
  assume "dec (take n (enc x)) \<noteq> None"
  then obtain y q where "dec (take n (enc x)) = Some (y, q)" by auto
  from dec_extend [OF this, of "drop n (enc x)"] dec_enc [OF assms(1), of "[]"] assms(2)
  show False by simp
qed

end

lemma GetVarint32_loop_extend:
  "GetVarint32PtrFallback_loop s r p = Some (v, q) \<Longrightarrow> GetVarint32PtrFallback_loop s r (p @ z) = Some (v, q @ z)"
  by (induction s r p rule: GetVarint32PtrFallback_loop.induct) (auto simp: Let_def split: if_splits)

lemma GetVarint64_loop_extend:
  "GetVarint64Ptr_loop s r p = Some (v, q) \<Longrightarrow> GetVarint64Ptr_loop s r (p @ z) = Some (v, q @ z)"
  by (induction s r p rule: GetVarint64Ptr_loop.induct) (auto simp: Let_def split: if_splits)

interpretation varint32: streaming_codec "\<lambda>_. True" EncodeVarint32 GetVarint32
  by unfold_locales (simp add: GetVarint32_eq GetVarint32_loop_extend)

interpretation varint64: streaming_codec "\<lambda>_. True" EncodeVarint64 GetVarint64
  by unfold_locales (simp add: GetVarint64_eq GetVarint64_loop_extend)

interpretation lpslice: streaming_codec "\<lambda>v. length v < 2 ^ 32" "PutLengthPrefixedSlice []" GetLengthPrefixedSlice
proof unfold_locales
  fix p x q r
  assume "GetLengthPrefixedSlice p = Some (x, q)"
  then obtain len rest where l: "GetVarint32 p = Some (len, rest)" "unat len \<le> length rest"
      "x = take (unat len) rest" "q = drop (unat len) rest"
    by (auto simp: GetLengthPrefixedSlice_def split: option.splits if_splits)
  then show "GetLengthPrefixedSlice (p @ r) = Some (x, q @ r)"
    using varint32.dec_extend [OF l(1), of r] by (simp add: GetLengthPrefixedSlice_def)
qed

subsection \<open>Properties\<close>

text \<open>C35. Varint round trip: a 32-bit or 64-bit value appended by \<open>PutVarint32\<close> or
  \<open>PutVarint64\<close> behind any string is read back by the corresponding \<open>Get\<close> routine, which
  leaves the input exactly behind the encoding.\<close>

theorem varint_roundtrip:
  "GetVarint32 (drop (length dst) (PutVarint32 dst v @ rest)) = Some (v, rest) \<and>
   GetVarint64 (drop (length dst) (PutVarint64 dst w @ rest)) = Some (w, rest)"
  by (simp_all add: PutVarint32_def PutVarint64_def varint32.dec_enc varint64.dec_enc)

text \<open>The unrolled five-case encoder \<open>EncodeVarint32\<close> writes exactly what the loop of
  \<open>EncodeVarint64\<close> writes for the widened value; \<open>VarintLength\<close> is the number of bytes
  written, and the buffers of 5 and 10 bytes in \<open>PutVarint32\<close> and \<open>PutVarint64\<close> suffice.\<close>

theorem varint_unrolled_and_sizes:
  "EncodeVarint32 v = EncodeVarint64 (ucast v) \<and> length (EncodeVarint32 v) \<le> 5 \<and>
   length (EncodeVarint64 w) = VarintLength w \<and> VarintLength w \<le> 10"
  using length_EncodeVarint32 [of v] length_EncodeVarint64 [of w]
  by (simp add: EncodeVarint32_64 VarintLength_eq)

text \<open>Fixed-width integers: on little-endian and big-endian ports alike, decoding what the
  encoder wrote gives the value back, and a file written on one port reads the same on another.\<close>

theorem fixed_roundtrip_all_ports:
  "DecodeFixed32_on le' (EncodeFixed32_on le v @ rest) = v \<and>
   DecodeFixed64_on le' (EncodeFixed64_on le w @ rest) = w"
proof -
  have "8 \<le> length (EncodeFixed64 w @ rest)" by simp
  then show ?thesis
    by (simp add: EncodeFixed32_on_eq EncodeFixed64_on_eq DecodeFixed32_on_eq DecodeFixed64_on_eq
        DecodeFixed32_Encode DecodeFixed64_Encode)
qed

text \<open>Length-prefixed slices: a slice shorter than 2^32 bytes is read back by both variants of
  \<open>GetLengthPrefixedSlice\<close>, which stop behind it whatever follows.\<close>

theorem length_prefixed_roundtrip:
  assumes "length v < 2 ^ 32"
  shows "GetLengthPrefixedSlice (drop (length dst) (PutLengthPrefixedSlice dst v @ rest)) = Some (v, rest) \<and>
    GetLengthPrefixedSlicePtr (drop (length dst) (PutLengthPrefixedSlice dst v @ rest)) = Some (v, rest)"
proof -
  have "drop (length dst) (PutLengthPrefixedSlice dst v @ rest) = PutLengthPrefixedSlice [] v @ rest"
    by (simp add: PutLengthPrefixedSlice_def PutVarint32_def)
  then show ?thesis using lpslice.dec_enc [OF assms] by (simp add: GetLengthPrefixedSlice_ptr)
qed

theorem length_prefixed_roundtrip_witness:
  "length ([1, 2, 3] :: slice) < 2 ^ 32 \<and>
   GetLengthPrefixedSlice (drop (length ([7] :: slice)) (PutLengthPrefixedSlice [7] [1, 2, 3] @ [9])) =
     Some ([1, 2, 3], [9])"
proof -
  have "length ([1, 2, 3] :: slice) < 2 ^ 32" by simp
  from length_prefixed_roundtrip [OF this, of "[7]" "[9]"] this show ?thesis by blast
qed

end
