(* ===== verification/Status.thy ===== *)
theory Status
  imports Coding
begin

text \<open>
  \<open>include/leveldb/status.h\<close> and \<open>util/status.cc\<close>. A status is its \<open>state_\<close> pointer: \<open>None\<close> for
  \<open>NULL\<close> (success), otherwise the heap array that holds the message length, the code and the message.
\<close>

text \<open>A C string literal as bytes.\<close>

definition str :: "string \<Rightarrow> slice" where
  "str s = map of_char s"

type_synonym status = "slice option"

datatype Code = kOk | kNotFound | kCorruption | kNotSupported | kInvalidArgument | kIOError

fun Code_byte :: "Code \<Rightarrow> byte" where
  "Code_byte kOk = 0"
| "Code_byte kNotFound = 1"
| "Code_byte kCorruption = 2"
| "Code_byte kNotSupported = 3"
| "Code_byte kInvalidArgument = 4"
| "Code_byte kIOError = 5"

text \<open>The private constructor; \<open>len1\<close>, \<open>len2\<close> and \<open>size\<close> are 32-bit, and \<open>memcpy\<close> of the length
  uses the machine's byte order, here little-endian.\<close>

definition Status_make :: "Code \<Rightarrow> slice \<Rightarrow> slice \<Rightarrow> status" where
  "Status_make code msg msg2 =
     (let len1 = word_of_nat (length msg) :: uint32;
          len2 = word_of_nat (length msg2) :: uint32;
          size = len1 + (if len2 \<noteq> 0 then 2 + len2 else 0)
      in Some (native_bytes True 4 size @ [Code_byte code] @ take (unat len1) msg @
               (if len2 \<noteq> 0 then str '': '' @ take (unat len2) msg2 else [])))"

definition Status_OK :: status where
  "Status_OK = None"

definition Status_NotFound :: "slice \<Rightarrow> slice \<Rightarrow> status" where
  "Status_NotFound msg msg2 = Status_make kNotFound msg msg2"

definition Status_Corruption :: "slice \<Rightarrow> slice \<Rightarrow> status" where
  "Status_Corruption msg msg2 = Status_make kCorruption msg msg2"

definition Status_NotSupported :: "slice \<Rightarrow> slice \<Rightarrow> status" where
  "Status_NotSupported msg msg2 = Status_make kNotSupported msg msg2"

definition Status_InvalidArgument :: "slice \<Rightarrow> slice \<Rightarrow> status" where
  "Status_InvalidArgument msg msg2 = Status_make kInvalidArgument msg msg2"

definition Status_IOError :: "slice \<Rightarrow> slice \<Rightarrow> status" where
  "Status_IOError msg msg2 = Status_make kIOError msg msg2"

definition Status_ok :: "status \<Rightarrow> bool" where
  "Status_ok s \<longleftrightarrow> s = None"

definition Status_code :: "status \<Rightarrow> byte" where
  "Status_code s = (case s of None \<Rightarrow> Code_byte kOk | Some state \<Rightarrow> state ! 4)"

definition Status_IsNotFound :: "status \<Rightarrow> bool" where
  "Status_IsNotFound s \<longleftrightarrow> Status_code s = Code_byte kNotFound"

definition Status_IsCorruption :: "status \<Rightarrow> bool" where
  "Status_IsCorruption s \<longleftrightarrow> Status_code s = Code_byte kCorruption"

definition Status_IsIOError :: "status \<Rightarrow> bool" where
  "Status_IsIOError s \<longleftrightarrow> Status_code s = Code_byte kIOError"

definition Status_IsNotSupportedError :: "status \<Rightarrow> bool" where
  "Status_IsNotSupportedError s \<longleftrightarrow> Status_code s = Code_byte kNotSupported"

definition Status_IsInvalidArgument :: "status \<Rightarrow> bool" where
  "Status_IsInvalidArgument s \<longleftrightarrow> Status_code s = Code_byte kInvalidArgument"

definition CopyState :: "slice \<Rightarrow> slice" where
  "CopyState state =
     (let size = native_word True (take 4 state) :: uint32 in take (unat (size + 5)) state)"

text \<open>The copy constructor and the assignment, with its test for aliasing.\<close>

definition Status_copy :: "status \<Rightarrow> status" where
  "Status_copy s = (case s of None \<Rightarrow> None | Some state \<Rightarrow> Some (CopyState state))"

text \<open>\<open>ToString\<close>; a code outside the enumeration prints as a signed decimal, passed as \<open>unknown\<close>.\<close>

definition Status_ToString :: "(byte \<Rightarrow> slice) \<Rightarrow> status \<Rightarrow> slice" where
  "Status_ToString unknown s =
     (case s of
        None \<Rightarrow> str ''OK''
      | Some state \<Rightarrow>
          let code = Status_code s;
              type =
                (if code = Code_byte kOk then str ''OK''
                 else if code = Code_byte kNotFound then str ''NotFound: ''
                 else if code = Code_byte kCorruption then str ''Corruption: ''
                 else if code = Code_byte kNotSupported then str ''Not implemented: ''
                 else if code = Code_byte kInvalidArgument then str ''Invalid argument: ''
                 else if code = Code_byte kIOError then str ''IO error: ''
                 else str ''Unknown code('' @ unknown code @ str ''): '');
              len = native_word True (take 4 state) :: uint32
          in type @ take (unat len) (drop 5 state))"

subsection \<open>Statuses keep their code and message\<close>

lemma Status_ok_simps [simp]:
  "Status_ok Status_OK"
  "\<not> Status_ok (Status_make c m m2)"
  "\<not> Status_ok (Status_NotFound m m2)" "\<not> Status_ok (Status_Corruption m m2)"
  "\<not> Status_ok (Status_NotSupported m m2)" "\<not> Status_ok (Status_InvalidArgument m m2)"
  "\<not> Status_ok (Status_IOError m m2)"
  by (simp_all add: Status_ok_def Status_OK_def Status_make_def Status_NotFound_def
      Status_Corruption_def Status_NotSupported_def Status_InvalidArgument_def Status_IOError_def Let_def)

lemma length_native_bytes [simp]: "length (native_bytes le n v) = n"
  by (simp add: native_bytes_def Let_def)

lemma native_word_4 [simp]: "native_word True (native_bytes True 4 (v :: uint32)) = v"
  using native_word_bytes [of 4 v] take_bit_length_eq [of v] by simp

lemma Code_byte_eq [simp]: "Code_byte c = Code_byte d \<longleftrightarrow> c = d"
  by (cases c; cases d) simp_all

lemma Status_code_make [simp]: "Status_code (Status_make c m m2) = Code_byte c"
  by (simp add: Status_code_def Status_make_def Let_def nth_append)

text \<open>The message: both parts, joined by a colon when the second is not empty.\<close>

definition Status_message :: "slice \<Rightarrow> slice \<Rightarrow> slice" where
  "Status_message msg msg2 = msg @ (if msg2 = [] then [] else str '': '' @ msg2)"

lemma Status_make_layout:
  assumes "length (Status_message msg msg2) < 2 ^ 32"
  shows "Status_make c msg msg2 =
    Some (native_bytes True 4 (word_of_nat (length (Status_message msg msg2)) :: uint32) @
          Code_byte c # Status_message msg msg2)"
proof -
  have l: "length msg < 2 ^ 32" "length msg2 < 2 ^ 32"
    using assms by (auto simp: Status_message_def split: if_splits)
  moreover have "(word_of_nat (length msg2) :: uint32) \<noteq> 0 \<longleftrightarrow> msg2 \<noteq> []"
    using l(2) by (auto simp: word_unat_eq_iff word_of_nat_unat_eq)
  moreover have "length (str '': '') = 2" by (simp add: str_def)
  ultimately show ?thesis
    by (auto simp: Status_make_def Status_message_def Let_def word_of_nat_unat_eq)
qed

lemma Status_copy_make:
  assumes "length (Status_message msg msg2) + 5 < 2 ^ 32"
  shows "Status_copy (Status_make c msg msg2) = Status_make c msg msg2"
proof -
  have "unat ((word_of_nat (length (Status_message msg msg2)) :: uint32) + 5) =
      length (Status_message msg msg2) + 5"
    using assms by (simp add: unat_word_ariths word_of_nat_unat_eq)
  then show ?thesis
    using assms by (simp add: Status_make_layout Status_copy_def CopyState_def Let_def)
qed

subsection \<open>Properties\<close>

text \<open>An error status carries its code and its message: it is not \<open>ok\<close>, exactly the predicate of
  its code holds, copying it gives an equal status, and \<open>ToString\<close> prints the code's prefix followed by
  \<open>msg\<close>, or \<open>msg: msg2\<close> when the second part is not empty.\<close>

theorem status_code_and_message:
  assumes "length (Status_message msg msg2) + 5 < 2 ^ 32"
  shows "Status_ok Status_OK \<and> \<not> Status_ok (Status_Corruption msg msg2) \<and>
    Status_IsCorruption (Status_Corruption msg msg2) \<and> \<not> Status_IsNotFound (Status_Corruption msg msg2) \<and>
    Status_IsNotFound (Status_NotFound msg msg2) \<and> Status_IsIOError (Status_IOError msg msg2) \<and>
    Status_copy (Status_make c msg msg2) = Status_make c msg msg2 \<and>
    Status_ToString u (Status_Corruption msg msg2) = str ''Corruption: '' @ Status_message msg msg2"
proof -
  have len: "length (Status_message msg msg2) < 2 ^ 32" using assms by simp
  have "Status_code (Some (native_bytes True 4 l @ Code_byte k # m)) = Code_byte k" for l :: uint32 and k m
    by (simp add: Status_code_def nth_append)
  then have "Status_ToString u (Status_Corruption msg msg2) = str ''Corruption: '' @ Status_message msg msg2"
    using len by (simp add: Status_Corruption_def Status_make_layout [OF len] Status_ToString_def Let_def
        word_of_nat_unat_eq del: Code_byte.simps)
  then show ?thesis
    using Status_copy_make [OF assms]
    by (simp add: Status_IsCorruption_def Status_IsNotFound_def Status_IsIOError_def
        Status_Corruption_def Status_NotFound_def Status_IOError_def del: Code_byte.simps)
qed

theorem status_code_and_message_witness:
  "length (Status_message (str ''a'') (str ''b'')) + 5 < 2 ^ 32 \<and>
   Status_ToString (\<lambda>_. []) (Status_Corruption (str ''a'') (str ''b'')) = str ''Corruption: a: b''"
proof -
  have l: "length (Status_message (str ''a'') (str ''b'')) + 5 < 2 ^ 32"
    by (simp add: Status_message_def str_def)
  from status_code_and_message [OF l, of kOk "\<lambda>_. []"] l show ?thesis
    by (simp add: Status_message_def str_def)
qed

end
