(* ===== verification/EnvFiles.thy ===== *)
theory EnvFiles
  imports Status
begin

text \<open>
  The file interfaces of \<open>include/leveldb/env.h\<close> the log and the tables rely on. A client is a
  function of the operations; the laws are those of the interface's comments, for a file on which
  no call fails: an appended slice is at the end of the contents, a sequential read returns the next
  bytes and returns fewer than asked for only at the end of the file.
\<close>

locale writable_file =
  fixes Append :: "'f \<Rightarrow> slice \<Rightarrow> 'f \<times> status"
    and Flush :: "'f \<Rightarrow> 'f \<times> status"
    and contents :: "'f \<Rightarrow> slice"
    and writable :: "'f \<Rightarrow> bool"
  assumes Append_law: "writable f \<Longrightarrow> Append f d = (f', s) \<Longrightarrow>
      s = Status_OK \<and> writable f' \<and> contents f' = contents f @ d"
    and Flush_law: "writable f \<Longrightarrow> Flush f = (f', s) \<Longrightarrow>
      s = Status_OK \<and> writable f' \<and> contents f' = contents f"
begin

lemma Append_ok:
  assumes "writable f"
  obtains f' where "Append f d = (f', Status_OK)" "writable f'" "contents f' = contents f @ d"
  using Append_law [OF assms] by (metis prod.exhaust)

lemma Flush_ok:
  assumes "writable f"
  obtains f' where "Flush f = (f', Status_OK)" "writable f'" "contents f' = contents f"
  using Flush_law [OF assms] by (metis prod.exhaust)

end

locale sequential_file =
  fixes Read :: "'f \<Rightarrow> nat \<Rightarrow> 'f \<times> status \<times> slice"
    and Skip :: "'f \<Rightarrow> nat \<Rightarrow> 'f \<times> status"
    and remaining :: "'f \<Rightarrow> slice"
    and readable :: "'f \<Rightarrow> bool"
  assumes Read_law: "readable f \<Longrightarrow> Read f n = (f', s, r) \<Longrightarrow>
      s = Status_OK \<and> readable f' \<and> r = take n (remaining f) \<and> remaining f' = drop n (remaining f)"
    and Skip_law: "readable f \<Longrightarrow> Skip f n = (f', s) \<Longrightarrow>
      s = Status_OK \<and> readable f' \<and> remaining f' = drop n (remaining f)"
begin

lemma Read_ok:
  assumes "readable f"
  obtains f' where "Read f n = (f', Status_OK, take n (remaining f))" "readable f'"
    "remaining f' = drop n (remaining f)"
  using Read_law [OF assms] by (metis prod.exhaust)

text \<open>Skipping is reading without looking: the documented equivalence of the two.\<close>

lemma Skip_is_Read:
  assumes "readable f" "Skip f n = (f1, s1)" "Read f n = (f2, s2, r)"
  shows "s1 = s2 \<and> remaining f1 = remaining f2"
  using Skip_law [OF assms(1,2)] Read_law [OF assms(1,3)] by simp

lemma Read_short_is_end:
  assumes "readable f" "Read f n = (f', s, r)" "length r < n"
  shows "remaining f' = []"
  using Read_law [OF assms(1,2)] assms(3) by simp

end

locale random_access_file =
  fixes ReadAt :: "'f \<Rightarrow> nat \<Rightarrow> nat \<Rightarrow> status \<times> slice"
    and bytes :: "'f \<Rightarrow> slice"
    and readable :: "'f \<Rightarrow> bool"
  assumes ReadAt_law: "readable f \<Longrightarrow> off \<le> length (bytes f) \<Longrightarrow>
      ReadAt f off n = (Status_OK, take n (drop off (bytes f)))"

end
