(* ===== verification/KeyOrder.thy ===== *)
theory KeyOrder
  imports Prelude
begin

text \<open>
  Key comparison: \<open>Slice::compare\<close> (\<open>include/leveldb/slice.h\<close>), the bytewise comparator of
  \<open>util/comparator.cc\<close> with its two key-shortening routines, and the interface every component
  that sorts or searches keys relies on. A comparator returns a negative, zero or positive integer.
\<close>

subsection \<open>Slices\<close>

text \<open>\<open>memcmp\<close> of the C library on \<open>n\<close> bytes, both arguments at least that long: the sign of the
  first difference, bytes compared as unsigned.\<close>

fun memcmp :: "slice \<Rightarrow> slice \<Rightarrow> nat \<Rightarrow> int" where
  "memcmp (a # as) (b # bs) (Suc n) = (if a < b then -1 else if b < a then 1 else memcmp as bs n)"
| "memcmp as bs n = 0"

definition Slice_compare :: "slice \<Rightarrow> slice \<Rightarrow> int" where
  "Slice_compare a b =
     (let min_len = (if length a < length b then length a else length b);
          r = memcmp a b min_len
      in if r = 0 then
           if length a < length b then -1 else if length a > length b then 1 else r
         else r)"

definition Slice_eq :: "slice \<Rightarrow> slice \<Rightarrow> bool" where
  "Slice_eq x y = (length x = length y \<and> memcmp x y (length x) = 0)"

definition Slice_starts_with :: "slice \<Rightarrow> slice \<Rightarrow> bool" where
  "Slice_starts_with s x = (length x \<le> length s \<and> memcmp s x (length x) = 0)"

subsection \<open>The bytewise comparator\<close>

text \<open>The loop that counts the bytes two strings share, used by \<open>FindShortestSeparator\<close> and by
  \<open>BlockBuilder::Add\<close>.\<close>

fun shared_prefix :: "slice \<Rightarrow> slice \<Rightarrow> nat" where
  "shared_prefix (a # as) (b # bs) = (if a = b then Suc (shared_prefix as bs) else 0)"
| "shared_prefix as bs = 0"

definition Bytewise_Compare :: "slice \<Rightarrow> slice \<Rightarrow> int" where
  "Bytewise_Compare a b = Slice_compare a b"

definition Bytewise_FindShortestSeparator :: "slice \<Rightarrow> slice \<Rightarrow> slice" where
  "Bytewise_FindShortestSeparator start limit =
     (let min_length = min (length start) (length limit);
          diff_index = shared_prefix start limit
      in if min_length \<le> diff_index then start
         else let diff_byte = start ! diff_index in
              if diff_byte < 0xff \<and> unat diff_byte + 1 < unat (limit ! diff_index)
              then take (diff_index + 1) (start[diff_index := diff_byte + 1])
              else start)"

fun Bytewise_FindShortSuccessor :: "slice \<Rightarrow> slice" where
  "Bytewise_FindShortSuccessor [] = []"
| "Bytewise_FindShortSuccessor (byte # rest) =
     (if byte \<noteq> 0xff then [byte + 1] else byte # Bytewise_FindShortSuccessor rest)"

subsection \<open>The comparator interface\<close>

text \<open>
  What \<open>include/leveldb/comparator.h\<close> asks of a comparator: a total order, on the keys the caller may
  pass (\<open>valid\<close>; an internal key, say, has at least eight bytes). Keys that compare equal need not be
  identical.
\<close>

locale key_order =
  fixes valid :: "'k \<Rightarrow> bool"
    and cmp :: "'k \<Rightarrow> 'k \<Rightarrow> int"
  assumes cmp_refl: "valid a \<Longrightarrow> cmp a a = 0"
    and cmp_flip: "valid a \<Longrightarrow> valid b \<Longrightarrow> cmp a b < 0 \<longleftrightarrow> 0 < cmp b a"
    and cmp_trans: "valid a \<Longrightarrow> valid b \<Longrightarrow> valid c \<Longrightarrow> cmp a b \<le> 0 \<Longrightarrow> cmp b c \<le> 0 \<Longrightarrow> cmp a c \<le> 0"
begin

lemma cmp_flip_le: "valid a \<Longrightarrow> valid b \<Longrightarrow> cmp a b \<le> 0 \<longleftrightarrow> 0 \<le> cmp b a"
  using cmp_flip [of b a] by linarith

lemma cmp_eq_sym: "valid a \<Longrightarrow> valid b \<Longrightarrow> cmp a b = 0 \<longleftrightarrow> cmp b a = 0"
  using cmp_flip [of a b] cmp_flip [of b a] by linarith

lemma cmp_less_le_trans:
  assumes v: "valid a" "valid b" "valid c" and "cmp a b < 0" "cmp b c \<le> 0"
  shows "cmp a c < 0"
proof (rule ccontr)
  assume "\<not> cmp a c < 0"
  then have "cmp c a \<le> 0" by (simp add: v cmp_flip_le [of c a])
  with assms have "cmp b a \<le> 0" by (blast intro: cmp_trans)
  then show False using assms by (simp add: cmp_flip_le [of b a])
qed

lemma cmp_le_less_trans:
  assumes v: "valid a" "valid b" "valid c" and "cmp a b \<le> 0" "cmp b c < 0"
  shows "cmp a c < 0"
proof (rule ccontr)
  assume "\<not> cmp a c < 0"
  then have "cmp c a \<le> 0" by (simp add: v cmp_flip_le [of c a])
  with assms have "cmp c b \<le> 0" by (blast intro: cmp_trans)
  then show False using assms by (simp add: cmp_flip_le [of c b])
qed

lemma cmp_less_trans:
  "valid a \<Longrightarrow> valid b \<Longrightarrow> valid c \<Longrightarrow> cmp a b < 0 \<Longrightarrow> cmp b c < 0 \<Longrightarrow> cmp a c < 0"
  by (rule cmp_less_le_trans [of a b c]) simp_all

lemma cmp_irrefl: "valid a \<Longrightarrow> \<not> cmp a a < 0"
  by (simp add: cmp_refl)

lemmas cmp_transs = cmp_trans cmp_less_le_trans cmp_le_less_trans cmp_less_trans

end

text \<open>
  A comparator that can also shorten keys, with the contract of the two routines. The law
  \<open>separator_same\<close> is not in \<open>comparator.h\<close>: \<open>InternalKeyComparator\<close> relies on it, since it asks
  for a separator of two equal user keys too.
\<close>

locale shortening_order = key_order +
  fixes FindShortestSeparator :: "'k \<Rightarrow> 'k \<Rightarrow> 'k"
    and FindShortSuccessor :: "'k \<Rightarrow> 'k"
  assumes separator_valid: "valid s \<Longrightarrow> valid l \<Longrightarrow> valid (FindShortestSeparator s l)"
    and separator_ge: "valid s \<Longrightarrow> valid l \<Longrightarrow> cmp s l < 0 \<Longrightarrow> cmp s (FindShortestSeparator s l) \<le> 0"
    and separator_less: "valid s \<Longrightarrow> valid l \<Longrightarrow> cmp s l < 0 \<Longrightarrow> cmp (FindShortestSeparator s l) l < 0"
    and separator_same: "valid s \<Longrightarrow> valid l \<Longrightarrow> cmp s l = 0 \<Longrightarrow> cmp s (FindShortestSeparator s l) = 0"
    and successor_valid: "valid k \<Longrightarrow> valid (FindShortSuccessor k)"
    and successor_ge: "valid k \<Longrightarrow> cmp k (FindShortSuccessor k) \<le> 0"

subsection \<open>The bytewise order\<close>

lemma memcmp_append: "memcmp a b (Suc n) = (case (a, b) of (x # xs, y # ys) \<Rightarrow> if x < y then -1 else if y < x then 1 else memcmp xs ys n | _ \<Rightarrow> 0)"
  by (cases a; cases b) auto

lemma Slice_compare_simps [simp]:
  "Slice_compare [] [] = 0"
  "Slice_compare [] (y # ys) = -1"
  "Slice_compare (x # xs) [] = 1"
  "Slice_compare (x # xs) (y # ys) = (if x < y then -1 else if y < x then 1 else Slice_compare xs ys)"
  by (auto simp: Slice_compare_def Let_def)

lemma Slice_compare_eq_0 [simp]: "Slice_compare a b = 0 \<longleftrightarrow> a = b"
  by (induction a arbitrary: b; case_tac b) (auto simp: not_less)

lemma Slice_compare_refl [simp]: "Slice_compare a a = 0"
  by simp

lemma Slice_compare_flip: "Slice_compare a b < 0 \<longleftrightarrow> 0 < Slice_compare b a"
  by (induction a arbitrary: b; case_tac b) auto

lemma Slice_compare_trans: "Slice_compare a b \<le> 0 \<Longrightarrow> Slice_compare b c \<le> 0 \<Longrightarrow> Slice_compare a c \<le> 0"
  by (induction a arbitrary: b c; case_tac b; case_tac c) (auto split: if_splits)

lemma memcmp_eq_0: "length x = length y \<Longrightarrow> memcmp x y (length x) = 0 \<longleftrightarrow> x = y"
  by (induction x arbitrary: y; case_tac y) (auto simp: not_less)

lemma Slice_eq_iff [simp]: "Slice_eq x y \<longleftrightarrow> x = y"
  unfolding Slice_eq_def using memcmp_eq_0 by blast

lemma memcmp_take: "memcmp (take n x) y n = memcmp x y n"
  by (induction x y n rule: memcmp.induct) (auto simp: take_Cons' split: nat.splits)

lemma Slice_starts_with_iff: "Slice_starts_with s x \<longleftrightarrow> take (length x) s = x"
proof (cases "length x \<le> length s")
  case True
  then show ?thesis
    using memcmp_eq_0 [of "take (length x) s" x] by (simp add: Slice_starts_with_def memcmp_take)
next
  case False
  then have "length (take (length x) s) \<noteq> length x" by simp
  then show ?thesis using False by (auto simp: Slice_starts_with_def)
qed

lemma shared_prefix_le: "shared_prefix a b \<le> length a" "shared_prefix a b \<le> length b"
  by (induction a b rule: shared_prefix.induct) auto

lemma take_shared_prefix: "take (shared_prefix a b) a = take (shared_prefix a b) b"
  by (induction a b rule: shared_prefix.induct) auto

lemma shared_prefix_take: "take (shared_prefix a b) a @ drop (shared_prefix a b) b = b"
  using take_shared_prefix [of a b] by simp

lemma Slice_compare_prefix: "Slice_compare (p @ a) (p @ b) = Slice_compare a b"
  by (induction p) auto

lemma byte_succ_less: "(b :: byte) \<noteq> 0xff \<Longrightarrow> b < b + 1 \<and> unat (b + 1) = unat b + 1"
proof -
  assume "b \<noteq> 0xff"
  then have "unat b \<noteq> unat (0xff :: byte)" by (auto simp only: word_unat_eq_iff)
  moreover have "unat b < 256" using unsigned_less [of b] by simp
  ultimately have "unat b < 255" by simp
  then show ?thesis by (simp add: word_less_nat_alt unat_word_ariths)
qed

lemma separator_cases:
  "Bytewise_FindShortestSeparator s l = s \<or>
   (\<exists>p a b s' l'. s = p @ a # s' \<and> l = p @ b # l' \<and> a \<noteq> 0xff \<and> unat a + 1 < unat b \<and>
     Bytewise_FindShortestSeparator s l = p @ [a + 1])"
proof -
  let ?d = "shared_prefix s l"
  let ?a = "s ! ?d" and ?b = "l ! ?d"
  consider "Bytewise_FindShortestSeparator s l = s" |
    "?d < length s" "?d < length l" "?a < 0xff" "unat ?a + 1 < unat ?b"
    "Bytewise_FindShortestSeparator s l = take (?d + 1) (s[?d := ?a + 1])"
    unfolding Bytewise_FindShortestSeparator_def Let_def
    by (cases "min (length s) (length l) \<le> ?d"; cases "?a < 0xff \<and> unat ?a + 1 < unat ?b") auto
  then show ?thesis
  proof cases
    case 2
    then have "s = take ?d s @ ?a # drop (Suc ?d) s" "l = take ?d s @ ?b # drop (Suc ?d) l"
      using id_take_nth_drop [of ?d s] id_take_nth_drop [of ?d l] take_shared_prefix [of s l] by simp_all
    moreover have "take (?d + 1) (s[?d := ?a + 1]) = take ?d s @ [?a + 1]"
      using 2(1) by (simp add: take_Suc_conv_app_nth)
    ultimately show ?thesis using 2 by (metis less_irrefl)
  qed blast
qed


lemma separator_same_bytewise: "Bytewise_FindShortestSeparator s s = s"
  using separator_cases [of s s] by auto

lemma separator_ge_bytewise: "Slice_compare s l < 0 \<Longrightarrow> Slice_compare s (Bytewise_FindShortestSeparator s l) \<le> 0"
  using separator_cases [of s l] by (auto simp: Slice_compare_prefix dest: byte_succ_less)

lemma separator_less_bytewise: "Slice_compare s l < 0 \<Longrightarrow> Slice_compare (Bytewise_FindShortestSeparator s l) l < 0"
  using separator_cases [of s l]
  by (auto simp: Slice_compare_prefix word_less_nat_alt dest: byte_succ_less)

lemma successor_ge_bytewise: "Slice_compare k (Bytewise_FindShortSuccessor k) \<le> 0"
  by (induction k) (auto dest: byte_succ_less)

lemma separator_shorter: "length (Bytewise_FindShortestSeparator s l) \<le> length s"
  using separator_cases [of s l] by auto

lemma successor_shorter: "length (Bytewise_FindShortSuccessor k) \<le> length k"
  by (induction k) auto

interpretation bytewise: shortening_order "\<lambda>_. True" Bytewise_Compare
  Bytewise_FindShortestSeparator Bytewise_FindShortSuccessor
  by unfold_locales (auto simp: Bytewise_Compare_def Slice_compare_flip [THEN iffD1] Slice_compare_flip [THEN iffD2] separator_ge_bytewise
      separator_less_bytewise separator_same_bytewise successor_ge_bytewise intro: Slice_compare_trans)

subsection \<open>Properties\<close>



end
