(* ===== verification/MemEnv.thy ===== *)
theory MemEnv
  imports EnvFiles KeyOrder
begin

text \<open>
  The in-memory environment, \<open>helpers/memenv/memenv.cc\<close>: reference-counted files kept in blocks of
  8 KB, the three kinds of file handle, and the file system itself with its map from names to files.
  A dereference of a null or freed \<open>FileState\<close> is the result \<open>None\<close>.
\<close>

subsection \<open>FileState\<close>

definition kMemBlockSize :: nat where
  "kMemBlockSize = 8 * 1024"

record FileState =
  refs :: int
  blocks :: "slice list"
  size0 :: nat

definition FileState_new :: FileState where
  "FileState_new = \<lparr> refs = 0, blocks = [], size0 = 0 \<rparr>"

definition FileState_Ref :: "FileState \<Rightarrow> FileState" where
  "FileState_Ref fs = fs \<lparr> refs := refs fs + 1 \<rparr>"

text \<open>\<open>Unref\<close>: \<open>None\<close> when the object deletes itself.\<close>

definition FileState_Unref :: "FileState \<Rightarrow> FileState option" where
  "FileState_Unref fs =
     (let r = refs fs - 1 in if r \<le> 0 then None else Some (fs \<lparr> refs := r \<rparr>))"

definition FileState_Size :: "FileState \<Rightarrow> nat" where
  "FileState_Size fs = size0 fs"

function FileState_copy :: "slice list \<Rightarrow> nat \<Rightarrow> nat \<Rightarrow> nat \<Rightarrow> slice" where
  "FileState_copy bs block block_offset bytes_to_copy =
     (if bytes_to_copy = 0 \<or> kMemBlockSize \<le> block_offset then []
      else let avail = (if kMemBlockSize - block_offset > bytes_to_copy then bytes_to_copy
                        else kMemBlockSize - block_offset)
           in take avail (drop block_offset (bs ! block)) @
              FileState_copy bs (block + 1) 0 (bytes_to_copy - avail))"
  by pat_completeness auto
termination
  by (relation "measure (\<lambda>(_, _, _, n). n)") (auto simp: kMemBlockSize_def)

declare FileState_copy.simps [simp del]

text \<open>The result argument is left as it was when the offset is out of range.\<close>

definition FileState_Read :: "FileState \<Rightarrow> nat \<Rightarrow> nat \<Rightarrow> slice \<Rightarrow> status \<times> slice" where
  "FileState_Read fs offset n0 result =
     (if offset > size0 fs then (Status_IOError (str ''Offset greater than file size.'') [], result)
      else let available = size0 fs - offset;
               n = (if n0 > available then available else n0)
           in if n = 0 then (Status_OK, [])
              else let block = offset div kMemBlockSize;
                       block_offset = offset mod kMemBlockSize
                   in if n \<le> kMemBlockSize - block_offset
                      then (Status_OK, take n (drop block_offset (blocks fs ! block)))
                      else (Status_OK, FileState_copy (blocks fs) block block_offset n))"

text \<open>\<open>mem i\<close> is what the memory of the \<open>i\<close>-th block holds when \<open>new char[kBlockSize]\<close> returns it.\<close>

function FileState_Append :: "(nat \<Rightarrow> slice) \<Rightarrow> FileState \<Rightarrow> slice \<Rightarrow> FileState \<times> status" where
  "FileState_Append mem fs src =
     (if src = [] then (fs, Status_OK)
      else let offset = size0 fs mod kMemBlockSize;
               bs = (if offset \<noteq> 0 then blocks fs else blocks fs @ [mem (length (blocks fs))]);
               avail0 = (if offset \<noteq> 0 then kMemBlockSize - offset else kMemBlockSize);
               avail = (if avail0 > length src then length src else avail0);
               b = last bs
           in FileState_Append mem
                (fs \<lparr> blocks := butlast bs @ [take offset b @ take avail src @ drop (offset + avail) b],
                      size0 := size0 fs + avail \<rparr>)
                (drop avail src))"
  by pat_completeness auto
termination
proof (relation "measure (\<lambda>(_, _, src). length src)", goal_cases)
  case 2
  have "size0 fs mod kMemBlockSize < kMemBlockSize" for fs by (simp add: kMemBlockSize_def)
  with 2 show ?case by (auto simp: kMemBlockSize_def)
qed simp

declare FileState_Append.simps [simp del]

subsection \<open>File handles\<close>

record SequentialFileImpl =
  sq_file :: nat
  sq_pos :: nat

definition SequentialFileImpl_Read ::
    "FileState \<Rightarrow> SequentialFileImpl \<Rightarrow> nat \<Rightarrow> slice \<Rightarrow> SequentialFileImpl \<times> status \<times> slice" where
  "SequentialFileImpl_Read fs sq n result =
     (let (s, r) = FileState_Read fs (sq_pos sq) n result
      in if Status_ok s then (sq \<lparr> sq_pos := sq_pos sq + length r \<rparr>, s, r) else (sq, s, r))"

definition SequentialFileImpl_Skip ::
    "FileState \<Rightarrow> SequentialFileImpl \<Rightarrow> nat \<Rightarrow> SequentialFileImpl \<times> status" where
  "SequentialFileImpl_Skip fs sq n0 =
     (if sq_pos sq > FileState_Size fs then (sq, Status_IOError (str ''pos_ > file_->Size()'') [])
      else let available = FileState_Size fs - sq_pos sq;
               n = (if n0 > available then available else n0)
           in (sq \<lparr> sq_pos := sq_pos sq + n \<rparr>, Status_OK))"

definition RandomAccessFileImpl_Read :: "FileState \<Rightarrow> nat \<Rightarrow> nat \<Rightarrow> slice \<Rightarrow> status \<times> slice" where
  "RandomAccessFileImpl_Read fs offset n result = FileState_Read fs offset n result"

definition WritableFileImpl_Append :: "(nat \<Rightarrow> slice) \<Rightarrow> FileState \<Rightarrow> slice \<Rightarrow> FileState \<times> status" where
  "WritableFileImpl_Append mem fs data = FileState_Append mem fs data"

definition WritableFileImpl_Flush :: "FileState \<Rightarrow> FileState \<times> status" where
  "WritableFileImpl_Flush fs = (fs, Status_OK)"

definition WritableFileImpl_Sync :: "FileState \<Rightarrow> FileState \<times> status" where
  "WritableFileImpl_Sync fs = (fs, Status_OK)"

definition WritableFileImpl_Close :: "FileState \<Rightarrow> FileState \<times> status" where
  "WritableFileImpl_Close fs = (fs, Status_OK)"

subsection \<open>What a file holds\<close>

definition file_contents :: "FileState \<Rightarrow> slice" where
  "file_contents fs = take (size0 fs) (concat (blocks fs))"

definition file_wf :: "FileState \<Rightarrow> bool" where
  "file_wf fs \<longleftrightarrow> (\<forall>b\<in>set (blocks fs). length b = kMemBlockSize) \<and>
     length (blocks fs) = (size0 fs + kMemBlockSize - 1) div kMemBlockSize"

subsection \<open>Reading\<close>


lemma kMemBlockSize_pos [simp]: "0 < kMemBlockSize"
  by (simp add: kMemBlockSize_def)

lemma length_concat_blocks:
  "\<forall>b\<in>set bs. length b = k \<Longrightarrow> length (concat bs) = k * length bs"
  by (induction bs) auto

lemma drop_concat_blocks:
  assumes "\<forall>b\<in>set bs. length b = k" "i < length bs" "r \<le> k"
  shows "drop (i * k + r) (concat bs) = drop r (bs ! i) @ concat (drop (Suc i) bs)"
  using assms
proof (induction bs arbitrary: i)
  case (Cons b bs)
  then show ?case by (cases i) (auto simp: add.assoc)
qed simp

lemma FileState_copy_eq:
  assumes "\<forall>b\<in>set bs. length b = kMemBlockSize" "off < kMemBlockSize"
    "block * kMemBlockSize + off + n \<le> kMemBlockSize * length bs"
  shows "FileState_copy bs block off n = take n (drop (block * kMemBlockSize + off) (concat bs))"
  using assms(2,3)
proof (induction n arbitrary: block off rule: less_induct)
  case (less n)
  show ?case
  proof (cases "n = 0")
    case False
    then have "kMemBlockSize * block < kMemBlockSize * length bs"
      using less.prems(2) mult.commute [of block kMemBlockSize] by linarith
    then have blk: "block < length bs" by (simp only: mult_less_cancel1)
    then have len: "length (bs ! block) = kMemBlockSize" using assms(1) by simp
    have split: "drop (block * kMemBlockSize + off) (concat bs) =
        drop off (bs ! block) @ concat (drop (Suc block) bs)"
      by (rule drop_concat_blocks [OF assms(1) blk]) (use less.prems in simp)
    have next_block: "drop (Suc block * kMemBlockSize + 0) (concat bs) = concat (drop (Suc block) bs)"
      using drop_concat_blocks [OF assms(1) blk, of kMemBlockSize] len by (simp add: add.commute)
    show ?thesis
    proof (cases "kMemBlockSize - off > n")
      case True
      then show ?thesis using False less.prems split len
        by (simp add: FileState_copy.simps [of bs block off n] FileState_copy.simps [of bs _ _ 0])
    next
      case small: False
      have "FileState_copy bs (Suc block) 0 (n - (kMemBlockSize - off)) =
          take (n - (kMemBlockSize - off)) (drop (Suc block * kMemBlockSize + 0) (concat bs))"
        by (rule less.IH) (use False small less.prems in \<open>auto simp: algebra_simps\<close>)
      then show ?thesis using False small less.prems split len next_block
        by (simp add: FileState_copy.simps [of bs block off n])
    qed
  qed (simp add: FileState_copy.simps)
qed

lemma file_wf_blocks:
  assumes "file_wf fs"
  shows "length (concat (blocks fs)) = kMemBlockSize * length (blocks fs)"
    "size0 fs \<le> kMemBlockSize * length (blocks fs)"
    "length (file_contents fs) = size0 fs"
proof -
  show 1: "length (concat (blocks fs)) = kMemBlockSize * length (blocks fs)"
    by (rule length_concat_blocks) (use assms in \<open>simp add: file_wf_def\<close>)
  show 2: "size0 fs \<le> kMemBlockSize * length (blocks fs)"
    using assms by (auto simp: file_wf_def kMemBlockSize_def)
  show "length (file_contents fs) = size0 fs"
    using 1 2 by (simp add: file_contents_def)
qed

lemma FileState_Read_spec:
  assumes "file_wf fs"
  shows "FileState_Read fs off n result =
    (if off \<le> length (file_contents fs) then (Status_OK, take n (drop off (file_contents fs)))
     else (Status_IOError (str ''Offset greater than file size.'') [], result))"
proof (cases "off \<le> size0 fs")
  case True
  let ?n = "min n (size0 fs - off)" and ?k = kMemBlockSize
  have wf: "\<forall>b\<in>set (blocks fs). length b = ?k" using assms by (simp add: file_wf_def)
  have want: "take n (drop off (file_contents fs)) = take ?n (drop off (concat (blocks fs)))"
    by (simp add: file_contents_def drop_take)
  have read: "FileState_Read fs off n result = (Status_OK, take ?n (drop off (concat (blocks fs))))"
  proof (cases "?n = 0")
    case False
    let ?b = "off div ?k" and ?o = "off mod ?k"
    have "off < ?k * length (blocks fs)"
      using False file_wf_blocks(2) [OF assms] by auto
    then have b: "?b < length (blocks fs)" by (simp add: mult.commute less_mult_imp_div_less)
    have o: "?o < ?k" by simp
    have off: "?b * ?k + ?o = off" by simp
    have inblock: "drop off (concat (blocks fs)) = drop ?o (blocks fs ! ?b) @ concat (drop (Suc ?b) (blocks fs))"
      using drop_concat_blocks [OF wf b, of ?o] o off by simp
    have copy: "FileState_copy (blocks fs) ?b ?o ?n = take ?n (drop off (concat (blocks fs)))"
      using FileState_copy_eq [OF wf o, of ?b ?n] file_wf_blocks(2) [OF assms] off True by simp
    have "length (blocks fs ! ?b) = ?k" using b wf by simp
    then show ?thesis using True False inblock copy
      by (auto simp: FileState_Read_def Let_def min_def)
  qed (use True in \<open>auto simp: FileState_Read_def Let_def min_def split: if_splits\<close>)
  show ?thesis using True read want file_wf_blocks(3) [OF assms] by simp
next
  case False
  then show ?thesis using file_wf_blocks(3) [OF assms] by (simp add: FileState_Read_def)
qed

subsection \<open>Appending\<close>


lemma ceil_div:
  fixes k :: nat
  assumes "0 < n" "n \<le> k"
  shows "(k * q + n + k - 1) div k = Suc q"
proof -
  have "(k * q + n + k - 1) div k = (n + k - 1 + k * q) div k"
    using assms(1) by (simp add: algebra_simps)
  also have "\<dots> = q + (n + k - 1) div k"
    using assms by (subst div_mult_self2) simp_all
  also have "(n + k - 1) div k = 1"
    using assms by (simp add: div_nat_eqI)
  finally show ?thesis by simp
qed

lemma file_wf_last:
  assumes "file_wf fs" "length m = k" "k = kMemBlockSize" "o' = size0 fs mod k"
  obtains bs b where "(if o' \<noteq> 0 then blocks fs else blocks fs @ [m]) = bs @ [b]"
    "\<forall>c\<in>set bs. length c = k" "length b = k" "size0 fs = k * length bs + o'"
proof -
  let ?q = "size0 fs div k"
  have all: "\<forall>c\<in>set (blocks fs). length c = k" using assms(1,3) by (simp add: file_wf_def)
  have k: "0 < k" using assms(3) by simp
  have size: "size0 fs = k * ?q + o'" using assms(4) by simp
  have len: "length (blocks fs) = (k * ?q + o' + k - 1) div k"
    using assms(1,3) size by (simp add: file_wf_def)
  show ?thesis
  proof (cases "o' = 0")
    case True
    then have "length (blocks fs) = ?q" using len k by (simp add: div_nat_eqI)
    then show ?thesis using that [of "blocks fs" m] True assms(2) all size by simp
  next
    case False
    have "o' \<le> k" using assms(4) k by simp
    then have "length (blocks fs) = Suc ?q" using len ceil_div [of o' k ?q] False by simp
    then obtain bs b where *: "blocks fs = bs @ [b]" "length bs = ?q"
      by (auto simp: length_Suc_conv_rev)
    show ?thesis by (rule that [of bs b]) (use False * all size in simp_all)
  qed
qed

lemma file_contents_last:
  assumes "blocks fs = bs @ [b]" "\<forall>c\<in>set bs. length c = k" "size0 fs = k * length bs + n"
  shows "file_contents fs = concat bs @ take n b"
  using assms length_concat_blocks [OF assms(2)] by (simp add: file_contents_def)

lemma file_wf_lastI:
  assumes "blocks fs = bs @ [b]" "\<forall>c\<in>set bs. length c = kMemBlockSize" "length b = kMemBlockSize"
    "size0 fs = kMemBlockSize * length bs + n" "0 < n" "n \<le> kMemBlockSize"
  shows "file_wf fs"
  using assms ceil_div [OF assms(5,6)] by (auto simp: file_wf_def)

lemma FileState_Append_spec:
  assumes "file_wf fs" "\<And>i. length (mem i) = kMemBlockSize" "FileState_Append mem fs src = (fs', s)"
  shows "s = Status_OK \<and> file_wf fs' \<and> file_contents fs' = file_contents fs @ src \<and> refs fs' = refs fs"
  using assms
proof (induction mem fs src arbitrary: fs' s rule: FileState_Append.induct)
  case (1 mem fs src)
  show ?case
  proof (cases "src = []")
    case False
    define o' where "o' = size0 fs mod kMemBlockSize"
    let ?bs = "if o' \<noteq> 0 then blocks fs else blocks fs @ [mem (length (blocks fs))]"
    let ?a = "min (kMemBlockSize - o') (length src)"
    obtain bs b where bs: "?bs = bs @ [b]" "\<forall>c\<in>set bs. length c = kMemBlockSize"
      "length b = kMemBlockSize" "size0 fs = kMemBlockSize * length bs + o'"
      by (rule file_wf_last [OF 1(2) 1(3) refl o'_def])
    let ?b = "take o' b @ take ?a src @ drop (o' + ?a) b"
    let ?f = "fs \<lparr> blocks := bs @ [?b], size0 := size0 fs + ?a \<rparr>"
    have o: "o' < kMemBlockSize" by (simp add: o'_def)
    have wf: "file_wf ?f"
      using False o bs by (intro file_wf_lastI [of _ bs ?b "o' + ?a"]) auto
    have "file_contents fs = concat bs @ take o' b"
    proof (cases "o' = 0")
      case True
      then show ?thesis using bs length_concat_blocks [OF bs(2)] by (simp add: file_contents_def)
    next
      case False
      then show ?thesis using bs by (intro file_contents_last) auto
    qed
    moreover have "file_contents ?f = concat bs @ take (o' + ?a) ?b"
      using bs by (intro file_contents_last) auto
    ultimately have cont: "file_contents ?f = file_contents fs @ take ?a src"
      using o bs by simp
    have "FileState_Append mem fs src = FileState_Append mem ?f (drop ?a src)"
      using False bs(1)
      by (simp add: FileState_Append.simps [of mem fs src] Let_def min_def flip: o'_def)
    then show ?thesis using 1(1) [OF False refl refl refl refl refl, of fs' s] 1(3,4) wf cont bs(1)
      by (simp add: min_def flip: o'_def split: if_splits)
  qed (use 1 in \<open>auto simp: FileState_Append.simps\<close>)
qed

subsection \<open>The file interfaces on memory files\<close>


text \<open>The memory the allocator hands out: any contents, but whole blocks.\<close>

locale block_memory =
  fixes mem :: "nat \<Rightarrow> slice"
  assumes whole_blocks: "length (mem i) = kMemBlockSize"

sublocale block_memory \<subseteq> mem_file: writable_file
    "WritableFileImpl_Append mem" WritableFileImpl_Flush file_contents file_wf
proof
  show "s = Status_OK \<and> file_wf f' \<and> file_contents f' = file_contents f @ d"
    if "file_wf f" "WritableFileImpl_Append mem f d = (f', s)" for f d f' s
    using FileState_Append_spec [OF that(1) whole_blocks] that(2)
    by (simp add: WritableFileImpl_Append_def)
qed (auto simp: WritableFileImpl_Flush_def)

definition zero_memory :: "nat \<Rightarrow> slice" where
  "zero_memory i = replicate kMemBlockSize 0"

interpretation zero_mem: block_memory zero_memory
  by unfold_locales (simp add: zero_memory_def)

text \<open>An open sequential file is the file its handle points to, together with the handle.\<close>

definition mem_Read :: "FileState \<times> SequentialFileImpl \<Rightarrow> nat \<Rightarrow>
    (FileState \<times> SequentialFileImpl) \<times> status \<times> slice" where
  "mem_Read f n = (let (sq, s, r) = SequentialFileImpl_Read (fst f) (snd f) n [] in ((fst f, sq), s, r))"

definition mem_Skip :: "FileState \<times> SequentialFileImpl \<Rightarrow> nat \<Rightarrow>
    (FileState \<times> SequentialFileImpl) \<times> status" where
  "mem_Skip f n = (let (sq, s) = SequentialFileImpl_Skip (fst f) (snd f) n in ((fst f, sq), s))"

definition mem_remaining :: "FileState \<times> SequentialFileImpl \<Rightarrow> slice" where
  "mem_remaining f = drop (sq_pos (snd f)) (file_contents (fst f))"

definition mem_readable :: "FileState \<times> SequentialFileImpl \<Rightarrow> bool" where
  "mem_readable f \<longleftrightarrow> file_wf (fst f) \<and> sq_pos (snd f) \<le> length (file_contents (fst f))"

interpretation mem_seq: sequential_file mem_Read mem_Skip mem_remaining mem_readable
proof
  show "s = Status_OK \<and> mem_readable f' \<and> r = take n (mem_remaining f) \<and>
      mem_remaining f' = drop n (mem_remaining f)"
    if "mem_readable f" "mem_Read f n = (f', s, r)" for f n f' s r
    using that FileState_Read_spec [of "fst f" "sq_pos (snd f)" n "[]"]
    by (auto simp: mem_Read_def mem_readable_def mem_remaining_def SequentialFileImpl_Read_def
        Status_ok_def Status_OK_def min_def add.commute split: prod.splits if_splits)
  show "s = Status_OK \<and> mem_readable f' \<and> mem_remaining f' = drop n (mem_remaining f)"
    if "mem_readable f" "mem_Skip f n = (f', s)" for f n f' s
    using that file_wf_blocks(3) [of "fst f"]
    by (auto simp: mem_Skip_def mem_readable_def mem_remaining_def SequentialFileImpl_Skip_def
        FileState_Size_def add.commute Let_def split: prod.splits if_splits)
qed

interpretation mem_random: random_access_file "\<lambda>fs off n. RandomAccessFileImpl_Read fs off n []" file_contents file_wf
  by unfold_locales (simp add: RandomAccessFileImpl_Read_def FileState_Read_spec)

text \<open>A file of the in-memory environment is the concatenation of the slices appended to it,
  whatever its memory held before: reading any range back returns exactly those bytes (cut at the end
  of the file), and an offset past the end is an I/O error that leaves the result alone.\<close>

theorem mem_file_append_read:
  assumes "\<And>i. length (mem i) = kMemBlockSize"
  shows "case foldl (\<lambda>(fs, s) d. FileState_Append mem fs d) (FileState_new, Status_OK) ds of (fs, s) \<Rightarrow>
      s = Status_OK \<and> size0 fs = length (concat ds) \<and>
      FileState_Read fs off n result =
        (if off \<le> length (concat ds) then (Status_OK, take n (drop off (concat ds)))
         else (Status_IOError (str ''Offset greater than file size.'') [], result))"
proof -
  have *: "case foldl (\<lambda>(fs, s) d. FileState_Append mem fs d) (fs, Status_OK) ds of (fs', s) \<Rightarrow>
      s = Status_OK \<and> file_wf fs' \<and> file_contents fs' = file_contents fs @ concat ds"
    if "file_wf fs" for fs
    using that
  proof (induction ds arbitrary: fs)
    case (Cons d ds)
    obtain fs1 s1 where 1: "FileState_Append mem fs d = (fs1, s1)" by fastforce
    then show ?case using FileState_Append_spec [OF Cons.prems assms 1] Cons.IH [of fs1]
      by (auto split: prod.splits)
  qed simp
  have "file_wf FileState_new \<and> file_contents FileState_new = []"
    by (simp add: FileState_new_def file_wf_def file_contents_def kMemBlockSize_def)
  with * [of FileState_new] show ?thesis
    by (auto simp: FileState_Read_spec file_wf_blocks(3) [symmetric] split: prod.splits)
qed

theorem mem_file_append_read_witness:
  "case foldl (\<lambda>(fs, s) d. FileState_Append zero_memory fs d) (FileState_new, Status_OK) [[1, 2], [3]] of (fs, s) \<Rightarrow>
     FileState_Read fs 1 9 [] = (Status_OK, [2, 3])"
  using mem_file_append_read [of zero_memory "[[1, 2], [3]]" 1 9 "[]"] zero_mem.whole_blocks
  by (auto split: prod.splits)

subsection \<open>The environment\<close>


text \<open>\<open>std::map\<close> keyed by file name: an association list in increasing key order, as iteration sees it.\<close>

fun map_put :: "slice \<Rightarrow> 'v \<Rightarrow> (slice \<times> 'v) list \<Rightarrow> (slice \<times> 'v) list" where
  "map_put k v [] = [(k, v)]"
| "map_put k v ((a, b) # xs) =
     (if k = a then (a, v) # xs
      else if Slice_compare k a < 0 then (k, v) # (a, b) # xs
      else (a, b) # map_put k v xs)"

definition map_erase :: "slice \<Rightarrow> (slice \<times> 'v) list \<Rightarrow> (slice \<times> 'v) list" where
  "map_erase k xs = filter (\<lambda>e. fst e \<noteq> k) xs"

text \<open>The heap holds the live \<open>FileState\<close> objects; the map holds pointers, \<open>None\<close> for \<open>NULL\<close>.\<close>

record InMemoryEnv =
  file_map :: "(slice \<times> nat option) list"
  heap :: "nat \<rightharpoonup> FileState"
  next_addr :: nat

definition InMemoryEnv_new :: InMemoryEnv where
  "InMemoryEnv_new = \<lparr> file_map = [], heap = Map.empty, next_addr = 0 \<rparr>"

definition ptr_Ref :: "InMemoryEnv \<Rightarrow> nat option \<Rightarrow> (InMemoryEnv \<times> nat) option" where
  "ptr_Ref env p = (case p of None \<Rightarrow> None | Some a \<Rightarrow>
     (case heap env a of None \<Rightarrow> None
      | Some fs \<Rightarrow> Some (env \<lparr> heap := (heap env)(a \<mapsto> FileState_Ref fs) \<rparr>, a)))"

definition ptr_Unref :: "InMemoryEnv \<Rightarrow> nat option \<Rightarrow> InMemoryEnv option" where
  "ptr_Unref env p = (case p of None \<Rightarrow> None | Some a \<Rightarrow>
     (case heap env a of None \<Rightarrow> None
      | Some fs \<Rightarrow> Some (env \<lparr> heap := (heap env)(a := FileState_Unref fs) \<rparr>)))"

text \<open>\<open>new FileState()\<close> followed by \<open>Ref()\<close>.\<close>

definition new_file :: "InMemoryEnv \<Rightarrow> InMemoryEnv \<times> nat" where
  "new_file env =
     (env \<lparr> heap := (heap env)(next_addr env \<mapsto> FileState_Ref FileState_new),
            next_addr := next_addr env + 1 \<rparr>, next_addr env)"

definition not_found :: "slice \<Rightarrow> status" where
  "not_found fname = Status_IOError fname (str ''File not found'')"

text \<open>A handle is the address of its file; the read position of a sequential file starts at 0.\<close>

definition NewSequentialFile :: "InMemoryEnv \<Rightarrow> slice \<Rightarrow> (InMemoryEnv \<times> status \<times> nat option) option" where
  "NewSequentialFile env fname =
     (case map_of (file_map env) fname of
        None \<Rightarrow> Some (env, not_found fname, None)
      | Some p \<Rightarrow> map_option (\<lambda>(env, a). (env, Status_OK, Some a)) (ptr_Ref env p))"

definition NewRandomAccessFile :: "InMemoryEnv \<Rightarrow> slice \<Rightarrow> (InMemoryEnv \<times> status \<times> nat option) option" where
  "NewRandomAccessFile env fname =
     (case map_of (file_map env) fname of
        None \<Rightarrow> Some (env, not_found fname, None)
      | Some p \<Rightarrow> map_option (\<lambda>(env, a). (env, Status_OK, Some a)) (ptr_Ref env p))"

definition DeleteFileInternal :: "InMemoryEnv \<Rightarrow> slice \<Rightarrow> InMemoryEnv option" where
  "DeleteFileInternal env fname =
     (case map_of (file_map env) fname of
        None \<Rightarrow> Some env
      | Some p \<Rightarrow> map_option (\<lambda>env. env \<lparr> file_map := map_erase fname (file_map env) \<rparr>) (ptr_Unref env p))"

definition NewWritableFile :: "InMemoryEnv \<Rightarrow> slice \<Rightarrow> (InMemoryEnv \<times> status \<times> nat option) option" where
  "NewWritableFile env fname =
     (case (if map_of (file_map env) fname \<noteq> None then DeleteFileInternal env fname else Some env) of
        None \<Rightarrow> None
      | Some env1 \<Rightarrow>
          (case new_file env1 of (env2, a) \<Rightarrow>
             let env3 = env2 \<lparr> file_map := map_put fname (Some a) (file_map env2) \<rparr>
             in map_option (\<lambda>(env, a). (env, Status_OK, Some a)) (ptr_Ref env3 (Some a))))"

text \<open>\<open>file_map_[fname]\<close> enters a null pointer for a name that is not there; the new file is given
  to the handle only.\<close>

definition NewAppendableFile :: "InMemoryEnv \<Rightarrow> slice \<Rightarrow> (InMemoryEnv \<times> status \<times> nat option) option" where
  "NewAppendableFile env fname =
     (let env1 = (if map_of (file_map env) fname = None
                  then env \<lparr> file_map := map_put fname None (file_map env) \<rparr> else env)
      in case the (map_of (file_map env1) fname) of
           None \<Rightarrow> (case new_file env1 of (env2, a) \<Rightarrow>
               map_option (\<lambda>(env, a). (env, Status_OK, Some a)) (ptr_Ref env2 (Some a)))
         | Some a \<Rightarrow> map_option (\<lambda>(env, a). (env, Status_OK, Some a)) (ptr_Ref env1 (Some a)))"

definition FileExists :: "InMemoryEnv \<Rightarrow> slice \<Rightarrow> bool" where
  "FileExists env fname \<longleftrightarrow> map_of (file_map env) fname \<noteq> None"

definition GetChildren :: "InMemoryEnv \<Rightarrow> slice \<Rightarrow> slice list" where
  "GetChildren env dir =
     map (\<lambda>filename. drop (length dir + 1) filename)
       (filter (\<lambda>filename. length dir + 1 \<le> length filename \<and> filename ! length dir = of_char (CHR ''/'') \<and>
                 Slice_starts_with filename dir)
          (map fst (file_map env)))"

definition DeleteFile :: "InMemoryEnv \<Rightarrow> slice \<Rightarrow> (InMemoryEnv \<times> status) option" where
  "DeleteFile env fname =
     (if map_of (file_map env) fname = None then Some (env, not_found fname)
      else map_option (\<lambda>env. (env, Status_OK)) (DeleteFileInternal env fname))"

definition GetFileSize :: "InMemoryEnv \<Rightarrow> slice \<Rightarrow> (status \<times> nat option) option" where
  "GetFileSize env fname =
     (case map_of (file_map env) fname of
        None \<Rightarrow> Some (not_found fname, None)
      | Some p \<Rightarrow> (case p of None \<Rightarrow> None | Some a \<Rightarrow>
          map_option (\<lambda>fs. (Status_OK, Some (FileState_Size fs))) (heap env a)))"

definition RenameFile :: "InMemoryEnv \<Rightarrow> slice \<Rightarrow> slice \<Rightarrow> (InMemoryEnv \<times> status) option" where
  "RenameFile env src target =
     (if map_of (file_map env) src = None then Some (env, not_found src)
      else case DeleteFileInternal env target of
             None \<Rightarrow> None
           | Some env1 \<Rightarrow>
               let p = (case map_of (file_map env1) src of None \<Rightarrow> None | Some p \<Rightarrow> p)
               in Some (env1 \<lparr> file_map := map_erase src (map_put target p (file_map env1)) \<rparr>, Status_OK))"

text \<open>The destructor of a handle, and that of the environment.\<close>

definition close_handle :: "InMemoryEnv \<Rightarrow> nat \<Rightarrow> InMemoryEnv option" where
  "close_handle env a = ptr_Unref env (Some a)"

definition InMemoryEnv_destroy :: "InMemoryEnv \<Rightarrow> InMemoryEnv option" where
  "InMemoryEnv_destroy env =
     fold (\<lambda>(k, p) acc. case acc of None \<Rightarrow> None | Some env \<Rightarrow> ptr_Unref env p) (file_map env) (Some env)"

definition handle_Append :: "(nat \<Rightarrow> slice) \<Rightarrow> InMemoryEnv \<Rightarrow> nat \<Rightarrow> slice \<Rightarrow> (InMemoryEnv \<times> status) option" where
  "handle_Append mem env a data =
     (case heap env a of None \<Rightarrow> None
      | Some fs \<Rightarrow> (case WritableFileImpl_Append mem fs data of (fs', s) \<Rightarrow>
          Some (env \<lparr> heap := (heap env)(a \<mapsto> fs') \<rparr>, s)))"

subsection \<open>Reference counts\<close>

text \<open>A state of the environment with the files open on it. The counts agree with the pointers held,
  so a live file is one that is named or open.\<close>

definition pointers :: "InMemoryEnv \<Rightarrow> nat list \<Rightarrow> nat option list" where
  "pointers env hs = map snd (file_map env) @ map Some hs"

definition keys_sorted :: "(slice \<times> 'v) list \<Rightarrow> bool" where
  "keys_sorted xs \<longleftrightarrow> sorted_wrt (\<lambda>a b. Slice_compare a b < 0) (map fst xs)"

definition env_inv :: "InMemoryEnv \<Rightarrow> nat list \<Rightarrow> bool" where
  "env_inv env hs \<longleftrightarrow>
     keys_sorted (file_map env) \<and> None \<notin> set (pointers env hs) \<and>
     (\<forall>a. int (count_list (pointers env hs) (Some a)) =
            (case heap env a of None \<Rightarrow> 0 | Some fs \<Rightarrow> refs fs)) \<and>
     (\<forall>a fs. heap env a = Some fs \<longrightarrow> 0 < refs fs \<and> file_wf fs \<and> a < next_addr env)"


lemma map_of_put [simp]: "map_of (map_put k v xs) = (map_of xs)(k \<mapsto> v)"
  by (induction k v xs rule: map_put.induct) (auto simp: fun_eq_iff)

lemma map_of_erase [simp]: "map_of (map_erase k xs) = (map_of xs)(k := None)"
  by (induction xs) (auto simp: map_erase_def fun_eq_iff)

lemma keys_sorted_Cons: "keys_sorted (x # xs) \<longleftrightarrow> (\<forall>k\<in>fst ` set xs. Slice_compare (fst x) k < 0) \<and> keys_sorted xs"
  by (simp add: keys_sorted_def)

lemma map_put_keys: "fst ` set (map_put k v xs) = insert k (fst ` set xs)"
  by (induction k v xs rule: map_put.induct) auto

lemma Slice_less_trans: "Slice_compare a b < 0 \<Longrightarrow> Slice_compare b c < 0 \<Longrightarrow> Slice_compare a c < 0"
  using bytewise.cmp_less_trans [of a b c] by (simp add: Bytewise_Compare_def)

lemma Slice_linear: "k \<noteq> a \<Longrightarrow> \<not> Slice_compare k a < 0 \<Longrightarrow> Slice_compare a k < 0"
  using Slice_compare_flip [of a k] Slice_compare_eq_0 [of k a] by linarith

lemma keys_sorted_put: "keys_sorted xs \<Longrightarrow> keys_sorted (map_put k v xs)"
proof (induction k v xs rule: map_put.induct)
  case (2 k v a b xs)
  consider "k = a" | "Slice_compare k a < 0" | "k \<noteq> a" "Slice_compare a k < 0" "\<not> Slice_compare k a < 0"
    using Slice_linear [of k a] by blast
  then show ?case
  proof cases
    case 2
    have "Slice_compare k j < 0" if "j \<in> fst ` set xs" for j
      using that "2.prems" Slice_less_trans [OF 2] by (auto simp: keys_sorted_Cons)
    then show ?thesis using 2 "2.prems" by (auto simp: keys_sorted_Cons)
  qed (use 2 in \<open>auto simp: keys_sorted_Cons map_put_keys\<close>)
qed (simp add: keys_sorted_def)

lemma keys_sorted_erase: "keys_sorted xs \<Longrightarrow> keys_sorted (map_erase k xs)"
  by (induction xs) (auto simp: keys_sorted_Cons map_erase_def)

lemma keys_sorted_absent: "\<forall>j\<in>fst ` set xs. Slice_compare k j < 0 \<Longrightarrow> map_of xs k = None"
  by (force simp: map_of_eq_None_iff)

lemma count_put:
  "keys_sorted xs \<Longrightarrow> count_list (map snd (map_put k v xs)) w + (if map_of xs k = Some w then 1 else 0) =
     count_list (map snd xs) w + (if v = w then 1 else 0)"
proof (induction k v xs rule: map_put.induct)
  case (2 k v a b xs)
  have "map_of xs k = None" if "k = a \<or> Slice_compare k a < 0"
    using that 2(2) by (intro keys_sorted_absent) (auto simp: keys_sorted_Cons intro: Slice_less_trans)
  with 2 show ?case by (auto simp: keys_sorted_Cons)
qed simp

lemma map_erase_absent: "map_of xs k = None \<Longrightarrow> map_erase k xs = xs"
  by (auto simp: map_erase_def map_of_eq_None_iff intro!: filter_True)

lemma count_erase:
  "keys_sorted xs \<Longrightarrow> count_list (map snd (map_erase k xs)) w + (if map_of xs k = Some w then 1 else 0) =
     count_list (map snd xs) w"
proof (induction xs)
  case (Cons x xs)
  have "map_of xs k = None" if "k = fst x"
    using that Cons(2) by (intro keys_sorted_absent) (auto simp: keys_sorted_Cons)
  with Cons map_erase_absent [of xs k] show ?case by (cases x) (auto simp: keys_sorted_Cons map_erase_def)
qed (simp add: map_erase_def)

lemma env_invD:
  assumes "env_inv env hs"
  shows "keys_sorted (file_map env)" "count_list (pointers env hs) None = 0"
    "heap env a = None \<Longrightarrow> count_list (pointers env hs) (Some a) = 0"
    "heap env a = Some fs \<Longrightarrow> int (count_list (pointers env hs) (Some a)) = refs fs \<and> 0 < refs fs \<and>
       file_wf fs \<and> a < next_addr env"
proof -
  have "int (count_list (pointers env hs) (Some a)) = (case heap env a of None \<Rightarrow> 0 | Some fs \<Rightarrow> refs fs)"
    using assms unfolding env_inv_def by blast
  moreover have "heap env a = Some fs \<Longrightarrow> 0 < refs fs \<and> file_wf fs \<and> a < next_addr env"
    using assms unfolding env_inv_def by blast
  ultimately show "heap env a = None \<Longrightarrow> count_list (pointers env hs) (Some a) = 0"
    "heap env a = Some fs \<Longrightarrow> int (count_list (pointers env hs) (Some a)) = refs fs \<and> 0 < refs fs \<and>
       file_wf fs \<and> a < next_addr env"
    by simp_all
qed (use assms in \<open>simp_all add: env_inv_def count_list_0_iff\<close>)

lemma env_invI:
  assumes "keys_sorted (file_map env)" "count_list (pointers env hs) None = 0"
    "\<And>a. heap env a = None \<Longrightarrow> count_list (pointers env hs) (Some a) = 0"
    "\<And>a fs. heap env a = Some fs \<Longrightarrow> int (count_list (pointers env hs) (Some a)) = refs fs \<and> 0 < refs fs \<and>
       file_wf fs \<and> a < next_addr env"
  shows "env_inv env hs"
  using assms by (auto simp: env_inv_def count_list_0_iff split: option.splits)

lemma env_inv_Unref:
  assumes inv: "env_inv env hs" and sorted: "keys_sorted (file_map env')"
    and cnt: "\<And>p. count_list (pointers env' hs') p + (if p = Some a then 1 else 0) = count_list (pointers env hs) p"
    and fs: "heap env a = Some fs" and heap': "heap env' = (heap env)(a := FileState_Unref fs)"
    and nxt: "next_addr env' = next_addr env"
  shows "env_inv env' hs'"
proof (rule env_invI)
  show "count_list (pointers env' hs') None = 0" using cnt [of None] env_invD(2) [OF inv] by simp
next
  fix b assume "heap env' b = None"
  then show "count_list (pointers env' hs') (Some b) = 0"
    using env_invD(3) [OF inv, of b] env_invD(4) [OF inv fs] cnt [of "Some b"] heap'
    by (auto simp: FileState_Unref_def Let_def split: if_splits)
next
  fix b fs' assume "heap env' b = Some fs'"
  then show "int (count_list (pointers env' hs') (Some b)) = refs fs' \<and> 0 < refs fs' \<and>
      file_wf fs' \<and> b < next_addr env'"
    using env_invD(4) [OF inv, of b] env_invD(4) [OF inv fs] cnt [of "Some b"] heap' nxt
    by (auto simp: FileState_Unref_def Let_def file_wf_def split: if_splits)
qed (rule sorted)

lemma env_inv_Ref:
  assumes inv: "env_inv env hs" and sorted: "keys_sorted (file_map env')"
    and cnt: "\<And>p. count_list (pointers env' hs') p = count_list (pointers env hs) p + (if p = Some a then 1 else 0)"
    and fs: "heap env a = Some fs" and heap': "heap env' = (heap env)(a := Some (FileState_Ref fs))"
    and nxt: "next_addr env' = next_addr env"
  shows "env_inv env' hs'"
proof (rule env_invI)
  show "count_list (pointers env' hs') None = 0" using cnt [of None] env_invD(2) [OF inv] by simp
next
  fix b assume "heap env' b = None"
  then show "count_list (pointers env' hs') (Some b) = 0"
    using env_invD(3) [OF inv, of b] cnt [of "Some b"] heap' by (auto split: if_splits)
next
  fix b fs' assume "heap env' b = Some fs'"
  then show "int (count_list (pointers env' hs') (Some b)) = refs fs' \<and> 0 < refs fs' \<and>
      file_wf fs' \<and> b < next_addr env'"
    using env_invD(4) [OF inv, of b] env_invD(4) [OF inv fs] cnt [of "Some b"] heap' nxt
    by (auto simp: FileState_Ref_def file_wf_def split: if_splits)
qed (rule sorted)

lemma env_inv_same:
  assumes inv: "env_inv env hs" and "keys_sorted (file_map env')"
    "\<And>p. count_list (pointers env' hs') p = count_list (pointers env hs) p"
    "heap env' = heap env" "next_addr env' = next_addr env"
  shows "env_inv env' hs'"
  by (rule env_invI) (use assms env_invD [OF inv] in simp_all)

subsection \<open>Every call keeps the counts\<close>


text \<open>The open files after a call that may have opened one.\<close>

definition opened :: "nat option \<Rightarrow> nat list \<Rightarrow> nat list" where
  "opened h hs = (case h of None \<Rightarrow> hs | Some a \<Rightarrow> a # hs)"

lemma pointers_Cons [simp]: "count_list (pointers env (a # hs)) p = count_list (pointers env hs) p + (if p = Some a then 1 else 0)"
  by (simp add: pointers_def)

lemma count_pos: "x \<in> set xs \<Longrightarrow> 0 < count_list xs x"
  using count_list_0_iff [of xs x] by simp

lemma live_pointer:
  assumes "env_inv env hs" "p \<in> set (pointers env hs)"
  obtains a fs where "p = Some a" "heap env a = Some fs"
  using assms env_invD(2,3) [OF assms(1)] count_pos [OF assms(2)]
  by (cases p) (metis less_irrefl, metis less_irrefl option.exhaust)

lemma named_pointer:
  assumes "env_inv env hs" "map_of (file_map env) k = Some p"
  obtains a fs where "p = Some a" "heap env a = Some fs"
  by (rule live_pointer [OF assms(1), of p])
    (use map_of_SomeD [OF assms(2)] in \<open>force simp: pointers_def\<close>)+

lemma ptr_Ref_inv:
  assumes "env_inv env hs" "heap env a = Some fs"
  shows "\<exists>env'. ptr_Ref env (Some a) = Some (env', a) \<and> env_inv env' (a # hs) \<and> file_map env' = file_map env"
  using assms env_invD(1) [OF assms(1)]
  by (auto simp: ptr_Ref_def pointers_def intro!: env_inv_Ref [OF assms(1), of _ _ a])

lemma open_named_inv:
  assumes "env_inv env hs" "map_of (file_map env) k = Some p"
  shows "\<exists>env' a. ptr_Ref env p = Some (env', a) \<and> p = Some a \<and> env_inv env' (a # hs)"
  using named_pointer [OF assms] ptr_Ref_inv [OF assms(1)] by metis

lemma NewSequentialFile_inv:
  assumes "env_inv env hs"
  shows "\<exists>env' s h. NewSequentialFile env k = Some (env', s, h) \<and> env_inv env' (opened h hs)"
proof (cases "map_of (file_map env) k")
  case (Some p)
  then show ?thesis using open_named_inv [OF assms Some] by (auto simp: NewSequentialFile_def opened_def)
qed (use assms in \<open>simp add: NewSequentialFile_def opened_def\<close>)

lemma NewRandomAccessFile_inv:
  assumes "env_inv env hs"
  shows "\<exists>env' s h. NewRandomAccessFile env k = Some (env', s, h) \<and> env_inv env' (opened h hs)"
proof (cases "map_of (file_map env) k")
  case (Some p)
  then show ?thesis using open_named_inv [OF assms Some] by (auto simp: NewRandomAccessFile_def opened_def)
qed (use assms in \<open>simp add: NewRandomAccessFile_def opened_def\<close>)

lemma DeleteFileInternal_inv:
  assumes "env_inv env hs"
  shows "\<exists>env'. DeleteFileInternal env k = Some env' \<and> env_inv env' hs \<and> file_map env' = map_erase k (file_map env)"
proof (cases "map_of (file_map env) k")
  case None
  then show ?thesis using assms by (simp add: DeleteFileInternal_def map_erase_absent)
next
  case (Some p)
  obtain a fs where a: "p = Some a" "heap env a = Some fs" by (rule named_pointer [OF assms Some])
  have cnt: "count_list (map snd (map_erase k (file_map env))) w + (if w = Some a then 1 else 0) =
      count_list (map snd (file_map env)) w" for w
    using count_erase [OF env_invD(1) [OF assms], of k w] Some a by (auto split: if_splits)
  have "env_inv (env \<lparr> heap := (heap env)(a := FileState_Unref fs), file_map := map_erase k (file_map env) \<rparr>) hs"
    using cnt [symmetric] Some a
    by (intro env_inv_Unref [OF assms, of _ _ a fs])
      (auto simp: keys_sorted_erase env_invD(1) [OF assms] pointers_def)
  then show ?thesis using Some a by (simp add: DeleteFileInternal_def ptr_Unref_def)
qed

lemma new_file_inv:
  assumes "env_inv env hs" "new_file env = (env', a)"
  shows "env_inv env' (a # hs) \<and> file_map env' = file_map env \<and> heap env' a \<noteq> None"
proof -
  have fresh: "heap env (next_addr env) = None"
    using env_invD(4) [OF assms(1), of "next_addr env"] by (cases "heap env (next_addr env)") auto
  have wf: "file_wf (FileState_Ref FileState_new)"
    by (simp add: FileState_new_def FileState_Ref_def file_wf_def kMemBlockSize_def)
  have eq: "count_list (pointers env' hs) p = count_list (pointers env hs) p" for p
    using assms(2) by (auto simp: new_file_def pointers_def)
  have "env_inv env' (a # hs)"
  proof (rule env_invI)
    fix b fs assume b: "heap env' b = Some fs"
    show "int (count_list (pointers env' (a # hs)) (Some b)) = refs fs \<and> 0 < refs fs \<and> file_wf fs \<and>
        b < next_addr env'"
      using b assms(2) fresh wf env_invD(3) [OF assms(1) fresh] env_invD(4) [OF assms(1), of b fs]
      unfolding pointers_Cons eq
      by (auto simp: new_file_def FileState_Ref_def FileState_new_def split: if_splits)
  qed (use assms(2) env_invD(1,2,3) [OF assms(1)] eq in \<open>auto simp: new_file_def split: if_splits\<close>)
  then show ?thesis using assms(2) by (auto simp: new_file_def)
qed

lemma name_file_inv:
  assumes "env_inv env (a # hs)" "map_of (file_map env) k = None"
  shows "env_inv (env \<lparr> file_map := map_put k (Some a) (file_map env) \<rparr>) hs"
  using count_put [OF env_invD(1) [OF assms(1)], of k "Some a"] assms(2)
  by (intro env_inv_same [OF assms(1)])
    (auto simp: keys_sorted_put env_invD(1) [OF assms(1)] pointers_def)

lemma NewWritableFile_inv:
  assumes "env_inv env hs"
  shows "\<exists>env' a. NewWritableFile env k = Some (env', Status_OK, Some a) \<and> env_inv env' (a # hs)"
proof -
  obtain env1 where 1: "(if map_of (file_map env) k \<noteq> None then DeleteFileInternal env k else Some env) = Some env1"
    "env_inv env1 hs" "map_of (file_map env1) k = None"
    using DeleteFileInternal_inv [OF assms, of k] assms by (cases "map_of (file_map env) k") auto
  obtain env2 a where 2: "new_file env1 = (env2, a)" by fastforce
  let ?e = "env2 \<lparr> file_map := map_put k (Some a) (file_map env2) \<rparr>"
  have "env_inv ?e hs"
    using new_file_inv [OF 1(2) 2] 1(3) by (intro name_file_inv) auto
  moreover obtain fs where "heap ?e a = Some fs" using new_file_inv [OF 1(2) 2] by auto
  ultimately show ?thesis using ptr_Ref_inv [of ?e hs a fs] 1(1) 2
    by (force simp: NewWritableFile_def)
qed

lemma NewAppendableFile_inv:
  assumes "env_inv env hs" "FileExists env k"
  shows "\<exists>env' a. NewAppendableFile env k = Some (env', Status_OK, Some a) \<and> env_inv env' (a # hs)"
  using assms(2) open_named_inv [OF assms(1)]
  by (fastforce simp: NewAppendableFile_def FileExists_def)

lemma DeleteFile_inv:
  assumes "env_inv env hs"
  shows "\<exists>env' s. DeleteFile env k = Some (env', s) \<and> env_inv env' hs"
  using assms DeleteFileInternal_inv [OF assms, of k] by (auto simp: DeleteFile_def)

lemma GetFileSize_inv:
  assumes "env_inv env hs"
  shows "\<exists>r. GetFileSize env k = Some r"
  using named_pointer [OF assms] by (fastforce simp: GetFileSize_def split: option.splits)

lemma RenameFile_inv:
  assumes "env_inv env hs" "src \<noteq> target"
  shows "\<exists>env' s. RenameFile env src target = Some (env', s) \<and> env_inv env' hs"
proof (cases "map_of (file_map env) src")
  case None
  then show ?thesis using assms by (simp add: RenameFile_def)
next
  case (Some p)
  obtain env1 where 1: "DeleteFileInternal env target = Some env1" "env_inv env1 hs"
    "file_map env1 = map_erase target (file_map env)"
    using DeleteFileInternal_inv [OF assms(1)] by metis
  let ?m = "map_put target p (file_map env1)"
  have m: "map_of (file_map env1) src = Some p" "map_of (file_map env1) target = None"
    using 1(3) Some assms(2) by simp_all
  have s: "keys_sorted (file_map env1)" "keys_sorted ?m"
    using env_invD(1) [OF 1(2)] by (simp_all add: keys_sorted_put)
  have "env_inv (env1 \<lparr> file_map := map_erase src ?m \<rparr>) hs"
    using count_put [OF s(1), of target p] count_erase [OF s(2), of src] m assms(2)
    by (intro env_inv_same [OF 1(2)]) (force simp: keys_sorted_erase s pointers_def)+
  then show ?thesis using 1 m Some by (simp add: RenameFile_def)
qed

lemma close_handle_inv:
  assumes "env_inv env hs" "a \<in> set hs"
  shows "\<exists>env'. close_handle env a = Some env' \<and> env_inv env' (remove1 a hs)"
proof -
  obtain fs where fs: "heap env a = Some fs"
    using live_pointer [OF assms(1), of "Some a"] assms(2) by (auto simp: pointers_def)
  have "count_list (map Some (remove1 a hs)) p + (if p = Some a then 1 else 0) = count_list (map Some hs) p" for p
    using assms(2) by (induction hs) auto
  then have "env_inv (env \<lparr> heap := (heap env)(a := FileState_Unref fs) \<rparr>) (remove1 a hs)"
    by (intro env_inv_Unref [OF assms(1) _ _ fs]) (auto simp: env_invD(1) [OF assms(1)] pointers_def)
  then show ?thesis using fs by (simp add: close_handle_def ptr_Unref_def)
qed

lemma handle_Append_inv:
  assumes "env_inv env hs" "a \<in> set hs" "\<And>i. length (mem i) = kMemBlockSize"
  shows "\<exists>env'. handle_Append mem env a d = Some (env', Status_OK) \<and> env_inv env' hs"
proof -
  obtain fs where fs: "heap env a = Some fs"
    using live_pointer [OF assms(1), of "Some a"] assms(2) by (auto simp: pointers_def)
  obtain fs' s where app: "FileState_Append mem fs d = (fs', s)" by fastforce
  have inv: "file_wf fs" using env_invD(4) [OF assms(1) fs] by simp
  have "env_inv (env \<lparr> heap := (heap env)(a \<mapsto> fs') \<rparr>) hs"
    using env_invD [OF assms(1)] FileState_Append_spec [OF inv assms(3) app] fs
    by (intro env_invI) (auto simp: pointers_def split: if_splits)
  then show ?thesis using fs app FileState_Append_spec [OF inv assms(3) app]
    by (simp add: handle_Append_def WritableFileImpl_Append_def)
qed

subsection \<open>Safety of the environment\<close>


lemma destroy_loop:
  assumes "env_inv (env \<lparr> file_map := xs \<rparr>) []"
  shows "\<exists>env'. fold (\<lambda>(k, p) acc. case acc of None \<Rightarrow> None | Some env \<Rightarrow> ptr_Unref env p) xs (Some env) = Some env' \<and>
    heap env' = Map.empty"
  using assms
proof (induction xs arbitrary: env)
  case Nil
  have "heap env a = None" for a
    using env_invD(4) [OF Nil, of a] by (cases "heap env a") (auto simp: pointers_def)
  then show ?case by auto
next
  case (Cons x xs)
  obtain k p where x: "x = (k, p)" by force
  obtain a fs where p: "p = Some a" "heap env a = Some fs"
    using live_pointer [OF Cons.prems, of p] x by (auto simp: pointers_def)
  let ?e = "env \<lparr> heap := (heap env)(a := FileState_Unref fs) \<rparr>"
  have "env_inv (?e \<lparr> file_map := xs \<rparr>) []"
    by (rule env_inv_Unref [OF Cons.prems, of _ _ a fs])
      (use p x env_invD(1) [OF Cons.prems] in \<open>auto simp: pointers_def keys_sorted_Cons\<close>)
  moreover have "ptr_Unref env p = Some ?e" using p by (simp add: ptr_Unref_def)
  ultimately show ?case using Cons.IH [of ?e] x by simp
qed

lemma InMemoryEnv_destroy_inv:
  "env_inv env [] \<Longrightarrow> \<exists>env'. InMemoryEnv_destroy env = Some env' \<and> heap env' = Map.empty"
  using destroy_loop [where env = env and xs = "file_map env"] by (simp add: InMemoryEnv_destroy_def)

text \<open>The calls a client makes, one after the other: opening, appending, closing, deleting, renaming.
  \<open>NewAppendableFile\<close> on a missing name and \<open>RenameFile\<close> of a file to itself are left out.\<close>

inductive env_step :: "(nat \<Rightarrow> slice) \<Rightarrow> InMemoryEnv \<times> nat list \<Rightarrow> InMemoryEnv \<times> nat list \<Rightarrow> bool"
  for mem where
  step_seq: "NewSequentialFile env k = Some (env', s, h) \<Longrightarrow> env_step mem (env, hs) (env', opened h hs)"
| step_random: "NewRandomAccessFile env k = Some (env', s, h) \<Longrightarrow> env_step mem (env, hs) (env', opened h hs)"
| step_write: "NewWritableFile env k = Some (env', s, h) \<Longrightarrow> env_step mem (env, hs) (env', opened h hs)"
| step_append: "FileExists env k \<Longrightarrow> NewAppendableFile env k = Some (env', s, h) \<Longrightarrow>
    env_step mem (env, hs) (env', opened h hs)"
| step_data: "a \<in> set hs \<Longrightarrow> handle_Append mem env a d = Some (env', s) \<Longrightarrow> env_step mem (env, hs) (env', hs)"
| step_close: "a \<in> set hs \<Longrightarrow> close_handle env a = Some env' \<Longrightarrow> env_step mem (env, hs) (env', remove1 a hs)"
| step_delete: "DeleteFile env k = Some (env', s) \<Longrightarrow> env_step mem (env, hs) (env', hs)"
| step_rename: "src \<noteq> target \<Longrightarrow> RenameFile env src target = Some (env', s) \<Longrightarrow> env_step mem (env, hs) (env', hs)"

inductive_cases env_stepE: "env_step mem (env, hs) st"

lemma env_step_inv:
  assumes "env_step mem (env, hs) (env', hs')" "env_inv env hs" "\<And>i. length (mem i) = kMemBlockSize"
  shows "env_inv env' hs'"
  using assms(1)
proof (cases rule: env_step.cases)
  case (step_seq k s h)
  then show ?thesis using NewSequentialFile_inv [OF assms(2), of k] by auto
next
  case (step_random k s h)
  then show ?thesis using NewRandomAccessFile_inv [OF assms(2), of k] by auto
next
  case (step_write k s h)
  then show ?thesis using NewWritableFile_inv [OF assms(2), of k] by (auto simp: opened_def)
next
  case (step_append k s h)
  then show ?thesis using NewAppendableFile_inv [OF assms(2), of k] by (auto simp: opened_def)
next
  case (step_data a d s)
  then show ?thesis using handle_Append_inv [where mem = mem and d = d, OF assms(2) _ assms(3)] by fastforce
next
  case (step_close a)
  then show ?thesis using close_handle_inv [OF assms(2), of a] by auto
next
  case (step_delete k s)
  then show ?thesis using DeleteFile_inv [OF assms(2), of k] by auto
next
  case (step_rename src target s)
  then show ?thesis using RenameFile_inv [OF assms(2), of src target] by auto
qed

lemma env_steps_inv:
  assumes "(env_step mem)\<^sup>*\<^sup>* (InMemoryEnv_new, []) (env, hs)" "\<And>i. length (mem i) = kMemBlockSize"
  shows "env_inv env hs"
  using assms(1)
proof (induction rule: rtranclp_induct2)
  case refl
  show ?case by (rule env_invI) (simp_all add: InMemoryEnv_new_def pointers_def keys_sorted_def)
qed (use env_step_inv assms(2) in blast)




end
