(* ===== verification/Log.thy ===== *)
theory Log
  imports MemEnv Crc32c
begin

text \<open>
  The write-ahead log: \<open>db/log_format.h\<close>, \<open>db/log_writer.cc\<close> and \<open>db/log_reader.cc\<close>. A log is a
  sequence of 32 KB blocks; a record is written as one or more physical records, none of which
  crosses a block boundary. The file operations are arguments. Offsets within the file are 64-bit and
  wrap; \<open>block_offset_\<close> never exceeds the block size, so its subtractions are exact on naturals.
\<close>

subsection \<open>Format\<close>

datatype RecordType = kZeroType | kFullType | kFirstType | kMiddleType | kLastType

fun RecordType_code :: "RecordType \<Rightarrow> nat" where
  "RecordType_code kZeroType = 0"
| "RecordType_code kFullType = 1"
| "RecordType_code kFirstType = 2"
| "RecordType_code kMiddleType = 3"
| "RecordType_code kLastType = 4"

definition kMaxRecordType :: nat where
  "kMaxRecordType = RecordType_code kLastType"

definition kBlockSize :: nat where
  "kBlockSize = 32768"

definition kHeaderSize :: nat where
  "kHeaderSize = 4 + 2 + 1"

subsection \<open>Writer\<close>

record 'f Writer =
  dest :: 'f
  block_offset :: nat
  type_crc :: "uint32 list"

definition InitTypeCrc :: "uint32 list" where
  "InitTypeCrc = map (\<lambda>i. crc32c_Value [word_of_nat i]) [0..<kMaxRecordType + 1]"

definition Writer_new :: "'f \<Rightarrow> 'f Writer" where
  "Writer_new d = \<lparr> dest = d, block_offset = 0, type_crc = InitTypeCrc \<rparr>"

definition Writer_append :: "'f \<Rightarrow> nat \<Rightarrow> 'f Writer" where
  "Writer_append d dest_length = \<lparr> dest = d, block_offset = dest_length mod kBlockSize, type_crc = InitTypeCrc \<rparr>"

definition EmitPhysicalRecord ::
    "('f \<Rightarrow> slice \<Rightarrow> 'f \<times> status) \<Rightarrow> ('f \<Rightarrow> 'f \<times> status) \<Rightarrow> 'f Writer \<Rightarrow> RecordType \<Rightarrow> slice \<Rightarrow>
     'f Writer \<times> status" where
  "EmitPhysicalRecord Append Flush w t ptr =
     (let n = length ptr;
          crc = crc32c_Mask (crc32c_Extend (type_crc w ! RecordType_code t) ptr);
          buf = EncodeFixed32 crc @
                [word_of_nat n AND 0xff, word_of_nat (n div 2 ^ 8), word_of_nat (RecordType_code t)];
          (d1, s1) = Append (dest w) buf;
          (d3, s3) = (if Status_ok s1
                      then case Append d1 ptr of (d2, s2) \<Rightarrow> if Status_ok s2 then Flush d2 else (d2, s2)
                      else (d1, s1))
      in (w \<lparr> dest := d3, block_offset := block_offset w + (kHeaderSize + n) \<rparr>, s3))"

text \<open>The top of the loop body of \<open>AddRecord\<close>: fill the trailer and move to a new block when no
  header fits. The status of the trailer's \<open>Append\<close> is dropped.\<close>

definition SwitchBlock :: "('f \<Rightarrow> slice \<Rightarrow> 'f \<times> status) \<Rightarrow> 'f Writer \<Rightarrow> 'f Writer" where
  "SwitchBlock Append w =
     (let leftover = kBlockSize - block_offset w
      in if leftover < kHeaderSize
         then (if leftover > 0 then w \<lparr> dest := fst (Append (dest w) (replicate leftover 0)) \<rparr> else w)
              \<lparr> block_offset := 0 \<rparr>
         else w)"

definition fragment_type :: "bool \<Rightarrow> bool \<Rightarrow> RecordType" where
  "fragment_type begin0 end0 =
     (if begin0 \<and> end0 then kFullType else if begin0 then kFirstType
      else if end0 then kLastType else kMiddleType)"

lemma block_offset_Switch: "block_offset (SwitchBlock Append w) =
    (if kBlockSize - block_offset w < kHeaderSize then 0 else block_offset w)"
  by (simp add: SwitchBlock_def Let_def)

lemma block_offset_Emit:
  "block_offset (fst (EmitPhysicalRecord Append Flush w t ptr)) = block_offset w + (kHeaderSize + length ptr)"
  by (simp add: EmitPhysicalRecord_def Let_def split: prod.splits)

function AddRecord_loop ::
    "('f \<Rightarrow> slice \<Rightarrow> 'f \<times> status) \<Rightarrow> ('f \<Rightarrow> 'f \<times> status) \<Rightarrow> 'f Writer \<Rightarrow> slice \<Rightarrow> bool \<Rightarrow>
     'f Writer \<times> status" where
  "AddRecord_loop Append Flush w ptr begin0 =
     (let w1 = SwitchBlock Append w;
          avail = kBlockSize - block_offset w1 - kHeaderSize;
          fragment_length = (if length ptr < avail then length ptr else avail);
          end0 = (length ptr = fragment_length);
          r = EmitPhysicalRecord Append Flush w1 (fragment_type begin0 end0) (take fragment_length ptr)
      in if Status_ok (snd r) \<and> drop fragment_length ptr \<noteq> []
         then AddRecord_loop Append Flush (fst r) (drop fragment_length ptr) False
         else r)"
  by pat_completeness auto
termination
  by (relation "measures [\<lambda>(_, _, w, ptr, _). length ptr,
        \<lambda>(_, _, w, ptr, _). if block_offset w + kHeaderSize = kBlockSize then 1 else 0]")
    (auto simp: block_offset_Emit block_offset_Switch kBlockSize_def kHeaderSize_def split: if_splits)

declare AddRecord_loop.simps [simp del]

definition AddRecord ::
    "('f \<Rightarrow> slice \<Rightarrow> 'f \<times> status) \<Rightarrow> ('f \<Rightarrow> 'f \<times> status) \<Rightarrow> 'f Writer \<Rightarrow> slice \<Rightarrow> 'f Writer \<times> status" where
  "AddRecord Append Flush w slice0 = AddRecord_loop Append Flush w slice0 True"

subsection \<open>Reader\<close>

record 'f Reader =
  r_file :: 'f
  r_reporter :: bool
  r_checksum :: bool
  r_buffer :: slice
  r_eof :: bool
  r_last_record_offset :: uint64
  r_end_of_buffer_offset :: uint64
  r_initial_offset :: uint64
  r_resyncing :: bool
  r_reports :: "(nat \<times> status) list"

text \<open>The calls of \<open>reporter_->Corruption\<close> are collected in \<open>r_reports\<close>.\<close>

definition Reader_new :: "'f \<Rightarrow> bool \<Rightarrow> bool \<Rightarrow> uint64 \<Rightarrow> 'f Reader" where
  "Reader_new f reporter checksum initial_offset =
     \<lparr> r_file = f, r_reporter = reporter, r_checksum = checksum, r_buffer = [], r_eof = False,
       r_last_record_offset = 0, r_end_of_buffer_offset = 0, r_initial_offset = initial_offset,
       r_resyncing = initial_offset > 0, r_reports = [] \<rparr>"

definition kEof :: uint32 where
  "kEof = word_of_nat (kMaxRecordType + 1)"

definition kBadRecord :: uint32 where
  "kBadRecord = word_of_nat (kMaxRecordType + 2)"

definition ReportDrop :: "'f Reader \<Rightarrow> uint64 \<Rightarrow> status \<Rightarrow> 'f Reader" where
  "ReportDrop r bytes reason =
     (if r_reporter r \<and>
         r_end_of_buffer_offset r - word_of_nat (length (r_buffer r)) - bytes \<ge> r_initial_offset r
      then r \<lparr> r_reports := r_reports r @ [(unat bytes, reason)] \<rparr> else r)"

definition ReportCorruption :: "'f Reader \<Rightarrow> uint64 \<Rightarrow> slice \<Rightarrow> 'f Reader" where
  "ReportCorruption r bytes reason = ReportDrop r bytes (Status_Corruption reason [])"

definition SkipToInitialBlock :: "('f \<Rightarrow> nat \<Rightarrow> 'f \<times> status) \<Rightarrow> 'f Reader \<Rightarrow> 'f Reader \<times> bool" where
  "SkipToInitialBlock Skip r =
     (let offset_in_block = r_initial_offset r mod word_of_nat kBlockSize;
          block_start0 = r_initial_offset r - offset_in_block;
          block_start_location =
            (if offset_in_block > word_of_nat (kBlockSize - 6) then block_start0 + word_of_nat kBlockSize
             else block_start0);
          r1 = r \<lparr> r_end_of_buffer_offset := block_start_location \<rparr>
      in if block_start_location > 0
         then case Skip (r_file r1) (unat block_start_location) of (f, skip_status) \<Rightarrow>
                let r2 = r1 \<lparr> r_file := f \<rparr>
                in if \<not> Status_ok skip_status then (ReportDrop r2 block_start_location skip_status, False)
                   else (r2, True)
         else (r1, True))"

text \<open>\<open>header[6]\<close> is a signed \<open>char\<close>, widened to \<open>unsigned int\<close>. The result slice is an in-out
  argument.\<close>

function ReadPhysicalRecord ::
    "('f \<Rightarrow> nat \<Rightarrow> 'f \<times> status \<times> slice) \<Rightarrow> 'f Reader \<Rightarrow> slice \<Rightarrow> 'f Reader \<times> uint32 \<times> slice" where
  "ReadPhysicalRecord Read r result =
     (if length (r_buffer r) < kHeaderSize then
        if \<not> r_eof r then
          (case Read (r_file r) kBlockSize of (f, status, data) \<Rightarrow>
             let r1 = r \<lparr> r_file := f, r_buffer := data,
                          r_end_of_buffer_offset := r_end_of_buffer_offset r + word_of_nat (length data) \<rparr>
             in if \<not> Status_ok status then
                  ((ReportDrop (r1 \<lparr> r_buffer := [] \<rparr>) (word_of_nat kBlockSize) status) \<lparr> r_eof := True \<rparr>, kEof, result)
                else ReadPhysicalRecord Read
                       (if length data < kBlockSize then r1 \<lparr> r_eof := True \<rparr> else r1) result)
        else (r \<lparr> r_buffer := [] \<rparr>, kEof, result)
      else
        let header = r_buffer r;
            a = scast (header ! 4) AND 0xff :: uint32;
            b = scast (header ! 5) AND 0xff :: uint32;
            type = scast (header ! 6) :: uint32;
            len = unat (a OR push_bit 8 b)
        in if kHeaderSize + len > length (r_buffer r) then
             let drop_size = word_of_nat (length (r_buffer r));
                 r1 = r \<lparr> r_buffer := [] \<rparr>
             in if \<not> r_eof r then (ReportCorruption r1 drop_size (str ''bad record length''), kBadRecord, result)
                else (r1, kEof, result)
           else if type = word_of_nat (RecordType_code kZeroType) \<and> len = 0 then
             (r \<lparr> r_buffer := [] \<rparr>, kBadRecord, result)
           else if r_checksum r \<and>
               crc32c_Value (take (1 + len) (drop 6 header)) \<noteq> crc32c_Unmask (DecodeFixed32 header) then
             (ReportCorruption (r \<lparr> r_buffer := [] \<rparr>) (word_of_nat (length (r_buffer r)))
                (str ''checksum mismatch''), kBadRecord, result)
           else
             let r1 = r \<lparr> r_buffer := drop (kHeaderSize + len) (r_buffer r) \<rparr>
             in if r_end_of_buffer_offset r1 - word_of_nat (length (r_buffer r1)) - word_of_nat kHeaderSize
                   - word_of_nat len < r_initial_offset r1
                then (r1, kBadRecord, [])
                else (r1, type, take len (drop kHeaderSize header)))"
  by pat_completeness auto
termination
  by (relation "measure (\<lambda>(_, r, _). if length (r_buffer r) < kHeaderSize \<and> \<not> r_eof r then 1 else 0)")
    (auto simp: kBlockSize_def kHeaderSize_def)

declare ReadPhysicalRecord.simps [simp del]


text \<open>The loop of \<open>ReadRecord\<close>: \<open>scratch\<close>, \<open>in_fragmented_record\<close> and the offset of the logical record
  are its local variables; \<open>None\<close> stands for a loop that never ends. The result is the reader, what the
  call returns, and \<open>*record\<close>.\<close>

definition unknown_type_message :: "(uint32 \<Rightarrow> slice) \<Rightarrow> uint32 \<Rightarrow> slice" where
  "unknown_type_message decimal record_type = take 39 (str ''unknown record type '' @ decimal record_type)"

text \<open>One pass through the body of the loop after \<open>ReadPhysicalRecord\<close>; \<open>Inl\<close> goes round again.\<close>

type_synonym 'f ReadState = "'f Reader \<times> slice \<times> bool \<times> uint64"

definition ReadRecord_switch :: "(uint32 \<Rightarrow> slice) \<Rightarrow> 'f ReadState \<Rightarrow> uint64 \<Rightarrow> uint32 \<Rightarrow> slice \<Rightarrow>
    'f ReadState + 'f Reader \<times> bool \<times> slice" where
  "ReadRecord_switch decimal st physical_record_offset record_type fragment = (case st of (r, scratch, in_frag, prospective) \<Rightarrow>
     if record_type = word_of_nat (RecordType_code kFullType) then
       let r1 = (if in_frag \<and> scratch \<noteq> []
                 then ReportCorruption r (word_of_nat (length scratch)) (str ''partial record without end(1)'') else r)
       in Inr (r1 \<lparr> r_last_record_offset := physical_record_offset \<rparr>, True, fragment)
     else if record_type = word_of_nat (RecordType_code kFirstType) then
       let r1 = (if in_frag \<and> scratch \<noteq> []
                 then ReportCorruption r (word_of_nat (length scratch)) (str ''partial record without end(2)'') else r)
       in Inl (r1, fragment, True, physical_record_offset)
     else if record_type = word_of_nat (RecordType_code kMiddleType) then
       (if \<not> in_frag
        then Inl (ReportCorruption r (word_of_nat (length fragment)) (str ''missing start of fragmented record(1)''),
                  scratch, in_frag, prospective)
        else Inl (r, scratch @ fragment, in_frag, prospective))
     else if record_type = word_of_nat (RecordType_code kLastType) then
       (if \<not> in_frag
        then Inl (ReportCorruption r (word_of_nat (length fragment)) (str ''missing start of fragmented record(2)''),
                  scratch, in_frag, prospective)
        else Inr (r \<lparr> r_last_record_offset := prospective \<rparr>, True, scratch @ fragment))
     else if record_type = kEof then Inr (r, False, [])
     else if record_type = kBadRecord then
       (if in_frag
        then Inl (ReportCorruption r (word_of_nat (length scratch)) (str ''error in middle of record''),
                  [], False, prospective)
        else Inl (r, scratch, in_frag, prospective))
     else
       Inl (ReportCorruption r
              (word_of_nat (length fragment + (if in_frag then length scratch else 0)))
              (unknown_type_message decimal record_type),
            [], False, prospective))"

partial_function (option) ReadRecord_loop ::
    "(uint32 \<Rightarrow> slice) \<Rightarrow> ('f \<Rightarrow> nat \<Rightarrow> 'f \<times> status \<times> slice) \<Rightarrow> 'f ReadState \<Rightarrow> slice \<Rightarrow>
     ('f Reader \<times> bool \<times> slice) option" where
  "ReadRecord_loop decimal Read st fragment =
     (case st of (r, scratch, in_frag, prospective) \<Rightarrow>
      let physical_record_offset = r_end_of_buffer_offset r - word_of_nat (length (r_buffer r))
      in case ReadPhysicalRecord Read r fragment of (r1, record_type, fragment1) \<Rightarrow>
         if r_resyncing r1 \<and> record_type = word_of_nat (RecordType_code kMiddleType) then
           ReadRecord_loop decimal Read (r1, scratch, in_frag, prospective) fragment1
         else if r_resyncing r1 \<and> record_type = word_of_nat (RecordType_code kLastType) then
           ReadRecord_loop decimal Read (r1 \<lparr> r_resyncing := False \<rparr>, scratch, in_frag, prospective) fragment1
         else
           (case ReadRecord_switch decimal (r1 \<lparr> r_resyncing := False \<rparr>, scratch, in_frag, prospective)
                   physical_record_offset record_type fragment1 of
              Inl st1 \<Rightarrow> ReadRecord_loop decimal Read st1 fragment1
            | Inr res \<Rightarrow> Some res))"

definition ReadRecord :: "(uint32 \<Rightarrow> slice) \<Rightarrow> ('f \<Rightarrow> nat \<Rightarrow> 'f \<times> status \<times> slice) \<Rightarrow>
    ('f \<Rightarrow> nat \<Rightarrow> 'f \<times> status) \<Rightarrow> 'f Reader \<Rightarrow> ('f Reader \<times> bool \<times> slice) option" where
  "ReadRecord decimal Read Skip r =
     (if r_last_record_offset r < r_initial_offset r then
        (case SkipToInitialBlock Skip r of (r1, ok) \<Rightarrow>
           if \<not> ok then Some (r1, False, []) else ReadRecord_loop decimal Read (r1, [], False, 0) [])
      else ReadRecord_loop decimal Read (r, [], False, 0) [])"

definition LastRecordOffset :: "'f Reader \<Rightarrow> uint64" where
  "LastRecordOffset r = r_last_record_offset r"

text \<open>A client's loop over a log, as in \<open>DBImpl::RecoverLogFile\<close> and \<open>VersionSet::Recover\<close>: the records
  returned until \<open>ReadRecord\<close> returns false, with the reader as it is then.\<close>

partial_function (option) read_all :: "(uint32 \<Rightarrow> slice) \<Rightarrow> ('f \<Rightarrow> nat \<Rightarrow> 'f \<times> status \<times> slice) \<Rightarrow>
    ('f \<Rightarrow> nat \<Rightarrow> 'f \<times> status) \<Rightarrow> 'f Reader \<Rightarrow> (slice list \<times> 'f Reader) option" where
  "read_all decimal Read Skip r =
     (case ReadRecord decimal Read Skip r of
        None \<Rightarrow> None
      | Some (r1, ok, rec) \<Rightarrow>
          if ok then Option.bind (read_all decimal Read Skip r1) (\<lambda>(rs, r2). Some (rec # rs, r2))
          else Some ([], r1))"

subsection \<open>The bytes of a record\<close>


definition physical_record :: "RecordType \<Rightarrow> slice \<Rightarrow> slice" where
  "physical_record t p =
     EncodeFixed32 (crc32c_Mask (crc32c_Value (word_of_nat (RecordType_code t) # p))) @
     [word_of_nat (length p), word_of_nat (length p div 256), word_of_nat (RecordType_code t)] @ p"

function record_bytes :: "nat \<Rightarrow> slice \<Rightarrow> bool \<Rightarrow> slice \<times> nat" where
  "record_bytes b data begin0 =
     (let pad = (if kBlockSize - b < kHeaderSize then kBlockSize - b else 0);
          b1 = (if kBlockSize - b < kHeaderSize then 0 else b);
          n = min (length data) (kBlockSize - b1 - kHeaderSize);
          out = replicate pad 0 @ physical_record (fragment_type begin0 (length data = n)) (take n data)
      in if n < length data
         then let (s, b2) = record_bytes (b1 + kHeaderSize + n) (drop n data) False in (out @ s, b2)
         else (out, b1 + kHeaderSize + n))"
  by pat_completeness auto
termination
  by (relation "measures [\<lambda>(b, data, _). length data, \<lambda>(b, data, _). if b + kHeaderSize = kBlockSize then 1 else 0]")
    (auto simp: kBlockSize_def kHeaderSize_def split: if_splits)

declare record_bytes.simps [simp del]

fun log_bytes :: "nat \<Rightarrow> slice list \<Rightarrow> slice" where
  "log_bytes b [] = []"
| "log_bytes b (d # ds) = (case record_bytes b d True of (s, b1) \<Rightarrow> s @ log_bytes b1 ds)"

subsection \<open>What the writer appends\<close>

lemma type_crc_nth: "InitTypeCrc ! RecordType_code t = crc32c_Value [word_of_nat (RecordType_code t)]"
  by (cases t) (simp_all add: InitTypeCrc_def kMaxRecordType_def del: upt_Suc)

lemma if_less_min: "(if a < b then a else b) = min a (b :: nat)"
  by (simp add: min_def)

lemma Status_ok_OK [simp]: "Status_ok Status_OK"
  by (simp add: Status_ok_def Status_OK_def)

lemma word_AND_0xff: "(x :: byte) AND 0xff = x"
  by (rule bit_word_eqI) (simp add: bit_and_iff bit_consts)

context writable_file
begin

lemma Emit_law:
  assumes "writable (dest w)" "type_crc w = InitTypeCrc"
  obtains w' where "EmitPhysicalRecord Append Flush w t p = (w', Status_OK)" "writable (dest w')"
    "contents (dest w') = contents (dest w) @ physical_record t p"
    "block_offset w' = block_offset w + kHeaderSize + length p" "type_crc w' = InitTypeCrc"
proof -
  let ?crc = "crc32c_Mask (crc32c_Extend (type_crc w ! RecordType_code t) p)"
  let ?buf = "EncodeFixed32 ?crc @
    [word_of_nat (length p) AND 0xff, word_of_nat (length p div 2 ^ 8), word_of_nat (RecordType_code t)]"
  obtain d1 where d1: "Append (dest w) ?buf = (d1, Status_OK)" "writable d1" "contents d1 = contents (dest w) @ ?buf"
    by (rule Append_ok [OF assms(1)])
  obtain d2 where d2: "Append d1 p = (d2, Status_OK)" "writable d2" "contents d2 = contents d1 @ p"
    by (rule Append_ok [OF d1(2)])
  obtain d3 where d3: "Flush d2 = (d3, Status_OK)" "writable d3" "contents d3 = contents d2"
    by (rule Flush_ok [OF d2(2)])
  have "?buf @ p = physical_record t p"
    using crc32c_Value_append [of "[word_of_nat (RecordType_code t)]" p] assms(2)
    by (simp add: physical_record_def type_crc_nth word_AND_0xff)
  then show ?thesis
    using that [of "w \<lparr> dest := d3, block_offset := block_offset w + (kHeaderSize + length p) \<rparr>"] d1 d2 d3 assms(2)
    by (simp add: EmitPhysicalRecord_def Status_ok_def Status_OK_def)
qed

lemma Switch_law:
  assumes "writable (dest w)"
  shows "writable (dest (SwitchBlock Append w)) \<and> type_crc (SwitchBlock Append w) = type_crc w \<and>
    contents (dest (SwitchBlock Append w)) = contents (dest w) @
      replicate (if kBlockSize - block_offset w < kHeaderSize then kBlockSize - block_offset w else 0) 0"
proof -
  obtain d where "Append (dest w) (replicate (kBlockSize - block_offset w) 0) = (d, Status_OK)" "writable d"
    "contents d = contents (dest w) @ replicate (kBlockSize - block_offset w) 0"
    by (rule Append_ok [OF assms])
  then show ?thesis using assms by (simp add: SwitchBlock_def Let_def)
qed

lemma AddRecord_loop_law:
  assumes "writable (dest w)" "type_crc w = InitTypeCrc"
  shows "\<exists>w'. AddRecord_loop Append Flush w p begin0 = (w', Status_OK) \<and> writable (dest w') \<and>
    type_crc w' = InitTypeCrc \<and> block_offset w' = snd (record_bytes (block_offset w) p begin0) \<and>
    contents (dest w') = contents (dest w) @ fst (record_bytes (block_offset w) p begin0)"
  using assms
proof (induction "block_offset w" p begin0 arbitrary: w rule: record_bytes.induct)
  case (1 p begin0 w)
  let ?w1 = "SwitchBlock Append w"
  let ?b1 = "if kBlockSize - block_offset w < kHeaderSize then 0 else block_offset w"
  let ?pad = "if kBlockSize - block_offset w < kHeaderSize then kBlockSize - block_offset w else 0"
  let ?n = "min (length p) (kBlockSize - ?b1 - kHeaderSize)"
  let ?t = "fragment_type begin0 (length p = ?n)"
  note sw = Switch_law [OF 1(2)] block_offset_Switch [of Append w]
  have ready: "writable (dest ?w1)" "type_crc ?w1 = InitTypeCrc" using sw 1(3) by simp_all
  obtain w2 where w2: "EmitPhysicalRecord Append Flush ?w1 ?t (take ?n p) = (w2, Status_OK)" "writable (dest w2)"
    "contents (dest w2) = contents (dest ?w1) @ physical_record ?t (take ?n p)"
    "block_offset w2 = block_offset ?w1 + kHeaderSize + length (take ?n p)" "type_crc w2 = InitTypeCrc"
    by (rule Emit_law [OF ready])
  have step: "AddRecord_loop Append Flush w p begin0 =
      (if ?n < length p then AddRecord_loop Append Flush w2 (drop ?n p) False else (w2, Status_OK))"
    by (simp only: AddRecord_loop.simps [of Append Flush w p begin0] Let_def sw(2) if_less_min w2(1)
        fst_conv snd_conv Status_ok_OK drop_eq_Nil not_le simp_thms)
  have b2: "block_offset w2 = ?b1 + kHeaderSize + ?n" using w2(4) sw(2) by simp
  have out: "contents (dest w2) = contents (dest w) @ replicate ?pad 0 @ physical_record ?t (take ?n p)"
    using w2(3) sw(1) by simp
  show ?case
  proof (cases "?n < length p")
    case True
    obtain w' where w': "AddRecord_loop Append Flush w2 (drop ?n p) False = (w', Status_OK)" "writable (dest w')"
      "type_crc w' = InitTypeCrc" "block_offset w' = snd (record_bytes (block_offset w2) (drop ?n p) False)"
      "contents (dest w') = contents (dest w2) @ fst (record_bytes (block_offset w2) (drop ?n p) False)"
      using 1(1) [OF refl refl refl refl True, of w2] b2 w2(2,5) by auto
    obtain s b' where rest: "record_bytes (block_offset w2) (drop ?n p) False = (s, b')" by fastforce
    have "record_bytes (block_offset w) p begin0 =
        ((replicate ?pad 0 @ physical_record ?t (take ?n p)) @ s, b')"
      using True rest unfolding b2 by (subst record_bytes.simps) (simp only: Let_def if_True prod.case)
    then show ?thesis
      using w' step by (intro exI [of _ w']) (simp only: True if_True rest fst_conv snd_conv out append_assoc simp_thms)
  next
    case False
    then have "record_bytes (block_offset w) p begin0 =
        (replicate ?pad 0 @ physical_record ?t (take ?n p), ?b1 + kHeaderSize + ?n)"
      by (subst record_bytes.simps) (simp only: Let_def if_False)
    then show ?thesis
      using w2(2,5) step by (intro exI [of _ w2]) (simp only: False if_False fst_conv snd_conv out b2 simp_thms)
  qed
qed

end

subsection \<open>Parsing a physical record\<close>


lemma length_bytes:
  assumes "n < 65536"
  shows "unat ((scast (word_of_nat n :: byte) AND 0xff :: uint32) OR
               push_bit 8 (scast (word_of_nat (n div 256) :: byte) AND 0xff)) = n"
proof -
  have sc: "(scast (b :: byte) AND 0xff :: uint32) = ucast b" for b
  proof (rule bit_word_eqI)
    fix i assume "i < LENGTH(32)"
    have "bit b i \<Longrightarrow> i < 8" using bit_imp_le_length [of b i] by simp
    then show "bit (scast b AND 0xff :: uint32) i = bit (ucast b :: uint32) i"
      using \<open>i < LENGTH(32)\<close> by (cases "i = 7") (auto simp: bit_simps bit_consts min_def)
  qed
  have "word_of_nat n = (ucast (word_of_nat n :: byte) OR push_bit 8 (ucast (word_of_nat (n div 256) :: byte)) :: uint32)"
  proof (rule bit_word_eqI)
    fix i assume "i < LENGTH(32)"
    have small: "\<not> bit n i" if "16 \<le> i"
      using assms that power_increasing [of 16 i "2 :: nat"] by (simp add: bit_iff_odd)
    have shift: "bit (n div 256) j = bit n (j + 8)" for j
      by (simp add: bit_iff_odd div_mult2_eq [symmetric] power_add mult.commute)
    show "bit (word_of_nat n :: uint32) i =
        bit (ucast (word_of_nat n :: byte) OR push_bit 8 (ucast (word_of_nat (n div 256) :: byte)) :: uint32) i"
      using \<open>i < LENGTH(32)\<close> small shift [of "i - 8"] by (cases "16 \<le> i") (auto simp: bit_simps)
  qed
  moreover have "unat (word_of_nat n :: uint32) = n" using assms by (simp add: unsigned_of_nat take_bit_eq_mod)
  ultimately show ?thesis using sc by simp
qed

lemma length_physical_record [simp]: "length (physical_record t p) = kHeaderSize + length p"
  by (simp add: physical_record_def length_EncodeFixed kHeaderSize_def)

lemma EncodeFixed32_4: "\<exists>a b c d. EncodeFixed32 v = [a, b, c, d]"
  using length_EncodeFixed(1) [of v] by (simp only: length_4_conv)

lemma physical_record_header:
  assumes "length p < 65536"
  shows "unat ((scast ((physical_record t p @ rest) ! 4) AND 0xff :: uint32) OR
               push_bit 8 (scast ((physical_record t p @ rest) ! 5) AND 0xff)) = length p"
    "(scast ((physical_record t p @ rest) ! 6) :: uint32) = word_of_nat (RecordType_code t)"
    "DecodeFixed32 (physical_record t p @ rest) = crc32c_Mask (crc32c_Value (word_of_nat (RecordType_code t) # p))"
    "drop 6 (physical_record t p @ rest) = word_of_nat (RecordType_code t) # p @ rest"
    "drop kHeaderSize (physical_record t p @ rest) = p @ rest"
proof -
  let ?v = "crc32c_Mask (crc32c_Value (word_of_nat (RecordType_code t) # p))"
  obtain a b c d where e: "EncodeFixed32 ?v = [a, b, c, d]" using EncodeFixed32_4 by blast
  show "DecodeFixed32 (physical_record t p @ rest) = ?v"
    by (simp add: physical_record_def DecodeFixed32_Encode)
  show "unat ((scast ((physical_record t p @ rest) ! 4) AND 0xff :: uint32) OR
               push_bit 8 (scast ((physical_record t p @ rest) ! 5) AND 0xff)) = length p"
    using length_bytes [OF assms] e by (simp add: physical_record_def)
  show "(scast ((physical_record t p @ rest) ! 6) :: uint32) = word_of_nat (RecordType_code t)"
    using e by (cases t) (simp_all add: physical_record_def)
  show "drop 6 (physical_record t p @ rest) = word_of_nat (RecordType_code t) # p @ rest"
    "drop kHeaderSize (physical_record t p @ rest) = p @ rest"
    using e by (simp_all add: physical_record_def kHeaderSize_def)
qed

subsection \<open>Reading physical records\<close>


text \<open>The reader stands \<open>b\<close> bytes into a block and \<open>s\<close> is the rest of the file.\<close>

definition reader_at :: "('f \<Rightarrow> slice) \<Rightarrow> ('f \<Rightarrow> bool) \<Rightarrow> nat \<Rightarrow> slice \<Rightarrow> 'f Reader \<Rightarrow> bool" where
  "reader_at remaining readable b s r \<longleftrightarrow>
     readable (r_file r) \<and> b \<le> kBlockSize \<and> r_buffer r = take (kBlockSize - b) s \<and>
     remaining (r_file r) = drop (kBlockSize - b) s \<and> r_eof r = (length s < kBlockSize - b) \<and>
     r_initial_offset r = 0 \<and> \<not> r_resyncing r"

definition same_reports :: "'f Reader \<Rightarrow> 'f Reader \<Rightarrow> bool" where
  "same_reports r r' \<longleftrightarrow> r_reports r' = r_reports r"

text \<open>The padding before the next physical record, and the offset at which it starts.\<close>

definition skipped :: "nat \<Rightarrow> nat" where
  "skipped b = (if kBlockSize - b < kHeaderSize then kBlockSize - b else 0)"

definition aligned :: "nat \<Rightarrow> nat" where
  "aligned b = (if kBlockSize - b < kHeaderSize then 0 else b)"

context sequential_file
begin

abbreviation at_block :: "nat \<Rightarrow> slice \<Rightarrow> 'f Reader \<Rightarrow> bool" where
  "at_block \<equiv> reader_at remaining readable"

text \<open>At the end of a block the next one is read, if there is one.\<close>

lemma refill:
  assumes "at_block b s r" "kBlockSize - b < kHeaderSize" "kBlockSize - b \<le> length s"
  obtains r1 where "at_block 0 (drop (kBlockSize - b) s) r1" "same_reports r r1"
    "ReadPhysicalRecord Read r result = ReadPhysicalRecord Read r1 result"
proof -
  let ?s = "drop (kBlockSize - b) s"
  have rd: "readable (r_file r)" "remaining (r_file r) = ?s" using assms by (simp_all add: reader_at_def)
  obtain f where f: "Read (r_file r) kBlockSize = (f, Status_OK, take kBlockSize ?s)" "readable f"
    "remaining f = drop kBlockSize ?s"
    using Read_ok [OF rd(1), of kBlockSize] rd(2) by metis
  let ?r = "r \<lparr> r_file := f, r_buffer := take kBlockSize ?s,
    r_end_of_buffer_offset := r_end_of_buffer_offset r + word_of_nat (length (take kBlockSize ?s)) \<rparr>"
  let ?r1 = "if length (take kBlockSize ?s) < kBlockSize then ?r \<lparr> r_eof := True \<rparr> else ?r"
  have empty: "length (r_buffer r) < kHeaderSize" "\<not> r_eof r" using assms by (auto simp: reader_at_def)
  have "ReadPhysicalRecord Read r result = ReadPhysicalRecord Read ?r1 result"
    by (subst ReadPhysicalRecord.simps) (simp only: empty if_True f prod.case Let_def Status_ok_OK simp_thms if_False)
  moreover have "at_block 0 ?s ?r1" "same_reports r ?r1"
    using assms f empty(2) by (auto simp: reader_at_def same_reports_def)
  ultimately show ?thesis using that by blast
qed

lemma read_fragment_here:
  assumes r: "at_block b (physical_record t p @ rest) r" and b: "b + kHeaderSize + length p \<le> kBlockSize"
    and t: "t \<noteq> kZeroType"
  obtains r' where "ReadPhysicalRecord Read r result = (r', word_of_nat (RecordType_code t), p)"
    "at_block (b + kHeaderSize + length p) rest r'" "same_reports r r'"
proof -
  let ?m = "kBlockSize - b - (kHeaderSize + length p)"
  let ?r = "r \<lparr> r_buffer := take ?m rest \<rparr>"
  have p: "length p < 65536" using b by (simp add: kBlockSize_def)
  have buf: "r_buffer r = physical_record t p @ take ?m rest"
    using r b by (simp add: reader_at_def)
  have "crc32c_Value (take (1 + length p) (drop 6 (r_buffer r))) = crc32c_Unmask (DecodeFixed32 (r_buffer r))"
    using physical_record_header(3,4) [OF p] buf by (simp add: Unmask_Mask)
  moreover have "(word_of_nat (RecordType_code t) :: uint32) \<noteq> word_of_nat (RecordType_code kZeroType)"
    using t by (cases t) auto
  moreover have "\<not> length (r_buffer r) < kHeaderSize" "\<not> kHeaderSize + length p > length (r_buffer r)"
    using buf by simp_all
  moreover have "drop (kHeaderSize + length p) (r_buffer r) = take ?m rest" using buf by simp
  moreover have "take (length p) (drop kHeaderSize (r_buffer r)) = p"
    using physical_record_header(5) [OF p] buf by simp
  moreover have "r_initial_offset r = 0" using r by (simp add: reader_at_def)
  ultimately have "ReadPhysicalRecord Read r result = (?r, word_of_nat (RecordType_code t), p)"
    using physical_record_header(1,2) [OF p, of t "take ?m rest", folded buf]
    by (subst ReadPhysicalRecord.simps) simp
  moreover have "at_block (b + kHeaderSize + length p) rest ?r"
    using r b by (auto simp: reader_at_def add.assoc)
  ultimately show ?thesis using that by (simp add: same_reports_def)
qed

text \<open>A physical record cut short by the end of the file is the end of the log.\<close>

lemma read_cut_here:
  assumes r: "at_block b s r" and b: "b + kHeaderSize + length p \<le> kBlockSize"
    and cut: "s = take n (physical_record t p)" "n < length (physical_record t p)"
  obtains r' where "ReadPhysicalRecord Read r result = (r', kEof, result)" "same_reports r r'" "\<not> r_resyncing r'"
proof -
  have n: "length s = n" "n < kHeaderSize + length p" using cut by simp_all
  have r': "r_buffer r = s" "r_eof r" "\<not> r_resyncing r" using r b n by (auto simp: reader_at_def)
  have p: "length p < 65536" using b by (simp add: kBlockSize_def)
  have "ReadPhysicalRecord Read r result = (r \<lparr> r_buffer := [] \<rparr>, kEof, result)"
  proof (cases "n < kHeaderSize")
    case True
    then show ?thesis using r' n by (subst ReadPhysicalRecord.simps) simp
  next
    case False
    then have "s ! i = physical_record t p ! i" if "i < 7" for i
      using that cut by (simp add: kHeaderSize_def)
    then have "unat ((scast (r_buffer r ! 4) AND 0xff :: uint32) OR push_bit 8 (scast (r_buffer r ! 5) AND 0xff)) = length p"
      using physical_record_header(1) [OF p, of t "[]"] r' by simp
    then show ?thesis using False r' n
      by (subst ReadPhysicalRecord.simps) (simp add: Let_def)
  qed
  then show ?thesis using that r' by (simp add: same_reports_def)
qed

lemma read_fragment:
  assumes r: "at_block b (replicate (skipped b) 0 @ physical_record t p @ rest) r"
    and b: "aligned b + kHeaderSize + length p \<le> kBlockSize" and t: "t \<noteq> kZeroType"
  obtains r' where "ReadPhysicalRecord Read r result = (r', word_of_nat (RecordType_code t), p)"
    "at_block (aligned b + kHeaderSize + length p) rest r'" "same_reports r r'"
proof (cases "kBlockSize - b < kHeaderSize")
  case True
  obtain r1 where r1: "at_block 0 (physical_record t p @ rest) r1" "same_reports r r1"
    "ReadPhysicalRecord Read r result = ReadPhysicalRecord Read r1 result"
    using refill [OF r True] True by (auto simp: skipped_def)
  have b0: "0 + kHeaderSize + length p \<le> kBlockSize" using b True by (simp add: aligned_def)
  obtain r' where "ReadPhysicalRecord Read r1 result = (r', word_of_nat (RecordType_code t), p)"
    "at_block (0 + kHeaderSize + length p) rest r'" "same_reports r1 r'"
    by (rule read_fragment_here [OF r1(1) b0 t])
  then show ?thesis using that [of r'] r1 True by (simp add: aligned_def same_reports_def)
next
  case False
  then show ?thesis using r b that read_fragment_here [OF _ _ t] by (simp add: skipped_def aligned_def) blast
qed

lemma read_cut:
  assumes r: "at_block b (take n (replicate (skipped b) 0 @ physical_record t p)) r"
    and b: "aligned b + kHeaderSize + length p \<le> kBlockSize" and n: "n < skipped b + kHeaderSize + length p"
  obtains r' where "ReadPhysicalRecord Read r result = (r', kEof, result)" "same_reports r r'" "\<not> r_resyncing r'"
proof (cases "kBlockSize - b < kHeaderSize")
  case True
  then have sk: "skipped b = kBlockSize - b" "aligned b = 0" by (simp_all add: skipped_def aligned_def)
  show ?thesis
  proof (cases "n < skipped b")
    case less: True
    then have "length (r_buffer r) < kHeaderSize" "r_eof r" "\<not> r_resyncing r"
      using r sk True by (auto simp: reader_at_def)
    then show ?thesis using that [of "r \<lparr> r_buffer := [] \<rparr>"]
      by (simp add: ReadPhysicalRecord.simps [of Read r] same_reports_def)
  next
    case False
    then have len: "kBlockSize - b \<le> length (take n (replicate (skipped b) 0 @ physical_record t p))"
      using sk by simp
    obtain r1 where r1: "at_block 0 (take (n - skipped b) (physical_record t p)) r1" "same_reports r r1"
      "ReadPhysicalRecord Read r result = ReadPhysicalRecord Read r1 result"
      using refill [OF r True len] sk False by auto
    have b0: "0 + kHeaderSize + length p \<le> kBlockSize" using b sk by simp
    have cut: "n - skipped b < length (physical_record t p)" using n False by simp
    obtain r' where "ReadPhysicalRecord Read r1 result = (r', kEof, result)" "same_reports r1 r'" "\<not> r_resyncing r'"
      by (rule read_cut_here [OF r1(1) b0 refl cut])
    then show ?thesis using that r1 by (simp add: same_reports_def)
  qed
next
  case False
  then have sk: "skipped b = 0" "aligned b = b" by (simp_all add: skipped_def aligned_def)
  then have cut: "n < length (physical_record t p)" using n by simp
  show ?thesis by (rule read_cut_here [where n = n and p = p and t = t, OF _ _ refl cut, of b r result])
      (use r b sk that in auto)
qed

end

subsection \<open>Reading logical records\<close>


definition fragment_length :: "nat \<Rightarrow> slice \<Rightarrow> nat" where
  "fragment_length b data = min (length data) (kBlockSize - aligned b - kHeaderSize)"

lemma record_bytes_step:
  "record_bytes b data begin0 =
     (let n = fragment_length b data;
          out = replicate (skipped b) 0 @ physical_record (fragment_type begin0 (length data = n)) (take n data);
          next_bytes = record_bytes (aligned b + kHeaderSize + n) (drop n data) False
      in if n < length data then (out @ fst next_bytes, snd next_bytes)
         else (out, aligned b + kHeaderSize + n))"
  by (subst record_bytes.simps)
    (simp only: Let_def skipped_def [symmetric] aligned_def [symmetric] fragment_length_def [symmetric] case_prod_unfold)

lemma record_bytes_induct [case_names more]:
  assumes "\<And>b data begin0.
    (fragment_length b data < length data \<Longrightarrow>
       P (aligned b + kHeaderSize + fragment_length b data) (drop (fragment_length b data) data) False) \<Longrightarrow>
    P b data begin0"
  shows "P b data begin0"
  by (rule record_bytes.induct, rule assms) (simp only: aligned_def fragment_length_def)

lemma fragment_fits: "b \<le> kBlockSize \<Longrightarrow> aligned b + kHeaderSize + fragment_length b data \<le> kBlockSize"
  by (auto simp: aligned_def fragment_length_def kBlockSize_def kHeaderSize_def)

lemma fragment_type_nonzero [simp]: "fragment_type begin0 end0 \<noteq> kZeroType"
  by (simp add: fragment_type_def)

lemma switch_fragment:
  "ReadRecord_switch decimal (r, scratch, \<not> begin0, pr) off
     (word_of_nat (RecordType_code (fragment_type begin0 end0))) p =
   (let data = (if begin0 then p else scratch @ p); o' = (if begin0 then off else pr)
    in if end0 then Inr (r \<lparr> r_last_record_offset := o' \<rparr>, True, data) else Inl (r, data, True, o'))"
  by (auto simp: ReadRecord_switch_def fragment_type_def)

lemma switch_eof: "ReadRecord_switch decimal (r, scratch, in_frag, pr) off kEof p = Inr (r, False, [])"
  by (simp add: ReadRecord_switch_def kEof_def kMaxRecordType_def)

lemma reader_at_update [simp]:
  "reader_at remaining readable b s (r \<lparr> r_last_record_offset := x \<rparr>) = reader_at remaining readable b s r"
  "reader_at remaining readable b s r \<Longrightarrow> reader_at remaining readable b s (r \<lparr> r_resyncing := False \<rparr>)"
  by (simp_all add: reader_at_def)

lemma same_reports_update [simp]:
  "same_reports r (r' \<lparr> r_last_record_offset := x \<rparr>) = same_reports r r'"
  "same_reports r (r' \<lparr> r_resyncing := y \<rparr>) = same_reports r r'"
  "same_reports (r \<lparr> r_resyncing := y \<rparr>) r' = same_reports r r'"
  by (simp_all add: same_reports_def)

lemma same_reports_trans: "same_reports a b \<Longrightarrow> same_reports b c \<Longrightarrow> same_reports a c"
  by (simp add: same_reports_def)

context sequential_file
begin

lemma read_record:
  assumes "at_block b (fst (record_bytes b data begin0) @ rest) r" "begin0 \<Longrightarrow> scratch = []"
  shows "\<exists>r'. ReadRecord_loop decimal Read (r, scratch, \<not> begin0, pr) frag = Some (r', True, scratch @ data) \<and>
    at_block (snd (record_bytes b data begin0)) rest r' \<and> same_reports r r'"
  using assms
proof (induction b data begin0 arbitrary: r scratch pr frag rule: record_bytes_induct)
  case (more b data begin0)
  let ?n = "fragment_length b data" and ?e = "length data = fragment_length b data"
  let ?t = "fragment_type begin0 ?e"
  let ?next = "record_bytes (aligned b + kHeaderSize + ?n) (drop ?n data) False"
  let ?tail = "if ?n < length data then fst ?next @ rest else rest"
  let ?off = "r_end_of_buffer_offset r - word_of_nat (length (r_buffer r))"
  have len: "length (take ?n data) = ?n" "?n \<le> length data" by (simp_all add: fragment_length_def)
  have s: "fst (record_bytes b data begin0) @ rest =
      replicate (skipped b) 0 @ physical_record ?t (take ?n data) @ ?tail"
    by (subst record_bytes_step) (simp add: Let_def)
  have fits: "aligned b + kHeaderSize + length (take ?n data) \<le> kBlockSize"
    using fragment_fits [of b data] more.prems(1) len by (simp add: reader_at_def)
  obtain r1 where r1: "ReadPhysicalRecord Read r frag = (r1, word_of_nat (RecordType_code ?t), take ?n data)"
    "at_block (aligned b + kHeaderSize + length (take ?n data)) ?tail r1" "same_reports r r1"
    by (rule read_fragment [OF more.prems(1) [unfolded s] fits fragment_type_nonzero])
  have quiet: "\<not> r_resyncing r1" using r1(2) by (simp add: reader_at_def)
  let ?r1 = "r1 \<lparr> r_resyncing := False \<rparr>"
  have loop: "ReadRecord_loop decimal Read (r, scratch, \<not> begin0, pr) frag =
      (case ReadRecord_switch decimal (?r1, scratch, \<not> begin0, pr) ?off
              (word_of_nat (RecordType_code ?t)) (take ?n data) of
         Inl st \<Rightarrow> ReadRecord_loop decimal Read st (take ?n data) | Inr res \<Rightarrow> Some res)"
    by (subst ReadRecord_loop.simps) (simp add: r1(1) quiet Let_def)
  have data: "(if begin0 then take ?n data else scratch @ take ?n data) = scratch @ take ?n data"
    using more.prems(2) by simp
  show ?case
  proof (cases ?e)
    case True
    have "(if begin0 then data else scratch @ data) = scratch @ data" using more.prems(2) by simp
    then show ?thesis using loop r1 len True
      by (simp add: switch_fragment Let_def record_bytes_step [of b data begin0])
  next
    case False
    then have less: "?n < length data" using len by simp
    have at: "at_block (aligned b + kHeaderSize + ?n) (fst ?next @ rest) ?r1"
      using r1(2) less len by simp
    obtain r' where r': "ReadRecord_loop decimal Read (?r1, scratch @ take ?n data, \<not> False, if begin0 then ?off else pr) (take ?n data)
        = Some (r', True, (scratch @ take ?n data) @ drop ?n data)" "at_block (snd ?next) rest r'" "same_reports ?r1 r'"
      using more.IH [OF less at, of "scratch @ take ?n data"] by blast
    have "same_reports r r'" using r1(3) r'(3) by (simp add: same_reports_def)
    then show ?thesis using loop data r' less False
      by (simp add: switch_fragment Let_def record_bytes_step [of b data begin0])
  qed
qed

lemma read_record_cut:
  assumes "at_block b (take n (fst (record_bytes b data begin0))) r" "n < length (fst (record_bytes b data begin0))"
  shows "\<exists>r'. ReadRecord_loop decimal Read (r, scratch, \<not> begin0, pr) frag = Some (r', False, []) \<and> same_reports r r'"
  using assms
proof (induction b data begin0 arbitrary: n r scratch pr frag rule: record_bytes_induct)
  case (more b data begin0)
  let ?n = "fragment_length b data" and ?e = "length data = fragment_length b data"
  let ?t = "fragment_type begin0 ?e"
  let ?next = "record_bytes (aligned b + kHeaderSize + ?n) (drop ?n data) False"
  let ?tail = "if ?n < length data then fst ?next else []"
  let ?off = "r_end_of_buffer_offset r - word_of_nat (length (r_buffer r))"
  let ?head = "replicate (skipped b) 0 @ physical_record ?t (take ?n data)"
  have len: "length (take ?n data) = ?n" "?n \<le> length data" by (simp_all add: fragment_length_def)
  have s: "fst (record_bytes b data begin0) = ?head @ ?tail"
    by (subst record_bytes_step) (simp add: Let_def)
  have fits: "aligned b + kHeaderSize + length (take ?n data) \<le> kBlockSize"
    using fragment_fits [of b data] more.prems(1) len by (simp add: reader_at_def)
  show ?case
  proof (cases "n < length ?head")
    case True
    then have cut: "at_block b (take n ?head) r" "n < skipped b + kHeaderSize + length (take ?n data)"
      using more.prems(1) s by simp_all
    obtain r' where r': "ReadPhysicalRecord Read r frag = (r', kEof, frag)" "same_reports r r'" "\<not> r_resyncing r'"
      by (rule read_cut [OF cut(1) fits cut(2)])
    then have "ReadRecord_loop decimal Read (r, scratch, \<not> begin0, pr) frag = Some (r' \<lparr> r_resyncing := False \<rparr>, False, [])"
      by (subst ReadRecord_loop.simps) (simp add: switch_eof)
    then show ?thesis using r'(2) by auto
  next
    case False
    let ?m = "n - length ?head"
    have less: "?n < length data" using False more.prems(2) s by (auto split: if_splits)
    have rest: "take n (fst (record_bytes b data begin0)) =
        replicate (skipped b) 0 @ physical_record ?t (take ?n data) @ take ?m (fst ?next)"
      using False less s by simp
    obtain r1 where r1: "ReadPhysicalRecord Read r frag = (r1, word_of_nat (RecordType_code ?t), take ?n data)"
      "at_block (aligned b + kHeaderSize + length (take ?n data)) (take ?m (fst ?next)) r1" "same_reports r r1"
      by (rule read_fragment [OF more.prems(1) [unfolded rest] fits fragment_type_nonzero])
    let ?r1 = "r1 \<lparr> r_resyncing := False \<rparr>"
    let ?data = "if begin0 then take ?n data else scratch @ take ?n data"
    have quiet: "\<not> r_resyncing r1" using r1(2) by (simp add: reader_at_def)
    have loop: "ReadRecord_loop decimal Read (r, scratch, \<not> begin0, pr) frag =
        ReadRecord_loop decimal Read (?r1, ?data, \<not> False, if begin0 then ?off else pr) (take ?n data)"
      using less by (subst ReadRecord_loop.simps) (simp add: r1(1) quiet Let_def switch_fragment)
    have at: "at_block (aligned b + kHeaderSize + ?n) (take ?m (fst ?next)) ?r1"
      using r1(2) len by simp
    have "?m < length (fst ?next)" using more.prems(2) s less False by simp
    then obtain r' where r': "ReadRecord_loop decimal Read (?r1, ?data, \<not> False, if begin0 then ?off else pr) (take ?n data)
        = Some (r', False, [])" "same_reports ?r1 r'"
      using more.IH [OF less at, of ?data] by blast
    have "same_reports r r'" using r1(3) r'(2) by (simp add: same_reports_def)
    then show ?thesis using loop r'(1) by auto
  qed
qed

end

subsection \<open>Whole logs\<close>


text \<open>A client that adds records one after the other and stops at the first error.\<close>

fun AddRecords :: "('f \<Rightarrow> slice \<Rightarrow> 'f \<times> status) \<Rightarrow> ('f \<Rightarrow> 'f \<times> status) \<Rightarrow> 'f Writer \<Rightarrow> slice list \<Rightarrow>
    'f Writer \<times> status" where
  "AddRecords Append Flush w [] = (w, Status_OK)"
| "AddRecords Append Flush w (d # ds) =
     (case AddRecord Append Flush w d of (w1, s) \<Rightarrow>
        if Status_ok s then AddRecords Append Flush w1 ds else (w1, s))"

lemma log_bytes_Cons:
  "log_bytes b (d # ds) = fst (record_bytes b d True) @ log_bytes (snd (record_bytes b d True)) ds"
  by (simp add: case_prod_unfold)

declare log_bytes.simps(2) [simp del]

lemma physical_record_nonempty [simp]: "physical_record t p \<noteq> []"
  by (simp add: physical_record_def)

lemma record_bytes_nonempty: "0 < length (fst (record_bytes b d begin0))"
  by (subst record_bytes_step) (simp add: Let_def)

lemma record_bytes_offset:
  "b \<le> kBlockSize \<Longrightarrow> snd (record_bytes b d begin0) \<le> kBlockSize \<and>
     (b + length (fst (record_bytes b d begin0))) mod kBlockSize = snd (record_bytes b d begin0) mod kBlockSize"
proof (induction b d begin0 rule: record_bytes_induct)
  case (more b d begin0)
  let ?n = "fragment_length b d"
  let ?next = "record_bytes (aligned b + kHeaderSize + ?n) (drop ?n d) False"
  have jump: "(b + (skipped b + x)) mod kBlockSize = (aligned b + x) mod kBlockSize" for x
    using more.prems by (auto simp: skipped_def aligned_def)
  have n: "?n \<le> length d" by (simp add: fragment_length_def)
  show ?case
  proof (cases "?n < length d")
    case True
    have "length (fst (record_bytes b d begin0)) = skipped b + (kHeaderSize + ?n + length (fst ?next))"
      "snd (record_bytes b d begin0) = snd ?next"
      using True n by (simp_all add: record_bytes_step [of b d begin0] Let_def)
    then show ?thesis using jump [of "kHeaderSize + ?n + length (fst ?next)"]
      more.IH [OF True fragment_fits [OF more.prems]] by (simp add: add.assoc)
  next
    case False
    then have "length (fst (record_bytes b d begin0)) = skipped b + (kHeaderSize + ?n)"
      "snd (record_bytes b d begin0) = aligned b + kHeaderSize + ?n"
      using n by (simp_all add: record_bytes_step [of b d begin0] Let_def)
    then show ?thesis using jump [of "kHeaderSize + ?n"] fragment_fits [OF more.prems, of d]
      by (simp add: add.assoc)
  qed
qed

lemma record_bytes_block_end: "record_bytes kBlockSize d begin0 = record_bytes 0 d begin0"
proof -
  have "aligned kBlockSize = 0" "aligned 0 = 0" "skipped kBlockSize = 0" "skipped 0 = 0"
    by (simp_all add: aligned_def skipped_def kBlockSize_def kHeaderSize_def)
  then show ?thesis
    by (simp only: record_bytes_step [of kBlockSize] record_bytes_step [of 0] fragment_length_def)
qed

lemma log_bytes_block_end: "log_bytes kBlockSize ds = log_bytes 0 ds"
  by (cases ds) (simp_all add: log_bytes_Cons record_bytes_block_end)

context writable_file
begin

lemma AddRecords_law:
  assumes "writable (dest w)" "type_crc w = InitTypeCrc"
  shows "\<exists>w'. AddRecords Append Flush w ds = (w', Status_OK) \<and> writable (dest w') \<and>
    contents (dest w') = contents (dest w) @ log_bytes (block_offset w) ds \<and> type_crc w' = InitTypeCrc \<and>
    (block_offset w \<le> kBlockSize \<longrightarrow> block_offset w' \<le> kBlockSize \<and>
      (block_offset w + length (log_bytes (block_offset w) ds)) mod kBlockSize = block_offset w' mod kBlockSize)"
  using assms
proof (induction ds arbitrary: w)
  case (Cons d ds)
  obtain w1 where w1: "AddRecord Append Flush w d = (w1, Status_OK)" "writable (dest w1)"
    "type_crc w1 = InitTypeCrc" "block_offset w1 = snd (record_bytes (block_offset w) d True)"
    "contents (dest w1) = contents (dest w) @ fst (record_bytes (block_offset w) d True)"
    using AddRecord_loop_law [OF Cons.prems, of d True] by (auto simp: AddRecord_def)
  obtain w' where w': "AddRecords Append Flush w1 ds = (w', Status_OK)" "writable (dest w')"
    "contents (dest w') = contents (dest w1) @ log_bytes (block_offset w1) ds" "type_crc w' = InitTypeCrc"
    "block_offset w1 \<le> kBlockSize \<longrightarrow> block_offset w' \<le> kBlockSize \<and>
      (block_offset w1 + length (log_bytes (block_offset w1) ds)) mod kBlockSize = block_offset w' mod kBlockSize"
    using Cons.IH [OF w1(2,3)] by blast
  have "(block_offset w + length (log_bytes (block_offset w) (d # ds))) mod kBlockSize = block_offset w' mod kBlockSize \<and>
      block_offset w' \<le> kBlockSize" if "block_offset w \<le> kBlockSize"
  proof -
    have "(block_offset w + length (fst (record_bytes (block_offset w) d True))) mod kBlockSize = block_offset w1 mod kBlockSize"
      "block_offset w1 \<le> kBlockSize"
      using record_bytes_offset [OF that, of d True] w1(4) by simp_all
    then show ?thesis using w'(5) w1(4) mod_add_left_eq
      by (metis add.assoc length_append log_bytes_Cons)
  qed
  then show ?case using w1 w' by (simp add: log_bytes_Cons)
qed simp

end

context sequential_file
begin

lemma ReadRecord_at: "at_block b s r \<Longrightarrow> ReadRecord decimal Read Skip r = ReadRecord_loop decimal Read (r, [], \<not> True, 0) []"
  by (simp add: ReadRecord_def reader_at_def)

lemma read_log:
  assumes "at_block b (take n (log_bytes b ds)) r"
  shows "\<exists>k r'. read_all decimal Read Skip r = Some (take k ds, r') \<and> same_reports r r' \<and> k \<le> length ds \<and>
    length (log_bytes b (take k ds)) \<le> n \<and> (k < length ds \<longrightarrow> n < length (log_bytes b (take (Suc k) ds)))"
  using assms
proof (induction ds arbitrary: b n r)
  case Nil
  then have at: "at_block b (take 0 (fst (record_bytes b [] True))) r" by simp
  obtain r' where "ReadRecord decimal Read Skip r = Some (r', False, [])" "same_reports r r'"
    using read_record_cut [OF at record_bytes_nonempty, where scratch = "[]"] ReadRecord_at [OF Nil] by metis
  then show ?case by (subst read_all.simps) simp
next
  case (Cons d ds)
  let ?h = "fst (record_bytes b d True)" and ?b = "snd (record_bytes b d True)"
  show ?case
  proof (cases "n < length ?h")
    case True
    then have at: "at_block b (take n ?h) r" using Cons.prems by (simp add: log_bytes_Cons)
    obtain r' where "ReadRecord decimal Read Skip r = Some (r', False, [])" "same_reports r r'"
      using read_record_cut [OF at True, where scratch = "[]"] ReadRecord_at [OF at] by metis
    then show ?thesis using True
      by (subst read_all.simps) (simp add: log_bytes_Cons exI [of _ 0])
  next
    case False
    let ?m = "n - length ?h"
    have at: "at_block b (?h @ take ?m (log_bytes ?b ds)) r" using Cons.prems False by (simp add: log_bytes_Cons)
    obtain r1 where r1: "ReadRecord decimal Read Skip r = Some (r1, True, d)" "at_block ?b (take ?m (log_bytes ?b ds)) r1"
      "same_reports r r1"
      using read_record [OF at, where scratch = "[]"] ReadRecord_at [OF at] by force
    obtain k r' where k: "read_all decimal Read Skip r1 = Some (take k ds, r')" "same_reports r1 r'" "k \<le> length ds"
      "length (log_bytes ?b (take k ds)) \<le> ?m" "k < length ds \<longrightarrow> ?m < length (log_bytes ?b (take (Suc k) ds))"
      using Cons.IH [OF r1(2)] by blast
    have "read_all decimal Read Skip r = Some (take (Suc k) (d # ds), r')"
      using r1(1) k(1) by (subst read_all.simps) simp
    then show ?thesis using k False same_reports_trans [OF r1(3) k(2)]
      by (intro exI [of _ "Suc k"] exI [of _ r']) (auto simp: log_bytes_Cons)
  qed
qed

end

subsection \<open>Crash recovery and reopening\<close>


lemma AddRecords_append:
  "AddRecords Append Flush w (xs @ ys) =
     (case AddRecords Append Flush w xs of (w1, s) \<Rightarrow>
        if Status_ok s then AddRecords Append Flush w1 ys else (w1, s))"
  by (induction xs arbitrary: w) (auto split: prod.splits)

lemma length_log_bytes_take: "i \<le> j \<Longrightarrow> length (log_bytes b (take i ds)) \<le> length (log_bytes b (take j ds))"
proof (induction ds arbitrary: b i j)
  case (Cons d ds)
  then show ?case by (cases i; cases j) (auto simp: log_bytes_Cons)
qed simp

context sequential_file
begin

lemma at_start: "readable f \<Longrightarrow> at_block kBlockSize (remaining f) (Reader_new f reporter checksum 0)"
  by (simp add: reader_at_def Reader_new_def)

end

text \<open>C25. Crash recovery of the log. Add any records to an empty log file and cut the file at any length
  (a crash loses the tail): reading it back returns, in order and unchanged, exactly the records that
  were written completely before the cut, stops, and reports no corruption. With nothing cut off that
  is every record.\<close>

theorem log_crash_prefix:
  assumes "writable_file Append Flush contents writable" "sequential_file Read Skip remaining readable"
    and "writable d" "contents d = []" "AddRecords Append Flush (Writer_new d) ds = (w, s)"
    and "readable f" "remaining f = take n (contents (dest w))"
  shows "s = Status_OK \<and>
    (\<exists>k r. read_all decimal Read Skip (Reader_new f reporter checksum 0) = Some (take k ds, r) \<and> r_reports r = [] \<and>
       k \<le> length ds \<and>
       (\<forall>j\<le>length ds. j \<le> k \<longleftrightarrow>
          length (contents (dest (fst (AddRecords Append Flush (Writer_new d) (take j ds))))) \<le> n))"
proof -
  have empty: "writable (dest (Writer_new d))" "type_crc (Writer_new d) = InitTypeCrc" "block_offset (Writer_new d) = 0"
    "contents (dest (Writer_new d)) = []"
    using assms(3,4) by (simp_all add: Writer_new_def)
  have written: "snd (AddRecords Append Flush (Writer_new d) xs) = Status_OK \<and>
      contents (dest (fst (AddRecords Append Flush (Writer_new d) xs))) = log_bytes 0 xs" for xs
    using writable_file.AddRecords_law [OF assms(1) empty(1,2), of xs] empty(3,4) by auto
  have "reader_at remaining readable kBlockSize (take n (log_bytes kBlockSize ds)) (Reader_new f reporter checksum 0)"
    using sequential_file.at_start [OF assms(2,6)] assms(5,7) written [of ds] by (simp add: log_bytes_block_end)
  from sequential_file.read_log [OF assms(2) this, of decimal] obtain k r where
    k: "read_all decimal Read Skip (Reader_new f reporter checksum 0) = Some (take k ds, r)" "r_reports r = []"
      "k \<le> length ds" "length (log_bytes 0 (take k ds)) \<le> n"
      "k < length ds \<longrightarrow> n < length (log_bytes 0 (take (Suc k) ds))"
    unfolding log_bytes_block_end by (auto simp: same_reports_def Reader_new_def)
  have "j \<le> k \<longleftrightarrow> length (log_bytes 0 (take j ds)) \<le> n" if "j \<le> length ds" for j
    using k(3-5) that length_log_bytes_take [of j k 0 ds] length_log_bytes_take [of "Suc k" j 0 ds]
    by (cases "j \<le> k") auto
  then show ?thesis using k written [of ds] assms(5) by (auto simp: written)
qed

text \<open>C26. Reopening a log for appending is the same as never having closed it: a writer started from the
  length of the existing file produces the bytes the original writer would have produced.\<close>

theorem log_reopen:
  assumes "writable_file Append Flush contents writable" "writable d" "contents d = []"
    and "AddRecords Append Flush (Writer_new d) xs = (w, s)"
    and "AddRecords Append Flush (Writer_append (dest w) (length (contents (dest w)))) ys = (w1, s1)"
    and "AddRecords Append Flush (Writer_new d) (xs @ ys) = (w2, s2)"
  shows "s1 = Status_OK \<and> s2 = Status_OK \<and> contents (dest w1) = contents (dest w2)"
proof -
  have start: "writable (dest (Writer_new d))" "type_crc (Writer_new d) = InitTypeCrc" "block_offset (Writer_new d) = 0"
    using assms(2) by (simp_all add: Writer_new_def)
  have w: "s = Status_OK" "writable (dest w)" "contents (dest w) = log_bytes 0 xs" "type_crc w = InitTypeCrc"
    "block_offset w \<le> kBlockSize" "length (contents (dest w)) mod kBlockSize = block_offset w mod kBlockSize"
    using writable_file.AddRecords_law [OF assms(1) start(1,2), of xs] assms(3,4) start(3)
    by (auto simp: Writer_new_def)
  let ?a = "Writer_append (dest w) (length (contents (dest w)))"
  have reopened: "writable (dest ?a)" "type_crc ?a = InitTypeCrc" "block_offset ?a = block_offset w mod kBlockSize"
    using w by (simp_all add: Writer_append_def)
  have "block_offset w mod kBlockSize = (if block_offset w = kBlockSize then 0 else block_offset w)"
    using w(5) by auto
  then have "log_bytes (block_offset ?a) ys = log_bytes (block_offset w) ys"
    using reopened(3) by (auto simp: log_bytes_block_end)
  moreover have "AddRecords Append Flush w ys = (w2, s2)"
    using assms(4,6) w(1) by (simp add: AddRecords_append)
  ultimately show ?thesis
    using writable_file.AddRecords_law [OF assms(1) reopened(1,2), of ys] assms(5)
      writable_file.AddRecords_law [OF assms(1) w(2,4), of ys] by (auto simp: Writer_append_def)
qed


theorem log_crash_prefix_witness:
  "\<exists>w f r. AddRecords (WritableFileImpl_Append zero_memory) WritableFileImpl_Flush (Writer_new FileState_new) [[1, 2], []] = (w, Status_OK) \<and>
     file_contents (fst f) = file_contents (dest w) \<and>
     read_all (\<lambda>_. []) mem_Read mem_Skip (Reader_new f True True 0) = Some ([[1, 2], []], r) \<and> r_reports r = []"
proof -
  have new: "file_wf FileState_new" "file_contents FileState_new = []"
    by (simp_all add: FileState_new_def file_wf_def file_contents_def kMemBlockSize_def)
  obtain w s where w: "AddRecords (WritableFileImpl_Append zero_memory) WritableFileImpl_Flush (Writer_new FileState_new) [[1, 2], []] = (w, s)"
    by fastforce
  have "file_wf (dest w)"
    using zero_mem.mem_file.AddRecords_law [of "Writer_new FileState_new" "[[1, 2], []]"] new w
    by (simp add: Writer_new_def)
  then have readable: "mem_readable (dest w, \<lparr> sq_file = 0, sq_pos = 0 \<rparr>)"
    "mem_remaining (dest w, \<lparr> sq_file = 0, sq_pos = 0 \<rparr>) = take (length (file_contents (dest w))) (file_contents (dest w))"
    by (simp_all add: mem_readable_def mem_remaining_def)
  from log_crash_prefix [OF zero_mem.mem_file.writable_file_axioms mem_seq.sequential_file_axioms new w readable,
      of "\<lambda>_. []" True True]
  obtain k r where s: "s = Status_OK" and k: "read_all (\<lambda>_. []) mem_Read mem_Skip
        (Reader_new (dest w, \<lparr> sq_file = 0, sq_pos = 0 \<rparr>) True True 0) = Some (take k [[1, 2], []], r)"
      "r_reports r = []" "\<forall>j\<le>2. j \<le> k \<longleftrightarrow> length (file_contents (dest (fst (AddRecords (WritableFileImpl_Append zero_memory)
          WritableFileImpl_Flush (Writer_new FileState_new) (take j [[1, 2], []]))))) \<le> length (file_contents (dest w))"
    by auto
  from k(3) [rule_format, of 2] w have "2 \<le> k" by simp
  then show ?thesis using w s k(1,2)
    by (intro exI [of _ w] exI [of _ "(dest w, \<lparr> sq_file = 0, sq_pos = 0 \<rparr>)"] exI [of _ r]) simp
qed

theorem log_reopen_witness:
  "\<exists>w w1 w2. AddRecords (WritableFileImpl_Append zero_memory) WritableFileImpl_Flush (Writer_new FileState_new) [[7]] = (w, Status_OK) \<and>
     AddRecords (WritableFileImpl_Append zero_memory) WritableFileImpl_Flush
       (Writer_append (dest w) (length (file_contents (dest w)))) [[8]] = (w1, Status_OK) \<and>
     AddRecords (WritableFileImpl_Append zero_memory) WritableFileImpl_Flush (Writer_new FileState_new) [[7], [8]] = (w2, Status_OK) \<and>
     file_contents (dest w1) = file_contents (dest w2)"
proof -
  have new: "file_wf FileState_new" "file_contents FileState_new = []"
    by (simp_all add: FileState_new_def file_wf_def file_contents_def kMemBlockSize_def)
  have ok: "snd (AddRecords (WritableFileImpl_Append zero_memory) WritableFileImpl_Flush (Writer_new FileState_new) [[7]]) = Status_OK"
    using zero_mem.mem_file.AddRecords_law [of "Writer_new FileState_new" "[[7]]"] new by (auto simp: Writer_new_def)
  show ?thesis
    using log_reopen [OF zero_mem.mem_file.writable_file_axioms new surjective_pairing surjective_pairing surjective_pairing,
        of "[[7]]" "[[8]]"] ok
    by (metis append_Cons append_Nil prod.collapse)
qed

subsection \<open>Checksums and type bytes\<close>


lemma ReadPhysicalRecord_end:
  "length (r_buffer r) < kHeaderSize \<Longrightarrow> r_eof r \<Longrightarrow> ReadPhysicalRecord Read r result = (r \<lparr> r_buffer := [] \<rparr>, kEof, result)"
  by (simp add: ReadPhysicalRecord.simps [of Read r result])

lemma parse_checked:
  assumes "kHeaderSize \<le> length (r_buffer r)" "r_checksum r"
    "ReadPhysicalRecord Read r result = (r', t, p)" "t \<noteq> kEof" "t \<noteq> kBadRecord"
  shows "\<exists>h. r_buffer r = h @ p @ r_buffer r' \<and> length h = kHeaderSize \<and> t = scast (h ! 6) \<and>
    crc32c_Value (h ! 6 # p) = crc32c_Unmask (DecodeFixed32 h)"
proof -
  let ?b = "r_buffer r"
  define len where "len = unat ((scast (?b ! 4) AND 0xff :: uint32) OR push_bit 8 (scast (?b ! 5) AND 0xff))"
  have big: "\<not> length ?b < kHeaderSize" using assms(1) by simp
  have res: "kHeaderSize + len \<le> length ?b"
    "crc32c_Value (take (1 + len) (drop 6 ?b)) = crc32c_Unmask (DecodeFixed32 ?b)"
    "p = take len (drop kHeaderSize ?b)" "t = scast (?b ! 6)" "r_buffer r' = drop (kHeaderSize + len) ?b"
    using assms(2-5) big
    by (auto simp: ReadPhysicalRecord.simps [of Read r result] Let_def len_def [symmetric] split: if_splits simp del: push_bit_and)
  have h: "drop 6 ?b = ?b ! 6 # drop kHeaderSize ?b"
    using assms(1) Cons_nth_drop_Suc [of 6 ?b] by (simp add: kHeaderSize_def)
  have "p @ r_buffer r' = drop kHeaderSize ?b"
    using res(3,5) append_take_drop_id [of len "drop kHeaderSize ?b"] by (simp add: add.commute)
  then have "?b = take kHeaderSize ?b @ p @ r_buffer r'" by simp
  moreover have "DecodeFixed32 (take kHeaderSize ?b) = DecodeFixed32 ?b"
    using assms(1) by (simp add: DecodeFixed32_def DecodeFixed32_on_def kHeaderSize_def)
  ultimately show ?thesis using res h assms(1)
    by (intro exI [of _ "take kHeaderSize ?b"]) (simp add: kHeaderSize_def min_def)
qed

text \<open>C27. With checksums on, the reader hands out no physical record, from any file and whatever the
  buffer holds, unless the stored checksum is that of the type byte and the payload it returns.\<close>

theorem log_checksum_guard:
  assumes "r_checksum r" "ReadPhysicalRecord Read r result = (r', t, p)" "t \<noteq> kEof" "t \<noteq> kBadRecord"
  shows "\<exists>h. (r_buffer r = h @ p @ r_buffer r' \<or> snd (snd (Read (r_file r) kBlockSize)) = h @ p @ r_buffer r') \<and>
    length h = kHeaderSize \<and> t = scast (h ! 6) \<and> crc32c_Value (h ! 6 # p) = crc32c_Unmask (DecodeFixed32 h)"
proof (cases "length (r_buffer r) < kHeaderSize")
  case False
  then show ?thesis using parse_checked [OF _ assms] by auto
next
  case True
  obtain f s data where rd: "Read (r_file r) kBlockSize = (f, s, data)" by (metis prod.exhaust)
  let ?r = "r \<lparr> r_file := f, r_buffer := data,
    r_end_of_buffer_offset := r_end_of_buffer_offset r + word_of_nat (length data) \<rparr>"
  let ?r1 = "if length data < kBlockSize then ?r \<lparr> r_eof := True \<rparr> else ?r"
  have "ReadPhysicalRecord Read ?r1 result = (r', t, p)"
    using assms(2,3) True rd by (simp add: ReadPhysicalRecord.simps [of Read r result] Let_def split: if_splits)
  moreover from this assms(3) have "kHeaderSize \<le> length (r_buffer ?r1)"
    using ReadPhysicalRecord_end [of ?r1 Read result]
    by (cases "length data < kHeaderSize") (auto simp: kBlockSize_def kHeaderSize_def split: if_splits)
  ultimately show ?thesis using parse_checked [of ?r1 Read result r' t p] assms rd by (auto split: if_splits)
qed


theorem log_checksum_guard_witness:
  "\<exists>h. physical_record kFullType [1] = h @ [1] \<and> length h = kHeaderSize \<and>
     crc32c_Value (h ! 6 # [1]) = crc32c_Unmask (DecodeFixed32 h)"
proof -
  let ?r = "(Reader_new (FileState_new, \<lparr> sq_file = 0, sq_pos = 0 \<rparr>) True True 0)
    \<lparr> r_buffer := physical_record kFullType [1], r_eof := True \<rparr>"
  have "reader_at mem_remaining mem_readable 0 (physical_record kFullType [1] @ []) ?r"
    by (simp add: reader_at_def Reader_new_def mem_readable_def mem_remaining_def FileState_new_def file_wf_def
        file_contents_def kMemBlockSize_def kBlockSize_def kHeaderSize_def)
  from mem_seq.read_fragment_here [OF this, of "[]"] obtain r' where
    r': "ReadPhysicalRecord mem_Read ?r [] = (r', word_of_nat (RecordType_code kFullType), [1])"
      "reader_at mem_remaining mem_readable (0 + kHeaderSize + length [1 :: byte]) [] r'"
    by (auto simp: kBlockSize_def kHeaderSize_def)
  have "mem_Read (r_file ?r) kBlockSize = ((FileState_new, \<lparr> sq_file = 0, sq_pos = 0 \<rparr>), Status_OK, [])"
    by (simp add: mem_Read_def SequentialFileImpl_Read_def FileState_Read_def FileState_new_def Reader_new_def)
  then show ?thesis
    using log_checksum_guard [of ?r, OF _ r'(1)] r'(2)
    by (auto simp: Reader_new_def kEof_def kBadRecord_def kMaxRecordType_def reader_at_def)
qed




end
