(* ===== verification/Dbformat.thy ===== *)
theory Dbformat
  imports Coding KeyOrder
begin

text \<open>
  \<open>db/dbformat.h\<close> and \<open>db/dbformat.cc\<close>: internal keys (a user key followed by eight bytes that pack
  a 56-bit sequence number and a value type), their comparator over any user comparator, and the
  lookup keys of \<open>DBImpl::Get\<close>. An \<open>InternalKey\<close> object is its byte string.
\<close>

subsection \<open>Internal keys\<close>

definition kNumLevels :: nat where
  "kNumLevels = 7"

datatype ValueType = kTypeDeletion | kTypeValue

fun ValueType_code :: "ValueType \<Rightarrow> byte" where
  "ValueType_code kTypeDeletion = 0x0"
| "ValueType_code kTypeValue = 0x1"

definition kValueTypeForSeek :: ValueType where
  "kValueTypeForSeek = kTypeValue"

definition kMaxSequenceNumber :: uint64 where
  "kMaxSequenceNumber = push_bit 56 1 - 1"

record ParsedInternalKey =
  user_key :: slice
  sequence :: uint64
  value_type :: ValueType

definition InternalKeyEncodingLength :: "ParsedInternalKey \<Rightarrow> nat" where
  "InternalKeyEncodingLength key = length (user_key key) + 8"

definition PackSequenceAndType :: "uint64 \<Rightarrow> ValueType \<Rightarrow> uint64" where
  "PackSequenceAndType seq t = push_bit 8 seq OR ucast (ValueType_code t)"

definition AppendInternalKey :: "slice \<Rightarrow> ParsedInternalKey \<Rightarrow> slice" where
  "AppendInternalKey result key =
     PutFixed64 (result @ user_key key) (PackSequenceAndType (sequence key) (value_type key))"

definition ExtractUserKey :: "slice \<Rightarrow> slice" where
  "ExtractUserKey internal_key = take (length internal_key - 8) internal_key"

text \<open>The tag of an internal key: \<open>DecodeFixed64(data + size - 8)\<close>.\<close>

definition internal_tag :: "slice \<Rightarrow> uint64" where
  "internal_tag internal_key = DecodeFixed64 (drop (length internal_key - 8) internal_key)"

text \<open>The assertion at the head of \<open>ExtractUserKey\<close>.\<close>

definition valid_ikey :: "slice \<Rightarrow> bool" where
  "valid_ikey k \<longleftrightarrow> 8 \<le> length k"

text \<open>The byte \<open>ExtractValueType\<close> casts to the enumeration.\<close>

definition ExtractValueType :: "slice \<Rightarrow> byte" where
  "ExtractValueType internal_key = ucast (internal_tag internal_key AND 0xff)"

definition ParseInternalKey :: "slice \<Rightarrow> ParsedInternalKey option" where
  "ParseInternalKey internal_key =
     (let n = length internal_key in
      if n < 8 then None
      else
        let num = internal_tag internal_key;
            c = ucast (num AND 0xff) :: byte
        in if c \<le> ValueType_code kTypeValue
           then Some \<lparr>user_key = take (n - 8) internal_key, sequence = drop_bit 8 num,
                      value_type = (if c = 0 then kTypeDeletion else kTypeValue)\<rparr>
           else None)"

definition InternalKey :: "slice \<Rightarrow> uint64 \<Rightarrow> ValueType \<Rightarrow> slice" where
  "InternalKey ukey s t =
     AppendInternalKey [] \<lparr>user_key = ukey, sequence = s, value_type = t\<rparr>"

subsection \<open>The internal key comparator\<close>

definition InternalKey_Compare :: "(slice \<Rightarrow> slice \<Rightarrow> int) \<Rightarrow> slice \<Rightarrow> slice \<Rightarrow> int" where
  "InternalKey_Compare user_compare akey bkey =
     (let r = user_compare (ExtractUserKey akey) (ExtractUserKey bkey) in
      if r = 0 then
        let anum = internal_tag akey; bnum = internal_tag bkey in
        if anum > bnum then -1 else if anum < bnum then 1 else r
      else r)"

definition InternalKey_FindShortestSeparator ::
    "(slice \<Rightarrow> slice \<Rightarrow> int) \<Rightarrow> (slice \<Rightarrow> slice \<Rightarrow> slice) \<Rightarrow> slice \<Rightarrow> slice \<Rightarrow> slice" where
  "InternalKey_FindShortestSeparator user_compare user_separator start limit =
     (let user_start = ExtractUserKey start;
          user_limit = ExtractUserKey limit;
          tmp = user_separator user_start user_limit
      in if length tmp < length user_start \<and> user_compare user_start tmp < 0
         then PutFixed64 tmp (PackSequenceAndType kMaxSequenceNumber kValueTypeForSeek)
         else start)"

definition InternalKey_FindShortSuccessor ::
    "(slice \<Rightarrow> slice \<Rightarrow> int) \<Rightarrow> (slice \<Rightarrow> slice) \<Rightarrow> slice \<Rightarrow> slice" where
  "InternalKey_FindShortSuccessor user_compare user_successor key =
     (let ukey = ExtractUserKey key;
          tmp = user_successor ukey
      in if length tmp < length ukey \<and> user_compare ukey tmp < 0
         then PutFixed64 tmp (PackSequenceAndType kMaxSequenceNumber kValueTypeForSeek)
         else key)"

subsection \<open>The filter policy wrapper\<close>

definition InternalFilterPolicy_CreateFilter ::
    "(slice list \<Rightarrow> slice \<Rightarrow> slice) \<Rightarrow> slice list \<Rightarrow> slice \<Rightarrow> slice" where
  "InternalFilterPolicy_CreateFilter user_create keys dst = user_create (map ExtractUserKey keys) dst"

definition InternalFilterPolicy_KeyMayMatch ::
    "(slice \<Rightarrow> slice \<Rightarrow> bool) \<Rightarrow> slice \<Rightarrow> slice \<Rightarrow> bool" where
  "InternalFilterPolicy_KeyMayMatch user_match key f = user_match (ExtractUserKey key) f"

subsection \<open>Lookup keys\<close>

text \<open>\<open>lk_space\<close> is the array from \<open>start_\<close> to \<open>end_\<close>, \<open>lk_kstart\<close> the offset of \<open>kstart_\<close> in it.\<close>

record LookupKey =
  lk_space :: slice
  lk_kstart :: nat

definition LookupKey_make :: "slice \<Rightarrow> uint64 \<Rightarrow> LookupKey" where
  "LookupKey_make ukey s =
     (let usize = length ukey;
          klength = EncodeVarint32 (word_of_nat (usize + 8))
      in \<lparr>lk_space = klength @ ukey @ EncodeFixed64 (PackSequenceAndType s kValueTypeForSeek),
          lk_kstart = length klength\<rparr>)"

definition LookupKey_memtable_key :: "LookupKey \<Rightarrow> slice" where
  "LookupKey_memtable_key k = lk_space k"

definition LookupKey_internal_key :: "LookupKey \<Rightarrow> slice" where
  "LookupKey_internal_key k = drop (lk_kstart k) (lk_space k)"

definition LookupKey_user_key :: "LookupKey \<Rightarrow> slice" where
  "LookupKey_user_key k =
     take (length (lk_space k) - lk_kstart k - 8) (drop (lk_kstart k) (lk_space k))"

subsection \<open>Packing and parsing\<close>


lemma unat_ValueType_code: "unat (ValueType_code t) \<le> 1"
  by (cases t) simp_all

lemma ucast_Pack: "(ucast (PackSequenceAndType seq t AND 0xff) :: byte) = ValueType_code t"
  unfolding PackSequenceAndType_def by (rule bit_word_eqI) (auto simp: bit_simps bit_consts)

lemma kMaxSequenceNumber_unat: "seq \<le> kMaxSequenceNumber \<longleftrightarrow> unat seq < 2 ^ 56"
  by (simp add: kMaxSequenceNumber_def word_le_nat_alt) linarith

lemma unat_Pack:
  assumes "unat s < 2 ^ 56"
  shows "unat (PackSequenceAndType s t) = unat s * 256 + unat (ValueType_code t)"
proof -
  have c: "unat (ValueType_code t) < 256" using unsigned_less [of "ValueType_code t"] by simp
  have "push_bit 8 s OR ucast (ValueType_code t) = push_bit 8 s + ucast (ValueType_code t)"
    by (rule disjunctive_add [symmetric]) (auto simp: bit_simps dest: bit_imp_le_length)
  moreover have "unat (push_bit 8 s) = unat s * 256"
    using assms by (simp add: push_bit_eq_mult unat_word_ariths mult.commute)
  ultimately show ?thesis
    using assms c by (simp add: PackSequenceAndType_def unat_word_ariths unat_ucast_up)
qed

lemma drop_Pack: "unat seq < 2 ^ 56 \<Longrightarrow> drop_bit 8 (PackSequenceAndType seq t) = seq"
  using unat_ValueType_code [of t]
  by (simp add: word_unat_eq_iff unat_drop_bit_eq unat_Pack drop_bit_eq_div [of 8 "unat _ * _ + _"])

lemma Pack_less_iff:
  assumes "unat s1 < 2 ^ 56" "unat s2 < 2 ^ 56"
  shows "PackSequenceAndType s1 t1 < PackSequenceAndType s2 t2 \<longleftrightarrow>
    s1 < s2 \<or> s1 = s2 \<and> ValueType_code t1 < ValueType_code t2"
  using assms unat_ValueType_code [of t1] unat_ValueType_code [of t2]
  by (auto simp: word_less_nat_alt unat_Pack word_unat_eq_iff)

lemma length_AppendInternalKey [simp]:
  "length (AppendInternalKey r k) = length r + length (user_key k) + 8"
  by (simp add: AppendInternalKey_def PutFixed64_def)

lemma ExtractUserKey_append [simp]: "length t = 8 \<Longrightarrow> ExtractUserKey (u @ t) = u"
  by (simp add: ExtractUserKey_def)

lemma internal_tag_append [simp]: "internal_tag (u @ EncodeFixed64 t) = t"
  using DecodeFixed64_Encode [of t "[]"] by (simp add: internal_tag_def)

lemma InternalKey_simps [simp]:
  "ExtractUserKey (InternalKey u s t) = u"
  "internal_tag (InternalKey u s t) = PackSequenceAndType s t"
  "length (InternalKey u s t) = length u + 8"
  by (simp_all add: InternalKey_def AppendInternalKey_def PutFixed64_def)

lemma ParseInternalKey_append:
  "unat (sequence k) < 2 ^ 56 \<Longrightarrow> ParseInternalKey (AppendInternalKey [] k) = Some k"
  by (cases "value_type k")
    (simp_all add: ParseInternalKey_def AppendInternalKey_def PutFixed64_def Let_def ucast_Pack drop_Pack)


subsection \<open>The order on internal keys\<close>

text \<open>The user comparator is supplied by the application; over any that keeps its contract the
  internal comparator keeps it too, on strings long enough to hold a tag.\<close>

locale user_comparator = shortening_order "\<lambda>_. True" cmp sep succ
  for cmp :: "slice \<Rightarrow> slice \<Rightarrow> int" and sep succ

context user_comparator
begin

lemma ikey_less_iff:
  "InternalKey_Compare cmp a b < 0 \<longleftrightarrow>
   cmp (ExtractUserKey a) (ExtractUserKey b) < 0 \<or>
   cmp (ExtractUserKey a) (ExtractUserKey b) = 0 \<and> internal_tag b < internal_tag a"
  by (auto simp: InternalKey_Compare_def Let_def)

lemma ikey_greater_iff:
  "0 < InternalKey_Compare cmp a b \<longleftrightarrow>
   0 < cmp (ExtractUserKey a) (ExtractUserKey b) \<or>
   cmp (ExtractUserKey a) (ExtractUserKey b) = 0 \<and> internal_tag a < internal_tag b"
  by (auto simp: InternalKey_Compare_def Let_def)

lemma ikey_le_iff:
  "InternalKey_Compare cmp a b \<le> 0 \<longleftrightarrow>
   cmp (ExtractUserKey a) (ExtractUserKey b) < 0 \<or>
   cmp (ExtractUserKey a) (ExtractUserKey b) = 0 \<and> internal_tag b \<le> internal_tag a"
  using ikey_greater_iff [of a b] by (auto simp: not_less)

lemma ikey_eq_iff:
  "InternalKey_Compare cmp a b = 0 \<longleftrightarrow>
   cmp (ExtractUserKey a) (ExtractUserKey b) = 0 \<and> internal_tag a = internal_tag b"
  using ikey_less_iff [of a b] ikey_le_iff [of a b] by auto

lemma ikey_flip: "InternalKey_Compare cmp a b < 0 \<longleftrightarrow> 0 < InternalKey_Compare cmp b a"
  using cmp_flip cmp_eq_sym by (auto simp: ikey_less_iff ikey_greater_iff)

lemma ikey_trans:
  assumes "InternalKey_Compare cmp a b \<le> 0" "InternalKey_Compare cmp b c \<le> 0"
  shows "InternalKey_Compare cmp a c \<le> 0"
proof -
  let ?u = ExtractUserKey
  have le: "cmp (?u a) (?u b) \<le> 0" "cmp (?u b) (?u c) \<le> 0" using assms by (auto simp: ikey_le_iff)
  show ?thesis
  proof (cases "cmp (?u a) (?u b) < 0 \<or> cmp (?u b) (?u c) < 0")
    case True
    then have "cmp (?u a) (?u c) < 0" using le cmp_less_le_trans cmp_le_less_trans by blast
    then show ?thesis by (simp add: ikey_le_iff)
  next
    case False
    then have "cmp (?u a) (?u c) \<le> 0" using le cmp_trans by blast
    with False assms show ?thesis by (auto simp: ikey_le_iff)
  qed
qed

lemma ikey_separator_cases:
  "InternalKey_FindShortestSeparator cmp sep s l = s \<or>
   (InternalKey_FindShortestSeparator cmp sep s l =
      InternalKey (sep (ExtractUserKey s) (ExtractUserKey l)) kMaxSequenceNumber kValueTypeForSeek \<and>
    cmp (ExtractUserKey s) (sep (ExtractUserKey s) (ExtractUserKey l)) < 0)"
  by (simp add: InternalKey_FindShortestSeparator_def Let_def InternalKey_def AppendInternalKey_def)

lemma ikey_successor_cases:
  "InternalKey_FindShortSuccessor cmp succ k = k \<or>
   (InternalKey_FindShortSuccessor cmp succ k =
      InternalKey (succ (ExtractUserKey k)) kMaxSequenceNumber kValueTypeForSeek \<and>
    cmp (ExtractUserKey k) (succ (ExtractUserKey k)) < 0)"
  by (simp add: InternalKey_FindShortSuccessor_def Let_def InternalKey_def AppendInternalKey_def)

lemma ikey_separator_ge: "InternalKey_Compare cmp s (InternalKey_FindShortestSeparator cmp sep s l) \<le> 0"
  using ikey_separator_cases [of s l] by (auto simp: ikey_le_iff cmp_refl)

lemma ikey_separator_less:
  assumes "InternalKey_Compare cmp s l < 0"
  shows "InternalKey_Compare cmp (InternalKey_FindShortestSeparator cmp sep s l) l < 0"
proof (cases "InternalKey_FindShortestSeparator cmp sep s l = s")
  case False
  with ikey_separator_cases [of s l] have new:
    "InternalKey_FindShortestSeparator cmp sep s l =
       InternalKey (sep (ExtractUserKey s) (ExtractUserKey l)) kMaxSequenceNumber kValueTypeForSeek"
    "cmp (ExtractUserKey s) (sep (ExtractUserKey s) (ExtractUserKey l)) < 0" by blast+
  then have "cmp (ExtractUserKey s) (ExtractUserKey l) < 0"
    using assms separator_same by (auto simp: ikey_less_iff)
  then show ?thesis using separator_less by (simp add: new ikey_less_iff)
qed (simp add: assms)

end

sublocale user_comparator \<subseteq> internal: shortening_order valid_ikey "InternalKey_Compare cmp"
  "InternalKey_FindShortestSeparator cmp sep" "InternalKey_FindShortSuccessor cmp succ"
proof unfold_locales
  fix s l
  assume "valid_ikey s" "valid_ikey l" "InternalKey_Compare cmp s l = 0"
  then have "cmp (ExtractUserKey s) (sep (ExtractUserKey s) (ExtractUserKey l)) = 0"
    using separator_same by (simp add: ikey_eq_iff)
  then show "InternalKey_Compare cmp s (InternalKey_FindShortestSeparator cmp sep s l) = 0"
    using ikey_separator_cases [of s l] by (auto simp: ikey_eq_iff cmp_refl)
next
  fix s l
  assume "valid_ikey s" "valid_ikey l"
  then show "valid_ikey (InternalKey_FindShortestSeparator cmp sep s l)"
    using ikey_separator_cases [of s l] by (auto simp: valid_ikey_def)
next
  fix k
  assume "valid_ikey k"
  then show "valid_ikey (InternalKey_FindShortSuccessor cmp succ k)"
    "InternalKey_Compare cmp k (InternalKey_FindShortSuccessor cmp succ k) \<le> 0"
    using ikey_successor_cases [of k] by (auto simp: valid_ikey_def ikey_le_iff cmp_refl)
qed (auto simp: ikey_eq_iff cmp_refl ikey_separator_ge ikey_separator_less
    intro: ikey_trans ikey_flip [THEN iffD1] ikey_flip [THEN iffD2])

context user_comparator
begin

lemma ikey_key_order: "key_order valid_ikey (InternalKey_Compare cmp)"
  by (rule internal.key_order_axioms)

lemma ikey_separator:
  assumes "valid_ikey s" "valid_ikey l" "InternalKey_Compare cmp s l < 0"
  shows "InternalKey_Compare cmp s (InternalKey_FindShortestSeparator cmp sep s l) \<le> 0"
    "InternalKey_Compare cmp (InternalKey_FindShortestSeparator cmp sep s l) l < 0"
    "valid_ikey (InternalKey_FindShortestSeparator cmp sep s l)"
  using assms internal.separator_ge internal.separator_less internal.separator_valid by blast+

lemma ikey_successor:
  assumes "valid_ikey k"
  shows "InternalKey_Compare cmp k (InternalKey_FindShortSuccessor cmp succ k) \<le> 0"
    "valid_ikey (InternalKey_FindShortSuccessor cmp succ k)"
  using assms internal.successor_ge internal.successor_valid by blast+

end

interpretation ubytewise: user_comparator Bytewise_Compare Bytewise_FindShortestSeparator Bytewise_FindShortSuccessor
  by unfold_locales


lemma LookupKey_parts:
  "LookupKey_internal_key (LookupKey_make u s) = InternalKey u s kValueTypeForSeek"
  "LookupKey_user_key (LookupKey_make u s) = u"
  "LookupKey_memtable_key (LookupKey_make u s) =
     PutLengthPrefixedSlice [] (LookupKey_internal_key (LookupKey_make u s))"
  by (simp_all add: LookupKey_make_def LookupKey_internal_key_def LookupKey_user_key_def
      LookupKey_memtable_key_def InternalKey_def AppendInternalKey_def PutFixed64_def
      PutLengthPrefixedSlice_def PutVarint32_def Let_def)

lemma Pack_seek_le_iff:
  assumes "unat s < 2 ^ 56" "unat s' < 2 ^ 56"
  shows "PackSequenceAndType s' t \<le> PackSequenceAndType s kValueTypeForSeek \<longleftrightarrow> s' \<le> s"
  using assms unat_ValueType_code [of t]
  by (auto simp: word_le_nat_alt unat_Pack kValueTypeForSeek_def)

subsection \<open>Properties\<close>

text \<open>Internal keys round trip: parsing the serialisation of a key whose sequence number fits in 56
  bits gives the key back, and its length is \<open>InternalKeyEncodingLength\<close>.\<close>

theorem internal_key_roundtrip:
  assumes "sequence k \<le> kMaxSequenceNumber"
  shows "ParseInternalKey (AppendInternalKey [] k) = Some k \<and>
    length (AppendInternalKey r k) = length r + InternalKeyEncodingLength k"
  using assms by (simp add: ParseInternalKey_append kMaxSequenceNumber_unat InternalKeyEncodingLength_def)

theorem internal_key_roundtrip_witness:
  "sequence \<lparr>user_key = [97, 98], sequence = 7, value_type = kTypeDeletion\<rparr> \<le> kMaxSequenceNumber \<and>
   ParseInternalKey (AppendInternalKey [] \<lparr>user_key = [97, 98], sequence = 7, value_type = kTypeDeletion\<rparr>) =
     Some \<lparr>user_key = [97, 98], sequence = 7, value_type = kTypeDeletion\<rparr>"
proof -
  have "sequence \<lparr>user_key = [97, 98], sequence = 7, value_type = kTypeDeletion\<rparr> \<le> kMaxSequenceNumber"
    by (simp add: kMaxSequenceNumber_unat)
  from internal_key_roundtrip [OF this] this show ?thesis by blast
qed

text \<open>C31. The order on internal keys is the documented one: increasing user key under the
  application's comparator, then decreasing sequence number, then decreasing type; it is again a total
  order on strings that hold a tag.\<close>

theorem internal_key_order:
  assumes "user_comparator cmp sep succ" "s1 \<le> kMaxSequenceNumber" "s2 \<le> kMaxSequenceNumber"
  shows "(InternalKey_Compare cmp (InternalKey u1 s1 t1) (InternalKey u2 s2 t2) < 0 \<longleftrightarrow>
      cmp u1 u2 < 0 \<or> cmp u1 u2 = 0 \<and> (s2 < s1 \<or> s1 = s2 \<and> ValueType_code t2 < ValueType_code t1)) \<and>
    key_order valid_ikey (InternalKey_Compare cmp)"
proof -
  note user_comparator.ikey_key_order [OF assms(1)]
  then show ?thesis
    using assms(2,3) by (auto simp: user_comparator.ikey_less_iff [OF assms(1)] kMaxSequenceNumber_unat Pack_less_iff)
qed

theorem internal_key_order_witness:
  "InternalKey_Compare Bytewise_Compare (InternalKey [97] 9 kTypeValue) (InternalKey [97] 4 kTypeValue) < 0"
proof -
  have "(9 :: uint64) \<le> kMaxSequenceNumber" "(4 :: uint64) \<le> kMaxSequenceNumber"
    by (simp_all add: kMaxSequenceNumber_unat)
  from internal_key_order [OF ubytewise.user_comparator_axioms this, of "[97]" kTypeValue "[97]" kTypeValue]
  show ?thesis by (simp add: Bytewise_Compare_def)
qed




text \<open>The documented contract of a user comparator is not enough for the internal one: there is a
  comparator that maps every \<open>start < limit\<close> into \<open>[start, limit)\<close>, as \<open>comparator.h\<close> asks, and
  two internal keys in order with the same user key whose computed separator is behind the limit, so
  that the second assertion of \<open>InternalKeyComparator::FindShortestSeparator\<close> fails. (The routine asks
  for a separator of two equal user keys, for which \<open>comparator.h\<close> promises nothing.)\<close>

theorem internal_separator_needs_equal_keys:
  "\<exists>sep start limit.
     (\<forall>s l. Bytewise_Compare s l < 0 \<longrightarrow>
        Bytewise_Compare s (sep s l) \<le> 0 \<and> Bytewise_Compare (sep s l) l < 0) \<and>
     valid_ikey start \<and> valid_ikey limit \<and> InternalKey_Compare Bytewise_Compare start limit < 0 \<and>
     0 < InternalKey_Compare Bytewise_Compare
           (InternalKey_FindShortestSeparator Bytewise_Compare sep start limit) limit"
proof (intro exI conjI)
  let ?sep = "\<lambda>s l. if Bytewise_Compare s l < 0 then s else Bytewise_FindShortSuccessor s"
  show "\<forall>s l. Bytewise_Compare s l < 0 \<longrightarrow>
      Bytewise_Compare s (?sep s l) \<le> 0 \<and> Bytewise_Compare (?sep s l) l < 0"
    by (simp add: Bytewise_Compare_def)
  show "InternalKey_Compare Bytewise_Compare (InternalKey [97, 98] 5 kTypeValue) (InternalKey [97, 98] 3 kTypeValue) < 0"
    by (simp add: InternalKey_Compare_def Bytewise_Compare_def PackSequenceAndType_def)
  have "InternalKey_FindShortestSeparator Bytewise_Compare ?sep
      (InternalKey [97, 98] 5 kTypeValue) (InternalKey [97, 98] 3 kTypeValue) =
      InternalKey [98] kMaxSequenceNumber kValueTypeForSeek"
    by (simp add: InternalKey_FindShortestSeparator_def Bytewise_Compare_def Let_def)
      (simp add: InternalKey_def AppendInternalKey_def)
  then show "0 < InternalKey_Compare Bytewise_Compare
      (InternalKey_FindShortestSeparator Bytewise_Compare ?sep
         (InternalKey [97, 98] 5 kTypeValue) (InternalKey [97, 98] 3 kTypeValue))
      (InternalKey [97, 98] 3 kTypeValue)"
    by (simp add: InternalKey_Compare_def Bytewise_Compare_def)
qed (simp_all add: valid_ikey_def)

theorem internal_separator_needs_equal_keys_witness:
  "\<exists>sep start limit. Bytewise_Compare [1] (sep [1] [3]) \<le> 0 \<and> Bytewise_Compare (sep [1] [3]) [3] < 0 \<and>
     0 < InternalKey_Compare Bytewise_Compare
           (InternalKey_FindShortestSeparator Bytewise_Compare sep start limit) limit"
proof -
  have "Bytewise_Compare [1] [3] < 0" by (simp add: Bytewise_Compare_def)
  with internal_separator_needs_equal_keys show ?thesis by metis
qed

text \<open>C33. A lookup key sits exactly between the versions it may and may not see: its parts are those
  the comment of \<open>LookupKey\<close> draws, and for entries of the same user key it sorts at or before those
  whose sequence number is at most the snapshot's, and behind all newer ones.\<close>

theorem lookup_key_position:
  assumes "user_comparator cmp sep succ" "s \<le> kMaxSequenceNumber" "s' \<le> kMaxSequenceNumber"
  shows "LookupKey_internal_key (LookupKey_make u s) = InternalKey u s kValueTypeForSeek \<and>
    LookupKey_user_key (LookupKey_make u s) = u \<and>
    LookupKey_memtable_key (LookupKey_make u s) =
      PutLengthPrefixedSlice [] (LookupKey_internal_key (LookupKey_make u s)) \<and>
    (InternalKey_Compare cmp (LookupKey_internal_key (LookupKey_make u s)) (InternalKey u s' t) \<le> 0
      \<longleftrightarrow> s' \<le> s)"
proof -
  have "cmp u u = 0" using assms(1) shortening_order.axioms(1) user_comparator.axioms
    by (metis key_order.cmp_refl)
  then show ?thesis
    using assms by (simp add: LookupKey_parts user_comparator.ikey_le_iff [OF assms(1)]
        kMaxSequenceNumber_unat Pack_seek_le_iff)
qed

theorem lookup_key_position_witness:
  "InternalKey_Compare Bytewise_Compare (LookupKey_internal_key (LookupKey_make [97] 5))
     (InternalKey [97] 3 kTypeDeletion) \<le> 0"
proof -
  have "(5 :: uint64) \<le> kMaxSequenceNumber" "(3 :: uint64) \<le> kMaxSequenceNumber"
    by (simp_all add: kMaxSequenceNumber_unat)
  from lookup_key_position [OF ubytewise.user_comparator_axioms this, of "[97]" kTypeDeletion]
  show ?thesis by auto
qed

end
