(* ===== verification/WriteBatch.thy ===== *)
theory WriteBatch
  imports Dbformat Status
begin

text \<open>
  Write batches, \<open>db/write_batch.cc\<close>: the serialised list of updates that one write appends to the
  log and applies to the memtable. A batch is its string \<open>rep_\<close>; a handler is a state with its two
  callbacks. The counts are C++ \<open>int\<close>s, modelled as 32-bit words.
\<close>

definition kHeader :: nat where
  "kHeader = 12"

definition WriteBatch_Clear :: slice where
  "WriteBatch_Clear = replicate kHeader 0"

definition WriteBatch_Count :: "slice \<Rightarrow> uint32" where
  "WriteBatch_Count rep = DecodeFixed32 (drop 8 rep)"

definition WriteBatch_SetCount :: "slice \<Rightarrow> uint32 \<Rightarrow> slice" where
  "WriteBatch_SetCount rep n = take 8 rep @ EncodeFixed32 n @ drop 12 rep"

definition WriteBatch_Sequence :: "slice \<Rightarrow> uint64" where
  "WriteBatch_Sequence rep = DecodeFixed64 rep"

definition WriteBatch_SetSequence :: "slice \<Rightarrow> uint64 \<Rightarrow> slice" where
  "WriteBatch_SetSequence rep seq = EncodeFixed64 seq @ drop 8 rep"

definition WriteBatch_Put :: "slice \<Rightarrow> slice \<Rightarrow> slice \<Rightarrow> slice" where
  "WriteBatch_Put rep key val =
     PutLengthPrefixedSlice
       (PutLengthPrefixedSlice
          (WriteBatch_SetCount rep (WriteBatch_Count rep + 1) @ [ValueType_code kTypeValue]) key) val"

definition WriteBatch_Delete :: "slice \<Rightarrow> slice \<Rightarrow> slice" where
  "WriteBatch_Delete rep key =
     PutLengthPrefixedSlice
       (WriteBatch_SetCount rep (WriteBatch_Count rep + 1) @ [ValueType_code kTypeDeletion]) key"

definition WriteBatch_SetContents :: "slice \<Rightarrow> slice" where
  "WriteBatch_SetContents contents = contents"

definition WriteBatch_Append :: "slice \<Rightarrow> slice \<Rightarrow> slice" where
  "WriteBatch_Append dst src =
     WriteBatch_SetCount dst (WriteBatch_Count dst + WriteBatch_Count src) @ drop kHeader src"

text \<open>The loop of \<open>Iterate\<close>; the result is the handler with either the error or the number of records
  found.\<close>

function Iterate_loop :: "('h \<Rightarrow> slice \<Rightarrow> slice \<Rightarrow> 'h) \<Rightarrow> ('h \<Rightarrow> slice \<Rightarrow> 'h) \<Rightarrow> slice \<Rightarrow> uint32 \<Rightarrow> 'h \<Rightarrow>
    'h \<times> (status + uint32)" where
  "Iterate_loop put del input found h =
     (case input of
        [] \<Rightarrow> (h, Inr found)
      | tag # input1 \<Rightarrow>
          if tag = ValueType_code kTypeValue then
            (case GetLengthPrefixedSlice input1 of
               None \<Rightarrow> (h, Inl (Status_Corruption (str ''bad WriteBatch Put'') []))
             | Some (key, input2) \<Rightarrow>
                 (case GetLengthPrefixedSlice input2 of
                    None \<Rightarrow> (h, Inl (Status_Corruption (str ''bad WriteBatch Put'') []))
                  | Some (val, input3) \<Rightarrow> Iterate_loop put del input3 (found + 1) (put h key val)))
          else if tag = ValueType_code kTypeDeletion then
            (case GetLengthPrefixedSlice input1 of
               None \<Rightarrow> (h, Inl (Status_Corruption (str ''bad WriteBatch Delete'') []))
             | Some (key, input2) \<Rightarrow> Iterate_loop put del input2 (found + 1) (del h key))
          else (h, Inl (Status_Corruption (str ''unknown WriteBatch tag'') [])))"
  by pat_completeness auto
termination
  by (relation "measure (\<lambda>(_, _, input, _, _). length input)") (auto dest!: lpslice.dec_shorter)

declare Iterate_loop.simps [simp del]

definition WriteBatch_Iterate :: "('h \<Rightarrow> slice \<Rightarrow> slice \<Rightarrow> 'h) \<Rightarrow> ('h \<Rightarrow> slice \<Rightarrow> 'h) \<Rightarrow> slice \<Rightarrow> 'h \<Rightarrow> 'h \<times> status" where
  "WriteBatch_Iterate put del rep h =
     (if length rep < kHeader then (h, Status_Corruption (str ''malformed WriteBatch (too small)'') [])
      else case Iterate_loop put del (drop kHeader rep) 0 h of
             (h1, Inl s) \<Rightarrow> (h1, s)
           | (h1, Inr found) \<Rightarrow>
               if found \<noteq> WriteBatch_Count rep then (h1, Status_Corruption (str ''WriteBatch has wrong count'') [])
               else (h1, Status_OK))"

text \<open>\<open>MemTableInserter\<close>: the next sequence number and the memtable, over \<open>MemTable::Add\<close>.\<close>

definition Inserter_Put :: "('m \<Rightarrow> uint64 \<Rightarrow> ValueType \<Rightarrow> slice \<Rightarrow> slice \<Rightarrow> 'm) \<Rightarrow> uint64 \<times> 'm \<Rightarrow> slice \<Rightarrow> slice \<Rightarrow> uint64 \<times> 'm" where
  "Inserter_Put add st key val = (fst st + 1, add (snd st) (fst st) kTypeValue key val)"

definition Inserter_Delete :: "('m \<Rightarrow> uint64 \<Rightarrow> ValueType \<Rightarrow> slice \<Rightarrow> slice \<Rightarrow> 'm) \<Rightarrow> uint64 \<times> 'm \<Rightarrow> slice \<Rightarrow> uint64 \<times> 'm" where
  "Inserter_Delete add st key = (fst st + 1, add (snd st) (fst st) kTypeDeletion key [])"

definition WriteBatch_InsertInto :: "('m \<Rightarrow> uint64 \<Rightarrow> ValueType \<Rightarrow> slice \<Rightarrow> slice \<Rightarrow> 'm) \<Rightarrow> slice \<Rightarrow> 'm \<Rightarrow> 'm \<times> status" where
  "WriteBatch_InsertInto add rep mem =
     (case WriteBatch_Iterate (Inserter_Put add) (Inserter_Delete add) rep (WriteBatch_Sequence rep, mem) of
        (st, s) \<Rightarrow> (snd st, s))"

subsection \<open>What a batch means\<close>

text \<open>The updates a client asked for.\<close>

datatype Update = UPut slice slice | UDelete slice

primrec batch_add :: "Update \<Rightarrow> slice \<Rightarrow> slice" where
  "batch_add (UPut k v) rep = WriteBatch_Put rep k v"
| "batch_add (UDelete k) rep = WriteBatch_Delete rep k"

definition batch_of :: "Update list \<Rightarrow> slice" where
  "batch_of us = fold batch_add us WriteBatch_Clear"

primrec handle :: "('h \<Rightarrow> slice \<Rightarrow> slice \<Rightarrow> 'h) \<Rightarrow> ('h \<Rightarrow> slice \<Rightarrow> 'h) \<Rightarrow> Update \<Rightarrow> 'h \<Rightarrow> 'h" where
  "handle put del (UPut k v) h = put h k v"
| "handle put del (UDelete k) h = del h k"

primrec small :: "Update \<Rightarrow> bool" where
  "small (UPut k v) = (length k < 2 ^ 32 \<and> length v < 2 ^ 32)"
| "small (UDelete k) = (length k < 2 ^ 32)"

primrec update_bytes :: "Update \<Rightarrow> slice" where
  "update_bytes (UPut k v) = 1 # PutLengthPrefixedSlice [] k @ PutLengthPrefixedSlice [] v"
| "update_bytes (UDelete k) = 0 # PutLengthPrefixedSlice [] k"

text \<open>A batch in memory: header with sequence and count, then the records.\<close>

definition is_batch :: "slice \<Rightarrow> uint64 \<Rightarrow> Update list \<Rightarrow> bool" where
  "is_batch rep seq us \<longleftrightarrow>
     rep = EncodeFixed64 seq @ EncodeFixed32 (word_of_nat (length us)) @ concat (map update_bytes us)"

lemma is_batch_Clear: "is_batch WriteBatch_Clear 0 []"
  by (simp add: is_batch_def WriteBatch_Clear_def EncodeFixed64_bytes EncodeFixed32_bytes kHeader_def numeral_eq_Suc)

lemma is_batch_parts:
  assumes "is_batch rep seq us"
  shows "WriteBatch_Count rep = word_of_nat (length us)" "WriteBatch_Sequence rep = seq"
    "drop kHeader rep = concat (map update_bytes us)" "kHeader \<le> length rep"
    "WriteBatch_SetCount rep n = EncodeFixed64 seq @ EncodeFixed32 n @ concat (map update_bytes us)"
  using assms
  by (simp_all add: is_batch_def WriteBatch_Count_def WriteBatch_Sequence_def WriteBatch_SetCount_def kHeader_def
      DecodeFixed32_Encode DecodeFixed64_Encode)

lemma is_batch_add: "is_batch rep seq us \<Longrightarrow> is_batch (batch_add u rep) seq (us @ [u])"
  by (cases u)
    (simp_all add: WriteBatch_Put_def WriteBatch_Delete_def is_batch_parts PutLengthPrefixedSlice_append(1) [of "_ @ _"]
      PutLengthPrefixedSlice_append(1) [of "_ # _"] is_batch_def add.commute)

subsection \<open>Batches deliver their updates\<close>


lemma Iterate_loop_update:
  assumes "small u"
  shows "Iterate_loop put del (update_bytes u @ rest) found h =
    Iterate_loop put del rest (found + 1) (handle put del u h)"
  using assms lpslice.dec_enc
  by (cases u; subst Iterate_loop.simps) (simp_all add: lpslice.dec_enc)

lemma Iterate_loop_updates:
  "\<forall>u\<in>set us. small u \<Longrightarrow> Iterate_loop put del (concat (map update_bytes us)) found h =
     (fold (handle put del) us h, Inr (found + word_of_nat (length us)))"
proof (induction us arbitrary: found h)
  case Nil
  show ?case by (simp add: Iterate_loop.simps)
next
  case (Cons u us)
  then show ?case by (simp add: Iterate_loop_update add.assoc)
qed

lemma Iterate_batch:
  assumes "is_batch rep seq us" "\<forall>u\<in>set us. small u"
  shows "WriteBatch_Iterate put del rep h = (fold (handle put del) us h, Status_OK)"
proof -
  have "\<not> length rep < kHeader" using is_batch_parts(4) [OF assms(1)] by simp
  then show ?thesis
    by (simp add: WriteBatch_Iterate_def is_batch_parts [OF assms(1)] Iterate_loop_updates [OF assms(2)])
qed

lemma is_batch_of: "is_batch (batch_of us) 0 us"
proof -
  have "is_batch rep seq ws \<Longrightarrow> is_batch (fold batch_add us rep) seq (ws @ us)" for rep seq ws
  proof (induction us arbitrary: rep ws)
    case (Cons u us)
    then show ?case using Cons.IH [OF is_batch_add [OF Cons.prems]] by simp
  qed simp
  from this [OF is_batch_Clear] show ?thesis by (simp add: batch_of_def)
qed

lemma is_batch_SetSequence: "is_batch rep seq us \<Longrightarrow> is_batch (WriteBatch_SetSequence rep s) s us"
  by (simp add: is_batch_def WriteBatch_SetSequence_def)

lemma is_batch_Append:
  "is_batch dst s us \<Longrightarrow> is_batch src s' ws \<Longrightarrow> is_batch (WriteBatch_Append dst src) s (us @ ws)"
  by (simp add: WriteBatch_Append_def is_batch_parts) (simp add: is_batch_def)

lemma fold_handle_Inserter:
  "fold (handle (Inserter_Put add) (Inserter_Delete add)) us (seq, m) =
     (seq + word_of_nat (length us),
      fold (\<lambda>(i, u) m. case u of UPut k v \<Rightarrow> add m (seq + word_of_nat i) kTypeValue k v
                              | UDelete k \<Rightarrow> add m (seq + word_of_nat i) kTypeDeletion k [])
        (enumerate 0 us) m)"
proof (induction us rule: rev_induct)
  case (snoc u us)
  then show ?case
    by (cases u) (simp_all add: Inserter_Put_def Inserter_Delete_def enumerate_append_eq add.assoc)
qed simp

text \<open>C20. A write batch delivers exactly the updates put into it, in order: iterating over a batch built
  with \<open>Put\<close> and \<open>Delete\<close>, numbered with \<open>SetSequence\<close> or joined from two batches with \<open>Append\<close>, calls
  the handler once per update and succeeds, and inserting it into a memtable gives the i-th update the
  batch's sequence number plus i.\<close>

theorem write_batch_delivers:
  assumes "\<forall>u\<in>set (us @ ws). small u"
  shows "WriteBatch_Iterate put del (batch_of us) h = (fold (handle put del) us h, Status_OK) \<and>
    WriteBatch_Iterate put del (WriteBatch_SetSequence (WriteBatch_Append (batch_of us) (batch_of ws)) seq) h =
      (fold (handle put del) (us @ ws) h, Status_OK) \<and>
    WriteBatch_Sequence (WriteBatch_SetSequence (batch_of us) seq) = seq \<and>
    WriteBatch_InsertInto add (WriteBatch_SetSequence (batch_of us) seq) mem =
      (fold (\<lambda>(i, u) m. case u of UPut k v \<Rightarrow> add m (seq + word_of_nat i) kTypeValue k v
                               | UDelete k \<Rightarrow> add m (seq + word_of_nat i) kTypeDeletion k [])
         (enumerate 0 us) mem, Status_OK)"
proof -
  have small: "\<forall>u\<in>set us. small u" "\<forall>u\<in>set (us @ ws). small u" using assms by simp_all
  note both = is_batch_SetSequence [OF is_batch_Append [OF is_batch_of [of us] is_batch_of [of ws]], of seq]
  note one = is_batch_SetSequence [OF is_batch_of [of us], of seq]
  show ?thesis
    by (simp only: Iterate_batch [OF is_batch_of small(1)] Iterate_batch [OF both small(2)]
        is_batch_parts(2) [OF one] WriteBatch_InsertInto_def Iterate_batch [OF one small(1)] fold_handle_Inserter
        prod.case snd_conv simp_thms)
qed

theorem write_batch_delivers_witness:
  "WriteBatch_Iterate (\<lambda>h k v. h @ [(k, v)]) (\<lambda>h k. h @ [(k, [])])
     (batch_of [UPut [1] [2], UDelete [3]]) [] = ([([1], [2]), ([3], [])], Status_OK)"
  using write_batch_delivers [THEN conjunct1, of "[UPut [1] [2], UDelete [3]]" "[]" "\<lambda>h k v. h @ [(k, v)]" "\<lambda>h k. h @ [(k, [])]" "[]"]
  by simp

subsection \<open>Torn batches\<close>


lemma Iterate_loop_cut_update:
  assumes "small u" "0 < n" "n < length (update_bytes u)"
  shows "\<exists>s. Iterate_loop put del (take n (update_bytes u)) found h = (h, Inl (Status_Corruption s []))"
proof -
  obtain m where m: "n = Suc m" using assms(2) by (cases n) auto
  show ?thesis
  proof (cases u)
    case (UPut k v)
    let ?k = "PutLengthPrefixedSlice [] k" and ?v = "PutLengthPrefixedSlice [] v"
    have "GetLengthPrefixedSlice (take m (?k @ ?v)) = None \<or>
        (\<exists>q. GetLengthPrefixedSlice (take m (?k @ ?v)) = Some (k, q) \<and> GetLengthPrefixedSlice q = None)"
      using lpslice.dec_cut [of k m] lpslice.dec_cut [of v "m - length ?k"] lpslice.dec_enc [of k "take (m - length ?k) ?v"]
        assms m UPut by (cases "m < length ?k") auto
    then show ?thesis using m UPut by (subst Iterate_loop.simps) auto
  next
    case (UDelete k)
    then have "GetLengthPrefixedSlice (take m (PutLengthPrefixedSlice [] k)) = None"
      using lpslice.dec_cut [of k m] assms m by simp
    then show ?thesis using m UDelete by (subst Iterate_loop.simps) auto
  qed
qed

lemma Iterate_loop_cut:
  assumes "\<forall>u\<in>set us. small u" "n < length (concat (map update_bytes us))"
    "Iterate_loop put del (take n (concat (map update_bytes us))) found h = (h', res)"
  shows "(\<exists>s. res = Inl (Status_Corruption s [])) \<or> (\<exists>j<length us. res = Inr (found + word_of_nat j))"
  using assms
proof (induction us arbitrary: n found h)
  case (Cons u us)
  show ?case
  proof (cases "n < length (update_bytes u)")
    case True
    then show ?thesis
      using Cons.prems Iterate_loop_cut_update [of u n put del found h]
      by (cases "n = 0") (auto simp: Iterate_loop.simps [of _ _ "[]"])
  next
    case False
    let ?m = "n - length (update_bytes u)"
    have "Iterate_loop put del (take ?m (concat (map update_bytes us))) (found + 1) (handle put del u h) = (h', res)"
      using Cons.prems False Iterate_loop_update [of u put del "take ?m (concat (map update_bytes us))" found h] by simp
    moreover have "?m < length (concat (map update_bytes us))" using Cons.prems(2) False by simp
    ultimately have "(\<exists>s. res = Inl (Status_Corruption s [])) \<or> (\<exists>j<length us. res = Inr (found + 1 + word_of_nat j))"
      using Cons.IH [of ?m "found + 1"] Cons.prems(1) by simp
    then show ?thesis
    proof
      assume "\<exists>j<length us. res = Inr (found + 1 + word_of_nat j)"
      then obtain j where "j < length us" "res = Inr (found + 1 + word_of_nat j)" by blast
      then show ?thesis by (intro disjI2 exI [of _ "Suc j"]) (simp add: add.assoc)
    qed simp
  qed
qed simp



end
