(* ===== verification/Logging.thy ===== *)
theory Logging
  imports Status KeyOrder
begin

text \<open>
  Printing and parsing of numbers and keys, \<open>util/logging.cc\<close>, and the names of the files of a
  database, \<open>db/filename.cc\<close>. The conversions of \<open>snprintf\<close> the code uses are defined here; a buffer
  of \<open>n\<close> bytes keeps the first \<open>n - 1\<close> characters.
\<close>

subsection \<open>Numbers and escapes\<close>

text \<open>The conversions \<open>%llu\<close>, \<open>%06llu\<close> and \<open>%02x\<close>.\<close>

fun printf_llu :: "nat \<Rightarrow> slice" where
  "printf_llu n = (if n < 10 then [word_of_nat (48 + n)] else printf_llu (n div 10) @ [word_of_nat (48 + n mod 10)])"

declare printf_llu.simps [simp del]

definition printf_06llu :: "nat \<Rightarrow> slice" where
  "printf_06llu n = replicate (6 - length (printf_llu n)) 48 @ printf_llu n"

definition hex_digit :: "nat \<Rightarrow> byte" where
  "hex_digit n = (if n < 10 then word_of_nat (48 + n) else word_of_nat (87 + n))"

definition AppendNumberTo :: "slice \<Rightarrow> uint64 \<Rightarrow> slice" where
  "AppendNumberTo s num = s @ take 29 (printf_llu (unat num))"

fun AppendEscapedStringTo :: "slice \<Rightarrow> slice \<Rightarrow> slice" where
  "AppendEscapedStringTo s [] = s"
| "AppendEscapedStringTo s (c # val) =
     AppendEscapedStringTo
       (if 32 \<le> sint c \<and> sint c \<le> 126 then s @ [c]
        else s @ str [CHR 0x5C, CHR ''x''] @ [hex_digit (unat c div 16), hex_digit (unat c mod 16)]) val"

definition NumberToString :: "uint64 \<Rightarrow> slice" where
  "NumberToString num = AppendNumberTo [] num"

definition EscapeString :: "slice \<Rightarrow> slice" where
  "EscapeString val = AppendEscapedStringTo [] val"

text \<open>What the call returns, the input behind what it consumed, and \<open>*val\<close> when it is set.\<close>

fun ConsumeDecimalNumber_loop :: "slice \<Rightarrow> uint64 \<Rightarrow> nat \<Rightarrow> bool \<times> slice \<times> uint64 option" where
  "ConsumeDecimalNumber_loop [] v digits = (0 < digits, [], Some v)"
| "ConsumeDecimalNumber_loop (c # rest) v digits =
     (if 48 \<le> c \<and> c \<le> 57 then
        let delta = ucast (c - 48) :: uint64;
            kMaxUint64 = NOT 0 :: uint64
        in if v > kMaxUint64 div 10 \<or> v = kMaxUint64 div 10 \<and> delta > kMaxUint64 mod 10
           then (False, c # rest, None)
           else ConsumeDecimalNumber_loop rest (v * 10 + delta) (digits + 1)
      else (0 < digits, c # rest, Some v))"

definition ConsumeDecimalNumber :: "slice \<Rightarrow> bool \<times> slice \<times> uint64 option" where
  "ConsumeDecimalNumber input = ConsumeDecimalNumber_loop input 0 0"

subsection \<open>Parsing numbers\<close>

definition is_digit :: "byte \<Rightarrow> bool" where
  "is_digit c \<longleftrightarrow> 48 \<le> c \<and> c \<le> 57"

definition decimal_value :: "nat \<Rightarrow> slice \<Rightarrow> nat" where
  "decimal_value v ds = foldl (\<lambda>v c. v * 10 + (unat c - 48)) v ds"

lemma decimal_value_simps [simp]:
  "decimal_value v [] = v" "decimal_value v (c # ds) = decimal_value (v * 10 + (unat c - 48)) ds"
  "decimal_value v (ds @ es) = decimal_value (decimal_value v ds) es"
  by (simp_all add: decimal_value_def)

lemma decimal_value_mono: "v \<le> decimal_value v ds"
proof (induction ds arbitrary: v)
  case (Cons c ds)
  show ?case using Cons [of "v * 10 + (unat c - 48)"] by simp
qed simp

lemma overflow_check:
  assumes "is_digit c"
  defines "d \<equiv> ucast (c - 48) :: uint64"
  shows "(v > (NOT 0 :: uint64) div 10 \<or> v = NOT 0 div 10 \<and> d > NOT 0 mod 10) \<longleftrightarrow>
      2 ^ 64 \<le> unat v * 10 + (unat c - 48)"
    and "unat v * 10 + (unat c - 48) < 2 ^ 64 \<Longrightarrow> unat (v * 10 + d) = unat v * 10 + (unat c - 48)"
proof -
  have c: "48 \<le> unat c" "unat c \<le> 57" using assms(1) by (simp_all add: is_digit_def word_le_nat_alt)
  have d: "unat d = unat c - 48"
    using c unsigned_less [of c] by (simp add: d_def unat_ucast_up unat_sub word_le_nat_alt)
  have max: "unat (NOT 0 div 10 :: uint64) = 1844674407370955161" "unat (NOT 0 mod 10 :: uint64) = 5"
    by (simp_all add: unat_div unat_mod)
  show "(v > (NOT 0 :: uint64) div 10 \<or> v = NOT 0 div 10 \<and> d > NOT 0 mod 10) \<longleftrightarrow>
      2 ^ 64 \<le> unat v * 10 + (unat c - 48)"
    unfolding word_less_nat_alt word_unat_eq_iff max d using c by auto
  show "unat (v * 10 + d) = unat v * 10 + (unat c - 48)" if "unat v * 10 + (unat c - 48) < 2 ^ 64"
    using that d by (simp add: unat_word_ariths)
qed


lemma Consume_loop_digits:
  assumes "\<forall>c\<in>set ds. is_digit c" "rest = [] \<or> \<not> is_digit (hd rest)"
  shows "decimal_value (unat v) ds < 2 ^ 64 \<Longrightarrow>
      ConsumeDecimalNumber_loop (ds @ rest) v k = (0 < k + length ds, rest, Some (word_of_nat (decimal_value (unat v) ds)))"
    and "2 ^ 64 \<le> decimal_value (unat v) ds \<Longrightarrow>
      \<exists>input. ConsumeDecimalNumber_loop (ds @ rest) v k = (False, input, None)"
  using assms
proof (induction ds arbitrary: v k)
  case Nil
  {
    case 1
    then show ?case by (cases rest) (auto simp: is_digit_def)
  next
    case 2
    then show ?case using unat_less_64 [of v] by simp
  }
next
  case (Cons c ds)
  let ?d = "ucast (c - 48) :: uint64"
  {
    case 1
    then have digit: "is_digit c" "48 \<le> c \<and> c \<le> 57" by (simp_all add: is_digit_def)
    from 1 have "unat v * 10 + (unat c - 48) < 2 ^ 64"
      using decimal_value_mono [of "unat v * 10 + (unat c - 48)" ds] by simp
    then show ?case using overflow_check [OF digit(1), of v] Cons.IH(1) [of "v * 10 + ?d" "Suc k"] 1 digit(2)
      by (simp add: Let_def)
  next
    case 2
    then have digit: "is_digit c" "48 \<le> c \<and> c \<le> 57" by (simp_all add: is_digit_def)
    from 2 show ?case using overflow_check [OF digit(1), of v] Cons.IH(2) [of "v * 10 + ?d" "Suc k"] digit(2)
      by (cases "unat v * 10 + (unat c - 48) < 2 ^ 64") (simp_all add: Let_def)
  }
qed

lemma printf_llu_digits: "\<forall>c\<in>set (printf_llu n). is_digit c" "printf_llu n \<noteq> []"
proof (induction n rule: printf_llu.induct)
  case (1 n)
  have small: "is_digit (word_of_nat (48 + m))" if "m < 10" for m
    using that unat_word_of_nat [of "48 + m", where 'a = 8] by (simp add: is_digit_def word_le_nat_alt del: of_nat_add)
  {
    case 1
    show ?case using "1.IH" small by (subst printf_llu.simps) auto
  next
    case 2
    show ?case by (subst printf_llu.simps) simp
  }
qed

lemma printf_llu_value: "decimal_value 0 (printf_llu n) = n"
proof (induction n rule: printf_llu.induct)
  case (1 n)
  have small: "unat (word_of_nat (48 + m) :: byte) - 48 = m" if "m < 10" for m
    using that unat_word_of_nat [of "48 + m", where 'a = 8] by simp
  show ?case using 1 small [of n] small [of "n mod 10"] by (subst printf_llu.simps) simp
qed

lemma length_printf_llu: "n < 10 ^ Suc k \<Longrightarrow> length (printf_llu n) \<le> Suc k"
proof (induction k arbitrary: n)
  case (Suc k)
  have "n div 10 < 10 ^ Suc k" using Suc.prems by (simp add: div_less_iff_less_mult)
  then show ?case using Suc.IH [of "n div 10"] by (subst printf_llu.simps) simp
qed (simp add: printf_llu.simps)

lemma length_printf_uint64: "length (printf_llu (unat (n :: uint64))) \<le> 20"
proof -
  have "unat n < 10 ^ Suc 19" using unat_less_64 [of n] by simp
  from length_printf_llu [OF this] show ?thesis by simp
qed

lemma decimal_value_zeros: "decimal_value 0 (replicate k 48 @ ds) = decimal_value 0 ds"
  by (induction k) simp_all

lemma digit_zero: "is_digit 48"
  by (simp add: is_digit_def)

text \<open>Reading back a number printed with or without padding.\<close>

lemma Consume_printed:
  assumes "rest = [] \<or> \<not> is_digit (hd rest)"
  shows "ConsumeDecimalNumber (printf_llu (unat n) @ rest) = (True, rest, Some n)"
    "ConsumeDecimalNumber (printf_06llu (unat n) @ rest) = (True, rest, Some n)"
proof -
  have n: "unat n < 2 ^ 64" using unat_less_64 [of n] by simp
  show "ConsumeDecimalNumber (printf_llu (unat n) @ rest) = (True, rest, Some n)"
    using Consume_loop_digits(1) [OF printf_llu_digits(1) assms, of 0 "unat n" 0] printf_llu_value [of "unat n"] n
      printf_llu_digits(2) [of "unat n"]
    by (simp add: ConsumeDecimalNumber_def)
  let ?ds = "printf_06llu (unat n)"
  have ds: "\<forall>c\<in>set ?ds. is_digit c" "?ds \<noteq> []"
    using printf_llu_digits [of "unat n"] digit_zero by (auto simp: printf_06llu_def)
  show "ConsumeDecimalNumber (?ds @ rest) = (True, rest, Some n)"
    using Consume_loop_digits(1) [OF ds(1) assms, of 0 0] printf_llu_value [of "unat n"] n ds(2)
      decimal_value_zeros [of "6 - length (printf_llu (unat n))" "printf_llu (unat n)"]
    by (simp add: ConsumeDecimalNumber_def) (simp add: printf_06llu_def)
qed

text \<open>Decimal parsing is exact: on a run of digits \<open>ConsumeDecimalNumber\<close> stores its value and stops
  behind it, or fails without storing anything when the value does not fit in 64 bits; nothing wraps,
  no digit is an error, and every number it is given back was printed by \<open>NumberToString\<close>.\<close>

theorem consume_decimal_exact:
  assumes "\<forall>c\<in>set ds. is_digit c" "rest = [] \<or> \<not> is_digit (hd rest)"
  shows "(decimal_value 0 ds < 2 ^ 64 \<longrightarrow>
        ConsumeDecimalNumber (ds @ rest) = (ds \<noteq> [], rest, Some (word_of_nat (decimal_value 0 ds)))) \<and>
    (2 ^ 64 \<le> decimal_value 0 ds \<longrightarrow> (\<exists>input. ConsumeDecimalNumber (ds @ rest) = (False, input, None))) \<and>
    ConsumeDecimalNumber (NumberToString n @ rest) = (True, rest, Some n)"
proof -
  have "NumberToString n = printf_llu (unat n)"
    using length_printf_uint64 [of n] by (simp add: NumberToString_def AppendNumberTo_def)
  then show ?thesis
    using Consume_loop_digits [OF assms, of 0 0] Consume_printed(1) [OF assms(2), of n]
    by (auto simp: ConsumeDecimalNumber_def)
qed

theorem consume_decimal_exact_witness:
  "ConsumeDecimalNumber ([49, 50] @ [46]) = (True, [46], Some 12)"
  using consume_decimal_exact [THEN conjunct1, of "[49, 50]" "[46]"] by (simp add: is_digit_def)

end
