(* ===== verification/Filename.thy ===== *)
theory Filename
  imports Logging MemEnv
begin

text \<open>
  The names of a database's files and the switch of the CURRENT file, \<open>db/filename.cc\<close>, with the
  whole-file helpers of \<open>util/env.cc\<close> it uses. The environment's operations are the fields of a
  record; \<open>'e\<close> is the state of the environment and \<open>'w\<close> an open writable file.
\<close>

subsection \<open>Names\<close>

datatype FileType = kLogFile | kDBLockFile | kTableFile | kDescriptorFile | kCurrentFile | kTempFile | kInfoLogFile

definition MakeFileName :: "slice \<Rightarrow> uint64 \<Rightarrow> slice \<Rightarrow> slice" where
  "MakeFileName name number suffix =
     name @ take 99 (str ''/'' @ printf_06llu (unat number) @ str ''.'' @ suffix)"

definition LogFileName :: "slice \<Rightarrow> uint64 \<Rightarrow> slice" where
  "LogFileName name number = MakeFileName name number (str ''log'')"

definition TableFileName :: "slice \<Rightarrow> uint64 \<Rightarrow> slice" where
  "TableFileName name number = MakeFileName name number (str ''ldb'')"

definition SSTTableFileName :: "slice \<Rightarrow> uint64 \<Rightarrow> slice" where
  "SSTTableFileName name number = MakeFileName name number (str ''sst'')"

definition DescriptorFileName :: "slice \<Rightarrow> uint64 \<Rightarrow> slice" where
  "DescriptorFileName dbname number = dbname @ take 99 (str ''/MANIFEST-'' @ printf_06llu (unat number))"

definition CurrentFileName :: "slice \<Rightarrow> slice" where
  "CurrentFileName dbname = dbname @ str ''/CURRENT''"

definition LockFileName :: "slice \<Rightarrow> slice" where
  "LockFileName dbname = dbname @ str ''/LOCK''"

definition TempFileName :: "slice \<Rightarrow> uint64 \<Rightarrow> slice" where
  "TempFileName dbname number = MakeFileName dbname number (str ''dbtmp'')"

definition InfoLogFileName :: "slice \<Rightarrow> slice" where
  "InfoLogFileName dbname = dbname @ str ''/LOG''"

definition OldInfoLogFileName :: "slice \<Rightarrow> slice" where
  "OldInfoLogFileName dbname = dbname @ str ''/LOG.old''"

text \<open>\<open>ParseFileName\<close> on the last component of a path; \<open>None\<close> when it returns false.\<close>

definition ParseFileName :: "slice \<Rightarrow> (uint64 \<times> FileType) option" where
  "ParseFileName fname =
     (if Slice_eq fname (str ''CURRENT'') then Some (0, kCurrentFile)
      else if Slice_eq fname (str ''LOCK'') then Some (0, kDBLockFile)
      else if Slice_eq fname (str ''LOG'') \<or> Slice_eq fname (str ''LOG.old'') then Some (0, kInfoLogFile)
      else if Slice_starts_with fname (str ''MANIFEST-'') then
        (case ConsumeDecimalNumber (drop (length (str ''MANIFEST-'')) fname) of
           (True, rest, Some num) \<Rightarrow> if rest = [] then Some (num, kDescriptorFile) else None
         | _ \<Rightarrow> None)
      else
        (case ConsumeDecimalNumber fname of
           (True, suffix, Some num) \<Rightarrow>
             if Slice_eq suffix (str ''.log'') then Some (num, kLogFile)
             else if Slice_eq suffix (str ''.sst'') \<or> Slice_eq suffix (str ''.ldb'') then Some (num, kTableFile)
             else if Slice_eq suffix (str ''.dbtmp'') then Some (num, kTempFile)
             else None
         | _ \<Rightarrow> None))"

subsection \<open>Whole files\<close>

record ('e, 'w) env_ops =
  op_NewWritableFile :: "'e \<Rightarrow> slice \<Rightarrow> 'e \<times> status \<times> 'w"
  op_Append :: "'e \<Rightarrow> 'w \<Rightarrow> slice \<Rightarrow> 'e \<times> status"
  op_Sync :: "'e \<Rightarrow> 'w \<Rightarrow> 'e \<times> status"
  op_Close :: "'e \<Rightarrow> 'w \<Rightarrow> 'e \<times> status"
  op_delete :: "'e \<Rightarrow> 'w \<Rightarrow> 'e"
  op_DeleteFile :: "'e \<Rightarrow> slice \<Rightarrow> 'e \<times> status"
  op_RenameFile :: "'e \<Rightarrow> slice \<Rightarrow> slice \<Rightarrow> 'e \<times> status"

definition DoWriteStringToFile :: "('e, 'w) env_ops \<Rightarrow> 'e \<Rightarrow> slice \<Rightarrow> slice \<Rightarrow> bool \<Rightarrow> 'e \<times> status" where
  "DoWriteStringToFile env e0 data fname should_sync =
     (case op_NewWritableFile env e0 fname of (e1, s1, file) \<Rightarrow>
        if \<not> Status_ok s1 then (e1, s1)
        else case op_Append env e1 file data of (e2, s2) \<Rightarrow>
          case (if Status_ok s2 \<and> should_sync then op_Sync env e2 file else (e2, s2)) of (e3, s3) \<Rightarrow>
            case (if Status_ok s3 then op_Close env e3 file else (e3, s3)) of (e4, s4) \<Rightarrow>
              let e5 = op_delete env e4 file
              in if \<not> Status_ok s4 then (fst (op_DeleteFile env e5 fname), s4) else (e5, s4))"

definition WriteStringToFile :: "('e, 'w) env_ops \<Rightarrow> 'e \<Rightarrow> slice \<Rightarrow> slice \<Rightarrow> 'e \<times> status" where
  "WriteStringToFile env e data fname = DoWriteStringToFile env e data fname False"

definition WriteStringToFileSync :: "('e, 'w) env_ops \<Rightarrow> 'e \<Rightarrow> slice \<Rightarrow> slice \<Rightarrow> 'e \<times> status" where
  "WriteStringToFileSync env e data fname = DoWriteStringToFile env e data fname True"

definition SetCurrentFile :: "('e, 'w) env_ops \<Rightarrow> 'e \<Rightarrow> slice \<Rightarrow> uint64 \<Rightarrow> 'e \<times> status" where
  "SetCurrentFile env e dbname descriptor_number =
     (let contents = drop (length dbname + 1) (DescriptorFileName dbname descriptor_number);
          tmp = TempFileName dbname descriptor_number;
          (e1, s1) = WriteStringToFileSync env e (contents @ [10]) tmp;
          (e2, s2) = (if Status_ok s1 then op_RenameFile env e1 tmp (CurrentFileName dbname) else (e1, s1))
      in if \<not> Status_ok s2 then (fst (op_DeleteFile env e2 tmp), s2) else (e2, s2))"

text \<open>The loop of \<open>ReadFileToString\<close> on an open file; the result is its state, the status and the data.\<close>

partial_function (option) ReadFileToString_loop ::
    "('f \<Rightarrow> nat \<Rightarrow> 'f \<times> status \<times> slice) \<Rightarrow> 'f \<Rightarrow> slice \<Rightarrow> ('f \<times> status \<times> slice) option" where
  "ReadFileToString_loop Read f data =
     (case Read f 8192 of (f1, s, fragment) \<Rightarrow>
        if \<not> Status_ok s then Some (f1, s, data)
        else if fragment = [] then Some (f1, s, data @ fragment)
        else ReadFileToString_loop Read f1 (data @ fragment))"

subsection \<open>Names are parsed back\<close>

lemma not_digit_dot: "\<not> is_digit 46"
  by (simp add: is_digit_def)

lemma length_printf_06: "length (printf_06llu (unat (n :: uint64))) \<le> 20" "printf_06llu n' \<noteq> []"
  "\<forall>c\<in>set (printf_06llu n'). is_digit c"
  using length_printf_uint64 [of n] printf_llu_digits [of n'] by (auto simp: printf_06llu_def is_digit_def)

lemma MakeFileName_tail:
  assumes "length suffix \<le> 5"
  shows "MakeFileName name n suffix = name @ str ''/'' @ printf_06llu (unat n) @ str ''.'' @ suffix"
  using assms length_printf_06(1) [of n] by (simp add: MakeFileName_def str_def)

lemma ParseFileName_digit:
  assumes "is_digit c"
  shows "ParseFileName (c # r) =
    (case ConsumeDecimalNumber (c # r) of
       (True, suffix, Some num) \<Rightarrow>
         if suffix = str ''.log'' then Some (num, kLogFile)
         else if suffix = str ''.sst'' \<or> suffix = str ''.ldb'' then Some (num, kTableFile)
         else if suffix = str ''.dbtmp'' then Some (num, kTempFile)
         else None
     | _ \<Rightarrow> None)"
proof -
  have "c \<noteq> 67" "c \<noteq> 76" "c \<noteq> 77" using assms by (auto simp: is_digit_def)
  then have "c # r \<noteq> str ''CURRENT''" "c # r \<noteq> str ''LOCK''" "c # r \<noteq> str ''LOG''" "c # r \<noteq> str ''LOG.old''"
    "\<not> Slice_starts_with (c # r) (str ''MANIFEST-'')"
    by (simp_all add: str_def Slice_starts_with_iff)
  then show ?thesis by (simp only: ParseFileName_def Slice_eq_iff if_False simp_thms)
qed

lemma ParseFileName_numbered:
  assumes "suffix = [] \<or> \<not> is_digit (hd suffix)"
  shows "ParseFileName (printf_06llu (unat n) @ suffix) =
    (if suffix = str ''.log'' then Some (n, kLogFile)
     else if suffix = str ''.sst'' \<or> suffix = str ''.ldb'' then Some (n, kTableFile)
     else if suffix = str ''.dbtmp'' then Some (n, kTempFile)
     else None)"
proof -
  obtain c r where f: "printf_06llu (unat n) @ suffix = c # r" "is_digit c"
    using length_printf_06(2,3) [of "unat n"] by (cases "printf_06llu (unat n)") auto
  then show ?thesis
    using ParseFileName_digit [OF f(2), of r] Consume_printed(2) [OF assms, of n] by simp
qed

lemma ParseFileName_fixed:
  "ParseFileName (str ''CURRENT'') = Some (0, kCurrentFile)" "ParseFileName (str ''LOCK'') = Some (0, kDBLockFile)"
  "ParseFileName (str ''LOG'') = Some (0, kInfoLogFile)" "ParseFileName (str ''LOG.old'') = Some (0, kInfoLogFile)"
  "ParseFileName (str ''MANIFEST-'' @ printf_06llu (unat n)) = Some (n, kDescriptorFile)"
proof -
  have "Slice_starts_with (str ''MANIFEST-'' @ printf_06llu (unat n)) (str ''MANIFEST-'')"
    by (simp add: Slice_starts_with_iff)
  then show "ParseFileName (str ''MANIFEST-'' @ printf_06llu (unat n)) = Some (n, kDescriptorFile)"
    using Consume_printed(2) [of "[]" n] by (simp add: ParseFileName_def) (simp add: str_def)
qed (simp_all add: ParseFileName_def str_def)

text \<open>C22. File names round trip: for every number, the last component of each numbered name the code makes
  is parsed back to that number and the type of the file, and the four fixed names to theirs.\<close>

theorem file_names_parse_back:
  "(let base = (\<lambda>f. drop (length dbname + 1) f) in
     ParseFileName (base (LogFileName dbname n)) = Some (n, kLogFile) \<and>
     ParseFileName (base (TableFileName dbname n)) = Some (n, kTableFile) \<and>
     ParseFileName (base (SSTTableFileName dbname n)) = Some (n, kTableFile) \<and>
     ParseFileName (base (TempFileName dbname n)) = Some (n, kTempFile) \<and>
     ParseFileName (base (DescriptorFileName dbname n)) = Some (n, kDescriptorFile) \<and>
     ParseFileName (base (CurrentFileName dbname)) = Some (0, kCurrentFile) \<and>
     ParseFileName (base (LockFileName dbname)) = Some (0, kDBLockFile) \<and>
     ParseFileName (base (InfoLogFileName dbname)) = Some (0, kInfoLogFile) \<and>
     ParseFileName (base (OldInfoLogFileName dbname)) = Some (0, kInfoLogFile))"
proof -
  have tail: "drop (length dbname + 1) (MakeFileName dbname n suffix) = printf_06llu (unat n) @ str ''.'' @ suffix"
    if "length suffix \<le> 5" for suffix
    using MakeFileName_tail [OF that] by (simp add: str_def)
  have desc: "drop (length dbname + 1) (DescriptorFileName dbname n) = str ''MANIFEST-'' @ printf_06llu (unat n)"
    using length_printf_06(1) [of n] by (simp add: DescriptorFileName_def str_def)
  have fixed: "drop (length dbname + 1) (dbname @ x # xs) = xs" for x :: byte and xs by simp
  have suffix: "str ''.'' @ str xs = str (CHR ''.'' # xs)" for xs by (simp add: str_def)
  have sl: "str (CHR ''/'' # xs) = 47 # str xs" for xs by (simp add: str_def)
  have len: "length (str xs) = length xs" for xs by (simp add: str_def)
  have dot: "str (CHR ''.'' # xs) = [] \<or> \<not> is_digit (hd (str (CHR ''.'' # xs)))" for xs
    by (simp add: str_def is_digit_def)
  have ne: "str ''.log'' \<noteq> str ''.sst''" "str ''.log'' \<noteq> str ''.ldb''" "str ''.dbtmp'' \<noteq> str ''.log''"
    "str ''.dbtmp'' \<noteq> str ''.sst''" "str ''.dbtmp'' \<noteq> str ''.ldb''" "str ''.sst'' \<noteq> str ''.log''" "str ''.ldb'' \<noteq> str ''.log''"
    by (simp_all add: str_def)
  show ?thesis
    unfolding Let_def LogFileName_def TableFileName_def SSTTableFileName_def TempFileName_def
      CurrentFileName_def LockFileName_def InfoLogFileName_def OldInfoLogFileName_def
    by (simp add: tail [simplified] len suffix ParseFileName_numbered [OF dot] ne desc [simplified] sl ParseFileName_fixed fixed [simplified])
qed

subsection \<open>Switching CURRENT\<close>


text \<open>What the switch of CURRENT relies on. Any call may fail; a failed call touches at most the file it
  names, and a failed rename nothing. \<open>files\<close> is the contents of every existing file.\<close>

locale file_system =
  fixes env :: "('e, 'w) env_ops"
    and files :: "'e \<Rightarrow> slice \<Rightarrow> slice option"
    and valid :: "'e \<Rightarrow> bool"
    and open_on :: "'e \<Rightarrow> 'w \<Rightarrow> slice \<Rightarrow> bool"
  assumes New_law: "valid e \<Longrightarrow> op_NewWritableFile env e k = (e', s, w) \<Longrightarrow>
      valid e' \<and> (\<forall>j. j \<noteq> k \<longrightarrow> files e' j = files e j) \<and> (Status_ok s \<longrightarrow> open_on e' w k \<and> files e' k = Some [])"
    and Append_law: "valid e \<Longrightarrow> open_on e w k \<Longrightarrow> op_Append env e w d = (e', s) \<Longrightarrow>
      valid e' \<and> open_on e' w k \<and> (\<forall>j. j \<noteq> k \<longrightarrow> files e' j = files e j) \<and>
      (Status_ok s \<longrightarrow> files e' k = map_option (\<lambda>c. c @ d) (files e k))"
    and Sync_law: "valid e \<Longrightarrow> open_on e w k \<Longrightarrow> op_Sync env e w = (e', s) \<Longrightarrow>
      valid e' \<and> open_on e' w k \<and> files e' = files e"
    and Close_law: "valid e \<Longrightarrow> open_on e w k \<Longrightarrow> op_Close env e w = (e', s) \<Longrightarrow>
      valid e' \<and> open_on e' w k \<and> files e' = files e"
    and delete_law: "valid e \<Longrightarrow> open_on e w k \<Longrightarrow> valid (op_delete env e w) \<and> files (op_delete env e w) = files e"
    and DeleteFile_law: "valid e \<Longrightarrow> op_DeleteFile env e k = (e', s) \<Longrightarrow>
      valid e' \<and> (\<forall>j. j \<noteq> k \<longrightarrow> files e' j = files e j)"
    and Rename_law: "valid e \<Longrightarrow> src \<noteq> target \<Longrightarrow> op_RenameFile env e src target = (e', s) \<Longrightarrow>
      valid e' \<and> (if Status_ok s then files e' = (files e)(target := files e src, src := None) else files e' = files e)"
begin

lemma DoWriteStringToFile_law:
  assumes "valid e" "DoWriteStringToFile env e data k sync = (e', s)"
  shows "valid e' \<and> (\<forall>j. j \<noteq> k \<longrightarrow> files e' j = files e j) \<and> (Status_ok s \<longrightarrow> files e' k = Some data)"
proof -
  obtain e1 s1 w where 1: "op_NewWritableFile env e k = (e1, s1, w)" by (metis prod.exhaust)
  note l1 = New_law [OF assms(1) 1]
  show ?thesis
  proof (cases "Status_ok s1")
    case True
    obtain e2 s2 where 2: "op_Append env e1 w data = (e2, s2)" by fastforce
    note l2 = Append_law [OF _ _ 2]
    have ok1: "valid e1" "open_on e1 w k" using l1 True by auto
    obtain e3 s3 where 3: "(if Status_ok s2 \<and> sync then op_Sync env e2 w else (e2, s2)) = (e3, s3)" by fastforce
    have ok2: "valid e2" "open_on e2 w k" using l2 ok1 by auto
    have ok3: "valid e3" "open_on e3 w k" "files e3 = files e2" "Status_ok s3 \<longrightarrow> Status_ok s2"
      using 3 Sync_law [OF ok2] ok2 by (auto split: if_splits)
    obtain e4 s4 where 4: "(if Status_ok s3 then op_Close env e3 w else (e3, s3)) = (e4, s4)" by fastforce
    have ok4: "valid e4" "open_on e4 w k" "files e4 = files e2" "Status_ok s4 \<longrightarrow> Status_ok s2"
      using 4 Close_law [OF ok3(1,2)] ok3 by (auto split: if_splits)
    let ?e5 = "op_delete env e4 w"
    have ok5: "valid ?e5" "files ?e5 = files e2" using delete_law [OF ok4(1,2)] ok4(3) by auto
    have "(e', s) = (if \<not> Status_ok s4 then (fst (op_DeleteFile env ?e5 k), s4) else (?e5, s4))"
      using assms(2) 1 2 3 4 True by (simp add: DoWriteStringToFile_def Let_def split: prod.splits)
    moreover have "valid (fst (op_DeleteFile env ?e5 k)) \<and> (\<forall>j. j \<noteq> k \<longrightarrow> files (fst (op_DeleteFile env ?e5 k)) j = files ?e5 j)"
      using DeleteFile_law [OF ok5(1)] by (metis prod.collapse)
    ultimately show ?thesis using ok5 l1 l2 [OF ok1] ok4(4) True by (auto split: if_splits)
  qed (use assms(2) 1 l1 in \<open>auto simp: DoWriteStringToFile_def\<close>)
qed

lemma SetCurrentFile_law:
  assumes "valid e" "SetCurrentFile env e dbname n = (e', s)"
  shows "valid e' \<and>
    files e' (CurrentFileName dbname) =
      (if Status_ok s then Some (str ''MANIFEST-'' @ printf_06llu (unat n) @ [10]) else files e (CurrentFileName dbname)) \<and>
    (\<forall>j. j \<noteq> CurrentFileName dbname \<longrightarrow> j \<noteq> TempFileName dbname n \<longrightarrow> files e' j = files e j)"
proof -
  let ?tmp = "TempFileName dbname n" and ?cur = "CurrentFileName dbname"
  let ?data = "str ''MANIFEST-'' @ printf_06llu (unat n) @ [10]"
  have ne: "?tmp \<noteq> ?cur"
    using length_printf_06(2,3) [of "unat n"]
    by (cases "printf_06llu (unat n)")
      (auto simp: TempFileName_def CurrentFileName_def MakeFileName_tail str_def is_digit_def)
  have desc: "drop (length dbname + 1) (DescriptorFileName dbname n) @ [10] = ?data"
    using length_printf_06(1) [of n] by (simp add: DescriptorFileName_def str_def)
  obtain e1 s1 where 1: "DoWriteStringToFile env e ?data ?tmp True = (e1, s1)" by fastforce
  note l1 = DoWriteStringToFile_law [OF assms(1) 1]
  obtain e2 s2 where 2: "(if Status_ok s1 then op_RenameFile env e1 ?tmp ?cur else (e1, s1)) = (e2, s2)" by fastforce
  have res: "(e', s) = (if \<not> Status_ok s2 then (fst (op_DeleteFile env e2 ?tmp), s2) else (e2, s2))"
    using assms(2) 1 2 unfolding SetCurrentFile_def WriteStringToFileSync_def Let_def desc by simp
  have l2: "valid e2" "Status_ok s2 \<longrightarrow> files e2 = (files e1)(?cur := files e1 ?tmp, ?tmp := None) \<and> Status_ok s1"
    "\<not> Status_ok s2 \<longrightarrow> files e2 = files e1"
    using 2 Rename_law [OF _ ne, of e1] l1 by (auto split: if_splits)
  have "valid (fst (op_DeleteFile env e2 ?tmp)) \<and> (\<forall>j. j \<noteq> ?tmp \<longrightarrow> files (fst (op_DeleteFile env e2 ?tmp)) j = files e2 j)"
    using DeleteFile_law [OF l2(1)] by (metis prod.collapse)
  with res l1 l2 ne ne [symmetric] show ?thesis by (auto split: if_splits)
qed

end

subsection \<open>CURRENT on the in-memory environment\<close>


text \<open>The in-memory environment with its open files, as such a file system.\<close>

definition mem_ops :: "(nat \<Rightarrow> slice) \<Rightarrow> (InMemoryEnv \<times> nat list, nat) env_ops" where
  "mem_ops mem =
     \<lparr> op_NewWritableFile = (\<lambda>e k. case the (NewWritableFile (fst e) k) of (env, s, h) \<Rightarrow> ((env, opened h (snd e)), s, the h)),
       op_Append = (\<lambda>e a d. case the (handle_Append mem (fst e) a d) of (env, s) \<Rightarrow> ((env, snd e), s)),
       op_Sync = (\<lambda>e a. (e, snd (WritableFileImpl_Sync (the (heap (fst e) a))))),
       op_Close = (\<lambda>e a. (e, snd (WritableFileImpl_Close (the (heap (fst e) a))))),
       op_delete = (\<lambda>e a. (the (close_handle (fst e) a), remove1 a (snd e))),
       op_DeleteFile = (\<lambda>e k. case the (DeleteFile (fst e) k) of (env, s) \<Rightarrow> ((env, snd e), s)),
       op_RenameFile = (\<lambda>e src target. case the (RenameFile (fst e) src target) of (env, s) \<Rightarrow> ((env, snd e), s)) \<rparr>"

definition mem_files :: "InMemoryEnv \<times> nat list \<Rightarrow> slice \<Rightarrow> slice option" where
  "mem_files e k = (case map_of (file_map (fst e)) k of
     Some (Some a) \<Rightarrow> map_option file_contents (heap (fst e) a) | _ \<Rightarrow> None)"

definition mem_valid :: "InMemoryEnv \<times> nat list \<Rightarrow> bool" where
  "mem_valid e \<longleftrightarrow> env_inv (fst e) (snd e) \<and> distinct (map snd (file_map (fst e)))"

definition mem_open_on :: "InMemoryEnv \<times> nat list \<Rightarrow> nat \<Rightarrow> slice \<Rightarrow> bool" where
  "mem_open_on e a k \<longleftrightarrow> a \<in> set (snd e) \<and> map_of (file_map (fst e)) k = Some (Some a)"

lemma distinct_count: "distinct xs \<longleftrightarrow> (\<forall>x. count_list xs x \<le> 1)"
proof (induction xs)
  case (Cons a xs)
  have "distinct (a # xs) \<longleftrightarrow> count_list xs a = 0 \<and> (\<forall>x. count_list xs x \<le> 1)"
    using Cons by (simp add: count_list_0_iff)
  also have "\<dots> \<longleftrightarrow> (\<forall>x. count_list (a # xs) x \<le> 1)" by (force simp: all_conj_distrib)
  finally show ?case .
qed simp

lemma same_name:
  assumes "distinct (map snd xs)" "map_of xs j = Some v" "map_of xs k = Some v"
  shows "j = k"
  using assms map_of_SomeD [OF assms(2)] map_of_SomeD [OF assms(3)]
  by (metis distinct_map inj_on_eq_iff fst_conv snd_conv)

lemma DeleteFileInternal_heap:
  assumes "DeleteFileInternal env k = Some env'"
  shows "file_map env' = map_erase k (file_map env) \<and> next_addr env' = next_addr env \<and>
    (\<forall>b. map_of (file_map env) k \<noteq> Some (Some b) \<longrightarrow> heap env' b = heap env b)"
  using assms
  by (auto simp: DeleteFileInternal_def ptr_Unref_def map_erase_absent split: option.splits)

lemma map_snd_erase: "distinct (map snd xs) \<Longrightarrow> distinct (map snd (map_erase k xs))"
  by (simp add: map_erase_def distinct_map_filter)

lemma mem_files_erase:
  assumes "mem_valid (env, hs)" "DeleteFileInternal env k = Some env'" "j \<noteq> k"
  shows "mem_files (env', hs') j = mem_files (env, hs) j"
proof -
  note d = DeleteFileInternal_heap [OF assms(2)]
  have "heap env' a = heap env a" if "map_of (file_map env) j = Some (Some a)" for a
    using d that assms(1,3) same_name [of "file_map env" j "Some a" k] by (auto simp: mem_valid_def)
  then show ?thesis using d assms(3) by (auto simp: mem_files_def split: option.splits)
qed

lemma fresh_address: "env_inv env hs \<Longrightarrow> Some (next_addr env) \<notin> set (pointers env hs)"
  using env_invD(3,4) [of env hs "next_addr env"] count_list_0_iff
  by (metis less_irrefl option.exhaust)

lemma mem_New_law:
  assumes "mem_valid (env, hs)" "NewWritableFile env k = Some (env', s, h)"
  shows "\<exists>a. h = Some a \<and> mem_valid (env', a # hs) \<and> mem_open_on (env', a # hs) a k \<and>
    mem_files (env', a # hs) k = Some [] \<and> (\<forall>j. j \<noteq> k \<longrightarrow> mem_files (env', a # hs) j = mem_files (env, hs) j)"
proof -
  have inv: "env_inv env hs" "distinct (map snd (file_map env))" using assms(1) by (simp_all add: mem_valid_def)
  obtain env1 where 1: "DeleteFileInternal env k = Some env1" "env_inv env1 hs" "file_map env1 = map_erase k (file_map env)"
    using DeleteFileInternal_inv [OF inv(1), of k] by blast
  have del: "(if map_of (file_map env) k \<noteq> None then DeleteFileInternal env k else Some env) = Some env1"
    using 1(1) by (auto simp: DeleteFileInternal_def)
  let ?a = "next_addr env1"
  let ?fs = "FileState_Ref (FileState_Ref FileState_new)"
  have env': "file_map env' = map_put k (Some ?a) (file_map env1)" "heap env' = (heap env1)(?a \<mapsto> ?fs)" "h = Some ?a"
    using assms(2) del by (auto simp: NewWritableFile_def new_file_def ptr_Ref_def)
  have fresh: "Some ?a \<notin> snd ` set (file_map env1)"
    using fresh_address [OF 1(2)] by (auto simp: pointers_def)
  have "distinct (map snd (file_map env'))"
    unfolding distinct_count
  proof
    fix w
    have "count_list (map snd (file_map env1)) w \<le> 1" "w = Some ?a \<longrightarrow> count_list (map snd (file_map env1)) w = 0"
      using map_snd_erase [OF inv(2), of k] 1(3) fresh by (auto simp: distinct_count count_list_0_iff)
    then show "count_list (map snd (file_map env')) w \<le> 1"
      using count_put [OF env_invD(1) [OF 1(2)], of k "Some ?a" w] 1(3) env'(1) by (auto split: if_splits)
  qed
  moreover have "env_inv env' (?a # hs)"
    using NewWritableFile_inv [OF inv(1), of k] assms(2) env'(3) by auto
  moreover have "mem_files (env', ?a # hs) j = mem_files (env, hs) j" if "j \<noteq> k" for j
  proof -
    have "a \<noteq> ?a" if "map_of (file_map env1) j = Some (Some a)" for a
      using map_of_SomeD [OF that] fresh by force
    then have "mem_files (env', ?a # hs) j = mem_files (env1, hs) j"
      using that env' by (auto simp: mem_files_def split: option.splits)
    then show ?thesis using mem_files_erase [OF assms(1) 1(1) that] by simp
  qed
  ultimately show ?thesis
    using env' by (auto simp: mem_valid_def mem_open_on_def mem_files_def FileState_Ref_def FileState_new_def file_contents_def)
qed

lemma mem_Append_law:
  assumes "mem_valid (env, hs)" "mem_open_on (env, hs) a k" "\<And>i. length (mem i) = kMemBlockSize"
    "handle_Append mem env a d = Some (env', s)"
  shows "mem_valid (env', hs) \<and> mem_open_on (env', hs) a k \<and>
    (\<forall>j. j \<noteq> k \<longrightarrow> mem_files (env', hs) j = mem_files (env, hs) j) \<and>
    mem_files (env', hs) k = map_option (\<lambda>c. c @ d) (mem_files (env, hs) k)"
proof -
  have inv: "env_inv env hs" "a \<in> set hs" "map_of (file_map env) k = Some (Some a)" "distinct (map snd (file_map env))"
    using assms(1,2) by (simp_all add: mem_valid_def mem_open_on_def)
  obtain fs fs' where fs: "heap env a = Some fs" "FileState_Append mem fs d = (fs', s)"
    "env' = env \<lparr> heap := (heap env)(a \<mapsto> fs') \<rparr>"
    using assms(4) by (auto simp: handle_Append_def WritableFileImpl_Append_def split: option.splits prod.splits)
  have "file_contents fs' = file_contents fs @ d"
    using FileState_Append_spec [OF _ assms(3) fs(2)] env_invD(4) [OF inv(1) fs(1)] by simp
  moreover have "env_inv env' hs" using handle_Append_inv [where mem = mem and d = d, OF inv(1,2) assms(3)] assms(4) by auto
  moreover have "mem_files (env', hs) j = mem_files (env, hs) j" if "j \<noteq> k" for j
    using same_name [OF inv(4) _ inv(3), of j] that fs(3) by (auto simp: mem_files_def split: option.splits)
  ultimately show ?thesis using inv fs by (simp add: mem_valid_def mem_open_on_def mem_files_def)
qed

lemma mem_close_law:
  assumes "mem_valid (env, hs)" "mem_open_on (env, hs) a k" "close_handle env a = Some env'"
  shows "mem_valid (env', remove1 a hs) \<and> mem_files (env', remove1 a hs) = mem_files (env, hs)"
proof -
  have inv: "env_inv env hs" "a \<in> set hs" "map_of (file_map env) k = Some (Some a)" "distinct (map snd (file_map env))"
    using assms(1,2) by (simp_all add: mem_valid_def mem_open_on_def)
  obtain fs where fs: "heap env a = Some fs" "env' = env \<lparr> heap := (heap env)(a := FileState_Unref fs) \<rparr>"
    using assms(3) by (auto simp: close_handle_def ptr_Unref_def split: option.splits)
  have inv': "env_inv env' (remove1 a hs)" using close_handle_inv [OF inv(1,2)] assms(3) by auto
  have "map_of (file_map env') k = Some (Some a)" using inv(3) fs(2) by simp
  then obtain fs' where "heap env' a = Some fs'"
    using named_pointer [OF inv', of k "Some a"] by blast
  then have "map_option file_contents (FileState_Unref fs) = Some (file_contents fs)"
    using fs(2) by (auto simp: FileState_Unref_def Let_def file_contents_def split: if_splits)
  then have "mem_files (env', remove1 a hs) j = mem_files (env, hs) j" for j
    using fs by (auto simp: mem_files_def split: option.splits)
  then show ?thesis using inv' inv(4) fs(2) by (auto simp: mem_valid_def)
qed

lemma mem_DeleteFile_law:
  assumes "mem_valid (env, hs)" "DeleteFile env k = Some (env', s)"
  shows "mem_valid (env', hs) \<and> (\<forall>j. j \<noteq> k \<longrightarrow> mem_files (env', hs) j = mem_files (env, hs) j)"
proof (cases "map_of (file_map env) k")
  case (Some p)
  then have d: "DeleteFileInternal env k = Some env'" using assms(2) by (simp add: DeleteFile_def)
  then show ?thesis
    using assms(1) mem_files_erase [OF assms(1) d] DeleteFileInternal_heap [OF d] DeleteFileInternal_inv [of env hs k]
    by (auto simp: mem_valid_def map_snd_erase)
qed (use assms in \<open>simp add: DeleteFile_def\<close>)

lemma mem_Rename_law:
  assumes "mem_valid (env, hs)" "src \<noteq> target" "RenameFile env src target = Some (env', s)"
  shows "mem_valid (env', hs) \<and>
    (if Status_ok s then mem_files (env', hs) = (mem_files (env, hs))(target := mem_files (env, hs) src, src := None)
     else mem_files (env', hs) = mem_files (env, hs))"
proof (cases "map_of (file_map env) src")
  case None
  then show ?thesis using assms
    by (auto simp: RenameFile_def not_found_def Status_IOError_def Status_make_def Let_def Status_ok_def)
next
  case (Some p)
  obtain env1 where 1: "DeleteFileInternal env target = Some env1"
    using assms(3) Some by (cases "DeleteFileInternal env target") (auto simp: RenameFile_def)
  have src: "map_of (file_map env1) src = Some p"
    using DeleteFileInternal_heap [OF 1] Some assms(2) by simp
  have env': "env' = env1 \<lparr> file_map := map_erase src (map_put target p (file_map env1)) \<rparr>" "s = Status_OK"
    using assms(3) Some 1 src by (simp_all add: RenameFile_def)
  note d = DeleteFileInternal_heap [OF 1]
  have inv: "env_inv env hs" "distinct (map snd (file_map env))" using assms(1) by (simp_all add: mem_valid_def)
  have m: "map_of (file_map env1) src = Some p" "map_of (file_map env1) target = None"
    using d Some assms(2) by simp_all
  have sorted: "keys_sorted (file_map env1)" using d env_invD(1) [OF inv(1)] by (simp add: keys_sorted_erase)
  have "count_list (map snd (file_map env')) w = count_list (map snd (file_map env1)) w" for w
    using count_put [OF sorted, of target p w] count_erase [OF keys_sorted_put [OF sorted, of target p], of src w] m env'(1) assms(2)
    by (auto split: if_splits)
  then have "distinct (map snd (file_map env'))"
    using map_snd_erase [OF inv(2), of target] d by (simp add: distinct_count)
  moreover have "env_inv env' hs" using RenameFile_inv [OF inv(1) assms(2)] assms(3) by auto
  moreover have "mem_files (env', hs) = (mem_files (env1, hs))(target := mem_files (env1, hs) src, src := None)"
    using env' m assms(2) by (auto simp: mem_files_def fun_eq_iff split: option.splits)
  moreover have "mem_files (env1, hs) j = mem_files (env, hs) j" if "j \<noteq> target" for j
    by (rule mem_files_erase [OF assms(1) 1 that])
  ultimately show ?thesis using env'(2) assms(2) by (auto simp: mem_valid_def fun_eq_iff)
qed

interpretation mem_fs: file_system "mem_ops zero_memory" mem_files mem_valid mem_open_on
proof
  fix e :: "InMemoryEnv \<times> nat list" and k e' s w d src target
  obtain env hs where e: "e = (env, hs)" by force
  assume v: "mem_valid e"
  then have inv: "env_inv env hs" using e by (simp add: mem_valid_def)
  show "mem_valid e' \<and> (\<forall>j. j \<noteq> k \<longrightarrow> mem_files e' j = mem_files e j) \<and>
      (Status_ok s \<longrightarrow> mem_open_on e' w k \<and> mem_files e' k = Some [])"
    if "op_NewWritableFile (mem_ops zero_memory) e k = (e', s, w)"
    using that mem_New_law [of env hs k] NewWritableFile_inv [OF inv, of k] v e
    by (fastforce simp: mem_ops_def opened_def)
  show "mem_valid e' \<and> (\<forall>j. j \<noteq> k \<longrightarrow> mem_files e' j = mem_files e j)"
    if "op_DeleteFile (mem_ops zero_memory) e k = (e', s)"
    using that mem_DeleteFile_law [of env hs k] DeleteFile_inv [OF inv, of k] v e by (auto simp: mem_ops_def)
  show "mem_valid e' \<and> (if Status_ok s then mem_files e' = (mem_files e)(target := mem_files e src, src := None)
      else mem_files e' = mem_files e)"
    if "src \<noteq> target" "op_RenameFile (mem_ops zero_memory) e src target = (e', s)"
    using that mem_Rename_law [of env hs src target] RenameFile_inv [OF inv that(1)] v e by (auto simp: mem_ops_def)
  assume o: "mem_open_on e w k"
  then have w: "w \<in> set hs" using e by (simp add: mem_open_on_def)
  show "mem_valid e' \<and> mem_open_on e' w k \<and> (\<forall>j. j \<noteq> k \<longrightarrow> mem_files e' j = mem_files e j) \<and>
      (Status_ok s \<longrightarrow> mem_files e' k = map_option (\<lambda>c. c @ d) (mem_files e k))"
    if "op_Append (mem_ops zero_memory) e w d = (e', s)"
    using that mem_Append_law [of env hs w k zero_memory d] zero_mem.whole_blocks v o e
      handle_Append_inv [where mem = zero_memory and d = d, OF inv w] by (auto simp: mem_ops_def)
  show "mem_valid (op_delete (mem_ops zero_memory) e w) \<and> mem_files (op_delete (mem_ops zero_memory) e w) = mem_files e"
    using mem_close_law [of env hs w k] close_handle_inv [OF inv w] v o e by (auto simp: mem_ops_def)
qed (auto simp: mem_ops_def)

text \<open>C23. Switching the CURRENT file is all or nothing: over any file system that keeps its contract, where
  every call may fail, \<open>SetCurrentFile\<close> leaves CURRENT naming the new manifest exactly when it returns
  OK and otherwise leaves CURRENT as it was, and touches no other file than its temporary one.\<close>

theorem set_current_file_atomic:
  assumes "file_system env files valid open_on" "valid e" "SetCurrentFile env e dbname n = (e', s)"
  shows "valid e' \<and>
    files e' (CurrentFileName dbname) =
      (if Status_ok s then Some (str ''MANIFEST-'' @ printf_06llu (unat n) @ [10]) else files e (CurrentFileName dbname)) \<and>
    (\<forall>j. j \<noteq> CurrentFileName dbname \<and> j \<noteq> TempFileName dbname n \<longrightarrow> files e' j = files e j)"
  using file_system.SetCurrentFile_law [OF assms] by blast

theorem set_current_file_atomic_witness:
  "\<exists>e' s. SetCurrentFile (mem_ops zero_memory) (InMemoryEnv_new, []) [100, 98] 5 = (e', s) \<and>
     mem_files e' (CurrentFileName [100, 98]) =
       (if Status_ok s then Some (str ''MANIFEST-'' @ printf_06llu 5 @ [10]) else None)"
proof -
  have "mem_valid (InMemoryEnv_new, [])"
    by (auto simp: mem_valid_def InMemoryEnv_new_def pointers_def keys_sorted_def intro!: env_invI)
  moreover obtain e' s where r: "SetCurrentFile (mem_ops zero_memory) (InMemoryEnv_new, []) [100, 98] 5 = (e', s)"
    by fastforce
  moreover have "mem_files (InMemoryEnv_new, []) k = None" for k
    by (simp add: mem_files_def InMemoryEnv_new_def)
  ultimately show ?thesis using set_current_file_atomic [OF mem_fs.file_system_axioms, of _ "[100, 98]" 5] by fastforce
qed

context sequential_file
begin

lemma ReadFileToString_law:
  "readable f \<Longrightarrow> \<exists>f'. ReadFileToString_loop Read f data = Some (f', Status_OK, data @ remaining f)"
proof (induction "length (remaining f)" arbitrary: f data rule: less_induct)
  case less
  obtain f1 where f1: "Read f 8192 = (f1, Status_OK, take 8192 (remaining f))" "readable f1"
    "remaining f1 = drop 8192 (remaining f)"
    by (rule Read_ok [OF less.prems])
  show ?case
  proof (cases "remaining f = []")
    case True
    then show ?thesis using f1 by (subst ReadFileToString_loop.simps) (simp add: Status_ok_def Status_OK_def)
  next
    case False
    then have "length (remaining f1) < length (remaining f)" using f1(3) by simp
    from less.hyps [OF this f1(2), of "data @ take 8192 (remaining f)"]
    show ?thesis using f1 False by (subst ReadFileToString_loop.simps) (simp add: Status_ok_def Status_OK_def)
  qed
qed

end

end
