(* ===== verification/Merger.thy ===== *)
theory Merger
  imports KeyOrder Status
begin

text \<open>
  The interface \<open>include/leveldb/iterator.h\<close> as a record of operations on an iterator state, its caching wrapper
  \<open>table/iterator_wrapper.h\<close>, and the merging iterator \<open>table/merger.cc\<close>. A moving operation is \<open>None\<close> when it
  would follow a null pointer or read outside its memory. The locale \<open>cursor\<close> is the contract: an iterator is a
  position in a sorted list.
\<close>

subsection \<open>Iterator and IteratorWrapper\<close>

record 'i iter_ops =
  io_Valid :: "'i \<Rightarrow> bool"
  io_key :: "'i \<Rightarrow> slice"
  io_value :: "'i \<Rightarrow> slice"
  io_status :: "'i \<Rightarrow> status"
  io_Next :: "'i \<Rightarrow> 'i option"
  io_Prev :: "'i \<Rightarrow> 'i option"
  io_Seek :: "slice \<Rightarrow> 'i \<Rightarrow> 'i option"
  io_SeekToFirst :: "'i \<Rightarrow> 'i option"
  io_SeekToLast :: "'i \<Rightarrow> 'i option"

record 'i IteratorWrapper =
  w_iter :: "'i option"
  w_valid :: bool
  w_key :: slice

definition Wrapper_new :: "'i IteratorWrapper" where
  "Wrapper_new = \<lparr> w_iter = None, w_valid = False, w_key = [] \<rparr>"

definition Wrapper_Update :: "'i iter_ops \<Rightarrow> 'i IteratorWrapper \<Rightarrow> 'i IteratorWrapper option" where
  "Wrapper_Update ops w =
     (case w_iter w of
        None \<Rightarrow> None
      | Some i \<Rightarrow>
          let w = w \<lparr> w_valid := io_Valid ops i \<rparr>
          in Some (if w_valid w then w \<lparr> w_key := io_key ops i \<rparr> else w))"

definition Wrapper_Set :: "'i iter_ops \<Rightarrow> 'i IteratorWrapper \<Rightarrow> 'i option \<Rightarrow> 'i IteratorWrapper option" where
  "Wrapper_Set ops w iter =
     (let w = w \<lparr> w_iter := iter \<rparr>
      in case iter of None \<Rightarrow> Some (w \<lparr> w_valid := False \<rparr>) | Some i \<Rightarrow> Wrapper_Update ops w)"

definition Wrapper_value :: "'i iter_ops \<Rightarrow> 'i IteratorWrapper \<Rightarrow> slice option" where
  "Wrapper_value ops w = map_option (io_value ops) (w_iter w)"

definition Wrapper_status :: "'i iter_ops \<Rightarrow> 'i IteratorWrapper \<Rightarrow> status option" where
  "Wrapper_status ops w = map_option (io_status ops) (w_iter w)"

text \<open>\<open>Next\<close>, \<open>Prev\<close> and the three \<open>Seek\<close> operations of the wrapper: the iterator's, then \<open>Update\<close>.\<close>

definition Wrapper_move :: "'i iter_ops \<Rightarrow> ('i \<Rightarrow> 'i option) \<Rightarrow> 'i IteratorWrapper \<Rightarrow> 'i IteratorWrapper option" where
  "Wrapper_move ops f w =
     (case w_iter w of
        None \<Rightarrow> None
      | Some i \<Rightarrow> (case f i of None \<Rightarrow> None | Some i \<Rightarrow> Wrapper_Update ops (w \<lparr> w_iter := Some i \<rparr>)))"

abbreviation Wrapper_Next :: "'i iter_ops \<Rightarrow> 'i IteratorWrapper \<Rightarrow> 'i IteratorWrapper option" where
  "Wrapper_Next ops \<equiv> Wrapper_move ops (io_Next ops)"

abbreviation Wrapper_Prev :: "'i iter_ops \<Rightarrow> 'i IteratorWrapper \<Rightarrow> 'i IteratorWrapper option" where
  "Wrapper_Prev ops \<equiv> Wrapper_move ops (io_Prev ops)"

abbreviation Wrapper_Seek :: "'i iter_ops \<Rightarrow> slice \<Rightarrow> 'i IteratorWrapper \<Rightarrow> 'i IteratorWrapper option" where
  "Wrapper_Seek ops k \<equiv> Wrapper_move ops (io_Seek ops k)"

abbreviation Wrapper_SeekToFirst :: "'i iter_ops \<Rightarrow> 'i IteratorWrapper \<Rightarrow> 'i IteratorWrapper option" where
  "Wrapper_SeekToFirst ops \<equiv> Wrapper_move ops (io_SeekToFirst ops)"

abbreviation Wrapper_SeekToLast :: "'i iter_ops \<Rightarrow> 'i IteratorWrapper \<Rightarrow> 'i IteratorWrapper option" where
  "Wrapper_SeekToLast ops \<equiv> Wrapper_move ops (io_SeekToLast ops)"

subsection \<open>MergingIterator\<close>

datatype Direction = kForward | kReverse

record 'i MergingIterator =
  mi_children :: "'i IteratorWrapper list"
  mi_current :: "nat option"
  mi_direction :: Direction

text \<open>A loop over the children by index that changes each on its own.\<close>

fun option_all :: "'a option list \<Rightarrow> 'a list option" where
  "option_all [] = Some []"
| "option_all (None # xs) = None"
| "option_all (Some x # xs) = map_option (Cons x) (option_all xs)"

definition Merging_new :: "'i iter_ops \<Rightarrow> 'i list \<Rightarrow> 'i MergingIterator option" where
  "Merging_new ops children =
     map_option (\<lambda>ws. \<lparr> mi_children = ws, mi_current = None, mi_direction = kForward \<rparr>)
       (option_all (map (\<lambda>i. Wrapper_Set ops Wrapper_new (Some i)) children))"

definition Merging_Valid :: "'i MergingIterator \<Rightarrow> bool" where
  "Merging_Valid m \<longleftrightarrow> mi_current m \<noteq> None"

definition smaller_child :: "(slice \<Rightarrow> slice \<Rightarrow> int) \<Rightarrow> 'i IteratorWrapper list \<Rightarrow> nat \<Rightarrow> nat option \<Rightarrow> nat option" where
  "smaller_child cmp ws i smallest =
     (if w_valid (ws ! i) then
        (case smallest of
           None \<Rightarrow> Some i
         | Some j \<Rightarrow> if cmp (w_key (ws ! i)) (w_key (ws ! j)) < 0 then Some i else Some j)
      else smallest)"

definition FindSmallest :: "(slice \<Rightarrow> slice \<Rightarrow> int) \<Rightarrow> 'i MergingIterator \<Rightarrow> 'i MergingIterator" where
  "FindSmallest cmp m = m \<lparr> mi_current := fold (smaller_child cmp (mi_children m)) [0..<length (mi_children m)] None \<rparr>"

definition larger_child :: "(slice \<Rightarrow> slice \<Rightarrow> int) \<Rightarrow> 'i IteratorWrapper list \<Rightarrow> nat \<Rightarrow> nat option \<Rightarrow> nat option" where
  "larger_child cmp ws i largest =
     (if w_valid (ws ! i) then
        (case largest of
           None \<Rightarrow> Some i
         | Some j \<Rightarrow> if cmp (w_key (ws ! i)) (w_key (ws ! j)) > 0 then Some i else Some j)
      else largest)"

definition FindLargest :: "(slice \<Rightarrow> slice \<Rightarrow> int) \<Rightarrow> 'i MergingIterator \<Rightarrow> 'i MergingIterator" where
  "FindLargest cmp m = m \<lparr> mi_current := fold (larger_child cmp (mi_children m)) (rev [0..<length (mi_children m)]) None \<rparr>"

definition Merging_SeekToFirst :: "'i iter_ops \<Rightarrow> (slice \<Rightarrow> slice \<Rightarrow> int) \<Rightarrow> 'i MergingIterator \<Rightarrow> 'i MergingIterator option" where
  "Merging_SeekToFirst ops cmp m =
     map_option (\<lambda>ws. (FindSmallest cmp (m \<lparr> mi_children := ws \<rparr>)) \<lparr> mi_direction := kForward \<rparr>)
       (option_all (map (Wrapper_SeekToFirst ops) (mi_children m)))"

definition Merging_SeekToLast :: "'i iter_ops \<Rightarrow> (slice \<Rightarrow> slice \<Rightarrow> int) \<Rightarrow> 'i MergingIterator \<Rightarrow> 'i MergingIterator option" where
  "Merging_SeekToLast ops cmp m =
     map_option (\<lambda>ws. (FindLargest cmp (m \<lparr> mi_children := ws \<rparr>)) \<lparr> mi_direction := kReverse \<rparr>)
       (option_all (map (Wrapper_SeekToLast ops) (mi_children m)))"

definition Merging_Seek :: "'i iter_ops \<Rightarrow> (slice \<Rightarrow> slice \<Rightarrow> int) \<Rightarrow> slice \<Rightarrow> 'i MergingIterator \<Rightarrow> 'i MergingIterator option" where
  "Merging_Seek ops cmp target m =
     map_option (\<lambda>ws. (FindSmallest cmp (m \<lparr> mi_children := ws \<rparr>)) \<lparr> mi_direction := kForward \<rparr>)
       (option_all (map (Wrapper_Seek ops target) (mi_children m)))"

definition Merging_key :: "'i MergingIterator \<Rightarrow> slice" where
  "Merging_key m = w_key (mi_children m ! the (mi_current m))"

definition Merging_value :: "'i iter_ops \<Rightarrow> 'i MergingIterator \<Rightarrow> slice option" where
  "Merging_value ops m = Wrapper_value ops (mi_children m ! the (mi_current m))"

text \<open>The loops of \<open>Next\<close> and \<open>Prev\<close> that turn the children other than \<open>current_\<close> round.\<close>

definition turn_forward :: "'i iter_ops \<Rightarrow> (slice \<Rightarrow> slice \<Rightarrow> int) \<Rightarrow> slice \<Rightarrow> 'i IteratorWrapper \<Rightarrow> 'i IteratorWrapper option" where
  "turn_forward ops cmp key child =
     Option.bind (Wrapper_Seek ops key child) (\<lambda>child.
       if w_valid child \<and> cmp key (w_key child) = 0 then Wrapper_Next ops child else Some child)"

definition turn_reverse :: "'i iter_ops \<Rightarrow> slice \<Rightarrow> 'i IteratorWrapper \<Rightarrow> 'i IteratorWrapper option" where
  "turn_reverse ops key child =
     Option.bind (Wrapper_Seek ops key child) (\<lambda>child.
       if w_valid child then Wrapper_Prev ops child else Wrapper_SeekToLast ops child)"

definition turn_children :: "('i IteratorWrapper \<Rightarrow> 'i IteratorWrapper option) \<Rightarrow> nat \<Rightarrow> 'i IteratorWrapper list \<Rightarrow> 'i IteratorWrapper list option" where
  "turn_children f current ws = option_all (map (\<lambda>i. if i = current then Some (ws ! i) else f (ws ! i)) [0..<length ws])"

definition Merging_Next :: "'i iter_ops \<Rightarrow> (slice \<Rightarrow> slice \<Rightarrow> int) \<Rightarrow> 'i MergingIterator \<Rightarrow> 'i MergingIterator option" where
  "Merging_Next ops cmp m =
     (case mi_current m of
        None \<Rightarrow> None
      | Some current \<Rightarrow>
          (case (if mi_direction m \<noteq> kForward then turn_children (turn_forward ops cmp (Merging_key m)) current (mi_children m)
                 else Some (mi_children m)) of
             None \<Rightarrow> None
           | Some ws \<Rightarrow>
               (case Wrapper_Next ops (ws ! current) of
                  None \<Rightarrow> None
                | Some w \<Rightarrow> Some (FindSmallest cmp (m \<lparr> mi_direction := kForward, mi_children := ws [current := w] \<rparr>)))))"

definition Merging_Prev :: "'i iter_ops \<Rightarrow> (slice \<Rightarrow> slice \<Rightarrow> int) \<Rightarrow> 'i MergingIterator \<Rightarrow> 'i MergingIterator option" where
  "Merging_Prev ops cmp m =
     (case mi_current m of
        None \<Rightarrow> None
      | Some current \<Rightarrow>
          (case (if mi_direction m \<noteq> kReverse then turn_children (turn_reverse ops (Merging_key m)) current (mi_children m)
                 else Some (mi_children m)) of
             None \<Rightarrow> None
           | Some ws \<Rightarrow>
               (case Wrapper_Prev ops (ws ! current) of
                  None \<Rightarrow> None
                | Some w \<Rightarrow> Some (FindLargest cmp (m \<lparr> mi_direction := kReverse, mi_children := ws [current := w] \<rparr>)))))"

fun Merging_status_loop :: "'i iter_ops \<Rightarrow> 'i IteratorWrapper list \<Rightarrow> status \<Rightarrow> status option" where
  "Merging_status_loop ops [] s = Some s"
| "Merging_status_loop ops (w # ws) s =
     (case Wrapper_status ops w of
        None \<Rightarrow> None
      | Some s \<Rightarrow> if \<not> Status_ok s then Some s else Merging_status_loop ops ws s)"

definition Merging_status :: "'i iter_ops \<Rightarrow> 'i MergingIterator \<Rightarrow> status option" where
  "Merging_status ops m = Merging_status_loop ops (mi_children m) Status_OK"

text \<open>The merging iterator as an iterator; a missing value or status stands for a null pointer.\<close>

definition merging_ops :: "'i iter_ops \<Rightarrow> (slice \<Rightarrow> slice \<Rightarrow> int) \<Rightarrow> 'i MergingIterator iter_ops" where
  "merging_ops ops cmp =
     \<lparr> io_Valid = Merging_Valid, io_key = Merging_key, io_value = (\<lambda>m. the (Merging_value ops m)),
       io_status = (\<lambda>m. the (Merging_status ops m)), io_Next = Merging_Next ops cmp, io_Prev = Merging_Prev ops cmp,
       io_Seek = Merging_Seek ops cmp, io_SeekToFirst = Merging_SeekToFirst ops cmp, io_SeekToLast = Merging_SeekToLast ops cmp \<rparr>"

subsection \<open>The contract of an iterator\<close>

type_synonym entries = "(slice \<times> slice) list"

definition cut_pos :: "(slice \<Rightarrow> bool) \<Rightarrow> entries \<Rightarrow> nat" where
  "cut_pos P es = length (takeWhile (P \<circ> fst) es)"

text \<open>One step back from a position; the position of an invalid iterator is the length of the list.\<close>

definition step_back :: "nat \<Rightarrow> nat \<Rightarrow> nat" where
  "step_back n j = (if j = 0 then n else j - 1)"

definition sorted_entries :: "(slice \<Rightarrow> bool) \<Rightarrow> (slice \<Rightarrow> slice \<Rightarrow> int) \<Rightarrow> entries \<Rightarrow> bool" where
  "sorted_entries valid cmp es \<longleftrightarrow> sorted_wrt (\<lambda>a b. cmp (fst a) (fst b) < 0) es \<and> (\<forall>e\<in>set es. valid (fst e))"

locale cursor = key_order valid cmp for valid :: "slice \<Rightarrow> bool" and cmp +
  fixes ops :: "'i iter_ops" and at :: "'i \<Rightarrow> entries \<Rightarrow> nat \<Rightarrow> bool"
  assumes at_sorted: "at i es j \<Longrightarrow> sorted_entries valid cmp es"
    and at_le: "at i es j \<Longrightarrow> j \<le> length es"
    and at_valid: "at i es j \<Longrightarrow> io_Valid ops i \<longleftrightarrow> j < length es"
    and at_key: "at i es j \<Longrightarrow> j < length es \<Longrightarrow> io_key ops i = fst (es ! j)"
    and at_value: "at i es j \<Longrightarrow> j < length es \<Longrightarrow> io_value ops i = snd (es ! j)"
    and at_status: "at i es j \<Longrightarrow> io_status ops i = Status_OK"
    and at_next: "at i es j \<Longrightarrow> j < length es \<Longrightarrow> \<exists>i'. io_Next ops i = Some i' \<and> at i' es (Suc j)"
    and at_prev: "at i es j \<Longrightarrow> j < length es \<Longrightarrow> \<exists>i'. io_Prev ops i = Some i' \<and> at i' es (step_back (length es) j)"
    and at_seek: "at i es j \<Longrightarrow> valid k \<Longrightarrow> \<exists>i'. io_Seek ops k i = Some i' \<and> at i' es (cut_pos (\<lambda>a. cmp a k < 0) es)"
    and at_first: "at i es j \<Longrightarrow> \<exists>i'. io_SeekToFirst ops i = Some i' \<and> at i' es 0"
    and at_last: "at i es j \<Longrightarrow> \<exists>i'. io_SeekToLast ops i = Some i' \<and> at i' es (step_back (length es) (length es))"


lemma option_all_Some:
  assumes "\<And>i. i < length xs \<Longrightarrow> \<exists>y. xs ! i = Some y \<and> R i y"
  shows "\<exists>ys. option_all xs = Some ys \<and> length ys = length xs \<and> (\<forall>i<length xs. R i (ys ! i))"
  using assms
proof (induction xs arbitrary: R)
  case (Cons x xs)
  obtain y where y: "x = Some y" "R 0 y" using Cons.prems [of 0] by auto
  have "\<exists>ys. option_all xs = Some ys \<and> length ys = length xs \<and> (\<forall>i<length xs. R (Suc i) (ys ! i))"
    using Cons.IH [of "\<lambda>i. R (Suc i)"] Cons.prems by (metis Suc_less_eq length_Cons nth_Cons_Suc)
  then obtain ys where ys: "option_all xs = Some ys" "length ys = length xs" "\<forall>i<length xs. R (Suc i) (ys ! i)" by blast
  then show ?case using y by (auto simp: nth_Cons split: nat.split intro!: exI [of _ "y # ys"])
qed simp

lemma cut_le: "cut_pos P es \<le> length es"
  by (simp add: cut_pos_def length_takeWhile_le)

lemma cut_cong: "(\<And>e. e \<in> set es \<Longrightarrow> P (fst e) \<longleftrightarrow> Q (fst e)) \<Longrightarrow> cut_pos P es = cut_pos Q es"
  unfolding cut_pos_def by (metis comp_apply takeWhile_cong)

lemma cut_before: "i < cut_pos P es \<Longrightarrow> P (fst (es ! i))"
  unfolding cut_pos_def by (metis comp_apply nth_mem set_takeWhileD takeWhile_nth)

lemma cut_at: "cut_pos P es < length es \<Longrightarrow> \<not> P (fst (es ! cut_pos P es))"
  unfolding cut_pos_def by (metis comp_apply nth_length_takeWhile)

text \<open>The loop of \<open>FindSmallest\<close> picks a valid child with the least key; that of \<open>FindLargest\<close> is the same for the
  reversed order.\<close>

definition least_child :: "(slice \<Rightarrow> slice \<Rightarrow> int) \<Rightarrow> 'i IteratorWrapper list \<Rightarrow> nat set \<Rightarrow> nat option \<Rightarrow> bool" where
  "least_child cmp ws S r \<longleftrightarrow>
     (case r of None \<Rightarrow> \<forall>i\<in>S. \<not> w_valid (ws ! i)
      | Some c \<Rightarrow> c \<in> S \<and> w_valid (ws ! c) \<and> (\<forall>i\<in>S. w_valid (ws ! i) \<longrightarrow> cmp (w_key (ws ! c)) (w_key (ws ! i)) \<le> 0))"

lemma least_child_step:
  assumes "key_order valid cmp" "\<forall>j\<in>insert i S. w_valid (ws ! j) \<longrightarrow> valid (w_key (ws ! j))" "least_child cmp ws S r"
  shows "least_child cmp ws (insert i S) (smaller_child cmp ws i r)"
proof (cases "w_valid (ws ! i)")
  case False
  then show ?thesis using assms(3) by (auto simp: least_child_def smaller_child_def split: option.splits)
next
  case True
  note laws = key_order.cmp_refl [OF assms(1)] key_order.cmp_trans [OF assms(1)] key_order.cmp_flip_le [OF assms(1)]
  let ?k = "\<lambda>j. w_key (ws ! j)"
  have vi: "valid (?k i)" using assms(2) True by simp
  show ?thesis
  proof (cases r)
    case None
    then show ?thesis using True assms(3) laws(1) [OF vi] by (auto simp: least_child_def smaller_child_def)
  next
    case (Some c)
    then have c: "c \<in> S" "w_valid (ws ! c)" "\<And>j. j \<in> S \<Longrightarrow> w_valid (ws ! j) \<Longrightarrow> cmp (?k c) (?k j) \<le> 0"
      using assms(3) by (auto simp: least_child_def)
    have vc: "valid (?k c)" using assms(2) c by simp
    show ?thesis
    proof (cases "cmp (?k i) (?k c) < 0")
      case less: True
      have "cmp (?k i) (?k j) \<le> 0" if "j \<in> S" "w_valid (ws ! j)" for j
        using laws(2) [OF vi vc, of "?k j"] less c(3) [OF that] assms(2) that by simp
      then show ?thesis using Some True less laws(1) [OF vi] by (auto simp: least_child_def smaller_child_def)
    next
      case False
      then have "cmp (?k c) (?k i) \<le> 0" using laws(3) [OF vc vi] by simp
      then show ?thesis using Some True False c by (auto simp: least_child_def smaller_child_def)
    qed
  qed
qed

lemma least_child_fold:
  assumes "key_order valid cmp" "\<forall>i\<in>set is \<union> S. w_valid (ws ! i) \<longrightarrow> valid (w_key (ws ! i))" "least_child cmp ws S r"
  shows "least_child cmp ws (set is \<union> S) (fold (smaller_child cmp ws) is r)"
  using assms(2,3)
proof (induction "is" arbitrary: r S)
  case (Cons i "is")
  have "least_child cmp ws (insert i S) (smaller_child cmp ws i r)" using least_child_step [OF assms(1) _ Cons.prems(2)] Cons.prems(1) by simp
  then have "least_child cmp ws (set is \<union> insert i S) (fold (smaller_child cmp ws) is (smaller_child cmp ws i r))"
    by (rule Cons.IH [rotated]) (use Cons.prems(1) in auto)
  then show ?case by simp
qed simp

lemma larger_child_eq: "larger_child cmp ws = smaller_child (\<lambda>a b. - cmp a b) ws"
  by (intro ext) (simp add: larger_child_def smaller_child_def split: option.split)

lemma key_order_reverse: "key_order valid cmp \<Longrightarrow> key_order valid (\<lambda>a b. - cmp a b)"
proof unfold_locales
  assume k: "key_order valid cmp"
  fix a b c
  assume v: "valid a" "valid b"
  show "- cmp a b < 0 \<longleftrightarrow> 0 < - cmp b a" using key_order.cmp_flip [OF k v(2,1)] by auto
  assume "valid c" "- cmp a b \<le> 0" "- cmp b c \<le> 0"
  then show "- cmp a c \<le> 0" using key_order.cmp_trans [OF k, of c b a] key_order.cmp_flip_le [OF k] v by auto
qed (simp add: key_order.cmp_refl)

lemma least_child_none: "least_child cmp ws {} None"
  by (simp add: least_child_def)

lemma FindSmallest_least:
  assumes "key_order valid cmp" "\<forall>w\<in>set (mi_children m). w_valid w \<longrightarrow> valid (w_key w)"
  shows "least_child cmp (mi_children m) {..<length (mi_children m)} (mi_current (FindSmallest cmp m))"
  using least_child_fold [OF assms(1) _ least_child_none, of "[0..<length (mi_children m)]" "mi_children m"] assms(2)
  by (simp add: FindSmallest_def atLeast0LessThan)

lemma FindLargest_least:
  assumes "key_order valid cmp" "\<forall>w\<in>set (mi_children m). w_valid w \<longrightarrow> valid (w_key w)"
  shows "least_child (\<lambda>a b. - cmp a b) (mi_children m) {..<length (mi_children m)} (mi_current (FindLargest cmp m))"
  using least_child_fold [OF key_order_reverse [OF assms(1)] _ least_child_none, of "rev [0..<length (mi_children m)]" "mi_children m"] assms(2)
  by (simp add: FindLargest_def larger_child_eq atLeast0LessThan)

subsection \<open>Positions of the children\<close>

definition w_at :: "('i \<Rightarrow> entries \<Rightarrow> nat \<Rightarrow> bool) \<Rightarrow> 'i IteratorWrapper \<Rightarrow> entries \<Rightarrow> nat \<Rightarrow> bool" where
  "w_at at w es j \<longleftrightarrow> (\<exists>i. w_iter w = Some i \<and> at i es j \<and> w_valid w = (j < length es) \<and> (j < length es \<longrightarrow> w_key w = fst (es ! j)))"

text \<open>\<open>ms\<close> merges the lists \<open>ess\<close>, which have no key in common.\<close>

definition merged :: "(slice \<Rightarrow> bool) \<Rightarrow> (slice \<Rightarrow> slice \<Rightarrow> int) \<Rightarrow> entries list \<Rightarrow> entries \<Rightarrow> bool" where
  "merged valid cmp ess ms \<longleftrightarrow> sorted_entries valid cmp ms \<and> set ms = \<Union> (set ` set ess) \<and> (\<forall>es\<in>set ess. sorted_entries valid cmp es) \<and>
     sorted_wrt (\<lambda>es es'. \<forall>a\<in>set es. \<forall>b\<in>set es'. cmp (fst a) (fst b) \<noteq> 0) ess"

definition child_pos :: "(slice \<Rightarrow> slice \<Rightarrow> int) \<Rightarrow> Direction \<Rightarrow> bool \<Rightarrow> slice \<Rightarrow> entries \<Rightarrow> nat" where
  "child_pos cmp d current K es =
     (let p = cut_pos (\<lambda>a. cmp a K < 0) es in if current \<or> d = kForward then p else step_back (length es) p)"

definition merging_at :: "(slice \<Rightarrow> bool) \<Rightarrow> (slice \<Rightarrow> slice \<Rightarrow> int) \<Rightarrow> ('i \<Rightarrow> entries \<Rightarrow> nat \<Rightarrow> bool) \<Rightarrow> 'i MergingIterator \<Rightarrow> entries \<Rightarrow> nat \<Rightarrow> bool" where
  "merging_at valid cmp at m ms j \<longleftrightarrow>
     (\<exists>ess. merged valid cmp ess ms \<and> length (mi_children m) = length ess \<and> j \<le> length ms \<and>
       (if j < length ms
        then \<exists>c<length ess. mi_current m = Some c \<and> ms ! j \<in> set (ess ! c) \<and>
          (\<forall>i<length ess. w_at at (mi_children m ! i) (ess ! i) (child_pos cmp (mi_direction m) (i = c) (fst (ms ! j)) (ess ! i)))
        else mi_current m = None \<and> (\<forall>i<length ess. \<exists>p. w_at at (mi_children m ! i) (ess ! i) p)))"

text \<open>A predicate that holds of every key below one it holds of.\<close>

definition down :: "(slice \<Rightarrow> bool) \<Rightarrow> (slice \<Rightarrow> slice \<Rightarrow> int) \<Rightarrow> (slice \<Rightarrow> bool) \<Rightarrow> bool" where
  "down valid cmp P \<longleftrightarrow> (\<forall>a b. valid a \<longrightarrow> valid b \<longrightarrow> cmp a b \<le> 0 \<longrightarrow> P b \<longrightarrow> P a)"

context cursor
begin

lemma w_at_update:
  assumes "at i es j"
  shows "\<exists>w'. Wrapper_Update ops (w \<lparr> w_iter := Some i \<rparr>) = Some w' \<and> w_at at w' es j"
  using assms at_valid [OF assms] at_key [OF assms] by (auto simp: Wrapper_Update_def w_at_def Let_def)

lemma w_at_move:
  assumes "w_at at w es j" "\<And>i. at i es j \<Longrightarrow> \<exists>i'. f i = Some i' \<and> at i' es j'"
  shows "\<exists>w'. Wrapper_move ops f w = Some w' \<and> w_at at w' es j'"
proof -
  obtain i where i: "w_iter w = Some i" "at i es j" using assms(1) unfolding w_at_def by blast
  then obtain i' where "f i = Some i'" "at i' es j'" using assms(2) by blast
  then show ?thesis using w_at_update i(1) by (simp add: Wrapper_move_def)
qed

lemma w_at_sorted: "w_at at w es j \<Longrightarrow> sorted_entries valid cmp es" using at_sorted by (auto simp: w_at_def)

lemma w_at_valid: "w_at at w es j \<Longrightarrow> w_valid w \<longleftrightarrow> j < length es" by (auto simp: w_at_def)

lemma w_at_key: "w_at at w es j \<Longrightarrow> j < length es \<Longrightarrow> w_key w = fst (es ! j)" by (auto simp: w_at_def)

lemma w_at_valid_key: "w_at at w es j \<Longrightarrow> w_valid w \<Longrightarrow> valid (w_key w)"
  using w_at_valid w_at_key w_at_sorted by (fastforce simp: sorted_entries_def)

lemma w_at_moves:
  assumes "w_at at w es j"
  shows "j < length es \<Longrightarrow> \<exists>w'. Wrapper_Next ops w = Some w' \<and> w_at at w' es (Suc j)"
    "j < length es \<Longrightarrow> \<exists>w'. Wrapper_Prev ops w = Some w' \<and> w_at at w' es (step_back (length es) j)"
    "valid k \<Longrightarrow> \<exists>w'. Wrapper_Seek ops k w = Some w' \<and> w_at at w' es (cut_pos (\<lambda>a. cmp a k < 0) es)"
    "\<exists>w'. Wrapper_SeekToFirst ops w = Some w' \<and> w_at at w' es 0"
    "\<exists>w'. Wrapper_SeekToLast ops w = Some w' \<and> w_at at w' es (step_back (length es) (length es))"
  using w_at_move [OF assms] at_next at_prev at_seek at_first at_last by simp_all

text \<open>Sorted lists: what lies on each side of a position.\<close>

lemma sorted_le: "sorted_entries valid cmp es \<Longrightarrow> i \<le> j \<Longrightarrow> j < length es \<Longrightarrow> cmp (fst (es ! i)) (fst (es ! j)) \<le> 0"
  unfolding sorted_entries_def using cmp_refl by (cases "i = j") (auto simp: sorted_wrt_iff_nth_less order_less_imp_le)

lemma sorted_unique:
  assumes "sorted_entries valid cmp ms" "a \<in> set ms" "b \<in> set ms" "cmp (fst a) (fst b) = 0"
  shows "a = b"
proof -
  obtain i j where ij: "i < length ms" "a = ms ! i" "j < length ms" "b = ms ! j" using assms(2,3) by (auto simp: in_set_conv_nth)
  have v: "valid (fst a)" "valid (fst b)" using assms by (auto simp: sorted_entries_def)
  have "cmp (fst a) (fst b) < 0 \<or> i = j \<or> cmp (fst b) (fst a) < 0"
    using assms(1) ij unfolding sorted_entries_def sorted_wrt_iff_nth_less by (metis linorder_neqE_nat)
  then show ?thesis using assms(4) ij cmp_eq_sym [OF v] by auto
qed

lemma down_less: "valid k \<Longrightarrow> down valid cmp (\<lambda>a. cmp a k < 0)" unfolding down_def using cmp_le_less_trans by blast

lemma down_le: "valid k \<Longrightarrow> down valid cmp (\<lambda>a. cmp a k \<le> 0)" unfolding down_def using cmp_trans by blast

lemma cut_iff:
  assumes "sorted_entries valid cmp es" "down valid cmp P" "i < length es"
  shows "P (fst (es ! i)) \<longleftrightarrow> i < cut_pos P es"
proof
  assume P: "P (fst (es ! i))"
  show "i < cut_pos P es"
  proof (rule ccontr)
    assume c: "\<not> i < cut_pos P es"
    then have "cmp (fst (es ! cut_pos P es)) (fst (es ! i)) \<le> 0" using sorted_le [OF assms(1)] assms(3) by simp
    moreover have "valid (fst (es ! cut_pos P es))" "valid (fst (es ! i))" using assms(1,3) c by (simp_all add: sorted_entries_def)
    ultimately have "P (fst (es ! cut_pos P es))" using assms(2) P unfolding down_def by blast
    then show False using cut_at [of P es] c assms(3) by simp
  qed
qed (rule cut_before)

lemma merged_parts:
  assumes "merged valid cmp ess ms" "i < length ess"
  shows "sorted_entries valid cmp ms" "sorted_entries valid cmp (ess ! i)" "set (ess ! i) \<subseteq> set ms"
  using assms by (auto simp: merged_def)

lemma merged_in: "merged valid cmp ess ms \<Longrightarrow> e \<in> set ms \<Longrightarrow> \<exists>i<length ess. e \<in> set (ess ! i)"
proof -
  assume "merged valid cmp ess ms" "e \<in> set ms"
  then obtain es where "es \<in> set ess" "e \<in> set es" by (auto simp: merged_def)
  then show ?thesis by (auto simp: in_set_conv_nth [of es])
qed

lemma merged_disjoint:
  assumes "merged valid cmp ess ms" "i < length ess" "j < length ess" "i \<noteq> j" "a \<in> set (ess ! i)" "b \<in> set (ess ! j)"
  shows "cmp (fst a) (fst b) \<noteq> 0"
proof -
  have v: "valid (fst a)" "valid (fst b)" using assms merged_parts [OF assms(1)] by (fastforce simp: sorted_entries_def)+
  show ?thesis
  proof (cases "i < j")
    case True
    then show ?thesis using assms by (simp add: merged_def sorted_wrt_iff_nth_less)
  next
    case False
    then have "j < i" using assms(4) by simp
    then have "cmp (fst b) (fst a) \<noteq> 0" using assms by (simp add: merged_def sorted_wrt_iff_nth_less)
    then show ?thesis using cmp_eq_sym [OF v] by simp
  qed
qed

text \<open>The first entry outside a cut, over all children.\<close>

lemma cut_first:
  assumes "sorted_entries valid cmp ms" "down valid cmp P" "cut_pos P ms < length ms" "e \<in> set ms"
  shows "P (fst e) \<longleftrightarrow> cmp (fst e) (fst (ms ! cut_pos P ms)) < 0"
proof -
  obtain i where i: "i < length ms" "e = ms ! i" using assms(4) by (auto simp: in_set_conv_nth)
  have "i < cut_pos P ms \<longleftrightarrow> cmp (fst e) (fst (ms ! cut_pos P ms)) < 0"
  proof
    show "i < cut_pos P ms \<Longrightarrow> cmp (fst e) (fst (ms ! cut_pos P ms)) < 0"
      using assms(1,3) i by (simp add: sorted_entries_def sorted_wrt_iff_nth_less)
    have "\<not> cmp (fst (ms ! i)) (fst (ms ! cut_pos P ms)) < 0" if "cut_pos P ms \<le> i"
      using sorted_le [OF assms(1) that i(1)] cmp_flip_le [of "fst (ms ! cut_pos P ms)" "fst (ms ! i)"] assms(1,3) i(1)
      by (simp add: sorted_entries_def)
    then show "cmp (fst e) (fst (ms ! cut_pos P ms)) < 0 \<Longrightarrow> i < cut_pos P ms" using i(2) by fastforce
  qed
  then show ?thesis using cut_iff [OF assms(1,2) i(1)] i(2) by simp
qed

lemma FindSmallest_law:
  assumes mg: "merged valid cmp ess ms" and P: "down valid cmp P" and n: "length (mi_children m) = length ess"
    and ch: "\<And>i. i < length ess \<Longrightarrow> w_at at (mi_children m ! i) (ess ! i) (cut_pos P (ess ! i))"
  shows "merging_at valid cmp at (FindSmallest cmp m \<lparr> mi_direction := kForward \<rparr>) ms (cut_pos P ms)"
proof -
  let ?ws = "mi_children m" and ?r = "mi_current (FindSmallest cmp m)"
  have "\<forall>w\<in>set ?ws. w_valid w \<longrightarrow> valid (w_key w)" using ch n w_at_valid_key by (metis in_set_conv_nth)
  then have l: "least_child cmp ?ws {..<length ess} ?r" using FindSmallest_least [OF key_order_axioms, of m] n by simp
  have v: "w_valid (?ws ! i) \<longleftrightarrow> cut_pos P (ess ! i) < length (ess ! i)" if "i < length ess" for i using w_at_valid [OF ch [OF that]] .
  have smp: "mi_children (FindSmallest cmp m) = ?ws" by (simp add: FindSmallest_def)
  show ?thesis
  proof (cases "cut_pos P ms < length ms")
    case False
    have "\<not> cut_pos P (ess ! i) < length (ess ! i)" if i: "i < length ess" for i
    proof
      assume c: "cut_pos P (ess ! i) < length (ess ! i)"
      then have "ess ! i ! cut_pos P (ess ! i) \<in> set ms" using merged_parts [OF mg i] by force
      then obtain q where "q < length ms" "ms ! q = ess ! i ! cut_pos P (ess ! i)" by (metis in_set_conv_nth)
      then show False using cut_at [OF c] cut_before [of q P ms] False cut_le [of P ms] by simp
    qed
    then have "?r = None" using l v unfolding least_child_def by (cases ?r) auto
    then show ?thesis unfolding merging_at_def using False mg n ch smp cut_le [of P ms] by (auto intro!: exI [of _ ess])
  next
    case True
    let ?K = "ms ! cut_pos P ms"
    have srt: "sorted_entries valid cmp ms" using mg by (simp add: merged_def)
    obtain k where k: "k < length ess" "?K \<in> set (ess ! k)" using merged_in [OF mg, of ?K] True by auto
    have notP: "\<not> P (fst ?K)" using cut_at [OF True] .
    obtain p where p: "p < length (ess ! k)" "ess ! k ! p = ?K" using k(2) by (metis in_set_conv_nth)
    have kp: "cut_pos P (ess ! k) \<le> p" using cut_iff [OF merged_parts(2) [OF mg k(1)] P p(1)] notP p(2) by simp
    have vk: "w_valid (?ws ! k)" using v [OF k(1)] kp p(1) by simp
    have keyk: "cmp (w_key (?ws ! k)) (fst ?K) \<le> 0"
      using sorted_le [OF merged_parts(2) [OF mg k(1)] kp p(1)] w_at_key [OF ch [OF k(1)]] kp p by simp
    obtain c where c: "?r = Some c" "c < length ess" "w_valid (?ws ! c)" "cmp (w_key (?ws ! c)) (w_key (?ws ! k)) \<le> 0"
      using l vk k(1) unfolding least_child_def by (cases ?r) auto
    let ?e = "ess ! c ! cut_pos P (ess ! c)"
    have cl: "cut_pos P (ess ! c) < length (ess ! c)" using v [OF c(2)] c(3) by simp
    have e: "w_key (?ws ! c) = fst ?e" "?e \<in> set (ess ! c)" "?e \<in> set ms"
      using w_at_key [OF ch [OF c(2)] cl] cl merged_parts(3) [OF mg c(2)] by auto
    have va: "valid (fst ?e)" "valid (fst ?K)" "valid (w_key (?ws ! k))"
      using srt e(3) True w_at_valid_key [OF ch [OF k(1)] vk] by (auto simp: sorted_entries_def)
    have "cmp (fst ?e) (fst ?K) \<le> 0" using cmp_trans [OF va(1,3,2)] c(4) keyk e(1) by simp
    moreover have "\<not> cmp (fst ?e) (fst ?K) < 0" using cut_first [OF srt P True e(3)] cut_at [OF cl] by simp
    ultimately have eK: "?e = ?K" using sorted_unique [OF srt e(3), of ?K] True by simp
    have "cut_pos P (ess ! i) = cut_pos (\<lambda>a. cmp a (fst ?K) < 0) (ess ! i)" if "i < length ess" for i
      using cut_first [OF srt P True] merged_parts(3) [OF mg that] by (intro cut_cong) auto
    then show ?thesis
      unfolding merging_at_def using True mg n ch smp c(1,2) e(2) eK
      by (auto intro!: exI [of _ ess] exI [of _ c] simp: child_pos_def)
  qed
qed

lemma cut_self:
  assumes "sorted_entries valid cmp es" "p < length es"
  shows "cut_pos (\<lambda>a. cmp a (fst (es ! p)) < 0) es = p" "cut_pos (\<lambda>a. cmp a (fst (es ! p)) \<le> 0) es = Suc p"
proof -
  have v: "valid (fst (es ! i))" if "i < length es" for i using assms(1) that by (simp add: sorted_entries_def)
  have lt: "cmp (fst (es ! i)) (fst (es ! j)) < 0" if "i < j" "j < length es" for i j
    using assms(1) that by (simp add: sorted_entries_def sorted_wrt_iff_nth_less)
  have "\<not> cmp (fst (es ! p)) (fst (es ! p)) < 0" using cmp_refl v assms(2) by simp
  then show "cut_pos (\<lambda>a. cmp a (fst (es ! p)) < 0) es = p"
    unfolding cut_pos_def using lt [OF _ assms(2)] assms(2) by (subst takeWhile_eq_take_P_nth [of p]) auto
  have "\<not> cmp (fst (es ! Suc p)) (fst (es ! p)) \<le> 0" if "Suc p < length es"
    using lt [OF lessI that] cmp_flip [of "fst (es ! p)" "fst (es ! Suc p)"] v that by simp
  moreover have "cmp (fst (es ! i)) (fst (es ! p)) \<le> 0" if "i < Suc p" for i using sorted_le [OF assms(1), of i p] that assms(2) by simp
  ultimately show "cut_pos (\<lambda>a. cmp a (fst (es ! p)) \<le> 0) es = Suc p"
    unfolding cut_pos_def using assms(2) by (subst takeWhile_eq_take_P_nth [of "Suc p"]) auto
qed

lemma cut_last:
  assumes "sorted_entries valid cmp ms" "down valid cmp P" "0 < cut_pos P ms" "e \<in> set ms"
  shows "P (fst e) \<longleftrightarrow> cmp (fst e) (fst (ms ! (cut_pos P ms - 1))) \<le> 0"
proof -
  let ?q = "cut_pos P ms - 1"
  have q: "?q < length ms" using assms(3) cut_le [of P ms] by simp
  have K: "P (fst (ms ! ?q))" using cut_before [of ?q P ms] assms(3) by simp
  have v: "valid (fst e)" "valid (fst (ms ! ?q))" using assms(1,4) q by (auto simp: sorted_entries_def)
  obtain i where i: "i < length ms" "e = ms ! i" using assms(4) by (auto simp: in_set_conv_nth)
  have "cmp (fst e) (fst (ms ! ?q)) \<le> 0" if "P (fst e)"
  proof -
    have "i \<le> ?q" using cut_iff [OF assms(1,2) i(1)] that i(2) by simp
    then show ?thesis using sorted_le [OF assms(1) _ q] i(2) by simp
  qed
  then show ?thesis using assms(2) K v unfolding down_def by blast
qed

lemma FindLargest_law:
  assumes mg: "merged valid cmp ess ms" and P: "down valid cmp P" and n: "length (mi_children m) = length ess"
    and ch: "\<And>i. i < length ess \<Longrightarrow> w_at at (mi_children m ! i) (ess ! i) (step_back (length (ess ! i)) (cut_pos P (ess ! i)))"
  shows "merging_at valid cmp at (FindLargest cmp m \<lparr> mi_direction := kReverse \<rparr>) ms (step_back (length ms) (cut_pos P ms))"
proof -
  let ?ws = "mi_children m" and ?r = "mi_current (FindLargest cmp m)"
  have "\<forall>w\<in>set ?ws. w_valid w \<longrightarrow> valid (w_key w)" using ch n w_at_valid_key by (metis in_set_conv_nth)
  then have l: "least_child (\<lambda>a b. - cmp a b) ?ws {..<length ess} ?r" using FindLargest_least [OF key_order_axioms, of m] n by simp
  have v: "w_valid (?ws ! i) \<longleftrightarrow> 0 < cut_pos P (ess ! i)" if "i < length ess" for i
    using w_at_valid [OF ch [OF that]] cut_le [of P "ess ! i"] by (auto simp: step_back_def)
  have smp: "mi_children (FindLargest cmp m) = ?ws" by (simp add: FindLargest_def)
  show ?thesis
  proof (cases "0 < cut_pos P ms")
    case False
    have "\<not> 0 < cut_pos P (ess ! i)" if i: "i < length ess" for i
    proof
      assume c: "0 < cut_pos P (ess ! i)"
      then have e: "ess ! i ! 0 \<in> set ms" using merged_parts(3) [OF mg i] cut_le [of P "ess ! i"] by (meson less_le_trans nth_mem subsetD)
      then have "cut_pos P ms < length ms" using False by (cases ms) auto
      then show False using cut_first [OF merged_parts(1) [OF mg i] P _ e] cut_before [OF c] False e
          cut_iff [OF merged_parts(1) [OF mg i] P] by (metis in_set_conv_nth not_gr_zero not_less_zero)
    qed
    then have "?r = None" using l v unfolding least_child_def by (cases ?r) auto
    then show ?thesis unfolding merging_at_def using False mg n ch smp by (auto intro!: exI [of _ ess] simp: step_back_def)
  next
    case True
    let ?q = "cut_pos P ms - 1"
    let ?K = "ms ! ?q"
    have q: "?q < length ms" using True cut_le [of P ms] by simp
    have srt: "sorted_entries valid cmp ms" using mg by (simp add: merged_def)
    obtain k where k: "k < length ess" "?K \<in> set (ess ! k)" using merged_in [OF mg, of ?K] q by auto
    have isP: "P (fst ?K)" using cut_before [of ?q P ms] True by simp
    obtain p where p: "p < length (ess ! k)" "ess ! k ! p = ?K" using k(2) by (metis in_set_conv_nth)
    let ?pk = "cut_pos P (ess ! k)"
    have kp: "p < ?pk" using cut_iff [OF merged_parts(2) [OF mg k(1)] P p(1)] isP p(2) by simp
    have vk: "w_valid (?ws ! k)" using v [OF k(1)] kp by simp
    have chk: "w_at at (?ws ! i) (ess ! i) (cut_pos P (ess ! i) - 1)" "cut_pos P (ess ! i) - 1 < length (ess ! i)"
      if "i < length ess" "w_valid (?ws ! i)" for i
      using ch [OF that(1)] v [OF that(1)] that(2) cut_le [of P "ess ! i"] by (auto simp: step_back_def)
    have keyk: "cmp (fst ?K) (w_key (?ws ! k)) \<le> 0"
      using sorted_le [OF merged_parts(2) [OF mg k(1)], of p "?pk - 1"] w_at_key [OF chk [OF k(1) vk]] chk(2) [OF k(1) vk] kp p(2) by simp
    obtain c where c: "?r = Some c" "c < length ess" "w_valid (?ws ! c)" "0 \<le> cmp (w_key (?ws ! c)) (w_key (?ws ! k))"
      using l vk k(1) unfolding least_child_def by (cases ?r) auto
    let ?pc = "cut_pos P (ess ! c)"
    let ?e = "ess ! c ! (?pc - 1)"
    have pc: "0 < ?pc" using v [OF c(2)] c(3) by simp
    have e: "w_key (?ws ! c) = fst ?e" "?e \<in> set (ess ! c)" "?e \<in> set ms"
      using w_at_key [OF chk [OF c(2,3)]] chk(2) [OF c(2,3)] merged_parts(3) [OF mg c(2)] by auto
    have va: "valid (fst ?e)" "valid (fst ?K)" "valid (w_key (?ws ! k))"
      using srt e(3) q w_at_valid_key [OF ch [OF k(1)] vk] by (auto simp: sorted_entries_def)
    have "cmp (w_key (?ws ! k)) (fst ?e) \<le> 0" using c(4) e(1) cmp_flip_le [OF va(3,1)] by simp
    then have "cmp (fst ?K) (fst ?e) \<le> 0" using cmp_trans [OF va(2,3,1) keyk] by simp
    moreover have "cmp (fst ?e) (fst ?K) \<le> 0" using cut_last [OF srt P True e(3)] cut_before [of "?pc - 1" P "ess ! c"] pc by simp
    ultimately have "cmp (fst ?e) (fst ?K) = 0" using cmp_flip_le [OF va(2,1)] by simp
    then have eK: "?e = ?K" using sorted_unique [OF srt e(3), of ?K] q by simp
    have "child_pos cmp kReverse (i = c) (fst ?K) (ess ! i) = step_back (length (ess ! i)) (cut_pos P (ess ! i))" if i: "i < length ess" for i
    proof (cases "i = c")
      case True
      then show ?thesis
        using cut_self(1) [OF merged_parts(2) [OF mg c(2)] chk(2) [OF c(2,3)]] eK pc by (simp add: child_pos_def step_back_def)
    next
      case False
      have "cut_pos P (ess ! i) = cut_pos (\<lambda>a. cmp a (fst ?K) < 0) (ess ! i)"
      proof (rule cut_cong)
        fix x assume x: "x \<in> set (ess ! i)"
        have "cmp (fst x) (fst ?K) \<noteq> 0" using merged_disjoint [OF mg i c(2) False x e(2)] eK by simp
        then show "P (fst x) \<longleftrightarrow> cmp (fst x) (fst ?K) < 0" using cut_last [OF srt P True, of x] merged_parts(3) [OF mg i] x by auto
      qed
      then show ?thesis using False by (simp add: child_pos_def)
    qed
    then show ?thesis
      unfolding merging_at_def using q True mg n ch smp c(1,2) e(2) eK
      by (auto intro!: exI [of _ ess] exI [of _ c] simp: step_back_def)
  qed
qed

lemma w_at_turn_forward:
  assumes "w_at at w es p" "valid K" "\<And>e. e \<in> set es \<Longrightarrow> cmp (fst e) K \<noteq> 0"
  shows "\<exists>w'. turn_forward ops cmp K w = Some w' \<and> w_at at w' es (cut_pos (\<lambda>a. cmp a K < 0) es)"
proof -
  let ?c = "cut_pos (\<lambda>a. cmp a K < 0) es"
  obtain w' where w': "Wrapper_Seek ops K w = Some w'" "w_at at w' es ?c" using w_at_moves(3) [OF assms(1,2)] by blast
  have "cmp K (w_key w') \<noteq> 0" if "w_valid w'"
  proof -
    have c: "?c < length es" using w_at_valid [OF w'(2)] that by simp
    have "valid (fst (es ! ?c))" using w_at_sorted [OF w'(2)] c by (simp add: sorted_entries_def)
    then show ?thesis using w_at_key [OF w'(2) c] assms(2,3) nth_mem [OF c] cmp_eq_sym [of K] by metis
  qed
  then show ?thesis using w' by (auto simp: turn_forward_def)
qed

lemma w_at_turn_reverse:
  assumes "w_at at w es p" "valid K"
  shows "\<exists>w'. turn_reverse ops K w = Some w' \<and> w_at at w' es (step_back (length es) (cut_pos (\<lambda>a. cmp a K < 0) es))"
proof -
  let ?c = "cut_pos (\<lambda>a. cmp a K < 0) es"
  obtain w' where w': "Wrapper_Seek ops K w = Some w'" "w_at at w' es ?c" using w_at_moves(3) [OF assms] by blast
  show ?thesis
  proof (cases "?c < length es")
    case True
    then show ?thesis using w' w_at_moves(2) [OF w'(2) True] w_at_valid [OF w'(2)] by (simp add: turn_reverse_def)
  next
    case False
    then have "?c = length es" using cut_le [of _ es] by (simp add: le_antisym)
    then show ?thesis using w' w_at_moves(5) [OF w'(2)] w_at_valid [OF w'(2)] by (simp add: turn_reverse_def)
  qed
qed

lemma turn_children_law:
  assumes n: "length ws = length ess" and keep: "w_at at (ws ! c) (ess ! c) pc"
    and turn: "\<And>i. i < length ess \<Longrightarrow> i \<noteq> c \<Longrightarrow> \<exists>w'. f (ws ! i) = Some w' \<and> w_at at w' (ess ! i) (pos i)"
  shows "\<exists>ws'. turn_children f c ws = Some ws' \<and> length ws' = length ess \<and>
    (\<forall>i<length ess. w_at at (ws' ! i) (ess ! i) (if i = c then pc else pos i))"
  unfolding turn_children_def
  using option_all_Some [of "map (\<lambda>i. if i = c then Some (ws ! i) else f (ws ! i)) [0..<length ws]"
      "\<lambda>i w. w_at at w (ess ! i) (if i = c then pc else pos i)"] n keep turn by auto

lemma move_children_law:
  assumes "length ws = length ess" "\<And>i. i < length ess \<Longrightarrow> \<exists>w'. f (ws ! i) = Some w' \<and> w_at at w' (ess ! i) (pos i)"
  shows "\<exists>ws'. option_all (map f ws) = Some ws' \<and> length ws' = length ess \<and> (\<forall>i<length ess. w_at at (ws' ! i) (ess ! i) (pos i))"
  using option_all_Some [of "map f ws" "\<lambda>i w. w_at at w (ess ! i) (pos i)"] assms by auto

lemma Find_fields [simp]:
  "FindSmallest cmp (m \<lparr> mi_direction := d, mi_children := ws \<rparr>) = FindSmallest cmp (m \<lparr> mi_children := ws \<rparr>) \<lparr> mi_direction := d \<rparr>"
  "FindLargest cmp (m \<lparr> mi_direction := d, mi_children := ws \<rparr>) = FindLargest cmp (m \<lparr> mi_children := ws \<rparr>) \<lparr> mi_direction := d \<rparr>"
  by (simp_all add: FindSmallest_def FindLargest_def)

lemma merging_children: "merging_at valid cmp at m ms j \<Longrightarrow> \<exists>ess. merged valid cmp ess ms \<and> length (mi_children m) = length ess \<and>
    (\<forall>i<length ess. \<exists>p. w_at at (mi_children m ! i) (ess ! i) p)"
  unfolding merging_at_def by (metis (full_types))

lemma merging_seek:
  assumes "merging_at valid cmp at m ms j" "valid k"
  shows "\<exists>m'. Merging_Seek ops cmp k m = Some m' \<and> merging_at valid cmp at m' ms (cut_pos (\<lambda>a. cmp a k < 0) ms)"
proof -
  obtain ess where e: "merged valid cmp ess ms" "length (mi_children m) = length ess" "\<forall>i<length ess. \<exists>p. w_at at (mi_children m ! i) (ess ! i) p"
    using merging_children [OF assms(1)] by blast
  obtain ws' where "option_all (map (Wrapper_Seek ops k) (mi_children m)) = Some ws'" "length ws' = length ess"
      "\<forall>i<length ess. w_at at (ws' ! i) (ess ! i) (cut_pos (\<lambda>a. cmp a k < 0) (ess ! i))"
    using move_children_law [OF e(2), of "Wrapper_Seek ops k" "\<lambda>i. cut_pos (\<lambda>a. cmp a k < 0) (ess ! i)"] e(3) w_at_moves(3) [OF _ assms(2)] by meson
  then show ?thesis using FindSmallest_law [OF e(1) down_less [OF assms(2)], of "m \<lparr> mi_children := ws' \<rparr>"] by (simp add: Merging_Seek_def)
qed

lemma merging_first:
  assumes "merging_at valid cmp at m ms j"
  shows "\<exists>m'. Merging_SeekToFirst ops cmp m = Some m' \<and> merging_at valid cmp at m' ms 0"
proof -
  obtain ess where e: "merged valid cmp ess ms" "length (mi_children m) = length ess" "\<forall>i<length ess. \<exists>p. w_at at (mi_children m ! i) (ess ! i) p"
    using merging_children [OF assms(1)] by blast
  have c: "cut_pos (\<lambda>_. False) es = 0" for es by (cases es) (simp_all add: cut_pos_def)
  obtain ws' where "option_all (map (Wrapper_SeekToFirst ops) (mi_children m)) = Some ws'" "length ws' = length ess"
      "\<forall>i<length ess. w_at at (ws' ! i) (ess ! i) (cut_pos (\<lambda>_. False) (ess ! i))"
    using move_children_law [OF e(2), of "Wrapper_SeekToFirst ops" "\<lambda>_. 0"] e(3) w_at_moves(4) unfolding c by meson
  then show ?thesis using FindSmallest_law [OF e(1), of "\<lambda>_. False" "m \<lparr> mi_children := ws' \<rparr>"] by (simp add: Merging_SeekToFirst_def down_def c)
qed

lemma merging_last:
  assumes "merging_at valid cmp at m ms j"
  shows "\<exists>m'. Merging_SeekToLast ops cmp m = Some m' \<and> merging_at valid cmp at m' ms (step_back (length ms) (length ms))"
proof -
  obtain ess where e: "merged valid cmp ess ms" "length (mi_children m) = length ess" "\<forall>i<length ess. \<exists>p. w_at at (mi_children m ! i) (ess ! i) p"
    using merging_children [OF assms(1)] by blast
  have c: "cut_pos (\<lambda>_. True) es = length es" for es by (induction es) (simp_all add: cut_pos_def)
  obtain ws' where "option_all (map (Wrapper_SeekToLast ops) (mi_children m)) = Some ws'" "length ws' = length ess"
      "\<forall>i<length ess. w_at at (ws' ! i) (ess ! i) (step_back (length (ess ! i)) (cut_pos (\<lambda>_. True) (ess ! i)))"
    using move_children_law [OF e(2), of "Wrapper_SeekToLast ops" "\<lambda>i. step_back (length (ess ! i)) (length (ess ! i))"] e(3) w_at_moves(5)
    unfolding c by meson
  then show ?thesis using FindLargest_law [OF e(1), of "\<lambda>_. True" "m \<lparr> mi_children := ws' \<rparr>"] by (simp add: Merging_SeekToLast_def down_def c)
qed

text \<open>The position of the current entry in the child that has it.\<close>

lemma child_entry:
  assumes "merged valid cmp ess ms" "c < length ess" "K \<in> set (ess ! c)"
  defines "p \<equiv> cut_pos (\<lambda>a. cmp a (fst K) < 0) (ess ! c)"
  shows "p < length (ess ! c)" "ess ! c ! p = K" "cut_pos (\<lambda>a. cmp a (fst K) \<le> 0) (ess ! c) = Suc p"
proof -
  obtain q where "q < length (ess ! c)" "ess ! c ! q = K" using assms(3) by (auto simp: in_set_conv_nth)
  then show "p < length (ess ! c)" "ess ! c ! p = K" "cut_pos (\<lambda>a. cmp a (fst K) \<le> 0) (ess ! c) = Suc p"
    using cut_self [OF merged_parts(2) [OF assms(1,2)]] unfolding p_def by auto
qed

lemma other_children:
  assumes "merged valid cmp ess ms" "c < length ess" "K \<in> set (ess ! c)" "i < length ess" "i \<noteq> c"
  shows "e \<in> set (ess ! i) \<Longrightarrow> cmp (fst e) (fst K) \<noteq> 0"
    "cut_pos (\<lambda>a. cmp a (fst K) \<le> 0) (ess ! i) = cut_pos (\<lambda>a. cmp a (fst K) < 0) (ess ! i)"
proof -
  show ne: "e \<in> set (ess ! i) \<Longrightarrow> cmp (fst e) (fst K) \<noteq> 0" for e using merged_disjoint [OF assms(1,4,2,5) _ assms(3)] .
  show "cut_pos (\<lambda>a. cmp a (fst K) \<le> 0) (ess ! i) = cut_pos (\<lambda>a. cmp a (fst K) < 0) (ess ! i)"
    using ne by (intro cut_cong) force
qed

text \<open>The state at a valid position.\<close>

lemma merging_at_valid:
  assumes "merging_at valid cmp at m ms j" "j < length ms"
  obtains ess c where "merged valid cmp ess ms" "length (mi_children m) = length ess" "c < length ess" "mi_current m = Some c"
    "ms ! j \<in> set (ess ! c)" "valid (fst (ms ! j))" "Merging_key m = fst (ms ! j)"
    "\<And>i. i < length ess \<Longrightarrow> w_at at (mi_children m ! i) (ess ! i) (child_pos cmp (mi_direction m) (i = c) (fst (ms ! j)) (ess ! i))"
proof -
  obtain ess c where e: "merged valid cmp ess ms" "length (mi_children m) = length ess" "c < length ess" "mi_current m = Some c"
    "ms ! j \<in> set (ess ! c)"
    "\<And>i. i < length ess \<Longrightarrow> w_at at (mi_children m ! i) (ess ! i) (child_pos cmp (mi_direction m) (i = c) (fst (ms ! j)) (ess ! i))"
    using assms by (auto simp: merging_at_def)
  have "valid (fst (ms ! j))" using merged_parts(1) [OF e(1,3)] assms(2) by (simp add: sorted_entries_def)
  moreover have "Merging_key m = fst (ms ! j)"
    using w_at_key [OF e(6) [OF e(3)]] child_entry [OF e(1,3,5)] e(4) by (simp add: Merging_key_def child_pos_def)
  ultimately show thesis using that e by blast
qed

lemma merging_next:
  assumes "merging_at valid cmp at m ms j" "j < length ms"
  shows "\<exists>m'. Merging_Next ops cmp m = Some m' \<and> merging_at valid cmp at m' ms (Suc j)"
proof -
  obtain ess c where e: "merged valid cmp ess ms" "length (mi_children m) = length ess" "c < length ess" "mi_current m = Some c"
    "ms ! j \<in> set (ess ! c)" "valid (fst (ms ! j))" "Merging_key m = fst (ms ! j)"
    "\<And>i. i < length ess \<Longrightarrow> w_at at (mi_children m ! i) (ess ! i) (child_pos cmp (mi_direction m) (i = c) (fst (ms ! j)) (ess ! i))"
    using merging_at_valid [OF assms] by blast
  let ?K = "fst (ms ! j)" and ?pos = "\<lambda>i. cut_pos (\<lambda>a. cmp a (fst (ms ! j)) < 0) (ess ! i)"
  note other = other_children [OF e(1,3,5)] and cur = child_entry [OF e(1,3,5)]
  have cw: "w_at at (mi_children m ! c) (ess ! c) (?pos c)" using e(8) [OF e(3)] by (simp add: child_pos_def)
  have turned: "\<exists>ws. (if mi_direction m \<noteq> kForward then turn_children (turn_forward ops cmp (Merging_key m)) c (mi_children m) else Some (mi_children m)) = Some ws \<and>
      length ws = length ess \<and> (\<forall>i<length ess. w_at at (ws ! i) (ess ! i) (?pos i))"
  proof (cases "mi_direction m = kForward")
    case True
    then show ?thesis using e(2,8) by (auto simp: child_pos_def)
  next
    case False
    have "\<exists>w'. turn_forward ops cmp ?K (mi_children m ! i) = Some w' \<and> w_at at w' (ess ! i) (?pos i)" if "i < length ess" "i \<noteq> c" for i
      using w_at_turn_forward [OF e(8) [OF that(1)] e(6)] other(1) [OF that] by blast
    from turn_children_law [OF e(2) cw this] show ?thesis using False e(7) by (auto split: if_splits)
  qed
  then obtain ws where ws: "(if mi_direction m \<noteq> kForward then turn_children (turn_forward ops cmp (Merging_key m)) c (mi_children m) else Some (mi_children m)) = Some ws"
    "length ws = length ess" "\<forall>i<length ess. w_at at (ws ! i) (ess ! i) (?pos i)" by blast
  obtain w where w: "Wrapper_Next ops (ws ! c) = Some w" "w_at at w (ess ! c) (Suc (?pos c))"
    using w_at_moves(1) [of "ws ! c" "ess ! c" "?pos c"] ws(3) e(3) cur(1) by blast
  have "w_at at (ws [c := w] ! i) (ess ! i) (cut_pos (\<lambda>a. cmp a ?K \<le> 0) (ess ! i))" if "i < length ess" for i
    using w(2) ws(2,3) that e(3) cur(3) other(2) [OF that] by (cases "i = c") simp_all
  then have "merging_at valid cmp at (FindSmallest cmp (m \<lparr> mi_children := ws [c := w] \<rparr>) \<lparr> mi_direction := kForward \<rparr>) ms (Suc j)"
    using FindSmallest_law [OF e(1) down_le [OF e(6)], of "m \<lparr> mi_children := ws [c := w] \<rparr>"] ws(2)
      cut_self(2) [OF merged_parts(1) [OF e(1,3)] assms(2)] by simp
  then show ?thesis using e(4) ws(1) w(1) by (simp add: Merging_Next_def)
qed

lemma merging_prev:
  assumes "merging_at valid cmp at m ms j" "j < length ms"
  shows "\<exists>m'. Merging_Prev ops cmp m = Some m' \<and> merging_at valid cmp at m' ms (step_back (length ms) j)"
proof -
  obtain ess c where e: "merged valid cmp ess ms" "length (mi_children m) = length ess" "c < length ess" "mi_current m = Some c"
    "ms ! j \<in> set (ess ! c)" "valid (fst (ms ! j))" "Merging_key m = fst (ms ! j)"
    "\<And>i. i < length ess \<Longrightarrow> w_at at (mi_children m ! i) (ess ! i) (child_pos cmp (mi_direction m) (i = c) (fst (ms ! j)) (ess ! i))"
    using merging_at_valid [OF assms] by blast
  let ?K = "fst (ms ! j)" and ?pos = "\<lambda>i. cut_pos (\<lambda>a. cmp a (fst (ms ! j)) < 0) (ess ! i)"
  note cur = child_entry [OF e(1,3,5)]
  have cw: "w_at at (mi_children m ! c) (ess ! c) (?pos c)" using e(8) [OF e(3)] by (simp add: child_pos_def)
  have turned: "\<exists>ws. (if mi_direction m \<noteq> kReverse then turn_children (turn_reverse ops (Merging_key m)) c (mi_children m) else Some (mi_children m)) = Some ws \<and>
      length ws = length ess \<and> (\<forall>i<length ess. w_at at (ws ! i) (ess ! i) (if i = c then ?pos c else step_back (length (ess ! i)) (?pos i)))"
  proof (cases "mi_direction m = kReverse")
    case True
    have "w_at at (mi_children m ! i) (ess ! i) (if i = c then ?pos c else step_back (length (ess ! i)) (?pos i))" if "i < length ess" for i
      using e(8) [OF that] True by (cases "i = c") (simp_all add: child_pos_def Let_def)
    then show ?thesis using e(2) True by simp
  next
    case False
    have "\<exists>w'. turn_reverse ops ?K (mi_children m ! i) = Some w' \<and> w_at at w' (ess ! i) (step_back (length (ess ! i)) (?pos i))" if "i < length ess" "i \<noteq> c" for i
      using w_at_turn_reverse [OF e(8) [OF that(1)] e(6)] by blast
    from turn_children_law [OF e(2) cw this] show ?thesis using False e(7) by simp
  qed
  then obtain ws where ws: "(if mi_direction m \<noteq> kReverse then turn_children (turn_reverse ops (Merging_key m)) c (mi_children m) else Some (mi_children m)) = Some ws"
    "length ws = length ess" "\<And>i. i < length ess \<Longrightarrow> w_at at (ws ! i) (ess ! i) (if i = c then ?pos c else step_back (length (ess ! i)) (?pos i))" by blast
  obtain w where w: "Wrapper_Prev ops (ws ! c) = Some w" "w_at at w (ess ! c) (step_back (length (ess ! c)) (?pos c))"
    using w_at_moves(2) [of "ws ! c" "ess ! c" "?pos c"] ws(3) [OF e(3)] cur(1) by auto
  have "w_at at (ws [c := w] ! i) (ess ! i) (step_back (length (ess ! i)) (?pos i))" if "i < length ess" for i
    using w(2) ws(2) ws(3) [OF that] that e(3) by (cases "i = c") simp_all
  then have "merging_at valid cmp at (FindLargest cmp (m \<lparr> mi_children := ws [c := w] \<rparr>) \<lparr> mi_direction := kReverse \<rparr>) ms (step_back (length ms) j)"
    using FindLargest_law [OF e(1) down_less [OF e(6)], of "m \<lparr> mi_children := ws [c := w] \<rparr>"] ws(2)
      cut_self(1) [OF merged_parts(1) [OF e(1,3)] assms(2)] by simp
  then show ?thesis using e(4) ws(1) w(1) by (simp add: Merging_Prev_def)
qed

lemma merging_value:
  assumes "merging_at valid cmp at m ms j" "j < length ms"
  shows "Merging_value ops m = Some (snd (ms ! j))"
proof -
  obtain ess c where e: "merged valid cmp ess ms" "length (mi_children m) = length ess" "c < length ess" "mi_current m = Some c"
    "ms ! j \<in> set (ess ! c)"
    "\<And>i. i < length ess \<Longrightarrow> w_at at (mi_children m ! i) (ess ! i) (child_pos cmp (mi_direction m) (i = c) (fst (ms ! j)) (ess ! i))"
    using merging_at_valid [OF assms] by metis
  obtain i where "w_iter (mi_children m ! c) = Some i" "at i (ess ! c) (cut_pos (\<lambda>a. cmp a (fst (ms ! j)) < 0) (ess ! c))"
    using e(6) [OF e(3)] by (auto simp: w_at_def child_pos_def)
  then show ?thesis using at_value child_entry [OF e(1,3,5)] e(4) by (simp add: Merging_value_def Wrapper_value_def)
qed

lemma status_loop_ok: "\<forall>w\<in>set ws. \<exists>es j. w_at at w es j \<Longrightarrow> Merging_status_loop ops ws Status_OK = Some Status_OK"
proof (induction ws)
  case (Cons w ws)
  then obtain es j i where "w_iter w = Some i" "at i es j" by (auto simp: w_at_def)
  then have "Wrapper_status ops w = Some Status_OK" using at_status by (simp add: Wrapper_status_def)
  then show ?case using Cons by (simp add: Status_ok_def Status_OK_def)
qed simp

lemma merging_status: "merging_at valid cmp at m ms j \<Longrightarrow> Merging_status ops m = Some Status_OK"
  unfolding Merging_status_def using merging_children status_loop_ok by (metis in_set_conv_nth)

lemma merging_cursor: "cursor valid cmp (merging_ops ops cmp) (merging_at valid cmp at)"
proof unfold_locales
  fix m ms j assume m: "merging_at valid cmp at m ms j"
  show "sorted_entries valid cmp ms" "j \<le> length ms" using m by (auto simp: merging_at_def merged_def)
  show "io_Valid (merging_ops ops cmp) m = (j < length ms)" using m by (auto simp: merging_at_def merging_ops_def Merging_Valid_def split: if_splits)
  show "io_status (merging_ops ops cmp) m = Status_OK" using merging_status [OF m] by (simp add: merging_ops_def)
  show "\<exists>i'. io_SeekToFirst (merging_ops ops cmp) m = Some i' \<and> merging_at valid cmp at i' ms 0"
    using merging_first [OF m] by (simp add: merging_ops_def)
  show "\<exists>i'. io_SeekToLast (merging_ops ops cmp) m = Some i' \<and> merging_at valid cmp at i' ms (step_back (length ms) (length ms))"
    using merging_last [OF m] by (simp add: merging_ops_def)
  show "\<exists>i'. io_Seek (merging_ops ops cmp) k m = Some i' \<and> merging_at valid cmp at i' ms (cut_pos (\<lambda>a. cmp a k < 0) ms)" if "valid k" for k
    using merging_seek [OF m that] by (simp add: merging_ops_def)
  assume j: "j < length ms"
  show "io_key (merging_ops ops cmp) m = fst (ms ! j)" using merging_at_valid [OF m j] by (metis (no_types) merging_ops_def iter_ops.select_convs(2))
  show "io_value (merging_ops ops cmp) m = snd (ms ! j)" using merging_value [OF m j] by (simp add: merging_ops_def)
  show "\<exists>i'. io_Next (merging_ops ops cmp) m = Some i' \<and> merging_at valid cmp at i' ms (Suc j)"
    using merging_next [OF m j] by (simp add: merging_ops_def)
  show "\<exists>i'. io_Prev (merging_ops ops cmp) m = Some i' \<and> merging_at valid cmp at i' ms (step_back (length ms) j)"
    using merging_prev [OF m j] by (simp add: merging_ops_def)
qed

lemma merging_new:
  assumes "merged valid cmp ess ms" "length cs = length ess" "\<And>i. i < length ess \<Longrightarrow> \<exists>p. at (cs ! i) (ess ! i) p"
  shows "\<exists>m. Merging_new ops cs = Some m \<and> merging_at valid cmp at m ms (length ms)"
proof -
  have "\<exists>w. Wrapper_Set ops Wrapper_new (Some (cs ! i)) = Some w \<and> (\<exists>p. w_at at w (ess ! i) p)" if i: "i < length ess" for i
    using assms(3) [OF i] w_at_update [of "cs ! i" "ess ! i" _ Wrapper_new] unfolding Wrapper_Set_def Let_def option.case by blast
  then have "\<exists>ws. option_all (map (\<lambda>i. Wrapper_Set ops Wrapper_new (Some i)) cs) = Some ws \<and> length ws = length cs \<and>
      (\<forall>i<length cs. \<exists>p. w_at at (ws ! i) (ess ! i) p)"
    using option_all_Some [of "map (\<lambda>i. Wrapper_Set ops Wrapper_new (Some i)) cs" "\<lambda>i w. \<exists>p. w_at at w (ess ! i) p"] assms(2) by auto
  then show ?thesis using assms(1,2) by (auto simp: Merging_new_def merging_at_def)
qed

end

subsection \<open>Scanning\<close>

text \<open>The entries a client sees that moves a valid iterator on until it is no longer valid.\<close>

partial_function (option) iter_scan :: "'i iter_ops \<Rightarrow> ('i \<Rightarrow> 'i option) \<Rightarrow> 'i \<Rightarrow> entries option" where
  "iter_scan ops step i =
     (if io_Valid ops i
      then Option.bind (step i) (\<lambda>i'. Option.bind (iter_scan ops step i') (\<lambda>es. Some ((io_key ops i, io_value ops i) # es)))
      else Some [])"

context cursor
begin

lemma scan_forward:
  assumes "at i es j"
  shows "iter_scan ops (io_Next ops) i = Some (drop j es)"
  using assms
proof (induction "length es - j" arbitrary: i j)
  case 0
  then show ?case using at_valid [OF 0(2)] by (simp add: iter_scan.simps)
next
  case (Suc n)
  then have j: "j < length es" by simp
  obtain i' where i': "io_Next ops i = Some i'" "at i' es (Suc j)" using at_next [OF Suc.prems j] by blast
  then have "iter_scan ops (io_Next ops) i' = Some (drop (Suc j) es)" using Suc.hyps by simp
  then show ?case
    using at_valid [OF Suc.prems] at_key [OF Suc.prems j] at_value [OF Suc.prems j] i'(1) j
    by (simp add: iter_scan.simps [of _ _ i] flip: Cons_nth_drop_Suc)
qed

lemma scan_backward:
  assumes "at i es j" "j < length es"
  shows "iter_scan ops (io_Prev ops) i = Some (rev (take (Suc j) es))"
  using assms
proof (induction j arbitrary: i)
  case (0 i)
  obtain i' where i': "io_Prev ops i = Some i'" "at i' es (length es)" using at_prev [OF 0] by (auto simp: step_back_def)
  then have "iter_scan ops (io_Prev ops) i' = Some []" using at_valid [OF i'(2)] by (simp add: iter_scan.simps)
  then show ?case using at_valid [OF 0(1)] at_key [OF 0] at_value [OF 0] i'(1) 0(2) by (simp add: iter_scan.simps [of _ _ i] take_Suc_conv_app_nth)
next
  case (Suc j i)
  obtain i' where i': "io_Prev ops i = Some i'" "at i' es j" using at_prev [OF Suc.prems] by (auto simp: step_back_def)
  then have "iter_scan ops (io_Prev ops) i' = Some (rev (take (Suc j) es))" using Suc by simp
  then show ?case
    using at_valid [OF Suc.prems(1)] at_key [OF Suc.prems] at_value [OF Suc.prems] i'(1) Suc.prems(2)
    by (simp add: iter_scan.simps [of _ _ i] take_Suc_conv_app_nth [of "Suc j"])
qed

lemma scans:
  assumes "at i es j" "valid k"
  shows "Option.bind (io_SeekToFirst ops i) (iter_scan ops (io_Next ops)) = Some es"
    "Option.bind (io_SeekToLast ops i) (iter_scan ops (io_Prev ops)) = Some (rev es)"
    "Option.bind (io_Seek ops k i) (iter_scan ops (io_Next ops)) = Some (dropWhile (\<lambda>e. cmp (fst e) k < 0) es)"
proof -
  show "Option.bind (io_SeekToFirst ops i) (iter_scan ops (io_Next ops)) = Some es"
    using at_first [OF assms(1)] scan_forward by fastforce
  obtain i' where i': "io_SeekToLast ops i = Some i'" "at i' es (step_back (length es) (length es))" using at_last [OF assms(1)] by blast
  show "Option.bind (io_SeekToLast ops i) (iter_scan ops (io_Prev ops)) = Some (rev es)"
  proof (cases "es = []")
    case True
    then show ?thesis using i' at_valid [OF i'(2)] by (simp add: iter_scan.simps)
  next
    case False
    then show ?thesis using i' scan_backward [of i' es "length es - 1"] by (simp add: step_back_def)
  qed
  have "drop (cut_pos (\<lambda>a. cmp a k < 0) es) es = dropWhile (\<lambda>e. cmp (fst e) k < 0) es"
    by (simp add: cut_pos_def dropWhile_eq_drop comp_def)
  then show "Option.bind (io_Seek ops k i) (iter_scan ops (io_Next ops)) = Some (dropWhile (\<lambda>e. cmp (fst e) k < 0) es)"
    using at_seek [OF assms] scan_forward by fastforce
qed

end

end
