(* ===== verification/Block.thy ===== *)
theory Block
  imports KeyOrder Status
begin

text \<open>
  Sorted blocks with prefix-compressed keys: \<open>table/block_builder.cc\<close> and \<open>table/block.cc\<close>. Offsets
  into a block are naturals, narrowed to 32 bits where the code stores them in a \<open>uint32_t\<close>. A pointer
  into the block is its offset; reading bytes outside the block is the result \<open>None\<close>.
\<close>

subsection \<open>Builder\<close>

record BlockBuilder =
  bb_interval :: nat
  bb_buffer :: slice
  bb_restarts :: "uint32 list"
  bb_counter :: nat
  bb_finished :: bool
  bb_last_key :: slice

definition BlockBuilder_new :: "nat \<Rightarrow> BlockBuilder" where
  "BlockBuilder_new interval = \<lparr> bb_interval = interval, bb_buffer = [], bb_restarts = [0], bb_counter = 0,
     bb_finished = False, bb_last_key = [] \<rparr>"

definition BlockBuilder_Reset :: "BlockBuilder \<Rightarrow> BlockBuilder" where
  "BlockBuilder_Reset b = b \<lparr> bb_buffer := [], bb_restarts := [0], bb_counter := 0, bb_finished := False, bb_last_key := [] \<rparr>"

definition BlockBuilder_CurrentSizeEstimate :: "BlockBuilder \<Rightarrow> nat" where
  "BlockBuilder_CurrentSizeEstimate b = length (bb_buffer b) + length (bb_restarts b) * 4 + 4"

definition BlockBuilder_Finish :: "BlockBuilder \<Rightarrow> BlockBuilder \<times> slice" where
  "BlockBuilder_Finish b =
     (let buf = PutFixed32 (fold (\<lambda>r buf. PutFixed32 buf r) (bb_restarts b) (bb_buffer b))
                  (word_of_nat (length (bb_restarts b)))
      in (b \<lparr> bb_buffer := buf, bb_finished := True \<rparr>, buf))"

definition BlockBuilder_Add :: "BlockBuilder \<Rightarrow> slice \<Rightarrow> slice \<Rightarrow> BlockBuilder" where
  "BlockBuilder_Add b key val =
     (let share = bb_counter b < bb_interval b;
          shared = (if share then shared_prefix (bb_last_key b) key else 0);
          restarts = (if share then bb_restarts b else bb_restarts b @ [word_of_nat (length (bb_buffer b))]);
          counter = (if share then bb_counter b else 0);
          non_shared = length key - shared;
          buf = PutVarint32 (PutVarint32 (PutVarint32 (bb_buffer b) (word_of_nat shared)) (word_of_nat non_shared))
                  (word_of_nat (length val))
      in b \<lparr> bb_buffer := buf @ take non_shared (drop shared key) @ val,
             bb_restarts := restarts,
             bb_last_key := take shared (bb_last_key b) @ take non_shared (drop shared key),
             bb_counter := counter + 1 \<rparr>)"

subsection \<open>Block and its iterator\<close>

definition NumRestarts :: "slice \<Rightarrow> uint32" where
  "NumRestarts data = DecodeFixed32 (drop (length data - 4) data)"

text \<open>\<open>Block::Block\<close>: the accepted size (0 marks an error) and the offset of the restart array.\<close>

definition Block_make :: "slice \<Rightarrow> nat \<times> nat" where
  "Block_make data =
     (if length data < 4 then (0, 0)
      else let max_restarts_allowed = (length data - 4) div 4
           in if unat (NumRestarts data) > max_restarts_allowed then (0, 0)
              else (length data, unat (word_of_nat (length data - unat (1 + NumRestarts data) * 4) :: uint32)))"

text \<open>\<open>DecodeEntry\<close> on the bytes from \<open>p\<close> to \<open>limit\<close>; the result keeps the bytes behind the three
  numbers. The sum of the two lengths is 32-bit.\<close>

definition DecodeEntry :: "slice \<Rightarrow> (uint32 \<times> uint32 \<times> uint32 \<times> slice) option" where
  "DecodeEntry p =
     (if length p < 3 then None
      else let a = ucast (p ! 0) :: uint32; b = ucast (p ! 1) :: uint32; c = ucast (p ! 2) :: uint32
           in case (if a OR b OR c < 128 then Some (a, b, c, drop 3 p)
                    else case GetVarint32Ptr p of None \<Rightarrow> None | Some (shared, p1) \<Rightarrow>
                      (case GetVarint32Ptr p1 of None \<Rightarrow> None | Some (non_shared, p2) \<Rightarrow>
                        (case GetVarint32Ptr p2 of None \<Rightarrow> None | Some (value_length, p3) \<Rightarrow>
                           Some (shared, non_shared, value_length, p3)))) of
                None \<Rightarrow> None
              | Some (shared, non_shared, value_length, q) \<Rightarrow>
                  if (word_of_nat (length q) :: uint32) < non_shared + value_length then None
                  else Some (shared, non_shared, value_length, q))"

record BlockIter =
  bi_data :: slice
  bi_restarts :: nat
  bi_num_restarts :: nat
  bi_current :: nat
  bi_restart_index :: nat
  bi_key :: slice
  bi_value :: "nat \<times> nat"
  bi_status :: status

definition BlockIter_new :: "slice \<Rightarrow> nat \<Rightarrow> nat \<Rightarrow> BlockIter" where
  "BlockIter_new data restarts num_restarts =
     \<lparr> bi_data = data, bi_restarts = restarts, bi_num_restarts = num_restarts, bi_current = restarts,
       bi_restart_index = num_restarts, bi_key = [], bi_value = (0, 0), bi_status = Status_OK \<rparr>"

definition BlockIter_Valid :: "BlockIter \<Rightarrow> bool" where
  "BlockIter_Valid it \<longleftrightarrow> bi_current it < bi_restarts it"

definition BlockIter_value :: "BlockIter \<Rightarrow> slice" where
  "BlockIter_value it = take (snd (bi_value it)) (drop (fst (bi_value it)) (bi_data it))"

definition NextEntryOffset :: "BlockIter \<Rightarrow> nat" where
  "NextEntryOffset it = unat (word_of_nat (fst (bi_value it) + snd (bi_value it)) :: uint32)"

definition GetRestartPoint :: "BlockIter \<Rightarrow> nat \<Rightarrow> nat" where
  "GetRestartPoint it index = unat (DecodeFixed32 (drop (bi_restarts it + index * 4) (bi_data it)))"

definition SeekToRestartPoint :: "BlockIter \<Rightarrow> nat \<Rightarrow> BlockIter" where
  "SeekToRestartPoint it index =
     it \<lparr> bi_key := [], bi_restart_index := index, bi_value := (GetRestartPoint it index, 0) \<rparr>"

definition BlockIter_CorruptionError :: "BlockIter \<Rightarrow> BlockIter" where
  "BlockIter_CorruptionError it =
     it \<lparr> bi_current := bi_restarts it, bi_restart_index := bi_num_restarts it,
          bi_status := Status_Corruption (str ''bad entry in block'') [], bi_key := [], bi_value := (0, 0) \<rparr>"

text \<open>The loop that advances \<open>restart_index_\<close>.\<close>

function advance_restart :: "BlockIter \<Rightarrow> nat \<Rightarrow> nat \<Rightarrow> nat" where
  "advance_restart it current index =
     (if index + 1 < bi_num_restarts it \<and> GetRestartPoint it (index + 1) < current
      then advance_restart it current (index + 1) else index)"
  by pat_completeness auto
termination
  by (relation "measure (\<lambda>(it, _, index). bi_num_restarts it - index)") auto

declare advance_restart.simps [simp del]

text \<open>\<open>ParseNextKey\<close>: \<open>None\<close> when the key bytes it copies are not inside the block.\<close>

definition ParseNextKey :: "BlockIter \<Rightarrow> (BlockIter \<times> bool) option" where
  "ParseNextKey it0 =
     (let it = it0 \<lparr> bi_current := NextEntryOffset it0 \<rparr>; p = bi_current it; limit = bi_restarts it
      in if p \<ge> limit then
           Some (it \<lparr> bi_current := bi_restarts it, bi_restart_index := bi_num_restarts it \<rparr>, False)
         else case DecodeEntry (take (limit - p) (drop p (bi_data it))) of
                None \<Rightarrow> Some (BlockIter_CorruptionError it, False)
              | Some (shared, non_shared, value_length, q) \<Rightarrow>
                  if length (bi_key it) < unat shared then Some (BlockIter_CorruptionError it, False)
                  else let pos = limit - length q
                       in if length (bi_data it) < pos + unat non_shared then None
                          else Some (it \<lparr> bi_key := take (unat shared) (bi_key it) @
                                        take (unat non_shared) (drop pos (bi_data it)),
                                      bi_value := (pos + unat non_shared, unat value_length),
                                      bi_restart_index := advance_restart it (bi_current it) (bi_restart_index it) \<rparr>,
                                True))"

definition BlockIter_Next :: "BlockIter \<Rightarrow> BlockIter option" where
  "BlockIter_Next it = map_option fst (ParseNextKey it)"

definition BlockIter_SeekToFirst :: "BlockIter \<Rightarrow> BlockIter option" where
  "BlockIter_SeekToFirst it = map_option fst (ParseNextKey (SeekToRestartPoint it 0))"

text \<open>The forward loops; \<open>None\<close> also stands for a loop that never ends.\<close>

partial_function (option) parse_until :: "(BlockIter \<Rightarrow> bool) \<Rightarrow> BlockIter \<Rightarrow> BlockIter option" where
  "parse_until stop it =
     (case ParseNextKey it of None \<Rightarrow> None
      | Some (it1, ok) \<Rightarrow> if \<not> ok \<or> stop it1 then Some it1 else parse_until stop it1)"

definition BlockIter_SeekToLast :: "BlockIter \<Rightarrow> BlockIter option" where
  "BlockIter_SeekToLast it =
     parse_until (\<lambda>it. \<not> NextEntryOffset it < bi_restarts it) (SeekToRestartPoint it (bi_num_restarts it - 1))"

fun prev_restart :: "BlockIter \<Rightarrow> nat \<Rightarrow> nat \<Rightarrow> nat option" where
  "prev_restart it original 0 = (if GetRestartPoint it 0 \<ge> original then None else Some 0)"
| "prev_restart it original (Suc i) =
     (if GetRestartPoint it (Suc i) \<ge> original then prev_restart it original i else Some (Suc i))"

definition BlockIter_Prev :: "BlockIter \<Rightarrow> BlockIter option" where
  "BlockIter_Prev it =
     (let original = bi_current it
      in case prev_restart it original (bi_restart_index it) of
           None \<Rightarrow> Some (it \<lparr> bi_current := bi_restarts it, bi_restart_index := bi_num_restarts it \<rparr>)
         | Some i \<Rightarrow> parse_until (\<lambda>it. \<not> NextEntryOffset it < original) (SeekToRestartPoint it i))"

text \<open>The binary search over the restart array: \<open>Inl\<close> after a corruption, \<open>Inr left\<close> otherwise.\<close>

function Seek_restarts :: "(slice \<Rightarrow> slice \<Rightarrow> int) \<Rightarrow> BlockIter \<Rightarrow> slice \<Rightarrow> nat \<Rightarrow> nat \<Rightarrow> (BlockIter + nat) option" where
  "Seek_restarts cmp it target left right =
     (if left < right then
        let mid = (left + right + 1) div 2;
            region_offset = GetRestartPoint it mid
        in case DecodeEntry (take (bi_restarts it - region_offset) (drop region_offset (bi_data it))) of
             None \<Rightarrow> Some (Inl (BlockIter_CorruptionError it))
           | Some (shared, non_shared, value_length, q) \<Rightarrow>
               if shared \<noteq> 0 then Some (Inl (BlockIter_CorruptionError it))
               else let pos = bi_restarts it - length q
                    in if length (bi_data it) < pos + unat non_shared then None
                       else if cmp (take (unat non_shared) (drop pos (bi_data it))) target < 0
                            then Seek_restarts cmp it target mid right
                            else Seek_restarts cmp it target left (mid - 1)
      else Some (Inr left))"
  by pat_completeness auto
termination
  by (relation "measure (\<lambda>(_, _, _, left, right). right - left)") auto

declare Seek_restarts.simps [simp del]

definition BlockIter_Seek :: "(slice \<Rightarrow> slice \<Rightarrow> int) \<Rightarrow> BlockIter \<Rightarrow> slice \<Rightarrow> BlockIter option" where
  "BlockIter_Seek cmp it target =
     (case Seek_restarts cmp it target 0 (bi_num_restarts it - 1) of
        None \<Rightarrow> None
      | Some (Inl it1) \<Rightarrow> Some it1
      | Some (Inr left) \<Rightarrow> parse_until (\<lambda>it. cmp (bi_key it) target \<ge> 0) (SeekToRestartPoint it left))"

text \<open>What \<open>NewIterator\<close> returns: an iterator that only carries a status, or one over the block.\<close>

definition Block_NewIterator :: "slice \<Rightarrow> status + BlockIter" where
  "Block_NewIterator data =
     (case Block_make data of (block_size, restart_offset) \<Rightarrow>
        if block_size < 4 then Inl (Status_Corruption (str ''bad block contents'') [])
        else if NumRestarts data = 0 then Inl Status_OK
        else Inr (BlockIter_new data restart_offset (unat (NumRestarts data))))"


subsection \<open>Entries\<close>

text \<open>The fast path of \<open>DecodeEntry\<close> gives what the three varint reads give.\<close>

lemma fast_path_bytes:
  assumes "(ucast (x :: byte) OR ucast y OR ucast z :: uint32) < 128"
  shows "(ucast x :: uint32) AND 128 = 0" "(ucast y :: uint32) AND 128 = 0" "(ucast z :: uint32) AND 128 = 0"
proof -
  have "bit (ucast x OR ucast y OR ucast z :: uint32) n \<Longrightarrow> n < 7" for n
    using assms by (intro bit_bound [of "ucast x OR ucast y OR ucast z :: uint32" 7]) (simp_all add: word_less_nat_alt)
  from this [of 7] have "\<not> bit x 7" "\<not> bit y 7" "\<not> bit z 7" by (auto simp: bit_simps)
  then show "(ucast x :: uint32) AND 128 = 0" "(ucast y :: uint32) AND 128 = 0" "(ucast z :: uint32) AND 128 = 0"
    by (auto intro!: bit_word_eqI simp: bit_simps bit_consts)
qed

lemma GetVarint32Ptr_byte: "(ucast c :: uint32) AND 128 = 0 \<Longrightarrow> GetVarint32Ptr (c # rest) = Some (ucast c, rest)"
  by (simp add: GetVarint32Ptr_def)

lemma DecodeEntry_slow:
  assumes "3 \<le> length p"
  shows "DecodeEntry p =
    (case GetVarint32Ptr p of None \<Rightarrow> None | Some (shared, p1) \<Rightarrow>
       (case GetVarint32Ptr p1 of None \<Rightarrow> None | Some (non_shared, p2) \<Rightarrow>
         (case GetVarint32Ptr p2 of None \<Rightarrow> None | Some (value_length, q) \<Rightarrow>
            if (word_of_nat (length q) :: uint32) < non_shared + value_length then None
            else Some (shared, non_shared, value_length, q))))"
proof -
  obtain x y z q where p: "p = x # y # z # q"
    using assms by (auto simp: numeral_eq_Suc Suc_le_length_iff)
  show ?thesis
  proof (cases "(ucast x OR ucast y OR ucast z :: uint32) < 128")
    case True
    then show ?thesis using p fast_path_bytes [OF True] by (simp add: DecodeEntry_def GetVarint32Ptr_byte)
  next
    case False
    then show ?thesis using p by (simp add: DecodeEntry_def split: option.splits prod.splits)
  qed
qed

definition entry_bytes :: "nat \<times> slice \<times> slice \<Rightarrow> slice" where
  "entry_bytes e = (case e of (shared, key, val) \<Rightarrow>
     EncodeVarint32 (word_of_nat shared) @ EncodeVarint32 (word_of_nat (length key - shared)) @
     EncodeVarint32 (word_of_nat (length val)) @ drop shared key @ val)"

lemma length_entry_bytes: "3 \<le> length (entry_bytes e)"
proof -
  have "0 < length (EncodeVarint32 v)" for v by simp
  from this [of "word_of_nat (fst e)"] this [of "word_of_nat (length (fst (snd e)) - fst e)"]
    this [of "word_of_nat (length (snd (snd e)))"]
  show ?thesis unfolding entry_bytes_def case_prod_unfold length_append by linarith
qed

lemma DecodeEntry_entry:
  assumes "length (entry_bytes (shared, key, val) @ rest) < 2 ^ 32" "shared \<le> length key"
  shows "DecodeEntry (entry_bytes (shared, key, val) @ rest) =
    Some (word_of_nat shared, word_of_nat (length key - shared), word_of_nat (length val), drop shared key @ val @ rest)"
proof -
  have "3 \<le> length (entry_bytes (shared, key, val) @ rest)" using length_entry_bytes [of "(shared, key, val)"] by simp
  moreover have "\<not> (word_of_nat (length (drop shared key @ val @ rest)) :: uint32) <
      word_of_nat (length key - shared) + word_of_nat (length val)"
  proof -
    have "length (drop shared key @ val @ rest) < 2 ^ 32" using assms(1) by (simp add: entry_bytes_def)
    then show ?thesis
      by (simp add: word_less_nat_alt unat_word_of_nat flip: of_nat_add)
  qed
  ultimately show ?thesis
    by (simp add: DecodeEntry_slow entry_bytes_def GetVarint32Ptr_Encode)
qed

end
