(* ===== verification/BlockCorrect.thy ===== *)
theory BlockCorrect
  imports Block
begin

text \<open>
  Correctness of blocks: what an iterator of \<open>table/block.cc\<close> does on a block whose bytes hold a list of
  entries (\<open>block_layout\<close>), that the blocks of \<open>table/block_builder.cc\<close> are such blocks, and the two put
  together: the iterator over a finished block behaves as a cursor over the list that was added.
\<close>

subsection \<open>Blocks that hold a list of entries\<close>

text \<open>The entry at offset \<open>o1\<close> decodes to \<open>kv\<close> when the key before it is \<open>prev\<close>, and ends at \<open>o2\<close>.\<close>

definition entry_at :: "slice \<Rightarrow> nat \<Rightarrow> nat \<Rightarrow> slice \<Rightarrow> slice \<times> slice \<Rightarrow> nat \<Rightarrow> bool" where
  "entry_at data limit o1 prev kv o2 \<longleftrightarrow> o1 < o2 \<and> o2 \<le> limit \<and>
     (\<exists>shared non_shared value_length q.
        DecodeEntry (take (limit - o1) (drop o1 data)) = Some (shared, non_shared, value_length, q) \<and>
        q = drop (limit - length q) (take limit data) \<and> length q \<le> limit \<and> unat shared \<le> length prev \<and>
        limit - length q + unat non_shared + unat value_length = o2 \<and>
        fst kv = take (unat shared) prev @ take (unat non_shared) q \<and>
        snd kv = take (unat value_length) (drop (unat non_shared) q))"

text \<open>A block that holds the entries \<open>kvs\<close>: \<open>offs\<close> are their offsets (the last one is the end), \<open>ns\<close> the
  indices of the entries the restart array points to.\<close>

locale block_layout =
  fixes data :: slice and limit :: nat and kvs :: "(slice \<times> slice) list" and offs :: "nat list" and ns :: "nat list"
  assumes sizes: "limit \<le> length data" "length data < 2 ^ 32" "length offs = Suc (length kvs)"
      "offs ! 0 = 0" "offs ! length kvs = limit"
    and entries: "j < length kvs \<Longrightarrow>
      entry_at data limit (offs ! j) (if j = 0 then [] else fst (kvs ! (j - 1))) (kvs ! j) (offs ! Suc j)"
    and restarts: "ns \<noteq> []" "ns ! 0 = 0" "sorted_wrt (<) ns"
    and restart_bound: "i < length ns \<Longrightarrow> ns ! i < length kvs \<or> kvs = [] \<and> ns ! i = 0"
    and restart_entry: "i < length ns \<Longrightarrow> ns ! i < length kvs \<Longrightarrow>
      entry_at data limit (offs ! (ns ! i)) [] (kvs ! (ns ! i)) (offs ! Suc (ns ! i))"
    and restart_array: "i < length ns \<Longrightarrow> unat (DecodeFixed32 (drop (limit + i * 4) data)) = offs ! (ns ! i)"

definition iter_of :: "slice \<Rightarrow> nat \<Rightarrow> nat \<Rightarrow> BlockIter \<Rightarrow> bool" where
  "iter_of data limit n it \<longleftrightarrow>
     bi_data it = data \<and> bi_restarts it = limit \<and> bi_num_restarts it = n \<and> bi_status it = Status_OK"

text \<open>The iterator stands on entry \<open>j\<close>, or is exhausted when \<open>j\<close> is the number of entries.\<close>

definition iter_at :: "slice \<Rightarrow> nat \<Rightarrow> (slice \<times> slice) list \<Rightarrow> nat list \<Rightarrow> nat list \<Rightarrow> nat \<Rightarrow> BlockIter \<Rightarrow> bool" where
  "iter_at data limit kvs offs ns j it \<longleftrightarrow> iter_of data limit (length ns) it \<and>
     (if j < length kvs then
        bi_current it = offs ! j \<and> bi_key it = fst (kvs ! j) \<and> BlockIter_value it = snd (kvs ! j) \<and>
        NextEntryOffset it = offs ! Suc j \<and> bi_restart_index it < length ns \<and> offs ! (ns ! bi_restart_index it) \<le> offs ! j
      else bi_current it = limit)"

text \<open>The iterator is about to read entry \<open>j\<close>.\<close>

definition iter_before :: "slice \<Rightarrow> nat \<Rightarrow> (slice \<times> slice) list \<Rightarrow> nat list \<Rightarrow> nat list \<Rightarrow> nat \<Rightarrow> BlockIter \<Rightarrow> bool" where
  "iter_before data limit kvs offs ns j it \<longleftrightarrow> iter_of data limit (length ns) it \<and> j \<le> length kvs \<and>
     NextEntryOffset it = offs ! j \<and>
     (j < length kvs \<longrightarrow> bi_restart_index it < length ns \<and> offs ! (ns ! bi_restart_index it) \<le> offs ! j \<and>
       entry_at data limit (offs ! j) (bi_key it) (kvs ! j) (offs ! Suc j))"

context block_layout
begin

abbreviation "standing \<equiv> iter_at data limit kvs offs ns"
abbreviation "before \<equiv> iter_before data limit kvs offs ns"

lemma restart_le: "i < length ns \<Longrightarrow> ns ! i \<le> length kvs"
  using restart_bound [of i] by auto

lemma offs_step: "j < length kvs \<Longrightarrow> offs ! j < offs ! Suc j \<and> offs ! Suc j \<le> limit"
  using entries [of j] by (simp add: entry_at_def)

lemma offs_less: "i < j \<Longrightarrow> j \<le> length kvs \<Longrightarrow> offs ! i < offs ! j"
proof (induction j)
  case (Suc j)
  then show ?case using offs_step [of j] by (cases "i = j") auto
qed simp

lemma offs_less_iff: "i \<le> length kvs \<Longrightarrow> j \<le> length kvs \<Longrightarrow> offs ! i < offs ! j \<longleftrightarrow> i < j"
  using offs_less [of i j] offs_less [of j i] by (cases i j rule: linorder_cases) auto

lemma offs_le: "j \<le> length kvs \<Longrightarrow> offs ! j \<le> limit"
  using offs_less [of j "length kvs"] sizes(5) by (cases "j = length kvs") auto

lemma GetRestartPoint_law: "iter_of data limit (length ns) it \<Longrightarrow> i < length ns \<Longrightarrow> GetRestartPoint it i = offs ! (ns ! i)"
  using restart_array [of i] by (simp add: GetRestartPoint_def iter_of_def)

lemma advance_restart_law:
  assumes "iter_of data limit (length ns) it" "i < length ns" "offs ! (ns ! i) \<le> current"
  shows "advance_restart it current i < length ns \<and> offs ! (ns ! advance_restart it current i) \<le> current"
  using assms
proof (induction it current i rule: advance_restart.induct)
  case (1 it current i)
  show ?case
  proof (cases "i + 1 < bi_num_restarts it \<and> GetRestartPoint it (i + 1) < current")
    case True
    then have "i + 1 < length ns" using 1(2) by (simp add: iter_of_def)
    then show ?thesis using 1 True GetRestartPoint_law [of it "i + 1"] by (subst (1 2) advance_restart.simps) auto
  next
    case False
    then show ?thesis using 1(3,4) by (subst (1 2) advance_restart.simps) auto
  qed
qed

lemma restart_before:
  assumes "iter_of data limit (length ns) it" "i < length ns"
  shows "before (ns ! i) (SeekToRestartPoint it i)"
proof -
  have "offs ! (ns ! i) < 2 ^ 32" using offs_le [OF restart_le [OF assms(2)]] sizes by linarith
  then show ?thesis
    using assms restart_le [OF assms(2)] restart_entry [OF assms(2)] GetRestartPoint_law [OF assms]
    by (auto simp: iter_before_def SeekToRestartPoint_def iter_of_def NextEntryOffset_def unat_word_of_nat)
qed

lemma parse_entry:
  assumes "before j it" "j < length kvs"
  shows "\<exists>it'. ParseNextKey it = Some (it', True) \<and> standing j it' \<and> before (Suc j) it'"
proof -
  let ?o = "offs ! j"
  have it: "iter_of data limit (length ns) it" "NextEntryOffset it = ?o" "bi_restart_index it < length ns"
    "offs ! (ns ! bi_restart_index it) \<le> ?o" "entry_at data limit ?o (bi_key it) (kvs ! j) (offs ! Suc j)"
    using assms by (auto simp: iter_before_def)
  obtain sh n vl q where d: "DecodeEntry (take (limit - ?o) (drop ?o data)) = Some (sh, n, vl, q)"
    "q = drop (limit - length q) (take limit data)" "length q \<le> limit" "unat sh \<le> length (bi_key it)"
    "limit - length q + unat n + unat vl = offs ! Suc j" "offs ! Suc j \<le> limit"
    "fst (kvs ! j) = take (unat sh) (bi_key it) @ take (unat n) q" "snd (kvs ! j) = take (unat vl) (drop (unat n) q)"
    using it(5) by (auto simp: entry_at_def)
  define pos where "pos = limit - length q"
  have fit: "unat n + unat vl \<le> length q" "pos + unat n + unat vl \<le> limit" "pos + unat n \<le> length data"
    using d(3,5,6) sizes(1) unfolding pos_def by linarith+
  have q: "q = take (limit - pos) (drop pos data)" using d(2) unfolding drop_take pos_def .
  have key: "take (unat n) (drop pos data) = take (unat n) q"
    using fit by (simp add: q)
  have val: "take (unat vl) (drop (pos + unat n) data) = take (unat vl) (drop (unat n) q)"
    using fit by (simp add: q drop_take add.commute)
  let ?it = "it \<lparr> bi_current := ?o \<rparr>"
  let ?it' = "?it \<lparr> bi_key := fst (kvs ! j), bi_value := (pos + unat n, unat vl),
    bi_restart_index := advance_restart ?it ?o (bi_restart_index it) \<rparr>"
  have parse: "ParseNextKey it = Some (?it', True)"
    using it(1,2) d(1,4,7) fit key offs_step [OF assms(2)]
    by (simp add: ParseNextKey_def iter_of_def Let_def not_less flip: pos_def)
  have next_off: "NextEntryOffset ?it' = offs ! Suc j"
    using d(5,6) sizes(1,2) by (simp add: NextEntryOffset_def unat_word_of_nat flip: pos_def)
  have adv: "advance_restart ?it ?o (bi_restart_index it) < length ns"
    "offs ! (ns ! advance_restart ?it ?o (bi_restart_index it)) \<le> ?o"
    using advance_restart_law [of ?it "bi_restart_index it" ?o] it by (auto simp: iter_of_def)
  have "standing j ?it'"
    using it(1) assms(2) next_off adv val d(8) by (simp add: iter_at_def iter_of_def BlockIter_value_def)
  moreover have "before (Suc j) ?it'"
    using it(1) assms(2) next_off adv offs_step [OF assms(2)] entries [of "Suc j"]
    by (auto simp: iter_before_def iter_of_def)
  ultimately show ?thesis using parse by blast
qed

lemma parse_end:
  assumes "before (length kvs) it"
  shows "\<exists>it'. ParseNextKey it = Some (it', False) \<and> standing (length kvs) it'"
  using assms sizes(5) by (auto simp: iter_before_def iter_at_def iter_of_def ParseNextKey_def)

lemma standing_before: "standing j it \<Longrightarrow> j < length kvs \<Longrightarrow> before (Suc j) it"
  using offs_step [of j] entries [of "Suc j"] by (auto simp: iter_at_def iter_before_def)

text \<open>A forward loop stops on the first entry its test accepts.\<close>

lemma parse_until_law:
  assumes "before j it" "\<And>k it'. j \<le> k \<Longrightarrow> k < length kvs \<Longrightarrow> standing k it' \<Longrightarrow> stop it' = P k"
  shows "\<exists>k it'. parse_until stop it = Some it' \<and> standing k it' \<and> j \<le> k \<and> k \<le> length kvs \<and>
    (\<forall>i. j \<le> i \<and> i < k \<longrightarrow> \<not> P i) \<and> (k < length kvs \<longrightarrow> P k)"
  using assms
proof (induction "length kvs - j" arbitrary: j it rule: less_induct)
  case less
  show ?case
  proof (cases "j < length kvs")
    case True
    obtain it1 where it1: "ParseNextKey it = Some (it1, True)" "standing j it1" "before (Suc j) it1"
      using parse_entry [OF less.prems(1) True] by blast
    have stop: "stop it1 = P j" using less.prems(2) [of j it1] True it1(2) by simp
    show ?thesis
    proof (cases "P j")
      case True
      then show ?thesis using it1 stop \<open>j < length kvs\<close>
        by (intro exI [of _ j] exI [of _ it1]) (auto simp: parse_until.simps [of stop it])
    next
      case False
      have "\<exists>k it'. parse_until stop it1 = Some it' \<and> standing k it' \<and> Suc j \<le> k \<and> k \<le> length kvs \<and>
          (\<forall>i. Suc j \<le> i \<and> i < k \<longrightarrow> \<not> P i) \<and> (k < length kvs \<longrightarrow> P k)"
        using less.hyps [OF _ it1(3)] less.prems(2) True by simp
      then obtain k it' where k: "parse_until stop it1 = Some it'" "standing k it'" "Suc j \<le> k" "k \<le> length kvs"
        "\<forall>i. Suc j \<le> i \<and> i < k \<longrightarrow> \<not> P i" "k < length kvs \<longrightarrow> P k" by blast
      have "\<forall>i. j \<le> i \<and> i < k \<longrightarrow> \<not> P i" using k(5) False by (metis Suc_leI le_neq_implies_less)
      then show ?thesis using k it1 stop False
        by (intro exI [of _ k] exI [of _ it']) (simp add: parse_until.simps [of stop it])
    qed
  next
    case False
    then have j: "j = length kvs" using less.prems(1) by (simp add: iter_before_def)
    obtain it1 where "ParseNextKey it = Some (it1, False)" "standing (length kvs) it1"
      using parse_end less.prems(1) j by blast
    then show ?thesis using j by (intro exI [of _ j] exI [of _ it1]) (auto simp: parse_until.simps [of stop it])
  qed
qed

lemma parse_any: "before j it \<Longrightarrow> \<exists>it' b. ParseNextKey it = Some (it', b) \<and> standing j it'"
  using parse_entry [of j it] parse_end [of it] by (cases "j < length kvs") (auto simp: iter_before_def)

lemma SeekToFirst_law:
  assumes "iter_of data limit (length ns) it"
  shows "\<exists>it'. BlockIter_SeekToFirst it = Some it' \<and> standing 0 it'"
proof -
  have "before 0 (SeekToRestartPoint it 0)" using restart_before [OF assms, of 0] restarts(1,2) by simp
  from parse_any [OF this] show ?thesis by (auto simp: BlockIter_SeekToFirst_def)
qed

lemma Next_law:
  assumes "standing j it" "j < length kvs"
  shows "\<exists>it'. BlockIter_Next it = Some it' \<and> standing (Suc j) it'"
  using parse_any [OF standing_before [OF assms]] by (auto simp: BlockIter_Next_def)

lemma SeekToLast_law:
  assumes "iter_of data limit (length ns) it"
  shows "\<exists>it'. BlockIter_SeekToLast it = Some it' \<and> standing (length kvs - 1) it'"
proof -
  let ?i = "length ns - 1"
  have n: "bi_num_restarts it = length ns" using assms by (simp add: iter_of_def)
  have b: "before (ns ! ?i) (SeekToRestartPoint it ?i)" using restart_before [OF assms, of ?i] restarts(1) by simp
  have stop: "(\<not> NextEntryOffset it' < bi_restarts it') = (Suc k = length kvs)" if "k < length kvs" "standing k it'" for k it'
    using that offs_less_iff [of "Suc k" "length kvs"] sizes(5) by (auto simp: iter_at_def iter_of_def)
  obtain k it' where k: "parse_until (\<lambda>it. \<not> NextEntryOffset it < bi_restarts it) (SeekToRestartPoint it ?i) = Some it'"
    "standing k it'" "k \<le> length kvs" "\<forall>i. ns ! ?i \<le> i \<and> i < k \<longrightarrow> Suc i \<noteq> length kvs" "k < length kvs \<longrightarrow> Suc k = length kvs"
    using parse_until_law [OF b, of "\<lambda>it. \<not> NextEntryOffset it < bi_restarts it" "\<lambda>k. Suc k = length kvs"] stop by blast
  have "k = length kvs - 1"
  proof (cases "k < length kvs")
    case False
    have "ns ! ?i < length kvs \<or> kvs = []"
      using restart_bound [of ?i] restarts(1) by auto
    moreover have "kvs \<noteq> [] \<Longrightarrow> ns ! ?i \<le> length kvs - 1" using calculation by auto
    ultimately show ?thesis using False k(3) k(4) [rule_format, of "length kvs - 1"] by (cases "kvs = []") auto
  qed (use k(5) in auto)
  then show ?thesis using k(1,2) n by (auto simp: BlockIter_SeekToLast_def)
qed

lemma prev_restart_law:
  assumes "iter_of data limit (length ns) it" "i < length ns" "j \<le> length kvs"
  shows "case prev_restart it (offs ! j) i of None \<Rightarrow> j = 0 | Some i' \<Rightarrow> i' < length ns \<and> ns ! i' < j"
  using assms(2)
proof (induction i)
  case 0
  then show ?case
    using GetRestartPoint_law [OF assms(1), of 0] restarts(2) sizes(4) offs_less_iff [of 0 j] assms(3) by auto
next
  case (Suc i)
  have "ns ! Suc i \<le> length kvs" by (rule restart_le [OF Suc.prems])
  then show ?case
    using Suc GetRestartPoint_law [OF assms(1), of "Suc i"] offs_less_iff [of "ns ! Suc i" j] assms(3)
    by (auto simp: not_le)
qed

lemma Prev_law:
  assumes "standing j it" "j < length kvs"
  shows "\<exists>it'. BlockIter_Prev it = Some it' \<and> standing (if j = 0 then length kvs else j - 1) it'"
proof -
  have it: "iter_of data limit (length ns) it" "bi_current it = offs ! j" "bi_restart_index it < length ns"
    using assms by (simp_all add: iter_at_def)
  note p = prev_restart_law [OF it(1,3), of j]
  show ?thesis
  proof (cases "prev_restart it (offs ! j) (bi_restart_index it)")
    case None
    then show ?thesis using p it assms(2) by (auto simp: BlockIter_Prev_def iter_at_def iter_of_def)
  next
    case (Some i)
    then have i: "i < length ns" "ns ! i < j" using p assms(2) by auto
    have stop: "(\<not> NextEntryOffset it' < offs ! j) = (j \<le> Suc k)" if "k < length kvs" "standing k it'" for k it'
      using that offs_less_iff [of "Suc k" j] assms(2) by (auto simp: iter_at_def not_less)
    obtain k it' where k: "parse_until (\<lambda>it. \<not> NextEntryOffset it < offs ! j) (SeekToRestartPoint it i) = Some it'"
      "standing k it'" "ns ! i \<le> k" "k \<le> length kvs" "\<forall>l. ns ! i \<le> l \<and> l < k \<longrightarrow> \<not> j \<le> Suc l" "k < length kvs \<longrightarrow> j \<le> Suc k"
      using parse_until_law [OF restart_before [OF it(1) i(1)], of "\<lambda>it. \<not> NextEntryOffset it < offs ! j" "\<lambda>k. j \<le> Suc k"] stop
      by blast
    have "ns ! i \<le> j - 1" using i(2) by linarith
    then have "\<not> j - 1 < k" using k(5) [rule_format, of "j - 1"] by auto
    then have "k = j - 1" using k(4,6) assms(2) by (cases "k < length kvs") auto
    then show ?thesis using k(1,2) Some it(2) i(2) by (auto simp: BlockIter_Prev_def)
  qed
qed

lemma restart_key:
  assumes "iter_of data limit (length ns) it" "0 < i" "i < length ns"
  obtains n vl q where "DecodeEntry (take (bi_restarts it - GetRestartPoint it i) (drop (GetRestartPoint it i) (bi_data it))) = Some (0, n, vl, q)"
    "\<not> length (bi_data it) < bi_restarts it - length q + unat n"
    "take (unat n) (drop (bi_restarts it - length q) (bi_data it)) = fst (kvs ! (ns ! i))" "ns ! i < length kvs"
proof -
  have "ns ! 0 < ns ! i" using restarts(3) assms(2,3) by (simp add: sorted_wrt_nth_less)
  then have less: "ns ! i < length kvs" using restart_bound [OF assms(3)] by auto
  obtain sh n vl q where d: "DecodeEntry (take (limit - offs ! (ns ! i)) (drop (offs ! (ns ! i)) data)) = Some (sh, n, vl, q)"
    "q = drop (limit - length q) (take limit data)" "length q \<le> limit" "unat sh \<le> 0"
    "limit - length q + unat n + unat vl \<le> limit" "fst (kvs ! (ns ! i)) = take (unat n) q"
    using restart_entry [OF assms(3) less] by (auto simp: entry_at_def)
  define pos where "pos = limit - length q"
  have q: "q = take (limit - pos) (drop pos data)" using d(2) unfolding drop_take pos_def .
  have "take (unat n) (drop pos data) = take (unat n) q"
    using d(5) by (simp add: q flip: pos_def)
  moreover have "sh = 0" using d(4) by (simp add: unat_eq_0)
  ultimately show ?thesis
    using that [of n vl q] d(1,5,6) assms(1) GetRestartPoint_law [OF assms(1,3)] less sizes(1)
    by (simp add: iter_of_def flip: pos_def)
qed

lemma Seek_restarts_law:
  assumes "iter_of data limit (length ns) it" "left \<le> right" "right < length ns"
    "left = 0 \<or> cmp (fst (kvs ! (ns ! left))) target < 0"
  shows "\<exists>l. Seek_restarts cmp it target left right = Some (Inr l) \<and> l < length ns \<and>
    (l = 0 \<or> cmp (fst (kvs ! (ns ! l))) target < 0)"
  using assms
proof (induction cmp it target left right rule: Seek_restarts.induct)
  case (1 cmp it target left right)
  show ?case
  proof (cases "left < right")
    case True
    let ?mid = "(left + right + 1) div 2"
    have mid: "0 < ?mid" "?mid < length ns" "left \<le> ?mid - 1" "?mid \<le> right" using True 1(5) by simp_all
    obtain n vl q where d: "DecodeEntry (take (bi_restarts it - GetRestartPoint it ?mid) (drop (GetRestartPoint it ?mid) (bi_data it))) = Some (0, n, vl, q)"
      "\<not> length (bi_data it) < bi_restarts it - length q + unat n"
      "take (unat n) (drop (bi_restarts it - length q) (bi_data it)) = fst (kvs ! (ns ! ?mid))"
      by (rule restart_key [OF 1(3) mid(1,2)])
    have step: "Seek_restarts cmp it target left right =
        (if cmp (fst (kvs ! (ns ! ?mid))) target < 0 then Seek_restarts cmp it target ?mid right
         else Seek_restarts cmp it target left (?mid - 1))"
      using True d by (simp add: Seek_restarts.simps [of cmp it target left right] Let_def)
    show ?thesis
    proof (cases "cmp (fst (kvs ! (ns ! ?mid))) target < 0")
      case less: True
      then show ?thesis
        using step 1(1) [OF True refl refl d(1) refl refl refl _ refl d(2)] d(3) 1(3,5) mid by simp
    next
      case False
      then show ?thesis
        using step 1(2) [OF True refl refl d(1) refl refl refl _ refl d(2)] d(3) 1(3,5,6) mid by simp
    qed
  qed (use 1 in \<open>auto simp: Seek_restarts.simps\<close>)
qed

lemma Seek_law:
  assumes "key_order valid cmp" "iter_of data limit (length ns) it" "valid target" "\<forall>kv\<in>set kvs. valid (fst kv)"
    "sorted_wrt (\<lambda>a b. cmp (fst a) (fst b) < 0) kvs"
  shows "\<exists>k it'. BlockIter_Seek cmp it target = Some it' \<and> standing k it' \<and> k \<le> length kvs \<and>
    (\<forall>i<k. cmp (fst (kvs ! i)) target < 0) \<and> (k < length kvs \<longrightarrow> cmp (fst (kvs ! k)) target \<ge> 0)"
proof -
  have n: "bi_num_restarts it = length ns" "0 < length ns" using assms(2) restarts(1) by (simp_all add: iter_of_def)
  obtain l where l: "Seek_restarts cmp it target 0 (length ns - 1) = Some (Inr l)" "l < length ns"
    "l = 0 \<or> cmp (fst (kvs ! (ns ! l))) target < 0"
    using Seek_restarts_law [OF assms(2), of 0 "length ns - 1" cmp target] n by auto
  have stop: "(cmp (bi_key it') target \<ge> 0) = (cmp (fst (kvs ! k)) target \<ge> 0)" if "k < length kvs" "standing k it'" for k it'
    using that by (simp add: iter_at_def)
  obtain k it' where k: "parse_until (\<lambda>it. cmp (bi_key it) target \<ge> 0) (SeekToRestartPoint it l) = Some it'"
    "standing k it'" "ns ! l \<le> k" "k \<le> length kvs" "\<forall>i. ns ! l \<le> i \<and> i < k \<longrightarrow> \<not> cmp (fst (kvs ! i)) target \<ge> 0"
    "k < length kvs \<longrightarrow> cmp (fst (kvs ! k)) target \<ge> 0"
    using parse_until_law [OF restart_before [OF assms(2) l(2)], of "\<lambda>it. cmp (bi_key it) target \<ge> 0" "\<lambda>k. cmp (fst (kvs ! k)) target \<ge> 0"] stop
    by blast
  have "cmp (fst (kvs ! i)) target < 0" if "i < k" for i
  proof (cases "ns ! l \<le> i")
    case False
    then have l0: "0 < l" using restarts(2) by (cases "l = 0") auto
    then have less: "ns ! l < length kvs" by (rule restart_key [OF assms(2) _ l(2)])
    have "cmp (fst (kvs ! i)) (fst (kvs ! (ns ! l))) < 0"
      using sorted_wrt_nth_less [OF assms(5), of i "ns ! l"] False less by simp
    then show ?thesis
      using key_order.cmp_less_trans [OF assms(1), of "fst (kvs ! i)" "fst (kvs ! (ns ! l))" target] l(3) l0 assms(3,4) less False
      by simp
  qed (use k(5) that in auto)
  then show ?thesis using k l(1) n(1) by (auto simp: BlockIter_Seek_def)
qed

end

subsection \<open>What the builder writes\<close>


text \<open>What the builder has written: the prefix entry \<open>j\<close> shares with the key before it, and the offsets.\<close>

definition built_shared :: "nat \<Rightarrow> (slice \<times> slice) list \<Rightarrow> nat \<Rightarrow> nat" where
  "built_shared interval kvs j = (if j mod interval = 0 then 0 else shared_prefix (fst (kvs ! (j - 1))) (fst (kvs ! j)))"

definition built_entry :: "nat \<Rightarrow> (slice \<times> slice) list \<Rightarrow> nat \<Rightarrow> slice" where
  "built_entry interval kvs j = entry_bytes (built_shared interval kvs j, kvs ! j)"

definition built_offset :: "nat \<Rightarrow> (slice \<times> slice) list \<Rightarrow> nat \<Rightarrow> nat" where
  "built_offset interval kvs j = length (concat (map (built_entry interval kvs) [0..<j]))"

definition built_restarts :: "nat \<Rightarrow> (slice \<times> slice) list \<Rightarrow> nat list" where
  "built_restarts interval kvs = map (\<lambda>i. i * interval) [0..<Suc ((length kvs - 1) div interval)]"

definition block_contents :: "nat \<Rightarrow> (slice \<times> slice) list \<Rightarrow> BlockBuilder" where
  "block_contents interval kvs = fold (\<lambda>(k, v) b. BlockBuilder_Add b k v) kvs (BlockBuilder_new interval)"

definition built_block :: "nat \<Rightarrow> (slice \<times> slice) list \<Rightarrow> slice" where
  "built_block interval kvs = snd (BlockBuilder_Finish (block_contents interval kvs))"

lemma built_snoc:
  assumes "j < length kvs"
  shows "built_entry interval (kvs @ [kv]) j = built_entry interval kvs j"
  using assms by (simp add: built_entry_def built_shared_def nth_append)

lemma built_prefix_snoc:
  assumes "j \<le> length kvs"
  shows "map (built_entry interval (kvs @ [kv])) [0..<j] = map (built_entry interval kvs) [0..<j]"
  using assms by (auto simp: built_snoc)

lemma built_offset_snoc: "j \<le> length kvs \<Longrightarrow> built_offset interval (kvs @ [kv]) j = built_offset interval kvs j"
  by (simp add: built_offset_def built_prefix_snoc del: map_eq_conv)

lemma block_contents_snoc: "block_contents interval (kvs @ [(k, v)]) = BlockBuilder_Add (block_contents interval kvs) k v"
  by (simp add: block_contents_def)

lemma div_step: 
  assumes "1 \<le> (interval :: nat)" "0 < n"
  shows "n div interval = (if n mod interval = 0 then Suc ((n - 1) div interval) else (n - 1) div interval)"
    "n mod interval = (if (n - 1) mod interval + 1 < interval then (n - 1) mod interval + 1 else 0)"
proof -
  obtain m where n: "n = Suc m" using assms(2) by (cases n) auto
  show "n div interval = (if n mod interval = 0 then Suc ((n - 1) div interval) else (n - 1) div interval)"
    by (simp add: n div_Suc)
  show "n mod interval = (if (n - 1) mod interval + 1 < interval then (n - 1) mod interval + 1 else 0)"
    using assms(1) mod_less_divisor [of interval m] by (auto simp: n mod_Suc simp del: mod_less_divisor)
qed

lemma built_restarts_snoc:
  assumes "1 \<le> interval"
  shows "built_restarts interval (kvs @ [kv]) = built_restarts interval kvs @
    (if kvs \<noteq> [] \<and> length kvs mod interval = 0 then [length kvs] else [])"
proof (cases "kvs = []")
  case False
  let ?n = "length kvs"
  have "0 < ?n" using False by simp
  note d = div_step(1) [OF assms this]
  show ?thesis
  proof (cases "?n mod interval = 0")
    case True
    then have "?n = ?n div interval * interval" using div_mult_mod_eq [of ?n interval] by simp
    then show ?thesis using d True False by (simp add: built_restarts_def)
  qed (use d in \<open>simp add: built_restarts_def\<close>)
qed (simp add: built_restarts_def)

lemma built_restarts_le: "j \<in> set (built_restarts interval kvs) \<Longrightarrow> j \<le> length kvs - 1"
proof -
  assume "j \<in> set (built_restarts interval kvs)"
  then have "\<exists>i \<le> (length kvs - 1) div interval. j = i * interval"
    by (auto simp: built_restarts_def less_Suc_eq_le simp del: upt_Suc)
  then have "j \<le> (length kvs - 1) div interval * interval" by auto
  then show ?thesis using div_times_less_eq_dividend [of "length kvs - 1" interval] by linarith
qed

text \<open>The state of the builder after any list of additions.\<close>

lemma block_contents_law:
  assumes "1 \<le> interval"
  shows "block_contents interval kvs = \<lparr> bb_interval = interval,
     bb_buffer = concat (map (built_entry interval kvs) [0..<length kvs]),
     bb_restarts = map (\<lambda>j. word_of_nat (built_offset interval kvs j)) (built_restarts interval kvs),
     bb_counter = (if kvs = [] then 0 else (length kvs - 1) mod interval + 1),
     bb_finished = False,
     bb_last_key = (if kvs = [] then [] else fst (last kvs)) \<rparr>"
proof (induction kvs rule: rev_induct)
  case Nil
  then show ?case by (simp add: block_contents_def BlockBuilder_new_def built_restarts_def built_offset_def)
next
  case (snoc kv kvs)
  obtain k v where kv: "kv = (k, v)" by (cases kv)
  let ?n = "length kvs" let ?b = "block_contents interval kvs" let ?kvs = "kvs @ [(k, v)]"
  have share: "(bb_counter ?b < bb_interval ?b) = (kvs = [] \<or> ?n mod interval \<noteq> 0)"
    using div_step(2) [OF assms, of ?n] snoc assms by (cases "kvs = []") auto
  have shared: "(if bb_counter ?b < bb_interval ?b then shared_prefix (bb_last_key ?b) k else 0) = built_shared interval ?kvs ?n"
    unfolding share using arg_cong [OF snoc, of bb_last_key] by (auto simp: built_shared_def nth_append last_conv_nth)
  have le: "built_shared interval ?kvs ?n \<le> length k" using shared_prefix_le
    by (simp add: built_shared_def)
  have key: "take (built_shared interval ?kvs ?n) (bb_last_key ?b) @ drop (built_shared interval ?kvs ?n) k = k"
    unfolding shared [symmetric] by (simp add: shared_prefix_take)
  have restarts: "(if bb_counter ?b < bb_interval ?b then bb_restarts ?b else bb_restarts ?b @ [word_of_nat (length (bb_buffer ?b))]) =
      map (\<lambda>j. word_of_nat (built_offset interval ?kvs j)) (built_restarts interval ?kvs)"
  proof -
    have "j \<le> ?n" if "j \<in> set (built_restarts interval kvs)" for j
      using built_restarts_le [OF that] by simp
    moreover have "length (bb_buffer ?b) = built_offset interval kvs ?n"
      using arg_cong [OF snoc, of bb_buffer] by (simp add: built_offset_def)
    ultimately show ?thesis unfolding share
      using arg_cong [OF snoc, of bb_restarts] by (auto simp: built_restarts_snoc [OF assms] built_offset_snoc cong: map_cong)
  qed
  have counter: "(if bb_counter ?b < bb_interval ?b then bb_counter ?b else 0) = ?n mod interval"
    using div_step(2) [OF assms, of ?n] snoc assms by (cases "kvs = []") auto
  have entry: "built_entry interval ?kvs ?n = EncodeVarint32 (word_of_nat (built_shared interval ?kvs ?n)) @
      EncodeVarint32 (word_of_nat (length k - built_shared interval ?kvs ?n)) @ EncodeVarint32 (word_of_nat (length v)) @
      drop (built_shared interval ?kvs ?n) k @ v"
    by (simp add: built_entry_def entry_bytes_def)
  show ?case
    unfolding kv block_contents_snoc BlockBuilder_Add_def Let_def
    unfolding shared restarts counter
    using key entry built_prefix_snoc [of ?n kvs interval "(k, v)"]
    by (simp add: snoc PutVarint32_def del: map_eq_conv)
qed

subsection \<open>The builder lays its entries out\<close>

lemma built_block_bytes:
  assumes "1 \<le> interval"
  shows "built_block interval kvs = concat (map (built_entry interval kvs) [0..<length kvs]) @
    concat (map (\<lambda>j. EncodeFixed32 (word_of_nat (built_offset interval kvs j))) (built_restarts interval kvs)) @
    EncodeFixed32 (word_of_nat (length (built_restarts interval kvs)))"
proof -
  have "fold (\<lambda>r buf. PutFixed32 buf r) rs buf = buf @ concat (map EncodeFixed32 rs)" for rs buf
    by (induction rs arbitrary: buf) (simp_all add: PutFixed32_def)
  then show ?thesis
    by (simp add: built_block_def BlockBuilder_Finish_def Let_def block_contents_law [OF assms] PutFixed32_def comp_def)
qed

lemma built_key_le:
  assumes "j < length kvs"
  shows "length (fst (kvs ! j)) \<le> built_offset interval kvs (Suc j)"
  using assms
proof (induction j)
  case 0
  then show ?case by (simp add: built_offset_def built_entry_def built_shared_def entry_bytes_def split: prod.splits)
next
  case (Suc j)
  have "built_shared interval kvs (Suc j) \<le> length (fst (kvs ! j))"
    using shared_prefix_le(1) by (simp add: built_shared_def)
  moreover have "length (fst (kvs ! Suc j)) - built_shared interval kvs (Suc j) \<le> length (built_entry interval kvs (Suc j))"
    by (simp add: built_entry_def entry_bytes_def split: prod.splits)
  moreover have "built_offset interval kvs (Suc (Suc j)) = built_offset interval kvs (Suc j) + length (built_entry interval kvs (Suc j))"
    by (simp add: built_offset_def)
  ultimately show ?case using Suc by simp
qed

lemma drop_built_entries:
  "j < n \<Longrightarrow> drop (built_offset interval kvs j) (concat (map (built_entry interval kvs) [0..<n])) =
    built_entry interval kvs j @ drop (built_offset interval kvs (Suc j)) (concat (map (built_entry interval kvs) [0..<n]))"
proof (induction n)
  case (Suc n)
  have le: "built_offset interval kvs i \<le> built_offset interval kvs n" if "i \<le> n" for i
  proof -
    have "[0..<n] = [0..<i] @ [i..<n]" using that upt_add_eq_append [of 0 i "n - i"] by simp
    then show ?thesis by (simp add: built_offset_def)
  qed
  show ?case
  proof (cases "j = n")
    case False
    then have "j < n" using Suc.prems by simp
    then show ?thesis using Suc.IH le [of j] le [of "Suc j"] by (simp add: built_offset_def [of _ _ n])
  qed (simp add: built_offset_def)
qed simp

subsection \<open>Finished blocks\<close>


locale finished_block =
  fixes interval :: nat and kvs :: "(slice \<times> slice) list"
  assumes interval: "1 \<le> interval" and fits: "length (built_block interval kvs) < 2 ^ 32"
begin

abbreviation "contents \<equiv> concat (map (built_entry interval kvs) [0..<length kvs])"
abbreviation "off \<equiv> built_offset interval kvs"

lemma off_end: "off (length kvs) = length contents"
  by (simp add: built_offset_def)

lemma off_Suc: "off (Suc j) = off j + length (built_entry interval kvs j)"
  by (simp add: built_offset_def)

lemma off_le: "j \<le> length kvs \<Longrightarrow> off j \<le> length contents"
proof -
  assume "j \<le> length kvs"
  then have "[0..<length kvs] = [0..<j] @ [j..<length kvs]" using upt_add_eq_append [of 0 j "length kvs - j"] by simp
  then show ?thesis by (simp add: built_offset_def)
qed

lemma built_entry_at:
  assumes "j < length kvs" "take (built_shared interval kvs j) prev = take (built_shared interval kvs j) (fst (kvs ! j))"
    "built_shared interval kvs j \<le> length prev"
  shows "entry_at (built_block interval kvs) (off (length kvs)) (off j) prev (kvs ! j) (off (Suc j))"
proof -
  obtain k v where kv: "kvs ! j = (k, v)" by (cases "kvs ! j")
  let ?s = "built_shared interval kvs j" and ?limit = "off (length kvs)"
  define rest where "rest = drop (off (Suc j)) contents"
  define q where "q = drop ?s k @ v @ rest"
  have data: "take ?limit (built_block interval kvs) = contents"
    unfolding built_block_bytes [OF interval] off_end by simp
  have s: "?s \<le> length k" using shared_prefix_le(2) [of "fst (kvs ! (j - 1))" k] by (simp add: built_shared_def kv)
  have le: "off (Suc j) \<le> length contents" using off_le [of "Suc j"] assms(1) by simp
  have c: "drop (off j) contents = entry_bytes (?s, k, v) @ rest"
    using drop_built_entries [OF assms(1)] by (simp add: rest_def built_entry_def kv)
  have "off j + length (drop (off j) contents) = length contents" using off_le [of j] assms(1) by simp
  then have lc: "off j + length (entry_bytes (?s, k, v) @ rest) = ?limit" by (simp only: c off_end)
  have lt: "?limit < 2 ^ 32" using fits by (simp add: built_block_bytes [OF interval] off_end)
  then have dec: "DecodeEntry (entry_bytes (?s, k, v) @ rest) =
      Some (word_of_nat ?s, word_of_nat (length k - ?s), word_of_nat (length v), q)"
    using DecodeEntry_entry [of ?s k v rest] lc s unfolding q_def by linarith
  have suffix: "\<exists>p. contents = p @ q"
    using c append_take_drop_id [of "off j" contents] by (auto simp: entry_bytes_def q_def) (metis append.assoc)
  then have q: "q = drop (?limit - length q) contents" "length q \<le> ?limit" by (auto simp: off_end)
  have lq: "length q = length k - ?s + length v + length rest" by (simp add: q_def)
  have lr: "length rest = ?limit - off (Suc j)" by (simp add: rest_def off_end)
  have b: "?s < 2 ^ 32" "length k - ?s < 2 ^ 32" "length v < 2 ^ 32"
    using q(2) lq lt built_key_le [OF assms(1), of interval] s le off_end unfolding kv fst_conv by linarith+
  have u: "unat (word_of_nat ?s :: uint32) = ?s" "unat (word_of_nat (length k - ?s) :: uint32) = length k - ?s"
      "unat (word_of_nat (length v) :: uint32) = length v"
    by (rule b [THEN unat_word32])+
  have eq: "?limit - length q + (length k - ?s) + length v = off (Suc j)"
    using q(2) lq lr le off_end by linarith
  have take: "take (?limit - off j) (drop (off j) (built_block interval kvs)) = entry_bytes (?s, k, v) @ rest"
    using data c by (metis drop_take)
  have "0 < length (built_entry interval kvs j)" using length_entry_bytes unfolding built_entry_def by (metis gr0I not_numeral_le_zero)
  then have "off j < off (Suc j)" "off (Suc j) \<le> ?limit" using off_Suc [of j] le off_end by linarith+
  moreover have "fst (kvs ! j) = take ?s prev @ take (length k - ?s) q" using assms(2) kv s by (simp add: q_def)
  moreover have "snd (kvs ! j) = take (length v) (drop (length k - ?s) q)" by (simp add: kv q_def)
  ultimately have "off j < off (Suc j) \<and> off (Suc j) \<le> ?limit \<and>
      DecodeEntry (take (?limit - off j) (drop (off j) (built_block interval kvs))) =
        Some (word_of_nat ?s, word_of_nat (length k - ?s), word_of_nat (length v), q) \<and>
      q = drop (?limit - length q) (take ?limit (built_block interval kvs)) \<and> length q \<le> ?limit \<and>
      unat (word_of_nat ?s :: uint32) \<le> length prev \<and>
      ?limit - length q + unat (word_of_nat (length k - ?s) :: uint32) + unat (word_of_nat (length v) :: uint32) = off (Suc j) \<and>
      fst (kvs ! j) = take (unat (word_of_nat ?s :: uint32)) prev @ take (unat (word_of_nat (length k - ?s) :: uint32)) q \<and>
      snd (kvs ! j) = take (unat (word_of_nat (length v) :: uint32)) (drop (unat (word_of_nat (length k - ?s) :: uint32)) q)"
    unfolding take dec data u using eq q assms(3) by (intro conjI) simp_all
  then show ?thesis unfolding entry_at_def by blast
qed

lemma built_restart: "i < length (built_restarts interval kvs) \<Longrightarrow> built_restarts interval kvs ! i = i * interval"
  by (simp add: built_restarts_def del: upt_Suc)

lemma layout: "block_layout (built_block interval kvs) (off (length kvs)) kvs (map off [0..<Suc (length kvs)]) (built_restarts interval kvs)"
proof
  show "off (length kvs) \<le> length (built_block interval kvs)"
    by (simp add: built_block_bytes [OF interval] off_end)
  show "length (built_block interval kvs) < 2 ^ 32" by (rule fits)
  show "length (map off [0..<Suc (length kvs)]) = Suc (length kvs)" "map off [0..<Suc (length kvs)] ! length kvs = off (length kvs)"
    by (simp_all del: upt_Suc)
  show "map off [0..<Suc (length kvs)] ! 0 = 0" by (simp add: built_offset_def del: upt_Suc)
  show "built_restarts interval kvs \<noteq> []" "built_restarts interval kvs ! 0 = 0"
    by (simp_all add: built_restarts_def del: upt_Suc)
  show "sorted_wrt (<) (built_restarts interval kvs)"
    using interval by (auto simp: sorted_wrt_iff_nth_less built_restarts_def simp del: upt_Suc)
next
  fix j assume j: "j < length kvs"
  have "entry_at (built_block interval kvs) (off (length kvs)) (off j)
      (if j = 0 then [] else fst (kvs ! (j - 1))) (kvs ! j) (off (Suc j))"
    by (rule built_entry_at [OF j]) (auto simp: built_shared_def take_shared_prefix shared_prefix_le)
  then show "entry_at (built_block interval kvs) (off (length kvs)) (map off [0..<Suc (length kvs)] ! j)
      (if j = 0 then [] else fst (kvs ! (j - 1))) (kvs ! j) (map off [0..<Suc (length kvs)] ! Suc j)"
    using j by (simp del: upt_Suc)
next
  fix i assume i: "i < length (built_restarts interval kvs)"
  have le: "built_restarts interval kvs ! i \<le> length kvs - 1" by (rule built_restarts_le [OF nth_mem [OF i]])
  then show "built_restarts interval kvs ! i < length kvs \<or> kvs = [] \<and> built_restarts interval kvs ! i = 0"
    by (cases kvs) auto
  have lt: "off (i * interval) < 2 ^ 32"
  proof -
    have "i * interval \<le> length kvs" using le built_restart [OF i] by linarith
    from off_le [OF this] show ?thesis using fits by (simp add: built_block_bytes [OF interval])
  qed
  have "unat (DecodeFixed32 (drop (i * 4) (concat (map (\<lambda>j. EncodeFixed32 (word_of_nat (off j))) (built_restarts interval kvs)) @
     EncodeFixed32 (word_of_nat (length (built_restarts interval kvs)))))) = off (built_restarts interval kvs ! i)"
    using lt by (subst drop_fixed32s [OF i]) (simp add: DecodeFixed32_Encode unat_word_of_nat built_restart [OF i])
  then show "unat (DecodeFixed32 (drop (off (length kvs) + i * 4) (built_block interval kvs))) =
      map off [0..<Suc (length kvs)] ! (built_restarts interval kvs ! i)"
    using le by (simp add: built_block_bytes [OF interval] off_end del: upt_Suc)
  assume j: "built_restarts interval kvs ! i < length kvs"
  have "entry_at (built_block interval kvs) (off (length kvs)) (off (i * interval)) [] (kvs ! (i * interval)) (off (Suc (i * interval)))"
    using j built_restart [OF i] by (intro built_entry_at) (simp_all add: built_shared_def)
  then show "entry_at (built_block interval kvs) (off (length kvs)) (map off [0..<Suc (length kvs)] ! (built_restarts interval kvs ! i))
      [] (kvs ! (built_restarts interval kvs ! i)) (map off [0..<Suc (length kvs)] ! Suc (built_restarts interval kvs ! i))"
    using j built_restart [OF i] by (simp del: upt_Suc)
qed

end

sublocale finished_block \<subseteq> block_layout "built_block interval kvs" "built_offset interval kvs (length kvs)" kvs
  "map (built_offset interval kvs) [0..<Suc (length kvs)]" "built_restarts interval kvs"
  by (rule layout)


text \<open>All entries an iterator delivers, moved by \<open>step\<close> as long as it is valid.\<close>

partial_function (option) block_scan :: "(BlockIter \<Rightarrow> BlockIter option) \<Rightarrow> BlockIter \<Rightarrow> (slice \<times> slice) list option" where
  "block_scan step it =
     (if BlockIter_Valid it then
        Option.bind (step it) (\<lambda>it1. Option.bind (block_scan step it1)
          (\<lambda>kvs. Some ((bi_key it, BlockIter_value it) # kvs)))
      else Some [])"

context block_layout
begin

lemma standing_Valid: "standing j it \<Longrightarrow> j \<le> length kvs \<Longrightarrow> BlockIter_Valid it \<longleftrightarrow> j < length kvs"
  using offs_less [of j "length kvs"] sizes(5)
  by (auto simp: iter_at_def iter_of_def BlockIter_Valid_def split: if_splits)

lemma scan_forward: "standing j it \<Longrightarrow> j \<le> length kvs \<Longrightarrow> block_scan BlockIter_Next it = Some (drop j kvs)"
proof (induction "length kvs - j" arbitrary: j it)
  case 0
  then show ?case using standing_Valid [of j it] by (simp add: block_scan.simps [of _ it])
next
  case (Suc n)
  then have j: "j < length kvs" by simp
  obtain it' where it': "BlockIter_Next it = Some it'" "standing (Suc j) it'" using Next_law [OF Suc.prems(1) j] by blast
  have "block_scan BlockIter_Next it' = Some (drop (Suc j) kvs)" using Suc.hyps(1) [of "Suc j"] Suc.hyps(2) it'(2) j by simp
  moreover have "bi_key it = fst (kvs ! j)" "BlockIter_value it = snd (kvs ! j)" using Suc.prems(1) j by (simp_all add: iter_at_def)
  ultimately show ?case
    using standing_Valid [OF Suc.prems] it'(1) j by (simp add: block_scan.simps [of _ it] flip: Cons_nth_drop_Suc)
qed

lemma scan_backward: "standing j it \<Longrightarrow> j < length kvs \<Longrightarrow> block_scan BlockIter_Prev it = Some (rev (take (Suc j) kvs))"
proof (induction j arbitrary: it)
  case 0
  obtain it' where it': "BlockIter_Prev it = Some it'" "standing (length kvs) it'" using Prev_law [OF 0] by auto
  then show ?case using standing_Valid [OF 0(1)] standing_Valid [OF it'(2)] 0
    by (simp add: block_scan.simps [of _ it] block_scan.simps [of _ it'] iter_at_def take_Suc_conv_app_nth)
next
  case (Suc j)
  obtain it' where it': "BlockIter_Prev it = Some it'" "standing j it'" using Prev_law [OF Suc.prems] by auto
  then show ?case using standing_Valid [OF Suc.prems(1)] Suc.IH [OF it'(2)] Suc.prems
    by (simp add: block_scan.simps [of _ it] iter_at_def take_Suc_conv_app_nth [of "Suc j"])
qed

end


context finished_block
begin

lemma NewIterator_law:
  "\<exists>it. Block_NewIterator (built_block interval kvs) = Inr it \<and>
     iter_of (built_block interval kvs) (off (length kvs)) (length (built_restarts interval kvs)) it"
proof -
  let ?d = "built_block interval kvs" and ?n = "length (built_restarts interval kvs)"
  have l: "length ?d = off (length kvs) + 4 * ?n + 4" by (simp add: built_block_bytes [OF interval] off_end)
  then have n: "?n < 2 ^ 30" "Suc ?n < 2 ^ 32" using fits by simp_all
  have num: "NumRestarts ?d = word_of_nat ?n"
    using DecodeFixed32_Encode [of "word_of_nat ?n" "[]"] l
    by (simp add: NumRestarts_def) (simp add: built_block_bytes [OF interval] off_end)
  have u: "unat (NumRestarts ?d) = ?n" "unat (1 + NumRestarts ?d) = Suc ?n"
    using unat_word_of_nat [of ?n, where 'a = 32] unat_word_of_nat [of "Suc ?n", where 'a = 32] n by (simp_all add: num)
  have "?n \<noteq> 0" using restarts(1) by simp
  then have "NumRestarts ?d \<noteq> 0" using u(1) by (metis unat_0)
  moreover have "Block_make ?d = (length ?d, off (length kvs))"
    using u l fits unat_word_of_nat [of "off (length kvs)", where 'a = 32] by (simp add: Block_make_def Let_def)
  ultimately show ?thesis using l u(1) by (simp add: Block_NewIterator_def BlockIter_new_def iter_of_def)
qed

end

lemma dropWhile_at:
  assumes "k \<le> length xs" "\<forall>i<k. P (xs ! i)" "k < length xs \<longrightarrow> \<not> P (xs ! k)"
  shows "dropWhile P xs = drop k xs"
proof -
  have "\<forall>x\<in>set (take k xs). P x" using assms(1,2) by (auto simp: in_set_conv_nth)
  then have "dropWhile P (take k xs @ drop k xs) = dropWhile P (drop k xs)" by (intro dropWhile_append2) auto
  moreover have "dropWhile P (drop k xs) = drop k xs"
    using assms(3) by (cases "k < length xs") (auto simp flip: Cons_nth_drop_Suc)
  ultimately show ?thesis by simp
qed

text \<open>C2. An iterator over a finished block is a cursor over the list of entries that was added to the
  builder, whatever the restart interval: from \<open>SeekToFirst\<close>, \<open>Next\<close> delivers the entries in order and then
  the iterator is invalid; from \<open>SeekToLast\<close>, \<open>Prev\<close> delivers them in reverse; after \<open>Seek\<close> (a binary search
  over the restart points and a linear scan) the entries from the first key that is not below the target
  follow. No step reads outside the block and every loop ends.\<close>

theorem block_iterator_is_cursor:
  assumes "1 \<le> interval" "length (built_block interval kvs) < 2 ^ 32"
    "key_order valid cmp" "valid target" "\<forall>kv\<in>set kvs. valid (fst kv)" "sorted_wrt (\<lambda>a b. cmp (fst a) (fst b) < 0) kvs"
  shows "\<exists>it. Block_NewIterator (built_block interval kvs) = Inr it \<and>
    Option.bind (BlockIter_SeekToFirst it) (block_scan BlockIter_Next) = Some kvs \<and>
    Option.bind (BlockIter_SeekToLast it) (block_scan BlockIter_Prev) = Some (rev kvs) \<and>
    Option.bind (BlockIter_Seek cmp it target) (block_scan BlockIter_Next) =
      Some (dropWhile (\<lambda>kv. cmp (fst kv) target < 0) kvs)"
proof -
  have fb: "finished_block interval kvs" using assms(1,2) by unfold_locales
  note bl = finished_block.layout [OF fb]
  obtain it where it: "Block_NewIterator (built_block interval kvs) = Inr it"
    "iter_of (built_block interval kvs) (built_offset interval kvs (length kvs)) (length (built_restarts interval kvs)) it"
    using finished_block.NewIterator_law [OF fb] by blast
  obtain f where f: "BlockIter_SeekToFirst it = Some f" "block_scan BlockIter_Next f = Some kvs"
    using block_layout.SeekToFirst_law [OF bl it(2)] block_layout.scan_forward [OF bl] by fastforce
  obtain l where l: "BlockIter_SeekToLast it = Some l" "block_scan BlockIter_Prev l = Some (rev kvs)"
  proof (cases "kvs = []")
    case True
    then show thesis using block_layout.SeekToLast_law [OF bl it(2)] block_layout.standing_Valid [OF bl] that
      by (fastforce simp: block_scan.simps)
  next
    case False
    then show thesis using block_layout.SeekToLast_law [OF bl it(2)] block_layout.scan_backward [OF bl, of "length kvs - 1"] that
      by fastforce
  qed
  obtain k s where s: "BlockIter_Seek cmp it target = Some s" "block_scan BlockIter_Next s = Some (drop k kvs)"
    "k \<le> length kvs" "\<forall>i<k. cmp (fst (kvs ! i)) target < 0" "k < length kvs \<longrightarrow> cmp (fst (kvs ! k)) target \<ge> 0"
    using block_layout.Seek_law [OF bl assms(3) it(2) assms(4-6)] block_layout.scan_forward [OF bl] by metis
  have "dropWhile (\<lambda>kv. cmp (fst kv) target < 0) kvs = drop k kvs" using s(3-5) by (intro dropWhile_at) auto
  then show ?thesis using it(1) f l s(1,2) by simp
qed


theorem block_iterator_is_cursor_witness:
  "\<exists>it. Block_NewIterator (built_block 2 [([1], [7]), ([1, 2], [8]), ([3], [])]) = Inr it \<and>
    Option.bind (BlockIter_SeekToFirst it) (block_scan BlockIter_Next) = Some [([1], [7]), ([1, 2], [8]), ([3], [])] \<and>
    Option.bind (BlockIter_SeekToLast it) (block_scan BlockIter_Prev) = Some (rev [([1], [7]), ([1, 2], [8]), ([3], [])]) \<and>
    Option.bind (BlockIter_Seek Bytewise_Compare it [1, 1]) (block_scan BlockIter_Next) =
      Some [([1, 2], [8]), ([3], [])]"
proof -
  have "length (built_block 2 [([1], [7]), ([1, 2], [8]), ([3], [])]) < 2 ^ 32"
    by (simp add: built_block_bytes built_restarts_def built_entry_def entry_bytes_def built_shared_def EncodeVarint32_def)
  then show ?thesis using block_iterator_is_cursor [OF _ _ bytewise.key_order_axioms, of 2 "[([1], [7]), ([1, 2], [8]), ([3], [])]" "[1, 1]"]
    by (simp add: Bytewise_Compare_def Slice_compare_def)
qed


text \<open>The other side of \<open>DecodeEntry\<close>'s length check: \<open>non_shared + value_length\<close> is a 32-bit sum, so two
  lengths that add up to \<open>2 ^ 32\<close> pass it. The block below is accepted, and the first \<open>SeekToFirst\<close> copies
  key bytes from far behind its end.\<close>

definition wrapping_block :: slice where
  "wrapping_block = [0, 255, 255, 255, 255, 15, 1, 0, 0, 0, 0, 1, 0, 0, 0]"

text \<open>A corrupt entry whose two lengths add up to \<open>2 ^ 32\<close> passes the bounds check of \<open>DecodeEntry\<close>: the
  iterator over the block is created without an error, and moving it to the first entry reads outside
  the block.\<close>

theorem block_entry_length_wraps:
  "\<exists>it. Block_NewIterator wrapping_block = Inr it \<and> BlockIter_SeekToFirst it = None"
proof -
  have new: "Block_NewIterator wrapping_block = Inr (BlockIter_new wrapping_block 7 1)"
    by (simp add: Block_NewIterator_def Block_make_def wrapping_block_def NumRestarts_def DecodeFixed32_bytes)
  have dec: "DecodeEntry (take 7 wrapping_block) = Some (0, 4294967295, 1, [])"
    by (simp add: DecodeEntry_slow wrapping_block_def GetVarint32Ptr_def GetVarint32PtrFallback_def)
  have "BlockIter_SeekToFirst (BlockIter_new wrapping_block 7 1) = None"
    using dec by (simp add: BlockIter_SeekToFirst_def ParseNextKey_def SeekToRestartPoint_def GetRestartPoint_def
        NextEntryOffset_def BlockIter_new_def Let_def) (simp add: wrapping_block_def DecodeFixed32_bytes)
  then show ?thesis using new by blast
qed

end
