(* ===== verification/SkipList.thy ===== *)
theory SkipList
  imports KeyOrder
begin

text \<open>
  The skip list of \<open>db/skiplist.h\<close> and the random generator of \<open>util/random.h\<close> that picks its heights. Nodes
  are addresses in a list, the head is node 0; a node's \<open>next_\<close> array is as long as its height, and a link
  is \<open>None\<close> when it is NULL. Using a link a node does not have is the result \<open>None\<close> of an operation.
\<close>

subsection \<open>Random\<close>

definition Random_M :: uint32 where "Random_M = 2147483647"

definition Random_new :: "uint32 \<Rightarrow> uint32" where
  "Random_new s = (let seed = s AND 0x7fffffff in if seed = 0 \<or> seed = 2147483647 then 1 else seed)"

definition Random_Next :: "uint32 \<Rightarrow> uint32" where
  "Random_Next seed =
     (let product = ucast seed * 16807 :: uint64;
          seed = ucast (drop_bit 31 product + (product AND ucast Random_M)) :: uint32
      in if Random_M < seed then seed - Random_M else seed)"

definition Random_Uniform :: "uint32 \<Rightarrow> uint32 \<Rightarrow> uint32 \<times> uint32" where
  "Random_Uniform seed n = (let seed = Random_Next seed in (seed, seed mod n))"

definition Random_OneIn :: "uint32 \<Rightarrow> uint32 \<Rightarrow> uint32 \<times> bool" where
  "Random_OneIn seed n = (let seed = Random_Next seed in (seed, seed mod n = 0))"

definition Random_Skewed :: "uint32 \<Rightarrow> nat \<Rightarrow> uint32 \<times> uint32" where
  "Random_Skewed seed max_log =
     (let (seed, base) = Random_Uniform seed (word_of_nat (max_log + 1)) in Random_Uniform seed (push_bit (unat base) 1))"

subsection \<open>Nodes\<close>

definition kMaxHeight :: nat where "kMaxHeight = 12"

record 'k Node =
  n_key :: 'k
  n_next :: "nat option list"

record 'k SkipList =
  sl_nodes :: "'k Node list"
  sl_max_height :: nat
  sl_rnd :: uint32

definition Node_Next :: "'k SkipList \<Rightarrow> nat \<Rightarrow> nat \<Rightarrow> nat option option" where
  "Node_Next s x n =
     (if x < length (sl_nodes s) \<and> n < length (n_next (sl_nodes s ! x)) then Some (n_next (sl_nodes s ! x) ! n) else None)"

definition Node_SetNext :: "'k SkipList \<Rightarrow> nat \<Rightarrow> nat \<Rightarrow> nat option \<Rightarrow> 'k SkipList option" where
  "Node_SetNext s x n y =
     (if x < length (sl_nodes s) \<and> n < length (n_next (sl_nodes s ! x))
      then Some (s \<lparr> sl_nodes := (sl_nodes s) [x := (sl_nodes s ! x) \<lparr> n_next := (n_next (sl_nodes s ! x)) [n := y] \<rparr>] \<rparr>)
      else None)"

definition node_key :: "'k SkipList \<Rightarrow> nat \<Rightarrow> 'k" where
  "node_key s x = n_key (sl_nodes s ! x)"

text \<open>The links of a new node are not initialised; they are set before anything reads them.\<close>

definition NewNode :: "'k SkipList \<Rightarrow> 'k \<Rightarrow> nat \<Rightarrow> 'k SkipList \<times> nat" where
  "NewNode s key height = (s \<lparr> sl_nodes := sl_nodes s @ [\<lparr> n_key = key, n_next = replicate height None \<rparr>] \<rparr>, length (sl_nodes s))"

definition SkipList_new :: "'k \<Rightarrow> 'k SkipList" where
  "SkipList_new any_key = \<lparr> sl_nodes = [\<lparr> n_key = any_key, n_next = replicate kMaxHeight None \<rparr>], sl_max_height = 1,
     sl_rnd = Random_new 0xdeadbeef \<rparr>"

subsection \<open>Searching\<close>

definition KeyIsAfterNode :: "('k \<Rightarrow> 'k \<Rightarrow> int) \<Rightarrow> 'k SkipList \<Rightarrow> 'k \<Rightarrow> nat option \<Rightarrow> bool" where
  "KeyIsAfterNode cmp s key n = (case n of None \<Rightarrow> False | Some x \<Rightarrow> cmp (node_key s x) key < 0)"

text \<open>The loop of \<open>FindGreaterOrEqual\<close>, with the array \<open>prev\<close> it fills.\<close>

partial_function (option) FindGreaterOrEqual_loop ::
    "('k \<Rightarrow> 'k \<Rightarrow> int) \<Rightarrow> 'k SkipList \<Rightarrow> 'k \<Rightarrow> nat \<Rightarrow> nat \<Rightarrow> nat option list \<Rightarrow> (nat option \<times> nat option list) option" where
  "FindGreaterOrEqual_loop cmp s key x level prev =
     (case Node_Next s x level of
        None \<Rightarrow> None
      | Some nxt \<Rightarrow>
          if KeyIsAfterNode cmp s key nxt then FindGreaterOrEqual_loop cmp s key (the nxt) level prev
          else if level = 0 then Some (nxt, prev [level := Some x])
          else FindGreaterOrEqual_loop cmp s key x (level - 1) (prev [level := Some x]))"

definition FindGreaterOrEqual :: "('k \<Rightarrow> 'k \<Rightarrow> int) \<Rightarrow> 'k SkipList \<Rightarrow> 'k \<Rightarrow> (nat option \<times> nat option list) option" where
  "FindGreaterOrEqual cmp s key = FindGreaterOrEqual_loop cmp s key 0 (sl_max_height s - 1) (replicate kMaxHeight None)"

partial_function (option) FindLessThan_loop :: "('k \<Rightarrow> 'k \<Rightarrow> int) \<Rightarrow> 'k SkipList \<Rightarrow> 'k \<Rightarrow> nat \<Rightarrow> nat \<Rightarrow> nat option" where
  "FindLessThan_loop cmp s key x level =
     (case Node_Next s x level of
        None \<Rightarrow> None
      | Some nxt \<Rightarrow>
          if nxt = None \<or> cmp (node_key s (the nxt)) key \<ge> 0
          then (if level = 0 then Some x else FindLessThan_loop cmp s key x (level - 1))
          else FindLessThan_loop cmp s key (the nxt) level)"

definition FindLessThan :: "('k \<Rightarrow> 'k \<Rightarrow> int) \<Rightarrow> 'k SkipList \<Rightarrow> 'k \<Rightarrow> nat option" where
  "FindLessThan cmp s key = FindLessThan_loop cmp s key 0 (sl_max_height s - 1)"

partial_function (option) FindLast_loop :: "'k SkipList \<Rightarrow> nat \<Rightarrow> nat \<Rightarrow> nat option" where
  "FindLast_loop s x level =
     (case Node_Next s x level of
        None \<Rightarrow> None
      | Some nxt \<Rightarrow>
          if nxt = None then (if level = 0 then Some x else FindLast_loop s x (level - 1))
          else FindLast_loop s (the nxt) level)"

definition FindLast :: "'k SkipList \<Rightarrow> nat option" where
  "FindLast s = FindLast_loop s 0 (sl_max_height s - 1)"

subsection \<open>Insertion\<close>

function RandomHeight_loop :: "uint32 \<Rightarrow> nat \<Rightarrow> uint32 \<times> nat" where
  "RandomHeight_loop rnd height =
     (if height < kMaxHeight
      then let rnd = Random_Next rnd in if rnd mod 4 = 0 then RandomHeight_loop rnd (height + 1) else (rnd, height)
      else (rnd, height))"
  by pat_completeness auto
termination by (relation "measure (\<lambda>(_, height). kMaxHeight - height)") auto

declare RandomHeight_loop.simps [simp del]

definition RandomHeight :: "'k SkipList \<Rightarrow> 'k SkipList \<times> nat" where
  "RandomHeight s = (case RandomHeight_loop (sl_rnd s) 1 of (rnd, height) \<Rightarrow> (s \<lparr> sl_rnd := rnd \<rparr>, height))"

text \<open>One round of the linking loop, and its first \<open>n\<close> rounds.\<close>

definition Insert_link :: "nat \<Rightarrow> nat option list \<Rightarrow> nat \<Rightarrow> 'k SkipList \<Rightarrow> 'k SkipList option" where
  "Insert_link x prev i s =
     (case prev ! i of
        None \<Rightarrow> None
      | Some p \<Rightarrow>
          (case Node_Next s p i of
             None \<Rightarrow> None
           | Some nxt \<Rightarrow> Option.bind (Node_SetNext s x i nxt) (\<lambda>s. Node_SetNext s p i (Some x))))"

fun Insert_links :: "nat \<Rightarrow> nat option list \<Rightarrow> nat \<Rightarrow> 'k SkipList \<Rightarrow> 'k SkipList option" where
  "Insert_links x prev 0 s = Some s"
| "Insert_links x prev (Suc n) s = Option.bind (Insert_links x prev n s) (Insert_link x prev n)"

text \<open>\<open>Insert\<close> up to the linking loop: the new node, \<open>prev\<close> and the height.\<close>

definition Insert_prepare :: "('k \<Rightarrow> 'k \<Rightarrow> int) \<Rightarrow> 'k SkipList \<Rightarrow> 'k \<Rightarrow> ('k SkipList \<times> nat \<times> nat option list \<times> nat) option" where
  "Insert_prepare cmp s key =
     (case FindGreaterOrEqual cmp s key of
        None \<Rightarrow> None
      | Some (_, prev) \<Rightarrow>
          let (s, height) = RandomHeight s;
              prev = (if sl_max_height s < height
                      then take (sl_max_height s) prev @ replicate (height - sl_max_height s) (Some 0) @ drop height prev else prev);
              s = (if sl_max_height s < height then s \<lparr> sl_max_height := height \<rparr> else s);
              (s, x) = NewNode s key height
          in Some (s, x, prev, height))"

definition SkipList_Insert :: "('k \<Rightarrow> 'k \<Rightarrow> int) \<Rightarrow> 'k SkipList \<Rightarrow> 'k \<Rightarrow> 'k SkipList option" where
  "SkipList_Insert cmp s key =
     Option.bind (Insert_prepare cmp s key) (\<lambda>(s, x, prev, height). Insert_links x prev height s)"

definition SkipList_Contains :: "('k \<Rightarrow> 'k \<Rightarrow> int) \<Rightarrow> 'k SkipList \<Rightarrow> 'k \<Rightarrow> bool option" where
  "SkipList_Contains cmp s key =
     map_option (\<lambda>(x, _). case x of None \<Rightarrow> False | Some x \<Rightarrow> cmp key (node_key s x) = 0) (FindGreaterOrEqual cmp s key)"

subsection \<open>Iterator\<close>

type_synonym sl_iter = "nat option"

definition Iter_new :: sl_iter where "Iter_new = None"

definition Iter_Valid :: "sl_iter \<Rightarrow> bool" where "Iter_Valid it \<longleftrightarrow> it \<noteq> None"

definition Iter_key :: "'k SkipList \<Rightarrow> sl_iter \<Rightarrow> 'k" where "Iter_key s it = node_key s (the it)"

definition Iter_Next :: "'k SkipList \<Rightarrow> sl_iter \<Rightarrow> sl_iter option" where "Iter_Next s it = Node_Next s (the it) 0"

definition Iter_Prev :: "('k \<Rightarrow> 'k \<Rightarrow> int) \<Rightarrow> 'k SkipList \<Rightarrow> sl_iter \<Rightarrow> sl_iter option" where
  "Iter_Prev cmp s it = map_option (\<lambda>x. if x = 0 then None else Some x) (FindLessThan cmp s (node_key s (the it)))"

definition Iter_Seek :: "('k \<Rightarrow> 'k \<Rightarrow> int) \<Rightarrow> 'k SkipList \<Rightarrow> 'k \<Rightarrow> sl_iter option" where
  "Iter_Seek cmp s target = map_option fst (FindGreaterOrEqual cmp s target)"

definition Iter_SeekToFirst :: "'k SkipList \<Rightarrow> sl_iter option" where "Iter_SeekToFirst s = Node_Next s 0 0"

definition Iter_SeekToLast :: "'k SkipList \<Rightarrow> sl_iter option" where
  "Iter_SeekToLast s = map_option (\<lambda>x. if x = 0 then None else Some x) (FindLast s)"


subsection \<open>Levels\<close>

text \<open>The nodes that follow \<open>p\<close> on a level.\<close>

fun chain :: "'k SkipList \<Rightarrow> nat \<Rightarrow> nat \<Rightarrow> nat list \<Rightarrow> bool" where
  "chain s l p [] \<longleftrightarrow> Node_Next s p l = Some None"
| "chain s l p (x # xs) \<longleftrightarrow> Node_Next s p l = Some (Some x) \<and> chain s l x xs"

text \<open>\<open>Ls l\<close> are the nodes of level \<open>l\<close>: sorted, each level within the one below, empty from \<open>max_height_\<close> on.\<close>

definition sl_levels :: "('k \<Rightarrow> bool) \<Rightarrow> ('k \<Rightarrow> 'k \<Rightarrow> int) \<Rightarrow> 'k SkipList \<Rightarrow> (nat \<Rightarrow> nat list) \<Rightarrow> bool" where
  "sl_levels valid cmp s Ls \<longleftrightarrow>
     (\<forall>l<kMaxHeight. chain s l 0 (Ls l) \<and> sorted_wrt (\<lambda>a b. cmp (node_key s a) (node_key s b) < 0) (Ls l)) \<and>
     (\<forall>l. Suc l < kMaxHeight \<longrightarrow> set (Ls (Suc l)) \<subseteq> set (Ls l)) \<and>
     (\<forall>x\<in>set (Ls 0). 0 < x \<and> x < length (sl_nodes s) \<and> valid (node_key s x)) \<and>
     0 < sl_max_height s \<and> sl_max_height s \<le> kMaxHeight \<and> (\<forall>l<kMaxHeight. sl_max_height s \<le> l \<longrightarrow> Ls l = [])"

lemma chain_from: "chain s l p xs \<Longrightarrow> p # xs = pre @ x # post \<Longrightarrow> chain s l x post"
proof (induction s l p xs arbitrary: pre rule: chain.induct)
  case (1 s l p)
  then show ?case by (cases pre) auto
next
  case (2 s l p y ys)
  then show ?case by (cases pre) auto
qed

lemma chain_unique: "chain s l p xs \<Longrightarrow> chain s l p ys \<Longrightarrow> xs = ys"
proof (induction s l p xs arbitrary: ys rule: chain.induct)
  case (1 s l p)
  then show ?case by (cases ys) auto
next
  case (2 s l p x xs)
  then show ?case by (cases ys) auto
qed

definition below :: "('k \<Rightarrow> 'k \<Rightarrow> int) \<Rightarrow> 'k SkipList \<Rightarrow> 'k \<Rightarrow> nat \<Rightarrow> bool" where
  "below cmp s key a \<longleftrightarrow> cmp (node_key s a) key < 0"

abbreviation first_node :: "nat list \<Rightarrow> nat option" where
  "first_node xs \<equiv> (case xs of [] \<Rightarrow> None | x # _ \<Rightarrow> Some x)"

lemma chain_next: "chain s l p xs \<Longrightarrow> Node_Next s p l = Some (first_node xs)"
  by (cases xs) auto

lemma FGE_walk:
  "chain s level x post \<Longrightarrow> FindGreaterOrEqual_loop cmp s key x level prev =
    FindGreaterOrEqual_loop cmp s key (last (x # takeWhile (below cmp s key) post)) level prev"
proof (induction post arbitrary: x)
  case (Cons y post)
  show ?case
  proof (cases "below cmp s key y")
    case True
    then have "FindGreaterOrEqual_loop cmp s key x level prev = FindGreaterOrEqual_loop cmp s key y level prev"
      using Cons.prems by (subst FindGreaterOrEqual_loop.simps) (simp add: KeyIsAfterNode_def below_def)
    then show ?thesis using Cons True by simp
  qed simp
qed simp

lemma FLT_walk:
  "chain s level x post \<Longrightarrow> FindLessThan_loop cmp s key x level =
    FindLessThan_loop cmp s key (last (x # takeWhile (below cmp s key) post)) level"
proof (induction post arbitrary: x)
  case (Cons y post)
  show ?case
  proof (cases "below cmp s key y")
    case True
    then have "FindLessThan_loop cmp s key x level = FindLessThan_loop cmp s key y level"
      using Cons.prems by (subst FindLessThan_loop.simps) (simp add: below_def)
    then show ?thesis using Cons True by simp
  qed simp
qed simp

lemma FL_walk: "chain s level x post \<Longrightarrow> FindLast_loop s x level = FindLast_loop s (last (x # post)) level"
proof (induction post arbitrary: x)
  case (Cons y post)
  have "FindLast_loop s x level = FindLast_loop s y level"
    using Cons.prems by (subst FindLast_loop.simps) simp
  then show ?case using Cons by simp
qed simp

lemma takeWhile_first: "first_node (dropWhile P xs) = Some y \<Longrightarrow> \<not> P y"
  by (induction xs) (auto split: if_splits)

lemma chain_last: "chain s l x post \<Longrightarrow> post = xs @ ys \<Longrightarrow> chain s l (last (x # xs)) ys"
proof (induction s l x post arbitrary: xs rule: chain.induct)
  case (2 s l p y ys')
  then show ?case by (cases xs) auto
qed auto

lemma chain_at_last: "chain s l x post \<Longrightarrow> Node_Next s (last (x # takeWhile P post)) l = Some (first_node (dropWhile P post))"
  by (rule chain_next) (rule chain_last, assumption, simp)

context key_order
begin

text \<open>Where the search stands on a level: everything up to \<open>x\<close> is below the key.\<close>

definition stands :: "'k SkipList \<Rightarrow> (nat \<Rightarrow> nat list) \<Rightarrow> 'k \<Rightarrow> nat \<Rightarrow> nat \<Rightarrow> bool" where
  "stands s Ls key level x \<longleftrightarrow> (\<exists>pre post. 0 # Ls level = pre @ x # post \<and> (\<forall>a\<in>set (tl (pre @ [x])). below cmp s key a))"

lemma levels_subset: "sl_levels valid cmp s Ls \<Longrightarrow> l < kMaxHeight \<Longrightarrow> set (Ls l) \<subseteq> set (Ls 0)"
  by (induction l) (auto simp: sl_levels_def)

lemma levels_valid: "sl_levels valid cmp s Ls \<Longrightarrow> l < kMaxHeight \<Longrightarrow> x \<in> set (Ls l) \<Longrightarrow> valid (node_key s x) \<and> 0 < x \<and> x < length (sl_nodes s)"
  using levels_subset [of s Ls l] by (auto simp: sl_levels_def)

lemma levels_chain: "sl_levels valid cmp s Ls \<Longrightarrow> l < kMaxHeight \<Longrightarrow> chain s l 0 (Ls l)"
  by (simp add: sl_levels_def)

lemma levels_sorted: "sl_levels valid cmp s Ls \<Longrightarrow> l < kMaxHeight \<Longrightarrow> sorted_wrt (\<lambda>a b. cmp (node_key s a) (node_key s b) < 0) (Ls l)"
  by (simp add: sl_levels_def)

lemma levels_step: "sl_levels valid cmp s Ls \<Longrightarrow> Suc l < kMaxHeight \<Longrightarrow> set (Ls (Suc l)) \<subseteq> set (Ls l)"
  by (simp add: sl_levels_def)

lemma stands_head: "stands s Ls key level 0"
  unfolding stands_def by (rule exI [of _ "[]"]) simp

lemma stands_takeWhile:
  assumes "0 # L = pre @ x # post" "\<forall>a\<in>set (tl (pre @ [x])). below cmp s key a"
  shows "last (x # takeWhile (below cmp s key) post) = last (0 # takeWhile (below cmp s key) L)"
    "dropWhile (below cmp s key) post = dropWhile (below cmp s key) L"
proof -
  have Ld: "L = tl (pre @ [x]) @ post" using assms(1) by (cases pre) auto
  have "pre @ [x] = 0 # tl (pre @ [x])" using assms(1) by (cases pre) auto
  then have "last (0 # tl (pre @ [x]) @ ys) = last (x # ys)" for ys
    by (metis append_Cons append_assoc last_appendR list.distinct(1) append_Nil2 self_append_conv2)
  then show "last (x # takeWhile (below cmp s key) post) = last (0 # takeWhile (below cmp s key) L)"
    using assms(2) unfolding Ld by (simp add: takeWhile_append2 del: last.simps)
  show "dropWhile (below cmp s key) post = dropWhile (below cmp s key) L"
    using assms(2) unfolding Ld by (simp add: dropWhile_append2)
qed

lemma stands_down:
  assumes "sl_levels valid cmp s Ls" "Suc l < kMaxHeight" "valid key"
  shows "stands s Ls key l (last (0 # takeWhile (below cmp s key) (Ls (Suc l))))"
proof (cases "takeWhile (below cmp s key) (Ls (Suc l)) = []")
  case True
  then show ?thesis using stands_head by simp
next
  case False
  define x where "x = last (takeWhile (below cmp s key) (Ls (Suc l)))"
  have x: "x \<in> set (takeWhile (below cmp s key) (Ls (Suc l)))" using False by (simp add: x_def)
  then have b: "below cmp s key x" "x \<in> set (Ls (Suc l))" using set_takeWhileD by metis+
  then have "x \<in> set (Ls l)" using assms(1,2) by (auto simp: sl_levels_def)
  then obtain pre post where L: "Ls l = pre @ x # post" by (meson split_list)
  have sorted: "sorted_wrt (\<lambda>a b. cmp (node_key s a) (node_key s b) < 0) (Ls l)" using assms(1,2) by (simp add: sl_levels_def)
  have "below cmp s key a" if "a \<in> set pre" for a
  proof -
    have "cmp (node_key s a) (node_key s x) < 0" using sorted that unfolding L by (auto simp: sorted_wrt_append)
    moreover have "valid (node_key s a)" "valid (node_key s x)"
      using levels_valid [OF assms(1), of l] assms(2) that L by auto
    ultimately show ?thesis using b(1) cmp_less_trans [of "node_key s a" "node_key s x" key] assms(3) by (simp add: below_def)
  qed
  then have "\<forall>a\<in>set (tl ((0 # pre) @ [x])). below cmp s key a" using b(1) by auto
  moreover have "last (0 # takeWhile (below cmp s key) (Ls (Suc l))) = x" using False by (simp add: x_def)
  moreover have "0 # Ls l = (0 # pre) @ x # post" using L by simp
  ultimately show ?thesis unfolding stands_def by metis
qed

lemma FGE_law:
  assumes "sl_levels valid cmp s Ls" "valid key" "level < kMaxHeight" "stands s Ls key level x" "length prev = kMaxHeight"
  shows "\<exists>prev'. FindGreaterOrEqual_loop cmp s key x level prev = Some (first_node (dropWhile (below cmp s key) (Ls 0)), prev') \<and>
    length prev' = kMaxHeight \<and> (\<forall>l\<le>level. prev' ! l = Some (last (0 # takeWhile (below cmp s key) (Ls l)))) \<and>
    (\<forall>l>level. prev' ! l = prev ! l)"
  using assms(3-5)
proof (induction level arbitrary: x prev)
  case 0
  obtain pre post where p: "0 # Ls 0 = pre @ x # post" "\<forall>a\<in>set (tl (pre @ [x])). below cmp s key a" using 0(2) by (auto simp: stands_def)
  have c: "chain s 0 x post" by (rule chain_from [OF levels_chain [OF assms(1) 0(1)] p(1)])
  note st = stands_takeWhile [OF p]
  have "\<not> KeyIsAfterNode cmp s key (first_node (dropWhile (below cmp s key) (Ls 0)))"
    using takeWhile_first [of "below cmp s key" "Ls 0"] by (auto simp: KeyIsAfterNode_def below_def split: option.split)
  then show ?case
    using FGE_walk [OF c, of cmp key prev] chain_at_last [OF c, of "below cmp s key"] st 0(3)
    by (subst (asm) (2) FindGreaterOrEqual_loop.simps) (simp add: kMaxHeight_def)
next
  case (Suc level)
  obtain pre post where p: "0 # Ls (Suc level) = pre @ x # post" "\<forall>a\<in>set (tl (pre @ [x])). below cmp s key a" using Suc.prems(2) by (auto simp: stands_def)
  have c: "chain s (Suc level) x post" by (rule chain_from [OF levels_chain [OF assms(1) Suc.prems(1)] p(1)])
  note st = stands_takeWhile [OF p]
  let ?y = "last (0 # takeWhile (below cmp s key) (Ls (Suc level)))"
  have "\<not> KeyIsAfterNode cmp s key (first_node (dropWhile (below cmp s key) (Ls (Suc level))))"
    using takeWhile_first [of "below cmp s key" "Ls (Suc level)"] by (auto simp: KeyIsAfterNode_def below_def split: option.split)
  then have step: "FindGreaterOrEqual_loop cmp s key x (Suc level) prev = FindGreaterOrEqual_loop cmp s key ?y level (prev [Suc level := Some ?y])"
    using FGE_walk [OF c, of cmp key prev] chain_at_last [OF c, of "below cmp s key"] st
    by (subst (asm) (2) FindGreaterOrEqual_loop.simps) simp
  obtain prev' where IH: "FindGreaterOrEqual_loop cmp s key ?y level (prev [Suc level := Some ?y]) = Some (first_node (dropWhile (below cmp s key) (Ls 0)), prev')"
    "length prev' = kMaxHeight" "\<forall>l\<le>level. prev' ! l = Some (last (0 # takeWhile (below cmp s key) (Ls l)))"
    "\<forall>l>level. prev' ! l = prev [Suc level := Some ?y] ! l"
    using Suc.IH [OF _ stands_down [OF assms(1) Suc.prems(1) assms(2)], of "prev [Suc level := Some ?y]"] Suc.prems by (simp del: last.simps) blast
  show ?case using step IH Suc.prems by (intro exI [of _ prev']) (auto simp: le_Suc_eq simp del: last.simps)
qed


lemma FLT_law:
  assumes "sl_levels valid cmp s Ls" "valid key" "level < kMaxHeight" "stands s Ls key level x"
  shows "FindLessThan_loop cmp s key x level = Some (last (0 # takeWhile (below cmp s key) (Ls 0)))"
  using assms(3-4)
proof (induction level arbitrary: x)
  case 0
  obtain pre post where p: "0 # Ls 0 = pre @ x # post" "\<forall>a\<in>set (tl (pre @ [x])). below cmp s key a" using 0(2) by (auto simp: stands_def)
  have c: "chain s 0 x post" by (rule chain_from [OF levels_chain [OF assms(1) 0(1)] p(1)])
  note st = stands_takeWhile [OF p]
  have "first_node (dropWhile (below cmp s key) (Ls 0)) = None \<or> cmp (node_key s (the (first_node (dropWhile (below cmp s key) (Ls 0))))) key \<ge> 0"
    using takeWhile_first [of "below cmp s key" "Ls 0"] by (cases "first_node (dropWhile (below cmp s key) (Ls 0))") (auto simp: below_def)
  then show ?case
    using FLT_walk [OF c, of cmp key] chain_at_last [OF c, of "below cmp s key"] st
    by (subst (asm) (2) FindLessThan_loop.simps) simp
next
  case (Suc level)
  obtain pre post where p: "0 # Ls (Suc level) = pre @ x # post" "\<forall>a\<in>set (tl (pre @ [x])). below cmp s key a" using Suc.prems(2) by (auto simp: stands_def)
  have c: "chain s (Suc level) x post" by (rule chain_from [OF levels_chain [OF assms(1) Suc.prems(1)] p(1)])
  note st = stands_takeWhile [OF p]
  let ?y = "last (0 # takeWhile (below cmp s key) (Ls (Suc level)))"
  have "first_node (dropWhile (below cmp s key) (Ls (Suc level))) = None \<or> cmp (node_key s (the (first_node (dropWhile (below cmp s key) (Ls (Suc level)))))) key \<ge> 0"
    using takeWhile_first [of "below cmp s key" "Ls (Suc level)"] by (cases "first_node (dropWhile (below cmp s key) (Ls (Suc level)))") (auto simp: below_def)
  then have step: "FindLessThan_loop cmp s key x (Suc level) = FindLessThan_loop cmp s key ?y level"
    using FLT_walk [OF c, of cmp key] chain_at_last [OF c, of "below cmp s key"] st
    by (subst (asm) (2) FindLessThan_loop.simps) simp
  then show ?case using Suc.IH [OF _ stands_down [OF assms(1) Suc.prems(1) assms(2)]] Suc.prems(1) by simp
qed

lemma FL_law:
  assumes "sl_levels valid cmp s Ls" "level < kMaxHeight" "x \<in> set (0 # Ls level)"
  shows "FindLast_loop s x level = Some (last (0 # Ls 0))"
  using assms(2,3)
proof (induction level arbitrary: x)
  case 0
  obtain pre post where p: "0 # Ls 0 = pre @ x # post" using 0(2) by (metis split_list)
  have c: "chain s 0 x post" by (rule chain_from [OF levels_chain [OF assms(1) 0(1)] p])
  have "last (x # post) = last (0 # Ls 0)" unfolding p by simp
  then show ?case using FL_walk [OF c] chain_last [OF c, of post "[]"]
    by (subst (asm) (2) FindLast_loop.simps) simp
next
  case (Suc level)
  obtain pre post where p: "0 # Ls (Suc level) = pre @ x # post" using Suc.prems(2) by (metis split_list)
  have c: "chain s (Suc level) x post" by (rule chain_from [OF levels_chain [OF assms(1) Suc.prems(1)] p])
  have y: "last (x # post) = last (0 # Ls (Suc level))" unfolding p by simp
  have "last (0 # Ls (Suc level)) \<in> set (0 # Ls (Suc level))" by (rule last_in_set) simp
  then have "last (0 # Ls (Suc level)) \<in> set (0 # Ls level)" using levels_step [OF assms(1) Suc.prems(1)] by auto
  moreover have "FindLast_loop s x (Suc level) = FindLast_loop s (last (0 # Ls (Suc level))) level"
    using FL_walk [OF c] chain_last [OF c, of post "[]"] y by (subst (asm) (2) FindLast_loop.simps) simp
  ultimately show ?case using Suc.IH Suc.prems(1) by simp
qed

lemma FindGreaterOrEqual_law:
  assumes "sl_levels valid cmp s Ls" "valid key"
  shows "\<exists>prev. FindGreaterOrEqual cmp s key = Some (first_node (dropWhile (below cmp s key) (Ls 0)), prev) \<and> length prev = kMaxHeight \<and>
    (\<forall>l. l < sl_max_height s \<longrightarrow> prev ! l = Some (last (0 # takeWhile (below cmp s key) (Ls l))))"
proof -
  have h: "0 < sl_max_height s" "sl_max_height s \<le> kMaxHeight" using assms(1) by (simp_all add: sl_levels_def)
  then have "sl_max_height s - 1 < kMaxHeight" by simp
  from FGE_law [OF assms this stands_head, of "replicate kMaxHeight None"] h show ?thesis
    by (auto simp: FindGreaterOrEqual_def simp del: last.simps)
qed

lemma FindLessThan_law:
  "sl_levels valid cmp s Ls \<Longrightarrow> valid key \<Longrightarrow> FindLessThan cmp s key = Some (last (0 # takeWhile (below cmp s key) (Ls 0)))"
  unfolding FindLessThan_def by (rule FLT_law [OF _ _ _ stands_head]) (auto simp: sl_levels_def)

lemma FindLast_law: "sl_levels valid cmp s Ls \<Longrightarrow> FindLast s = Some (last (0 # Ls 0))"
  unfolding FindLast_def by (rule FL_law) (auto simp: sl_levels_def)

end

subsection \<open>Linking a node\<close>

lemma Node_SetNext_Some:
  assumes "Node_Next s x n = Some y0"
  shows "\<exists>s'. Node_SetNext s x n y = Some s' \<and> (\<forall>z m. Node_Next s' z m = (if z = x \<and> m = n then Some y else Node_Next s z m)) \<and>
    node_key s' = node_key s \<and> length (sl_nodes s') = length (sl_nodes s) \<and> sl_max_height s' = sl_max_height s"
  using assms by (auto simp: Node_SetNext_def Node_Next_def node_key_def fun_eq_iff nth_list_update split: if_splits)

lemma chain_cong: "(\<forall>z\<in>set (p # xs). Node_Next s' z l = Node_Next s z l) \<Longrightarrow> chain s' l p xs = chain s l p xs"
  by (induction s l p xs rule: chain.induct) auto

lemma chain_insert:
  assumes "chain s l p (as @ bs)" "q = last (p # as)" "distinct (p # as @ bs)" "x \<notin> set (p # as @ bs)"
    "\<forall>z. Node_Next s' z l = (if z = q then Some (Some x) else if z = x then Some (first_node bs) else Node_Next s z l)"
  shows "chain s' l p (as @ x # bs)"
  using assms(1-4)
proof (induction as arbitrary: p)
  case Nil
  then have "chain s l p bs" by simp
  then have "chain s' l x bs"
  proof (cases bs)
    case (Cons b bs')
    have "chain s' l b bs' = chain s l b bs'" using Nil(2-4) Cons assms(5) by (intro chain_cong) auto
    then show ?thesis using Nil Cons assms(5) by auto
  qed (use Nil assms(5) in auto)
  then show ?case using Nil assms(5) by simp
next
  case (Cons a as)
  then have "p \<noteq> q" "p \<noteq> x" by (auto simp: last_ConsR split: if_splits)
  then show ?case using Cons assms(5) by auto
qed


text \<open>The level with \<open>x\<close> at the place of \<open>key\<close>.\<close>

definition with_node :: "('k \<Rightarrow> 'k \<Rightarrow> int) \<Rightarrow> 'k SkipList \<Rightarrow> 'k \<Rightarrow> nat \<Rightarrow> nat list \<Rightarrow> nat list" where
  "with_node cmp s key x L = takeWhile (below cmp s key) L @ x # dropWhile (below cmp s key) L"

lemma set_with_node: "set (with_node cmp s key x L) = insert x (set L)"
proof -
  have "set (takeWhile P L) \<union> set (dropWhile P L) = set L" for P by (metis set_append takeWhile_dropWhile_id)
  then show ?thesis by (auto simp: with_node_def)
qed

lemma Insert_link_law:
  assumes "chain s i 0 L" "distinct (0 # L)" "x \<notin> set (0 # L)" "Node_Next s x i \<noteq> None"
    "prev ! i = Some (last (0 # takeWhile (below cmp s key) L))"
  shows "\<exists>s'. Insert_link x prev i s = Some s' \<and> chain s' i 0 (with_node cmp s key x L) \<and>
    (\<forall>z m. m \<noteq> i \<longrightarrow> Node_Next s' z m = Node_Next s z m) \<and>
    node_key s' = node_key s \<and> length (sl_nodes s') = length (sl_nodes s) \<and> sl_max_height s' = sl_max_height s"
proof -
  let ?as = "takeWhile (below cmp s key) L" and ?bs = "dropWhile (below cmp s key) L"
  let ?p = "last (0 # ?as)"
  have n: "Node_Next s ?p i = Some (first_node ?bs)" by (rule chain_at_last [OF assms(1)])
  have "?p \<in> set (0 # ?as)" by (rule last_in_set) simp
  then have pin: "?p \<in> set (0 # L)" using set_takeWhileD by fastforce
  then have px: "?p \<noteq> x" using assms(3) by metis
  obtain s1 where 1: "Node_SetNext s x i (first_node ?bs) = Some s1"
    "\<forall>z m. Node_Next s1 z m = (if z = x \<and> m = i then Some (first_node ?bs) else Node_Next s z m)"
    "node_key s1 = node_key s" "length (sl_nodes s1) = length (sl_nodes s)" "sl_max_height s1 = sl_max_height s"
    using Node_SetNext_Some [of s x i] assms(4) by blast
  have "Node_Next s1 ?p i = Some (first_node ?bs)" using 1(2) n px by simp
  then obtain s2 where 2: "Node_SetNext s1 ?p i (Some x) = Some s2"
    "\<forall>z m. Node_Next s2 z m = (if z = ?p \<and> m = i then Some (Some x) else Node_Next s1 z m)"
    "node_key s2 = node_key s1" "length (sl_nodes s2) = length (sl_nodes s1)" "sl_max_height s2 = sl_max_height s1"
    using Node_SetNext_Some by blast
  have "chain s2 i 0 (?as @ x # ?bs)"
    by (rule chain_insert [of s i 0 ?as ?bs ?p]) (use assms 1(2) 2(2) in \<open>simp_all del: last.simps\<close>)
  moreover have "Insert_link x prev i s = Some s2" unfolding Insert_link_def assms(5) using n 1(1) 2(1) by simp
  ultimately show ?thesis using 1 2 by (auto simp: with_node_def simp del: last.simps)
qed

lemma Insert_links_law:
  assumes "\<forall>l<kMaxHeight. chain s l 0 (Ls l) \<and> distinct (0 # Ls l) \<and> x \<notin> set (0 # Ls l)" "n \<le> kMaxHeight"
    "\<forall>l<n. Node_Next s x l \<noteq> None" "\<forall>l<n. prev ! l = Some (last (0 # takeWhile (below cmp s key) (Ls l)))"
  shows "\<exists>s'. Insert_links x prev n s = Some s' \<and>
    (\<forall>l<kMaxHeight. chain s' l 0 (if l < n then with_node cmp s key x (Ls l) else Ls l)) \<and>
    (\<forall>z m. n \<le> m \<longrightarrow> Node_Next s' z m = Node_Next s z m) \<and>
    node_key s' = node_key s \<and> length (sl_nodes s') = length (sl_nodes s) \<and> sl_max_height s' = sl_max_height s"
  using assms(2-4)
proof (induction n)
  case 0
  then show ?case using assms(1) by simp
next
  case (Suc n)
  obtain s' where s': "Insert_links x prev n s = Some s'"
    "\<forall>l<kMaxHeight. chain s' l 0 (if l < n then with_node cmp s key x (Ls l) else Ls l)"
    "\<forall>z m. n \<le> m \<longrightarrow> Node_Next s' z m = Node_Next s z m" "node_key s' = node_key s" "length (sl_nodes s') = length (sl_nodes s)"
    "sl_max_height s' = sl_max_height s"
    using Suc by auto
  have b: "below cmp s' key = below cmp s key" using s'(4) by (simp add: below_def fun_eq_iff)
  have n: "n < kMaxHeight" using Suc.prems(1) by simp
  have c: "chain s' n 0 (Ls n)" using s'(2) n by auto
  have d: "distinct (0 # Ls n)" "x \<notin> set (0 # Ls n)" using assms(1) n by auto
  have nn: "Node_Next s' x n \<noteq> None" using s'(3) Suc.prems(2) by simp
  have pv: "prev ! n = Some (last (0 # takeWhile (below cmp s' key) (Ls n)))" using Suc.prems(3) b by (simp del: last.simps)
  obtain s'' where s'': "Insert_link x prev n s' = Some s''" "chain s'' n 0 (with_node cmp s' key x (Ls n))"
    "\<forall>z m. m \<noteq> n \<longrightarrow> Node_Next s'' z m = Node_Next s' z m" "node_key s'' = node_key s'" "length (sl_nodes s'') = length (sl_nodes s')"
    "sl_max_height s'' = sl_max_height s'"
    using Insert_link_law [of s' n "Ls n" x prev cmp key, OF c d nn pv] by blast
  have w: "with_node cmp s' key = with_node cmp s key" by (intro ext) (simp only: with_node_def b)
  have "chain s'' l 0 (if l < Suc n then with_node cmp s key x (Ls l) else Ls l)" if "l < kMaxHeight" for l
  proof (cases "l = n")
    case False
    then have "chain s'' l p xs = chain s' l p xs" for p xs using s''(3) by (intro chain_cong) simp
    then show ?thesis using s'(2) that False by (auto simp: less_Suc_eq)
  qed (use s''(2) w in simp)
  then show ?case using s'(1,3-6) s'' by auto
qed


lemma RandomHeight_bounds: "1 \<le> height \<Longrightarrow> height \<le> kMaxHeight \<Longrightarrow>
    RandomHeight_loop rnd height = (rnd', h) \<Longrightarrow> 1 \<le> h \<and> h \<le> kMaxHeight"
  by (induction rnd height rule: RandomHeight_loop.induct) (subst (asm) (2) RandomHeight_loop.simps, auto simp: Let_def split: if_splits)

context key_order
begin

lemma sorted_distinct: "sorted_wrt (\<lambda>a b. cmp (f a) (f b) < 0) xs \<Longrightarrow> \<forall>x\<in>set xs. valid (f x) \<Longrightarrow> distinct xs"
  by (induction xs) (use cmp_refl in fastforce)+

text \<open>A list of a level stays sorted with the new node, which is in no place twice.\<close>

lemma with_node_sorted:
  assumes "sorted_wrt (\<lambda>a b. cmp (node_key s a) (node_key s b) < 0) L" "\<forall>a\<in>set L. valid (node_key s a)" "valid (node_key s x)"
    "\<forall>a\<in>set L. cmp (node_key s a) (node_key s x) \<noteq> 0"
  shows "sorted_wrt (\<lambda>a b. cmp (node_key s a) (node_key s b) < 0) (with_node cmp s (node_key s x) x L)"
  using assms
proof (induction L)
  case (Cons a L)
  show ?case
  proof (cases "below cmp s (node_key s x) a")
    case True
    then show ?thesis using Cons set_with_node [of cmp s "node_key s x" x L] by (simp add: with_node_def below_def)
  next
    case False
    then have xa: "cmp (node_key s x) (node_key s a) < 0"
      using Cons.prems cmp_flip [of "node_key s x" "node_key s a"] by (simp add: below_def)
    then have "cmp (node_key s x) (node_key s b) < 0" if "b \<in> set L" for b
      using cmp_less_trans [of "node_key s x" "node_key s a" "node_key s b"] Cons.prems that by simp
    then show ?thesis using False Cons.prems xa by (simp add: with_node_def)
  qed
qed (simp add: with_node_def)

lemma prepare_law:
  assumes "sl_levels valid cmp s Ls" "valid key" "\<forall>a\<in>set (Ls 0). cmp (node_key s a) key \<noteq> 0"
  shows "\<exists>s1 prev h. Insert_prepare cmp s key = Some (s1, length (sl_nodes s), prev, h) \<and> sl_levels valid cmp s1 Ls \<and>
    1 \<le> h \<and> h \<le> kMaxHeight \<and> h \<le> sl_max_height s1 \<and> length (sl_nodes s1) = Suc (length (sl_nodes s)) \<and>
    node_key s1 (length (sl_nodes s)) = key \<and> (\<forall>a<length (sl_nodes s). node_key s1 a = node_key s a) \<and>
    (\<forall>l<h. Node_Next s1 (length (sl_nodes s)) l \<noteq> None) \<and> (\<forall>l<h. prev ! l = Some (last (0 # takeWhile (below cmp s1 key) (Ls l))))"
proof -
  obtain prev where f: "FindGreaterOrEqual cmp s key = Some (first_node (dropWhile (below cmp s key) (Ls 0)), prev)" "length prev = kMaxHeight"
    "\<forall>l. l < sl_max_height s \<longrightarrow> prev ! l = Some (last (0 # takeWhile (below cmp s key) (Ls l)))"
    using FindGreaterOrEqual_law [OF assms(1,2)] by blast
  obtain rnd h where r: "RandomHeight_loop (sl_rnd s) 1 = (rnd, h)" by fastforce
  have h: "1 \<le> h" "h \<le> kMaxHeight" using RandomHeight_bounds [OF _ _ r] by (simp_all add: kMaxHeight_def)
  let ?m = "sl_max_height s" and ?x = "length (sl_nodes s)"
  have m: "0 < ?m" "?m \<le> kMaxHeight" "\<forall>l<kMaxHeight. ?m \<le> l \<longrightarrow> Ls l = []" using assms(1) by (simp_all add: sl_levels_def)
  define prev' where "prev' = (if ?m < h then take ?m prev @ replicate (h - ?m) (Some 0) @ drop h prev else prev)"
  define s1 where "s1 = s \<lparr> sl_rnd := rnd, sl_max_height := max ?m h, sl_nodes := sl_nodes s @ [\<lparr> n_key = key, n_next = replicate h None \<rparr>] \<rparr>"
  have prep: "Insert_prepare cmp s key = Some (s1, ?x, prev', h)"
    using f(1) r by (simp add: Insert_prepare_def RandomHeight_def NewNode_def prev'_def s1_def Let_def max_def)
  have old: "Node_Next s1 z l = Node_Next s z l" if "z < ?x" for z l using that by (simp add: Node_Next_def s1_def nth_append)
  have keys: "node_key s1 a = node_key s a" if "a < ?x" for a using that by (simp add: node_key_def s1_def nth_append)
  have in_range: "a < ?x" if "a \<in> set (0 # Ls l)" "l < kMaxHeight" for a l
    using levels_valid [OF assms(1) that(2)] levels_chain [OF assms(1) that(2)] that(1)
    by (cases "Ls l") (auto simp: Node_Next_def split: if_splits)
  have chains: "chain s1 l 0 (Ls l)" if "l < kMaxHeight" for l
    using levels_chain [OF assms(1) that] chain_cong [of 0 "Ls l" s1 l s] old in_range [OF _ that] by simp
  have sorted: "sorted_wrt (\<lambda>a b. cmp (node_key s1 a) (node_key s1 b) < 0) (Ls l)" if "l < kMaxHeight" for l
    using levels_sorted [OF assms(1) that] in_range [OF _ that] keys by (auto elim!: sorted_wrt_mono_rel [rotated])
  have "sl_levels valid cmp s1 Ls"
    using assms(1) chains sorted keys h m unfolding sl_levels_def by (auto simp: s1_def)
  moreover have "takeWhile (below cmp s1 key) (Ls l) = takeWhile (below cmp s key) (Ls l)" if "l < kMaxHeight" for l
    using keys in_range [OF _ that] by (intro takeWhile_cong) (auto simp: below_def)
  then have "prev' ! l = Some (last (0 # takeWhile (below cmp s1 key) (Ls l)))" if "l < h" for l
    using f(2,3) m h that by (cases "l < ?m") (auto simp: prev'_def nth_append)
  moreover have "node_key s1 ?x = key" by (simp add: node_key_def s1_def)
  moreover have "Node_Next s1 ?x l \<noteq> None" if "l < h" for l using that by (simp add: Node_Next_def s1_def)
  ultimately show ?thesis using prep h keys by (intro exI [of _ s1] exI [of _ prev'] exI [of _ h]) (simp add: s1_def)
qed


lemma links_law:
  assumes "sl_levels valid cmp s Ls" "x \<notin> set (0 # Ls 0)" "x < length (sl_nodes s)" "valid (node_key s x)" "key = node_key s x"
    "\<forall>a\<in>set (Ls 0). cmp (node_key s a) key \<noteq> 0" "n \<le> h" "h \<le> kMaxHeight" "h \<le> sl_max_height s"
    "\<forall>l<h. Node_Next s x l \<noteq> None" "\<forall>l<h. prev ! l = Some (last (0 # takeWhile (below cmp s key) (Ls l)))"
  shows "\<exists>s'. Insert_links x prev n s = Some s' \<and> sl_levels valid cmp s' (\<lambda>l. if l < n then with_node cmp s key x (Ls l) else Ls l) \<and>
    node_key s' = node_key s \<and> length (sl_nodes s') = length (sl_nodes s)"
proof -
  have lv: "valid (node_key s a)" "0 < a" if "a \<in> set (Ls l)" "l < kMaxHeight" for a l
    using levels_valid [OF assms(1) that(2,1)] by auto
  have d: "\<forall>l<kMaxHeight. chain s l 0 (Ls l) \<and> distinct (0 # Ls l) \<and> x \<notin> set (0 # Ls l)"
  proof (intro allI impI)
    fix l assume l: "l < kMaxHeight"
    have "distinct (Ls l)" using sorted_distinct [OF levels_sorted [OF assms(1) l]] lv l by blast
    moreover have "0 \<notin> set (Ls l)" using lv(2) l by blast
    ultimately show "chain s l 0 (Ls l) \<and> distinct (0 # Ls l) \<and> x \<notin> set (0 # Ls l)"
      using levels_chain [OF assms(1) l] levels_subset [OF assms(1) l] assms(2) by auto
  qed
  obtain s' where s': "Insert_links x prev n s = Some s'"
    "\<forall>l<kMaxHeight. chain s' l 0 (if l < n then with_node cmp s key x (Ls l) else Ls l)"
    "node_key s' = node_key s" "length (sl_nodes s') = length (sl_nodes s)" "sl_max_height s' = sl_max_height s"
    using Insert_links_law [OF d, of n prev cmp key] assms(7,8,10,11) by auto
  have srt: "sorted_wrt (\<lambda>a b. cmp (node_key s a) (node_key s b) < 0) (if l < n then with_node cmp s key x (Ls l) else Ls l)"
    if l: "l < kMaxHeight" for l
    using with_node_sorted [OF levels_sorted [OF assms(1) l] _ assms(4)] levels_sorted [OF assms(1) l] lv(1) [OF _ l]
      levels_subset [OF assms(1) l] assms(5,6) by auto
  let ?Ls = "\<lambda>l. if l < n then with_node cmp s key x (Ls l) else Ls l"
  have 1: "\<forall>l<kMaxHeight. chain s' l 0 (?Ls l) \<and> sorted_wrt (\<lambda>a b. cmp (node_key s' a) (node_key s' b) < 0) (?Ls l)"
    unfolding s'(3) using s'(2) srt by blast
  have 2: "\<forall>l. Suc l < kMaxHeight \<longrightarrow> set (?Ls (Suc l)) \<subseteq> set (?Ls l)"
    using levels_step [OF assms(1)] by (auto simp: set_with_node)
  have 3: "\<forall>a\<in>set (?Ls 0). 0 < a \<and> a < length (sl_nodes s') \<and> valid (node_key s' a)"
    unfolding s'(3,4) using levels_valid [OF assms(1), of 0] assms(2-4) by (auto simp: set_with_node kMaxHeight_def split: if_splits)
  have 4: "\<forall>l<kMaxHeight. sl_max_height s' \<le> l \<longrightarrow> ?Ls l = []"
    unfolding s'(5) using assms(1,7,9) by (auto simp: sl_levels_def)
  have 5: "0 < sl_max_height s'" "sl_max_height s' \<le> kMaxHeight" unfolding s'(5) using assms(1) by (simp_all add: sl_levels_def)
  have "sl_levels valid cmp s' ?Ls"
    unfolding sl_levels_def using 1 2 3 4 5 by (intro conjI)
  then show ?thesis using s' by blast
qed

end

subsection \<open>The skip list is a sorted list\<close>

definition sl_rep :: "('k \<Rightarrow> bool) \<Rightarrow> ('k \<Rightarrow> 'k \<Rightarrow> int) \<Rightarrow> 'k SkipList \<Rightarrow> 'k list \<Rightarrow> bool" where
  "sl_rep valid cmp s ks \<longleftrightarrow> (\<exists>Ls. sl_levels valid cmp s Ls \<and> ks = map (node_key s) (Ls 0))"

definition sl_at :: "'k SkipList \<Rightarrow> 'k list \<Rightarrow> sl_iter \<Rightarrow> nat \<Rightarrow> bool" where
  "sl_at s ks it j \<longleftrightarrow> (\<exists>L. chain s 0 0 L \<and> ks = map (node_key s) L \<and> j \<le> length L \<and> it = (if j < length L then Some (L ! j) else None))"

definition insert_sorted :: "('k \<Rightarrow> 'k \<Rightarrow> int) \<Rightarrow> 'k \<Rightarrow> 'k list \<Rightarrow> 'k list" where
  "insert_sorted cmp k ks = takeWhile (\<lambda>a. cmp a k < 0) ks @ k # dropWhile (\<lambda>a. cmp a k < 0) ks"

lemma first_node_nth: "first_node (drop j L) = (if j < length L then Some (L ! j) else None)"
  by (cases "j < length L") (simp_all flip: Cons_nth_drop_Suc)

lemma map_takeWhile: "map f (takeWhile (\<lambda>a. P (f a)) L) = takeWhile P (map f L)" "map f (dropWhile (\<lambda>a. P (f a)) L) = dropWhile P (map f L)"
  by (induction L) auto

lemma below_eq: "below cmp s key = (\<lambda>a. cmp (node_key s a) key < 0)"
  by (simp add: below_def fun_eq_iff)

context key_order
begin

lemma sl_new: "sl_rep valid cmp (SkipList_new k0) []"
  unfolding sl_rep_def by (intro exI [of _ "\<lambda>_. []"]) (simp add: sl_levels_def SkipList_new_def Node_Next_def kMaxHeight_def)

lemma sl_rep_sorted: "sl_rep valid cmp s ks \<Longrightarrow> sorted_wrt (\<lambda>a b. cmp a b < 0) ks \<and> (\<forall>k\<in>set ks. valid k)"
  by (auto simp: sl_rep_def sl_levels_def sorted_wrt_map kMaxHeight_def)

text \<open>Every state a reader can meet during an insertion: before the first link nothing has changed, from the
  first link on the key is in the list.\<close>

lemma insert_states:
  assumes "sl_rep valid cmp s ks" "valid key" "\<forall>a\<in>set ks. cmp a key \<noteq> 0"
  shows "\<exists>s1 x prev h. Insert_prepare cmp s key = Some (s1, x, prev, h) \<and> 1 \<le> h \<and>
    (\<forall>n\<le>h. \<exists>s'. Insert_links x prev n s1 = Some s' \<and> sl_rep valid cmp s' (if n = 0 then ks else insert_sorted cmp key ks))"
proof -
  obtain Ls where L: "sl_levels valid cmp s Ls" "ks = map (node_key s) (Ls 0)" using assms(1) by (auto simp: sl_rep_def)
  obtain s1 prev h where p: "Insert_prepare cmp s key = Some (s1, length (sl_nodes s), prev, h)" "sl_levels valid cmp s1 Ls" "1 \<le> h"
    "h \<le> kMaxHeight" "h \<le> sl_max_height s1" "length (sl_nodes s1) = Suc (length (sl_nodes s))" "node_key s1 (length (sl_nodes s)) = key"
    "\<forall>a<length (sl_nodes s). node_key s1 a = node_key s a" "\<forall>l<h. Node_Next s1 (length (sl_nodes s)) l \<noteq> None"
    "\<forall>l<h. prev ! l = Some (last (0 # takeWhile (below cmp s1 key) (Ls l)))"
    using prepare_law [OF L(1) assms(2)] assms(3) L(2) by auto
  let ?x = "length (sl_nodes s)"
  have lt: "a < ?x \<and> 0 < a" if "a \<in> set (Ls 0)" for a using levels_valid [OF L(1), of 0] that by (simp add: kMaxHeight_def)
  have keys: "map (node_key s1) (Ls 0) = ks" using p(8) lt L(2) by simp
  have x0: "0 < ?x" using levels_chain [OF L(1), of 0] by (cases "Ls 0") (auto simp: Node_Next_def kMaxHeight_def split: if_splits)
  have "\<exists>s'. Insert_links ?x prev n s1 = Some s' \<and> sl_rep valid cmp s' (if n = 0 then ks else insert_sorted cmp key ks)" if n: "n \<le> h" for n
  proof -
    obtain s' where s': "Insert_links ?x prev n s1 = Some s'" "sl_levels valid cmp s' (\<lambda>l. if l < n then with_node cmp s1 key ?x (Ls l) else Ls l)"
      "node_key s' = node_key s1"
      using links_law [OF p(2), of ?x key n h prev] p(3-10) lt x0 n assms(2,3) keys by fastforce
    have "map (node_key s1) (with_node cmp s1 key ?x (Ls 0)) = insert_sorted cmp key ks"
      using p(7) keys map_takeWhile [of "node_key s1" "\<lambda>a. cmp a key < 0" "Ls 0"] by (simp add: with_node_def insert_sorted_def below_eq)
    then show ?thesis using s' keys unfolding sl_rep_def by (auto intro!: exI [of _ s'] exI [of _ "\<lambda>l. if l < n then with_node cmp s1 key ?x (Ls l) else Ls l"])
  qed
  then show ?thesis using p(1,3) by blast
qed

lemma Insert_law:
  assumes "sl_rep valid cmp s ks" "valid key" "\<forall>a\<in>set ks. cmp a key \<noteq> 0"
  shows "\<exists>s'. SkipList_Insert cmp s key = Some s' \<and> sl_rep valid cmp s' (insert_sorted cmp key ks)"
proof -
  obtain s1 x prev h where "Insert_prepare cmp s key = Some (s1, x, prev, h)" "1 \<le> h"
    "\<forall>n\<le>h. \<exists>s'. Insert_links x prev n s1 = Some s' \<and> sl_rep valid cmp s' (if n = 0 then ks else insert_sorted cmp key ks)"
    using insert_states [OF assms] by blast
  then show ?thesis by (fastforce simp: SkipList_Insert_def)
qed

lemma rep_chain: "sl_rep valid cmp s ks \<Longrightarrow> \<exists>L. chain s 0 0 L \<and> ks = map (node_key s) L"
proof -
  assume "sl_rep valid cmp s ks"
  then obtain Ls where "sl_levels valid cmp s Ls" "ks = map (node_key s) (Ls 0)" by (auto simp: sl_rep_def)
  then show ?thesis using levels_chain [of s Ls 0] by (auto simp: kMaxHeight_def)
qed

lemma Seek_law:
  assumes "sl_rep valid cmp s ks" "valid key"
  shows "\<exists>it j. Iter_Seek cmp s key = Some it \<and> sl_at s ks it j \<and> drop j ks = dropWhile (\<lambda>a. cmp a key < 0) ks"
proof -
  obtain Ls where L: "sl_levels valid cmp s Ls" "ks = map (node_key s) (Ls 0)" using assms(1) by (auto simp: sl_rep_def)
  let ?j = "length (takeWhile (below cmp s key) (Ls 0))"
  have d: "drop ?j (Ls 0) = dropWhile (below cmp s key) (Ls 0)" by (simp add: dropWhile_eq_drop)
  have "Iter_Seek cmp s key = Some (first_node (drop ?j (Ls 0)))"
    using FindGreaterOrEqual_law [OF L(1) assms(2)] d by (auto simp: Iter_Seek_def)
  moreover have "drop ?j ks = dropWhile (\<lambda>a. cmp a key < 0) ks"
    using arg_cong [OF d, of "map (node_key s)"] map_takeWhile(2) [of "node_key s" "\<lambda>a. cmp a key < 0" "Ls 0"] L(2) by (simp add: below_eq drop_map)
  moreover have "sl_at s ks (first_node (drop ?j (Ls 0))) ?j"
    unfolding sl_at_def using levels_chain [OF L(1), of 0] L(2) length_takeWhile_le [of "below cmp s key" "Ls 0"]
    by (intro exI [of _ "Ls 0"]) (simp add: first_node_nth kMaxHeight_def)
  ultimately show ?thesis by blast
qed

end


subsection \<open>Readers while the writer links\<close>

text \<open>One writer and one reader on a shared list: the writer's insertions in single links, the reader's
  search for \<open>target\<close> in single loads, in any interleaving. A store is visible at once; the acquire and
  release operations of the code give the reader the node behind a pointer it has read.\<close>

datatype writer = WIdle | WLinking nat "nat option list" nat nat
datatype reader = RIdle | RSearching nat nat | RFound "nat option"

inductive reader_step :: "('k \<Rightarrow> 'k \<Rightarrow> int) \<Rightarrow> 'k \<Rightarrow> 'k SkipList \<Rightarrow> reader \<Rightarrow> reader \<Rightarrow> bool" for cmp target s where
  r_start: "reader_step cmp target s r (RSearching 0 (sl_max_height s - 1))"
| r_next: "Node_Next s x level = Some nxt \<Longrightarrow> KeyIsAfterNode cmp s target nxt \<Longrightarrow>
    reader_step cmp target s (RSearching x level) (RSearching (the nxt) level)"
| r_down: "Node_Next s x (Suc level) = Some nxt \<Longrightarrow> \<not> KeyIsAfterNode cmp s target nxt \<Longrightarrow>
    reader_step cmp target s (RSearching x (Suc level)) (RSearching x level)"
| r_found: "Node_Next s x 0 = Some nxt \<Longrightarrow> \<not> KeyIsAfterNode cmp s target nxt \<Longrightarrow>
    reader_step cmp target s (RSearching x 0) (RFound nxt)"

inductive writer_step :: "('k \<Rightarrow> bool) \<Rightarrow> ('k \<Rightarrow> 'k \<Rightarrow> int) \<Rightarrow> 'k SkipList \<times> writer \<Rightarrow> 'k SkipList \<times> writer \<Rightarrow> bool" for valid cmp where
  w_start: "valid key \<Longrightarrow> sl_rep valid cmp s ks \<Longrightarrow> \<forall>a\<in>set ks. cmp a key \<noteq> 0 \<Longrightarrow> Insert_prepare cmp s key = Some (s1, x, prev, h) \<Longrightarrow>
    writer_step valid cmp (s, WIdle) (s1, WLinking x prev h 0)"
| w_link: "n < h \<Longrightarrow> Insert_link x prev n s = Some s' \<Longrightarrow> writer_step valid cmp (s, WLinking x prev h n) (s', WLinking x prev h (Suc n))"
| w_done: "writer_step valid cmp (s, WLinking x prev h h) (s, WIdle)"

inductive system_step :: "('k \<Rightarrow> bool) \<Rightarrow> ('k \<Rightarrow> 'k \<Rightarrow> int) \<Rightarrow> 'k \<Rightarrow> ('k SkipList \<times> writer) \<times> reader \<Rightarrow> ('k SkipList \<times> writer) \<times> reader \<Rightarrow> bool"
  for valid cmp target where
  writes: "writer_step valid cmp w w' \<Longrightarrow> system_step valid cmp target (w, r) (w', r)"
| reads: "reader_step cmp target (fst w) r r' \<Longrightarrow> system_step valid cmp target (w, r) (w, r')"

inductive_cases reader_stepE: "reader_step cmp target s r r'"
inductive_cases writer_stepE: "writer_step valid cmp (s, w) (s', w')"
inductive_cases system_stepE: "system_step valid cmp target (w, r) (w', r')"

definition writer_ok :: "('k \<Rightarrow> bool) \<Rightarrow> ('k \<Rightarrow> 'k \<Rightarrow> int) \<Rightarrow> 'k SkipList \<Rightarrow> (nat \<Rightarrow> nat list) \<Rightarrow> writer \<Rightarrow> bool" where
  "writer_ok valid cmp s Ls w \<longleftrightarrow> (case w of WIdle \<Rightarrow> True
     | WLinking x prev h n \<Rightarrow> \<exists>Ls0. (\<forall>l. Ls l = (if l < n then with_node cmp s (node_key s x) x (Ls0 l) else Ls0 l)) \<and>
         n \<le> h \<and> h \<le> kMaxHeight \<and> h \<le> sl_max_height s \<and> x \<notin> set (0 # Ls0 0) \<and> x < length (sl_nodes s) \<and> valid (node_key s x) \<and>
         (\<forall>l. Suc l < kMaxHeight \<longrightarrow> set (Ls0 (Suc l)) \<subseteq> set (Ls0 l)) \<and>
         (\<forall>a\<in>set (Ls0 0). cmp (node_key s a) (node_key s x) \<noteq> 0) \<and> (\<forall>l<h. Node_Next s x l \<noteq> None) \<and>
         (\<forall>l<h. prev ! l = Some (last (0 # takeWhile (below cmp s (node_key s x)) (Ls0 l)))))"

definition reader_ok :: "('k \<Rightarrow> 'k \<Rightarrow> int) \<Rightarrow> 'k \<Rightarrow> 'k SkipList \<Rightarrow> (nat \<Rightarrow> nat list) \<Rightarrow> reader \<Rightarrow> bool" where
  "reader_ok cmp target s Ls r \<longleftrightarrow> (case r of RSearching x level \<Rightarrow> level < kMaxHeight \<and> (x = 0 \<or> x \<in> set (Ls level) \<and> below cmp s target x) | _ \<Rightarrow> True)"

definition system_ok :: "('k \<Rightarrow> bool) \<Rightarrow> ('k \<Rightarrow> 'k \<Rightarrow> int) \<Rightarrow> 'k \<Rightarrow> ('k SkipList \<times> writer) \<times> reader \<Rightarrow> bool" where
  "system_ok valid cmp target c \<longleftrightarrow> (\<exists>Ls. sl_levels valid cmp (fst (fst c)) Ls \<and> writer_ok valid cmp (fst (fst c)) Ls (snd (fst c)) \<and>
     reader_ok cmp target (fst (fst c)) Ls (snd c))"

lemma below_cong: "node_key s' = node_key s \<Longrightarrow> below cmp s' = below cmp s"
  by (simp add: below_def fun_eq_iff)

context key_order
begin

text \<open>One link of an insertion, from levels that have it up to \<open>n\<close>.\<close>

lemma link_levels:
  assumes "sl_levels valid cmp s Ls" "writer_ok valid cmp s Ls (WLinking x prev h n)" "n < h"
  shows "\<exists>s' Ls'. Insert_link x prev n s = Some s' \<and> sl_levels valid cmp s' Ls' \<and> writer_ok valid cmp s' Ls' (WLinking x prev h (Suc n)) \<and>
    (\<forall>l. set (Ls l) \<subseteq> set (Ls' l)) \<and> node_key s' = node_key s"
proof -
  obtain Ls0 where w: "\<forall>l. Ls l = (if l < n then with_node cmp s (node_key s x) x (Ls0 l) else Ls0 l)" "n \<le> h" "h \<le> kMaxHeight"
    "h \<le> sl_max_height s" "x \<notin> set (0 # Ls0 0)" "x < length (sl_nodes s)" "valid (node_key s x)"
    "\<forall>l. Suc l < kMaxHeight \<longrightarrow> set (Ls0 (Suc l)) \<subseteq> set (Ls0 l)" "\<forall>a\<in>set (Ls0 0). cmp (node_key s a) (node_key s x) \<noteq> 0"
    "\<forall>l<h. Node_Next s x l \<noteq> None" "\<forall>l<h. prev ! l = Some (last (0 # takeWhile (below cmp s (node_key s x)) (Ls0 l)))"
    using assms(2) by (auto simp: writer_ok_def simp del: last.simps)
  let ?k = "node_key s x" let ?Ls = "\<lambda>l. if l < Suc n then with_node cmp s ?k x (Ls0 l) else Ls0 l"
  have n: "n < kMaxHeight" using w(3) assms(3) by simp
  have sub0: "set (Ls0 l) \<subseteq> set (Ls0 0)" if "l < kMaxHeight" for l using that by (induction l) (use w(8) in auto)
  have Ln: "Ls n = Ls0 n" using w(1) by simp
  have v: "valid (node_key s a)" "0 < a" if "a \<in> set (Ls0 n)" for a using levels_valid [OF assms(1) n, of a] that Ln by auto
  have d: "distinct (0 # Ls0 n)" "x \<notin> set (0 # Ls0 n)"
    using sorted_distinct [OF levels_sorted [OF assms(1) n]] v Ln sub0 [OF n] w(5) by auto
  obtain s' where s': "Insert_link x prev n s = Some s'" "chain s' n 0 (with_node cmp s ?k x (Ls0 n))"
    "\<forall>z m. m \<noteq> n \<longrightarrow> Node_Next s' z m = Node_Next s z m" "node_key s' = node_key s" "length (sl_nodes s') = length (sl_nodes s)"
    "sl_max_height s' = sl_max_height s"
    using Insert_link_law [OF _ d, of s n prev cmp ?k] levels_chain [OF assms(1) n] Ln w(10,11) assms(3) by (auto simp del: last.simps)
  have Ls: "?Ls l = (if l = n then with_node cmp s ?k x (Ls0 n) else Ls l)" for l using w(1) by (auto simp: less_Suc_eq)
  have 1: "\<forall>l<kMaxHeight. chain s' l 0 (?Ls l) \<and> sorted_wrt (\<lambda>a b. cmp (node_key s' a) (node_key s' b) < 0) (?Ls l)"
  proof (intro allI impI)
    fix l assume l: "l < kMaxHeight"
    show "chain s' l 0 (?Ls l) \<and> sorted_wrt (\<lambda>a b. cmp (node_key s' a) (node_key s' b) < 0) (?Ls l)"
    proof (cases "l = n")
      case True
      then show ?thesis using s'(2,4) with_node_sorted [OF levels_sorted [OF assms(1) n], of x] v(1) w(7,9) Ln sub0 [OF n] by auto
    next
      case False
      then have "chain s' l p xs = chain s l p xs" for p xs using s'(3) by (intro chain_cong) simp
      moreover have "?Ls l = Ls l" using Ls [of l] False by (simp only: if_False)
      ultimately show ?thesis using levels_chain [OF assms(1) l] levels_sorted [OF assms(1) l] s'(4) by (simp only:)
    qed
  qed
  have 2: "\<forall>l. Suc l < kMaxHeight \<longrightarrow> set (?Ls (Suc l)) \<subseteq> set (?Ls l)" using w(8) by (auto simp: set_with_node)
  have sub: "set (Ls l) \<subseteq> set (?Ls l) \<and> set (?Ls l) \<subseteq> insert x (set (Ls l))" for l
  proof (cases "l = n")
    case True
    then show ?thesis unfolding Ls [of l] using Ln by (simp add: set_with_node subset_insertI)
  next
    case False
    then show ?thesis unfolding Ls [of l] by (simp add: subset_insertI)
  qed
  have 3: "\<forall>a\<in>set (?Ls 0). 0 < a \<and> a < length (sl_nodes s') \<and> valid (node_key s' a)"
    unfolding s'(4,5)
  proof
    fix a assume "a \<in> set (?Ls 0)"
    then have "a = x \<or> a \<in> set (Ls 0)" using sub [of 0] by blast
    then show "0 < a \<and> a < length (sl_nodes s) \<and> valid (node_key s a)"
      using levels_valid [OF assms(1), of 0 a] w(5-7) n by auto
  qed
  have 4: "\<forall>l<kMaxHeight. sl_max_height s' \<le> l \<longrightarrow> ?Ls l = []"
    unfolding s'(6) using assms(1,3) w(1,4) by (auto simp: sl_levels_def)
  have 5: "0 < sl_max_height s'" "sl_max_height s' \<le> kMaxHeight" unfolding s'(6) using assms(1) by (simp_all add: sl_levels_def)
  have lv: "sl_levels valid cmp s' ?Ls" unfolding sl_levels_def using 1 2 3 4 5 by (intro conjI)
  have nn: "\<forall>l<h. Node_Next s' x l \<noteq> None"
  proof (intro allI impI)
    fix l assume "l < h"
    have "x \<in> set (with_node cmp s ?k x (Ls0 n))" by (simp add: set_with_node)
    then obtain pre post where "with_node cmp s ?k x (Ls0 n) = pre @ x # post" by (meson split_list)
    then have "Node_Next s' x n \<noteq> None" using chain_from [OF s'(2), of "0 # pre" x post] chain_next by fastforce
    then show "Node_Next s' x l \<noteq> None" using s'(3) w(10) \<open>l < h\<close> by (cases "l = n") auto
  qed
  have "writer_ok valid cmp s' ?Ls (WLinking x prev h (Suc n))"
    unfolding writer_ok_def writer.case using w(2-9,11) nn assms(3) s'(4-6) below_cong [OF s'(4), of cmp]
    by (intro exI [of _ Ls0]) (simp add: with_node_def del: last.simps)
  moreover have "\<forall>l. set (Ls l) \<subseteq> set (?Ls l)" using sub by blast
  ultimately show ?thesis using s'(1,4) lv by blast
qed


lemma start_ok:
  assumes "sl_levels valid cmp s Ls" "valid key" "\<forall>a\<in>set (Ls 0). cmp (node_key s a) key \<noteq> 0"
    "Insert_prepare cmp s key = Some (s1, x, prev, h)"
  shows "sl_levels valid cmp s1 Ls \<and> writer_ok valid cmp s1 Ls (WLinking x prev h 0) \<and> (\<forall>l<kMaxHeight. \<forall>a\<in>set (Ls l). node_key s1 a = node_key s a)"
proof -
  have p: "sl_levels valid cmp s1 Ls" "x = length (sl_nodes s)" "1 \<le> h" "h \<le> kMaxHeight" "h \<le> sl_max_height s1"
      "length (sl_nodes s1) = Suc (length (sl_nodes s))" "node_key s1 (length (sl_nodes s)) = key"
      "\<forall>a<length (sl_nodes s). node_key s1 a = node_key s a" "\<forall>l<h. Node_Next s1 (length (sl_nodes s)) l \<noteq> None"
      "\<forall>l<h. prev ! l = Some (last (0 # takeWhile (below cmp s1 key) (Ls l)))"
    using prepare_law [OF assms(1-3)] assms(4) by auto
  have lt: "a < length (sl_nodes s)" if "l < kMaxHeight" "a \<in> set (Ls l)" for a l using levels_valid [OF assms(1) that] by simp
  have x0: "x \<notin> set (0 # Ls 0)"
    using lt [of 0] levels_chain [OF assms(1), of 0] p(2) by (cases "Ls 0") (auto simp: Node_Next_def kMaxHeight_def split: if_splits)
  have "writer_ok valid cmp s1 Ls (WLinking x prev h 0)"
    unfolding writer_ok_def writer.case
    using p x0 assms(2,3) lt [of 0] levels_step [OF assms(1)] by (intro exI [of _ Ls]) (auto simp: kMaxHeight_def simp del: last.simps)
  then show ?thesis using p(1,8) lt by blast
qed

lemma search_place:
  assumes "sl_levels valid cmp s Ls" "valid target" "level < kMaxHeight" "x = 0 \<or> x \<in> set (Ls level) \<and> below cmp s target x"
  shows "stands s Ls target level x"
  using assms(4)
proof
  assume x: "x \<in> set (Ls level) \<and> below cmp s target x"
  then obtain pre post where L: "Ls level = pre @ x # post" by (meson split_list)
  have "below cmp s target a" if "a \<in> set pre" for a
  proof -
    have "cmp (node_key s a) (node_key s x) < 0" using levels_sorted [OF assms(1,3)] that unfolding L by (auto simp: sorted_wrt_append)
    moreover have "valid (node_key s a)" "valid (node_key s x)" using levels_valid [OF assms(1,3)] that L by auto
    ultimately show ?thesis using x cmp_less_trans [of "node_key s a" "node_key s x" target] assms(2) by (simp add: below_def)
  qed
  then show ?thesis unfolding stands_def using L x by (intro exI [of _ "0 # pre"] exI [of _ post]) auto
qed (simp add: stands_head)

text \<open>What the reader's next load returns.\<close>

lemma reader_load:
  assumes "sl_levels valid cmp s Ls" "level < kMaxHeight" "x \<in> set (0 # Ls level)"
  obtains nxt where "Node_Next s x level = Some nxt" "\<And>y. nxt = Some y \<Longrightarrow> y \<in> set (Ls level)"
proof -
  obtain pre post where p: "0 # Ls level = pre @ x # post" using assms(3) by (meson split_list)
  have c: "chain s level x post" by (rule chain_from [OF levels_chain [OF assms(1,2)] p])
  have "set post \<subseteq> set (Ls level)" using p by (cases pre) auto
  then show thesis using that [of "first_node post"] chain_next [OF c] by (cases post) auto
qed

lemma reader_keeps:
  assumes "sl_levels valid cmp s Ls" "reader_ok cmp target s Ls r" "reader_step cmp target s r r'"
  shows "reader_ok cmp target s Ls r'"
  using assms(3)
proof cases
  case r_start
  then show ?thesis using assms(1) by (auto simp: reader_ok_def sl_levels_def)
next
  case (r_next x level nxt)
  have x: "level < kMaxHeight" "x \<in> set (0 # Ls level)" using assms(2) r_next(1) by (auto simp: reader_ok_def)
  obtain y where y: "nxt = Some y" "below cmp s target y" using r_next(4) by (auto simp: KeyIsAfterNode_def below_def split: option.splits)
  have "y \<in> set (Ls level)" using reader_load [OF assms(1) x] r_next(3) y(1) by auto
  then show ?thesis using r_next(2) y x(1) by (simp add: reader_ok_def)
next
  case (r_down x level nxt)
  then show ?thesis using assms(2) levels_step [OF assms(1), of level] by (auto simp: reader_ok_def)
qed (simp add: reader_ok_def)

lemma system_keeps:
  assumes "system_ok valid cmp target c" "system_step valid cmp target c c'"
  shows "system_ok valid cmp target c'"
  using assms(2)
proof cases
  case (reads w r r')
  then show ?thesis using assms(1) reader_keeps by (fastforce simp: system_ok_def)
next
  case (writes w w' r)
  obtain Ls where L: "sl_levels valid cmp (fst w) Ls" "writer_ok valid cmp (fst w) Ls (snd w)" "reader_ok cmp target (fst w) Ls r"
    using assms(1) writes(1) by (auto simp: system_ok_def)
  show ?thesis using writes(3)
  proof cases
    case (w_start key s ks s1 x prev h)
    have "ks = map (node_key s) (Ls 0)"
      using w_start(1,4) L(1) levels_chain chain_unique unfolding sl_rep_def by (metis fst_conv kMaxHeight_def zero_less_numeral)
    then have st: "sl_levels valid cmp s1 Ls" "writer_ok valid cmp s1 Ls (WLinking x prev h 0)" "\<forall>l<kMaxHeight. \<forall>a\<in>set (Ls l). node_key s1 a = node_key s a"
      using start_ok [of s Ls key s1 x prev h] L(1) w_start by auto
    then have "reader_ok cmp target s1 Ls r" using L(3) w_start(1) by (auto simp: reader_ok_def below_def split: reader.splits)
    then show ?thesis using st writes(2) w_start(2) by (auto simp: system_ok_def)
  next
    case (w_link n h x prev s s')
    then obtain s'' Ls' where "Insert_link x prev n s = Some s''" "sl_levels valid cmp s'' Ls'" "writer_ok valid cmp s'' Ls' (WLinking x prev h (Suc n))"
        "\<forall>l. set (Ls l) \<subseteq> set (Ls' l)" "node_key s'' = node_key s"
      using link_levels [of s Ls x prev h n] L by auto
    moreover from this have "reader_ok cmp target s'' Ls' r" using L(3) w_link(1) by (auto simp: reader_ok_def below_def split: reader.splits)
    ultimately show ?thesis using writes(2) w_link(2,4) by (auto simp: system_ok_def)
  next
    case (w_done s x prev h)
    then show ?thesis using L writes(2) by (auto simp: system_ok_def writer_ok_def)
  qed
qed

lemma found_in_current:
  assumes "system_ok valid cmp target (w, r)" "valid target" "reader_step cmp target (fst w) r (RFound it)"
  shows "\<exists>ks j. sl_rep valid cmp (fst w) ks \<and> sl_at (fst w) ks it j \<and> drop j ks = dropWhile (\<lambda>a. cmp a target < 0) ks"
proof -
  obtain Ls where L: "sl_levels valid cmp (fst w) Ls" "reader_ok cmp target (fst w) Ls r" using assms(1) by (auto simp: system_ok_def)
  let ?ks = "map (node_key (fst w)) (Ls 0)"
  have rep: "sl_rep valid cmp (fst w) ?ks" using L(1) by (auto simp: sl_rep_def)
  obtain x where x: "r = RSearching x 0" "Node_Next (fst w) x 0 = Some it" "\<not> KeyIsAfterNode cmp (fst w) target it"
    using assms(3) by (auto elim: reader_stepE)
  have st: "stands (fst w) Ls target 0 x" using search_place [OF L(1) assms(2), of 0 x] L(2) x(1) by (auto simp: reader_ok_def)
  obtain pre post where p: "0 # Ls 0 = pre @ x # post" "\<forall>a\<in>set (tl (pre @ [x])). below cmp (fst w) target a" using st by (auto simp: stands_def)
  have c: "chain (fst w) 0 x post" by (rule chain_from [OF levels_chain [OF L(1)] p(1)]) (simp add: kMaxHeight_def)
  have "it = first_node post" using chain_next [OF c] x(2) by simp
  then have "dropWhile (below cmp (fst w) target) post = post" using x(3) by (cases post) (auto simp: KeyIsAfterNode_def below_def)
  then have post: "post = dropWhile (below cmp (fst w) target) (Ls 0)" using stands_takeWhile(2) [OF p] by simp
  obtain it' j where s: "Iter_Seek cmp (fst w) target = Some it'" "sl_at (fst w) ?ks it' j" "drop j ?ks = dropWhile (\<lambda>a. cmp a target < 0) ?ks"
    using Seek_law [OF rep assms(2)] by blast
  have "it' = it" using s(1) FindGreaterOrEqual_law [OF L(1) assms(2)] post \<open>it = first_node post\<close> by (auto simp: Iter_Seek_def)
  then show ?thesis using rep s by blast
qed

end


subsection \<open>The interface of an ordered index\<close>

text \<open>What a client of the list relies on: it is the sorted list of the inserted keys, and an iterator is a
  position in it (the length of the list when it is not valid).\<close>

locale ordered_index = key_order valid cmp for valid :: "'k \<Rightarrow> bool" and cmp :: "'k \<Rightarrow> 'k \<Rightarrow> int" +
  fixes rep :: "'s \<Rightarrow> 'k list \<Rightarrow> bool"
    and at :: "'s \<Rightarrow> 'k list \<Rightarrow> 'i \<Rightarrow> nat \<Rightarrow> bool"
    and insert_key :: "'s \<Rightarrow> 'k \<Rightarrow> 's option"
    and seek :: "'s \<Rightarrow> 'k \<Rightarrow> 'i option"
    and seek_first seek_last :: "'s \<Rightarrow> 'i option"
    and move_next move_prev :: "'s \<Rightarrow> 'i \<Rightarrow> 'i option"
    and is_valid :: "'i \<Rightarrow> bool"
    and get_key :: "'s \<Rightarrow> 'i \<Rightarrow> 'k"
  assumes rep_sorted: "rep s ks \<Longrightarrow> sorted_wrt (\<lambda>a b. cmp a b < 0) ks \<and> (\<forall>k\<in>set ks. valid k)"
    and insert_law: "rep s ks \<Longrightarrow> valid k \<Longrightarrow> \<forall>a\<in>set ks. cmp a k \<noteq> 0 \<Longrightarrow> \<exists>s'. insert_key s k = Some s' \<and> rep s' (insert_sorted cmp k ks)"
    and at_valid: "at s ks it j \<Longrightarrow> j \<le> length ks \<and> (is_valid it \<longleftrightarrow> j < length ks)"
    and at_key: "at s ks it j \<Longrightarrow> j < length ks \<Longrightarrow> get_key s it = ks ! j"
    and seek_law: "rep s ks \<Longrightarrow> valid k \<Longrightarrow> \<exists>it j. seek s k = Some it \<and> at s ks it j \<and> drop j ks = dropWhile (\<lambda>a. cmp a k < 0) ks"
    and first_law: "rep s ks \<Longrightarrow> \<exists>it. seek_first s = Some it \<and> at s ks it 0"
    and last_law: "rep s ks \<Longrightarrow> \<exists>it. seek_last s = Some it \<and> at s ks it (length ks - 1)"
    and next_law: "rep s ks \<Longrightarrow> at s ks it j \<Longrightarrow> j < length ks \<Longrightarrow> \<exists>it'. move_next s it = Some it' \<and> at s ks it' (Suc j)"
    and prev_law: "rep s ks \<Longrightarrow> at s ks it j \<Longrightarrow> j < length ks \<Longrightarrow>
      \<exists>it'. move_prev s it = Some it' \<and> at s ks it' (if j = 0 then length ks else j - 1)"
begin

lemma insert_sorted_set: "set (insert_sorted cmp k ks) = insert k (set ks)"
proof -
  have "set (takeWhile P ks) \<union> set (dropWhile P ks) = set ks" for P by (metis set_append takeWhile_dropWhile_id)
  then show ?thesis by (auto simp: insert_sorted_def)
qed

end

context key_order
begin

lemma at_chain:
  assumes "sl_rep valid cmp s ks" "sl_at s ks it j"
  obtains Ls where "sl_levels valid cmp s Ls" "ks = map (node_key s) (Ls 0)" "j \<le> length (Ls 0)" "it = (if j < length (Ls 0) then Some (Ls 0 ! j) else None)"
proof -
  obtain Ls where L: "sl_levels valid cmp s Ls" using assms(1) by (auto simp: sl_rep_def)
  obtain L where l: "chain s 0 0 L" "ks = map (node_key s) L" "j \<le> length L" "it = (if j < length L then Some (L ! j) else None)"
    using assms(2) by (auto simp: sl_at_def)
  have "L = Ls 0" using chain_unique [OF l(1) levels_chain [OF L]] by (simp add: kMaxHeight_def)
  then show thesis using that [OF L] l by simp
qed

lemma sl_atI: "sl_levels valid cmp s Ls \<Longrightarrow> j \<le> length (Ls 0) \<Longrightarrow> it = (if j < length (Ls 0) then Some (Ls 0 ! j) else None) \<Longrightarrow>
    sl_at s (map (node_key s) (Ls 0)) it j"
  unfolding sl_at_def using levels_chain [of s Ls 0] by (auto simp: kMaxHeight_def)

lemma sl_next:
  assumes "sl_rep valid cmp s ks" "sl_at s ks it j" "j < length ks"
  shows "\<exists>it'. Iter_Next s it = Some it' \<and> sl_at s ks it' (Suc j)"
proof -
  obtain Ls where L: "sl_levels valid cmp s Ls" "ks = map (node_key s) (Ls 0)" "it = Some (Ls 0 ! j)"
    using at_chain [OF assms(1,2)] assms(3) by (metis length_map)
  have j: "j < length (Ls 0)" using assms(3) L(2) by simp
  have "0 # Ls 0 = (0 # take j (Ls 0)) @ Ls 0 ! j # drop (Suc j) (Ls 0)" using id_take_nth_drop [OF j] by simp
  then have "chain s 0 (Ls 0 ! j) (drop (Suc j) (Ls 0))"
    by (rule chain_from [OF levels_chain [OF L(1)], rotated]) (simp add: kMaxHeight_def)
  then have "Iter_Next s it = Some (first_node (drop (Suc j) (Ls 0)))" using chain_next L(3) by (simp add: Iter_Next_def)
  then show ?thesis using sl_atI [OF L(1), of "Suc j"] L(2) j by (simp add: first_node_nth)
qed

lemma takeWhile_below:
  assumes "sl_levels valid cmp s Ls" "j < length (Ls 0)"
  shows "takeWhile (below cmp s (node_key s (Ls 0 ! j))) (Ls 0) = take j (Ls 0)"
proof -
  have 0: "(0 :: nat) < kMaxHeight" by (simp add: kMaxHeight_def)
  have "below cmp s (node_key s (Ls 0 ! j)) (Ls 0 ! i)" if "i < j" for i
    using sorted_wrt_nth_less [OF levels_sorted [OF assms(1) 0], of i j] that assms(2) by (simp add: below_def)
  moreover have "\<not> below cmp s (node_key s (Ls 0 ! j)) (Ls 0 ! j)"
    using cmp_refl levels_valid [OF assms(1) 0, of "Ls 0 ! j"] assms(2) by (simp add: below_def)
  ultimately show ?thesis using assms(2) by (intro takeWhile_eq_take_P_nth) auto
qed

lemma sl_prev:
  assumes "sl_rep valid cmp s ks" "sl_at s ks it j" "j < length ks"
  shows "\<exists>it'. Iter_Prev cmp s it = Some it' \<and> sl_at s ks it' (if j = 0 then length ks else j - 1)"
proof -
  obtain Ls where L: "sl_levels valid cmp s Ls" "ks = map (node_key s) (Ls 0)" "it = Some (Ls 0 ! j)"
    using at_chain [OF assms(1,2)] assms(3) by (metis length_map)
  have j: "j < length (Ls 0)" using assms(3) L(2) by simp
  have v: "valid (node_key s a)" "0 < a" if "a \<in> set (Ls 0)" for a using levels_valid [OF L(1), of 0 a] that by (simp_all add: kMaxHeight_def)
  have "FindLessThan cmp s (node_key s (Ls 0 ! j)) = Some (last (0 # take j (Ls 0)))"
    using FindLessThan_law [OF L(1) v(1)] takeWhile_below [OF L(1) j] j by (simp del: last.simps)
  then have p: "Iter_Prev cmp s it = Some (if j = 0 then None else Some (Ls 0 ! (j - 1)))"
    using v(2) [of "Ls 0 ! (j - 1)"] j L(3) by (cases j) (auto simp: Iter_Prev_def take_Suc_conv_app_nth)
  show ?thesis
  proof (cases "j = 0")
    case True
    then show ?thesis using p sl_atI [OF L(1), of "length (Ls 0)" None] L(2) by simp
  next
    case False
    have "sl_at s ks (Some (Ls 0 ! (j - 1))) (j - 1)" unfolding L(2) using j by (intro sl_atI [OF L(1)]) auto
    then show ?thesis using p False by simp
  qed
qed

lemma sl_last:
  assumes "sl_rep valid cmp s ks"
  shows "\<exists>it. Iter_SeekToLast s = Some it \<and> sl_at s ks it (length ks - 1)"
proof -
  obtain Ls where L: "sl_levels valid cmp s Ls" "ks = map (node_key s) (Ls 0)" using assms by (auto simp: sl_rep_def)
  have v: "0 < a" if "a \<in> set (Ls 0)" for a using levels_valid [OF L(1), of 0 a] that by (simp add: kMaxHeight_def)
  show ?thesis using FindLast_law [OF L(1)] v [of "last (Ls 0)"] sl_atI [OF L(1), of "length (Ls 0) - 1"] L(2)
    by (cases "Ls 0 = []") (auto simp: Iter_SeekToLast_def last_conv_nth)
qed

lemma sl_first:
  assumes "sl_rep valid cmp s ks"
  shows "\<exists>it. Iter_SeekToFirst s = Some it \<and> sl_at s ks it 0"
proof -
  obtain Ls where L: "sl_levels valid cmp s Ls" "ks = map (node_key s) (Ls 0)" using assms by (auto simp: sl_rep_def)
  show ?thesis using chain_next [OF levels_chain [OF L(1), of 0]] sl_atI [OF L(1), of 0] L(2) first_node_nth [of 0 "Ls 0"]
    by (simp add: Iter_SeekToFirst_def kMaxHeight_def)
qed

end

sublocale key_order \<subseteq> skip: ordered_index valid cmp "sl_rep valid cmp" sl_at "SkipList_Insert cmp" "Iter_Seek cmp"
    Iter_SeekToFirst Iter_SeekToLast Iter_Next "Iter_Prev cmp" Iter_Valid Iter_key
proof (unfold_locales, goal_cases)
  case (3 s ks it j) then show ?case by (auto simp: sl_at_def Iter_Valid_def split: if_splits)
next
  case (4 s ks it j) then show ?case by (auto simp: sl_at_def Iter_key_def)
qed (use sl_rep_sorted Insert_law Seek_law sl_first sl_last sl_next sl_prev in \<open>auto\<close>)


definition sl_insert_all :: "('k \<Rightarrow> 'k \<Rightarrow> int) \<Rightarrow> 'k list \<Rightarrow> 'k SkipList \<Rightarrow> 'k SkipList option" where
  "sl_insert_all cmp ks s = fold (\<lambda>k so. Option.bind so (\<lambda>s. SkipList_Insert cmp s k)) ks (Some s)"

context key_order
begin

lemma insert_all_law:
  assumes "sl_rep valid cmp s as" "\<forall>k\<in>set ks. valid k" "sorted_wrt (\<lambda>a b. cmp a b \<noteq> 0) ks" "\<forall>a\<in>set as. \<forall>k\<in>set ks. cmp a k \<noteq> 0"
  shows "\<exists>s'. sl_insert_all cmp ks s = Some s' \<and> sl_rep valid cmp s' (fold (insert_sorted cmp) ks as)"
  using assms
proof (induction ks arbitrary: s as)
  case Nil
  then show ?case by (simp add: sl_insert_all_def)
next
  case (Cons k ks)
  obtain s' where s': "SkipList_Insert cmp s k = Some s'" "sl_rep valid cmp s' (insert_sorted cmp k as)"
    using Insert_law [of s as k] Cons.prems by auto
  have "\<forall>a\<in>set (insert_sorted cmp k as). \<forall>b\<in>set ks. cmp a b \<noteq> 0"
    using Cons.prems skip.insert_sorted_set by simp
  then show ?case using Cons.IH [OF s'(2)] Cons.prems s'(1) by (simp add: sl_insert_all_def)
qed

lemma insert_all_set: "set (fold (insert_sorted cmp) ks as) = set ks \<union> set as"
  by (induction ks arbitrary: as) (auto simp: skip.insert_sorted_set)

lemma Contains_law:
  assumes "sl_rep valid cmp s ks" "valid k"
  shows "SkipList_Contains cmp s k = Some (\<exists>a\<in>set ks. cmp k a = 0)"
proof -
  obtain Ls where L: "sl_levels valid cmp s Ls" "ks = map (node_key s) (Ls 0)" using assms(1) by (auto simp: sl_rep_def)
  let ?d = "dropWhile (\<lambda>a. cmp a k < 0) ks"
  obtain prev where f: "FindGreaterOrEqual cmp s k = Some (first_node (dropWhile (below cmp s k) (Ls 0)), prev)"
    using FindGreaterOrEqual_law [OF L(1) assms(2)] by blast
  have d: "map (node_key s) (dropWhile (below cmp s k) (Ls 0)) = ?d"
    using map_takeWhile(2) [of "node_key s" "\<lambda>a. cmp a k < 0" "Ls 0"] L(2) by (simp add: below_eq)
  have srt: "sorted_wrt (\<lambda>a b. cmp a b < 0) ks" "\<forall>a\<in>set ks. valid a" using sl_rep_sorted [OF assms(1)] by auto
  have iff: "(\<exists>a\<in>set ks. cmp k a = 0) \<longleftrightarrow> (case ?d of [] \<Rightarrow> False | a # _ \<Rightarrow> cmp k a = 0)"
    using srt
  proof (induction ks)
    case (Cons b ks)
    have v: "valid b" "\<forall>a\<in>set ks. valid a" using Cons.prems(2) by simp_all
    show ?case
    proof (cases "cmp b k < 0")
      case True
      then have "cmp k b \<noteq> 0" using cmp_eq_sym [of k b] v(1) assms(2) by auto
      then show ?thesis using Cons True by simp
    next
      case False
      have "cmp k a \<noteq> 0" if a: "a \<in> set ks" for a
      proof -
        have "cmp k b \<le> 0" using False cmp_flip_le [of k b] v assms(2) by simp
        moreover have "cmp b a < 0" using Cons.prems(1) a by simp
        ultimately show ?thesis using cmp_le_less_trans [of k b a] v a assms(2) by fastforce
      qed
      then show ?thesis using False by auto
    qed
  qed simp
  have "(case first_node D of None \<Rightarrow> False | Some x \<Rightarrow> cmp k (node_key s x) = 0) =
      (case map (node_key s) D of [] \<Rightarrow> False | a # _ \<Rightarrow> cmp k a = 0)" for D
    by (cases D) simp_all
  then show ?thesis unfolding iff d [symmetric] using f by (simp only: SkipList_Contains_def option.map prod.case)
qed

end

subsection \<open>Properties\<close>

text \<open>C16. A skip list is the sorted list of its keys: for every comparator that orders the keys, inserting keys
  that are pairwise different never fails, whatever heights the generator picks; \<open>Contains\<close> finds exactly the
  inserted keys, and iterating from \<open>SeekToFirst\<close> or \<open>Seek\<close> goes through the keys in order.\<close>

theorem skiplist_is_sorted_list:
  assumes "key_order valid cmp" "\<forall>k\<in>set ks. valid k" "sorted_wrt (\<lambda>a b. cmp a b \<noteq> 0) ks"
  shows "\<exists>s zs. sl_insert_all cmp ks (SkipList_new k0) = Some s \<and> zs = fold (insert_sorted cmp) ks [] \<and>
    set zs = set ks \<and> sorted_wrt (\<lambda>a b. cmp a b < 0) zs \<and>
    (\<forall>k. valid k \<longrightarrow> SkipList_Contains cmp s k = Some (\<exists>a\<in>set ks. cmp k a = 0)) \<and>
    (\<exists>it. Iter_SeekToFirst s = Some it \<and> sl_at s zs it 0) \<and>
    (\<forall>k. valid k \<longrightarrow> (\<exists>it j. Iter_Seek cmp s k = Some it \<and> sl_at s zs it j \<and> drop j zs = dropWhile (\<lambda>a. cmp a k < 0) zs)) \<and>
    (\<forall>it j. sl_at s zs it j \<and> j < length zs \<longrightarrow> Iter_key s it = zs ! j \<and>
      (\<exists>it'. Iter_Next s it = Some it' \<and> sl_at s zs it' (Suc j)) \<and>
      (\<exists>it'. Iter_Prev cmp s it = Some it' \<and> sl_at s zs it' (if j = 0 then length zs else j - 1)))"
proof -
  obtain s where s: "sl_insert_all cmp ks (SkipList_new k0) = Some s" "sl_rep valid cmp s (fold (insert_sorted cmp) ks [])"
    using key_order.insert_all_law [OF assms(1) key_order.sl_new [OF assms(1)] assms(2,3)] by auto
  have c: "SkipList_Contains cmp s k = Some (\<exists>a\<in>set ks. cmp k a = 0)" if "valid k" for k
    using key_order.Contains_law [OF assms(1) s(2) that] key_order.insert_all_set [OF assms(1), of ks "[]"] by simp
  have k: "Iter_key s it = fold (insert_sorted cmp) ks [] ! j" if "sl_at s (fold (insert_sorted cmp) ks []) it j" "j < length (fold (insert_sorted cmp) ks [])" for it j
    using that unfolding sl_at_def by (auto simp: Iter_key_def)
  show ?thesis
    using s(1) c k key_order.insert_all_set [OF assms(1), of ks "[]"] key_order.sl_rep_sorted [OF assms(1) s(2)] key_order.sl_first [OF assms(1) s(2)]
      key_order.Seek_law [OF assms(1) s(2)] key_order.sl_next [OF assms(1) s(2)] key_order.sl_prev [OF assms(1) s(2)]
    by (intro exI [of _ s] exI [of _ "fold (insert_sorted cmp) ks []"]) simp
qed

theorem skiplist_is_sorted_list_witness:
  "\<exists>s zs. sl_insert_all Bytewise_Compare [[3], [1], [2]] (SkipList_new []) = Some s \<and> zs = [[1], [2], [3]] \<and>
    SkipList_Contains Bytewise_Compare s [2] = Some True \<and> (\<exists>it. Iter_SeekToFirst s = Some it \<and> sl_at s zs it 0)"
proof -
  have "sorted_wrt (\<lambda>a b. Bytewise_Compare a b \<noteq> 0) [[3], [1], [2]]" by (simp add: Bytewise_Compare_def)
  then obtain s where "sl_insert_all Bytewise_Compare [[3], [1], [2]] (SkipList_new []) = Some s"
      "SkipList_Contains Bytewise_Compare s [2] = Some (\<exists>a\<in>set [[3], [1], [2]]. Bytewise_Compare [2] a = 0)"
      "\<exists>it. Iter_SeekToFirst s = Some it \<and> sl_at s (fold (insert_sorted Bytewise_Compare) [[3], [1], [2]] []) it 0"
    using skiplist_is_sorted_list [OF bytewise.key_order_axioms, of "[[3], [1], [2]]" "[]"] by auto
  moreover have "fold (insert_sorted Bytewise_Compare) [[3], [1], [2]] [] = [[1], [2], [3]]"
    by (simp add: insert_sorted_def Bytewise_Compare_def)
  ultimately show ?thesis by (auto simp: Bytewise_Compare_def)
qed




text \<open>The generator: \<open>Next\<close> is the product modulo \<open>2 ^ 31 - 1\<close>.\<close>

lemma Random_sum:
  fixes p :: uint64
  assumes "unat p < 2 ^ 46"
  shows "unat (ucast (drop_bit 31 p + (p AND ucast Random_M)) :: uint32) = unat p div 2 ^ 31 + unat p mod 2 ^ 31"
proof -
  have m: "ucast Random_M = (mask 31 :: uint64)" by (simp add: Random_M_def mask_eq_exp_minus_1)
  have 1: "unat (drop_bit 31 p) = unat p div 2 ^ 31" by (simp add: drop_bit_eq_div unat_div)
  have 2: "unat (p AND ucast Random_M) = unat p mod 2 ^ 31"
    unfolding m take_bit_eq_mask [symmetric] unsigned_take_bit_eq by (simp add: take_bit_eq_mod)
  have lt: "unat p div 2 ^ 31 < 2 ^ 15" using assms by (simp add: less_mult_imp_div_less)
  have lt2: "unat p mod 2 ^ 31 < 2 ^ 31" by simp
  have s: "unat (drop_bit 31 p + (p AND ucast Random_M)) = unat p div 2 ^ 31 + unat p mod 2 ^ 31"
    unfolding unat_plus_simple [THEN iffD1] unat_word_ariths 1 2 using lt lt2 by simp
  then have "unat (drop_bit 31 p + (p AND ucast Random_M)) < 2 ^ 32" using lt lt2 by simp
  then show ?thesis unfolding s [symmetric] by (simp add: unsigned_ucast_eq take_bit_nat_eq_self)
qed

lemma mod_M: "(p :: nat) mod 2147483647 = (p div 2 ^ 31 + p mod 2 ^ 31) mod 2147483647"
proof -
  have "p = p div 2 ^ 31 * 2147483647 + (p div 2 ^ 31 + p mod 2 ^ 31)" using div_mult_mod_eq [of p "2 ^ 31"] by simp
  then show ?thesis by (metis mod_mult_self3)
qed

lemma coprime_M: "coprime (2147483647 :: nat) 16807"
proof -
  have "gcd 2147483647 (7 :: nat) = 1" by (subst gcd_red_nat) simp
  then have "coprime (2147483647 :: nat) 7" by (rule iffD2 [OF coprime_iff_gcd_eq_1])
  then have "coprime (2147483647 :: nat) (7 ^ 5)" by (rule coprime_power_right_iff [THEN iffD2, OF disjI1])
  then show ?thesis by simp
qed

lemma seed_range:
  fixes v :: uint32
  assumes "unat v \<le> 2147483647" "v \<noteq> 0" "v \<noteq> 2147483647"
  shows "1 \<le> unat v \<and> unat v < 2147483647"
proof -
  have "unat v \<noteq> 0" using assms(2) by (simp add: unat_eq_0)
  moreover have "unat v \<noteq> unat (2147483647 :: uint32)" using assms(3) by (simp only: word_unat_eq_iff) simp
  moreover have "unat (2147483647 :: uint32) = 2147483647" by simp
  ultimately show ?thesis using assms(1) by linarith
qed

lemma Random_new_bounds: "1 \<le> unat (Random_new s) \<and> unat (Random_new s) < 2147483647"
proof -
  have "(0x7fffffff :: uint32) = mask 31" by (simp add: mask_eq_exp_minus_1)
  then have "unat (s AND 0x7fffffff) = unat s mod 2 ^ 31"
    by (simp only: take_bit_eq_mask [symmetric] unsigned_take_bit_eq) (simp add: take_bit_eq_mod)
  moreover have "unat s mod 2 ^ 31 < 2 ^ 31" by simp
  moreover have "(2 :: nat) ^ 31 = 2147483648" by simp
  ultimately have le: "unat (s AND 0x7fffffff) \<le> 2147483647" by linarith
  show ?thesis
  proof (cases "s AND 0x7fffffff = 0 \<or> s AND 0x7fffffff = 2147483647")
    case True
    then have "Random_new s = 1" unfolding Random_new_def Let_def by (rule if_P)
    then show ?thesis by simp
  next
    case False
    then have "Random_new s = s AND 0x7fffffff" unfolding Random_new_def Let_def by (rule if_not_P)
    then show ?thesis using seed_range [OF le] False by simp
  qed
qed

lemma Random_Next_mod:
  assumes "1 \<le> unat seed" "unat seed < 2147483647"
  shows "unat (Random_Next seed) = unat seed * 16807 mod 2147483647 \<and> 1 \<le> unat (Random_Next seed) \<and> unat (Random_Next seed) < 2147483647"
proof -
  let ?p = "ucast seed * 16807 :: uint64"
  have up: "unat ?p = unat seed * 16807"
  proof -
    have "unat (ucast seed :: uint64) = unat seed" by (simp add: unat_ucast_up)
    then show ?thesis using assms(2) by (simp add: unat_word_ariths)
  qed
  have lt: "unat ?p < 2 ^ 46" using up assms(2) by simp
  define q where "q = unat ?p div 2 ^ 31 + unat ?p mod 2 ^ 31"
  have q: "unat (ucast (drop_bit 31 ?p + (?p AND ucast Random_M)) :: uint32) = q" unfolding q_def by (rule Random_sum [OF lt])
  have qlt: "q < 2 * 2147483647" using lt less_mult_imp_div_less [of "unat ?p" "2 ^ 15" "2 ^ 31"] unfolding q_def by simp
  have mod: "unat seed * 16807 mod 2147483647 = q mod 2147483647" using mod_M [of "unat ?p"] up unfolding q_def by simp
  have nz: "q mod 2147483647 \<noteq> 0"
  proof
    assume "q mod 2147483647 = 0"
    then have "2147483647 dvd unat seed * 16807" using mod by auto
    then have "2147483647 dvd unat seed" using coprime_M by (simp add: coprime_dvd_mult_left_iff)
    then show False using assms by (auto dest: dvd_imp_le)
  qed
  have M: "unat Random_M = 2147483647" by (simp add: Random_M_def)
  have nx: "unat (Random_Next seed) = q mod 2147483647"
  proof (cases "2147483647 < q")
    case True
    then have "Random_M < (ucast (drop_bit 31 ?p + (?p AND ucast Random_M)) :: uint32)" using q M by (simp add: word_less_nat_alt)
    moreover from this have "unat ((ucast (drop_bit 31 ?p + (?p AND ucast Random_M)) :: uint32) - Random_M) = q - 2147483647"
      using q M by (simp add: unat_sub less_imp_le)
    moreover have "q mod 2147483647 = q - 2147483647" using True qlt by (simp add: mod_if)
    ultimately show ?thesis by (simp add: Random_Next_def Let_def)
  next
    case False
    then have "\<not> Random_M < (ucast (drop_bit 31 ?p + (?p AND ucast Random_M)) :: uint32)" using q M by (simp add: word_less_nat_alt)
    moreover have "q < 2147483647" using False nz by (cases "q = 2147483647") auto
    ultimately show ?thesis using q by (simp add: Random_Next_def Let_def)
  qed
  show ?thesis using nx mod nz by simp
qed

text \<open>C18. The generator computes what its comment says: from a seed between \<open>1\<close> and \<open>2 ^ 31 - 2\<close>, \<open>Next\<close> gives
  \<open>16807 * seed\<close> modulo \<open>2 ^ 31 - 1\<close>, without a division, without overflow and never \<open>0\<close> or \<open>2 ^ 31 - 1\<close>; the
  constructor gives such a seed.\<close>

theorem random_next_bounds:
  assumes "1 \<le> unat seed" "unat seed < 2147483647"
  shows "unat (Random_Next seed) = unat seed * 16807 mod 2147483647 \<and> 1 \<le> unat (Random_Next seed) \<and> unat (Random_Next seed) < 2147483647 \<and>
    1 \<le> unat (Random_new s) \<and> unat (Random_new s) < 2147483647"
  using Random_Next_mod [OF assms] Random_new_bounds [of s] by simp

theorem random_next_bounds_witness:
  "unat (Random_Next 1) = 16807 \<and> unat (Random_Next 1) < 2147483647"
  using random_next_bounds [of 1 7] by simp

end
