(* ===== verification/Arena.thy ===== *)
theory Arena
  imports Prelude
begin

text \<open>
  The arena of \<open>util/arena.h\<close> and \<open>util/arena.cc\<close>, which holds the entries and the nodes of a memtable. Addresses
  are natural numbers; \<open>new char[n]\<close> is a parameter, a function of the blocks allocated so far, with the
  guarantees of the language as a locale. A block is its address with its size, which the code does not keep.
\<close>

record Arena =
  alloc_ptr :: nat
  alloc_bytes_remaining :: nat
  blocks :: "(nat \<times> nat) list"
  memory_usage :: nat

type_synonym new_char = "(nat \<times> nat) list \<Rightarrow> nat \<Rightarrow> nat"

definition arena_kBlockSize :: nat where "arena_kBlockSize = 4096"

definition Arena_new :: Arena where
  "Arena_new = \<lparr> alloc_ptr = 0, alloc_bytes_remaining = 0, blocks = [], memory_usage = 0 \<rparr>"

definition MemoryUsage :: "Arena \<Rightarrow> nat" where "MemoryUsage a = memory_usage a"

definition AllocateNewBlock :: "new_char \<Rightarrow> Arena \<Rightarrow> nat \<Rightarrow> Arena \<times> nat" where
  "AllocateNewBlock new a block_bytes =
     (let result = new (blocks a) block_bytes
      in (a \<lparr> blocks := blocks a @ [(result, block_bytes)], memory_usage := MemoryUsage a + block_bytes + 8 \<rparr>, result))"

definition AllocateFallback :: "new_char \<Rightarrow> Arena \<Rightarrow> nat \<Rightarrow> Arena \<times> nat" where
  "AllocateFallback new a bytes =
     (if bytes > arena_kBlockSize div 4 then AllocateNewBlock new a bytes
      else let (a, p) = AllocateNewBlock new a arena_kBlockSize;
               a = a \<lparr> alloc_ptr := p, alloc_bytes_remaining := arena_kBlockSize \<rparr>;
               result = alloc_ptr a
           in (a \<lparr> alloc_ptr := alloc_ptr a + bytes, alloc_bytes_remaining := alloc_bytes_remaining a - bytes \<rparr>, result))"

definition Arena_Allocate :: "new_char \<Rightarrow> Arena \<Rightarrow> nat \<Rightarrow> Arena \<times> nat" where
  "Arena_Allocate new a bytes =
     (if bytes \<le> alloc_bytes_remaining a
      then (a \<lparr> alloc_ptr := alloc_ptr a + bytes, alloc_bytes_remaining := alloc_bytes_remaining a - bytes \<rparr>, alloc_ptr a)
      else AllocateFallback new a bytes)"

text \<open>Pointers have eight bytes, so \<open>align\<close> is 8.\<close>

definition AllocateAligned :: "new_char \<Rightarrow> Arena \<Rightarrow> nat \<Rightarrow> Arena \<times> nat" where
  "AllocateAligned new a bytes =
     (let align = 8;
          current_mod = alloc_ptr a mod align;
          slop = (if current_mod = 0 then 0 else align - current_mod);
          needed = bytes + slop
      in if needed \<le> alloc_bytes_remaining a
         then (a \<lparr> alloc_ptr := alloc_ptr a + needed, alloc_bytes_remaining := alloc_bytes_remaining a - needed \<rparr>, alloc_ptr a + slop)
         else AllocateFallback new a bytes)"

subsection \<open>The allocator below\<close>

definition disjoint_regions :: "nat \<times> nat \<Rightarrow> nat \<times> nat \<Rightarrow> bool" where
  "disjoint_regions r q \<longleftrightarrow> fst r + snd r \<le> fst q \<or> fst q + snd q \<le> fst r"

definition within :: "nat \<times> nat \<Rightarrow> nat \<times> nat \<Rightarrow> bool" where
  "within r b \<longleftrightarrow> fst b \<le> fst r \<and> fst r + snd r \<le> fst b + snd b"

lemma disjoint_within: "disjoint_regions b c \<Longrightarrow> within r b \<Longrightarrow> within q c \<Longrightarrow> disjoint_regions r q"
  by (auto simp: disjoint_regions_def within_def)

lemma disjoint_sym: "disjoint_regions r q \<longleftrightarrow> disjoint_regions q r"
  by (auto simp: disjoint_regions_def)

lemma within_refl [simp]: "within r r" by (simp add: within_def)

locale heap_allocator =
  fixes new :: new_char
  assumes new_disjoint: "b \<in> set bs \<Longrightarrow> disjoint_regions b (new bs n, n)"
    and new_aligned: "new bs n mod 8 = 0"

text \<open>An allocator that puts each block after the earlier ones.\<close>

definition bump_new :: new_char where
  "bump_new bs n = 8 * (1 + sum_list (map (\<lambda>(p, n). p + n) bs))"

interpretation bump: heap_allocator bump_new
proof
  fix b n and bs :: "(nat \<times> nat) list"
  assume "b \<in> set bs"
  then have "fst b + snd b \<le> sum_list (map (\<lambda>(p, n). p + n) bs)"
    using member_le_sum_list [of "fst b + snd b" "map (\<lambda>(p, n). p + n) bs"] by force
  then show "disjoint_regions b (bump_new bs n, n)" by (simp add: disjoint_regions_def bump_new_def)
qed (simp add: bump_new_def)

subsection \<open>Invariant\<close>

text \<open>\<open>rs\<close> are the regions handed out. The free tail of the current block overlaps none of them.\<close>

definition arena_inv :: "Arena \<Rightarrow> (nat \<times> nat) list \<Rightarrow> bool" where
  "arena_inv a rs \<longleftrightarrow>
     sorted_wrt disjoint_regions (blocks a) \<and> sorted_wrt disjoint_regions rs \<and>
     (\<forall>r\<in>set rs. \<exists>b\<in>set (blocks a). within r b) \<and>
     (alloc_bytes_remaining a = 0 \<or> (\<exists>b\<in>set (blocks a). within (alloc_ptr a, alloc_bytes_remaining a) b) \<and>
       (\<forall>r\<in>set rs. disjoint_regions r (alloc_ptr a, alloc_bytes_remaining a))) \<and>
     memory_usage a = sum_list (map (\<lambda>b. snd b + 8) (blocks a))"

definition arena_step :: "Arena \<Rightarrow> (nat \<times> nat) list \<Rightarrow> nat \<Rightarrow> Arena \<times> nat \<Rightarrow> bool" where
  "arena_step a rs n res \<longleftrightarrow> arena_inv (fst res) (rs @ [(snd res, n)])"

lemma arena_inv_new: "arena_inv Arena_new []"
  by (simp add: arena_inv_def Arena_new_def)

text \<open>Both allocators cut a piece from the front of the free tail when it fits.\<close>

lemma arena_cut:
  assumes inv: "arena_inv a rs" and fits: "slop + n \<le> alloc_bytes_remaining a" and n: "0 < n"
  shows "arena_step a rs n
    (a \<lparr> alloc_ptr := alloc_ptr a + (n + slop), alloc_bytes_remaining := alloc_bytes_remaining a - (n + slop) \<rparr>, alloc_ptr a + slop)"
proof -
  obtain b where b: "b \<in> set (blocks a)" "within (alloc_ptr a, alloc_bytes_remaining a) b"
    and free: "\<forall>r\<in>set rs. disjoint_regions r (alloc_ptr a, alloc_bytes_remaining a)"
    using inv fits n unfolding arena_inv_def by auto
  have w: "within (alloc_ptr a + slop, n) (alloc_ptr a, alloc_bytes_remaining a)"
      "within (alloc_ptr a + (n + slop), alloc_bytes_remaining a - (n + slop)) (alloc_ptr a, alloc_bytes_remaining a)"
    using fits by (auto simp: within_def)
  have "disjoint_regions (alloc_ptr a + slop, n) (alloc_ptr a + (n + slop), m)" for m by (simp add: disjoint_regions_def)
  moreover have "within (alloc_ptr a + slop, n) b" "within (alloc_ptr a + (n + slop), alloc_bytes_remaining a - (n + slop)) b"
    using w b(2) by (auto simp: within_def)
  moreover have "\<forall>r\<in>set rs. disjoint_regions r (alloc_ptr a + slop, n)"
      "\<forall>r\<in>set rs. disjoint_regions r (alloc_ptr a + (n + slop), alloc_bytes_remaining a - (n + slop))"
    using free w disjoint_within within_refl by blast+
  ultimately show ?thesis using inv b(1) by (auto simp: arena_step_def arena_inv_def sorted_wrt_append)
qed

context heap_allocator
begin

lemma new_block_free:
  assumes "arena_inv a rs"
  shows "\<forall>r\<in>set rs. disjoint_regions r (new (blocks a) n, n)"
  using assms new_disjoint disjoint_within within_refl unfolding arena_inv_def by blast

lemma fallback_step:
  assumes inv: "arena_inv a rs" and n: "0 < n"
  shows "arena_step a rs n (AllocateFallback new a n)"
proof (cases "n > arena_kBlockSize div 4")
  case True
  let ?p = "new (blocks a) n"
  have "alloc_bytes_remaining a = 0 \<or> disjoint_regions (?p, n) (alloc_ptr a, alloc_bytes_remaining a)"
    using inv new_disjoint disjoint_within [of _ "(?p, n)" "(alloc_ptr a, alloc_bytes_remaining a)" "(?p, n)"] disjoint_sym
    unfolding arena_inv_def by (metis within_refl)
  then show ?thesis
    using True inv new_disjoint new_block_free [OF inv, of n]
    by (auto simp: arena_step_def arena_inv_def AllocateFallback_def AllocateNewBlock_def Let_def MemoryUsage_def sorted_wrt_append)
next
  case False
  let ?a = "a \<lparr> alloc_ptr := new (blocks a) arena_kBlockSize, alloc_bytes_remaining := arena_kBlockSize,
    blocks := blocks a @ [(new (blocks a) arena_kBlockSize, arena_kBlockSize)], memory_usage := memory_usage a + arena_kBlockSize + 8 \<rparr>"
  have "arena_inv ?a rs"
    using inv new_disjoint new_block_free [OF inv, of arena_kBlockSize]
    by (auto simp: arena_inv_def sorted_wrt_append)
  then have "arena_step ?a rs n (?a \<lparr> alloc_ptr := alloc_ptr ?a + (n + 0), alloc_bytes_remaining := alloc_bytes_remaining ?a - (n + 0) \<rparr>, alloc_ptr ?a + 0)"
    using False n by (intro arena_cut) (simp_all add: arena_kBlockSize_def)
  then show ?thesis using False by (simp add: arena_step_def AllocateFallback_def AllocateNewBlock_def Let_def MemoryUsage_def)
qed

lemma fallback_aligned: "snd (AllocateFallback new a n) mod 8 = 0"
  by (simp add: AllocateFallback_def AllocateNewBlock_def Let_def new_aligned)

lemma allocate_step: "arena_inv a rs \<Longrightarrow> 0 < n \<Longrightarrow> arena_step a rs n (Arena_Allocate new a n)"
  using arena_cut [of a rs 0 n] fallback_step by (simp add: Arena_Allocate_def)

lemma aligned_step:
  assumes "arena_inv a rs" "0 < n"
  shows "arena_step a rs n (AllocateAligned new a n)" "snd (AllocateAligned new a n) mod 8 = 0"
proof -
  define s where "s = (if alloc_ptr a mod 8 = 0 then 0 else 8 - alloc_ptr a mod 8)"
  have eq: "AllocateAligned new a n = (if n + s \<le> alloc_bytes_remaining a
      then (a \<lparr> alloc_ptr := alloc_ptr a + (n + s), alloc_bytes_remaining := alloc_bytes_remaining a - (n + s) \<rparr>, alloc_ptr a + s)
      else AllocateFallback new a n)"
    by (simp only: AllocateAligned_def Let_def s_def)
  have "(alloc_ptr a + s) mod 8 = 0" unfolding s_def by presburger
  then show "snd (AllocateAligned new a n) mod 8 = 0" by (simp add: eq fallback_aligned)
  show "arena_step a rs n (AllocateAligned new a n)"
    using arena_cut [OF assms(1) _ assms(2), of s] fallback_step [OF assms] unfolding eq by (simp add: add.commute)
qed

end

subsection \<open>Property\<close>

text \<open>A request with whether it asks for alignment; the regions handed out.\<close>

fun arena_run :: "new_char \<Rightarrow> (bool \<times> nat) list \<Rightarrow> Arena \<times> (nat \<times> nat) list \<Rightarrow> Arena \<times> (nat \<times> nat) list" where
  "arena_run new [] (a, rs) = (a, rs)"
| "arena_run new ((al, n) # ns) (a, rs) =
     (case (if al then AllocateAligned new a n else Arena_Allocate new a n) of (a, p) \<Rightarrow> arena_run new ns (a, rs @ [(p, n)]))"

context heap_allocator
begin

lemma run_inv:
  assumes "arena_inv a rs" "\<forall>n\<in>snd ` set ns. 0 < n" "arena_run new ns (a, rs) = (a', rs')"
  shows "arena_inv a' rs' \<and> (\<exists>qs. rs' = rs @ qs \<and> map snd qs = map snd ns \<and> (\<forall>i<length ns. fst (ns ! i) \<longrightarrow> fst (qs ! i) mod 8 = 0))"
  using assms
proof (induction ns arbitrary: a rs)
  case (Cons r ns)
  obtain al n where r: "r = (al, n)" by (cases r)
  obtain a1 p where p: "(if al then AllocateAligned new a n else Arena_Allocate new a n) = (a1, p)" by fastforce
  have n: "0 < n" using Cons.prems(2) r by auto
  have s: "arena_step a rs n (a1, p)" "al \<longrightarrow> p mod 8 = 0"
    using aligned_step [OF Cons.prems(1) n] allocate_step [OF Cons.prems(1) n] p by (auto split: if_splits)
  have run: "arena_run new ns (a1, rs @ [(p, n)]) = (a', rs')" using Cons.prems(3) p r by simp
  obtain qs where q: "arena_inv a' rs'" "rs' = (rs @ [(p, n)]) @ qs" "map snd qs = map snd ns"
      "\<forall>i<length ns. fst (ns ! i) \<longrightarrow> fst (qs ! i) mod 8 = 0"
    using Cons.IH [OF _ _ run] s(1) Cons.prems(2) by (auto simp: arena_step_def)
  then show ?case using s(2) r by (intro conjI exI [of _ "(p, n) # qs"]) (auto simp: nth_Cons split: nat.splits)
qed simp

end



end
