(* ===== verification/MemTable.thy ===== *)
theory MemTable
  imports SkipList Arena Dbformat WriteBatch
begin

text \<open>
  The memtable, \<open>db/memtable.cc\<close>: a skip list of entries in an arena. The list's keys are pointers to entries;
  a pointer stands for the bytes from there to the end of the entry. A read past that end is the result \<open>None\<close>.
\<close>

subsection \<open>Entries\<close>

text \<open>\<open>GetVarint32Ptr(p, p + 5, &len)\<close>: the value and the pointer behind it.\<close>

definition entry_varint :: "slice \<Rightarrow> (uint32 \<times> slice) option" where
  "entry_varint p =
     (case GetVarint32Ptr (take 5 p) of
        None \<Rightarrow> None
      | Some (len, rest) \<Rightarrow> Some (len, drop (length (take 5 p) - length rest) p))"

text \<open>The slice, and the memory behind it.\<close>

definition entry_slice :: "slice \<Rightarrow> (slice \<times> slice) option" where
  "entry_slice data =
     (case entry_varint data of
        None \<Rightarrow> None
      | Some (len, p) \<Rightarrow> if length p < unat len then None else Some (take (unat len) p, drop (unat len) p))"

definition entry_key :: "slice \<Rightarrow> slice" where
  "entry_key data = (case entry_slice data of None \<Rightarrow> [] | Some (s, _) \<Rightarrow> s)"

definition MemTable_KeyComparator :: "(slice \<Rightarrow> slice \<Rightarrow> int) \<Rightarrow> slice \<Rightarrow> slice \<Rightarrow> int" where
  "MemTable_KeyComparator cmp aptr bptr = InternalKey_Compare cmp (entry_key aptr) (entry_key bptr)"

definition EncodeKey :: "slice \<Rightarrow> slice" where
  "EncodeKey target = PutVarint32 [] (word_of_nat (length target)) @ target"

text \<open>What \<open>Add\<close> writes to the buffer it allocates, and the size it asks for.\<close>

definition memtable_entry :: "uint64 \<Rightarrow> ValueType \<Rightarrow> slice \<Rightarrow> slice \<Rightarrow> slice" where
  "memtable_entry s t key val =
     (let key_size = length key; val_size = length val; internal_key_size = key_size + 8
      in EncodeVarint32 (word_of_nat internal_key_size) @ key @
         EncodeFixed64 (push_bit 8 s OR ucast (ValueType_code t)) @
         EncodeVarint32 (word_of_nat val_size) @ val)"

definition encoded_len :: "slice \<Rightarrow> slice \<Rightarrow> nat" where
  "encoded_len key val =
     (let key_size = length key; val_size = length val; internal_key_size = key_size + 8
      in VarintLength (word_of_nat internal_key_size) + internal_key_size + VarintLength (word_of_nat val_size) + val_size)"

subsection \<open>The table\<close>

record MemTable =
  mt_refs :: int
  mt_arena :: Arena
  mt_table :: "slice SkipList"

text \<open>The size \<open>NewNode\<close> asks the arena for: a node holds a key and one link, and each further link is a pointer.\<close>

definition node_bytes :: "nat \<Rightarrow> nat" where
  "node_bytes height = 16 + 8 * (height - 1)"

definition MemTable_new :: "new_char \<Rightarrow> MemTable" where
  "MemTable_new new = \<lparr> mt_refs = 0, mt_arena = fst (AllocateAligned new Arena_new (node_bytes kMaxHeight)), mt_table = SkipList_new [] \<rparr>"

definition MemTable_Ref :: "MemTable \<Rightarrow> MemTable" where
  "MemTable_Ref m = m \<lparr> mt_refs := mt_refs m + 1 \<rparr>"

text \<open>\<open>None\<close> once the table is deleted.\<close>

definition MemTable_Unref :: "MemTable \<Rightarrow> MemTable option" where
  "MemTable_Unref m = (if mt_refs m - 1 \<le> 0 then None else Some (m \<lparr> mt_refs := mt_refs m - 1 \<rparr>))"

definition ApproximateMemoryUsage :: "MemTable \<Rightarrow> nat" where
  "ApproximateMemoryUsage m = MemoryUsage (mt_arena m)"

definition MemTable_Add :: "new_char \<Rightarrow> (slice \<Rightarrow> slice \<Rightarrow> int) \<Rightarrow> MemTable \<Rightarrow> uint64 \<Rightarrow> ValueType \<Rightarrow> slice \<Rightarrow> slice \<Rightarrow> MemTable option" where
  "MemTable_Add new cmp m s t key val =
     (let arena = fst (Arena_Allocate new (mt_arena m) (encoded_len key val))
      in case SkipList_Insert (MemTable_KeyComparator cmp) (mt_table m) (memtable_entry s t key val) of
           None \<Rightarrow> None
         | Some table \<Rightarrow>
             Some (m \<lparr> mt_arena := fst (AllocateAligned new arena (node_bytes (length (n_next (last (sl_nodes table)))))),
                       mt_table := table \<rparr>))"

text \<open>The value or the status \<open>Get\<close> stores when it returns true.\<close>

definition MemTable_Get :: "(slice \<Rightarrow> slice \<Rightarrow> int) \<Rightarrow> MemTable \<Rightarrow> LookupKey \<Rightarrow> (status + slice) option option" where
  "MemTable_Get cmp m key =
     (case Iter_Seek (MemTable_KeyComparator cmp) (mt_table m) (LookupKey_memtable_key key) of
        None \<Rightarrow> None
      | Some it \<Rightarrow>
          if Iter_Valid it then
            (case entry_varint (Iter_key (mt_table m) it) of
               None \<Rightarrow> None
             | Some (klen, key_ptr) \<Rightarrow>
                 let key_length = unat klen in
                 if key_length < 8 \<or> length key_ptr < key_length then None
                 else if cmp (take (key_length - 8) key_ptr) (LookupKey_user_key key) = 0 then
                   let tag = DecodeFixed64 (drop (key_length - 8) key_ptr) in
                   if ucast (tag AND 0xff) = ValueType_code kTypeValue then
                     (case entry_slice (drop key_length key_ptr) of None \<Rightarrow> None | Some (v, _) \<Rightarrow> Some (Some (Inr v)))
                   else if ucast (tag AND 0xff) = ValueType_code kTypeDeletion then Some (Some (Inl (Status_NotFound [] [])))
                   else Some None
                 else Some None)
          else Some None)"

subsection \<open>MemTableIterator\<close>

definition MemIter_Valid :: "sl_iter \<Rightarrow> bool" where "MemIter_Valid it = Iter_Valid it"

definition MemIter_Seek :: "(slice \<Rightarrow> slice \<Rightarrow> int) \<Rightarrow> MemTable \<Rightarrow> slice \<Rightarrow> sl_iter option" where
  "MemIter_Seek cmp m k = Iter_Seek (MemTable_KeyComparator cmp) (mt_table m) (EncodeKey k)"

definition MemIter_SeekToFirst :: "MemTable \<Rightarrow> sl_iter option" where "MemIter_SeekToFirst m = Iter_SeekToFirst (mt_table m)"

definition MemIter_SeekToLast :: "MemTable \<Rightarrow> sl_iter option" where "MemIter_SeekToLast m = Iter_SeekToLast (mt_table m)"

definition MemIter_Next :: "MemTable \<Rightarrow> sl_iter \<Rightarrow> sl_iter option" where "MemIter_Next m it = Iter_Next (mt_table m) it"

definition MemIter_Prev :: "(slice \<Rightarrow> slice \<Rightarrow> int) \<Rightarrow> MemTable \<Rightarrow> sl_iter \<Rightarrow> sl_iter option" where
  "MemIter_Prev cmp m it = Iter_Prev (MemTable_KeyComparator cmp) (mt_table m) it"

definition MemIter_key :: "MemTable \<Rightarrow> sl_iter \<Rightarrow> slice option" where
  "MemIter_key m it = map_option fst (entry_slice (Iter_key (mt_table m) it))"

definition MemIter_value :: "MemTable \<Rightarrow> sl_iter \<Rightarrow> slice option" where
  "MemIter_value m it =
     (case entry_slice (Iter_key (mt_table m) it) of
        None \<Rightarrow> None
      | Some (_, p) \<Rightarrow> map_option fst (entry_slice p))"

subsection \<open>What an entry holds\<close>

lemma entry_varint_Encode [simp]: "entry_varint (EncodeVarint32 v @ rest) = Some (v, rest)"
proof -
  have "length (EncodeVarint32 v) \<le> 5" by (simp add: EncodeVarint32_def Let_def)
  then have "take 5 (EncodeVarint32 v @ rest) = EncodeVarint32 v @ take (5 - length (EncodeVarint32 v)) rest" by simp
  then show ?thesis by (simp add: entry_varint_def GetVarint32Ptr_Encode)
qed

lemma entry_slice_Encode:
  "length x < 2 ^ 32 \<Longrightarrow> entry_slice (EncodeVarint32 (word_of_nat (length x)) @ x @ rest) = Some (x, rest)"
  by (simp add: entry_slice_def word_of_nat_unat_eq)

type_synonym mem_add = "uint64 \<times> ValueType \<times> slice \<times> slice"

fun add_ok :: "mem_add \<Rightarrow> bool" where
  "add_ok (s, t, k, v) \<longleftrightarrow> s \<le> kMaxSequenceNumber \<and> length k + 8 < 2 ^ 32 \<and> length v < 2 ^ 32"

fun add_entry :: "mem_add \<Rightarrow> slice" where
  "add_entry (s, t, k, v) = memtable_entry s t k v"

fun add_ikey :: "mem_add \<Rightarrow> slice" where
  "add_ikey (s, t, k, v) = InternalKey k s t"

lemma memtable_entry_eq:
  "memtable_entry s t k v = EncodeVarint32 (word_of_nat (length (InternalKey k s t))) @ InternalKey k s t @
     EncodeVarint32 (word_of_nat (length v)) @ v"
  by (simp add: memtable_entry_def Let_def InternalKey_def AppendInternalKey_def PutFixed64_def PackSequenceAndType_def)

lemma entry_slice_entry:
  assumes "add_ok (s, t, k, v)"
  shows "entry_slice (memtable_entry s t k v) = Some (InternalKey k s t, EncodeVarint32 (word_of_nat (length v)) @ v)"
    "entry_slice (EncodeVarint32 (word_of_nat (length v)) @ v) = Some (v, [])"
  using assms entry_slice_Encode [of "InternalKey k s t"] entry_slice_Encode [of v "[]"] unfolding memtable_entry_eq by simp_all

lemma entry_key_entry: "add_ok a \<Longrightarrow> entry_key (add_entry a) = add_ikey a"
  by (cases a) (simp add: entry_key_def entry_slice_entry)

lemma entry_key_EncodeKey: "length k < 2 ^ 32 \<Longrightarrow> entry_key (EncodeKey k) = k"
  using entry_slice_Encode [of k "[]"] by (simp add: entry_key_def EncodeKey_def PutVarint32_def)

lemma memtable_key_EncodeKey: "LookupKey_memtable_key (LookupKey_make u s) = EncodeKey (InternalKey u s kValueTypeForSeek)"
  by (simp add: LookupKey_parts PutLengthPrefixedSlice_def EncodeKey_def)

text \<open>The assertion at the end of \<open>Add\<close>.\<close>

lemma VarintLength_Encode: "n < 2 ^ 32 \<Longrightarrow> length (EncodeVarint32 (word_of_nat n)) = VarintLength (word_of_nat n)"
proof -
  assume "n < 2 ^ 32"
  then have "(ucast (word_of_nat n :: uint32) :: uint64) = word_of_nat n"
    by (simp add: word_unat_eq_iff unat_ucast_up word_of_nat_unat_eq)
  then show ?thesis by (simp only: EncodeVarint32_64 VarintLength_eq)
qed

lemma encoded_len_entry: "add_ok (s, t, k, v) \<Longrightarrow> length (memtable_entry s t k v) = encoded_len k v"
  using VarintLength_Encode [of "length k + 8"] VarintLength_Encode [of "length v"]
  by (simp add: memtable_entry_def encoded_len_def Let_def length_simps)

subsection \<open>Entries in order\<close>

text \<open>An order on what a key holds is an order on the keys.\<close>

lemma key_order_pullback: "key_order valid cmp \<Longrightarrow> key_order (\<lambda>x. valid (f x)) (\<lambda>x y. cmp (f x) (f y))"
  unfolding key_order_def by blast

definition valid_entry :: "slice \<Rightarrow> bool" where "valid_entry e \<longleftrightarrow> valid_ikey (entry_key e)"

context user_comparator
begin

lemma mem_order: "key_order valid_entry (MemTable_KeyComparator cmp)"
  using key_order_pullback [OF ikey_key_order, of entry_key] unfolding valid_entry_def MemTable_KeyComparator_def .

end

sublocale user_comparator \<subseteq> mem: key_order valid_entry "MemTable_KeyComparator cmp"
  by (rule mem_order)

lemma valid_entry_add: "add_ok a \<Longrightarrow> valid_entry (add_entry a)"
  unfolding valid_entry_def by (cases a) (simp only: entry_key_entry, simp add: valid_ikey_def)

text \<open>The table holds the entries of the additions \<open>as\<close>.\<close>

definition mem_holds :: "(slice \<Rightarrow> slice \<Rightarrow> int) \<Rightarrow> MemTable \<Rightarrow> slice list \<Rightarrow> mem_add list \<Rightarrow> bool" where
  "mem_holds cmp m ks as \<longleftrightarrow> sl_rep valid_entry (MemTable_KeyComparator cmp) (mt_table m) ks \<and>
     set ks = add_entry ` set as \<and> (\<forall>a\<in>set as. add_ok a)"

text \<open>What a lookup at sequence \<open>s\<close> may see, and what it reports.\<close>

fun add_visible :: "(slice \<Rightarrow> slice \<Rightarrow> int) \<Rightarrow> slice \<Rightarrow> uint64 \<Rightarrow> mem_add \<Rightarrow> bool" where
  "add_visible cmp u s (s', t, k, v) \<longleftrightarrow> cmp k u = 0 \<and> s' \<le> s"

fun add_tag :: "mem_add \<Rightarrow> uint64" where
  "add_tag (s, t, k, v) = PackSequenceAndType s t"

fun add_result :: "mem_add \<Rightarrow> status + slice" where
  "add_result (s, kTypeValue, k, v) = Inr v"
| "add_result (s, kTypeDeletion, k, v) = Inl (Status_NotFound [] [])"

definition newest :: "(slice \<Rightarrow> slice \<Rightarrow> int) \<Rightarrow> mem_add list \<Rightarrow> slice \<Rightarrow> uint64 \<Rightarrow> mem_add option \<Rightarrow> bool" where
  "newest cmp as u s r \<longleftrightarrow>
     (case r of
        None \<Rightarrow> \<forall>a\<in>set as. \<not> add_visible cmp u s a
      | Some a \<Rightarrow> a \<in> set as \<and> add_visible cmp u s a \<and> (\<forall>b\<in>set as. add_visible cmp u s b \<longrightarrow> add_tag b \<le> add_tag a))"

context user_comparator
begin

lemma mem_new: "mem_holds cmp (MemTable_new new) [] []"
  using mem.sl_new by (simp add: mem_holds_def MemTable_new_def)

lemma mem_add:
  assumes "mem_holds cmp m ks as" "add_ok (s, t, k, v)" "\<forall>a\<in>set as. InternalKey_Compare cmp (add_ikey a) (InternalKey k s t) \<noteq> 0"
  shows "\<exists>m' ks'. MemTable_Add new cmp m s t k v = Some m' \<and> mem_holds cmp m' ks' (as @ [(s, t, k, v)])"
proof -
  let ?e = "memtable_entry s t k v"
  have e: "entry_key ?e = InternalKey k s t" "valid_entry ?e" using entry_key_entry [OF assms(2)] valid_entry_add [OF assms(2)] by simp_all
  have "\<forall>a\<in>set ks. MemTable_KeyComparator cmp a ?e \<noteq> 0"
    using assms(1,3) e(1) entry_key_entry by (auto simp: mem_holds_def MemTable_KeyComparator_def)
  then obtain t' where t': "SkipList_Insert (MemTable_KeyComparator cmp) (mt_table m) ?e = Some t'"
      "sl_rep valid_entry (MemTable_KeyComparator cmp) t' (insert_sorted (MemTable_KeyComparator cmp) ?e ks)"
    using mem.Insert_law [of "mt_table m" ks ?e] assms(1) e(2) by (auto simp: mem_holds_def)
  let ?ks = "insert_sorted (MemTable_KeyComparator cmp) ?e ks"
  have "set ?ks = add_entry ` set (as @ [(s, t, k, v)])" using assms(1) mem.skip.insert_sorted_set by (simp add: mem_holds_def)
  then have "mem_holds cmp (m' \<lparr> mt_table := t' \<rparr>) ?ks (as @ [(s, t, k, v)])" for m'
    using t'(2) assms(1,2) by (auto simp: mem_holds_def)
  then show ?thesis using t'(1) by (auto simp: MemTable_Add_def Let_def)
qed

lemma mem_seek_not_less:
  assumes "add_ok a" "add_visible cmp u s a" "unat s < 2 ^ 56"
  shows "\<not> InternalKey_Compare cmp (add_ikey a) (InternalKey u s kValueTypeForSeek) < 0"
  using assms by (cases a) (auto simp: ikey_less_iff kMaxSequenceNumber_unat Pack_seek_le_iff not_less)

lemma in_set_dropWhile: "x \<in> set xs \<Longrightarrow> \<not> P x \<Longrightarrow> x \<in> set (dropWhile P xs)"
  by (induction xs) auto

lemma mem_seek:
  assumes "mem_holds cmp m ks as" "valid_ikey ik" "length ik < 2 ^ 32"
  obtains it j where "MemIter_Seek cmp m ik = Some it" "sl_at (mt_table m) ks it j"
    "drop j ks = dropWhile (\<lambda>e. InternalKey_Compare cmp (entry_key e) ik < 0) ks"
proof -
  have "valid_entry (EncodeKey ik)" using assms(2,3) by (simp add: valid_entry_def entry_key_EncodeKey)
  then show thesis
    using that mem.Seek_law [of "mt_table m" ks "EncodeKey ik"] assms(1,3)
    by (auto simp: mem_holds_def MemIter_Seek_def MemTable_KeyComparator_def entry_key_EncodeKey)
qed

text \<open>The entry the search stops at is the newest visible one, when the user key is the same.\<close>

lemma mem_seek_newest:
  assumes h: "mem_holds cmp m ks as" and s: "unat s < 2 ^ 56"
    and d: "drop j ks = dropWhile (\<lambda>e. InternalKey_Compare cmp (entry_key e) (InternalKey u s kValueTypeForSeek) < 0) ks"
    and j: "j < length ks" and a: "a \<in> set as" "ks ! j = add_entry a"
  shows "cmp (ExtractUserKey (add_ikey a)) u = 0 \<Longrightarrow> newest cmp as u s (Some a)"
    "cmp (ExtractUserKey (add_ikey a)) u \<noteq> 0 \<Longrightarrow> newest cmp as u s None"
proof -
  let ?l = "InternalKey u s kValueTypeForSeek"
  have ok: "\<forall>a\<in>set as. add_ok a" using h by (simp add: mem_holds_def)
  have ge: "\<not> InternalKey_Compare cmp (add_ikey a) ?l < 0"
    using hd_dropWhile [of "\<lambda>e. InternalKey_Compare cmp (entry_key e) ?l < 0" ks] j a ok entry_key_entry
    by (metis d drop_eq_Nil hd_drop_conv_nth linorder_not_le)
  have le: "InternalKey_Compare cmp (add_ikey a) (add_ikey b) \<le> 0" if b: "b \<in> set as" "add_visible cmp u s b" for b
  proof -
    have "add_entry b \<in> set ks" using h b(1) by (simp add: mem_holds_def)
    moreover have "\<not> InternalKey_Compare cmp (entry_key (add_entry b)) ?l < 0"
      using mem_seek_not_less [OF _ b(2) s] ok b(1) entry_key_entry by simp
    ultimately have "add_entry b \<in> set (drop j ks)" unfolding d by (rule in_set_dropWhile)
    then obtain n where n: "n < length ks - j" "ks ! (j + n) = add_entry b" by (auto simp: in_set_conv_nth)
    define i where "i = j + n"
    have i: "j \<le> i" "i < length ks" "add_entry b = ks ! i" using n by (simp_all add: i_def)
    have "i = j \<or> MemTable_KeyComparator cmp (ks ! j) (ks ! i) < 0"
      using mem.sl_rep_sorted [of "mt_table m" ks] h i(1,2)
      by (cases "i = j") (auto simp: mem_holds_def sorted_wrt_iff_nth_less)
    moreover have "entry_key (ks ! j) = add_ikey a" "entry_key (ks ! i) = add_ikey b"
      using entry_key_entry ok a b(1) i(3) [symmetric] by simp_all
    moreover have "valid_ikey (add_ikey a)" using valid_entry_add entry_key_entry ok a(1) by (simp add: valid_entry_def)
    ultimately show ?thesis using internal.cmp_refl [of "add_ikey a"] by (auto simp: MemTable_KeyComparator_def)
  qed
  obtain s' t k v where A: "a = (s', t, k, v)" by (cases a)
  have s': "unat s' < 2 ^ 56" using ok a(1) A by (auto simp: kMaxSequenceNumber_unat)
  have le': "cmp k (fst (snd (snd b))) \<le> 0 \<and> (cmp k (fst (snd (snd b))) = 0 \<longrightarrow> add_tag b \<le> add_tag a)"
    if "b \<in> set as" "add_visible cmp u s b" for b
    using le [OF that] A by (cases b) (auto simp: ikey_le_iff)
  show "newest cmp as u s (Some a)" if "cmp (ExtractUserKey (add_ikey a)) u = 0"
  proof -
    have u: "cmp k u = 0" using that A by simp
    have "add_visible cmp u s a" using ge u A s' s by (simp add: ikey_less_iff Pack_seek_le_iff not_less)
    moreover have "add_tag b \<le> add_tag a" if b: "b \<in> set as" "add_visible cmp u s b" for b
    proof -
      obtain s2 t2 k2 v2 where B: "b = (s2, t2, k2, v2)" by (cases b)
      have "cmp k2 u = 0" "cmp u k = 0" using b(2) B u cmp_eq_sym by simp_all
      then have "cmp k2 k \<le> 0" using cmp_trans [of k2 u k] by simp
      then have "0 \<le> cmp k k2" using cmp_flip [of k k2] by force
      then show ?thesis using le' [OF b] B by simp
    qed
    ultimately show ?thesis using a(1) by (simp add: newest_def)
  qed
  show "newest cmp as u s None" if "cmp (ExtractUserKey (add_ikey a)) u \<noteq> 0"
  proof -
    have "\<not> cmp k u \<le> 0" using ge that A by (auto simp: ikey_less_iff)
    then have "\<not> add_visible cmp u s b" if b: "b \<in> set as" for b
      using le' [OF b] cmp_trans [of k "fst (snd (snd b))" u] by (cases b) auto
    then show ?thesis by (simp add: newest_def)
  qed
qed

lemma Get_entry:
  assumes ok: "add_ok a" and it: "Iter_Seek (MemTable_KeyComparator cmp) (mt_table m) (LookupKey_memtable_key (LookupKey_make u s)) = Some it"
    "Iter_Valid it" "Iter_key (mt_table m) it = add_entry a"
  shows "MemTable_Get cmp m (LookupKey_make u s) =
    Some (if cmp (ExtractUserKey (add_ikey a)) u = 0 then Some (add_result a) else None)"
proof -
  obtain s' t k v where A: "a = (s', t, k, v)" by (cases a)
  let ?v = "EncodeVarint32 (word_of_nat (length v)) @ v"
  define P where "P = InternalKey k s' t @ ?v"
  have e: "entry_varint (Iter_key (mt_table m) it) = Some (word_of_nat (length k + 8), P)"
    unfolding it(3) A add_entry.simps memtable_entry_eq entry_varint_Encode P_def by simp
  have n: "unat (word_of_nat (length k + 8) :: uint32) = length k + 8" using ok A by (intro word_of_nat_unat_eq) simp
  have P: "P = k @ EncodeFixed64 (PackSequenceAndType s' t) @ ?v"
    by (simp add: P_def InternalKey_def AppendInternalKey_def PutFixed64_def)
  have parts: "take (length k) P = k" "DecodeFixed64 (drop (length k) P) = PackSequenceAndType s' t" "length k + 8 \<le> length P"
    by (simp_all add: P DecodeFixed64_Encode length_simps)
  have rest: "drop (length k + 8) P = ?v" unfolding P_def by (rule drop_length_append) simp
  have "MemTable_Get cmp m (LookupKey_make u s) =
    (if cmp k u = 0 then if ValueType_code t = ValueType_code kTypeValue then Some (Some (Inr v))
       else if ValueType_code t = ValueType_code kTypeDeletion then Some (Some (Inl (Status_NotFound [] []))) else Some None
     else Some None)"
    using parts(3) unfolding MemTable_Get_def it(1) option.case
    by (simp only: it(2) if_True e option.case prod.case Let_def n LookupKey_parts(2) parts(1,2) rest diff_add_inverse2
        entry_slice_entry(2) [OF ok [unfolded A]] ucast_Pack)
      simp
  then show ?thesis using A by (cases t) simp_all
qed

lemma Get_newest:
  assumes h: "mem_holds cmp m ks as" and s: "s \<le> kMaxSequenceNumber" and u: "length u + 8 < 2 ^ 32"
  shows "\<exists>r. newest cmp as u s r \<and> MemTable_Get cmp m (LookupKey_make u s) = Some (map_option add_result r)"
proof -
  let ?l = "InternalKey u s kValueTypeForSeek"
  obtain it j where it: "MemIter_Seek cmp m ?l = Some it" "sl_at (mt_table m) ks it j"
      "drop j ks = dropWhile (\<lambda>e. InternalKey_Compare cmp (entry_key e) ?l < 0) ks"
    using mem_seek [OF h, of ?l] u by (auto simp: valid_ikey_def)
  have seek: "Iter_Seek (MemTable_KeyComparator cmp) (mt_table m) (LookupKey_memtable_key (LookupKey_make u s)) = Some it"
    using it(1) by (simp add: MemIter_Seek_def memtable_key_EncodeKey)
  have s': "unat s < 2 ^ 56" using s by (simp add: kMaxSequenceNumber_unat)
  show ?thesis
  proof (cases "j < length ks")
    case True
    then obtain a where a: "a \<in> set as" "ks ! j = add_entry a" using h by (metis imageE mem_holds_def nth_mem)
    have "Iter_Valid it" "Iter_key (mt_table m) it = add_entry a"
      using mem.skip.at_valid [OF it(2)] mem.skip.at_key [OF it(2) True] True a(2) by simp_all
    then have "MemTable_Get cmp m (LookupKey_make u s) = Some (if cmp (ExtractUserKey (add_ikey a)) u = 0 then Some (add_result a) else None)"
      using Get_entry [OF _ seek] h a(1) by (simp add: mem_holds_def)
    then show ?thesis using mem_seek_newest [OF h s' it(3) True a] by (cases "cmp (ExtractUserKey (add_ikey a)) u = 0") force+
  next
    case False
    then have "\<forall>e\<in>set ks. InternalKey_Compare cmp (entry_key e) ?l < 0" using it(3) by (metis drop_all dropWhile_eq_Nil_conv linorder_not_less)
    then have "InternalKey_Compare cmp (add_ikey a) ?l < 0" if "a \<in> set as" for a
      using h that entry_key_entry [of a] by (force simp: mem_holds_def)
    then have "newest cmp as u s None"
      using h mem_seek_not_less [OF _ _ s'] unfolding newest_def mem_holds_def option.case by blast
    moreover have "MemTable_Get cmp m (LookupKey_make u s) = Some None"
      using seek False mem.skip.at_valid [OF it(2)] by (simp add: MemTable_Get_def)
    ultimately show ?thesis by force
  qed
qed

end

subsection \<open>Properties\<close>

definition mem_add_all :: "new_char \<Rightarrow> (slice \<Rightarrow> slice \<Rightarrow> int) \<Rightarrow> mem_add list \<Rightarrow> MemTable \<Rightarrow> MemTable option" where
  "mem_add_all new cmp as m = fold (\<lambda>(s, t, k, v) mo. Option.bind mo (\<lambda>m. MemTable_Add new cmp m s t k v)) as (Some m)"

text \<open>No two additions have the same user key, sequence number and type.\<close>

definition distinct_adds :: "(slice \<Rightarrow> slice \<Rightarrow> int) \<Rightarrow> mem_add list \<Rightarrow> bool" where
  "distinct_adds cmp as \<longleftrightarrow> sorted_wrt (\<lambda>a b. InternalKey_Compare cmp (add_ikey a) (add_ikey b) \<noteq> 0) as"

context user_comparator
begin

lemma mem_add_all_from:
  assumes "mem_holds cmp m0 [] []" "\<forall>a\<in>set as. add_ok a" "distinct_adds cmp as"
  shows "\<exists>m ks. mem_add_all new cmp as m0 = Some m \<and> mem_holds cmp m ks as"
  using assms(2,3)
proof (induction as rule: rev_induct)
  case Nil
  then show ?case using assms(1) by (auto simp: mem_add_all_def)
next
  case (snoc a as)
  obtain s t k v where A: "a = (s, t, k, v)" by (cases a)
  obtain m ks where m: "mem_add_all new cmp as m0 = Some m" "mem_holds cmp m ks as"
    using snoc by (auto simp: distinct_adds_def sorted_wrt_append)
  have "\<forall>a\<in>set as. InternalKey_Compare cmp (add_ikey a) (InternalKey k s t) \<noteq> 0" "add_ok (s, t, k, v)"
    using snoc.prems A by (auto simp: distinct_adds_def sorted_wrt_append)
  then show ?case using mem_add [OF m(2), of s t k v new] m(1) A by (simp add: mem_add_all_def)
qed

lemma mem_add_all_holds:
  assumes "\<forall>a\<in>set as. add_ok a" "distinct_adds cmp as"
  shows "\<exists>m ks. mem_add_all new cmp as (MemTable_new new) = Some m \<and> mem_holds cmp m ks as"
  using mem_add_all_from [OF mem_new assms] .

end

text \<open>C14. A lookup in a memtable finds the newest visible entry: after any additions that differ in user key, sequence
  number or type, with a user comparator that orders its keys, \<open>Get\<close> at a sequence number returns the value of the
  entry of that user key with the greatest sequence number that is not above it, reports NotFound when that entry is
  a deletion, and returns false when the key has no such entry. It never reads outside an entry.\<close>

theorem memtable_get_newest:
  assumes "user_comparator cmp sep succ" "\<forall>a\<in>set as. add_ok a" "distinct_adds cmp as"
  shows "\<exists>m. mem_add_all new cmp as (MemTable_new new) = Some m \<and>
    (\<forall>u s. s \<le> kMaxSequenceNumber \<and> length u + 8 < 2 ^ 32 \<longrightarrow>
      (\<exists>r. newest cmp as u s r \<and> MemTable_Get cmp m (LookupKey_make u s) = Some (map_option add_result r)))"
  using user_comparator.mem_add_all_holds [OF assms(1-3)] user_comparator.Get_newest [OF assms(1)] by blast

theorem memtable_get_newest_witness:
  "\<exists>m. mem_add_all bump_new Bytewise_Compare [(1, kTypeValue, [7], [8]), (2, kTypeDeletion, [7], [])] (MemTable_new bump_new) = Some m \<and>
    MemTable_Get Bytewise_Compare m (LookupKey_make [7] 1) = Some (Some (Inr [8])) \<and>
    MemTable_Get Bytewise_Compare m (LookupKey_make [7] 5) = Some (Some (Inl (Status_NotFound [] [])))"
proof -
  let ?as = "[(1, kTypeValue, [7], [8]), (2, kTypeDeletion, [7], [])] :: mem_add list"
  have ok: "\<forall>a\<in>set ?as. add_ok a" "distinct_adds Bytewise_Compare ?as" "(1 :: uint64) \<le> kMaxSequenceNumber" "(5 :: uint64) \<le> kMaxSequenceNumber"
    by (simp_all add: kMaxSequenceNumber_def distinct_adds_def ubytewise.ikey_eq_iff PackSequenceAndType_def)
  obtain m where m: "mem_add_all bump_new Bytewise_Compare ?as (MemTable_new bump_new) = Some m"
      "\<And>u s. s \<le> kMaxSequenceNumber \<and> length u + 8 < 2 ^ 32 \<Longrightarrow>
        (\<exists>r. newest Bytewise_Compare ?as u s r \<and> MemTable_Get Bytewise_Compare m (LookupKey_make u s) = Some (map_option add_result r))"
    using memtable_get_newest [OF ubytewise.user_comparator_axioms ok(1,2), of bump_new] by blast
  have length_7: "length [7 :: byte] + 8 < 2 ^ 32" by simp
  have n: "newest Bytewise_Compare ?as [7] 1 r \<Longrightarrow> r = Some (1, kTypeValue, [7], [8])"
      "newest Bytewise_Compare ?as [7] 5 r \<Longrightarrow> r = Some (2, kTypeDeletion, [7], [])" for r
    by (auto simp: newest_def Bytewise_Compare_def PackSequenceAndType_def word_le_nat_alt split: option.splits)
  have "MemTable_Get Bytewise_Compare m (LookupKey_make [7] 1) = Some (map_option add_result (Some (1, kTypeValue, [7], [8])))"
    using m(2) [OF conjI [OF ok(3)], of "[7]"] n(1) by (metis length_7)
  moreover have "MemTable_Get Bytewise_Compare m (LookupKey_make [7] 5) = Some (map_option add_result (Some (2, kTypeDeletion, [7], [])))"
    using m(2) [OF conjI [OF ok(4)], of "[7]"] n(2) by (metis length_7)
  ultimately show ?thesis using m(1) by simp
qed

subsection \<open>Batches in a memtable\<close>

primrec update_key :: "Update \<Rightarrow> slice" where
  "update_key (UPut k v) = k"
| "update_key (UDelete k) = k"

primrec update_result :: "Update \<Rightarrow> status + slice" where
  "update_result (UPut k v) = Inr v"
| "update_result (UDelete k) = Inl (Status_NotFound [] [])"

primrec update_add :: "uint64 \<Rightarrow> Update \<Rightarrow> mem_add" where
  "update_add s (UPut k v) = (s, kTypeValue, k, v)"
| "update_add s (UDelete k) = (s, kTypeDeletion, k, [])"

definition batch_adds :: "uint64 \<Rightarrow> Update list \<Rightarrow> mem_add list" where
  "batch_adds seq us = map (\<lambda>i. update_add (seq + word_of_nat i) (us ! i)) [0..<length us]"

lemma update_add_simps [simp]:
  "add_ikey (update_add s w) = InternalKey (update_key w) s (if (\<exists>v. w = UPut (update_key w) v) then kTypeValue else kTypeDeletion)"
  "add_result (update_add s w) = update_result w"
  "add_visible cmp u s' (update_add s w) \<longleftrightarrow> cmp (update_key w) u = 0 \<and> s \<le> s'"
  "add_tag (update_add s w) = PackSequenceAndType s (if (\<exists>v. w = UPut (update_key w) v) then kTypeValue else kTypeDeletion)"
  by (cases w; simp)+

lemma find_last:
  assumes "i < j" "j \<le> length xs" "P (xs ! i)" "\<And>n. i < n \<Longrightarrow> n < j \<Longrightarrow> \<not> P (xs ! n)"
  shows "find P (rev (take j xs)) = Some (xs ! i)"
proof -
  have "take j xs = take i xs @ xs ! i # drop (Suc i) (take j xs)"
    using id_take_nth_drop [of i "take j xs"] assms(1,2) by simp
  then have r: "rev (take j xs) = rev (drop (Suc i) (take j xs)) @ xs ! i # rev (take i xs)" by (metis append.assoc append_Cons append_Nil rev.simps(2) rev_append)
  have "\<not> P y" if y: "y \<in> set (rev (drop (Suc i) (take j xs)))" for y
  proof -
    obtain m where m: "m < length (drop (Suc i) (take j xs))" "y = drop (Suc i) (take j xs) ! m"
      using y unfolding set_rev in_set_conv_nth by blast
    then show ?thesis using assms(2) assms(4) [of "Suc i + m"] by simp
  qed
  then have "find P (rev (drop (Suc i) (take j xs)) @ ys) = find P ys" for ys
    by (simp add: find_dropWhile dropWhile_append1 dropWhile_append)
  then show ?thesis unfolding r using assms(3) by simp
qed

lemma unat_seq:
  fixes seq :: uint64
  assumes "unat seq + length us \<le> 2 ^ 56" "i < length us"
  shows "unat (seq + word_of_nat i) = unat seq + i"
  using assms by (simp add: unat_word_ariths unat_of_nat take_bit_nat_eq_self)

lemma newest_batch:
  assumes seq: "unat seq + length us \<le> 2 ^ 56" and j: "0 < j" "j \<le> length us"
    and r: "newest cmp (batch_adds seq us) u (seq + word_of_nat (j - 1)) r"
  shows "map_option add_result r = map_option update_result (find (\<lambda>w. cmp (update_key w) u = 0) (rev (take j us)))"
proof -
  let ?P = "\<lambda>w. cmp (update_key w) u = 0"
  let ?add = "\<lambda>i. update_add (seq + word_of_nat i) (us ! i)"
  note un = unat_seq [OF seq]
  define S where "S = seq + word_of_nat (j - 1)"
  have vis: "add_visible cmp u S (?add i) \<longleftrightarrow> ?P (us ! i) \<and> i < j" if "i < length us" for i
    using un [OF that] un [of "j - 1"] j unfolding S_def by (auto simp: word_le_nat_alt)
  note r = r [folded S_def]
  have mem: "\<forall>i<length us. ?add i \<in> set (batch_adds seq us)" by (auto simp: batch_adds_def)
  show ?thesis
  proof (cases r)
    case None
    have "\<not> ?P (us ! i)" if i: "i < j" for i
    proof -
      have "\<not> add_visible cmp u S (?add i)" using r None mem i j(2) unfolding newest_def by (simp del: update_add_simps)
      then show ?thesis using vis [of i] i j(2) by (simp del: update_add_simps)
    qed
    then have "find ?P (rev (take j us)) = None" by (auto simp: find_None_iff in_set_conv_nth)
    then show ?thesis using None by simp
  next
    case (Some a)
    then obtain i where i: "i < length us" "a = ?add i" using r by (auto simp: newest_def batch_adds_def)
    have P: "?P (us ! i)" "i < j" using r Some i vis [OF i(1)] unfolding newest_def by (simp_all del: update_add_simps)
    have "\<not> ?P (us ! n)" if n: "i < n" "n < j" for n
    proof
      assume "?P (us ! n)"
      then have "add_tag (?add n) \<le> add_tag (?add i)" using r Some i(2) vis [of n] mem n j(2) unfolding newest_def by (simp del: update_add_simps)
      moreover have "unat (seq + word_of_nat n) < 2 ^ 56" "unat (seq + word_of_nat i) < 2 ^ 56"
          "seq + word_of_nat i < seq + word_of_nat n"
        using un [of n] un [of i] i(1) n j seq by (simp_all add: word_less_nat_alt)
      ultimately show False using Pack_less_iff by (simp add: not_less [symmetric] split: if_splits)
    qed
    then show ?thesis using find_last [of i j us ?P, OF P(2) j(2) P(1)] Some i(2) by simp
  qed
qed

lemma batch_adds_ok:
  assumes "unat seq + length us \<le> 2 ^ 56" "\<forall>w\<in>set us. small w \<and> length (update_key w) + 8 < 2 ^ 32"
  shows "\<forall>a\<in>set (batch_adds seq us). add_ok a"
proof -
  have "add_ok (update_add (seq + word_of_nat i) (us ! i))" if "i < length us" for i
  proof -
    have "seq + word_of_nat i \<le> kMaxSequenceNumber" using unat_seq [OF assms(1) that] that assms(1) by (simp add: kMaxSequenceNumber_unat)
    moreover have "small (us ! i)" "length (update_key (us ! i)) + 8 < 2 ^ 32" using assms(2) that by auto
    ultimately show ?thesis by (cases "us ! i") simp_all
  qed
  then show ?thesis by (auto simp: batch_adds_def)
qed

lemma distinct_by_seq:
  fixes f :: "nat \<Rightarrow> mem_add"
  assumes "\<And>i j. i < j \<Longrightarrow> j < n \<Longrightarrow> add_tag (f i) \<noteq> add_tag (f j)" "user_comparator cmp sep succ"
  shows "distinct_adds cmp (map f [0..<n])"
proof -
  have "internal_tag (add_ikey a) = add_tag a" for a by (cases a) simp
  then show ?thesis using assms(1) user_comparator.ikey_eq_iff [OF assms(2)] by (auto simp: distinct_adds_def sorted_wrt_map sorted_wrt_iff_nth_less)
qed

definition memtable_adder :: "new_char \<Rightarrow> (slice \<Rightarrow> slice \<Rightarrow> int) \<Rightarrow> MemTable option \<Rightarrow> uint64 \<Rightarrow> ValueType \<Rightarrow> slice \<Rightarrow> slice \<Rightarrow> MemTable option" where
  "memtable_adder new cmp mo s t k v = Option.bind mo (\<lambda>m. MemTable_Add new cmp m s t k v)"

lemma InsertInto_batch:
  assumes "\<forall>w\<in>set us. small w"
  shows "WriteBatch_InsertInto (memtable_adder new cmp) (WriteBatch_SetSequence (batch_of us) seq) (Some m) =
    (mem_add_all new cmp (batch_adds seq us) m, Status_OK)"
proof -
  have u: "(case w of UPut k v \<Rightarrow> memtable_adder new cmp mo s kTypeValue k v | UDelete k \<Rightarrow> memtable_adder new cmp mo s kTypeDeletion k []) =
      (case update_add s w of (s, t, k, v) \<Rightarrow> Option.bind mo (\<lambda>m. MemTable_Add new cmp m s t k v))" for w mo s
    by (cases w) (simp_all add: memtable_adder_def)
  have b: "batch_adds seq us = map (\<lambda>(i, w). update_add (seq + word_of_nat i) w) (enumerate 0 us)"
    by (rule nth_equalityI) (simp_all add: batch_adds_def nth_enumerate_eq)
  note one = is_batch_SetSequence [OF is_batch_of [of us], of seq]
  show ?thesis
    unfolding WriteBatch_InsertInto_def Iterate_batch [OF one assms] is_batch_parts(2) [OF one] fold_handle_Inserter u b
    by (simp add: mem_add_all_def fold_map comp_def case_prod_unfold)
qed

text \<open>C13. A write batch takes effect in order: once a batch numbered from \<open>seq\<close> is inserted into an empty memtable, which
  succeeds, a lookup at the sequence number of its \<open>j\<close>-th update sees exactly the first \<open>j\<close> updates, the last one
  of the key deciding: its value, NotFound for a deletion, and false for a key the batch has not touched by then.\<close>

theorem write_batch_snapshots:
  assumes "user_comparator cmp sep succ" "unat seq + length us \<le> 2 ^ 56"
    "\<forall>w\<in>set us. small w \<and> length (update_key w) + 8 < 2 ^ 32"
  shows "\<exists>m. WriteBatch_InsertInto (memtable_adder new cmp) (WriteBatch_SetSequence (batch_of us) seq) (Some (MemTable_new new)) = (Some m, Status_OK) \<and>
    (\<forall>u j. 0 < j \<and> j \<le> length us \<and> length u + 8 < 2 ^ 32 \<longrightarrow>
      MemTable_Get cmp m (LookupKey_make u (seq + word_of_nat (j - 1))) =
        Some (map_option update_result (find (\<lambda>w. cmp (update_key w) u = 0) (rev (take j us)))))"
proof -
  have ok: "\<forall>a\<in>set (batch_adds seq us). add_ok a" using batch_adds_ok [OF assms(2,3)] .
  have "distinct_adds cmp (batch_adds seq us)"
    unfolding batch_adds_def
  proof (rule distinct_by_seq [OF _ assms(1)])
    fix i j :: nat
    assume ij: "i < j" "j < length us"
    have "drop_bit 8 (add_tag (update_add (seq + word_of_nat n) (us ! n))) = seq + word_of_nat n" if "n < length us" for n
      using unat_seq [OF assms(2) that] that assms(2) by (simp add: drop_Pack)
    moreover have "seq + word_of_nat i \<noteq> seq + word_of_nat j"
      using unat_seq [OF assms(2), of i] unat_seq [OF assms(2), of j] ij by (metis add_left_cancel less_irrefl order.strict_trans)
    ultimately show "add_tag (update_add (seq + word_of_nat i) (us ! i)) \<noteq> add_tag (update_add (seq + word_of_nat j) (us ! j))"
      using ij by (metis order.strict_trans)
  qed
  then obtain m ks where m: "mem_add_all new cmp (batch_adds seq us) (MemTable_new new) = Some m" "mem_holds cmp m ks (batch_adds seq us)"
    using user_comparator.mem_add_all_holds [OF assms(1) ok, of new] by blast
  have "MemTable_Get cmp m (LookupKey_make u (seq + word_of_nat (j - 1))) =
      Some (map_option update_result (find (\<lambda>w. cmp (update_key w) u = 0) (rev (take j us))))"
    if j: "0 < j" "j \<le> length us" and u: "length u + 8 < 2 ^ 32" for u j
  proof -
    have "seq + word_of_nat (j - 1) \<le> kMaxSequenceNumber"
      using unat_seq [OF assms(2), of "j - 1"] j assms(2) unfolding kMaxSequenceNumber_unat by simp
    then obtain r where "newest cmp (batch_adds seq us) u (seq + word_of_nat (j - 1)) r"
        "MemTable_Get cmp m (LookupKey_make u (seq + word_of_nat (j - 1))) = Some (map_option add_result r)"
      using user_comparator.Get_newest [OF assms(1) m(2) _ u] by blast
    then show ?thesis using newest_batch [OF assms(2) j] by metis
  qed
  moreover have "\<forall>w\<in>set us. small w" using assms(3) by blast
  ultimately show ?thesis using InsertInto_batch [of us new cmp seq "MemTable_new new"] m(1) by auto
qed

theorem write_batch_snapshots_witness:
  "\<exists>m. WriteBatch_InsertInto (memtable_adder bump_new Bytewise_Compare)
      (WriteBatch_SetSequence (batch_of [UPut [1] [2], UDelete [1]]) 100) (Some (MemTable_new bump_new)) = (Some m, Status_OK) \<and>
    MemTable_Get Bytewise_Compare m (LookupKey_make [1] 100) = Some (Some (Inr [2])) \<and>
    MemTable_Get Bytewise_Compare m (LookupKey_make [1] 101) = Some (Some (Inl (Status_NotFound [] [])))"
proof -
  let ?us = "[UPut [1] [2], UDelete [1]]"
  have a: "unat (100 :: uint64) + length ?us \<le> 2 ^ 56" "\<forall>w\<in>set ?us. small w \<and> length (update_key w) + 8 < 2 ^ 32" by simp_all
  obtain m where m: "WriteBatch_InsertInto (memtable_adder bump_new Bytewise_Compare) (WriteBatch_SetSequence (batch_of ?us) 100)
        (Some (MemTable_new bump_new)) = (Some m, Status_OK)"
      "\<And>u j. 0 < j \<and> j \<le> length ?us \<and> length u + 8 < 2 ^ 32 \<Longrightarrow>
        MemTable_Get Bytewise_Compare m (LookupKey_make u (100 + word_of_nat (j - 1))) =
        Some (map_option update_result (find (\<lambda>w. Bytewise_Compare (update_key w) u = 0) (rev (take j ?us))))"
    using write_batch_snapshots [OF ubytewise.user_comparator_axioms a, of bump_new] by blast
  show ?thesis using m(1) m(2) [of 1 "[1]"] m(2) [of 2 "[1]"] by (auto simp: Bytewise_Compare_def)
qed

end
