(* ===== verification/IterCursors.thy ===== *)
theory IterCursors
  imports Merger BlockCorrect MemTable
begin

text \<open>
  The iterators of blocks and memtables keep the iterator contract, and so does a merging iterator over iterators
  that keep it.
\<close>

subsection \<open>Blocks\<close>

definition block_ops :: "(slice \<Rightarrow> slice \<Rightarrow> int) \<Rightarrow> BlockIter iter_ops" where
  "block_ops cmp =
     \<lparr> io_Valid = BlockIter_Valid, io_key = bi_key, io_value = BlockIter_value, io_status = bi_status,
       io_Next = BlockIter_Next, io_Prev = BlockIter_Prev, io_Seek = (\<lambda>k it. BlockIter_Seek cmp it k),
       io_SeekToFirst = BlockIter_SeekToFirst, io_SeekToLast = BlockIter_SeekToLast \<rparr>"

definition block_at :: "(slice \<Rightarrow> bool) \<Rightarrow> (slice \<Rightarrow> slice \<Rightarrow> int) \<Rightarrow> BlockIter \<Rightarrow> entries \<Rightarrow> nat \<Rightarrow> bool" where
  "block_at valid cmp it es j \<longleftrightarrow> sorted_entries valid cmp es \<and> j \<le> length es \<and>
     (\<exists>data limit offs ns. block_layout data limit es offs ns \<and> iter_at data limit es offs ns j it)"

lemma cut_posI:
  assumes "k \<le> length es" "\<forall>i<k. P (fst (es ! i))" "k < length es \<longrightarrow> \<not> P (fst (es ! k))"
  shows "cut_pos P es = k"
  unfolding cut_pos_def using assms by (subst takeWhile_eq_take_P_nth [of k]) auto

lemma block_cursor:
  assumes "key_order valid cmp"
  shows "cursor valid cmp (block_ops cmp) (block_at valid cmp)"
proof (intro cursor.intro cursor_axioms.intro assms)
  fix it es j
  assume b: "block_at valid cmp it es j"
  then obtain data limit offs ns where l: "block_layout data limit es offs ns" "iter_at data limit es offs ns j it"
    and s: "sorted_entries valid cmp es" "j \<le> length es" by (auto simp: block_at_def)
  note laws = block_layout.Next_law [OF l(1)] block_layout.Prev_law [OF l(1)] block_layout.Seek_law [OF l(1) assms]
    block_layout.SeekToFirst_law [OF l(1)] block_layout.SeekToLast_law [OF l(1)]
  have it: "iter_of data limit (length ns) it" using l(2) by (simp add: iter_at_def)
  have at: "block_at valid cmp it' es j'" if "iter_at data limit es offs ns j' it'" "j' \<le> length es" for it' j'
    using that l(1) s(1) by (auto simp: block_at_def)
  show "sorted_entries valid cmp es" "j \<le> length es" by (rule s)+
  show "io_Valid (block_ops cmp) it = (j < length es)" using block_layout.standing_Valid [OF l s(2)] by (simp add: block_ops_def)
  show "io_status (block_ops cmp) it = Status_OK" using it by (simp add: block_ops_def iter_of_def)
  show "\<exists>i'. io_SeekToFirst (block_ops cmp) it = Some i' \<and> block_at valid cmp i' es 0"
    using laws(4) [OF it] at by (auto simp: block_ops_def)
  show "\<exists>i'. io_SeekToLast (block_ops cmp) it = Some i' \<and> block_at valid cmp i' es (step_back (length es) (length es))"
    using laws(5) [OF it] at by (fastforce simp: block_ops_def step_back_def)
  show "\<exists>i'. io_Seek (block_ops cmp) k it = Some i' \<and> block_at valid cmp i' es (cut_pos (\<lambda>a. cmp a k < 0) es)" if "valid k" for k
    using laws(3) [OF it that] s(1) at cut_posI [of _ es "\<lambda>a. cmp a k < 0"]
    by (fastforce simp: block_ops_def sorted_entries_def not_less)
  assume j: "j < length es"
  show "io_key (block_ops cmp) it = fst (es ! j)" "io_value (block_ops cmp) it = snd (es ! j)"
    using l(2) j by (simp_all add: block_ops_def iter_at_def)
  show "\<exists>i'. io_Next (block_ops cmp) it = Some i' \<and> block_at valid cmp i' es (Suc j)"
    using laws(1) [OF l(2) j] at j by (auto simp: block_ops_def)
  show "\<exists>i'. io_Prev (block_ops cmp) it = Some i' \<and> block_at valid cmp i' es (step_back (length es) j)"
    using laws(2) [OF l(2) j] at j by (fastforce simp: block_ops_def step_back_def)
qed

subsection \<open>Memtables\<close>

definition memiter_ops :: "(slice \<Rightarrow> slice \<Rightarrow> int) \<Rightarrow> MemTable \<Rightarrow> sl_iter iter_ops" where
  "memiter_ops cmp m =
     \<lparr> io_Valid = MemIter_Valid, io_key = (\<lambda>it. the (MemIter_key m it)), io_value = (\<lambda>it. the (MemIter_value m it)),
       io_status = (\<lambda>_. Status_OK), io_Next = MemIter_Next m, io_Prev = MemIter_Prev cmp m, io_Seek = (\<lambda>k _. MemIter_Seek cmp m k),
       io_SeekToFirst = (\<lambda>_. MemIter_SeekToFirst m), io_SeekToLast = (\<lambda>_. MemIter_SeekToLast m) \<rparr>"

fun add_pair :: "mem_add \<Rightarrow> slice \<times> slice" where
  "add_pair (s, t, k, v) = (InternalKey k s t, v)"

text \<open>The iterator stands at position \<open>j\<close> of the additions \<open>zs\<close> in the order of their internal keys.\<close>

definition mem_at :: "(slice \<Rightarrow> slice \<Rightarrow> int) \<Rightarrow> MemTable \<Rightarrow> sl_iter \<Rightarrow> entries \<Rightarrow> nat \<Rightarrow> bool" where
  "mem_at cmp m it es j \<longleftrightarrow> (\<exists>zs. es = map add_pair zs \<and> (\<forall>a\<in>set zs. add_ok a) \<and>
     sl_rep valid_entry (MemTable_KeyComparator cmp) (mt_table m) (map add_entry zs) \<and> sl_at (mt_table m) (map add_entry zs) it j)"

lemma fst_add_pair: "fst (add_pair a) = add_ikey a" by (cases a) simp

lemma MemIter_entry:
  assumes "add_ok a" "Iter_key (mt_table m) it = add_entry a"
  shows "MemIter_key m it = Some (fst (add_pair a))" "MemIter_value m it = Some (snd (add_pair a))"
proof -
  obtain s t k v where A: "a = (s, t, k, v)" by (cases a)
  note e = entry_slice_entry [OF assms(1) [unfolded A]]
  have i: "Iter_key (mt_table m) it = memtable_entry s t k v" using assms(2) A by simp
  show "MemIter_key m it = Some (fst (add_pair a))" "MemIter_value m it = Some (snd (add_pair a))"
    unfolding MemIter_key_def MemIter_value_def i e(1) A by (simp_all add: e(2))
qed

text \<open>The internal keys that have a length of 32 bits.\<close>

definition valid_mkey :: "slice \<Rightarrow> bool" where
  "valid_mkey k \<longleftrightarrow> valid_ikey k \<and> length k < 2 ^ 32"

lemma key_order_restrict: "key_order valid cmp \<Longrightarrow> (\<And>k. valid' k \<Longrightarrow> valid k) \<Longrightarrow> key_order valid' cmp"
  by unfold_locales (auto intro: key_order.cmp_refl key_order.cmp_trans simp: key_order.cmp_flip)

lemma add_entry_inj:
  assumes "add_ok a" "add_ok b" "add_entry a = add_entry b"
  shows "a = b"
proof -
  obtain s t k v where A: "a = (s, t, k, v)" by (cases a)
  obtain s' t' k' v' where B: "b = (s', t', k', v')" by (cases b)
  note e = entry_slice_entry [OF assms(1) [unfolded A]] entry_slice_entry [OF assms(2) [unfolded B]]
  have eq: "memtable_entry s t k v = memtable_entry s' t' k' v'" using assms(3) A B by simp
  then have ik: "InternalKey k s t = InternalKey k' s' t'" and v: "v = v'" using e by simp_all
  have "unat s < 2 ^ 56" "unat s' < 2 ^ 56" using assms(1,2) A B by (simp_all add: kMaxSequenceNumber_unat)
  moreover have "PackSequenceAndType s t = PackSequenceAndType s' t'" "k = k'"
    using arg_cong [OF ik, of internal_tag] arg_cong [OF ik, of ExtractUserKey] by simp_all
  ultimately have "s = s'" "ValueType_code t = ValueType_code t'" using drop_Pack ucast_Pack by metis+
  then show ?thesis using A B v \<open>k = k'\<close> by (cases t; cases t') simp_all
qed

context user_comparator
begin

lemma mem_compare: "add_ok a \<Longrightarrow> add_ok b \<Longrightarrow>
    MemTable_KeyComparator cmp (add_entry a) (add_entry b) = InternalKey_Compare cmp (fst (add_pair a)) (fst (add_pair b))"
  by (simp only: MemTable_KeyComparator_def entry_key_entry fst_add_pair)

lemma mem_at_sorted: "mem_at cmp m it es j \<Longrightarrow> sorted_entries valid_mkey (InternalKey_Compare cmp) es"
proof -
  assume "mem_at cmp m it es j"
  then obtain zs where z: "es = map add_pair zs" "\<forall>a\<in>set zs. add_ok a"
      "sl_rep valid_entry (MemTable_KeyComparator cmp) (mt_table m) (map add_entry zs)" by (auto simp: mem_at_def)
  have "valid_mkey (fst (add_pair a))" if "add_ok a" for a using that by (cases a) (simp add: valid_mkey_def valid_ikey_def)
  then show ?thesis
    using mem.sl_rep_sorted [OF z(3)] z(1,2) mem_compare by (auto simp: sorted_entries_def sorted_wrt_map sorted_wrt_iff_nth_less)
qed

lemma mem_cut:
  assumes "\<forall>a\<in>set zs. add_ok a" "drop j (map add_entry zs) = dropWhile (\<lambda>e. MemTable_KeyComparator cmp e (EncodeKey k) < 0) (map add_entry zs)"
    "length k < 2 ^ 32" "j \<le> length zs"
  shows "j = cut_pos (\<lambda>a. InternalKey_Compare cmp a k < 0) (map add_pair zs)"
proof -
  have "MemTable_KeyComparator cmp (add_entry a) (EncodeKey k) = InternalKey_Compare cmp (fst (add_pair a)) k" if "a \<in> set zs" for a
    using assms(1,3) that by (simp only: MemTable_KeyComparator_def entry_key_entry fst_add_pair entry_key_EncodeKey)
  then have "length (dropWhile (\<lambda>e. MemTable_KeyComparator cmp e (EncodeKey k) < 0) (map add_entry zs)) =
      length (dropWhile (\<lambda>a. InternalKey_Compare cmp (fst (add_pair a)) k < 0) zs)"
    by (simp add: dropWhile_map comp_def cong: dropWhile_cong)
  moreover have "length zs = length (takeWhile (\<lambda>a. InternalKey_Compare cmp (fst (add_pair a)) k < 0) zs) +
      length (dropWhile (\<lambda>a. InternalKey_Compare cmp (fst (add_pair a)) k < 0) zs)"
    by (metis length_append takeWhile_dropWhile_id)
  ultimately show ?thesis using arg_cong [OF assms(2), of length] assms(4) by (simp add: cut_pos_def takeWhile_map comp_def)
qed

lemma mem_cursor: "cursor valid_mkey (InternalKey_Compare cmp) (memiter_ops cmp m) (mem_at cmp m)"
proof (intro cursor.intro cursor_axioms.intro)
  show "key_order valid_mkey (InternalKey_Compare cmp)"
    by (rule key_order_restrict [OF ikey_key_order]) (simp add: valid_mkey_def)
  fix it es j
  assume b: "mem_at cmp m it es j"
  then obtain zs where z: "es = map add_pair zs" "\<forall>a\<in>set zs. add_ok a" and r: "sl_rep valid_entry (MemTable_KeyComparator cmp) (mt_table m) (map add_entry zs)"
      and a: "sl_at (mt_table m) (map add_entry zs) it j" by (auto simp: mem_at_def)
  have at: "mem_at cmp m it' es j'" if "sl_at (mt_table m) (map add_entry zs) it' j'" for it' j' using that z r by (auto simp: mem_at_def)
  show "sorted_entries valid_mkey (InternalKey_Compare cmp) es" using mem_at_sorted [OF b] .
  show "j \<le> length es" "io_Valid (memiter_ops cmp m) it = (j < length es)"
    using mem.skip.at_valid [OF a] z(1) by (simp_all add: memiter_ops_def MemIter_Valid_def)
  show "io_status (memiter_ops cmp m) it = Status_OK" by (simp add: memiter_ops_def)
  show "\<exists>i'. io_SeekToFirst (memiter_ops cmp m) it = Some i' \<and> mem_at cmp m i' es 0"
    using mem.skip.first_law [OF r] at by (auto simp: memiter_ops_def MemIter_SeekToFirst_def)
  show "\<exists>i'. io_SeekToLast (memiter_ops cmp m) it = Some i' \<and> mem_at cmp m i' es (step_back (length es) (length es))"
    using mem.skip.last_law [OF r] at z(1) by (cases zs) (auto simp: memiter_ops_def MemIter_SeekToLast_def step_back_def)
  show "\<exists>i'. io_Seek (memiter_ops cmp m) k it = Some i' \<and> mem_at cmp m i' es (cut_pos (\<lambda>a. InternalKey_Compare cmp a k < 0) es)" if k: "valid_mkey k" for k
  proof -
    have "valid_entry (EncodeKey k)" using k by (simp add: valid_entry_def valid_mkey_def entry_key_EncodeKey)
    then obtain it' j' where s: "Iter_Seek (MemTable_KeyComparator cmp) (mt_table m) (EncodeKey k) = Some it'" "sl_at (mt_table m) (map add_entry zs) it' j'"
        "drop j' (map add_entry zs) = dropWhile (\<lambda>e. MemTable_KeyComparator cmp e (EncodeKey k) < 0) (map add_entry zs)"
      using mem.skip.seek_law [OF r] by blast
    have "j' = cut_pos (\<lambda>a. InternalKey_Compare cmp a k < 0) es"
      using mem_cut [OF z(2) s(3)] k mem.skip.at_valid [OF s(2)] z(1) by (simp add: valid_mkey_def)
    then show ?thesis using at [OF s(2)] s(1) by (simp add: memiter_ops_def MemIter_Seek_def)
  qed
  assume j: "j < length es"
  have "Iter_key (mt_table m) it = add_entry (zs ! j)" using mem.skip.at_key [OF a] j z(1) by simp
  from MemIter_entry [OF _ this] show "io_key (memiter_ops cmp m) it = fst (es ! j)" "io_value (memiter_ops cmp m) it = snd (es ! j)"
    using z j by (simp_all add: memiter_ops_def)
  show "\<exists>i'. io_Next (memiter_ops cmp m) it = Some i' \<and> mem_at cmp m i' es (Suc j)"
    using mem.skip.next_law [OF r a] at j z(1) by (auto simp: memiter_ops_def MemIter_Next_def)
  show "\<exists>i'. io_Prev (memiter_ops cmp m) it = Some i' \<and> mem_at cmp m i' es (step_back (length es) j)"
    using mem.skip.prev_law [OF r a] at j z(1) by (auto simp: memiter_ops_def MemIter_Prev_def step_back_def)
qed

text \<open>A new iterator over a memtable that holds some additions, and the list it goes through.\<close>

lemma mem_iterator:
  assumes "mem_holds cmp m ks as"
  shows "\<exists>zs. set zs = set as \<and> mem_at cmp m Iter_new (map add_pair zs) (length zs)"
proof -
  have "\<forall>k\<in>set ks. \<exists>a\<in>set as. k = add_entry a" using assms by (auto simp: mem_holds_def)
  then obtain f where f: "\<forall>k\<in>set ks. f k \<in> set as \<and> k = add_entry (f k)" by metis
  have ks: "map add_entry (map f ks) = ks" using f by (simp add: map_idI)
  have ok: "\<forall>a\<in>set as. add_ok a" "add_entry ` set as = set ks" using assms by (auto simp: mem_holds_def)
  have "a \<in> f ` set ks" if "a \<in> set as" for a
  proof -
    have k: "add_entry a \<in> set ks" using ok(2) that by blast
    then have "a = f (add_entry a)" using add_entry_inj [of a "f (add_entry a)"] f ok(1) that by auto
    then show ?thesis using k by blast
  qed
  then have "set (map f ks) = set as" using f by auto
  moreover have "sl_at (mt_table m) ks Iter_new (length ks)"
  proof -
    obtain Ls where "sl_levels valid_entry (MemTable_KeyComparator cmp) (mt_table m) Ls" "ks = map (node_key (mt_table m)) (Ls 0)"
      using assms by (auto simp: mem_holds_def sl_rep_def)
    then show ?thesis using mem.sl_atI [of "mt_table m" Ls "length (Ls 0)" None] by (simp add: Iter_new_def)
  qed
  moreover have "sl_rep valid_entry (MemTable_KeyComparator cmp) (mt_table m) ks" using assms by (simp add: mem_holds_def)
  ultimately have "mem_at cmp m Iter_new (map add_pair (map f ks)) (length (map f ks))"
    unfolding mem_at_def using ok(1) ks by (intro exI [of _ "map f ks"]) (metis length_map)
  then show ?thesis using \<open>set (map f ks) = set as\<close> by blast
qed

end

interpretation block_bytes: cursor "\<lambda>_. True" Bytewise_Compare "block_ops Bytewise_Compare" "block_at (\<lambda>_. True) Bytewise_Compare"
  by (rule block_cursor [OF bytewise.key_order_axioms])

interpretation mem_bytes: cursor valid_mkey "InternalKey_Compare Bytewise_Compare" "memiter_ops Bytewise_Compare m" "mem_at Bytewise_Compare m" for m
  by (rule ubytewise.mem_cursor)

lemma built_block_at:
  assumes "1 \<le> interval" "length (built_block interval kvs) < 2 ^ 32" "key_order valid cmp" "sorted_entries valid cmp kvs"
  shows "\<exists>it. Block_NewIterator (built_block interval kvs) = Inr it \<and> block_at valid cmp it kvs (length kvs)"
proof -
  have fb: "finished_block interval kvs" using assms(1,2) by unfold_locales
  obtain it where it: "Block_NewIterator (built_block interval kvs) = Inr it"
      "iter_of (built_block interval kvs) (built_offset interval kvs (length kvs)) (length (built_restarts interval kvs)) it"
    using finished_block.NewIterator_law [OF fb] by blast
  have "bi_current it = bi_restarts it"
    using it(1) by (auto simp: Block_NewIterator_def BlockIter_new_def Let_def split: if_splits prod.splits)
  then have "iter_at (built_block interval kvs) (built_offset interval kvs (length kvs)) kvs offs (built_restarts interval kvs) (length kvs) it" for offs
    using it(2) by (simp add: iter_at_def iter_of_def)
  then show ?thesis using it(1) finished_block.layout [OF fb] assms(4) unfolding block_at_def by blast
qed

subsection \<open>Properties\<close>



end
