(* ===== verification/DbIter.thy ===== *)
theory DbIter
  imports IterCursors
begin

text \<open>
  The iterator a client gets, \<open>db/db_iter.cc\<close>: it walks an iterator over internal keys (any one that keeps the iterator
  contract: in the database, a merging iterator over memtables and tables) and shows, at a sequence number, the
  newest visible value of each user key. The keys it hands to \<open>DBImpl::RecordReadSample\<close> are collected in
  \<open>di_samples\<close>.
\<close>

subsection \<open>Operations\<close>

definition kReadBytesPeriod :: nat where "kReadBytesPeriod = 1048576"

record 'i DBIter =
  di_iter :: 'i
  di_sequence :: uint64
  di_status :: status
  di_saved_key :: slice
  di_saved_value :: slice
  di_direction :: Direction
  di_valid :: bool
  di_rnd :: uint32
  di_bytes_counter :: int
  di_samples :: "slice list"

definition RandomPeriod :: "uint32 \<Rightarrow> uint32 \<times> int" where
  "RandomPeriod rnd = (case Random_Uniform rnd (word_of_nat (2 * kReadBytesPeriod)) of (rnd, n) \<Rightarrow> (rnd, uint n))"

definition NewDBIterator :: "'i \<Rightarrow> uint64 \<Rightarrow> uint32 \<Rightarrow> 'i DBIter" where
  "NewDBIterator internal_iter s seed =
     (case RandomPeriod (Random_new seed) of (rnd, n) \<Rightarrow>
        \<lparr> di_iter = internal_iter, di_sequence = s, di_status = Status_OK, di_saved_key = [], di_saved_value = [],
          di_direction = kForward, di_valid = False, di_rnd = rnd, di_bytes_counter = n, di_samples = [] \<rparr>)"

definition DBIter_key :: "'i iter_ops \<Rightarrow> 'i DBIter \<Rightarrow> slice" where
  "DBIter_key ops d = (if di_direction d = kForward then ExtractUserKey (io_key ops (di_iter d)) else di_saved_key d)"

definition DBIter_value :: "'i iter_ops \<Rightarrow> 'i DBIter \<Rightarrow> slice" where
  "DBIter_value ops d = (if di_direction d = kForward then io_value ops (di_iter d) else di_saved_value d)"

definition DBIter_status :: "'i iter_ops \<Rightarrow> 'i DBIter \<Rightarrow> status" where
  "DBIter_status ops d = (if Status_ok (di_status d) then io_status ops (di_iter d) else di_status d)"

text \<open>The sampling loop of \<open>ParseKey\<close>.\<close>

partial_function (option) sample_loop :: "slice \<Rightarrow> uint32 \<Rightarrow> int \<Rightarrow> slice list \<Rightarrow> (uint32 \<times> int \<times> slice list) option" where
  "sample_loop k rnd bytes_counter samples =
     (if bytes_counter < 0
      then (case RandomPeriod rnd of (rnd, n) \<Rightarrow> sample_loop k rnd (bytes_counter + n) (samples @ [k]))
      else Some (rnd, bytes_counter, samples))"

definition ParseKey :: "'i iter_ops \<Rightarrow> 'i DBIter \<Rightarrow> ('i DBIter \<times> ParsedInternalKey option) option" where
  "ParseKey ops d =
     (let k = io_key ops (di_iter d);
          n = length k + length (io_value ops (di_iter d))
      in case sample_loop k (di_rnd d) (di_bytes_counter d - int n) (di_samples d) of
           None \<Rightarrow> None
         | Some (rnd, bytes_counter, samples) \<Rightarrow>
             let d = d \<lparr> di_rnd := rnd, di_bytes_counter := bytes_counter, di_samples := samples \<rparr>
             in (case ParseInternalKey k of
                   None \<Rightarrow> Some (d \<lparr> di_status := Status_Corruption (str ''corrupted internal key in DBIter'') [] \<rparr>, None)
                 | Some ikey \<Rightarrow> Some (d, Some ikey)))"

definition iter_move :: "('i \<Rightarrow> 'i option) \<Rightarrow> 'i DBIter \<Rightarrow> 'i DBIter option" where
  "iter_move f d = map_option (\<lambda>i. d \<lparr> di_iter := i \<rparr>) (f (di_iter d))"

text \<open>\<open>skip\<close> is \<open>saved_key_\<close> in every call.\<close>

partial_function (option) FindNextUserEntry :: "'i iter_ops \<Rightarrow> (slice \<Rightarrow> slice \<Rightarrow> int) \<Rightarrow> bool \<Rightarrow> 'i DBIter \<Rightarrow> 'i DBIter option" where
  "FindNextUserEntry ops cmp skipping d =
     (case ParseKey ops d of
        None \<Rightarrow> None
      | Some (d, ikey) \<Rightarrow>
          let visible = (case ikey of None \<Rightarrow> False | Some ik \<Rightarrow> sequence ik \<le> di_sequence d);
              ik = the ikey;
              deletion = (visible \<and> value_type ik = kTypeDeletion);
              d1 = (if deletion then d \<lparr> di_saved_key := user_key ik \<rparr> else d);
              skipping1 = (skipping \<or> deletion)
          in if visible \<and> value_type ik = kTypeValue \<and> \<not> (skipping \<and> cmp (user_key ik) (di_saved_key d) \<le> 0)
             then Some (d \<lparr> di_valid := True, di_saved_key := [] \<rparr>)
             else case iter_move (io_Next ops) d1 of
                    None \<Rightarrow> None
                  | Some d2 \<Rightarrow>
                      if io_Valid ops (di_iter d2) then FindNextUserEntry ops cmp skipping1 d2
                      else Some (d2 \<lparr> di_saved_key := [], di_valid := False \<rparr>))"

definition DBIter_Next :: "'i iter_ops \<Rightarrow> (slice \<Rightarrow> slice \<Rightarrow> int) \<Rightarrow> 'i DBIter \<Rightarrow> 'i DBIter option" where
  "DBIter_Next ops cmp d =
     (if di_direction d = kReverse then
        (case iter_move (if \<not> io_Valid ops (di_iter d) then io_SeekToFirst ops else io_Next ops) (d \<lparr> di_direction := kForward \<rparr>) of
           None \<Rightarrow> None
         | Some d \<Rightarrow>
             if \<not> io_Valid ops (di_iter d) then Some (d \<lparr> di_valid := False, di_saved_key := [] \<rparr>)
             else FindNextUserEntry ops cmp True d)
      else FindNextUserEntry ops cmp True (d \<lparr> di_saved_key := ExtractUserKey (io_key ops (di_iter d)) \<rparr>))"

text \<open>The loop of \<open>FindPrevUserEntry\<close> from a valid position; the result has the last value type.\<close>

partial_function (option) FindPrev_loop :: "'i iter_ops \<Rightarrow> (slice \<Rightarrow> slice \<Rightarrow> int) \<Rightarrow> ValueType \<Rightarrow> 'i DBIter \<Rightarrow> ('i DBIter \<times> ValueType) option" where
  "FindPrev_loop ops cmp vt d =
     (case ParseKey ops d of
        None \<Rightarrow> None
      | Some (d, ikey) \<Rightarrow>
          let visible = (case ikey of None \<Rightarrow> False | Some ik \<Rightarrow> sequence ik \<le> di_sequence d);
              ik = the ikey
          in if visible \<and> vt \<noteq> kTypeDeletion \<and> cmp (user_key ik) (di_saved_key d) < 0 then Some (d, vt)
             else let vt1 = (if visible then value_type ik else vt);
                      d1 = (if visible then
                              if vt1 = kTypeDeletion then d \<lparr> di_saved_key := [], di_saved_value := [] \<rparr>
                              else d \<lparr> di_saved_key := ExtractUserKey (io_key ops (di_iter d)), di_saved_value := io_value ops (di_iter d) \<rparr>
                            else d)
                  in case iter_move (io_Prev ops) d1 of
                       None \<Rightarrow> None
                     | Some d2 \<Rightarrow> if io_Valid ops (di_iter d2) then FindPrev_loop ops cmp vt1 d2 else Some (d2, vt1))"

definition FindPrevUserEntry :: "'i iter_ops \<Rightarrow> (slice \<Rightarrow> slice \<Rightarrow> int) \<Rightarrow> 'i DBIter \<Rightarrow> 'i DBIter option" where
  "FindPrevUserEntry ops cmp d =
     (case (if io_Valid ops (di_iter d) then FindPrev_loop ops cmp kTypeDeletion d else Some (d, kTypeDeletion)) of
        None \<Rightarrow> None
      | Some (d, vt) \<Rightarrow>
          if vt = kTypeDeletion
          then Some (d \<lparr> di_valid := False, di_saved_key := [], di_saved_value := [], di_direction := kForward \<rparr>)
          else Some (d \<lparr> di_valid := True \<rparr>))"

text \<open>The loop of \<open>Prev\<close> that leaves the entries of the current key; the flag tells whether it ran out of entries.\<close>

partial_function (option) leave_key :: "'i iter_ops \<Rightarrow> (slice \<Rightarrow> slice \<Rightarrow> int) \<Rightarrow> 'i DBIter \<Rightarrow> ('i DBIter \<times> bool) option" where
  "leave_key ops cmp d =
     (case iter_move (io_Prev ops) d of
        None \<Rightarrow> None
      | Some d \<Rightarrow>
          if \<not> io_Valid ops (di_iter d) then Some (d \<lparr> di_valid := False, di_saved_key := [], di_saved_value := [] \<rparr>, True)
          else if cmp (ExtractUserKey (io_key ops (di_iter d))) (di_saved_key d) < 0 then Some (d, False)
          else leave_key ops cmp d)"

definition DBIter_Prev :: "'i iter_ops \<Rightarrow> (slice \<Rightarrow> slice \<Rightarrow> int) \<Rightarrow> 'i DBIter \<Rightarrow> 'i DBIter option" where
  "DBIter_Prev ops cmp d =
     (if di_direction d = kForward then
        (case leave_key ops cmp (d \<lparr> di_saved_key := ExtractUserKey (io_key ops (di_iter d)) \<rparr>) of
           None \<Rightarrow> None
         | Some (d, ended) \<Rightarrow> if ended then Some d else FindPrevUserEntry ops cmp (d \<lparr> di_direction := kReverse \<rparr>))
      else FindPrevUserEntry ops cmp d)"

definition DBIter_Seek :: "'i iter_ops \<Rightarrow> (slice \<Rightarrow> slice \<Rightarrow> int) \<Rightarrow> slice \<Rightarrow> 'i DBIter \<Rightarrow> 'i DBIter option" where
  "DBIter_Seek ops cmp target d =
     (let d = d \<lparr> di_direction := kForward, di_saved_value := [],
                  di_saved_key := AppendInternalKey [] \<lparr> user_key = target, sequence = di_sequence d, value_type = kValueTypeForSeek \<rparr> \<rparr>
      in case iter_move (io_Seek ops (di_saved_key d)) d of
           None \<Rightarrow> None
         | Some d \<Rightarrow> if io_Valid ops (di_iter d) then FindNextUserEntry ops cmp False d else Some (d \<lparr> di_valid := False \<rparr>))"

definition DBIter_SeekToFirst :: "'i iter_ops \<Rightarrow> (slice \<Rightarrow> slice \<Rightarrow> int) \<Rightarrow> 'i DBIter \<Rightarrow> 'i DBIter option" where
  "DBIter_SeekToFirst ops cmp d =
     (case iter_move (io_SeekToFirst ops) (d \<lparr> di_direction := kForward, di_saved_value := [] \<rparr>) of
        None \<Rightarrow> None
      | Some d \<Rightarrow> if io_Valid ops (di_iter d) then FindNextUserEntry ops cmp False d else Some (d \<lparr> di_valid := False \<rparr>))"

definition DBIter_SeekToLast :: "'i iter_ops \<Rightarrow> (slice \<Rightarrow> slice \<Rightarrow> int) \<Rightarrow> 'i DBIter \<Rightarrow> 'i DBIter option" where
  "DBIter_SeekToLast ops cmp d =
     Option.bind (iter_move (io_SeekToLast ops) (d \<lparr> di_direction := kReverse, di_saved_value := [] \<rparr>)) (FindPrevUserEntry ops cmp)"

definition db_iter_ops :: "'i iter_ops \<Rightarrow> (slice \<Rightarrow> slice \<Rightarrow> int) \<Rightarrow> 'i DBIter iter_ops" where
  "db_iter_ops ops cmp =
     \<lparr> io_Valid = di_valid, io_key = DBIter_key ops, io_value = DBIter_value ops, io_status = DBIter_status ops,
       io_Next = DBIter_Next ops cmp, io_Prev = DBIter_Prev ops cmp, io_Seek = DBIter_Seek ops cmp,
       io_SeekToFirst = DBIter_SeekToFirst ops cmp, io_SeekToLast = DBIter_SeekToLast ops cmp \<rparr>"

subsection \<open>The sampling loop ends\<close>

abbreviation seed_ok :: "uint32 \<Rightarrow> bool" where
  "seed_ok rnd \<equiv> 1 \<le> unat rnd \<and> unat rnd < 2147483647"

text \<open>After a multiple of \<open>2 ^ 21\<close>, which adds nothing to the counter, the generator never gives another one.\<close>

lemma Random_Next_not_twice:
  assumes "seed_ok rnd" "2097152 dvd unat rnd"
  shows "\<not> 2097152 dvd unat (Random_Next rnd)"
proof -
  obtain m where m: "unat rnd = 2097152 * m" using assms(2) by blast
  then have m1: "1 \<le> m" "m \<le> 1023" using assms(1) by auto
  define q r where "q = m * 16807 div 1024" and "r = m * 16807 mod 1024"
  have e: "unat rnd * 16807 = q * 2147483647 + (q + 2097152 * r)"
  proof -
    have "m * 16807 = q * 1024 + r" unfolding q_def r_def by simp
    then show ?thesis using m by simp
  qed
  have r: "r \<le> 1023" unfolding r_def using mod_less_divisor [of 1024 "m * 16807"] by linarith
  have q: "16 \<le> q" "q \<le> 16807"
    unfolding q_def using m1 div_le_mono [of "16807" "m * 16807" 1024] div_le_mono [of "m * 16807" "16807 * 1024" 1024] by auto
  have "unat (Random_Next rnd) = (q + 2097152 * r) mod 2147483647" using Random_Next_mod assms(1) e by (metis mod_mult_self3)
  also have "\<dots> = q + 2097152 * r" using q r by (intro mod_less) linarith
  finally have "unat (Random_Next rnd) mod 2097152 = q" using q by simp
  then show ?thesis using q(1) by (auto simp: dvd_eq_mod_eq_0)
qed

lemma RandomPeriod_eq: "RandomPeriod rnd = (Random_Next rnd, int (unat (Random_Next rnd) mod 2097152))"
proof -
  have "uint (r mod 2097152 :: uint32) = int (unat r mod 2097152)" for r :: uint32
    using unat_mod [of r 2097152] unfolding uint_nat by simp
  then show ?thesis by (simp add: RandomPeriod_def Random_Uniform_def kReadBytesPeriod_def Let_def)
qed

lemma sample_loop_ends:
  assumes "seed_ok rnd"
  shows "\<exists>rnd' c' m. sample_loop k rnd c samples = Some (rnd', c', samples @ replicate m k) \<and> seed_ok rnd' \<and> 0 \<le> c' \<and>
    m \<le> (if c < 0 then 2 * nat (- c) + (if 2097152 dvd unat rnd then 0 else 1) else 0)"
  using assms
proof (induction "2 * nat (- c) + (if 2097152 dvd unat rnd then 0 else 1)" arbitrary: rnd c samples rule: less_induct)
  case less
  show ?case
  proof (cases "c < 0")
    case False
    then show ?thesis using less.prems by (subst sample_loop.simps) (auto intro: exI [of _ 0])
  next
    case True
    let ?r = "Random_Next rnd"
    let ?n = "unat ?r mod 2097152"
    have ok: "seed_ok ?r" using Random_Next_mod less.prems by blast
    have nz: "1 \<le> ?n" if "2097152 dvd unat rnd" using Random_Next_not_twice [OF less.prems that] by (simp add: dvd_eq_mod_eq_0)
    have z: "2097152 dvd unat ?r \<longleftrightarrow> ?n = 0" by (simp add: dvd_eq_mod_eq_0)
    have dec: "2 * nat (- (c + int ?n)) + (if 2097152 dvd unat ?r then 0 else 1) < 2 * nat (- c) + (if 2097152 dvd unat rnd then 0 else 1)"
      unfolding z using nz True by auto
    obtain rnd' c' m where s: "sample_loop k ?r (c + int ?n) (samples @ [k]) = Some (rnd', c', (samples @ [k]) @ replicate m k)"
        "seed_ok rnd'" "0 \<le> c'"
        "m \<le> (if c + int ?n < 0 then 2 * nat (- (c + int ?n)) + (if 2097152 dvd unat ?r then 0 else 1) else 0)"
      using less.hyps [OF dec ok] by blast
    have "Suc m \<le> 2 * nat (- c) + (if 2097152 dvd unat rnd then 0 else 1)" using s(4) dec True by (auto split: if_splits)
    moreover have "sample_loop k rnd c samples = Some (rnd', c', samples @ replicate (Suc m) k)"
      using s(1) True by (subst sample_loop.simps) (simp add: RandomPeriod_eq)
    ultimately show ?thesis using s(2,3) True by (intro exI [of _ rnd'] exI [of _ c'] exI [of _ "Suc m"]) simp
  qed
qed

subsection \<open>What the iterator shows\<close>

definition entry_visible :: "uint64 \<Rightarrow> slice \<times> slice \<Rightarrow> bool" where
  "entry_visible s e \<longleftrightarrow> (case ParseInternalKey (fst e) of None \<Rightarrow> False | Some ik \<Rightarrow> sequence ik \<le> s)"

definition entry_is_value :: "slice \<times> slice \<Rightarrow> bool" where
  "entry_is_value e \<longleftrightarrow> (case ParseInternalKey (fst e) of None \<Rightarrow> False | Some ik \<Rightarrow> value_type ik = kTypeValue)"

definition entry_user_key :: "slice \<times> slice \<Rightarrow> slice" where
  "entry_user_key e = ExtractUserKey (fst e)"

text \<open>Entry \<open>i\<close> is the newest visible one of its user key, and a value.\<close>

definition shown :: "(slice \<Rightarrow> slice \<Rightarrow> int) \<Rightarrow> uint64 \<Rightarrow> entries \<Rightarrow> nat \<Rightarrow> bool" where
  "shown cmp s es i \<longleftrightarrow> entry_visible s (es ! i) \<and> entry_is_value (es ! i) \<and>
     (\<forall>j<i. entry_visible s (es ! j) \<longrightarrow> cmp (entry_user_key (es ! j)) (entry_user_key (es ! i)) \<noteq> 0)"

definition db_view :: "(slice \<Rightarrow> slice \<Rightarrow> int) \<Rightarrow> uint64 \<Rightarrow> entries \<Rightarrow> entries" where
  "db_view cmp s es = map (\<lambda>i. (entry_user_key (es ! i), snd (es ! i))) (filter (shown cmp s es) [0..<length es])"

definition view_pos :: "(slice \<Rightarrow> slice \<Rightarrow> int) \<Rightarrow> uint64 \<Rightarrow> entries \<Rightarrow> nat \<Rightarrow> nat" where
  "view_pos cmp s es i = length (filter (shown cmp s es) [0..<i])"

lemma view_pos_Suc: "view_pos cmp s es (Suc i) = (if shown cmp s es i then Suc (view_pos cmp s es i) else view_pos cmp s es i)"
  by (simp add: view_pos_def)

lemma view_pos_skip:
  assumes "p \<le> i" "\<forall>j. p \<le> j \<and> j < i \<longrightarrow> \<not> shown cmp s es j"
  shows "view_pos cmp s es i = view_pos cmp s es p"
  using assms by (induction i rule: dec_induct) (auto simp: view_pos_Suc)

lemma view_pos_length: "view_pos cmp s es (length es) = length (db_view cmp s es)"
  by (simp add: view_pos_def db_view_def)

lemma view_split: "p \<le> length es \<Longrightarrow> filter (shown cmp s es) [0..<length es] =
    filter (shown cmp s es) [0..<p] @ filter (shown cmp s es) [p..<length es]"
  by (metis filter_append le_add_diff_inverse upt_add_eq_append zero_le)

lemma view_pos_le: "p \<le> length es \<Longrightarrow> view_pos cmp s es p \<le> length (db_view cmp s es)"
  using view_split [of p es cmp s] by (simp add: view_pos_def db_view_def)

lemma view_nth:
  assumes "shown cmp s es i" "i < length es"
  shows "view_pos cmp s es i < length (db_view cmp s es)" "db_view cmp s es ! view_pos cmp s es i = (entry_user_key (es ! i), snd (es ! i))"
proof -
  have "[i..<length es] = i # [Suc i..<length es]" using assms(2) by (simp add: upt_rec)
  then have f: "filter (shown cmp s es) [0..<length es] = filter (shown cmp s es) [0..<i] @ i # filter (shown cmp s es) [Suc i..<length es]"
    using view_split [of i es cmp s] assms by simp
  show "view_pos cmp s es i < length (db_view cmp s es)" "db_view cmp s es ! view_pos cmp s es i = (entry_user_key (es ! i), snd (es ! i))"
    unfolding db_view_def view_pos_def f by (simp_all add: nth_append)
qed

lemma view_nth_source: "j < length (db_view cmp s es) \<Longrightarrow> \<exists>i. i < length es \<and> shown cmp s es i \<and> view_pos cmp s es i = j"
proof -
  assume j: "j < length (db_view cmp s es)"
  have "\<exists>i<n. shown cmp s es i \<and> view_pos cmp s es i = j" if "j < view_pos cmp s es n" for n
    using that
  proof (induction n)
    case (Suc n)
    then show ?case by (cases "j < view_pos cmp s es n") (auto simp: view_pos_Suc less_Suc_eq split: if_splits)
  qed (simp add: view_pos_def)
  then show ?thesis using j by (simp add: view_pos_length [symmetric])
qed

definition all_parse :: "entries \<Rightarrow> bool" where
  "all_parse es \<longleftrightarrow> (\<forall>e\<in>set es. ParseInternalKey (fst e) \<noteq> None)"

definition dbi_ok :: "uint64 \<Rightarrow> 'i DBIter \<Rightarrow> bool" where
  "dbi_ok s d \<longleftrightarrow> di_sequence d = s \<and> di_status d = Status_OK \<and> seed_ok (di_rnd d)"

lemma ParseInternalKey_user_key: "ParseInternalKey k = Some ik \<Longrightarrow> user_key ik = ExtractUserKey k"
  by (auto simp: ParseInternalKey_def ExtractUserKey_def Let_def split: if_splits)

lemma ParseInternalKey_sequence: "ParseInternalKey k = Some ik \<Longrightarrow> sequence ik = drop_bit 8 (internal_tag k)"
  by (auto simp: ParseInternalKey_def Let_def split: if_splits)

text \<open>An iterator over internal keys below a database iterator at sequence number \<open>s\<close>.\<close>

locale db_source = user_comparator cmp sep succ + inner: cursor ivalid "InternalKey_Compare cmp" ops at
  for cmp sep succ ivalid and ops :: "'i iter_ops" and at +
  fixes uvalid :: "slice \<Rightarrow> bool" and s :: uint64
  assumes seek_valid: "uvalid u \<Longrightarrow> ivalid (InternalKey u s kValueTypeForSeek)"
    and user_valid: "ivalid k \<Longrightarrow> uvalid (ExtractUserKey k)"
    and sequence_small: "unat s < 2 ^ 56"

context db_source
begin

lemma ParseKey_law:
  assumes "at (di_iter d) es p" "p < length es" "all_parse es" "dbi_ok s d"
  shows "\<exists>r b sm ik. ParseKey ops d = Some (d \<lparr> di_rnd := r, di_bytes_counter := b, di_samples := sm \<rparr>, Some ik) \<and> seed_ok r \<and>
    ParseInternalKey (fst (es ! p)) = Some ik \<and> user_key ik = entry_user_key (es ! p) \<and>
    (sequence ik \<le> s \<longleftrightarrow> entry_visible s (es ! p)) \<and> (value_type ik = kTypeValue \<longleftrightarrow> entry_is_value (es ! p))"
proof -
  have k: "io_key ops (di_iter d) = fst (es ! p)" using inner.at_key assms(1,2) by blast
  obtain ik where ik: "ParseInternalKey (fst (es ! p)) = Some ik" using assms(2,3) by (fastforce simp: all_parse_def)
  obtain r b m where "sample_loop (fst (es ! p)) (di_rnd d) (di_bytes_counter d - int (length (fst (es ! p)) + length (io_value ops (di_iter d)))) (di_samples d) =
      Some (r, b, di_samples d @ replicate m (fst (es ! p)))" "seed_ok r"
    using sample_loop_ends assms(4) unfolding dbi_ok_def by blast
  then have "ParseKey ops d = Some (d \<lparr> di_rnd := r, di_bytes_counter := b, di_samples := di_samples d @ replicate m (fst (es ! p)) \<rparr>, Some ik)"
    using ik by (simp add: ParseKey_def k Let_def)
  then show ?thesis
    using ik ParseInternalKey_user_key [OF ik] \<open>seed_ok r\<close> by (fastforce simp: entry_user_key_def entry_visible_def entry_is_value_def)
qed

lemma iter_move_Next: "at (di_iter d) es p \<Longrightarrow> p < length es \<Longrightarrow> \<exists>i. iter_move (io_Next ops) d = Some (d \<lparr> di_iter := i \<rparr>) \<and> at i es (Suc p)"
  using inner.at_next by (fastforce simp: iter_move_def)

lemma iter_move_Prev: "at (di_iter d) es p \<Longrightarrow> p < length es \<Longrightarrow>
    \<exists>i. iter_move (io_Prev ops) d = Some (d \<lparr> di_iter := i \<rparr>) \<and> at i es (step_back (length es) p)"
  using inner.at_prev by (fastforce simp: iter_move_def)

lemma user_sorted:
  assumes "sorted_entries ivalid (InternalKey_Compare cmp) es" "i \<le> j" "j < length es"
  shows "cmp (entry_user_key (es ! i)) (entry_user_key (es ! j)) \<le> 0"
  using inner.sorted_le [OF assms] by (auto simp: ikey_le_iff entry_user_key_def)

end

definition next_entry :: "(slice \<Rightarrow> slice \<Rightarrow> int) \<Rightarrow> uint64 \<Rightarrow> entries \<Rightarrow> nat \<Rightarrow> slice option \<Rightarrow> nat \<Rightarrow> bool" where
  "next_entry cmp s es p skip i \<longleftrightarrow> entry_visible s (es ! i) \<and> entry_is_value (es ! i) \<and>
     (\<forall>k. skip = Some k \<longrightarrow> 0 < cmp (entry_user_key (es ! i)) k) \<and>
     (\<forall>l. p \<le> l \<and> l < i \<and> entry_visible s (es ! l) \<longrightarrow> cmp (entry_user_key (es ! l)) (entry_user_key (es ! i)) \<noteq> 0)"

lemma next_entry_Suc: "next_entry cmp s es p skip j \<longleftrightarrow> entry_visible s (es ! j) \<and> entry_is_value (es ! j) \<and>
     (\<forall>k. skip = Some k \<longrightarrow> 0 < cmp (entry_user_key (es ! j)) k) \<and>
     (p < j \<and> entry_visible s (es ! p) \<longrightarrow> cmp (entry_user_key (es ! p)) (entry_user_key (es ! j)) \<noteq> 0) \<and>
     (\<forall>l. Suc p \<le> l \<and> l < j \<and> entry_visible s (es ! l) \<longrightarrow> cmp (entry_user_key (es ! l)) (entry_user_key (es ! j)) \<noteq> 0)"
proof -
  have "(p \<le> l \<and> l < j) \<longleftrightarrow> (l = p \<and> p < j) \<or> (Suc p \<le> l \<and> l < j)" for l by auto
  then show ?thesis unfolding next_entry_def by (metis (no_types, lifting))
qed

context db_source
begin

lemma next_entry_invisible: "\<not> entry_visible s (es ! p) \<Longrightarrow> next_entry cmp s es p skip j \<longleftrightarrow> next_entry cmp s es (Suc p) skip j"
  unfolding next_entry_Suc [of cmp s es p] unfolding next_entry_def by simp

lemma next_entry_deletion:
  assumes "entry_visible s (es ! p)" "sorted_entries ivalid (InternalKey_Compare cmp) es" "p < j" "j < length es"
    "\<forall>k. skip = Some k \<longrightarrow> cmp k (entry_user_key (es ! p)) \<le> 0"
  shows "next_entry cmp s es p skip j \<longleftrightarrow> next_entry cmp s es (Suc p) (Some (entry_user_key (es ! p))) j"
proof -
  have le: "cmp (entry_user_key (es ! p)) (entry_user_key (es ! j)) \<le> 0" using user_sorted [OF assms(2)] assms(3,4) by simp
  then have gt: "cmp (entry_user_key (es ! p)) (entry_user_key (es ! j)) \<noteq> 0 \<longleftrightarrow> 0 < cmp (entry_user_key (es ! j)) (entry_user_key (es ! p))"
    using cmp_flip [of "entry_user_key (es ! p)" "entry_user_key (es ! j)"] by auto
  have "0 < cmp (entry_user_key (es ! j)) k" if "skip = Some k" "0 < cmp (entry_user_key (es ! j)) (entry_user_key (es ! p))" for k
    using that assms(5) cmp_le_less_trans cmp_flip by blast
  then show ?thesis unfolding next_entry_Suc [of cmp s es p] unfolding next_entry_def using gt assms(1,3) by auto
qed

lemma next_entry_hidden:
  assumes "cmp (entry_user_key (es ! p)) k \<le> 0"
  shows "next_entry cmp s es p (Some k) j \<longleftrightarrow> next_entry cmp s es (Suc p) (Some k) j"
proof -
  have "cmp (entry_user_key (es ! p)) (entry_user_key (es ! j)) \<noteq> 0" if "0 < cmp (entry_user_key (es ! j)) k"
    using that assms cmp_flip cmp_le_less_trans by (metis less_irrefl)
  then show ?thesis unfolding next_entry_Suc [of cmp s es p] unfolding next_entry_def by auto
qed


text \<open>One round of the forward loop.\<close>

lemma FindNext_step:
  fixes skipping :: bool
  assumes "at (di_iter d) es p" "p < length es" "all_parse es" "dbi_ok s d"
  defines "hit \<equiv> entry_visible s (es ! p) \<and> entry_is_value (es ! p) \<and> \<not> (skipping \<and> cmp (entry_user_key (es ! p)) (di_saved_key d) \<le> 0)"
    and "del \<equiv> entry_visible s (es ! p) \<and> \<not> entry_is_value (es ! p)"
  shows "\<exists>d'. dbi_ok s d' \<and> di_direction d' = di_direction d \<and>
    (if hit then FindNextUserEntry ops cmp skipping d = Some (d' \<lparr> di_valid := True, di_saved_key := [] \<rparr>) \<and> at (di_iter d') es p
     else at (di_iter d') es (Suc p) \<and> di_saved_key d' = (if del then entry_user_key (es ! p) else di_saved_key d) \<and>
       FindNextUserEntry ops cmp skipping d =
         (if Suc p < length es then FindNextUserEntry ops cmp (skipping \<or> del) d' else Some (d' \<lparr> di_saved_key := [], di_valid := False \<rparr>)))"
proof -
  obtain r b sm ik where k: "ParseKey ops d = Some (d \<lparr> di_rnd := r, di_bytes_counter := b, di_samples := sm \<rparr>, Some ik)" "seed_ok r"
      "user_key ik = entry_user_key (es ! p)" "sequence ik \<le> s \<longleftrightarrow> entry_visible s (es ! p)" "value_type ik = kTypeValue \<longleftrightarrow> entry_is_value (es ! p)"
    using ParseKey_law [OF assms(1-4)] by blast
  have dt: "value_type ik = kTypeDeletion \<longleftrightarrow> \<not> entry_is_value (es ! p)" using k(5) by (cases "value_type ik") auto
  let ?d = "d \<lparr> di_rnd := r, di_bytes_counter := b, di_samples := sm \<rparr>"
  let ?d1 = "if del then ?d \<lparr> di_saved_key := user_key ik \<rparr> else ?d"
  have sq: "di_sequence d = s" and ok: "dbi_ok s ?d" using assms(4) k(2) by (auto simp: dbi_ok_def)
  obtain i where i: "iter_move (io_Next ops) ?d1 = Some (?d1 \<lparr> di_iter := i \<rparr>)" "at i es (Suc p)"
  proof -
    have "at (di_iter ?d1) es p" using assms(1) by simp
    then show ?thesis using iter_move_Next assms(2) that by blast
  qed
  show ?thesis
  proof (cases hit)
    case True
    then have "FindNextUserEntry ops cmp skipping d = Some (?d \<lparr> di_valid := True, di_saved_key := [] \<rparr>)"
      by (subst FindNextUserEntry.simps) (auto simp: k sq Let_def dt hit_def)
    then show ?thesis using True ok assms(1) by (intro exI [of _ ?d]) simp
  next
    case False
    let ?d2 = "?d1 \<lparr> di_iter := i \<rparr>"
    have v: "io_Valid ops i \<longleftrightarrow> Suc p < length es" using inner.at_valid [OF i(2)] .
    have "FindNextUserEntry ops cmp skipping d =
        (if Suc p < length es then FindNextUserEntry ops cmp (skipping \<or> del) ?d2 else Some (?d2 \<lparr> di_saved_key := [], di_valid := False \<rparr>))"
      using False i(1) v by (subst FindNextUserEntry.simps) (auto simp: k sq Let_def dt hit_def del_def)
    moreover have "dbi_ok s ?d2" using ok by (simp add: dbi_ok_def)
    ultimately show ?thesis using False i(2) k(3) by (intro exI [of _ ?d2]) simp
  qed
qed

lemma FindNext_law:
  assumes "at (di_iter d) es p" "p < length es" "all_parse es" "dbi_ok s d"
    "skipping \<Longrightarrow> \<forall>j. p \<le> j \<and> j < length es \<and> entry_visible s (es ! j) \<longrightarrow> cmp (di_saved_key d) (entry_user_key (es ! j)) \<le> 0"
  shows "\<exists>d' i. FindNextUserEntry ops cmp skipping d = Some d' \<and> dbi_ok s d' \<and> at (di_iter d') es i \<and> p \<le> i \<and> i \<le> length es \<and>
    di_valid d' = (i < length es) \<and> di_direction d' = di_direction d \<and>
    (i < length es \<longrightarrow> next_entry cmp s es p (if skipping then Some (di_saved_key d) else None) i) \<and>
    (\<forall>j. p \<le> j \<and> j < i \<longrightarrow> \<not> next_entry cmp s es p (if skipping then Some (di_saved_key d) else None) j)"
  using assms
proof (induction "length es - p" arbitrary: p d skipping rule: less_induct)
  case less
  let ?u = "\<lambda>j. entry_user_key (es ! j)" and ?v = "\<lambda>j. entry_visible s (es ! j)" and ?sk = "if skipping then Some (di_saved_key d) else None"
  let ?hit = "?v p \<and> entry_is_value (es ! p) \<and> \<not> (skipping \<and> cmp (?u p) (di_saved_key d) \<le> 0)"
  let ?del = "?v p \<and> \<not> entry_is_value (es ! p)"
  have so: "sorted_entries ivalid (InternalKey_Compare cmp) es" using inner.at_sorted less.prems(1) by blast
  obtain d' where d': "dbi_ok s d'" "di_direction d' = di_direction d"
      "if ?hit then FindNextUserEntry ops cmp skipping d = Some (d' \<lparr> di_valid := True, di_saved_key := [] \<rparr>) \<and> at (di_iter d') es p
       else at (di_iter d') es (Suc p) \<and> di_saved_key d' = (if ?del then ?u p else di_saved_key d) \<and>
         FindNextUserEntry ops cmp skipping d =
           (if Suc p < length es then FindNextUserEntry ops cmp (skipping \<or> ?del) d' else Some (d' \<lparr> di_saved_key := [], di_valid := False \<rparr>))"
    using FindNext_step [OF less.prems(1-4), of skipping] by blast
  show ?case
  proof (cases ?hit)
    case True
    have "next_entry cmp s es p ?sk p" using True by (auto simp: next_entry_def)
    then show ?thesis using True d' less.prems(2) by (intro exI [of _ "d' \<lparr> di_valid := True, di_saved_key := [] \<rparr>"] exI [of _ p]) (auto simp: dbi_ok_def)
  next
    case False
    let ?sk' = "if skipping \<or> ?del then Some (di_saved_key d') else None"
    have f: "at (di_iter d') es (Suc p)" "di_saved_key d' = (if ?del then ?u p else di_saved_key d)"
        "FindNextUserEntry ops cmp skipping d =
           (if Suc p < length es then FindNextUserEntry ops cmp (skipping \<or> ?del) d' else Some (d' \<lparr> di_saved_key := [], di_valid := False \<rparr>))"
      using d'(3) False by simp_all
    have not: "\<not> next_entry cmp s es p ?sk p" using False cmp_flip_le by (auto simp: next_entry_def not_less)
    have eq: "next_entry cmp s es p ?sk j \<longleftrightarrow> next_entry cmp s es (Suc p) ?sk' j" if "p < j" "j < length es" for j
    proof (cases "?v p")
      case False
      then show ?thesis using f(2) next_entry_invisible by simp
    next
      case vis: True
      show ?thesis
      proof (cases "entry_is_value (es ! p)")
        case True
        then show ?thesis using False vis f(2) next_entry_hidden [of es p "di_saved_key d"] by simp
      next
        case notval: False
        have "\<forall>k. ?sk = Some k \<longrightarrow> cmp k (?u p) \<le> 0" using less.prems(2,5) vis by (auto split: if_splits)
        then show ?thesis using vis notval f(2) next_entry_deletion [OF vis so that] by simp
      qed
    qed
    show ?thesis
    proof (cases "Suc p < length es")
      case at_end: False
      then have e: "Suc p = length es" using less.prems(2) by simp
      have "\<not> next_entry cmp s es p ?sk j" if "p \<le> j" "j < Suc p" for j using that not le_less_Suc_eq by (metis (full_types))
      moreover have "dbi_ok s (d' \<lparr> di_saved_key := [], di_valid := False \<rparr>)" using d'(1) by (simp add: dbi_ok_def)
      ultimately show ?thesis
        using f(1,3) d'(2) e by (intro exI [of _ "d' \<lparr> di_saved_key := [], di_valid := False \<rparr>"] exI [of _ "Suc p"]) simp
    next
      case True
      have pre: "\<forall>j. Suc p \<le> j \<and> j < length es \<and> ?v j \<longrightarrow> cmp (di_saved_key d') (?u j) \<le> 0" if "skipping \<or> ?del"
        using that f(2) less.prems(5) user_sorted [OF so, of p] by (auto split: if_splits)
      have lt: "length es - Suc p < length es - p" using less.prems(2) by simp
      obtain d'' i where r: "FindNextUserEntry ops cmp (skipping \<or> ?del) d' = Some d''" "dbi_ok s d''" "at (di_iter d'') es i" "Suc p \<le> i" "i \<le> length es"
          "di_valid d'' = (i < length es)" "di_direction d'' = di_direction d'" "i < length es \<longrightarrow> next_entry cmp s es (Suc p) ?sk' i"
          "\<forall>j. Suc p \<le> j \<and> j < i \<longrightarrow> \<not> next_entry cmp s es (Suc p) ?sk' j"
        using less.hyps [of "Suc p" d' "skipping \<or> ?del", OF lt f(1) True less.prems(3) d'(1) pre] by blast
      have "\<not> next_entry cmp s es p ?sk j" if j: "p \<le> j" "j < i" for j
      proof (cases "j = p")
        case False
        then have "p < j" "j < length es" "Suc p \<le> j" using j r(5) by auto
        then show ?thesis using eq [of j] r(9) j(2) by blast
      qed (use not in simp)
      then show ?thesis using r f(3) True eq [of i] d'(2) by (intro exI [of _ d''] exI [of _ i]) auto
    qed
  qed
qed


lemma next_entry_shown:
  assumes "\<forall>l<p. entry_visible s (es ! l) \<longrightarrow> cmp (entry_user_key (es ! l)) (entry_user_key (es ! j)) \<noteq> 0" 
  shows "next_entry cmp s es p None j \<longleftrightarrow> shown cmp s es j"
  using assms unfolding next_entry_def shown_def by (metis not_less option.simps(3))

lemma next_entry_after:
  assumes "sorted_entries ivalid (InternalKey_Compare cmp) es" "j < length es" "p \<le> m" "m < length es" "entry_visible s (es ! m)"
    "\<forall>l. p \<le> l \<and> l < m \<longrightarrow> \<not> entry_visible s (es ! l)" "p \<le> j"
  shows "next_entry cmp s es p (Some (entry_user_key (es ! m))) j \<longleftrightarrow> shown cmp s es j \<and> m < j"
proof -
  let ?u = "\<lambda>j. entry_user_key (es ! j)"
  note le = user_sorted [OF assms(1)]
  have 1: "m < j" if "0 < cmp (?u j) (?u m)" using that le [of j m] assms(4) by (metis not_less)
  have 2: "cmp (?u l) (?u j) \<noteq> 0" if g: "0 < cmp (?u j) (?u m)" and "l < p" for l
  proof -
    have "cmp (?u l) (?u m) \<le> 0" using le [of l m] that(2) assms(3,4) by simp
    moreover have "cmp (?u m) (?u j) < 0" using g cmp_flip by blast
    ultimately have "cmp (?u l) (?u j) < 0" using cmp_le_less_trans by blast
    then show ?thesis by simp
  qed
  have 3: "0 < cmp (?u j) (?u m)" if "m < j" "cmp (?u m) (?u j) \<noteq> 0"
    using that le [of m j] assms(2) cmp_flip [of "?u m" "?u j"] by simp
  show ?thesis
  proof
    assume n: "next_entry cmp s es p (Some (?u m)) j"
    then have g: "0 < cmp (?u j) (?u m)" by (simp add: next_entry_def)
    have "cmp (?u l) (?u j) \<noteq> 0" if "l < j" "entry_visible s (es ! l)" for l
      using n 2 [OF g] that unfolding next_entry_def by (cases "l < p") (simp_all add: not_less)
    then show "shown cmp s es j \<and> m < j" using n 1 [OF g] by (simp add: next_entry_def shown_def)
  next
    assume "shown cmp s es j \<and> m < j"
    then show "next_entry cmp s es p (Some (?u m)) j" using 3 assms(5) by (auto simp: next_entry_def shown_def)
  qed
qed

end

text \<open>The backward loop has gone through the entries from \<open>p\<close> up to \<open>c0\<close>.\<close>

definition back_inv :: "(slice \<Rightarrow> slice \<Rightarrow> int) \<Rightarrow> uint64 \<Rightarrow> entries \<Rightarrow> nat \<Rightarrow> nat \<Rightarrow> ValueType \<Rightarrow> 'i DBIter \<Rightarrow> bool" where
  "back_inv cmp s es c0 p vt d \<longleftrightarrow>
     (if vt = kTypeDeletion then \<forall>i. p \<le> i \<and> i < c0 \<longrightarrow> \<not> shown cmp s es i
      else \<exists>m. p \<le> m \<and> m < c0 \<and> entry_visible s (es ! m) \<and> entry_is_value (es ! m) \<and> (\<forall>i. p \<le> i \<and> i < m \<longrightarrow> \<not> entry_visible s (es ! i)) \<and>
        di_saved_key d = entry_user_key (es ! m) \<and> di_saved_value d = snd (es ! m) \<and> (\<forall>i. m < i \<and> i < c0 \<longrightarrow> \<not> shown cmp s es i))"

context db_source
begin

lemma back_inv_step:
  assumes "back_inv cmp s es c0 (Suc p) vt d" "p < c0" "c0 \<le> length es" "sorted_entries ivalid (InternalKey_Compare cmp) es"
    "\<not> (entry_visible s (es ! p) \<and> vt \<noteq> kTypeDeletion \<and> cmp (entry_user_key (es ! p)) (di_saved_key d) < 0)"
  defines "vt' \<equiv> if entry_visible s (es ! p) then if entry_is_value (es ! p) then kTypeValue else kTypeDeletion else vt"
  assumes "if entry_visible s (es ! p) then entry_is_value (es ! p) \<longrightarrow> di_saved_key d' = entry_user_key (es ! p) \<and> di_saved_value d' = snd (es ! p)
     else di_saved_key d' = di_saved_key d \<and> di_saved_value d' = di_saved_value d"
  shows "back_inv cmp s es c0 p vt' d'"
proof (cases "entry_visible s (es ! p)")
  case False
  have r: "(p \<le> i) \<longleftrightarrow> i = p \<or> Suc p \<le> i" for i by auto
  have "\<not> shown cmp s es p" using False by (simp add: shown_def)
  then show ?thesis
  proof (cases "vt = kTypeDeletion")
    case True
    then show ?thesis using False assms(1) \<open>\<not> shown cmp s es p\<close> unfolding back_inv_def vt'_def by (auto simp: r)
  next
    case val: False
    then obtain m where "Suc p \<le> m" "m < c0" "entry_visible s (es ! m)" "entry_is_value (es ! m)"
        "\<forall>i. Suc p \<le> i \<and> i < m \<longrightarrow> \<not> entry_visible s (es ! i)" "di_saved_key d = entry_user_key (es ! m)" "di_saved_value d = snd (es ! m)"
        "\<forall>i. m < i \<and> i < c0 \<longrightarrow> \<not> shown cmp s es i"
      using assms(1) by (auto simp: back_inv_def)
    then show ?thesis using False val assms(7) unfolding back_inv_def vt'_def by (auto simp: r intro!: exI [of _ m])
  qed
next
  case vis: True
  have none: "\<not> shown cmp s es i" if i: "p < i" "i < c0" for i
  proof (cases "vt = kTypeDeletion")
    case True
    then show ?thesis using assms(1) i by (simp add: back_inv_def)
  next
    case False
    then obtain m where m: "Suc p \<le> m" "m < c0" "\<forall>i. Suc p \<le> i \<and> i < m \<longrightarrow> \<not> entry_visible s (es ! i)" "di_saved_key d = entry_user_key (es ! m)"
        "\<forall>i. m < i \<and> i < c0 \<longrightarrow> \<not> shown cmp s es i"
      using assms(1) by (auto simp: back_inv_def)
    have "cmp (entry_user_key (es ! p)) (entry_user_key (es ! m)) = 0"
      using assms(3,5) vis False m(1,2,4) user_sorted [OF assms(4), of p m] by auto
    then have "\<not> shown cmp s es m" using vis m(1) by (auto simp: shown_def intro!: exI [of _ p])
    moreover have "\<not> shown cmp s es i" if "i < m" using m(3) i that by (auto simp: shown_def)
    ultimately show ?thesis using m(5) i by (cases i m rule: linorder_cases) auto
  qed
  show ?thesis
  proof (cases "entry_is_value (es ! p)")
    case True
    then show ?thesis using vis none assms(2,7) unfolding back_inv_def vt'_def by auto
  next
    case False
    then have "\<not> shown cmp s es p" by (simp add: shown_def)
    then have "\<not> shown cmp s es i" if "p \<le> i" "i < c0" for i using none that by (cases "i = p") auto
    then show ?thesis using vis False unfolding back_inv_def vt'_def by auto
  qed
qed

lemma FindPrev_step:
  fixes vt :: ValueType
  assumes "at (di_iter d) es p" "p < length es" "all_parse es" "dbi_ok s d"
  defines "stop \<equiv> entry_visible s (es ! p) \<and> vt \<noteq> kTypeDeletion \<and> cmp (entry_user_key (es ! p)) (di_saved_key d) < 0"
    and "vt' \<equiv> if entry_visible s (es ! p) then if entry_is_value (es ! p) then kTypeValue else kTypeDeletion else vt"
  shows "\<exists>d'. dbi_ok s d' \<and> di_direction d' = di_direction d \<and>
    (if stop then FindPrev_loop ops cmp vt d = Some (d', vt) \<and> at (di_iter d') es p \<and> di_saved_key d' = di_saved_key d \<and> di_saved_value d' = di_saved_value d
     else at (di_iter d') es (step_back (length es) p) \<and>
       (if entry_visible s (es ! p) then entry_is_value (es ! p) \<longrightarrow> di_saved_key d' = entry_user_key (es ! p) \<and> di_saved_value d' = snd (es ! p)
        else di_saved_key d' = di_saved_key d \<and> di_saved_value d' = di_saved_value d) \<and>
       FindPrev_loop ops cmp vt d = (if p = 0 then Some (d', vt') else FindPrev_loop ops cmp vt' d'))"
proof -
  obtain r b sm ik where k: "ParseKey ops d = Some (d \<lparr> di_rnd := r, di_bytes_counter := b, di_samples := sm \<rparr>, Some ik)" "seed_ok r"
      "user_key ik = entry_user_key (es ! p)" "sequence ik \<le> s \<longleftrightarrow> entry_visible s (es ! p)" "value_type ik = kTypeValue \<longleftrightarrow> entry_is_value (es ! p)"
    using ParseKey_law [OF assms(1-4)] by blast
  have vt: "(if entry_visible s (es ! p) then value_type ik else vt) = vt'" using k(5) by (cases "value_type ik") (auto simp: vt'_def)
  let ?d = "d \<lparr> di_rnd := r, di_bytes_counter := b, di_samples := sm \<rparr>"
  let ?d1 = "if entry_visible s (es ! p) then
      if vt' = kTypeDeletion then ?d \<lparr> di_saved_key := [], di_saved_value := [] \<rparr>
      else ?d \<lparr> di_saved_key := ExtractUserKey (io_key ops (di_iter ?d)), di_saved_value := io_value ops (di_iter ?d) \<rparr>
    else ?d"
  have sq: "di_sequence d = s" and ok: "dbi_ok s ?d" using assms(4) k(2) by (auto simp: dbi_ok_def)
  obtain i where i: "iter_move (io_Prev ops) ?d1 = Some (?d1 \<lparr> di_iter := i \<rparr>)" "at i es (step_back (length es) p)"
  proof -
    have "at (di_iter ?d1) es p" using assms(1) by simp
    then show ?thesis using iter_move_Prev assms(2) that by blast
  qed
  have kv: "ExtractUserKey (io_key ops (di_iter d)) = entry_user_key (es ! p)" "io_value ops (di_iter d) = snd (es ! p)"
    using inner.at_key [OF assms(1,2)] inner.at_value [OF assms(1,2)] by (simp_all add: entry_user_key_def)
  show ?thesis
  proof (cases stop)
    case True
    then have "FindPrev_loop ops cmp vt d = Some (?d, vt)"
      by (subst FindPrev_loop.simps) (simp add: k sq Let_def stop_def)
    then show ?thesis using True ok assms(1) by (intro exI [of _ ?d]) simp
  next
    case False
    let ?d2 = "?d1 \<lparr> di_iter := i \<rparr>"
    have v: "io_Valid ops i \<longleftrightarrow> p \<noteq> 0" using inner.at_valid [OF i(2)] assms(2) by (auto simp: step_back_def)
    have "FindPrev_loop ops cmp vt d = (if p = 0 then Some (?d2, vt') else FindPrev_loop ops cmp vt' ?d2)"
      using False i(1) v vt unfolding stop_def
      by (subst FindPrev_loop.simps) (cases "entry_visible s (es ! p)"; cases "value_type ik"; cases vt; auto simp: k(1,3,4) sq Let_def)
    moreover have "dbi_ok s ?d2" using ok by (simp add: dbi_ok_def)
    ultimately show ?thesis using False i(2) kv by (intro exI [of _ ?d2]) (auto simp: vt'_def)
  qed
qed


lemma FindPrev_loop_law:
  assumes "at (di_iter d) es p" "p < c0" "c0 \<le> length es" "all_parse es" "dbi_ok s d" "back_inv cmp s es c0 (Suc p) vt d"
  shows "\<exists>d' vt' c. FindPrev_loop ops cmp vt d = Some (d', vt') \<and> dbi_ok s d' \<and> di_direction d' = di_direction d \<and>
    at (di_iter d') es (step_back (length es) c) \<and> back_inv cmp s es c0 c vt' d' \<and>
    (if vt' = kTypeDeletion then c = 0 else \<forall>l<c. entry_visible s (es ! l) \<longrightarrow> cmp (entry_user_key (es ! l)) (di_saved_key d') < 0)"
  using assms
proof (induction p arbitrary: d vt)
  case 0
  have so: "sorted_entries ivalid (InternalKey_Compare cmp) es" using inner.at_sorted 0(1) by blast
  have p: "0 < length es" using 0(2,3) by linarith
  show ?case
  proof (cases "entry_visible s (es ! 0) \<and> vt \<noteq> kTypeDeletion \<and> cmp (entry_user_key (es ! 0)) (di_saved_key d) < 0")
    case True
    then obtain d' where d': "dbi_ok s d'" "di_direction d' = di_direction d" "FindPrev_loop ops cmp vt d = Some (d', vt)" "at (di_iter d') es 0"
        "di_saved_key d' = di_saved_key d" "di_saved_value d' = di_saved_value d"
      using FindPrev_step [OF 0(1) p 0(4,5), of vt] by auto
    have "back_inv cmp s es c0 (Suc 0) vt d'" using 0(6) d'(5,6) by (simp add: back_inv_def)
    then show ?thesis using d' True by (intro exI [of _ d'] exI [of _ vt] exI [of _ "Suc 0"]) (simp add: step_back_def)
  next
    case False
    let ?vt = "if entry_visible s (es ! 0) then if entry_is_value (es ! 0) then kTypeValue else kTypeDeletion else vt"
    obtain d' where d': "dbi_ok s d'" "di_direction d' = di_direction d" "FindPrev_loop ops cmp vt d = Some (d', ?vt)" "at (di_iter d') es (step_back (length es) 0)"
        "if entry_visible s (es ! 0) then entry_is_value (es ! 0) \<longrightarrow> di_saved_key d' = entry_user_key (es ! 0) \<and> di_saved_value d' = snd (es ! 0)
         else di_saved_key d' = di_saved_key d \<and> di_saved_value d' = di_saved_value d"
      using FindPrev_step [OF 0(1) p 0(4,5), of vt] False by auto
    have "back_inv cmp s es c0 0 ?vt d'" by (rule back_inv_step [OF 0(6,2,3) so False d'(5)])
    then show ?thesis using d'(1-4) by (intro exI [of _ d'] exI [of _ ?vt] exI [of _ 0]) simp
  qed
next
  case (Suc p)
  have so: "sorted_entries ivalid (InternalKey_Compare cmp) es" using inner.at_sorted Suc.prems(1) by blast
  have p: "Suc p < length es" using Suc.prems(2,3) by simp
  show ?case
  proof (cases "entry_visible s (es ! Suc p) \<and> vt \<noteq> kTypeDeletion \<and> cmp (entry_user_key (es ! Suc p)) (di_saved_key d) < 0")
    case True
    then obtain d' where d': "dbi_ok s d'" "di_direction d' = di_direction d" "FindPrev_loop ops cmp vt d = Some (d', vt)" "at (di_iter d') es (Suc p)"
        "di_saved_key d' = di_saved_key d" "di_saved_value d' = di_saved_value d"
      using FindPrev_step [OF Suc.prems(1) p Suc.prems(4,5), of vt] by auto
    have "back_inv cmp s es c0 (Suc (Suc p)) vt d'" using Suc.prems(6) d'(5,6) by (simp add: back_inv_def)
    moreover have "cmp (entry_user_key (es ! l)) (di_saved_key d') < 0" if "l < Suc (Suc p)" for l
      using user_sorted [OF so, of l "Suc p"] p that True d'(5) cmp_le_less_trans by (metis less_Suc_eq_le)
    ultimately show ?thesis using d' True by (intro exI [of _ d'] exI [of _ vt] exI [of _ "Suc (Suc p)"]) (simp add: step_back_def)
  next
    case False
    let ?vt = "if entry_visible s (es ! Suc p) then if entry_is_value (es ! Suc p) then kTypeValue else kTypeDeletion else vt"
    obtain d' where d': "dbi_ok s d'" "di_direction d' = di_direction d" "FindPrev_loop ops cmp vt d = FindPrev_loop ops cmp ?vt d'" "at (di_iter d') es p"
        "if entry_visible s (es ! Suc p) then entry_is_value (es ! Suc p) \<longrightarrow> di_saved_key d' = entry_user_key (es ! Suc p) \<and> di_saved_value d' = snd (es ! Suc p)
         else di_saved_key d' = di_saved_key d \<and> di_saved_value d' = di_saved_value d"
      using FindPrev_step [OF Suc.prems(1) p Suc.prems(4,5), of vt] False by (auto simp: step_back_def)
    have "back_inv cmp s es c0 (Suc p) ?vt d'" by (rule back_inv_step [OF Suc.prems(6,2,3) so False d'(5)])
    from Suc.IH [OF d'(4) Suc_lessD [OF Suc.prems(2)] Suc.prems(3,4) d'(1) this] show ?thesis using d'(2,3) by simp
  qed
qed

text \<open>A reverse iterator that shows entry \<open>m\<close>.\<close>

lemma back_shown:
  assumes "back_inv cmp s es c0 c vt d" "vt \<noteq> kTypeDeletion" "\<forall>l<c. entry_visible s (es ! l) \<longrightarrow> cmp (entry_user_key (es ! l)) (di_saved_key d) < 0"
  shows "\<exists>m. c \<le> m \<and> m < c0 \<and> shown cmp s es m \<and> (\<forall>i. c \<le> i \<and> i < m \<longrightarrow> \<not> entry_visible s (es ! i)) \<and>
    di_saved_key d = entry_user_key (es ! m) \<and> di_saved_value d = snd (es ! m) \<and> (\<forall>i. m < i \<and> i < c0 \<longrightarrow> \<not> shown cmp s es i)"
proof -
  obtain m where m: "c \<le> m" "m < c0" "entry_visible s (es ! m)" "entry_is_value (es ! m)" "\<forall>i. c \<le> i \<and> i < m \<longrightarrow> \<not> entry_visible s (es ! i)"
      "di_saved_key d = entry_user_key (es ! m)" "di_saved_value d = snd (es ! m)" "\<forall>i. m < i \<and> i < c0 \<longrightarrow> \<not> shown cmp s es i"
    using assms(1,2) by (auto simp: back_inv_def)
  have "cmp (entry_user_key (es ! j)) (entry_user_key (es ! m)) \<noteq> 0" if "j < m" "entry_visible s (es ! j)" for j
    using that m(5,6) assms(3) by (cases "j < c") (fastforce simp: not_less)+
  then have "shown cmp s es m" using m(3,4) by (simp add: shown_def)
  then show ?thesis using m by blast
qed

lemma FindPrev_law:
  assumes "at (di_iter d) es (step_back (length es) c0)" "c0 \<le> length es" "all_parse es" "dbi_ok s d" "di_direction d = kReverse"
  shows "\<exists>d'. FindPrevUserEntry ops cmp d = Some d' \<and> dbi_ok s d' \<and>
    (\<not> di_valid d' \<and> (\<exists>p. at (di_iter d') es p) \<and> (\<forall>i<c0. \<not> shown cmp s es i) \<or>
     di_valid d' \<and> di_direction d' = kReverse \<and>
     (\<exists>m c. c \<le> m \<and> m < c0 \<and> shown cmp s es m \<and> at (di_iter d') es (step_back (length es) c) \<and> (\<forall>i. c \<le> i \<and> i < m \<longrightarrow> \<not> entry_visible s (es ! i)) \<and>
       di_saved_key d' = entry_user_key (es ! m) \<and> di_saved_value d' = snd (es ! m) \<and> (\<forall>i. m < i \<and> i < c0 \<longrightarrow> \<not> shown cmp s es i)))"
proof (cases "c0 = 0")
  case True
  then have "\<not> io_Valid ops (di_iter d)" using inner.at_valid [OF assms(1)] by (simp add: step_back_def)
  then show ?thesis using True assms(1,4) by (auto simp: FindPrevUserEntry_def dbi_ok_def)
next
  case False
  then have at: "at (di_iter d) es (c0 - 1)" using assms(1) by (simp add: step_back_def)
  have v: "io_Valid ops (di_iter d)" using inner.at_valid [OF at] False assms(2) by simp
  have "back_inv cmp s es c0 (Suc (c0 - 1)) kTypeDeletion d" using False by (auto simp: back_inv_def)
  then obtain d' vt c where l: "FindPrev_loop ops cmp kTypeDeletion d = Some (d', vt)" "dbi_ok s d'" "di_direction d' = di_direction d"
      "at (di_iter d') es (step_back (length es) c)" "back_inv cmp s es c0 c vt d'"
      "if vt = kTypeDeletion then c = 0 else \<forall>l<c. entry_visible s (es ! l) \<longrightarrow> cmp (entry_user_key (es ! l)) (di_saved_key d') < 0"
    using FindPrev_loop_law [OF at _ assms(2-4)] False by (metis diff_less less_numeral_extra(1) not_gr_zero)
  show ?thesis
  proof (cases "vt = kTypeDeletion")
    case True
    then have "\<forall>i<c0. \<not> shown cmp s es i" using l(5,6) by (simp add: back_inv_def)
    then show ?thesis using True l(1,2,4) v by (auto simp: FindPrevUserEntry_def dbi_ok_def)
  next
    case val: False
    then have "FindPrevUserEntry ops cmp d = Some (d' \<lparr> di_valid := True \<rparr>)" using l(1) v by (simp add: FindPrevUserEntry_def)
    moreover have "dbi_ok s (d' \<lparr> di_valid := True \<rparr>)" using l(2) by (simp add: dbi_ok_def)
    ultimately show ?thesis using back_shown [OF l(5) val] l(3,4,6) val assms(5) by (intro exI [of _ "d' \<lparr> di_valid := True \<rparr>"]) auto
  qed
qed

lemma leave_key_law:
  assumes "at (di_iter d) es p" "p < length es" "dbi_ok s d"
  shows "\<exists>d' ended c. leave_key ops cmp d = Some (d', ended) \<and> dbi_ok s d' \<and> at (di_iter d') es (step_back (length es) c) \<and> c \<le> p \<and>
    (\<forall>i. c \<le> i \<and> i < p \<longrightarrow> \<not> cmp (entry_user_key (es ! i)) (di_saved_key d) < 0) \<and>
    (if ended then c = 0 \<and> \<not> di_valid d' else 0 < c)"
  using assms
proof (induction p arbitrary: d)
  case 0
  obtain i where i: "iter_move (io_Prev ops) d = Some (d \<lparr> di_iter := i \<rparr>)" "at i es (step_back (length es) 0)" using iter_move_Prev [OF 0(1,2)] by blast
  have "\<not> io_Valid ops i" using inner.at_valid [OF i(2)] by (simp add: step_back_def)
  then show ?case using i 0(3) by (subst leave_key.simps) (auto simp: dbi_ok_def)
next
  case (Suc p)
  obtain i where i: "iter_move (io_Prev ops) d = Some (d \<lparr> di_iter := i \<rparr>)" "at i es p"
    using iter_move_Prev [OF Suc.prems(1,2)] by (auto simp: step_back_def)
  have p: "p < length es" using Suc.prems(2) by simp
  have v: "io_Valid ops i" "ExtractUserKey (io_key ops i) = entry_user_key (es ! p)"
    using inner.at_valid [OF i(2)] inner.at_key [OF i(2) p] p by (simp_all add: entry_user_key_def)
  let ?d = "d \<lparr> di_iter := i \<rparr>"
  have ok: "dbi_ok s ?d" using Suc.prems(3) by (simp add: dbi_ok_def)
  show ?case
  proof (cases "cmp (entry_user_key (es ! p)) (di_saved_key d) < 0")
    case True
    then have "leave_key ops cmp d = Some (?d, False)" using i v by (subst leave_key.simps) simp
    then show ?thesis using i(2) ok by (intro exI [of _ ?d] exI [of _ False] exI [of _ "Suc p"]) (simp add: step_back_def)
  next
    case False
    then have "leave_key ops cmp d = leave_key ops cmp ?d" using i v by (subst leave_key.simps) simp
    moreover obtain d' ended c where "leave_key ops cmp ?d = Some (d', ended)" "dbi_ok s d'" "at (di_iter d') es (step_back (length es) c)" "c \<le> p"
        "\<forall>i. c \<le> i \<and> i < p \<longrightarrow> \<not> cmp (entry_user_key (es ! i)) (di_saved_key d) < 0" "if ended then c = 0 \<and> \<not> di_valid d' else 0 < c"
      using Suc.IH [of ?d] i(2) p ok by fastforce
    moreover have "\<forall>i. c \<le> i \<and> i < Suc p \<longrightarrow> \<not> cmp (entry_user_key (es ! i)) (di_saved_key d) < 0"
      using \<open>\<forall>i. c \<le> i \<and> i < p \<longrightarrow> _ i\<close> False by (auto simp: less_Suc_eq)
    ultimately show ?thesis by (intro exI [of _ d'] exI [of _ ended] exI [of _ c]) simp
  qed
qed

end

text \<open>The iterator stands at position \<open>j\<close> of what is visible at sequence number \<open>s\<close>.\<close>

definition dbi_at :: "(slice \<Rightarrow> slice \<Rightarrow> int) \<Rightarrow> ('i \<Rightarrow> entries \<Rightarrow> nat \<Rightarrow> bool) \<Rightarrow> uint64 \<Rightarrow> 'i DBIter \<Rightarrow> entries \<Rightarrow> nat \<Rightarrow> bool" where
  "dbi_at cmp at s d vs j \<longleftrightarrow> dbi_ok s d \<and> (\<exists>es. all_parse es \<and> vs = db_view cmp s es \<and>
     (if \<not> di_valid d then j = length vs \<and> (\<exists>p. at (di_iter d) es p)
      else \<exists>m<length es. shown cmp s es m \<and> j = view_pos cmp s es m \<and>
        (if di_direction d = kForward then at (di_iter d) es m
         else di_saved_key d = entry_user_key (es ! m) \<and> di_saved_value d = snd (es ! m) \<and>
           (\<exists>c\<le>m. at (di_iter d) es (step_back (length es) c) \<and> (\<forall>i. c \<le> i \<and> i < m \<longrightarrow> \<not> entry_visible s (es ! i))))))"

context db_source
begin

lemma view_sorted:
  assumes "sorted_entries ivalid (InternalKey_Compare cmp) es"
  shows "sorted_entries uvalid cmp (db_view cmp s es)"
proof -
  let ?u = "\<lambda>i. entry_user_key (es ! i)"
  have lt: "cmp (?u i) (?u j) < 0" if "i < j" "j < length es" "shown cmp s es i" "shown cmp s es j" for i j
    using user_sorted [OF assms, of i j] that by (force simp: shown_def)
  have "sorted_wrt (<) (filter (shown cmp s es) [0..<length es])" by (simp add: sorted_wrt_filter)
  then have "sorted_wrt (\<lambda>i j. cmp (?u i) (?u j) < 0) (filter (shown cmp s es) [0..<length es])"
    by (rule sorted_wrt_mono_rel [rotated]) (auto intro: lt)
  moreover have "uvalid (?u i)" if "i < length es" for i
    using that assms user_valid by (auto simp: sorted_entries_def entry_user_key_def)
  ultimately show ?thesis by (auto simp: sorted_entries_def db_view_def sorted_wrt_map)
qed

lemma dbi_source: "dbi_at cmp at s d vs j \<Longrightarrow> \<exists>es p. all_parse es \<and> vs = db_view cmp s es \<and> at (di_iter d) es p \<and> dbi_ok s d"
  unfolding dbi_at_def by (fastforce split: if_splits)

lemma dbi_position:
  assumes "dbi_at cmp at s d vs j"
  shows "j \<le> length vs \<and> di_valid d = (j < length vs) \<and>
    (j < length vs \<longrightarrow> DBIter_key ops d = fst (vs ! j) \<and> DBIter_value ops d = snd (vs ! j))"
proof (cases "di_valid d")
  case False
  then show ?thesis using assms by (auto simp: dbi_at_def)
next
  case True
  then obtain es m where m: "vs = db_view cmp s es" "m < length es" "shown cmp s es m" "j = view_pos cmp s es m"
      "if di_direction d = kForward then at (di_iter d) es m else di_saved_key d = entry_user_key (es ! m) \<and> di_saved_value d = snd (es ! m)"
    using assms unfolding dbi_at_def by (auto split: if_splits)
  have "DBIter_key ops d = entry_user_key (es ! m)" "DBIter_value ops d = snd (es ! m)"
    using m(2,5) inner.at_key inner.at_value by (auto simp: DBIter_key_def DBIter_value_def entry_user_key_def split: if_splits)
  then show ?thesis using view_nth [OF m(3,2)] m(1,4) True by simp
qed

text \<open>The position after a forward search from \<open>p\<close>.\<close>

lemma dbi_forward:
  assumes "at (di_iter d) es p" "p < length es" "all_parse es" "dbi_ok s d" "di_direction d = kForward"
    "skipping \<Longrightarrow> \<forall>j. p \<le> j \<and> j < length es \<and> entry_visible s (es ! j) \<longrightarrow> cmp (di_saved_key d) (entry_user_key (es ! j)) \<le> 0"
    "p \<le> q" "q \<le> length es"
    "\<And>j. p \<le> j \<Longrightarrow> j < length es \<Longrightarrow> next_entry cmp s es p (if skipping then Some (di_saved_key d) else None) j \<longleftrightarrow> shown cmp s es j \<and> q \<le> j"
  shows "\<exists>d'. FindNextUserEntry ops cmp skipping d = Some d' \<and> dbi_at cmp at s d' (db_view cmp s es) (view_pos cmp s es q)"
proof -
  obtain d' i where r: "FindNextUserEntry ops cmp skipping d = Some d'" "dbi_ok s d'" "at (di_iter d') es i" "p \<le> i" "i \<le> length es"
      "di_valid d' = (i < length es)" "di_direction d' = di_direction d"
      "i < length es \<longrightarrow> next_entry cmp s es p (if skipping then Some (di_saved_key d) else None) i"
      "\<forall>j. p \<le> j \<and> j < i \<longrightarrow> \<not> next_entry cmp s es p (if skipping then Some (di_saved_key d) else None) j"
    using FindNext_law [OF assms(1-4,6)] by blast
  have none: "\<not> shown cmp s es j" if "q \<le> j" "j < i" for j using r(5,9) that assms(7,9) by (metis le_trans less_le_trans)
  have qi: "q \<le> i" using r(4,5,8) assms(8,9) by (metis le_neq_implies_less)
  have pos: "view_pos cmp s es i = view_pos cmp s es q" using view_pos_skip [OF qi] none by blast
  show ?thesis
  proof (cases "i < length es")
    case True
    then have "shown cmp s es i" using r(4,8) assms(9) by blast
    then show ?thesis using r(1-3,6,7) assms(3,5) True pos unfolding dbi_at_def by (intro exI [of _ d'] conjI exI [of _ es]) auto
  next
    case False
    then have "i = length es" using r(5) by simp
    then show ?thesis using r(1-3,6) assms(3) pos view_pos_length unfolding dbi_at_def by fastforce
  qed
qed

lemma dbi_next:
  assumes "dbi_at cmp at s d vs j" "j < length vs"
  shows "\<exists>d'. DBIter_Next ops cmp d = Some d' \<and> dbi_at cmp at s d' vs (Suc j)"
proof -
  have v: "di_valid d" using dbi_position [OF assms(1)] assms(2) by blast
  then obtain es m where es: "all_parse es" "dbi_ok s d" "vs = db_view cmp s es"
    and m: "m < length es" "shown cmp s es m" "j = view_pos cmp s es m"
      "if di_direction d = kForward then at (di_iter d) es m
       else di_saved_key d = entry_user_key (es ! m) \<and> di_saved_value d = snd (es ! m) \<and>
         (\<exists>c\<le>m. at (di_iter d) es (step_back (length es) c) \<and> (\<forall>i. c \<le> i \<and> i < m \<longrightarrow> \<not> entry_visible s (es ! i)))"
    using assms(1) unfolding dbi_at_def by auto
  have vm: "entry_visible s (es ! m)" using m(2) by (simp add: shown_def)
  have main: "\<exists>d'. FindNextUserEntry ops cmp True e = Some d' \<and> dbi_at cmp at s d' vs (Suc j)"
    if c: "c \<le> m" "\<forall>i. c \<le> i \<and> i < m \<longrightarrow> \<not> entry_visible s (es ! i)" and e: "at (di_iter e) es c" "dbi_ok s e" "di_direction e = kForward" "di_saved_key e = entry_user_key (es ! m)" for e c
  proof -
    have so: "sorted_entries ivalid (InternalKey_Compare cmp) es" using inner.at_sorted e(1) by blast
    have "cmp (di_saved_key e) (entry_user_key (es ! i)) \<le> 0" if "c \<le> i" "i < length es" "entry_visible s (es ! i)" for i
      using user_sorted [OF so, of m i] that c(2) e(4) by (metis not_less)
    moreover have "next_entry cmp s es c (Some (di_saved_key e)) i \<longleftrightarrow> shown cmp s es i \<and> Suc m \<le> i" if "c \<le> i" "i < length es" for i
      using next_entry_after [OF so that(2) c(1) m(1) vm c(2) that(1)] e(4) by (simp add: Suc_le_eq)
    moreover have "view_pos cmp s es (Suc m) = Suc j" using m(2,3) by (simp add: view_pos_Suc)
    ultimately show ?thesis using dbi_forward [OF e(1) _ es(1) e(2,3), of True "Suc m"] c(1) m(1) es(3) by simp
  qed
  show ?thesis
  proof (cases "di_direction d")
    case kForward
    then have at: "at (di_iter d) es m" using m(4) by simp
    have "ExtractUserKey (io_key ops (di_iter d)) = entry_user_key (es ! m)" using inner.at_key [OF at m(1)] by (simp add: entry_user_key_def)
    moreover have "\<forall>i. m \<le> i \<and> i < m \<longrightarrow> \<not> entry_visible s (es ! i)" by auto
    ultimately show ?thesis using main [OF order_refl, of "d \<lparr> di_saved_key := entry_user_key (es ! m) \<rparr>"] at es(2) kForward by (simp add: DBIter_Next_def dbi_ok_def)
  next
    case kReverse
    then obtain c where c: "c \<le> m" "at (di_iter d) es (step_back (length es) c)" "\<forall>i. c \<le> i \<and> i < m \<longrightarrow> \<not> entry_visible s (es ! i)"
        "di_saved_key d = entry_user_key (es ! m)" using m(4) by auto
    let ?f = "if \<not> io_Valid ops (di_iter d) then io_SeekToFirst ops else io_Next ops"
    obtain i where i: "?f (di_iter d) = Some i" "at i es c"
    proof (cases "c = 0")
      case True
      then have "\<not> io_Valid ops (di_iter d)" using inner.at_valid [OF c(2)] by (simp add: step_back_def)
      then show ?thesis using inner.at_first [OF c(2)] that True by auto
    next
      case False
      then have a: "at (di_iter d) es (c - 1)" "c - 1 < length es" using c(1,2) m(1) by (simp_all add: step_back_def)
      then have "io_Valid ops (di_iter d)" using inner.at_valid by blast
      then show ?thesis using inner.at_next [OF a] that False by auto
    qed
    have "io_Valid ops i" using inner.at_valid [OF i(2)] c(1) m(1) by simp
    then have "DBIter_Next ops cmp d = FindNextUserEntry ops cmp True (d \<lparr> di_direction := kForward, di_iter := i \<rparr>)"
      using kReverse i(1) by (simp add: DBIter_Next_def iter_move_def)
    then show ?thesis using main [OF c(1,3), of "d \<lparr> di_direction := kForward, di_iter := i \<rparr>"] i(2) c(4) es(2) by (simp add: dbi_ok_def)
  qed
qed

lemma dbi_backward:
  assumes "at (di_iter d) es (step_back (length es) c0)" "c0 \<le> length es" "all_parse es" "dbi_ok s d" "di_direction d = kReverse"
  shows "\<exists>d'. FindPrevUserEntry ops cmp d = Some d' \<and>
    dbi_at cmp at s d' (db_view cmp s es) (step_back (length (db_view cmp s es)) (view_pos cmp s es c0))"
proof -
  obtain d' where d': "FindPrevUserEntry ops cmp d = Some d'" "dbi_ok s d'"
    "\<not> di_valid d' \<and> (\<exists>p. at (di_iter d') es p) \<and> (\<forall>i<c0. \<not> shown cmp s es i) \<or>
     di_valid d' \<and> di_direction d' = kReverse \<and>
     (\<exists>m c. c \<le> m \<and> m < c0 \<and> shown cmp s es m \<and> at (di_iter d') es (step_back (length es) c) \<and> (\<forall>i. c \<le> i \<and> i < m \<longrightarrow> \<not> entry_visible s (es ! i)) \<and>
       di_saved_key d' = entry_user_key (es ! m) \<and> di_saved_value d' = snd (es ! m) \<and> (\<forall>i. m < i \<and> i < c0 \<longrightarrow> \<not> shown cmp s es i))"
    using FindPrev_law [OF assms] by blast
  show ?thesis
  proof (cases "di_valid d'")
    case False
    then have "\<forall>i<c0. \<not> shown cmp s es i" "\<exists>p. at (di_iter d') es p" using d'(3) by auto
    then have "view_pos cmp s es c0 = 0" using view_pos_skip [of 0 c0] by (simp add: view_pos_def)
    then show ?thesis using False d'(1,2) assms(3) \<open>\<exists>p. at (di_iter d') es p\<close> by (auto simp: dbi_at_def step_back_def)
  next
    case True
    then obtain m c where m: "c \<le> m" "m < c0" "shown cmp s es m" "at (di_iter d') es (step_back (length es) c)"
        "\<forall>i. c \<le> i \<and> i < m \<longrightarrow> \<not> entry_visible s (es ! i)" "di_direction d' = kReverse"
        "di_saved_key d' = entry_user_key (es ! m)" "di_saved_value d' = snd (es ! m)" "\<forall>i. m < i \<and> i < c0 \<longrightarrow> \<not> shown cmp s es i"
      using d'(3) by blast
    have "view_pos cmp s es c0 = view_pos cmp s es (Suc m)" using view_pos_skip [of "Suc m" c0] m(2,9) by (simp add: Suc_le_eq)
    then have "step_back (length (db_view cmp s es)) (view_pos cmp s es c0) = view_pos cmp s es m" using m(3) by (simp add: view_pos_Suc step_back_def)
    moreover have "dbi_at cmp at s d' (db_view cmp s es) (view_pos cmp s es m)"
      unfolding dbi_at_def using True d'(2) assms(3) m less_le_trans [OF m(2) assms(2)] by auto
    ultimately show ?thesis using d'(1) by simp
  qed
qed

lemma dbi_prev:
  assumes "dbi_at cmp at s d vs j" "j < length vs"
  shows "\<exists>d'. DBIter_Prev ops cmp d = Some d' \<and> dbi_at cmp at s d' vs (step_back (length vs) j)"
proof -
  have v: "di_valid d" using dbi_position [OF assms(1)] assms(2) by blast
  then obtain es m where es: "all_parse es" "dbi_ok s d" "vs = db_view cmp s es"
    and m: "m < length es" "shown cmp s es m" "j = view_pos cmp s es m"
      "if di_direction d = kForward then at (di_iter d) es m
       else di_saved_key d = entry_user_key (es ! m) \<and> di_saved_value d = snd (es ! m) \<and>
         (\<exists>c\<le>m. at (di_iter d) es (step_back (length es) c) \<and> (\<forall>i. c \<le> i \<and> i < m \<longrightarrow> \<not> entry_visible s (es ! i)))"
    using assms(1) unfolding dbi_at_def by auto
  have pos: "view_pos cmp s es c = j" if "c \<le> m" "\<forall>i. c \<le> i \<and> i < m \<longrightarrow> \<not> shown cmp s es i" for c
    using view_pos_skip [OF that] m(3) by simp
  show ?thesis
  proof (cases "di_direction d")
    case kReverse
    then obtain c where c: "c \<le> m" "at (di_iter d) es (step_back (length es) c)" "\<forall>i. c \<le> i \<and> i < m \<longrightarrow> \<not> entry_visible s (es ! i)"
      using m(4) by auto
    then have "view_pos cmp s es c = j" using pos by (simp add: shown_def)
    then show ?thesis using dbi_backward [OF c(2) _ es(1,2) kReverse] c(1) m(1) es(3) kReverse by (simp add: DBIter_Prev_def)
  next
    case kForward
    then have at: "at (di_iter d) es m" using m(4) by simp
    have so: "sorted_entries ivalid (InternalKey_Compare cmp) es" using inner.at_sorted at by blast
    have k: "ExtractUserKey (io_key ops (di_iter d)) = entry_user_key (es ! m)" using inner.at_key [OF at m(1)] by (simp add: entry_user_key_def)
    let ?d = "d \<lparr> di_saved_key := entry_user_key (es ! m) \<rparr>"
    have at': "at (di_iter ?d) es m" "dbi_ok s ?d" using at es(2) by (simp_all add: dbi_ok_def)
    obtain d' ended c where l: "leave_key ops cmp ?d = Some (d', ended)" "dbi_ok s d'" "at (di_iter d') es (step_back (length es) c)" "c \<le> m"
        "\<forall>i. c \<le> i \<and> i < m \<longrightarrow> \<not> cmp (entry_user_key (es ! i)) (di_saved_key ?d) < 0" "if ended then c = 0 \<and> \<not> di_valid d' else 0 < c"
      using leave_key_law [OF at'(1) m(1) at'(2)] by blast
    have "\<not> shown cmp s es i" if i: "c \<le> i" "i < m" for i
    proof -
      have "cmp (entry_user_key (es ! i)) (entry_user_key (es ! m)) = 0" using l(5) user_sorted [OF so, of i m] i m(1) by force
      then show ?thesis using m(2) i(2) by (auto simp: shown_def)
    qed
    then have p: "view_pos cmp s es c = j" using pos l(4) by blast
    show ?thesis
    proof (cases ended)
      case True
      then have "j = 0" "\<not> di_valid d'" using l(6) p by (simp_all add: view_pos_def)
      then show ?thesis using True l(1-3) kForward k es by (auto simp: DBIter_Prev_def dbi_at_def step_back_def)
    next
      case False
      have "dbi_ok s (d' \<lparr> di_direction := kReverse \<rparr>)" using l(2) by (simp add: dbi_ok_def)
      then show ?thesis
        using dbi_backward [of "d' \<lparr> di_direction := kReverse \<rparr>" es c] False l(1,3,4) kForward k es(1,3) m(1) p by (simp add: DBIter_Prev_def)
    qed
  qed
qed

end

lemma view_pos_mono: "p \<le> q \<Longrightarrow> view_pos cmp s es p \<le> view_pos cmp s es q"
  by (induction q rule: dec_induct) (auto simp: view_pos_Suc)

lemma ParseInternalKey_tag:
  assumes "ParseInternalKey k = Some ik"
  shows "internal_tag k = PackSequenceAndType (sequence ik) (value_type ik) \<and> unat (sequence ik) < 2 ^ 56"
proof -
  let ?t = "internal_tag k"
  let ?c = "ucast (?t AND 0xff) :: byte"
  have c: "?c \<le> 1" "sequence ik = drop_bit 8 ?t" "ValueType_code (value_type ik) = ?c"
  proof -
    show "?c \<le> 1" "sequence ik = drop_bit 8 ?t" using assms by (auto simp: ParseInternalKey_def Let_def split: if_splits)
    then have "?c = 0 \<or> ?c = 1" by (metis word_le_sub1 word_le_0_iff linorder_not_less word_less_1 le_less)
    moreover have "value_type ik = (if ?c = 0 then kTypeDeletion else kTypeValue)"
      using assms by (auto simp: ParseInternalKey_def Let_def split: if_splits)
    ultimately show "ValueType_code (value_type ik) = ?c" by (simp split: if_splits)
  qed
  have "(ucast ?c :: uint64) = ?t AND 0xff"
    by (rule bit_word_eqI) (auto simp: bit_simps bit_consts)
  then have "PackSequenceAndType (sequence ik) (value_type ik) = push_bit 8 (drop_bit 8 ?t) OR (?t AND 0xff)"
    using c(2,3) by (simp add: PackSequenceAndType_def)
  also have "\<dots> = ?t" by (rule bit_word_eqI) (auto simp: bit_simps bit_consts)
  finally have 1: "internal_tag k = PackSequenceAndType (sequence ik) (value_type ik)" by simp
  have "unat (sequence ik) = unat ?t div 2 ^ 8" unfolding c(2) by (simp add: drop_bit_eq_div unat_div)
  moreover have "unat ?t < 2 ^ 64" using unsigned_less [of ?t] by simp
  ultimately have "unat (sequence ik) < 2 ^ 56" by (simp add: less_mult_imp_div_less)
  with 1 show ?thesis by simp
qed

context db_source
begin

lemma dbi_seek:
  assumes "dbi_at cmp at s d vs j" "uvalid u"
  shows "\<exists>d'. DBIter_Seek ops cmp u d = Some d' \<and> dbi_at cmp at s d' vs (cut_pos (\<lambda>a. cmp a u < 0) vs)"
proof -
  obtain es q where es: "all_parse es" "vs = db_view cmp s es" "at (di_iter d) es q" "dbi_ok s d" using dbi_source [OF assms(1)] by blast
  let ?K = "InternalKey u s kValueTypeForSeek"
  define p where "p = cut_pos (\<lambda>a. InternalKey_Compare cmp a ?K < 0) es"
  have so: "sorted_entries ivalid (InternalKey_Compare cmp) es" using inner.at_sorted es(3) by blast
  have vK: "ivalid ?K" using seek_valid assms(2) .
  obtain i where i: "io_Seek ops ?K (di_iter d) = Some i" "at i es p" using inner.at_seek [OF es(3) vK] unfolding p_def by blast
  have p: "p \<le> length es" unfolding p_def by (rule cut_le)
  have cut: "l < p \<longleftrightarrow> InternalKey_Compare cmp (fst (es ! l)) ?K < 0" if "l < length es" for l
    using inner.cut_iff [OF so inner.down_less [OF vK] that] unfolding p_def by simp
  have before: "cmp (entry_user_key (es ! l)) u < 0" if l: "l < p" "entry_visible s (es ! l)" for l
  proof -
    obtain ik where ik: "ParseInternalKey (fst (es ! l)) = Some ik" "sequence ik \<le> s" using l(2) by (auto simp: entry_visible_def split: option.splits)
    have "internal_tag (fst (es ! l)) \<le> internal_tag ?K"
      using ParseInternalKey_tag [OF ik(1)] Pack_seek_le_iff [OF sequence_small] ik(2) by simp
    then show ?thesis using cut [of l] l(1) p by (auto simp: ikey_less_iff entry_user_key_def)
  qed
  have after: "0 \<le> cmp (entry_user_key (es ! l)) u" if "p \<le> l" "l < length es" for l
    using cut [OF that(2)] that(1) by (force simp: ikey_less_iff entry_user_key_def)
  have pos: "cut_pos (\<lambda>a. cmp a u < 0) vs = view_pos cmp s es p"
  proof (rule cut_posI)
    show "view_pos cmp s es p \<le> length vs" using view_pos_le [OF p] es(2) by simp
    show "\<forall>i<view_pos cmp s es p. cmp (fst (vs ! i)) u < 0"
    proof (intro allI impI)
      fix i assume a: "i < view_pos cmp s es p"
      then obtain m where m: "m < length es" "shown cmp s es m" "view_pos cmp s es m = i"
        using view_nth_source [of i cmp s es] view_pos_le [OF p, of cmp s] by auto
      then have "m < p" using a view_pos_mono [of p m cmp s es] by linarith
      then show "cmp (fst (vs ! i)) u < 0" using before m view_nth [OF m(2,1)] es(2) by (simp add: shown_def)
    qed
    show "view_pos cmp s es p < length vs \<longrightarrow> \<not> cmp (fst (vs ! view_pos cmp s es p)) u < 0"
    proof
      assume "view_pos cmp s es p < length vs"
      then obtain m where m: "m < length es" "shown cmp s es m" "view_pos cmp s es m = view_pos cmp s es p"
        using view_nth_source [of "view_pos cmp s es p" cmp s es] es(2) by auto
      have "p \<le> m" using view_pos_mono [of "Suc m" p cmp s es] view_pos_Suc [of cmp s es m] m(2,3) by (cases "p \<le> m") (simp_all add: Suc_le_eq not_le)
      then show "\<not> cmp (fst (vs ! view_pos cmp s es p)) u < 0" using after m(1) view_nth [OF m(2,1)] es(2) m(3) by (simp add: not_less)
    qed
  qed
  let ?d = "d \<lparr> di_direction := kForward, di_saved_value := [], di_saved_key := ?K, di_iter := i \<rparr>"
  have ok: "dbi_ok s ?d" using es(4) by (simp add: dbi_ok_def)
  have sk: "DBIter_Seek ops cmp u d = (if p < length es then FindNextUserEntry ops cmp False ?d else Some (?d \<lparr> di_valid := False \<rparr>))"
    using i es(4) inner.at_valid [OF i(2)] by (simp add: DBIter_Seek_def iter_move_def InternalKey_def dbi_ok_def)
  show ?thesis
  proof (cases "p < length es")
    case True
    have "next_entry cmp s es p None l \<longleftrightarrow> shown cmp s es l \<and> p \<le> l" if "p \<le> l" "l < length es" for l
    proof -
      have "cmp (entry_user_key (es ! k)) (entry_user_key (es ! l)) \<noteq> 0" if "k < p" "entry_visible s (es ! k)" for k
        using before [OF that] after [OF \<open>p \<le> l\<close> \<open>l < length es\<close>] cmp_flip_le cmp_less_le_trans by (metis less_irrefl)
      then show ?thesis using next_entry_shown [of p es l] that(1) by blast
    qed
    then show ?thesis using dbi_forward [of ?d es p False p] i(2) True es(1) ok p pos sk es(2) by simp
  next
    case False
    then have "p = length es" using p by simp
    then show ?thesis using sk False pos ok i(2) es(1,2) view_pos_length unfolding dbi_at_def by (auto simp: dbi_ok_def)
  qed
qed

lemma dbi_first:
  assumes "dbi_at cmp at s d vs j"
  shows "\<exists>d'. DBIter_SeekToFirst ops cmp d = Some d' \<and> dbi_at cmp at s d' vs 0"
proof -
  obtain es q where es: "all_parse es" "vs = db_view cmp s es" "at (di_iter d) es q" "dbi_ok s d" using dbi_source [OF assms(1)] by blast
  obtain i where i: "io_SeekToFirst ops (di_iter d) = Some i" "at i es 0" using inner.at_first [OF es(3)] by blast
  let ?d = "d \<lparr> di_direction := kForward, di_saved_value := [], di_iter := i \<rparr>"
  have ok: "dbi_ok s ?d" using es(4) by (simp add: dbi_ok_def)
  have sk: "DBIter_SeekToFirst ops cmp d = (if 0 < length es then FindNextUserEntry ops cmp False ?d else Some (?d \<lparr> di_valid := False \<rparr>))"
    using i es(4) inner.at_valid [OF i(2)] by (simp add: DBIter_SeekToFirst_def iter_move_def)
  show ?thesis
  proof (cases "es = []")
    case False
    then show ?thesis using dbi_forward [of ?d es 0 False 0] i(2) es(1) ok sk es(2) next_entry_shown [of 0 es] by (simp add: view_pos_def)
  next
    case True
    then have "db_view cmp s es = []" by (simp add: db_view_def)
    then show ?thesis using True sk ok i(2) es(1,2) unfolding dbi_at_def by (intro exI [of _ "?d \<lparr> di_valid := False \<rparr>"]) (auto simp: dbi_ok_def intro!: exI [of _ es])
  qed
qed

lemma dbi_last:
  assumes "dbi_at cmp at s d vs j"
  shows "\<exists>d'. DBIter_SeekToLast ops cmp d = Some d' \<and> dbi_at cmp at s d' vs (step_back (length vs) (length vs))"
proof -
  obtain es q where es: "all_parse es" "vs = db_view cmp s es" "at (di_iter d) es q" "dbi_ok s d" using dbi_source [OF assms(1)] by blast
  obtain i where i: "io_SeekToLast ops (di_iter d) = Some i" "at i es (step_back (length es) (length es))" using inner.at_last [OF es(3)] by blast
  let ?d = "d \<lparr> di_direction := kReverse, di_saved_value := [], di_iter := i \<rparr>"
  have ok: "dbi_ok s ?d" using es(4) by (simp add: dbi_ok_def)
  show ?thesis using dbi_backward [of ?d es "length es"] i es(1,2) ok by (simp add: DBIter_SeekToLast_def iter_move_def view_pos_length)
qed

lemma dbi_cursor: "cursor uvalid cmp (db_iter_ops ops cmp) (dbi_at cmp at s)"
proof (intro cursor.intro cursor_axioms.intro)
  show "key_order uvalid cmp" using key_order_restrict [OF key_order_axioms] by simp
  fix d vs j
  assume a: "dbi_at cmp at s d vs j"
  obtain es q where es: "vs = db_view cmp s es" "at (di_iter d) es q" "dbi_ok s d" using dbi_source [OF a] by blast
  show "sorted_entries uvalid cmp vs" using view_sorted inner.at_sorted [OF es(2)] es(1) by simp
  show "j \<le> length vs" "io_Valid (db_iter_ops ops cmp) d \<longleftrightarrow> j < length vs"
    using dbi_position [OF a] by (simp_all add: db_iter_ops_def)
  show "io_status (db_iter_ops ops cmp) d = Status_OK"
    using es(3) inner.at_status [OF es(2)] by (simp add: db_iter_ops_def DBIter_status_def dbi_ok_def)
  show "\<exists>d'. io_SeekToFirst (db_iter_ops ops cmp) d = Some d' \<and> dbi_at cmp at s d' vs 0" using dbi_first [OF a] by (simp add: db_iter_ops_def)
  show "\<exists>d'. io_SeekToLast (db_iter_ops ops cmp) d = Some d' \<and> dbi_at cmp at s d' vs (step_back (length vs) (length vs))"
    using dbi_last [OF a] by (simp add: db_iter_ops_def)
  show "\<exists>d'. io_Seek (db_iter_ops ops cmp) k d = Some d' \<and> dbi_at cmp at s d' vs (cut_pos (\<lambda>a. cmp a k < 0) vs)" if "uvalid k" for k
    using dbi_seek [OF a that] by (simp add: db_iter_ops_def)
  assume j: "j < length vs"
  show "io_key (db_iter_ops ops cmp) d = fst (vs ! j)" "io_value (db_iter_ops ops cmp) d = snd (vs ! j)"
    using dbi_position [OF a] j by (simp_all add: db_iter_ops_def)
  show "\<exists>d'. io_Next (db_iter_ops ops cmp) d = Some d' \<and> dbi_at cmp at s d' vs (Suc j)" using dbi_next [OF a j] by (simp add: db_iter_ops_def)
  show "\<exists>d'. io_Prev (db_iter_ops ops cmp) d = Some d' \<and> dbi_at cmp at s d' vs (step_back (length vs) j)"
    using dbi_prev [OF a j] by (simp add: db_iter_ops_def)
qed

lemma dbi_new: "at i es p \<Longrightarrow> all_parse es \<Longrightarrow> dbi_at cmp at s (NewDBIterator i s seed) (db_view cmp s es) (length (db_view cmp s es))"
proof -
  assume a: "at i es p" "all_parse es"
  have "seed_ok (Random_Next (Random_new seed))" using Random_Next_mod Random_new_bounds by blast
  then show ?thesis using a unfolding dbi_at_def by (auto simp: NewDBIterator_def RandomPeriod_eq dbi_ok_def)
qed

end

interpretation mem_db: db_source Bytewise_Compare Bytewise_FindShortestSeparator Bytewise_FindShortSuccessor valid_mkey
    "memiter_ops Bytewise_Compare m" "mem_at Bytewise_Compare m" "\<lambda>u. length u + 8 < 2 ^ 32" kMaxSequenceNumber for m
  by unfold_locales
    (auto simp: valid_mkey_def valid_ikey_def ExtractUserKey_def kMaxSequenceNumber_def)

interpretation block_db: db_source Bytewise_Compare Bytewise_FindShortestSeparator Bytewise_FindShortSuccessor valid_ikey
    "block_ops (InternalKey_Compare Bytewise_Compare)" "block_at valid_ikey (InternalKey_Compare Bytewise_Compare)" "\<lambda>_. True" kMaxSequenceNumber
  by (intro db_source.intro db_source_axioms.intro ubytewise.user_comparator_axioms block_cursor ubytewise.ikey_key_order)
    (auto simp: valid_ikey_def kMaxSequenceNumber_def)

subsection \<open>Properties\<close>

text \<open>C19. The sampling loop of \<open>ParseKey\<close> ends: from a seed of the generator it stops after at most \<open>2 n + 1\<close> rounds when
  the byte counter is \<open>n\<close> below zero, records the key once per round, and leaves a counter that is not negative. A
  round may add nothing to the counter, but never two in a row.\<close>

theorem sampling_terminates:
  assumes "1 \<le> unat rnd" "unat rnd < 2147483647"
  shows "\<exists>rnd' counter' n. sample_loop k rnd counter samples = Some (rnd', counter', samples @ replicate n k) \<and>
    1 \<le> unat rnd' \<and> unat rnd' < 2147483647 \<and> 0 \<le> counter' \<and> n \<le> (if counter < 0 then 2 * nat (- counter) + 1 else 0)"
proof -
  have "seed_ok rnd" using assms by blast
  then obtain rnd' c' m where "sample_loop k rnd counter samples = Some (rnd', c', samples @ replicate m k)" "seed_ok rnd'" "0 \<le> c'"
      "m \<le> (if counter < 0 then 2 * nat (- counter) + (if 2097152 dvd unat rnd then 0 else 1) else 0)"
    using sample_loop_ends by blast
  then show ?thesis by (intro exI [of _ rnd'] exI [of _ c'] exI [of _ m]) (auto split: if_splits)
qed

theorem sampling_terminates_witness:
  "\<exists>rnd' counter' n. sample_loop [7] 1 (- 5) [] = Some (rnd', counter', replicate n [7]) \<and> 0 \<le> counter' \<and> n \<le> 11"
proof -
  obtain rnd' counter' n where "sample_loop [7] 1 (- 5) [] = Some (rnd', counter', [] @ replicate n [7])" "0 \<le> counter'" "n \<le> 2 * nat (- (- 5)) + 1"
    using sampling_terminates [of 1 "[7]" "- 5" "[]"] by auto
  then show ?thesis by (intro exI [of _ rnd'] exI [of _ counter'] exI [of _ n]) simp
qed

text \<open>C3. A database iterator is an iterator over what is visible at its sequence number. Over any iterator that keeps the
  contract on internal keys, it keeps the contract on user keys in every state: its list holds, in the order of the
  application's comparator, each user key whose newest entry at or below the sequence number is a value, with that
  value. Seeks and moves in both directions, with every change of direction, stand where the same moves stand in
  that list, and never fail.\<close>

theorem db_iterator_is_cursor:
  assumes "user_comparator cmp sep succ" "cursor ivalid (InternalKey_Compare cmp) ops at" "s \<le> kMaxSequenceNumber"
    "\<forall>u. uvalid u \<longrightarrow> ivalid (InternalKey u s kValueTypeForSeek)" "\<forall>k. ivalid k \<longrightarrow> uvalid (ExtractUserKey k)"
    "at i es p" "all_parse es" "uvalid target"
  shows "cursor uvalid cmp (db_iter_ops ops cmp) (dbi_at cmp at s) \<and>
    dbi_at cmp at s (NewDBIterator i s seed) (db_view cmp s es) (length (db_view cmp s es)) \<and>
    Option.bind (DBIter_SeekToFirst ops cmp (NewDBIterator i s seed)) (iter_scan (db_iter_ops ops cmp) (DBIter_Next ops cmp)) = Some (db_view cmp s es) \<and>
    Option.bind (DBIter_SeekToLast ops cmp (NewDBIterator i s seed)) (iter_scan (db_iter_ops ops cmp) (DBIter_Prev ops cmp)) = Some (rev (db_view cmp s es)) \<and>
    Option.bind (DBIter_Seek ops cmp target (NewDBIterator i s seed)) (iter_scan (db_iter_ops ops cmp) (DBIter_Next ops cmp)) =
      Some (dropWhile (\<lambda>e. cmp (fst e) target < 0) (db_view cmp s es))"
proof -
  have src: "db_source cmp sep succ ivalid ops at uvalid s"
    using assms(1-5) by (intro db_source.intro db_source_axioms.intro) (auto simp: kMaxSequenceNumber_unat)
  note c = db_source.dbi_cursor [OF src] and n = db_source.dbi_new [OF src assms(6,7), of seed]
  show ?thesis using c n cursor.scans [OF c n assms(8)] by (simp add: db_iter_ops_def)
qed

theorem db_iterator_is_cursor_witness:
  "\<exists>i. Block_NewIterator (built_block 1 [(InternalKey [7] 2 kTypeDeletion, []), (InternalKey [7] 1 kTypeValue, [8]), (InternalKey [9] 1 kTypeValue, [3])]) = Inr i \<and>
    Option.bind (DBIter_SeekToLast (block_ops (InternalKey_Compare Bytewise_Compare)) Bytewise_Compare (NewDBIterator i 1 301))
      (iter_scan (db_iter_ops (block_ops (InternalKey_Compare Bytewise_Compare)) Bytewise_Compare)
        (DBIter_Prev (block_ops (InternalKey_Compare Bytewise_Compare)) Bytewise_Compare)) = Some [([9], [3]), ([7], [8])] \<and>
    Option.bind (DBIter_SeekToFirst (block_ops (InternalKey_Compare Bytewise_Compare)) Bytewise_Compare (NewDBIterator i 2 301))
      (iter_scan (db_iter_ops (block_ops (InternalKey_Compare Bytewise_Compare)) Bytewise_Compare)
        (DBIter_Next (block_ops (InternalKey_Compare Bytewise_Compare)) Bytewise_Compare)) = Some [([9], [3])]"
proof -
  let ?c = "InternalKey_Compare Bytewise_Compare"
  let ?es = "[(InternalKey [7] 2 kTypeDeletion, []), (InternalKey [7] 1 kTypeValue, [8]), (InternalKey [9] 1 kTypeValue, [3])] :: entries"
  have so: "sorted_entries valid_ikey ?c ?es"
    by (simp add: sorted_entries_def ubytewise.ikey_less_iff Bytewise_Compare_def valid_ikey_def PackSequenceAndType_def)
  have l: "length (built_block 1 ?es) < 2 ^ 32"
    by (simp add: built_block_bytes built_restarts_def built_entry_def entry_bytes_def built_shared_def EncodeVarint32_def upt_rec)
  obtain i where i: "Block_NewIterator (built_block 1 ?es) = Inr i" "block_at valid_ikey ?c i ?es (length ?es)"
    using built_block_at [OF _ l ubytewise.ikey_key_order so] by auto
  have P: "ParseInternalKey (InternalKey u q t) = Some \<lparr> user_key = u, sequence = q, value_type = t \<rparr>" if "unat q < 2 ^ 56" for u q t
    using ParseInternalKey_append [of "\<lparr> user_key = u, sequence = q, value_type = t \<rparr>"] that by (simp add: InternalKey_def)
  have ap: "all_parse ?es" by (simp add: all_parse_def P)
  note vs = db_view_def shown_def entry_visible_def entry_is_value_def entry_user_key_def P Bytewise_Compare_def upt_rec nth_Cons' word_le_nat_alt
  have v: "db_view Bytewise_Compare 1 ?es = [([7], [8]), ([9], [3])]" "db_view Bytewise_Compare 2 ?es = [([9], [3])]"
    by (auto simp: vs less_Suc_eq)
  have sm: "(1 :: uint64) \<le> kMaxSequenceNumber" "(2 :: uint64) \<le> kMaxSequenceNumber" by (simp_all add: kMaxSequenceNumber_unat)
  have sv: "\<forall>u. True \<longrightarrow> valid_ikey (InternalKey u q kValueTypeForSeek)" "\<forall>k. valid_ikey k \<longrightarrow> True" for q by (simp_all add: valid_ikey_def)
  note th = db_iterator_is_cursor [OF ubytewise.user_comparator_axioms block_db.inner.cursor_axioms _ sv i(2) ap TrueI, of _ 301]
  show ?thesis using i(1) th [OF sm(1)] th [OF sm(2)] by (simp add: v)
qed

end
