(* ===== verification/VersionEdit.thy ===== *)
theory VersionEdit
  imports Dbformat Logging
begin

text \<open>
  Version edits, \<open>db/version_edit.cc\<close> and \<open>.h\<close>: the records of the MANIFEST. Levels are naturals
  (the code never stores a negative one), \<open>deleted_files_\<close>, a \<open>std::set\<close> of pairs, is the increasing
  list its iteration gives, and internal keys are their encodings.
\<close>

record FileMetaData =
  fm_refs :: int
  fm_allowed_seeks :: int
  fm_number :: uint64
  fm_file_size :: uint64
  fm_smallest :: slice
  fm_largest :: slice

definition FileMetaData_new :: FileMetaData where
  "FileMetaData_new = \<lparr> fm_refs = 0, fm_allowed_seeks = 2 ^ 30, fm_number = 0, fm_file_size = 0,
     fm_smallest = [], fm_largest = [] \<rparr>"

record VersionEdit =
  comparator :: slice
  log_number :: uint64
  prev_log_number :: uint64
  next_file_number :: uint64
  last_sequence :: uint64
  has_comparator :: bool
  has_log_number :: bool
  has_prev_log_number :: bool
  has_next_file_number :: bool
  has_last_sequence :: bool
  compact_pointers :: "(nat \<times> slice) list"
  deleted_files :: "(nat \<times> uint64) list"
  new_files :: "(nat \<times> FileMetaData) list"

text \<open>\<open>Clear\<close> assigns every field but \<open>compact_pointers_\<close>; the constructor starts from empty vectors.\<close>

definition VersionEdit_Clear :: "VersionEdit \<Rightarrow> VersionEdit" where
  "VersionEdit_Clear e = e \<lparr> comparator := [], log_number := 0, prev_log_number := 0, last_sequence := 0,
     next_file_number := 0, has_comparator := False, has_log_number := False, has_prev_log_number := False,
     has_next_file_number := False, has_last_sequence := False, deleted_files := [], new_files := [] \<rparr>"

definition VersionEdit_new :: VersionEdit where
  "VersionEdit_new = \<lparr> comparator = [], log_number = 0, prev_log_number = 0, next_file_number = 0,
     last_sequence = 0, has_comparator = False, has_log_number = False, has_prev_log_number = False,
     has_next_file_number = False, has_last_sequence = False, compact_pointers = [], deleted_files = [],
     new_files = [] \<rparr>"

definition SetComparatorName :: "VersionEdit \<Rightarrow> slice \<Rightarrow> VersionEdit" where
  "SetComparatorName e name = e \<lparr> has_comparator := True, comparator := name \<rparr>"

definition SetLogNumber :: "VersionEdit \<Rightarrow> uint64 \<Rightarrow> VersionEdit" where
  "SetLogNumber e num = e \<lparr> has_log_number := True, log_number := num \<rparr>"

definition SetPrevLogNumber :: "VersionEdit \<Rightarrow> uint64 \<Rightarrow> VersionEdit" where
  "SetPrevLogNumber e num = e \<lparr> has_prev_log_number := True, prev_log_number := num \<rparr>"

definition SetNextFile :: "VersionEdit \<Rightarrow> uint64 \<Rightarrow> VersionEdit" where
  "SetNextFile e num = e \<lparr> has_next_file_number := True, next_file_number := num \<rparr>"

definition SetLastSequence :: "VersionEdit \<Rightarrow> uint64 \<Rightarrow> VersionEdit" where
  "SetLastSequence e num = e \<lparr> has_last_sequence := True, last_sequence := num \<rparr>"

definition SetCompactPointer :: "VersionEdit \<Rightarrow> nat \<Rightarrow> slice \<Rightarrow> VersionEdit" where
  "SetCompactPointer e level key = e \<lparr> compact_pointers := compact_pointers e @ [(level, key)] \<rparr>"

definition AddFile :: "VersionEdit \<Rightarrow> nat \<Rightarrow> uint64 \<Rightarrow> uint64 \<Rightarrow> slice \<Rightarrow> slice \<Rightarrow> VersionEdit" where
  "AddFile e level file file_size smallest largest =
     e \<lparr> new_files := new_files e @
       [(level, FileMetaData_new \<lparr> fm_number := file, fm_file_size := file_size, fm_smallest := smallest, fm_largest := largest \<rparr>)] \<rparr>"

definition pair_less :: "nat \<times> uint64 \<Rightarrow> nat \<times> uint64 \<Rightarrow> bool" where
  "pair_less a b \<longleftrightarrow> fst a < fst b \<or> fst a = fst b \<and> snd a < snd b"

fun set_insert :: "nat \<times> uint64 \<Rightarrow> (nat \<times> uint64) list \<Rightarrow> (nat \<times> uint64) list" where
  "set_insert x [] = [x]"
| "set_insert x (y # ys) = (if x = y then y # ys else if pair_less x y then x # y # ys else y # set_insert x ys)"

definition VersionEdit_DeleteFile :: "VersionEdit \<Rightarrow> nat \<Rightarrow> uint64 \<Rightarrow> VersionEdit" where
  "VersionEdit_DeleteFile e level file = e \<lparr> deleted_files := set_insert (level, file) (deleted_files e) \<rparr>"

subsection \<open>Serialisation\<close>

definition kComparator :: uint32 where "kComparator = 1"
definition kLogNumber :: uint32 where "kLogNumber = 2"
definition kNextFileNumber :: uint32 where "kNextFileNumber = 3"
definition kLastSequence :: uint32 where "kLastSequence = 4"
definition kCompactPointer :: uint32 where "kCompactPointer = 5"
definition kDeletedFile :: uint32 where "kDeletedFile = 6"
definition kNewFile :: uint32 where "kNewFile = 7"
definition kPrevLogNumber :: uint32 where "kPrevLogNumber = 9"

definition EncodeTo :: "VersionEdit \<Rightarrow> slice \<Rightarrow> slice" where
  "EncodeTo e dst =
     (let d1 = (if has_comparator e then PutLengthPrefixedSlice (PutVarint32 dst kComparator) (comparator e) else dst);
          d2 = (if has_log_number e then PutVarint64 (PutVarint32 d1 kLogNumber) (log_number e) else d1);
          d3 = (if has_prev_log_number e then PutVarint64 (PutVarint32 d2 kPrevLogNumber) (prev_log_number e) else d2);
          d4 = (if has_next_file_number e then PutVarint64 (PutVarint32 d3 kNextFileNumber) (next_file_number e) else d3);
          d5 = (if has_last_sequence e then PutVarint64 (PutVarint32 d4 kLastSequence) (last_sequence e) else d4);
          d6 = fold (\<lambda>(level, key) d.
                 PutLengthPrefixedSlice (PutVarint32 (PutVarint32 d kCompactPointer) (word_of_nat level)) key)
                 (compact_pointers e) d5;
          d7 = fold (\<lambda>(level, number) d. PutVarint64 (PutVarint32 (PutVarint32 d kDeletedFile) (word_of_nat level)) number)
                 (deleted_files e) d6
      in fold (\<lambda>(level, f) d.
           PutLengthPrefixedSlice
             (PutLengthPrefixedSlice
                (PutVarint64
                   (PutVarint64 (PutVarint32 (PutVarint32 d kNewFile) (word_of_nat level)) (fm_number f))
                   (fm_file_size f))
                (fm_smallest f))
             (fm_largest f))
           (new_files e) d7)"

definition GetInternalKey :: "slice \<Rightarrow> (slice \<times> slice) option" where
  "GetInternalKey input = GetLengthPrefixedSlice input"

definition GetLevel :: "slice \<Rightarrow> (nat \<times> slice) option" where
  "GetLevel input = (case GetVarint32 input of
     Some (v, rest) \<Rightarrow> if v < word_of_nat kNumLevels then Some (unat v, rest) else None
   | None \<Rightarrow> None)"

text \<open>One pass through the switch of \<open>DecodeFrom\<close>: the edit and the input behind the field, or \<open>msg\<close>.\<close>

definition Decode_field :: "uint32 \<Rightarrow> slice \<Rightarrow> VersionEdit \<Rightarrow> slice + VersionEdit \<times> slice" where
  "Decode_field tag input e =
     (if tag = kComparator then
        (case GetLengthPrefixedSlice input of
           Some (s, r) \<Rightarrow> Inr (e \<lparr> comparator := s, has_comparator := True \<rparr>, r)
         | None \<Rightarrow> Inl (str ''comparator name''))
      else if tag = kLogNumber then
        (case GetVarint64 input of
           Some (n, r) \<Rightarrow> Inr (e \<lparr> log_number := n, has_log_number := True \<rparr>, r)
         | None \<Rightarrow> Inl (str ''log number''))
      else if tag = kPrevLogNumber then
        (case GetVarint64 input of
           Some (n, r) \<Rightarrow> Inr (e \<lparr> prev_log_number := n, has_prev_log_number := True \<rparr>, r)
         | None \<Rightarrow> Inl (str ''previous log number''))
      else if tag = kNextFileNumber then
        (case GetVarint64 input of
           Some (n, r) \<Rightarrow> Inr (e \<lparr> next_file_number := n, has_next_file_number := True \<rparr>, r)
         | None \<Rightarrow> Inl (str ''next file number''))
      else if tag = kLastSequence then
        (case GetVarint64 input of
           Some (n, r) \<Rightarrow> Inr (e \<lparr> last_sequence := n, has_last_sequence := True \<rparr>, r)
         | None \<Rightarrow> Inl (str ''last sequence number''))
      else if tag = kCompactPointer then
        (case GetLevel input of
           Some (level, r1) \<Rightarrow>
             (case GetInternalKey r1 of
                Some (key, r2) \<Rightarrow> Inr (e \<lparr> compact_pointers := compact_pointers e @ [(level, key)] \<rparr>, r2)
              | None \<Rightarrow> Inl (str ''compaction pointer''))
         | None \<Rightarrow> Inl (str ''compaction pointer''))
      else if tag = kDeletedFile then
        (case GetLevel input of
           Some (level, r1) \<Rightarrow>
             (case GetVarint64 r1 of
                Some (number, r2) \<Rightarrow> Inr (e \<lparr> deleted_files := set_insert (level, number) (deleted_files e) \<rparr>, r2)
              | None \<Rightarrow> Inl (str ''deleted file''))
         | None \<Rightarrow> Inl (str ''deleted file''))
      else if tag = kNewFile then
        (case GetLevel input of
           Some (level, r1) \<Rightarrow>
             (case GetVarint64 r1 of
                Some (number, r2) \<Rightarrow>
                  (case GetVarint64 r2 of
                     Some (file_size, r3) \<Rightarrow>
                       (case GetInternalKey r3 of
                          Some (smallest, r4) \<Rightarrow>
                            (case GetInternalKey r4 of
                               Some (largest, r5) \<Rightarrow>
                                 Inr (e \<lparr> new_files := new_files e @
                                   [(level, FileMetaData_new \<lparr> fm_number := number, fm_file_size := file_size,
                                       fm_smallest := smallest, fm_largest := largest \<rparr>)] \<rparr>, r5)
                             | None \<Rightarrow> Inl (str ''new-file entry''))
                        | None \<Rightarrow> Inl (str ''new-file entry''))
                   | None \<Rightarrow> Inl (str ''new-file entry''))
              | None \<Rightarrow> Inl (str ''new-file entry''))
         | None \<Rightarrow> Inl (str ''new-file entry''))
      else Inl (str ''unknown tag''))"

subsection \<open>Decoding\<close>


lemma GetLevel_shorter: "GetLevel p = Some (l, q) \<Longrightarrow> length q < length p"
  by (auto simp: GetLevel_def split: option.splits if_splits dest: varint32.dec_shorter)

lemma GetInternalKey_shorter: "GetInternalKey p = Some (l, q) \<Longrightarrow> length q < length p"
  by (simp add: GetInternalKey_def lpslice.dec_shorter)

lemmas field_shorter = GetLevel_shorter GetInternalKey_shorter varint32.dec_shorter varint64.dec_shorter lpslice.dec_shorter

lemma Decode_field_shorter:
  assumes "Decode_field tag input e = Inr (e', r)"
  shows "length r < length input"
  using assms unfolding Decode_field_def
  by (auto split: if_splits option.splits prod.splits dest!: field_shorter)

function DecodeFrom_loop :: "slice \<Rightarrow> VersionEdit \<Rightarrow> VersionEdit \<times> slice option" where
  "DecodeFrom_loop input e =
     (case GetVarint32 input of
        None \<Rightarrow> (e, if input \<noteq> [] then Some (str ''invalid tag'') else None)
      | Some (tag, input1) \<Rightarrow>
          (case Decode_field tag input1 e of
             Inl msg \<Rightarrow> (e, Some msg)
           | Inr (e1, input2) \<Rightarrow> DecodeFrom_loop input2 e1))"
  by pat_completeness auto
termination
  by (relation "measure (\<lambda>(input, _). length input)")
    (auto dest!: varint32.dec_shorter Decode_field_shorter)

declare DecodeFrom_loop.simps [simp del]

definition DecodeFrom :: "VersionEdit \<Rightarrow> slice \<Rightarrow> VersionEdit \<times> status" where
  "DecodeFrom e src =
     (case DecodeFrom_loop src (VersionEdit_Clear e) of
        (e1, None) \<Rightarrow> (e1, Status_OK)
      | (e1, Some msg) \<Rightarrow> (e1, Status_Corruption (str ''VersionEdit'') msg))"

subsection \<open>Round trip\<close>


text \<open>An edit as the sequence of its fields.\<close>

datatype Field = FComparator slice | FLogNumber uint64 | FPrevLogNumber uint64 | FNextFile uint64 | FLastSequence uint64 |
  FCompactPointer nat slice | FDeletedFile nat uint64 | FNewFile nat FileMetaData

primrec field_bytes :: "Field \<Rightarrow> slice" where
  "field_bytes (FComparator n) = EncodeVarint32 kComparator @ PutLengthPrefixedSlice [] n"
| "field_bytes (FLogNumber n) = EncodeVarint32 kLogNumber @ EncodeVarint64 n"
| "field_bytes (FPrevLogNumber n) = EncodeVarint32 kPrevLogNumber @ EncodeVarint64 n"
| "field_bytes (FNextFile n) = EncodeVarint32 kNextFileNumber @ EncodeVarint64 n"
| "field_bytes (FLastSequence n) = EncodeVarint32 kLastSequence @ EncodeVarint64 n"
| "field_bytes (FCompactPointer l k) =
     EncodeVarint32 kCompactPointer @ EncodeVarint32 (word_of_nat l) @ PutLengthPrefixedSlice [] k"
| "field_bytes (FDeletedFile l n) = EncodeVarint32 kDeletedFile @ EncodeVarint32 (word_of_nat l) @ EncodeVarint64 n"
| "field_bytes (FNewFile l f) =
     EncodeVarint32 kNewFile @ EncodeVarint32 (word_of_nat l) @ EncodeVarint64 (fm_number f) @
     EncodeVarint64 (fm_file_size f) @ PutLengthPrefixedSlice [] (fm_smallest f) @ PutLengthPrefixedSlice [] (fm_largest f)"

primrec set_field :: "Field \<Rightarrow> VersionEdit \<Rightarrow> VersionEdit" where
  "set_field (FComparator n) e = SetComparatorName e n"
| "set_field (FLogNumber n) e = SetLogNumber e n"
| "set_field (FPrevLogNumber n) e = SetPrevLogNumber e n"
| "set_field (FNextFile n) e = SetNextFile e n"
| "set_field (FLastSequence n) e = SetLastSequence e n"
| "set_field (FCompactPointer l k) e = SetCompactPointer e l k"
| "set_field (FDeletedFile l n) e = VersionEdit_DeleteFile e l n"
| "set_field (FNewFile l f) e = AddFile e l (fm_number f) (fm_file_size f) (fm_smallest f) (fm_largest f)"

primrec field_ok :: "Field \<Rightarrow> bool" where
  "field_ok (FComparator n) = (length n < 2 ^ 32)"
| "field_ok (FLogNumber n) = True"
| "field_ok (FPrevLogNumber n) = True"
| "field_ok (FNextFile n) = True"
| "field_ok (FLastSequence n) = True"
| "field_ok (FCompactPointer l k) = (l < kNumLevels \<and> length k < 2 ^ 32)"
| "field_ok (FDeletedFile l n) = (l < kNumLevels)"
| "field_ok (FNewFile l f) = (l < kNumLevels \<and> length (fm_smallest f) < 2 ^ 32 \<and> length (fm_largest f) < 2 ^ 32)"

definition edit_fields :: "VersionEdit \<Rightarrow> Field list" where
  "edit_fields e =
     (if has_comparator e then [FComparator (comparator e)] else []) @
     (if has_log_number e then [FLogNumber (log_number e)] else []) @
     (if has_prev_log_number e then [FPrevLogNumber (prev_log_number e)] else []) @
     (if has_next_file_number e then [FNextFile (next_file_number e)] else []) @
     (if has_last_sequence e then [FLastSequence (last_sequence e)] else []) @
     map (\<lambda>(l, k). FCompactPointer l k) (compact_pointers e) @
     map (\<lambda>(l, n). FDeletedFile l n) (deleted_files e) @
     map (\<lambda>(l, f). FNewFile l f) (new_files e)"

lemma fold_puts: "fold (\<lambda>x d. d @ f x) xs d = d @ concat (map f xs)"
  by (induction xs arbitrary: d) simp_all

lemma Put_append: "PutVarint32 d v = d @ EncodeVarint32 v" "PutVarint64 d w = d @ EncodeVarint64 w"
  "PutLengthPrefixedSlice d s = d @ PutLengthPrefixedSlice [] s"
  by (simp_all add: PutVarint32_def PutVarint64_def PutLengthPrefixedSlice_def)

lemma EncodeTo_fields: "EncodeTo e dst = dst @ concat (map field_bytes (edit_fields e))"
proof -
  have 1: "(\<lambda>(level, key) d. PutLengthPrefixedSlice (PutVarint32 (PutVarint32 d kCompactPointer) (word_of_nat level)) key) =
      (\<lambda>x d. d @ (case x of (l, k) \<Rightarrow> field_bytes (FCompactPointer l k)))"
    by (auto simp: fun_eq_iff Put_append(1,2) Put_append(3) [of "_ @ _"])
  have 2: "(\<lambda>(level, number) d. PutVarint64 (PutVarint32 (PutVarint32 d kDeletedFile) (word_of_nat level)) number) =
      (\<lambda>x d. d @ (case x of (l, n) \<Rightarrow> field_bytes (FDeletedFile l n)))"
    by (auto simp: fun_eq_iff Put_append(1,2))
  have 3: "(\<lambda>(level, f) d. PutLengthPrefixedSlice (PutLengthPrefixedSlice (PutVarint64
        (PutVarint64 (PutVarint32 (PutVarint32 d kNewFile) (word_of_nat level)) (fm_number f)) (fm_file_size f))
        (fm_smallest f)) (fm_largest f)) =
      (\<lambda>x d. d @ (case x of (l, f) \<Rightarrow> field_bytes (FNewFile l f)))"
    by (auto simp: fun_eq_iff Put_append(1,2) Put_append(3) [of "_ @ _"])
  show ?thesis
    unfolding EncodeTo_def 1 2 3 fold_puts Let_def
    by (simp add: edit_fields_def Put_append(1,2) Put_append(3) [of "_ @ _"] comp_def case_prod_unfold)
qed

lemma GetLevel_Encode: "l < kNumLevels \<Longrightarrow> GetLevel (EncodeVarint32 (word_of_nat l) @ r) = Some (l, r)"
  by (simp add: GetLevel_def varint32.dec_enc kNumLevels_def word_less_nat_alt unat_word_of_nat)

lemmas tag_defs = kComparator_def kLogNumber_def kNextFileNumber_def kLastSequence_def kCompactPointer_def
  kDeletedFile_def kNewFile_def kPrevLogNumber_def

lemma Decode_one_field:
  assumes "field_ok x"
  shows "DecodeFrom_loop (field_bytes x @ rest) e = DecodeFrom_loop rest (set_field x e)"
  using assms
  by (cases x; cases e; subst DecodeFrom_loop.simps)
    (simp_all add: varint32.dec_enc varint64.dec_enc lpslice.dec_enc GetLevel_Encode GetInternalKey_def Decode_field_def
      tag_defs SetComparatorName_def SetLogNumber_def SetPrevLogNumber_def SetNextFile_def SetLastSequence_def
      SetCompactPointer_def VersionEdit_DeleteFile_def AddFile_def)

lemma Decode_fields:
  "\<forall>x\<in>set xs. field_ok x \<Longrightarrow> DecodeFrom_loop (concat (map field_bytes xs)) e = (fold set_field xs e, None)"
proof (induction xs arbitrary: e)
  case Nil
  have "GetVarint32 [] = None" by (simp add: GetVarint32_eq)
  then show ?case by (simp add: DecodeFrom_loop.simps)
qed (simp add: Decode_one_field)

text \<open>A serialised edit put back together: fields that were not set are as \<open>Clear\<close> leaves them.\<close>

definition edit_wf :: "VersionEdit \<Rightarrow> bool" where
  "edit_wf e \<longleftrightarrow>
     (\<forall>x\<in>set (edit_fields e). field_ok x) \<and> sorted_wrt pair_less (deleted_files e) \<and>
     (\<forall>(l, f)\<in>set (new_files e). fm_refs f = 0 \<and> fm_allowed_seeks f = 2 ^ 30) \<and>
     (\<not> has_comparator e \<longrightarrow> comparator e = []) \<and> (\<not> has_log_number e \<longrightarrow> log_number e = 0) \<and>
     (\<not> has_prev_log_number e \<longrightarrow> prev_log_number e = 0) \<and> (\<not> has_next_file_number e \<longrightarrow> next_file_number e = 0) \<and>
     (\<not> has_last_sequence e \<longrightarrow> last_sequence e = 0)"

lemma fold_compact: "fold set_field (map (\<lambda>(l, k). FCompactPointer l k) xs) e = e \<lparr> compact_pointers := compact_pointers e @ xs \<rparr>"
  by (induction xs arbitrary: e) (auto simp: SetCompactPointer_def)

lemma pair_less_trans: "pair_less a b \<Longrightarrow> pair_less b c \<Longrightarrow> pair_less a c"
  by (auto simp: pair_less_def)

lemma pair_less_irrefl: "\<not> pair_less a a"
  by (simp add: pair_less_def)

lemma set_insert_last: "\<forall>y\<in>set ys. pair_less y x \<Longrightarrow> set_insert x ys = ys @ [x]"
proof (induction ys)
  case (Cons y ys)
  then have "pair_less y x" by simp
  then have "x \<noteq> y" "\<not> pair_less x y" using pair_less_trans pair_less_irrefl by blast+
  then show ?case using Cons by simp
qed simp

lemma fold_deleted:
  assumes "sorted_wrt pair_less (deleted_files e @ xs)"
  shows "fold set_field (map (\<lambda>(l, n). FDeletedFile l n) xs) e = e \<lparr> deleted_files := deleted_files e @ xs \<rparr>"
  using assms
proof (induction xs arbitrary: e)
  case (Cons x xs)
  have "set_insert x (deleted_files e) = deleted_files e @ [x]"
    using Cons.prems by (intro set_insert_last) (simp add: sorted_wrt_append)
  then show ?case using Cons.IH [of "e \<lparr> deleted_files := deleted_files e @ [x] \<rparr>"] Cons.prems
    by (cases x) (simp add: VersionEdit_DeleteFile_def)
qed simp

lemma fold_new:
  assumes "\<forall>(l, f)\<in>set xs. fm_refs f = 0 \<and> fm_allowed_seeks f = 2 ^ 30"
  shows "fold set_field (map (\<lambda>(l, f). FNewFile l f) xs) e = e \<lparr> new_files := new_files e @ xs \<rparr>"
  using assms
proof (induction xs arbitrary: e)
  case (Cons x xs)
  obtain l f where x: "x = (l, f)" by force
  have "FileMetaData_new \<lparr> fm_number := fm_number f, fm_file_size := fm_file_size f, fm_smallest := fm_smallest f,
      fm_largest := fm_largest f \<rparr> = f"
    using Cons.prems x by (simp add: FileMetaData_new_def)
  then show ?case using Cons x by (simp add: AddFile_def)
qed simp

lemma fold_edit_fields:
  assumes "edit_wf e"
  shows "fold set_field (edit_fields e) (VersionEdit_Clear e0) = e \<lparr> compact_pointers := compact_pointers e0 @ compact_pointers e \<rparr>"
proof -
  define head where "head = (if has_comparator e then [FComparator (comparator e)] else []) @
     (if has_log_number e then [FLogNumber (log_number e)] else []) @
     (if has_prev_log_number e then [FPrevLogNumber (prev_log_number e)] else []) @
     (if has_next_file_number e then [FNextFile (next_file_number e)] else []) @
     (if has_last_sequence e then [FLastSequence (last_sequence e)] else [])"
  have head: "fold set_field head (VersionEdit_Clear e0) =
      e \<lparr> compact_pointers := compact_pointers e0, deleted_files := [], new_files := [] \<rparr>"
    using assms unfolding head_def
    by (cases e; cases e0)
      (auto simp: edit_wf_def VersionEdit_Clear_def SetComparatorName_def SetLogNumber_def SetPrevLogNumber_def
        SetNextFile_def SetLastSequence_def)
  have split: "edit_fields e = head @ map (\<lambda>(l, k). FCompactPointer l k) (compact_pointers e) @
     map (\<lambda>(l, n). FDeletedFile l n) (deleted_files e) @ map (\<lambda>(l, f). FNewFile l f) (new_files e)"
    by (simp add: edit_fields_def head_def)
  have "sorted_wrt pair_less (deleted_files e)" "\<forall>(l, f)\<in>set (new_files e). fm_refs f = 0 \<and> fm_allowed_seeks f = 2 ^ 30"
    using assms by (simp_all add: edit_wf_def)
  then show ?thesis
    unfolding split by (simp add: head fold_compact fold_deleted fold_new)
qed

lemma set_insert_set: "set (set_insert x ys) = insert x (set ys)"
  by (induction ys) auto

lemma pair_less_linear: "x \<noteq> y \<Longrightarrow> \<not> pair_less x y \<Longrightarrow> pair_less y x"
  by (cases x; cases y) (auto simp: pair_less_def)

lemma sorted_set_insert: "sorted_wrt pair_less ys \<Longrightarrow> sorted_wrt pair_less (set_insert x ys)"
proof (induction ys)
  case (Cons y ys)
  then show ?case
    using pair_less_linear [of x y] pair_less_trans [of x y] by (auto simp: set_insert_set)
qed simp

lemma edit_wf_set_field:
  assumes "edit_wf e" "field_ok x"
  shows "edit_wf (set_field x e)"
  using assms
  by (cases x)
    (auto simp: edit_wf_def edit_fields_def set_insert_set sorted_set_insert SetComparatorName_def SetLogNumber_def
      SetPrevLogNumber_def SetNextFile_def SetLastSequence_def SetCompactPointer_def VersionEdit_DeleteFile_def
      AddFile_def FileMetaData_new_def split: if_splits)

lemma edit_wf_fold: "edit_wf e \<Longrightarrow> \<forall>x\<in>set xs. field_ok x \<Longrightarrow> edit_wf (fold set_field xs e)"
  by (induction xs arbitrary: e) (simp_all add: edit_wf_set_field)

text \<open>C21. MANIFEST records round trip: an edit built with the setters, \<open>AddFile\<close>, \<open>DeleteFile\<close> and
  \<open>SetCompactPointer\<close> (levels below 7, strings below 4 GB) is decoded field by field to the same edit,
  into a fresh object; into a used object the compaction pointers of that object stay in front of the
  decoded ones, since \<open>Clear\<close> forgets them.\<close>

theorem version_edit_roundtrip:
  assumes "\<forall>x\<in>set xs. field_ok x" "e = fold set_field xs VersionEdit_new"
  shows "DecodeFrom VersionEdit_new (EncodeTo e []) = (e, Status_OK) \<and>
    DecodeFrom e0 (EncodeTo e []) = (e \<lparr> compact_pointers := compact_pointers e0 @ compact_pointers e \<rparr>, Status_OK)"
proof -
  have "edit_wf VersionEdit_new" by (simp add: edit_wf_def VersionEdit_new_def edit_fields_def)
  from edit_wf_fold [OF this assms(1)] have wf: "edit_wf e" using assms(2) by simp
  have "DecodeFrom d (EncodeTo e []) = (e \<lparr> compact_pointers := compact_pointers d @ compact_pointers e \<rparr>, Status_OK)" for d
    using wf Decode_fields [of "edit_fields e" "VersionEdit_Clear d"] fold_edit_fields [OF wf, of d]
    by (simp add: DecodeFrom_def EncodeTo_fields edit_wf_def)
  from this [of VersionEdit_new] this [of e0] show ?thesis by (simp add: VersionEdit_new_def)
qed

theorem version_edit_roundtrip_witness:
  "DecodeFrom VersionEdit_new (EncodeTo (AddFile (SetLogNumber VersionEdit_new 9) 2 7 100 [1] [2]) []) =
     (AddFile (SetLogNumber VersionEdit_new 9) 2 7 100 [1] [2], Status_OK)"
  using version_edit_roundtrip [THEN conjunct1, OF _ refl,
      of "[FLogNumber 9, FNewFile 2 (FileMetaData_new \<lparr> fm_number := 7, fm_file_size := 100, fm_smallest := [1], fm_largest := [2] \<rparr>)]"]
  by (simp add: kNumLevels_def)

subsection \<open>Printing\<close>

definition printf_d :: "int \<Rightarrow> slice" where
  "printf_d n = (if n < 0 then 45 # printf_llu (nat (- n)) else printf_llu (nat n))"

definition ParsedInternalKey_DebugString :: "slice \<Rightarrow> uint64 \<Rightarrow> int \<Rightarrow> slice" where
  "ParsedInternalKey_DebugString ukey seq type =
     [39] @ EscapeString ukey @ take 49 ([39] @ str '' @ '' @ printf_llu (unat seq) @ str '' : '' @ printf_d type)"

definition InternalKey_DebugString :: "slice \<Rightarrow> slice" where
  "InternalKey_DebugString rep =
     (case ParseInternalKey rep of
        Some p \<Rightarrow> ParsedInternalKey_DebugString (user_key p) (sequence p) (uint (ValueType_code (value_type p)))
      | None \<Rightarrow> str ''(bad)'' @ EscapeString rep)"

definition VersionEdit_DebugString :: "VersionEdit \<Rightarrow> slice" where
  "VersionEdit_DebugString e =
     (let nl = [10];
          r1 = str ''VersionEdit {'' @ (if has_comparator e then nl @ str ''  Comparator: '' @ comparator e else []);
          r2 = (if has_log_number e then AppendNumberTo (r1 @ nl @ str ''  LogNumber: '') (log_number e) else r1);
          r3 = (if has_prev_log_number e then AppendNumberTo (r2 @ nl @ str ''  PrevLogNumber: '') (prev_log_number e) else r2);
          r4 = (if has_next_file_number e then AppendNumberTo (r3 @ nl @ str ''  NextFile: '') (next_file_number e) else r3);
          r5 = (if has_last_sequence e then AppendNumberTo (r4 @ nl @ str ''  LastSeq: '') (last_sequence e) else r4);
          r6 = fold (\<lambda>(l, k) r. AppendNumberTo (r @ nl @ str ''  CompactPointer: '') (word_of_nat l) @ str '' '' @
                      InternalKey_DebugString k) (compact_pointers e) r5;
          r7 = fold (\<lambda>(l, n) r. AppendNumberTo (AppendNumberTo (r @ nl @ str ''  DeleteFile: '') (word_of_nat l) @ str '' '') n)
                 (deleted_files e) r6;
          r8 = fold (\<lambda>(l, f) r.
                 AppendNumberTo
                   (AppendNumberTo (AppendNumberTo (r @ nl @ str ''  AddFile: '') (word_of_nat l) @ str '' '') (fm_number f) @ str '' '')
                   (fm_file_size f) @ str '' '' @ InternalKey_DebugString (fm_smallest f) @ str '' .. '' @
                 InternalKey_DebugString (fm_largest f))
                 (new_files e) r7
      in r8 @ nl @ str ''}'' @ nl)"

end
