(* ===== verification/TwoLevel.thy ===== *)
theory TwoLevel
  imports Merger
begin

text \<open>
  The two-level iterator \<open>table/two_level_iterator.cc\<close>: an index iterator whose values are handles, and a function that
  makes the iterator of a handle's block. The function may change the state \<open>tl_arg\<close> its argument points to (the block
  cache of a table). The caching of the last block and the skipping of empty blocks are as in the code.
\<close>

subsection \<open>Operations\<close>

type_synonym ('d, 'c) block_function = "slice \<Rightarrow> 'c \<Rightarrow> ('d \<times> 'c) option"

record ('i, 'd, 'c) TwoLevelIterator =
  tl_arg :: 'c
  tl_status :: status
  tl_index :: "'i IteratorWrapper"
  tl_data :: "'d IteratorWrapper"
  tl_handle :: slice

definition NewTwoLevelIterator :: "'i iter_ops \<Rightarrow> 'i \<Rightarrow> 'c \<Rightarrow> ('i, 'd, 'c) TwoLevelIterator option" where
  "NewTwoLevelIterator iops index_iter arg =
     map_option (\<lambda>w. \<lparr> tl_arg = arg, tl_status = Status_OK, tl_index = w, tl_data = Wrapper_new, tl_handle = [] \<rparr>)
       (Wrapper_Set iops Wrapper_new (Some index_iter))"

definition TwoLevel_Valid :: "('i, 'd, 'c) TwoLevelIterator \<Rightarrow> bool" where "TwoLevel_Valid t = w_valid (tl_data t)"

definition TwoLevel_key :: "('i, 'd, 'c) TwoLevelIterator \<Rightarrow> slice" where "TwoLevel_key t = w_key (tl_data t)"

definition TwoLevel_value :: "'d iter_ops \<Rightarrow> ('i, 'd, 'c) TwoLevelIterator \<Rightarrow> slice option" where
  "TwoLevel_value dops t = Wrapper_value dops (tl_data t)"

definition TwoLevel_status :: "'i iter_ops \<Rightarrow> 'd iter_ops \<Rightarrow> ('i, 'd, 'c) TwoLevelIterator \<Rightarrow> status option" where
  "TwoLevel_status iops dops t =
     (case Wrapper_status iops (tl_index t) of
        None \<Rightarrow> None
      | Some s \<Rightarrow>
          if \<not> Status_ok s then Some s
          else (case Wrapper_status dops (tl_data t) of
                  None \<Rightarrow> Some (tl_status t)
                | Some s \<Rightarrow> if \<not> Status_ok s then Some s else Some (tl_status t)))"

definition SaveError :: "status \<Rightarrow> ('i, 'd, 'c) TwoLevelIterator \<Rightarrow> ('i, 'd, 'c) TwoLevelIterator" where
  "SaveError s t = (if Status_ok (tl_status t) \<and> \<not> Status_ok s then t \<lparr> tl_status := s \<rparr> else t)"

definition SetDataIterator :: "'d iter_ops \<Rightarrow> 'd option \<Rightarrow> ('i, 'd, 'c) TwoLevelIterator \<Rightarrow> ('i, 'd, 'c) TwoLevelIterator option" where
  "SetDataIterator dops data_iter t =
     (let t = (case Wrapper_status dops (tl_data t) of None \<Rightarrow> t | Some s \<Rightarrow> SaveError s t)
      in map_option (\<lambda>w. t \<lparr> tl_data := w \<rparr>) (Wrapper_Set dops (tl_data t) data_iter))"

definition InitDataBlock :: "'i iter_ops \<Rightarrow> 'd iter_ops \<Rightarrow> ('d, 'c) block_function \<Rightarrow> ('i, 'd, 'c) TwoLevelIterator \<Rightarrow>
    ('i, 'd, 'c) TwoLevelIterator option" where
  "InitDataBlock iops dops block_function t =
     (if \<not> w_valid (tl_index t) then SetDataIterator dops None t
      else case Wrapper_value iops (tl_index t) of
             None \<Rightarrow> None
           | Some hv \<Rightarrow>
               if w_iter (tl_data t) \<noteq> None \<and> Slice_compare hv (tl_handle t) = 0 then Some t
               else (case block_function hv (tl_arg t) of
                       None \<Rightarrow> None
                     | Some (iter, arg) \<Rightarrow> SetDataIterator dops (Some iter) (t \<lparr> tl_arg := arg, tl_handle := hv \<rparr>)))"

text \<open>\<open>if (data_iter_.iter() != NULL) data_iter_.Move()\<close>, and a move of the index.\<close>

definition data_move :: "'d iter_ops \<Rightarrow> ('d \<Rightarrow> 'd option) \<Rightarrow> ('i, 'd, 'c) TwoLevelIterator \<Rightarrow> ('i, 'd, 'c) TwoLevelIterator option" where
  "data_move dops f t = (if w_iter (tl_data t) \<noteq> None then map_option (\<lambda>w. t \<lparr> tl_data := w \<rparr>) (Wrapper_move dops f (tl_data t)) else Some t)"

definition index_move :: "'i iter_ops \<Rightarrow> ('i \<Rightarrow> 'i option) \<Rightarrow> ('i, 'd, 'c) TwoLevelIterator \<Rightarrow> ('i, 'd, 'c) TwoLevelIterator option" where
  "index_move iops f t = map_option (\<lambda>w. t \<lparr> tl_index := w \<rparr>) (Wrapper_move iops f (tl_index t))"

partial_function (option) SkipEmptyDataBlocksForward :: "'i iter_ops \<Rightarrow> 'd iter_ops \<Rightarrow> ('d, 'c) block_function \<Rightarrow>
    ('i, 'd, 'c) TwoLevelIterator \<Rightarrow> ('i, 'd, 'c) TwoLevelIterator option" where
  "SkipEmptyDataBlocksForward iops dops bf t =
     (if w_iter (tl_data t) = None \<or> \<not> w_valid (tl_data t) then
        if \<not> w_valid (tl_index t) then SetDataIterator dops None t
        else Option.bind (index_move iops (io_Next iops) t) (\<lambda>t. Option.bind (InitDataBlock iops dops bf t) (\<lambda>t.
               Option.bind (data_move dops (io_SeekToFirst dops) t) (SkipEmptyDataBlocksForward iops dops bf)))
      else Some t)"

partial_function (option) SkipEmptyDataBlocksBackward :: "'i iter_ops \<Rightarrow> 'd iter_ops \<Rightarrow> ('d, 'c) block_function \<Rightarrow>
    ('i, 'd, 'c) TwoLevelIterator \<Rightarrow> ('i, 'd, 'c) TwoLevelIterator option" where
  "SkipEmptyDataBlocksBackward iops dops bf t =
     (if w_iter (tl_data t) = None \<or> \<not> w_valid (tl_data t) then
        if \<not> w_valid (tl_index t) then SetDataIterator dops None t
        else Option.bind (index_move iops (io_Prev iops) t) (\<lambda>t. Option.bind (InitDataBlock iops dops bf t) (\<lambda>t.
               Option.bind (data_move dops (io_SeekToLast dops) t) (SkipEmptyDataBlocksBackward iops dops bf)))
      else Some t)"

definition TwoLevel_Seek :: "'i iter_ops \<Rightarrow> 'd iter_ops \<Rightarrow> ('d, 'c) block_function \<Rightarrow> slice \<Rightarrow>
    ('i, 'd, 'c) TwoLevelIterator \<Rightarrow> ('i, 'd, 'c) TwoLevelIterator option" where
  "TwoLevel_Seek iops dops bf target t =
     Option.bind (index_move iops (io_Seek iops target) t) (\<lambda>t. Option.bind (InitDataBlock iops dops bf t) (\<lambda>t.
       Option.bind (data_move dops (io_Seek dops target) t) (SkipEmptyDataBlocksForward iops dops bf)))"

definition TwoLevel_SeekToFirst :: "'i iter_ops \<Rightarrow> 'd iter_ops \<Rightarrow> ('d, 'c) block_function \<Rightarrow>
    ('i, 'd, 'c) TwoLevelIterator \<Rightarrow> ('i, 'd, 'c) TwoLevelIterator option" where
  "TwoLevel_SeekToFirst iops dops bf t =
     Option.bind (index_move iops (io_SeekToFirst iops) t) (\<lambda>t. Option.bind (InitDataBlock iops dops bf t) (\<lambda>t.
       Option.bind (data_move dops (io_SeekToFirst dops) t) (SkipEmptyDataBlocksForward iops dops bf)))"

definition TwoLevel_SeekToLast :: "'i iter_ops \<Rightarrow> 'd iter_ops \<Rightarrow> ('d, 'c) block_function \<Rightarrow>
    ('i, 'd, 'c) TwoLevelIterator \<Rightarrow> ('i, 'd, 'c) TwoLevelIterator option" where
  "TwoLevel_SeekToLast iops dops bf t =
     Option.bind (index_move iops (io_SeekToLast iops) t) (\<lambda>t. Option.bind (InitDataBlock iops dops bf t) (\<lambda>t.
       Option.bind (data_move dops (io_SeekToLast dops) t) (SkipEmptyDataBlocksBackward iops dops bf)))"

definition TwoLevel_Next :: "'i iter_ops \<Rightarrow> 'd iter_ops \<Rightarrow> ('d, 'c) block_function \<Rightarrow>
    ('i, 'd, 'c) TwoLevelIterator \<Rightarrow> ('i, 'd, 'c) TwoLevelIterator option" where
  "TwoLevel_Next iops dops bf t =
     Option.bind (Wrapper_Next dops (tl_data t)) (\<lambda>w. SkipEmptyDataBlocksForward iops dops bf (t \<lparr> tl_data := w \<rparr>))"

definition TwoLevel_Prev :: "'i iter_ops \<Rightarrow> 'd iter_ops \<Rightarrow> ('d, 'c) block_function \<Rightarrow>
    ('i, 'd, 'c) TwoLevelIterator \<Rightarrow> ('i, 'd, 'c) TwoLevelIterator option" where
  "TwoLevel_Prev iops dops bf t =
     Option.bind (Wrapper_Prev dops (tl_data t)) (\<lambda>w. SkipEmptyDataBlocksBackward iops dops bf (t \<lparr> tl_data := w \<rparr>))"

definition two_level_ops :: "'i iter_ops \<Rightarrow> 'd iter_ops \<Rightarrow> ('d, 'c) block_function \<Rightarrow> ('i, 'd, 'c) TwoLevelIterator iter_ops" where
  "two_level_ops iops dops bf =
     \<lparr> io_Valid = TwoLevel_Valid, io_key = TwoLevel_key, io_value = (\<lambda>t. the (TwoLevel_value dops t)),
       io_status = (\<lambda>t. the (TwoLevel_status iops dops t)), io_Next = TwoLevel_Next iops dops bf, io_Prev = TwoLevel_Prev iops dops bf,
       io_Seek = TwoLevel_Seek iops dops bf, io_SeekToFirst = TwoLevel_SeekToFirst iops dops bf, io_SeekToLast = TwoLevel_SeekToLast iops dops bf \<rparr>"

subsection \<open>Contract\<close>

text \<open>Index and blocks fit: the key of an index entry is not below its block and below the blocks after it.\<close>

definition index_fits :: "(slice \<Rightarrow> slice \<Rightarrow> int) \<Rightarrow> (slice \<Rightarrow> entries) \<Rightarrow> entries \<Rightarrow> bool" where
  "index_fits cmp blk ies \<longleftrightarrow>
     (\<forall>a<length ies. \<forall>e\<in>set (blk (snd (ies ! a))). cmp (fst e) (fst (ies ! a)) \<le> 0) \<and>
     (\<forall>b<length ies. \<forall>a<b. \<forall>e\<in>set (blk (snd (ies ! b))). cmp (fst (ies ! a)) (fst e) < 0)"

definition flat :: "(slice \<Rightarrow> entries) \<Rightarrow> entries \<Rightarrow> entries" where
  "flat blk ies = concat (map (blk \<circ> snd) ies)"

definition flat_offset :: "(slice \<Rightarrow> entries) \<Rightarrow> entries \<Rightarrow> nat \<Rightarrow> nat" where
  "flat_offset blk ies a = length (flat blk (take a ies))"

text \<open>\<open>bf\<close> makes an iterator of the block of each handle in the index and keeps the state \<open>ok\<close>.\<close>

locale two_level = index: cursor valid cmp iops iat + data: cursor valid cmp dops dat
  for valid :: "slice \<Rightarrow> bool" and cmp and iops :: "'i iter_ops" and iat and dops :: "'d iter_ops" and dat +
  fixes bf :: "('d, 'c) block_function" and blk :: "slice \<Rightarrow> entries" and ok :: "'c \<Rightarrow> bool" and ies :: entries
  assumes block_law: "a < length ies \<Longrightarrow> ok c \<Longrightarrow> \<exists>d c' p. bf (snd (ies ! a)) c = Some (d, c') \<and> ok c' \<and> dat d (blk (snd (ies ! a))) p"
    and fits: "index_fits cmp blk ies"

text \<open>The block iterator is that of the handle it is kept with.\<close>

definition data_ok :: "('d \<Rightarrow> entries \<Rightarrow> nat \<Rightarrow> bool) \<Rightarrow> (slice \<Rightarrow> entries) \<Rightarrow> ('c \<Rightarrow> bool) \<Rightarrow> ('i, 'd, 'c) TwoLevelIterator \<Rightarrow> bool" where
  "data_ok dat blk ok t \<longleftrightarrow> tl_status t = Status_OK \<and> ok (tl_arg t) \<and>
     (w_iter (tl_data t) = None \<and> \<not> w_valid (tl_data t) \<or> (\<exists>p. w_at dat (tl_data t) (blk (tl_handle t)) p))"

text \<open>Index and block iterator stand at entry \<open>p\<close> of block \<open>a\<close>; \<open>p\<close> may be the end of the block.\<close>

definition in_block :: "('i \<Rightarrow> entries \<Rightarrow> nat \<Rightarrow> bool) \<Rightarrow> ('d \<Rightarrow> entries \<Rightarrow> nat \<Rightarrow> bool) \<Rightarrow> (slice \<Rightarrow> entries) \<Rightarrow> ('c \<Rightarrow> bool) \<Rightarrow>
    entries \<Rightarrow> nat \<Rightarrow> nat \<Rightarrow> ('i, 'd, 'c) TwoLevelIterator \<Rightarrow> bool" where
  "in_block iat dat blk ok ies a p t \<longleftrightarrow> a < length ies \<and> tl_status t = Status_OK \<and> ok (tl_arg t) \<and> w_at iat (tl_index t) ies a \<and>
     tl_handle t = snd (ies ! a) \<and> w_at dat (tl_data t) (blk (snd (ies ! a))) p"

definition two_level_at :: "('i \<Rightarrow> entries \<Rightarrow> nat \<Rightarrow> bool) \<Rightarrow> ('d \<Rightarrow> entries \<Rightarrow> nat \<Rightarrow> bool) \<Rightarrow> (slice \<Rightarrow> entries) \<Rightarrow> ('c \<Rightarrow> bool) \<Rightarrow>
    entries \<Rightarrow> ('i, 'd, 'c) TwoLevelIterator \<Rightarrow> entries \<Rightarrow> nat \<Rightarrow> bool" where
  "two_level_at iat dat blk ok ies t es j \<longleftrightarrow> es = flat blk ies \<and> j \<le> length es \<and> data_ok dat blk ok t \<and> (\<exists>a. w_at iat (tl_index t) ies a) \<and>
     (if j < length es then \<exists>a p. in_block iat dat blk ok ies a p t \<and> p < length (blk (snd (ies ! a))) \<and> j = flat_offset blk ies a + p
      else w_iter (tl_data t) = None)"

subsection \<open>The contract is kept\<close>

lemma flat_offset_Suc: "a < length ies \<Longrightarrow> flat_offset blk ies (Suc a) = flat_offset blk ies a + length (blk (snd (ies ! a)))"
  by (simp add: flat_offset_def flat_def take_Suc_conv_app_nth)

lemma flat_offset_end: "length ies \<le> a \<Longrightarrow> flat_offset blk ies a = length (flat blk ies)"
  by (simp add: flat_offset_def)

lemma flat_offset_0 [simp]: "flat_offset blk ies 0 = 0"
  by (simp add: flat_offset_def flat_def)

lemma flat_offset_le: "flat_offset blk ies a \<le> length (flat blk ies)"
proof -
  have "flat blk ies = flat blk (take a ies) @ flat blk (drop a ies)" unfolding flat_def by (metis append_take_drop_id concat_append map_append)
  then show ?thesis by (simp add: flat_offset_def)
qed

lemma flat_nth:
  assumes "a < length ies" "p < length (blk (snd (ies ! a)))"
  shows "flat blk ies ! (flat_offset blk ies a + p) = blk (snd (ies ! a)) ! p" "flat_offset blk ies a + p < length (flat blk ies)"
proof -
  have "flat blk ies = flat blk (take a ies) @ blk (snd (ies ! a)) @ flat blk (drop (Suc a) ies)"
    using arg_cong [OF id_take_nth_drop [OF assms(1)], of "flat blk"] by (simp add: flat_def)
  then show "flat blk ies ! (flat_offset blk ies a + p) = blk (snd (ies ! a)) ! p"
    using assms(2) by (simp add: flat_offset_def nth_append)
  show "flat_offset blk ies a + p < length (flat blk ies)"
    using flat_offset_Suc [OF assms(1), of blk] flat_offset_le [of blk ies "Suc a"] assms(2) by simp
qed

lemma sorted_wrt_concatI:
  "\<forall>xs\<in>set xss. sorted_wrt P xs \<Longrightarrow> sorted_wrt (\<lambda>xs ys. \<forall>x\<in>set xs. \<forall>y\<in>set ys. P x y) xss \<Longrightarrow> sorted_wrt P (concat xss)"
  by (induction xss) (auto simp: sorted_wrt_append)

lemma cut_append1: "(\<And>e. e \<in> set xs \<Longrightarrow> P (fst e)) \<Longrightarrow> cut_pos P (xs @ ys) = length xs + cut_pos P ys"
  unfolding cut_pos_def by (subst takeWhile_append2) auto

lemma cut_append2:
  assumes "\<And>e. e \<in> set ys \<Longrightarrow> \<not> P (fst e)"
  shows "cut_pos P (xs @ ys) = cut_pos P xs"
proof -
  have "takeWhile (P \<circ> fst) ys = []" using assms by (cases ys) auto
  then show ?thesis unfolding cut_pos_def by (simp add: takeWhile_append comp_def cong: takeWhile_cong) (metis takeWhile_eq_all_conv)
qed

context two_level
begin

abbreviation "inb \<equiv> in_block iat dat blk ok ies"
abbreviation "tat \<equiv> two_level_at iat dat blk ok ies"
abbreviation "dok \<equiv> data_ok dat blk ok"

lemma inb_dok: "inb a p t \<Longrightarrow> dok t"
  by (auto simp: in_block_def data_ok_def)

lemma inb_le: "inb a p t \<Longrightarrow> p \<le> length (blk (snd (ies ! a)))"
  using data.at_le by (auto simp: in_block_def w_at_def)

lemma inb_at: "inb a p t \<Longrightarrow> p < length (blk (snd (ies ! a))) \<Longrightarrow> tat t (flat blk ies) (flat_offset blk ies a + p)"
  unfolding two_level_at_def using inb_dok [of a p t] flat_nth(2) [of a ies p blk] by (auto simp: in_block_def)

lemma dok_status: "dok t \<Longrightarrow> Wrapper_status dops (tl_data t) = Some s \<Longrightarrow> s = Status_OK"
  using data.at_status by (auto simp: data_ok_def Wrapper_status_def w_at_def)

lemma SetDataIterator_law:
  assumes "dok t"
  shows "SetDataIterator dops d t = map_option (\<lambda>w. t \<lparr> tl_data := w \<rparr>) (Wrapper_Set dops (tl_data t) d)"
proof -
  have "(case Wrapper_status dops (tl_data t) of None \<Rightarrow> t | Some s \<Rightarrow> SaveError s t) = t"
    using dok_status [OF assms] by (auto simp: SaveError_def Status_ok_def Status_OK_def split: option.splits)
  then show ?thesis by (simp add: SetDataIterator_def Let_def)
qed

lemma SetNull_law:
  assumes "dok t"
  shows "\<exists>t'. SetDataIterator dops None t = Some t' \<and> dok t' \<and> w_iter (tl_data t') = None \<and> tl_index t' = tl_index t"
  using assms by (auto simp: SetDataIterator_law Wrapper_Set_def Let_def data_ok_def)

lemma Init_law:
  assumes "dok t" "w_at iat (tl_index t) ies a"
  shows "\<exists>t'. InitDataBlock iops dops bf t = Some t' \<and>
    (if a < length ies then \<exists>p. inb a p t' else dok t' \<and> w_iter (tl_data t') = None \<and> w_at iat (tl_index t') ies a)"
proof (cases "a < length ies")
  case False
  then have "\<not> w_valid (tl_index t)" using index.w_at_valid [OF assms(2)] by simp
  then show ?thesis using SetNull_law [OF assms(1)] assms(2) False by (auto simp: InitDataBlock_def)
next
  case True
  let ?h = "snd (ies ! a)"
  have v: "w_valid (tl_index t)" "Wrapper_value iops (tl_index t) = Some ?h"
    using index.w_at_valid [OF assms(2)] True assms(2) index.at_value by (auto simp: w_at_def Wrapper_value_def)
  show ?thesis
  proof (cases "w_iter (tl_data t) \<noteq> None \<and> ?h = tl_handle t")
    case kept: True
    then have "\<exists>p. inb a p t" using assms True by (auto simp: in_block_def data_ok_def)
    then show ?thesis using v True kept by (simp add: InitDataBlock_def)
  next
    case False
    obtain d c' p where d: "bf ?h (tl_arg t) = Some (d, c')" "ok c'" "dat d (blk ?h) p"
      using block_law [OF True, of "tl_arg t"] assms(1) by (auto simp: data_ok_def)
    let ?t = "t \<lparr> tl_arg := c', tl_handle := ?h \<rparr>"
    obtain w where w: "Wrapper_Set dops (tl_data t) (Some d) = Some w" "w_at dat w (blk ?h) p"
      using data.w_at_update [OF d(3), of "tl_data t"] by (auto simp: Wrapper_Set_def)
    have "(case Wrapper_status dops (tl_data t) of None \<Rightarrow> ?t | Some s \<Rightarrow> SaveError s ?t) = ?t"
      using dok_status [OF assms(1)] by (auto simp: SaveError_def Status_ok_def Status_OK_def split: option.splits)
    then have "InitDataBlock iops dops bf t = Some (?t \<lparr> tl_data := w \<rparr>)"
      using v False d(1) w(1) by (auto simp: InitDataBlock_def SetDataIterator_def Let_def)
    moreover have "inb a p (?t \<lparr> tl_data := w \<rparr>)" using True d(2) w(2) assms by (simp add: in_block_def data_ok_def)
    ultimately show ?thesis using True by auto
  qed
qed

text \<open>Moving the index, making the block's iterator and moving that, as all the seeks and both loops do.\<close>

lemma enter_law:
  assumes "dok t" "w_at iat (tl_index t) ies b" "\<And>i. iat i ies b \<Longrightarrow> \<exists>i'. f i = Some i' \<and> iat i' ies a"
    "\<And>d es p. dat d es p \<Longrightarrow> \<exists>d'. g d = Some d' \<and> dat d' es (pos es)"
  shows "\<exists>t'. Option.bind (index_move iops f t) (\<lambda>t. Option.bind (InitDataBlock iops dops bf t) (\<lambda>t. Option.bind (data_move dops g t) k)) = k t' \<and>
    (if a < length ies then inb a (pos (blk (snd (ies ! a)))) t' else dok t' \<and> w_iter (tl_data t') = None \<and> w_at iat (tl_index t') ies a)"
proof -
  obtain w where w: "Wrapper_move iops f (tl_index t) = Some w" "w_at iat w ies a" using index.w_at_move [OF assms(2), of f a] assms(3) by blast
  let ?t = "t \<lparr> tl_index := w \<rparr>"
  have im: "index_move iops f t = Some ?t" using w(1) by (simp add: index_move_def)
  have "dok ?t" using assms(1) by (simp add: data_ok_def)
  then obtain t' where t': "InitDataBlock iops dops bf ?t = Some t'"
      "if a < length ies then \<exists>p. inb a p t' else dok t' \<and> w_iter (tl_data t') = None \<and> w_at iat (tl_index t') ies a"
    using Init_law [of ?t a] w(2) by auto
  show ?thesis
  proof (cases "a < length ies")
    case False
    then have "data_move dops g t' = Some t'" using t'(2) by (simp add: data_move_def)
    then show ?thesis using im t' False by auto
  next
    case True
    then obtain p where p: "inb a p t'" using t'(2) by auto
    then have d: "w_at dat (tl_data t') (blk (snd (ies ! a))) p" by (simp add: in_block_def)
    obtain w' where w': "Wrapper_move dops g (tl_data t') = Some w'" "w_at dat w' (blk (snd (ies ! a))) (pos (blk (snd (ies ! a))))"
      using data.w_at_move [OF d, of g] assms(4) by blast
    have "w_iter (tl_data t') \<noteq> None" using d by (auto simp: w_at_def)
    then have "data_move dops g t' = Some (t' \<lparr> tl_data := w' \<rparr>)" using w'(1) by (simp add: data_move_def)
    moreover have "inb a (pos (blk (snd (ies ! a)))) (t' \<lparr> tl_data := w' \<rparr>)" using p w'(2) by (simp add: in_block_def)
    ultimately show ?thesis using im t'(1) True by auto
  qed
qed

lemma stop_law:
  assumes "dok t" "w_iter (tl_data t) = None" "w_at iat (tl_index t) ies (length ies)"
  shows "\<exists>t'. SkipEmptyDataBlocksForward iops dops bf t = Some t' \<and> tat t' (flat blk ies) (length (flat blk ies))"
    "\<exists>t'. SkipEmptyDataBlocksBackward iops dops bf t = Some t' \<and> tat t' (flat blk ies) (length (flat blk ies))"
proof -
  have "\<not> w_valid (tl_index t)" using index.w_at_valid [OF assms(3)] by simp
  moreover obtain t' where "SetDataIterator dops None t = Some t'" "dok t'" "w_iter (tl_data t') = None" "tl_index t' = tl_index t"
    using SetNull_law [OF assms(1)] by blast
  ultimately show "\<exists>t'. SkipEmptyDataBlocksForward iops dops bf t = Some t' \<and> tat t' (flat blk ies) (length (flat blk ies))"
      "\<exists>t'. SkipEmptyDataBlocksBackward iops dops bf t = Some t' \<and> tat t' (flat blk ies) (length (flat blk ies))"
    using assms(2,3) by (auto simp: SkipEmptyDataBlocksForward.simps [of _ _ _ t] SkipEmptyDataBlocksBackward.simps [of _ _ _ t] two_level_at_def)
qed

lemma skip_done:
  assumes "inb a p t" "p < length (blk (snd (ies ! a)))"
  shows "SkipEmptyDataBlocksForward iops dops bf t = Some t" "SkipEmptyDataBlocksBackward iops dops bf t = Some t"
proof -
  have "w_iter (tl_data t) \<noteq> None" "w_valid (tl_data t)" using assms by (auto simp: in_block_def w_at_def)
  then show "SkipEmptyDataBlocksForward iops dops bf t = Some t" "SkipEmptyDataBlocksBackward iops dops bf t = Some t"
    by (auto simp: SkipEmptyDataBlocksForward.simps [of _ _ _ t] SkipEmptyDataBlocksBackward.simps [of _ _ _ t])
qed

lemma skip_forward:
  assumes "inb a p t"
  shows "\<exists>t'. SkipEmptyDataBlocksForward iops dops bf t = Some t' \<and> tat t' (flat blk ies) (flat_offset blk ies a + p)"
  using assms
proof (induction "length ies - a" arbitrary: a p t rule: less_induct)
  case less
  have a: "a < length ies" "w_at iat (tl_index t) ies a" using less.prems by (simp_all add: in_block_def)
  show ?case
  proof (cases "p < length (blk (snd (ies ! a)))")
    case True
    then show ?thesis using skip_done [OF less.prems] inb_at [OF less.prems] by simp
  next
    case False
    then have p: "p = length (blk (snd (ies ! a)))" using inb_le [OF less.prems] by simp
    have "\<not> w_valid (tl_data t)" "w_valid (tl_index t)" using False a less.prems index.w_at_valid [OF a(2)] by (auto simp: in_block_def w_at_def)
    then have eq: "SkipEmptyDataBlocksForward iops dops bf t =
        Option.bind (index_move iops (io_Next iops) t) (\<lambda>t. Option.bind (InitDataBlock iops dops bf t) (\<lambda>t.
          Option.bind (data_move dops (io_SeekToFirst dops) t) (SkipEmptyDataBlocksForward iops dops bf)))"
      by (simp add: SkipEmptyDataBlocksForward.simps [of _ _ _ t])
    obtain t' where t': "SkipEmptyDataBlocksForward iops dops bf t = SkipEmptyDataBlocksForward iops dops bf t'"
        "if Suc a < length ies then inb (Suc a) 0 t' else dok t' \<and> w_iter (tl_data t') = None \<and> w_at iat (tl_index t') ies (Suc a)"
      using enter_law [OF inb_dok [OF less.prems] a(2), of "io_Next iops" "Suc a" "io_SeekToFirst dops" "\<lambda>_. 0" "SkipEmptyDataBlocksForward iops dops bf"]
        index.at_next a(1) data.at_first unfolding eq by blast
    have off: "flat_offset blk ies a + p = flat_offset blk ies (Suc a)" using flat_offset_Suc [OF a(1)] p by simp
    show ?thesis
    proof (cases "Suc a < length ies")
      case True
      then show ?thesis using less.hyps [of "Suc a" 0 t'] t' off by simp
    next
      case False
      then have "Suc a = length ies" using a(1) by simp
      then show ?thesis using t' stop_law(1) [of t'] off flat_offset_end [of ies "Suc a" blk] by simp
    qed
  qed
qed

lemma skip_backward:
  assumes "inb a (length (blk (snd (ies ! a)))) t"
  shows "\<exists>t'. SkipEmptyDataBlocksBackward iops dops bf t = Some t' \<and> tat t' (flat blk ies) (step_back (length (flat blk ies)) (flat_offset blk ies a))"
  using assms
proof (induction a arbitrary: t)
  case (0 t)
  have a: "0 < length ies" "w_at iat (tl_index t) ies 0" using 0 by (simp_all add: in_block_def)
  have "\<not> w_valid (tl_data t)" "w_valid (tl_index t)" using a 0 index.w_at_valid [OF a(2)] by (auto simp: in_block_def w_at_def)
  then have eq: "SkipEmptyDataBlocksBackward iops dops bf t =
      Option.bind (index_move iops (io_Prev iops) t) (\<lambda>t. Option.bind (InitDataBlock iops dops bf t) (\<lambda>t.
        Option.bind (data_move dops (io_SeekToLast dops) t) (SkipEmptyDataBlocksBackward iops dops bf)))"
    by (simp add: SkipEmptyDataBlocksBackward.simps [of _ _ _ t])
  obtain t' where t': "SkipEmptyDataBlocksBackward iops dops bf t = SkipEmptyDataBlocksBackward iops dops bf t'"
      "dok t'" "w_iter (tl_data t') = None" "w_at iat (tl_index t') ies (length ies)"
    using enter_law [OF inb_dok [OF 0] a(2), of "io_Prev iops" "length ies" "io_SeekToLast dops" "\<lambda>es. step_back (length es) (length es)"
        "SkipEmptyDataBlocksBackward iops dops bf"] index.at_prev [of _ ies 0] a(1) data.at_last unfolding eq by (auto simp: step_back_def)
  then show ?case using stop_law(2) [of t'] by (simp add: step_back_def)
next
  case (Suc a t)
  have a: "Suc a < length ies" "w_at iat (tl_index t) ies (Suc a)" using Suc.prems by (simp_all add: in_block_def)
  have "\<not> w_valid (tl_data t)" "w_valid (tl_index t)" using a Suc.prems index.w_at_valid [OF a(2)] by (auto simp: in_block_def w_at_def)
  then have eq: "SkipEmptyDataBlocksBackward iops dops bf t =
      Option.bind (index_move iops (io_Prev iops) t) (\<lambda>t. Option.bind (InitDataBlock iops dops bf t) (\<lambda>t.
        Option.bind (data_move dops (io_SeekToLast dops) t) (SkipEmptyDataBlocksBackward iops dops bf)))"
    by (simp add: SkipEmptyDataBlocksBackward.simps [of _ _ _ t])
  let ?b = "blk (snd (ies ! a))"
  obtain t' where t': "SkipEmptyDataBlocksBackward iops dops bf t = SkipEmptyDataBlocksBackward iops dops bf t'"
      "inb a (step_back (length ?b) (length ?b)) t'"
    using enter_law [OF inb_dok [OF Suc.prems] a(2), of "io_Prev iops" a "io_SeekToLast dops" "\<lambda>es. step_back (length es) (length es)"
        "SkipEmptyDataBlocksBackward iops dops bf"] index.at_prev [of _ ies "Suc a"] a(1) data.at_last unfolding eq by (auto simp: step_back_def)
  have off: "flat_offset blk ies (Suc a) = flat_offset blk ies a + length ?b" using flat_offset_Suc a(1) by simp
  show ?case
  proof (cases "?b = []")
    case True
    then show ?thesis using Suc.IH [of t'] t' off by (simp add: step_back_def)
  next
    case False
    then have "inb a (length ?b - 1) t'" "length ?b - 1 < length ?b" using t'(2) by (simp_all add: step_back_def)
    note i = this
    have e: "step_back (length (flat blk ies)) (flat_offset blk ies (Suc a)) = flat_offset blk ies a + (length ?b - 1)"
      using off False by (cases ?b) (auto simp: step_back_def)
    show ?thesis unfolding e using skip_done(2) [OF i] inb_at [OF i] t'(1) by auto
  qed
qed

lemma tat_parts:
  assumes "tat t es j"
  shows "es = flat blk ies" "j \<le> length es" "dok t" "\<exists>b. w_at iat (tl_index t) ies b"
    "j < length es \<Longrightarrow> \<exists>a p. inb a p t \<and> p < length (blk (snd (ies ! a))) \<and> j = flat_offset blk ies a + p"
  using assms by (auto simp: two_level_at_def)

lemma two_next:
  assumes "tat t es j" "j < length es"
  shows "\<exists>t'. TwoLevel_Next iops dops bf t = Some t' \<and> tat t' es (Suc j)"
proof -
  obtain a p where p: "inb a p t" "p < length (blk (snd (ies ! a)))" "j = flat_offset blk ies a + p" using tat_parts [OF assms(1)] assms(2) by blast
  obtain w where w: "Wrapper_Next dops (tl_data t) = Some w" "w_at dat w (blk (snd (ies ! a))) (Suc p)"
    using data.w_at_moves(1) [OF _ p(2)] p(1) by (auto simp: in_block_def)
  have "inb a (Suc p) (t \<lparr> tl_data := w \<rparr>)" using p(1) w(2) by (simp add: in_block_def)
  from skip_forward [OF this] show ?thesis using w(1) p(3) tat_parts(1) [OF assms(1)] by (simp add: TwoLevel_Next_def)
qed

lemma two_prev:
  assumes "tat t es j" "j < length es"
  shows "\<exists>t'. TwoLevel_Prev iops dops bf t = Some t' \<and> tat t' es (step_back (length es) j)"
proof -
  obtain a p where p: "inb a p t" "p < length (blk (snd (ies ! a)))" "j = flat_offset blk ies a + p" using tat_parts [OF assms(1)] assms(2) by blast
  obtain w where w: "Wrapper_Prev dops (tl_data t) = Some w" "w_at dat w (blk (snd (ies ! a))) (step_back (length (blk (snd (ies ! a)))) p)"
    using data.w_at_moves(2) [OF _ p(2)] p(1) by (auto simp: in_block_def)
  have i: "inb a (step_back (length (blk (snd (ies ! a)))) p) (t \<lparr> tl_data := w \<rparr>)" using p(1) w(2) by (simp add: in_block_def)
  show ?thesis
  proof (cases p)
    case 0
    then show ?thesis using skip_backward [of a "t \<lparr> tl_data := w \<rparr>"] i w(1) p(3) tat_parts(1) [OF assms(1)] by (simp add: TwoLevel_Prev_def step_back_def)
  next
    case (Suc q)
    then have "inb a q (t \<lparr> tl_data := w \<rparr>)" "q < length (blk (snd (ies ! a)))" using i p(2) by (simp_all add: step_back_def)
    from skip_done(2) [OF this] inb_at [OF this] show ?thesis
      using Suc w(1) p(3) tat_parts(1) [OF assms(1)] by (simp add: TwoLevel_Prev_def step_back_def)
  qed
qed

lemma two_first:
  assumes "tat t es j"
  shows "\<exists>t'. TwoLevel_SeekToFirst iops dops bf t = Some t' \<and> tat t' es 0"
proof -
  obtain b where b: "w_at iat (tl_index t) ies b" using tat_parts(4) [OF assms] by blast
  obtain t' where t': "TwoLevel_SeekToFirst iops dops bf t = SkipEmptyDataBlocksForward iops dops bf t'"
      "if 0 < length ies then inb 0 0 t' else dok t' \<and> w_iter (tl_data t') = None \<and> w_at iat (tl_index t') ies 0"
    using enter_law [OF tat_parts(3) [OF assms] b, of "io_SeekToFirst iops" 0 "io_SeekToFirst dops" "\<lambda>_. 0" "SkipEmptyDataBlocksForward iops dops bf"]
      index.at_first data.at_first unfolding TwoLevel_SeekToFirst_def by blast
  show ?thesis
  proof (cases "0 < length ies")
    case True
    then show ?thesis using skip_forward [of 0 0 t'] t' tat_parts(1) [OF assms] by simp
  next
    case False
    then have "ies = []" by simp
    then show ?thesis using stop_law(1) [of t'] t' tat_parts(1) [OF assms] by (simp add: flat_def)
  qed
qed

lemma two_last:
  assumes "tat t es j"
  shows "\<exists>t'. TwoLevel_SeekToLast iops dops bf t = Some t' \<and> tat t' es (step_back (length es) (length es))"
proof -
  let ?a = "step_back (length ies) (length ies)" and ?pos = "\<lambda>es. step_back (length es) (length es)"
  obtain b where b: "w_at iat (tl_index t) ies b" using tat_parts(4) [OF assms] by blast
  obtain t' where t': "TwoLevel_SeekToLast iops dops bf t = SkipEmptyDataBlocksBackward iops dops bf t'"
      "if ?a < length ies then inb ?a (?pos (blk (snd (ies ! ?a)))) t' else dok t' \<and> w_iter (tl_data t') = None \<and> w_at iat (tl_index t') ies ?a"
    using enter_law [OF tat_parts(3) [OF assms] b, of "io_SeekToLast iops" ?a "io_SeekToLast dops" ?pos "SkipEmptyDataBlocksBackward iops dops bf"]
      index.at_last data.at_last unfolding TwoLevel_SeekToLast_def by blast
  show ?thesis
  proof (cases "ies = []")
    case True
    then show ?thesis using stop_law(2) [of t'] t' tat_parts(1) [OF assms] by (simp add: flat_def step_back_def)
  next
    case False
    let ?l = "length ies - 1"
    let ?b = "blk (snd (ies ! ?l))"
    have l: "?l < length ies" "Suc ?l = length ies" using False by simp_all
    have "?a = ?l" using False by (simp add: step_back_def)
    then have i: "inb ?l (?pos ?b) t'" using t'(2) l(1) by metis
    have off: "flat_offset blk ies ?l + length ?b = length (flat blk ies)"
      using flat_offset_Suc [OF l(1), of blk] flat_offset_end [of ies "length ies" blk] l(2) by simp
    show ?thesis
    proof (cases "?b = []")
      case True
      then have "inb ?l (length ?b) t'" using i by (simp add: step_back_def)
      from skip_backward [OF this] show ?thesis using t'(1) off True tat_parts(1) [OF assms] by simp
    next
      case False
      then have "inb ?l (length ?b - 1) t'" "length ?b - 1 < length ?b" using i by (simp_all add: step_back_def)
      note i = this
      have e: "step_back (length (flat blk ies)) (length (flat blk ies)) = flat_offset blk ies ?l + (length ?b - 1)"
        using off False by (cases ?b) (auto simp: step_back_def)
      show ?thesis unfolding tat_parts(1) [OF assms] e using skip_done(2) [OF i] inb_at [OF i] t'(1) by auto
    qed
  qed
qed

lemma blk_sorted: "ok c \<Longrightarrow> a < length ies \<Longrightarrow> sorted_entries valid cmp (blk (snd (ies ! a)))"
  using block_law data.at_sorted by blast

lemma in_flat: "e \<in> set (flat blk zs) \<Longrightarrow> \<exists>i<length zs. e \<in> set (blk (snd (zs ! i)))"
  by (auto simp: flat_def in_set_conv_nth [of _ zs] intro: exI [of _ "_ :: nat"]) (metis snd_conv)

lemma flat_sorted:
  assumes "ok c" "sorted_entries valid cmp ies"
  shows "sorted_entries valid cmp (flat blk ies)"
proof -
  have b: "sorted_wrt (\<lambda>a b. cmp (fst a) (fst b) < 0) (blk (snd (ies ! i)))" "e \<in> set (blk (snd (ies ! i))) \<Longrightarrow> valid (fst e)"
      "valid (fst (ies ! i))" if "i < length ies" for i e
    using blk_sorted [OF assms(1) that] assms(2) that by (auto simp: sorted_entries_def)
  have "cmp (fst x) (fst y) < 0" if "i < j" "j < length ies" "x \<in> set (blk (snd (ies ! i)))" "y \<in> set (blk (snd (ies ! j)))" for i j x y
  proof -
    have "cmp (fst x) (fst (ies ! i)) \<le> 0" "cmp (fst (ies ! i)) (fst y) < 0" using fits that unfolding index_fits_def by (meson order.strict_trans)+
    moreover have "i < length ies" using that by simp
    ultimately show ?thesis using index.cmp_le_less_trans [of "fst x" "fst (ies ! i)" "fst y"] b(2,3) that by metis
  qed
  then have "sorted_wrt (\<lambda>a b. cmp (fst a) (fst b) < 0) (flat blk ies)"
    unfolding flat_def
  proof (intro sorted_wrt_concatI)
    show "\<forall>xs\<in>set (map (blk \<circ> snd) ies). sorted_wrt (\<lambda>a b. cmp (fst a) (fst b) < 0) xs"
      using b(1) by (auto simp: in_set_conv_nth) (metis snd_conv)
  qed (simp add: sorted_wrt_map sorted_wrt_iff_nth_less [of _ ies])
  moreover have "valid (fst e)" if "e \<in> set (flat blk ies)" for e using in_flat [OF that] b(2) by blast
  ultimately show ?thesis by (simp add: sorted_entries_def)
qed

lemma flat_cut:
  assumes "ok c" "sorted_entries valid cmp ies" "valid k"
  defines "P \<equiv> \<lambda>a. cmp a k < 0"
  defines "a \<equiv> cut_pos P ies"
  shows "cut_pos P (flat blk ies) = (if a < length ies then flat_offset blk ies a + cut_pos P (blk (snd (ies ! a))) else length (flat blk ies))"
proof -
  have v: "e \<in> set (blk (snd (ies ! i))) \<Longrightarrow> valid (fst e)" "valid (fst (ies ! i))" if "i < length ies" for i e
    using blk_sorted [OF assms(1) that] assms(2) that by (auto simp: sorted_entries_def)
  have early: "P (fst e)" if i: "i < a" "i < length ies" "e \<in> set (blk (snd (ies ! i)))" for i e
  proof -
    have "cmp (fst e) (fst (ies ! i)) \<le> 0" "cmp (fst (ies ! i)) k < 0" using fits i cut_before [of i P ies] by (simp_all add: index_fits_def a_def P_def)
    then show ?thesis unfolding P_def using index.cmp_le_less_trans [of "fst e" "fst (ies ! i)" k] v i assms(3) by simp
  qed
  have late: "\<not> P (fst e)" if i: "a < i" "i < length ies" "e \<in> set (blk (snd (ies ! i)))" for i e
  proof -
    have a: "a < length ies" using i by simp
    have "cmp k (fst (ies ! a)) \<le> 0" using cut_at [of P ies] a v(2) [OF a] index.cmp_flip_le [of k "fst (ies ! a)"] assms(3) by (simp add: a_def P_def)
    moreover have "cmp (fst (ies ! a)) (fst e) < 0" using fits i by (simp add: index_fits_def)
    ultimately have "cmp k (fst e) < 0" using index.cmp_le_less_trans [of k "fst (ies ! a)" "fst e"] v i a assms(3) by simp
    then show ?thesis unfolding P_def using index.cmp_flip [of k "fst e"] v i assms(3) by simp
  qed
  have pre: "P (fst e)" if "e \<in> set (flat blk (take a ies))" for e using in_flat [OF that] early [of _ e] by (auto simp: min_def split: if_splits)
  show ?thesis
  proof (cases "a < length ies")
    case False
    then have "flat blk ies = flat blk (take a ies) @ []" by simp
    then show ?thesis using cut_append1 [of "flat blk (take a ies)" P "[]"] pre False by (simp add: cut_pos_def)
  next
    case True
    have eq: "flat blk ies = flat blk (take a ies) @ blk (snd (ies ! a)) @ flat blk (drop (Suc a) ies)"
      using arg_cong [OF id_take_nth_drop [OF True], of "flat blk"] by (simp add: flat_def)
    have "\<not> P (fst e)" if e: "e \<in> set (flat blk (drop (Suc a) ies))" for e
    proof -
      obtain i where "i < length (drop (Suc a) ies)" "e \<in> set (blk (snd (drop (Suc a) ies ! i)))" using in_flat [OF e] by blast
      then show ?thesis using late [of "Suc a + i" e] by simp
    qed
    then show ?thesis unfolding eq using pre True by (simp add: cut_append1 cut_append2 flat_offset_def)
  qed
qed

lemma two_seek:
  assumes "tat t es j" "valid k"
  shows "\<exists>t'. TwoLevel_Seek iops dops bf k t = Some t' \<and> tat t' es (cut_pos (\<lambda>a. cmp a k < 0) es)"
proof -
  let ?pos = "cut_pos (\<lambda>a. cmp a k < 0)"
  obtain b where b: "w_at iat (tl_index t) ies b" using tat_parts(4) [OF assms(1)] by blast
  obtain t' where t': "TwoLevel_Seek iops dops bf k t = SkipEmptyDataBlocksForward iops dops bf t'"
      "if ?pos ies < length ies then inb (?pos ies) (?pos (blk (snd (ies ! ?pos ies)))) t'
       else dok t' \<and> w_iter (tl_data t') = None \<and> w_at iat (tl_index t') ies (?pos ies)"
    using enter_law [OF tat_parts(3) [OF assms(1)] b, of "io_Seek iops k" "?pos ies" "io_Seek dops k" ?pos "SkipEmptyDataBlocksForward iops dops bf"]
      index.at_seek data.at_seek assms(2) unfolding TwoLevel_Seek_def by blast
  have okc: "ok (tl_arg t)" using tat_parts(3) [OF assms(1)] by (simp add: data_ok_def)
  note c = flat_cut [OF okc index.w_at_sorted [OF b] assms(2)]
  show ?thesis
  proof (cases "?pos ies < length ies")
    case True
    then show ?thesis using skip_forward [of "?pos ies" "?pos (blk (snd (ies ! ?pos ies)))" t'] t' c tat_parts(1) [OF assms(1)] by simp
  next
    case False
    then have "?pos ies = length ies" using cut_le [of _ ies] by (simp add: le_antisym)
    then show ?thesis using stop_law(1) [of t'] t' c tat_parts(1) [OF assms(1)] by simp
  qed
qed

lemma two_level_cursor: "cursor valid cmp (two_level_ops iops dops bf) tat"
proof unfold_locales
  fix t es j assume t: "tat t es j"
  note p = tat_parts [OF t]
  obtain b where b: "w_at iat (tl_index t) ies b" using p(4) by blast
  show "sorted_entries valid cmp es" using flat_sorted [of "tl_arg t"] p(1,3) index.w_at_sorted [OF b] by (simp add: data_ok_def)
  show "j \<le> length es" by (rule p(2))
  show "io_Valid (two_level_ops iops dops bf) t = (j < length es)"
    using t by (auto simp: two_level_ops_def TwoLevel_Valid_def two_level_at_def in_block_def w_at_def data_ok_def split: if_splits)
  have "Wrapper_status iops (tl_index t) = Some Status_OK" using b index.at_status by (auto simp: w_at_def Wrapper_status_def)
  then show "io_status (two_level_ops iops dops bf) t = Status_OK"
    using dok_status [OF p(3)] p(3) by (auto simp: two_level_ops_def TwoLevel_status_def data_ok_def Status_ok_def Status_OK_def split: option.splits)
  show "\<exists>i'. io_SeekToFirst (two_level_ops iops dops bf) t = Some i' \<and> tat i' es 0" using two_first [OF t] by (simp add: two_level_ops_def)
  show "\<exists>i'. io_SeekToLast (two_level_ops iops dops bf) t = Some i' \<and> tat i' es (step_back (length es) (length es))"
    using two_last [OF t] by (simp add: two_level_ops_def)
  show "\<exists>i'. io_Seek (two_level_ops iops dops bf) k t = Some i' \<and> tat i' es (cut_pos (\<lambda>a. cmp a k < 0) es)" if "valid k" for k
    using two_seek [OF t that] by (simp add: two_level_ops_def)
  assume j: "j < length es"
  obtain a q where q: "inb a q t" "q < length (blk (snd (ies ! a)))" "j = flat_offset blk ies a + q" using p(5) [OF j] by blast
  have e: "es ! j = blk (snd (ies ! a)) ! q" using flat_nth(1) [of a ies q blk] q p(1) by (simp add: in_block_def)
  show "io_key (two_level_ops iops dops bf) t = fst (es ! j)"
    using q e by (auto simp: two_level_ops_def TwoLevel_key_def in_block_def w_at_def)
  show "io_value (two_level_ops iops dops bf) t = snd (es ! j)"
    using q e data.at_value by (auto simp: two_level_ops_def TwoLevel_value_def Wrapper_value_def in_block_def w_at_def)
  show "\<exists>i'. io_Next (two_level_ops iops dops bf) t = Some i' \<and> tat i' es (Suc j)" using two_next [OF t j] by (simp add: two_level_ops_def)
  show "\<exists>i'. io_Prev (two_level_ops iops dops bf) t = Some i' \<and> tat i' es (step_back (length es) j)"
    using two_prev [OF t j] by (simp add: two_level_ops_def)
qed

lemma new_two_level:
  assumes "iat i ies b" "ok c"
  shows "\<exists>t. NewTwoLevelIterator iops i c = Some t \<and> tat t (flat blk ies) (length (flat blk ies))"
proof -
  obtain w where "Wrapper_Update iops (Wrapper_new \<lparr> w_iter := Some i \<rparr>) = Some w" "w_at iat w ies b"
    using index.w_at_update [OF assms(1)] by blast
  then show ?thesis using assms(2) by (auto simp: NewTwoLevelIterator_def Wrapper_Set_def two_level_at_def data_ok_def Wrapper_new_def)
qed

end

end
