(* ===== verification/VersionFiles.thy ===== *)
theory VersionFiles
  imports VersionEdit TwoLevel DbIter
begin

text \<open>
  The search half of \<open>db/version_set.cc\<close>: the files of a version by level, the binary search for a file, the overlap
  tests, the iterator over the files of a level, point lookups, and the choice of files for compactions. Level 0 may
  hold overlapping files; the files of the other levels are sorted and disjoint. A result is \<open>None\<close> where the code
  would read outside an array. The table cache is a parameter.
\<close>

subsection \<open>Constants and sizes\<close>

definition kMaxMemCompactLevel :: nat where "kMaxMemCompactLevel = 2"
definition kTargetFileSize :: int where "kTargetFileSize = 2 * 1048576"
definition kMaxGrandParentOverlapBytes :: int where "kMaxGrandParentOverlapBytes = 10 * kTargetFileSize"
definition kExpandedCompactionByteSizeLimit :: int where "kExpandedCompactionByteSizeLimit = 25 * kTargetFileSize"

definition MaxFileSizeForLevel :: "nat \<Rightarrow> uint64" where
  "MaxFileSizeForLevel level = word_of_int kTargetFileSize"

definition TotalFileSize :: "FileMetaData list \<Rightarrow> int" where
  "TotalFileSize files = sint (fold (\<lambda>f sum. sum + fm_file_size f) files (0 :: uint64))"

subsection \<open>Finding files\<close>

partial_function (option) FindFile_loop :: "(slice \<Rightarrow> slice \<Rightarrow> int) \<Rightarrow> FileMetaData list \<Rightarrow> slice \<Rightarrow> uint32 \<Rightarrow> uint32 \<Rightarrow> uint32 option" where
  "FindFile_loop icmp files key left right =
     (if left < right then
        let mid = (left + right) div 2
        in if length files \<le> unat mid then None
           else if icmp (fm_largest (files ! unat mid)) key < 0 then FindFile_loop icmp files key (mid + 1) right
           else FindFile_loop icmp files key left mid
      else Some right)"

definition FindFile :: "(slice \<Rightarrow> slice \<Rightarrow> int) \<Rightarrow> FileMetaData list \<Rightarrow> slice \<Rightarrow> nat option" where
  "FindFile icmp files key = map_option unat (FindFile_loop icmp files key 0 (word_of_nat (length files)))"

text \<open>The user keys at the ends of a file; a missing key is a null pointer.\<close>

abbreviation file_start :: "FileMetaData \<Rightarrow> slice" where "file_start f \<equiv> ExtractUserKey (fm_smallest f)"
abbreviation file_limit :: "FileMetaData \<Rightarrow> slice" where "file_limit f \<equiv> ExtractUserKey (fm_largest f)"

definition AfterFile :: "(slice \<Rightarrow> slice \<Rightarrow> int) \<Rightarrow> slice option \<Rightarrow> FileMetaData \<Rightarrow> bool" where
  "AfterFile ucmp ukey f = (case ukey of None \<Rightarrow> False | Some u \<Rightarrow> 0 < ucmp u (file_limit f))"

definition BeforeFile :: "(slice \<Rightarrow> slice \<Rightarrow> int) \<Rightarrow> slice option \<Rightarrow> FileMetaData \<Rightarrow> bool" where
  "BeforeFile ucmp ukey f = (case ukey of None \<Rightarrow> False | Some u \<Rightarrow> ucmp u (file_start f) < 0)"

definition SomeFileOverlapsRange ::
    "(slice \<Rightarrow> slice \<Rightarrow> int) \<Rightarrow> bool \<Rightarrow> FileMetaData list \<Rightarrow> slice option \<Rightarrow> slice option \<Rightarrow> bool option" where
  "SomeFileOverlapsRange ucmp disjoint_sorted_files files smallest_user_key largest_user_key =
     (if \<not> disjoint_sorted_files
      then Some (list_ex (\<lambda>f. \<not> (AfterFile ucmp smallest_user_key f \<or> BeforeFile ucmp largest_user_key f)) files)
      else case (case smallest_user_key of
                   None \<Rightarrow> Some 0
                 | Some u \<Rightarrow> FindFile (InternalKey_Compare ucmp) files (InternalKey u kMaxSequenceNumber kValueTypeForSeek)) of
             None \<Rightarrow> None
           | Some index \<Rightarrow> if length files \<le> index then Some False else Some (\<not> BeforeFile ucmp largest_user_key (files ! index)))"

subsection \<open>The iterator over the files of a level\<close>

record LevelFileNumIterator =
  lf_flist :: "FileMetaData list"
  lf_index :: uint32

definition LevelFileNumIterator_new :: "FileMetaData list \<Rightarrow> LevelFileNumIterator" where
  "LevelFileNumIterator_new flist = \<lparr> lf_flist = flist, lf_index = word_of_nat (length flist) \<rparr>"

definition LevelIter_Valid :: "LevelFileNumIterator \<Rightarrow> bool" where
  "LevelIter_Valid it = (unat (lf_index it) < length (lf_flist it))"

definition LevelIter_Seek :: "(slice \<Rightarrow> slice \<Rightarrow> int) \<Rightarrow> slice \<Rightarrow> LevelFileNumIterator \<Rightarrow> LevelFileNumIterator option" where
  "LevelIter_Seek icmp target it = map_option (\<lambda>i. it \<lparr> lf_index := word_of_nat i \<rparr>) (FindFile icmp (lf_flist it) target)"

definition LevelIter_SeekToFirst :: "LevelFileNumIterator \<Rightarrow> LevelFileNumIterator" where
  "LevelIter_SeekToFirst it = it \<lparr> lf_index := 0 \<rparr>"

definition LevelIter_SeekToLast :: "LevelFileNumIterator \<Rightarrow> LevelFileNumIterator" where
  "LevelIter_SeekToLast it = it \<lparr> lf_index := (if lf_flist it = [] then 0 else word_of_nat (length (lf_flist it) - 1)) \<rparr>"

definition LevelIter_Next :: "LevelFileNumIterator \<Rightarrow> LevelFileNumIterator" where
  "LevelIter_Next it = it \<lparr> lf_index := lf_index it + 1 \<rparr>"

definition LevelIter_Prev :: "LevelFileNumIterator \<Rightarrow> LevelFileNumIterator" where
  "LevelIter_Prev it = it \<lparr> lf_index := (if lf_index it = 0 then word_of_nat (length (lf_flist it)) else lf_index it - 1) \<rparr>"

definition LevelIter_key :: "LevelFileNumIterator \<Rightarrow> slice" where
  "LevelIter_key it = fm_largest (lf_flist it ! unat (lf_index it))"

definition LevelIter_value :: "LevelFileNumIterator \<Rightarrow> slice" where
  "LevelIter_value it =
     (let f = lf_flist it ! unat (lf_index it) in EncodeFixed64 (fm_number f) @ EncodeFixed64 (fm_file_size f))"

definition level_iter_ops :: "(slice \<Rightarrow> slice \<Rightarrow> int) \<Rightarrow> LevelFileNumIterator iter_ops" where
  "level_iter_ops icmp =
     \<lparr> io_Valid = LevelIter_Valid, io_key = LevelIter_key, io_value = LevelIter_value, io_status = (\<lambda>_. Status_OK),
       io_Next = Some \<circ> LevelIter_Next, io_Prev = Some \<circ> LevelIter_Prev, io_Seek = LevelIter_Seek icmp,
       io_SeekToFirst = Some \<circ> LevelIter_SeekToFirst, io_SeekToLast = Some \<circ> LevelIter_SeekToLast \<rparr>"

text \<open>\<open>new_iter number size\<close> is \<open>TableCache::NewIterator\<close>, \<open>error_iter\<close> is \<open>NewErrorIterator\<close>.\<close>

definition GetFileIterator :: "(status \<Rightarrow> 'd) \<Rightarrow> (uint64 \<Rightarrow> uint64 \<Rightarrow> 'c \<Rightarrow> ('d \<times> 'c) option) \<Rightarrow> slice \<Rightarrow> 'c \<Rightarrow> ('d \<times> 'c) option" where
  "GetFileIterator error_iter new_iter file_value cache =
     (if length file_value \<noteq> 16 then Some (error_iter (Status_Corruption (str ''FileReader invoked with unexpected value'') []), cache)
      else new_iter (DecodeFixed64 file_value) (DecodeFixed64 (drop 8 file_value)) cache)"

definition NewConcatenatingIterator :: "(slice \<Rightarrow> slice \<Rightarrow> int) \<Rightarrow> FileMetaData list \<Rightarrow> 'c \<Rightarrow> (LevelFileNumIterator, 'd, 'c) TwoLevelIterator option" where
  "NewConcatenatingIterator icmp files cache = NewTwoLevelIterator (level_iter_ops icmp) (LevelFileNumIterator_new files) cache"

subsection \<open>Point lookups\<close>

datatype SaverState = kNotFound | kFound | kDeleted | kCorrupt

record Saver =
  sv_state :: SaverState
  sv_user_key :: slice
  sv_value :: slice

definition SaveValue :: "(slice \<Rightarrow> slice \<Rightarrow> int) \<Rightarrow> Saver \<Rightarrow> slice \<Rightarrow> slice \<Rightarrow> Saver" where
  "SaveValue ucmp s ikey v =
     (case ParseInternalKey ikey of
        None \<Rightarrow> s \<lparr> sv_state := kCorrupt \<rparr>
      | Some parsed_key \<Rightarrow>
          if ucmp (user_key parsed_key) (sv_user_key s) = 0
          then if value_type parsed_key = kTypeValue then s \<lparr> sv_state := kFound, sv_value := v \<rparr> else s \<lparr> sv_state := kDeleted \<rparr>
          else s)"

definition NewestFirst :: "FileMetaData \<Rightarrow> FileMetaData \<Rightarrow> bool" where
  "NewestFirst a b = (fm_number b < fm_number a)"

text \<open>\<open>std::sort\<close> with \<open>NewestFirst\<close>; files with the same number, which a version does not have, would come in any order.\<close>

fun insert_newest :: "FileMetaData \<Rightarrow> FileMetaData list \<Rightarrow> FileMetaData list" where
  "insert_newest f [] = [f]"
| "insert_newest f (g # gs) = (if NewestFirst g f then g # insert_newest f gs else f # g # gs)"

definition sort_newest :: "FileMetaData list \<Rightarrow> FileMetaData list" where
  "sort_newest files = foldr insert_newest files []"

definition overlaps_key :: "(slice \<Rightarrow> slice \<Rightarrow> int) \<Rightarrow> slice \<Rightarrow> FileMetaData \<Rightarrow> bool" where
  "overlaps_key ucmp u f = (0 \<le> ucmp u (file_start f) \<and> ucmp u (file_limit f) \<le> 0)"

record GetStats =
  seek_file :: "FileMetaData option"
  seek_file_level :: int

text \<open>A version: the files of each level. The list of versions, the reference counts and the seek counters of files are left
  out; a pointer to a file is its metadata.\<close>

record Version =
  v_files :: "FileMetaData list list"

abbreviation level_files :: "Version \<Rightarrow> nat \<Rightarrow> FileMetaData list" where "level_files v level \<equiv> v_files v ! level"

text \<open>The files of a level that \<open>Get\<close> reads, in its order.\<close>

definition Get_candidates :: "(slice \<Rightarrow> slice \<Rightarrow> int) \<Rightarrow> Version \<Rightarrow> LookupKey \<Rightarrow> nat \<Rightarrow> FileMetaData list option" where
  "Get_candidates ucmp v k level =
     (let files = level_files v level; ukey = LookupKey_user_key k; ikey = LookupKey_internal_key k
      in if files = [] then Some []
         else if level = 0 then Some (sort_newest (filter (overlaps_key ucmp ukey) files))
         else case FindFile (InternalKey_Compare ucmp) files ikey of
                None \<Rightarrow> None
              | Some index \<Rightarrow>
                  if length files \<le> index then Some []
                  else if ucmp ukey (file_start (files ! index)) < 0 then Some []
                  else Some [files ! index])"

text \<open>\<open>tget number size ikey cache\<close> is \<open>TableCache::Get\<close>: a status, the entry it hands to the callback, if any, and the state of
  the cache after it.\<close>

type_synonym 'c table_get = "uint64 \<Rightarrow> uint64 \<Rightarrow> slice \<Rightarrow> 'c \<Rightarrow> (status \<times> (slice \<times> slice) option \<times> 'c) option"

record 'c get_state =
  gs_last :: "(FileMetaData \<times> int) option"
  gs_stats :: GetStats
  gs_value :: slice
  gs_cache :: 'c

text \<open>The loop over the files of a level: \<open>Some s\<close> when \<open>Get\<close> returns \<open>s\<close> from inside it.\<close>

fun Get_files :: "(slice \<Rightarrow> slice \<Rightarrow> int) \<Rightarrow> 'c table_get \<Rightarrow> LookupKey \<Rightarrow> nat \<Rightarrow> FileMetaData list \<Rightarrow> 'c get_state \<Rightarrow> (status option \<times> 'c get_state) option" where
  "Get_files ucmp tget k level [] g = Some (None, g)"
| "Get_files ucmp tget k level (f # fs) g =
     (let g = (case (gs_last g, seek_file (gs_stats g)) of
                 (Some (last_file, last_level), None) \<Rightarrow> g \<lparr> gs_stats := \<lparr> seek_file = Some last_file, seek_file_level = last_level \<rparr> \<rparr>
               | _ \<Rightarrow> g);
          g = g \<lparr> gs_last := Some (f, int level) \<rparr>;
          saver = \<lparr> sv_state = kNotFound, sv_user_key = LookupKey_user_key k, sv_value = gs_value g \<rparr>
      in case tget (fm_number f) (fm_file_size f) (LookupKey_internal_key k) (gs_cache g) of
           None \<Rightarrow> None
         | Some (s, entry, cache) \<Rightarrow>
             let saver = (case entry of None \<Rightarrow> saver | Some (ikey, v) \<Rightarrow> SaveValue ucmp saver ikey v);
                 g = g \<lparr> gs_value := sv_value saver, gs_cache := cache \<rparr>
             in if \<not> Status_ok s then Some (Some s, g)
                else case sv_state saver of
                       kNotFound \<Rightarrow> Get_files ucmp tget k level fs g
                     | kFound \<Rightarrow> Some (Some s, g)
                     | kDeleted \<Rightarrow> Some (Some (Status_NotFound [] []), g)
                     | kCorrupt \<Rightarrow> Some (Some (Status_Corruption (str ''corrupted key for '') (LookupKey_user_key k)), g))"

fun Get_levels :: "(slice \<Rightarrow> slice \<Rightarrow> int) \<Rightarrow> 'c table_get \<Rightarrow> Version \<Rightarrow> LookupKey \<Rightarrow> nat list \<Rightarrow> 'c get_state \<Rightarrow> (status \<times> 'c get_state) option" where
  "Get_levels ucmp tget v k [] g = Some (Status_NotFound [] [], g)"
| "Get_levels ucmp tget v k (level # levels) g =
     (case Get_candidates ucmp v k level of
        None \<Rightarrow> None
      | Some files \<Rightarrow>
          (case Get_files ucmp tget k level files g of
             None \<Rightarrow> None
           | Some (Some s, g) \<Rightarrow> Some (s, g)
           | Some (None, g) \<Rightarrow> Get_levels ucmp tget v k levels g))"

definition Version_Get :: "(slice \<Rightarrow> slice \<Rightarrow> int) \<Rightarrow> 'c table_get \<Rightarrow> Version \<Rightarrow> LookupKey \<Rightarrow> slice \<Rightarrow> 'c \<Rightarrow> (status \<times> slice \<times> GetStats \<times> 'c) option" where
  "Version_Get ucmp tget v k val cache =
     map_option (\<lambda>(s, g). (s, gs_value g, gs_stats g, gs_cache g))
       (Get_levels ucmp tget v k [0..<kNumLevels]
         \<lparr> gs_last = None, gs_stats = \<lparr> seek_file = None, seek_file_level = -1 \<rparr>, gs_value = val, gs_cache = cache \<rparr>)"

text \<open>\<open>func\<close> of \<open>ForEachOverlapping\<close> works on a state and tells whether to go on.\<close>

fun each_file :: "('s \<Rightarrow> nat \<Rightarrow> FileMetaData \<Rightarrow> 's \<times> bool) \<Rightarrow> nat \<Rightarrow> FileMetaData list \<Rightarrow> 's \<Rightarrow> 's \<times> bool" where
  "each_file func level [] s = (s, True)"
| "each_file func level (f # fs) s = (case func s level f of (s, True) \<Rightarrow> each_file func level fs s | (s, False) \<Rightarrow> (s, False))"

fun each_level :: "(slice \<Rightarrow> slice \<Rightarrow> int) \<Rightarrow> Version \<Rightarrow> slice \<Rightarrow> slice \<Rightarrow> ('s \<Rightarrow> nat \<Rightarrow> FileMetaData \<Rightarrow> 's \<times> bool) \<Rightarrow> nat list \<Rightarrow> 's \<Rightarrow> 's option" where
  "each_level ucmp v ukey ikey func [] s = Some s"
| "each_level ucmp v ukey ikey func (level # levels) s =
     (let files = level_files v level
      in if files = [] then each_level ucmp v ukey ikey func levels s
         else case FindFile (InternalKey_Compare ucmp) files ikey of
                None \<Rightarrow> None
              | Some index \<Rightarrow>
                  if index < length files \<and> \<not> ucmp ukey (file_start (files ! index)) < 0
                  then (case func s level (files ! index) of
                          (s, True) \<Rightarrow> each_level ucmp v ukey ikey func levels s
                        | (s, False) \<Rightarrow> Some s)
                  else each_level ucmp v ukey ikey func levels s)"

definition ForEachOverlapping :: "(slice \<Rightarrow> slice \<Rightarrow> int) \<Rightarrow> Version \<Rightarrow> slice \<Rightarrow> slice \<Rightarrow> ('s \<Rightarrow> nat \<Rightarrow> FileMetaData \<Rightarrow> 's \<times> bool) \<Rightarrow> 's \<Rightarrow> 's option" where
  "ForEachOverlapping ucmp v ukey ikey func s =
     (case each_file func 0 (sort_newest (filter (overlaps_key ucmp ukey) (level_files v 0))) s of
        (s, True) \<Rightarrow> each_level ucmp v ukey ikey func [1..<kNumLevels] s
      | (s, False) \<Rightarrow> Some s)"

subsection \<open>Files for a range\<close>

definition OverlapInLevel :: "(slice \<Rightarrow> slice \<Rightarrow> int) \<Rightarrow> Version \<Rightarrow> nat \<Rightarrow> slice option \<Rightarrow> slice option \<Rightarrow> bool option" where
  "OverlapInLevel ucmp v level = SomeFileOverlapsRange ucmp (0 < level) (level_files v level)"

partial_function (option) Overlapping_loop :: "(slice \<Rightarrow> slice \<Rightarrow> int) \<Rightarrow> bool \<Rightarrow> FileMetaData list \<Rightarrow>
    slice option \<Rightarrow> slice option \<Rightarrow> nat \<Rightarrow> FileMetaData list \<Rightarrow> FileMetaData list option" where
  "Overlapping_loop ucmp level0 files user_begin user_end i inputs =
     (if length files \<le> i then Some inputs
      else let f = files ! i in
        if (case user_begin of None \<Rightarrow> False | Some b \<Rightarrow> ucmp (file_limit f) b < 0)
        then Overlapping_loop ucmp level0 files user_begin user_end (i + 1) inputs
        else if (case user_end of None \<Rightarrow> False | Some e \<Rightarrow> 0 < ucmp (file_start f) e)
        then Overlapping_loop ucmp level0 files user_begin user_end (i + 1) inputs
        else if level0 \<and> (case user_begin of None \<Rightarrow> False | Some b \<Rightarrow> ucmp (file_start f) b < 0)
        then Overlapping_loop ucmp level0 files (Some (file_start f)) user_end 0 []
        else if level0 \<and> (case user_end of None \<Rightarrow> False | Some e \<Rightarrow> 0 < ucmp (file_limit f) e)
        then Overlapping_loop ucmp level0 files user_begin (Some (file_limit f)) 0 []
        else Overlapping_loop ucmp level0 files user_begin user_end (i + 1) (inputs @ [f]))"

definition GetOverlappingInputs :: "(slice \<Rightarrow> slice \<Rightarrow> int) \<Rightarrow> Version \<Rightarrow> nat \<Rightarrow> slice option \<Rightarrow> slice option \<Rightarrow> FileMetaData list option" where
  "GetOverlappingInputs ucmp v level begin_key end_key =
     Overlapping_loop ucmp (level = 0) (level_files v level) (map_option ExtractUserKey begin_key) (map_option ExtractUserKey end_key) 0 []"

function PickLevel_loop :: "(slice \<Rightarrow> slice \<Rightarrow> int) \<Rightarrow> Version \<Rightarrow> slice \<Rightarrow> slice \<Rightarrow> nat \<Rightarrow> nat option" where
  "PickLevel_loop ucmp v smallest largest level =
     (if level < kMaxMemCompactLevel then
        (case OverlapInLevel ucmp v (level + 1) (Some smallest) (Some largest) of
           None \<Rightarrow> None
         | Some True \<Rightarrow> Some level
         | Some False \<Rightarrow>
             if level + 2 < kNumLevels then
               (case GetOverlappingInputs ucmp v (level + 2) (Some (InternalKey smallest kMaxSequenceNumber kValueTypeForSeek))
                       (Some (InternalKey largest 0 kTypeDeletion)) of
                  None \<Rightarrow> None
                | Some overlaps \<Rightarrow>
                    if kMaxGrandParentOverlapBytes < TotalFileSize overlaps then Some level
                    else PickLevel_loop ucmp v smallest largest (level + 1))
             else PickLevel_loop ucmp v smallest largest (level + 1))
      else Some level)"
  by pat_completeness auto
termination
  by (relation "measure (\<lambda>(_, _, _, _, level). kMaxMemCompactLevel - level)") auto

declare PickLevel_loop.simps [simp del]

definition PickLevelForMemTableOutput :: "(slice \<Rightarrow> slice \<Rightarrow> int) \<Rightarrow> Version \<Rightarrow> slice \<Rightarrow> slice \<Rightarrow> nat option" where
  "PickLevelForMemTableOutput ucmp v smallest largest =
     (case OverlapInLevel ucmp v 0 (Some smallest) (Some largest) of
        None \<Rightarrow> None
      | Some True \<Rightarrow> Some 0
      | Some False \<Rightarrow> PickLevel_loop ucmp v smallest largest 0)"

subsection \<open>Sorted levels\<close>

definition file_ok :: "(slice \<Rightarrow> slice \<Rightarrow> int) \<Rightarrow> FileMetaData \<Rightarrow> bool" where
  "file_ok ucmp f \<longleftrightarrow> ParseInternalKey (fm_smallest f) \<noteq> None \<and> ParseInternalKey (fm_largest f) \<noteq> None \<and>
     InternalKey_Compare ucmp (fm_smallest f) (fm_largest f) \<le> 0"

definition level_sorted :: "(slice \<Rightarrow> slice \<Rightarrow> int) \<Rightarrow> FileMetaData list \<Rightarrow> bool" where
  "level_sorted ucmp files \<longleftrightarrow> (\<forall>f\<in>set files. file_ok ucmp f) \<and> length files < 2 ^ 31 \<and>
     sorted_wrt (\<lambda>f g. InternalKey_Compare ucmp (fm_largest f) (fm_smallest g) < 0) files"

lemma FindFile_loop_cut:
  assumes "length files < 2 ^ 31" "\<forall>i<length files. icmp (fm_largest (files ! i)) key < 0 \<longleftrightarrow> i < c"
    "unat left \<le> c" "c \<le> unat right" "unat right \<le> length files"
  shows "FindFile_loop icmp files key left right = Some (word_of_nat c)"
  using assms(3-5)
proof (induction "unat right - unat left" arbitrary: left right rule: less_induct)
  case less
  show ?case
  proof (cases "left < right")
    case False
    then have "unat right = c" using less.prems by (simp add: word_less_nat_alt)
    then have "right = word_of_nat c" by (metis of_nat_unat ucast_id)
    then show ?thesis using False by (subst FindFile_loop.simps) simp
  next
    case True
    then have lt: "unat left < unat right" by (simp add: word_less_nat_alt)
    let ?mid = "(left + right) div 2"
    have "unat (left + right) = unat left + unat right" using less.prems assms(1) by (simp add: unat_word_ariths)
    then have mid: "unat ?mid = (unat left + unat right) div 2" by (simp add: unat_div)
    have m: "unat left \<le> unat ?mid" "unat ?mid < unat right" using lt unfolding mid by linarith+
    have mid1: "unat (?mid + 1) = Suc (unat ?mid)" using m less.prems assms(1) by (simp add: unat_word_ariths)
    have im: "unat ?mid < length files" using m less.prems by simp
    show ?thesis
    proof (cases "icmp (fm_largest (files ! unat ?mid)) key < 0")
      case less_key: True
      then have "unat (?mid + 1) \<le> c" using assms(2) im mid1 by auto
      then have "FindFile_loop icmp files key (?mid + 1) right = Some (word_of_nat c)"
        using less.hyps [of right "?mid + 1"] less.prems mid1 m by simp
      then show ?thesis using True im less_key by (subst FindFile_loop.simps) (simp add: Let_def)
    next
      case False
      then have "c \<le> unat ?mid" using assms(2) im by (simp add: not_less)
      then have "FindFile_loop icmp files key left ?mid = Some (word_of_nat c)"
        using less.hyps [of ?mid left] less.prems m by simp
      then show ?thesis using True im False by (subst FindFile_loop.simps) (simp add: Let_def)
    qed
  qed
qed

lemma FindFile_cut:
  assumes "length files < 2 ^ 31" "\<forall>i<length files. icmp (fm_largest (files ! i)) key < 0 \<longleftrightarrow> i < c" "c \<le> length files"
  shows "FindFile icmp files key = Some c"
proof -
  have "unat (word_of_nat (length files) :: uint32) = length files" "unat (word_of_nat c :: uint32) = c"
    using assms(1,3) by (simp_all add: unat_of_nat take_bit_nat_eq_self)
  then show ?thesis using FindFile_loop_cut [of files icmp key c 0 "word_of_nat (length files)"] assms by (simp add: FindFile_def)
qed

lemma sorted_wrt_cut:
  assumes "sorted_wrt R xs" "\<And>x y. x \<in> set xs \<Longrightarrow> y \<in> set xs \<Longrightarrow> R x y \<Longrightarrow> P y \<Longrightarrow> P x"
  shows "\<forall>i<length xs. P (xs ! i) \<longleftrightarrow> i < length (takeWhile P xs)"
proof (intro allI impI iffI)
  fix i assume i: "i < length xs"
  show "P (xs ! i)" if "i < length (takeWhile P xs)" using that by (metis nth_mem set_takeWhileD takeWhile_nth)
  show "i < length (takeWhile P xs)" if p: "P (xs ! i)"
  proof (rule ccontr)
    assume c: "\<not> i < length (takeWhile P xs)"
    let ?n = "length (takeWhile P xs)"
    have n: "?n < length xs" "\<not> P (xs ! ?n)" using c i nth_length_takeWhile [of P xs] by simp_all
    then have "?n < i" using c p by (metis linorder_neqE_nat)
    then have "R (xs ! ?n) (xs ! i)" using assms(1) i by (simp add: sorted_wrt_iff_nth_less)
    then show False using assms(2) [of "xs ! ?n" "xs ! i"] n i p by simp
  qed
qed

context user_comparator
begin

lemma file_ok_user: "file_ok cmp f \<Longrightarrow> cmp (file_start f) (file_limit f) \<le> 0"
  by (auto simp: file_ok_def ikey_le_iff)

lemma level_sorted_largest:
  assumes "level_sorted cmp files"
  shows "sorted_wrt (\<lambda>f g. InternalKey_Compare cmp (fm_largest f) (fm_largest g) < 0) files"
proof (rule sorted_wrt_mono_rel [rotated])
  show "sorted_wrt (\<lambda>f g. InternalKey_Compare cmp (fm_largest f) (fm_smallest g) < 0) files" using assms by (simp add: level_sorted_def)
  fix f g assume "f \<in> set files" "g \<in> set files" "InternalKey_Compare cmp (fm_largest f) (fm_smallest g) < 0"
  moreover have "InternalKey_Compare cmp (fm_smallest g) (fm_largest g) \<le> 0" using assms calculation(2) by (auto simp: level_sorted_def file_ok_def)
  ultimately show "InternalKey_Compare cmp (fm_largest f) (fm_largest g) < 0" by (metis ikey_flip ikey_trans linorder_not_less)
qed

lemma level_cut:
  assumes "level_sorted cmp files"
  shows "\<forall>i<length files. InternalKey_Compare cmp (fm_largest (files ! i)) key < 0 \<longleftrightarrow>
    i < length (takeWhile (\<lambda>f. InternalKey_Compare cmp (fm_largest f) key < 0) files)"
proof (rule sorted_wrt_cut [OF level_sorted_largest [OF assms]])
  fix f g assume "InternalKey_Compare cmp (fm_largest f) (fm_largest g) < 0" "InternalKey_Compare cmp (fm_largest g) key < 0"
  then show "InternalKey_Compare cmp (fm_largest f) key < 0" by (metis ikey_flip ikey_trans linorder_not_less order_less_imp_le)
qed

lemma FindFile_level:
  assumes "level_sorted cmp files"
  shows "FindFile (InternalKey_Compare cmp) files key = Some (length (takeWhile (\<lambda>f. InternalKey_Compare cmp (fm_largest f) key < 0) files))"
  using FindFile_cut [OF _ level_cut [OF assms]] assms by (simp add: level_sorted_def length_takeWhile_le)

text \<open>The earliest internal key of a user key is below an entry exactly when its user key is not above that of the entry.\<close>

lemma before_earliest:
  assumes "ParseInternalKey k \<noteq> None"
  shows "InternalKey_Compare cmp k (InternalKey u kMaxSequenceNumber kValueTypeForSeek) < 0 \<longleftrightarrow> cmp (ExtractUserKey k) u < 0"
proof -
  obtain ik where ik: "ParseInternalKey k = Some ik" using assms by blast
  have "unat kMaxSequenceNumber < 2 ^ 56" by (simp add: kMaxSequenceNumber_def)
  then have "internal_tag k \<le> PackSequenceAndType kMaxSequenceNumber kValueTypeForSeek"
    using ParseInternalKey_tag [OF ik] Pack_seek_le_iff kMaxSequenceNumber_unat by simp
  then show ?thesis by (auto simp: ikey_less_iff)
qed

lemma user_start_mono:
  assumes "level_sorted cmp files" "i \<le> j" "j < length files"
  shows "cmp (file_start (files ! i)) (file_start (files ! j)) \<le> 0"
proof (cases "i = j")
  case False
  then have "InternalKey_Compare cmp (fm_largest (files ! i)) (fm_smallest (files ! j)) < 0"
    using assms by (simp add: level_sorted_def sorted_wrt_iff_nth_less)
  then have "cmp (file_limit (files ! i)) (file_start (files ! j)) \<le> 0" by (auto simp: ikey_less_iff)
  moreover have "cmp (file_start (files ! i)) (file_limit (files ! i)) \<le> 0" using assms file_ok_user by (simp add: level_sorted_def)
  ultimately show ?thesis using cmp_trans by blast
qed (simp add: cmp_refl)

lemma overlaps_search:
  assumes "level_sorted cmp files"
  shows "SomeFileOverlapsRange cmp True files lo hi = SomeFileOverlapsRange cmp False files lo hi"
proof -
  let ?c = "case lo of None \<Rightarrow> 0 | Some u \<Rightarrow> length (takeWhile (\<lambda>f. cmp (file_limit f) u < 0) files)"
  have parse: "\<forall>f\<in>set files. ParseInternalKey (fm_largest f) \<noteq> None" using assms by (auto simp: level_sorted_def file_ok_def)
  have after: "AfterFile cmp lo (files ! i) \<longleftrightarrow> i < ?c" if "i < length files" for i
  proof (cases lo)
    case (Some u)
    have "takeWhile (\<lambda>f. InternalKey_Compare cmp (fm_largest f) (InternalKey u kMaxSequenceNumber kValueTypeForSeek) < 0) files =
        takeWhile (\<lambda>f. cmp (file_limit f) u < 0) files"
      by (rule takeWhile_cong) (use before_earliest parse in auto)
    then show ?thesis
      using level_cut [OF assms, of "InternalKey u kMaxSequenceNumber kValueTypeForSeek"] that Some before_earliest parse cmp_flip by (simp add: AfterFile_def)
  qed (simp add: AfterFile_def)
  have find: "(case lo of None \<Rightarrow> Some 0 | Some u \<Rightarrow> FindFile (InternalKey_Compare cmp) files (InternalKey u kMaxSequenceNumber kValueTypeForSeek)) = Some ?c"
  proof (cases lo)
    case (Some u)
    have "takeWhile (\<lambda>f. InternalKey_Compare cmp (fm_largest f) (InternalKey u kMaxSequenceNumber kValueTypeForSeek) < 0) files =
        takeWhile (\<lambda>f. cmp (file_limit f) u < 0) files"
      by (rule takeWhile_cong) (use before_earliest parse in auto)
    then show ?thesis using Some FindFile_level [OF assms] by simp
  qed simp
  have "(\<exists>f\<in>set files. \<not> (AfterFile cmp lo f \<or> BeforeFile cmp hi f)) \<longleftrightarrow> ?c < length files \<and> \<not> BeforeFile cmp hi (files ! ?c)"
  proof
    assume "\<exists>f\<in>set files. \<not> (AfterFile cmp lo f \<or> BeforeFile cmp hi f)"
    then obtain i where i: "i < length files" "?c \<le> i" "\<not> BeforeFile cmp hi (files ! i)" using after by (auto simp: in_set_conv_nth not_less)
    then have "\<not> BeforeFile cmp hi (files ! ?c)"
      using user_start_mono [OF assms i(2,1)] cmp_less_le_trans by (auto simp: BeforeFile_def split: option.splits)
    then show "?c < length files \<and> \<not> BeforeFile cmp hi (files ! ?c)" using i by simp
  next
    assume "?c < length files \<and> \<not> BeforeFile cmp hi (files ! ?c)"
    then show "\<exists>f\<in>set files. \<not> (AfterFile cmp lo f \<or> BeforeFile cmp hi f)" using after [of ?c] nth_mem by blast
  qed
  then show ?thesis unfolding SomeFileOverlapsRange_def find by (simp add: list_ex_iff not_le)
qed

end

subsection \<open>Inputs of a compaction\<close>

definition starts_before :: "(slice \<Rightarrow> slice \<Rightarrow> int) \<Rightarrow> slice option \<Rightarrow> FileMetaData \<Rightarrow> bool" where
  "starts_before ucmp b f = (case b of None \<Rightarrow> False | Some b \<Rightarrow> ucmp (file_start f) b < 0)"

definition ends_after :: "(slice \<Rightarrow> slice \<Rightarrow> int) \<Rightarrow> slice option \<Rightarrow> FileMetaData \<Rightarrow> bool" where
  "ends_after ucmp e f = (case e of None \<Rightarrow> False | Some e \<Rightarrow> 0 < ucmp (file_limit f) e)"

definition in_range :: "(slice \<Rightarrow> slice \<Rightarrow> int) \<Rightarrow> slice option \<Rightarrow> slice option \<Rightarrow> FileMetaData \<Rightarrow> bool" where
  "in_range ucmp b e f \<longleftrightarrow> \<not> (case b of None \<Rightarrow> False | Some b \<Rightarrow> ucmp (file_limit f) b < 0) \<and>
     \<not> (case e of None \<Rightarrow> False | Some e \<Rightarrow> 0 < ucmp (file_start f) e)"

text \<open>A range such that every file it meets lies inside it, and ranges inside one another.\<close>

definition closed_range :: "(slice \<Rightarrow> slice \<Rightarrow> int) \<Rightarrow> FileMetaData list \<Rightarrow> slice option \<Rightarrow> slice option \<Rightarrow> bool" where
  "closed_range ucmp files b e \<longleftrightarrow> (\<forall>f\<in>set files. in_range ucmp b e f \<longrightarrow> \<not> starts_before ucmp b f \<and> \<not> ends_after ucmp e f)"

definition range_covers :: "(slice \<Rightarrow> slice \<Rightarrow> int) \<Rightarrow> slice option \<Rightarrow> slice option \<Rightarrow> slice option \<Rightarrow> slice option \<Rightarrow> bool" where
  "range_covers ucmp x y b e \<longleftrightarrow>
     (case x of None \<Rightarrow> True | Some x \<Rightarrow> (case b of None \<Rightarrow> False | Some b \<Rightarrow> ucmp x b \<le> 0)) \<and>
     (case y of None \<Rightarrow> True | Some y \<Rightarrow> (case e of None \<Rightarrow> False | Some e \<Rightarrow> ucmp e y \<le> 0))"

definition range_rank :: "(slice \<Rightarrow> slice \<Rightarrow> int) \<Rightarrow> FileMetaData list \<Rightarrow> slice option \<Rightarrow> slice option \<Rightarrow> nat" where
  "range_rank ucmp files b e = length (filter (starts_before ucmp b) files) + length (filter (ends_after ucmp e) files)"

lemma length_filter_less:
  assumes "\<And>x. P x \<Longrightarrow> Q x" "a \<in> set xs" "Q a" "\<not> P a"
  shows "length (filter P xs) < length (filter Q xs)"
  using assms(2)
proof (induction xs)
  case (Cons x xs)
  have le: "length (filter P xs) \<le> length (filter Q xs)" for xs using assms(1) by (induction xs) auto
  show ?case
  proof (cases "a = x")
    case True
    then show ?thesis using assms(3,4) le [of xs] by simp
  next
    case False
    then have "length (filter P xs) < length (filter Q xs)" using Cons by simp
    then show ?thesis using assms(1) [of x] by (cases "P x") auto
  qed
qed simp

context user_comparator
begin

lemma cmp_le_lt: "cmp a b \<le> 0 \<Longrightarrow> cmp b c < 0 \<Longrightarrow> cmp a c < 0" using cmp_le_less_trans by blast

lemma covers_refl: "range_covers cmp b e b e"
  by (simp add: range_covers_def cmp_refl split: option.splits)

lemma covers_trans: "range_covers cmp x y b e \<Longrightarrow> range_covers cmp b e c d \<Longrightarrow> range_covers cmp x y c d"
  using cmp_trans by (auto simp: range_covers_def split: option.splits)

lemma in_range_covers: "range_covers cmp x y b e \<Longrightarrow> in_range cmp b e f \<Longrightarrow> in_range cmp x y f"
  unfolding in_range_def range_covers_def using cmp_less_le_trans cmp_flip cmp_flip_le
  by (simp split: option.splits) (meson TrueI linorder_not_less)+

lemma rank_begin:
  assumes "f \<in> set files" "starts_before cmp b f"
  shows "range_rank cmp files (Some (file_start f)) e < range_rank cmp files b e" "range_covers cmp (Some (file_start f)) e b e"
proof -
  obtain x where x: "b = Some x" "cmp (file_start f) x < 0" using assms(2) by (auto simp: starts_before_def split: option.splits)
  have "length (filter (starts_before cmp (Some (file_start f))) files) < length (filter (starts_before cmp b) files)"
  proof (rule length_filter_less [of _ _ f])
    show "starts_before cmp b g" if "starts_before cmp (Some (file_start f)) g" for g
      using that x cmp_less_trans [of "file_start g" "file_start f" x] by (simp add: starts_before_def)
  qed (use assms cmp_irrefl in \<open>simp_all add: starts_before_def\<close>)
  then show "range_rank cmp files (Some (file_start f)) e < range_rank cmp files b e" by (simp add: range_rank_def)
  show "range_covers cmp (Some (file_start f)) e b e" using x by (simp add: range_covers_def cmp_refl split: option.splits)
qed

lemma rank_end:
  assumes "f \<in> set files" "ends_after cmp e f"
  shows "range_rank cmp files b (Some (file_limit f)) < range_rank cmp files b e" "range_covers cmp b (Some (file_limit f)) b e"
proof -
  obtain x where x: "e = Some x" "cmp x (file_limit f) < 0" using assms(2) cmp_flip by (auto simp: ends_after_def split: option.splits)
  have "length (filter (ends_after cmp (Some (file_limit f))) files) < length (filter (ends_after cmp e) files)"
  proof (rule length_filter_less [of _ _ f])
    show "ends_after cmp e g" if "ends_after cmp (Some (file_limit f)) g" for g
      using that x cmp_less_trans [of x "file_limit f" "file_limit g"] cmp_flip [of "file_limit f" "file_limit g"] cmp_flip [of x "file_limit g"]
      by (simp add: ends_after_def)
  qed (use assms cmp_refl in \<open>simp_all add: ends_after_def\<close>)
  then show "range_rank cmp files b (Some (file_limit f)) < range_rank cmp files b e" by (simp add: range_rank_def)
  show "range_covers cmp b (Some (file_limit f)) b e" using x by (simp add: range_covers_def cmp_refl split: option.splits)
qed

lemma covers_begin: "range_covers cmp x y b e \<Longrightarrow> in_range cmp b e f \<Longrightarrow> f \<in> set files \<Longrightarrow> closed_range cmp files x y \<Longrightarrow>
    range_covers cmp x y (Some (file_start f)) e"
  using in_range_covers [of x y b e f] cmp_flip_le
  by (auto simp: closed_range_def range_covers_def starts_before_def not_less split: option.splits)

lemma covers_end: "range_covers cmp x y b e \<Longrightarrow> in_range cmp b e f \<Longrightarrow> f \<in> set files \<Longrightarrow> closed_range cmp files x y \<Longrightarrow>
    range_covers cmp x y b (Some (file_limit f))"
  using in_range_covers [of x y b e f]
  by (auto simp: closed_range_def range_covers_def ends_after_def not_less split: option.splits)

lemma Overlapping_loop_law:
  assumes "i \<le> length files" "inputs = filter (in_range cmp b e) (take i files)"
    "level0 \<Longrightarrow> \<forall>f\<in>set inputs. \<not> starts_before cmp b f \<and> \<not> ends_after cmp e f"
  shows "\<exists>b' e'. Overlapping_loop cmp level0 files b e i inputs = Some (filter (in_range cmp b' e') files) \<and> range_covers cmp b' e' b e \<and>
    (\<not> level0 \<longrightarrow> b' = b \<and> e' = e) \<and>
    (level0 \<longrightarrow> closed_range cmp files b' e' \<and> (\<forall>x y. range_covers cmp x y b e \<and> closed_range cmp files x y \<longrightarrow> range_covers cmp x y b' e'))"
  using assms
proof (induction "range_rank cmp files b e * Suc (length files) + (length files - i)" arbitrary: b e i inputs rule: less_induct)
  case less
  show ?case
  proof (cases "i = length files")
    case True
    then have "Overlapping_loop cmp level0 files b e i inputs = Some (filter (in_range cmp b e) files)"
      using less.prems(2) by (subst Overlapping_loop.simps) simp
    moreover have "closed_range cmp files b e" if level0 using less.prems(2,3) True that by (auto simp: closed_range_def)
    ultimately show ?thesis using covers_refl by blast
  next
    case False
    then have i: "i < length files" using less.prems(1) by simp
    let ?f = "files ! i"
    have f: "?f \<in> set files" using i by simp
    have tk: "take (Suc i) files = take i files @ [?f]" using i by (simp add: take_Suc_conv_app_nth)
    show ?thesis
    proof (cases "in_range cmp b e ?f")
      case False
      then have "Overlapping_loop cmp level0 files b e i inputs = Overlapping_loop cmp level0 files b e (Suc i) inputs"
        using i by (subst Overlapping_loop.simps) (auto simp: in_range_def Let_def)
      moreover have "inputs = filter (in_range cmp b e) (take (Suc i) files)" using less.prems(2) tk False by simp
      ultimately show ?thesis using less.hyps [of b e "Suc i" inputs] less.prems(3) i by simp
    next
      case True
      note in_f = True [unfolded in_range_def, THEN conjunct1] True [unfolded in_range_def, THEN conjunct2]
      show ?thesis
      proof (cases "level0 \<and> (starts_before cmp b ?f \<or> ends_after cmp e ?f)")
        case True
        define b1 where "b1 = (if starts_before cmp b ?f then Some (file_start ?f) else b)"
        define e1 where "e1 = (if starts_before cmp b ?f then e else Some (file_limit ?f))"
        have lp: "Overlapping_loop cmp level0 files b e i inputs = Overlapping_loop cmp level0 files b1 e1 0 []"
          using i True in_f unfolding b1_def e1_def starts_before_def ends_after_def by (subst Overlapping_loop.simps) (auto simp: Let_def)
        have rk: "range_rank cmp files b1 e1 < range_rank cmp files b e" and cv: "range_covers cmp b1 e1 b e"
          using rank_begin [OF f] rank_end [OF f] True by (auto simp: b1_def e1_def)
        have "range_rank cmp files b1 e1 * Suc (length files) + (length files - 0) < Suc (range_rank cmp files b1 e1) * Suc (length files)" by simp
        also have "\<dots> \<le> range_rank cmp files b e * Suc (length files)" using rk by (intro mult_le_mono1) simp
        finally have "range_rank cmp files b1 e1 * Suc (length files) + (length files - 0) < range_rank cmp files b e * Suc (length files) + (length files - i)" by simp
        from less.hyps [OF this, of "[]"] obtain b' e' where r: "Overlapping_loop cmp level0 files b1 e1 0 [] = Some (filter (in_range cmp b' e') files)"
            "range_covers cmp b' e' b1 e1" "closed_range cmp files b' e'"
            "\<forall>x y. range_covers cmp x y b1 e1 \<and> closed_range cmp files x y \<longrightarrow> range_covers cmp x y b' e'"
          using True by auto
        have "range_covers cmp x y b1 e1" if "range_covers cmp x y b e" "closed_range cmp files x y" for x y
          using covers_begin [OF that(1) \<open>in_range cmp b e ?f\<close> f that(2)] covers_end [OF that(1) \<open>in_range cmp b e ?f\<close> f that(2)] that(1)
          by (simp add: b1_def e1_def)
        then show ?thesis using r lp covers_trans [OF r(2) cv] True by (intro exI [of _ b'] exI [of _ e']) auto
      next
        case False
        then have "Overlapping_loop cmp level0 files b e i inputs = Overlapping_loop cmp level0 files b e (Suc i) (inputs @ [?f])"
          using i in_f by (subst Overlapping_loop.simps) (auto simp: Let_def starts_before_def ends_after_def)
        moreover have "inputs @ [?f] = filter (in_range cmp b e) (take (Suc i) files)" using less.prems(2) tk True by simp
        moreover have "\<forall>f\<in>set (inputs @ [?f]). \<not> starts_before cmp b f \<and> \<not> ends_after cmp e f" if level0 using that False less.prems(3) by auto
        ultimately show ?thesis using less.hyps [of b e "Suc i" "inputs @ [?f]"] i by simp
      qed
    qed
  qed
qed

end

definition version_ok :: "(slice \<Rightarrow> slice \<Rightarrow> int) \<Rightarrow> Version \<Rightarrow> bool" where
  "version_ok ucmp v \<longleftrightarrow> length (v_files v) = kNumLevels \<and> (\<forall>level. 0 < level \<and> level < kNumLevels \<longrightarrow> level_sorted ucmp (level_files v level))"

context user_comparator
begin

lemma in_range_ends: "in_range cmp b e f \<longleftrightarrow> \<not> (AfterFile cmp b f \<or> BeforeFile cmp e f)"
  using cmp_flip by (auto simp: in_range_def AfterFile_def BeforeFile_def split: option.splits)

lemma OverlapInLevel_law:
  assumes "version_ok cmp v" "level < kNumLevels"
  shows "OverlapInLevel cmp v level b e = Some (\<exists>f\<in>set (level_files v level). in_range cmp b e f)"
proof -
  have "SomeFileOverlapsRange cmp False (level_files v level) b e = Some (\<exists>f\<in>set (level_files v level). in_range cmp b e f)"
    by (simp add: SomeFileOverlapsRange_def list_ex_iff in_range_ends)
  moreover have "SomeFileOverlapsRange cmp True (level_files v level) b e = SomeFileOverlapsRange cmp False (level_files v level) b e" if "0 < level"
    using overlaps_search assms that by (simp add: version_ok_def)
  ultimately show ?thesis unfolding OverlapInLevel_def by (cases "0 < level") simp_all
qed

lemma GetOverlapping_law:
  "\<exists>b' e'. GetOverlappingInputs cmp v level b e = Some (filter (in_range cmp b' e') (level_files v level)) \<and>
    range_covers cmp b' e' (map_option ExtractUserKey b) (map_option ExtractUserKey e) \<and>
    (level \<noteq> 0 \<longrightarrow> b' = map_option ExtractUserKey b \<and> e' = map_option ExtractUserKey e) \<and>
    (level = 0 \<longrightarrow> closed_range cmp (level_files v 0) b' e' \<and>
      (\<forall>x y. range_covers cmp x y (map_option ExtractUserKey b) (map_option ExtractUserKey e) \<and> closed_range cmp (level_files v 0) x y \<longrightarrow> range_covers cmp x y b' e'))"
  using Overlapping_loop_law [of 0 "level_files v level" "[]" "map_option ExtractUserKey b" "map_option ExtractUserKey e" "level = 0"]
  by (auto simp: GetOverlappingInputs_def)

lemma PickLevel_loop_law:
  assumes "version_ok cmp v" "level \<le> kMaxMemCompactLevel" "0 < level \<or> (\<forall>f\<in>set (level_files v 0). \<not> in_range cmp (Some lo) (Some hi) f)"
    "\<forall>l\<le>level. 0 < level \<longrightarrow> (\<forall>f\<in>set (level_files v l). \<not> in_range cmp (Some lo) (Some hi) f)"
    "\<forall>l<level. TotalFileSize (filter (in_range cmp (Some lo) (Some hi)) (level_files v (l + 2))) \<le> kMaxGrandParentOverlapBytes"
  shows "\<exists>r. PickLevel_loop cmp v lo hi level = Some r \<and> r \<le> kMaxMemCompactLevel \<and>
    (0 < r \<longrightarrow> (\<forall>l\<le>r. \<forall>f\<in>set (level_files v l). \<not> in_range cmp (Some lo) (Some hi) f)) \<and>
    (\<forall>l<r. TotalFileSize (filter (in_range cmp (Some lo) (Some hi)) (level_files v (l + 2))) \<le> kMaxGrandParentOverlapBytes)"
  using assms(2-5)
proof (induction "kMaxMemCompactLevel - level" arbitrary: level rule: less_induct)
  case less
  let ?in = "in_range cmp (Some lo) (Some hi)"
  show ?case
  proof (cases "level < kMaxMemCompactLevel")
    case False
    then show ?thesis using less.prems by (subst PickLevel_loop.simps) auto
  next
    case True
    then have lv: "level + 1 < kNumLevels" "level + 2 < kNumLevels" by (simp_all add: kMaxMemCompactLevel_def kNumLevels_def)
    have o: "OverlapInLevel cmp v (level + 1) (Some lo) (Some hi) = Some (\<exists>f\<in>set (level_files v (level + 1)). ?in f)"
      using OverlapInLevel_law [OF assms(1) lv(1)] .
    have g: "GetOverlappingInputs cmp v (level + 2) (Some (InternalKey lo kMaxSequenceNumber kValueTypeForSeek)) (Some (InternalKey hi 0 kTypeDeletion)) =
        Some (filter ?in (level_files v (level + 2)))"
      using GetOverlapping_law [of v "level + 2" "Some (InternalKey lo kMaxSequenceNumber kValueTypeForSeek)" "Some (InternalKey hi 0 kTypeDeletion)"] by auto
    note step = PickLevel_loop.simps [of cmp v lo hi level]
    show ?thesis
    proof (cases "(\<exists>f\<in>set (level_files v (level + 1)). ?in f) \<or> kMaxGrandParentOverlapBytes < TotalFileSize (filter ?in (level_files v (level + 2)))")
      case stop: True
      then have "PickLevel_loop cmp v lo hi level = Some level"
        unfolding step o g using True lv by (cases "\<exists>f\<in>set (level_files v (level + 1)). ?in f") auto
      then show ?thesis using less.prems by auto
    next
      case go: False
      then have "PickLevel_loop cmp v lo hi level = PickLevel_loop cmp v lo hi (level + 1)"
        unfolding step o g using True lv by auto
      moreover have "\<forall>l\<le>level + 1. \<forall>f\<in>set (level_files v l). \<not> ?in f" using less.prems(2,3) go by (auto simp: le_Suc_eq)
      moreover have "\<forall>l<level + 1. TotalFileSize (filter ?in (level_files v (l + 2))) \<le> kMaxGrandParentOverlapBytes"
        using less.prems(4) go by (auto simp: less_Suc_eq not_less)
      ultimately show ?thesis using less.hyps [of "level + 1"] True by auto
    qed
  qed
qed

lemma PickLevel_law:
  assumes "version_ok cmp v"
  shows "\<exists>r. PickLevelForMemTableOutput cmp v lo hi = Some r \<and> r \<le> kMaxMemCompactLevel \<and>
    (0 < r \<longrightarrow> (\<forall>l\<le>r. \<forall>f\<in>set (level_files v l). \<not> in_range cmp (Some lo) (Some hi) f)) \<and>
    (\<forall>l<r. TotalFileSize (filter (in_range cmp (Some lo) (Some hi)) (level_files v (l + 2))) \<le> kMaxGrandParentOverlapBytes)"
proof (cases "\<exists>f\<in>set (level_files v 0). in_range cmp (Some lo) (Some hi) f")
  case True
  then show ?thesis using OverlapInLevel_law [OF assms, of 0] by (simp add: PickLevelForMemTableOutput_def kNumLevels_def)
next
  case False
  then show ?thesis using OverlapInLevel_law [OF assms, of 0] PickLevel_loop_law [OF assms, of 0]
    by (auto simp: PickLevelForMemTableOutput_def kNumLevels_def)
qed

end

subsection \<open>The iterator over a level\<close>

text \<open>The entries of the iterator over the files, and of the level.\<close>

definition level_index :: "FileMetaData list \<Rightarrow> entries" where
  "level_index files = map (\<lambda>f. (fm_largest f, EncodeFixed64 (fm_number f) @ EncodeFixed64 (fm_file_size f))) files"

definition level_at :: "(slice \<Rightarrow> bool) \<Rightarrow> (slice \<Rightarrow> slice \<Rightarrow> int) \<Rightarrow> LevelFileNumIterator \<Rightarrow> entries \<Rightarrow> nat \<Rightarrow> bool" where
  "level_at valid ucmp it es j \<longleftrightarrow> es = level_index (lf_flist it) \<and> level_sorted ucmp (lf_flist it) \<and> (\<forall>f\<in>set (lf_flist it). valid (fm_largest f)) \<and>
     j \<le> length es \<and> unat (lf_index it) = j"

context user_comparator
begin

lemma level_cursor:
  assumes "key_order valid (InternalKey_Compare cmp)"
  shows "cursor valid (InternalKey_Compare cmp) (level_iter_ops (InternalKey_Compare cmp)) (level_at valid cmp)"
proof (intro cursor.intro cursor_axioms.intro assms)
  fix it es j
  assume a: "level_at valid cmp it es j"
  let ?n = "length (lf_flist it)"
  have s: "level_sorted cmp (lf_flist it)" "es = level_index (lf_flist it)" "j \<le> ?n" "unat (lf_index it) = j" "\<forall>f\<in>set (lf_flist it). valid (fm_largest f)"
    using a by (auto simp: level_at_def level_index_def)
  have n: "?n < 2 ^ 31" "length es = ?n" using s by (simp_all add: level_sorted_def level_index_def)
  have u: "unat (word_of_nat k :: uint32) = k" if "k \<le> ?n" for k using that n(1) by (simp add: unat_of_nat take_bit_nat_eq_self)
  have at: "level_at valid cmp (it \<lparr> lf_index := word_of_nat k \<rparr>) es k" if "k \<le> ?n" for k
    using a that u [OF that] n by (simp add: level_at_def)
  show "sorted_entries valid (InternalKey_Compare cmp) es"
    using level_sorted_largest [OF s(1)] s(2,5) by (auto simp: sorted_entries_def level_index_def sorted_wrt_map)
  show "j \<le> length es" "io_Valid (level_iter_ops (InternalKey_Compare cmp)) it = (j < length es)"
    using s n by (simp_all add: level_iter_ops_def LevelIter_Valid_def)
  show "io_status (level_iter_ops (InternalKey_Compare cmp)) it = Status_OK" by (simp add: level_iter_ops_def)
  show "\<exists>i'. io_SeekToFirst (level_iter_ops (InternalKey_Compare cmp)) it = Some i' \<and> level_at valid cmp i' es 0"
    using at [of 0] by (simp add: level_iter_ops_def LevelIter_SeekToFirst_def)
  show "\<exists>i'. io_SeekToLast (level_iter_ops (InternalKey_Compare cmp)) it = Some i' \<and> level_at valid cmp i' es (step_back (length es) (length es))"
    using at [of "?n - 1"] at [of 0] n(2) by (auto simp: level_iter_ops_def LevelIter_SeekToLast_def step_back_def)
  show "\<exists>i'. io_Seek (level_iter_ops (InternalKey_Compare cmp)) k it = Some i' \<and> level_at valid cmp i' es (cut_pos (\<lambda>a. InternalKey_Compare cmp a k < 0) es)" for k
  proof -
    have "cut_pos (\<lambda>a. InternalKey_Compare cmp a k < 0) es = length (takeWhile (\<lambda>f. InternalKey_Compare cmp (fm_largest f) k < 0) (lf_flist it))"
      unfolding s(2) by (simp add: cut_pos_def level_index_def takeWhile_map comp_def)
    then show ?thesis using at FindFile_level [OF s(1), of k] by (simp add: level_iter_ops_def LevelIter_Seek_def length_takeWhile_le)
  qed
  assume j: "j < length es"
  show "io_key (level_iter_ops (InternalKey_Compare cmp)) it = fst (es ! j)" "io_value (level_iter_ops (InternalKey_Compare cmp)) it = snd (es ! j)"
    using s j n(2) by (simp_all add: level_iter_ops_def LevelIter_key_def LevelIter_value_def level_index_def Let_def)
  have w: "lf_index it = word_of_nat j" using s(4) by (metis of_nat_unat ucast_id)
  show "\<exists>i'. io_Next (level_iter_ops (InternalKey_Compare cmp)) it = Some i' \<and> level_at valid cmp i' es (Suc j)"
    using at [of "Suc j"] j n(2) w by (simp add: level_iter_ops_def LevelIter_Next_def add.commute)
  show "\<exists>i'. io_Prev (level_iter_ops (InternalKey_Compare cmp)) it = Some i' \<and> level_at valid cmp i' es (step_back (length es) j)"
  proof (cases "j = 0")
    case True
    then show ?thesis using at [of ?n] n(2) w by (simp add: level_iter_ops_def LevelIter_Prev_def step_back_def)
  next
    case False
    then have "lf_index it \<noteq> 0" using s(4) by auto
    moreover have "lf_index it - 1 = word_of_nat (j - 1)" using w False by (simp add: of_nat_diff)
    ultimately show ?thesis using at [of "j - 1"] j n(2) False by (simp add: level_iter_ops_def LevelIter_Prev_def step_back_def)
  qed
qed

end

subsection \<open>Lookups in a version\<close>

definition visible_for :: "(slice \<Rightarrow> slice \<Rightarrow> int) \<Rightarrow> slice \<Rightarrow> uint64 \<Rightarrow> slice \<times> slice \<Rightarrow> bool" where
  "visible_for ucmp u s e \<longleftrightarrow> ucmp (entry_user_key e) u = 0 \<and> entry_visible s e"

text \<open>\<open>r\<close> is the entry of \<open>u\<close> in \<open>E\<close> with the largest sequence number up to \<open>s\<close>.\<close>

definition newest_visible :: "(slice \<Rightarrow> slice \<Rightarrow> int) \<Rightarrow> slice \<Rightarrow> uint64 \<Rightarrow> (slice \<times> slice) set \<Rightarrow> (slice \<times> slice) option \<Rightarrow> bool" where
  "newest_visible ucmp u s E r \<longleftrightarrow>
     (case r of None \<Rightarrow> \<forall>e\<in>E. \<not> visible_for ucmp u s e
      | Some e \<Rightarrow> e \<in> E \<and> visible_for ucmp u s e \<and> (\<forall>e'\<in>E. visible_for ucmp u s e' \<longrightarrow> internal_tag (fst e') \<le> internal_tag (fst e)))"

definition newer :: "(slice \<Rightarrow> slice \<Rightarrow> int) \<Rightarrow> (slice \<times> slice) set \<Rightarrow> (slice \<times> slice) set \<Rightarrow> bool" where
  "newer ucmp A B \<longleftrightarrow> (\<forall>a\<in>A. \<forall>b\<in>B. ucmp (entry_user_key a) (entry_user_key b) = 0 \<longrightarrow> internal_tag (fst b) < internal_tag (fst a))"

text \<open>The result of a lookup in one table: the first entry that is not below the key, which may be left out when it has
  another user key.\<close>

definition table_answer :: "(slice \<Rightarrow> slice \<Rightarrow> int) \<Rightarrow> entries \<Rightarrow> slice \<Rightarrow> (slice \<times> slice) option \<Rightarrow> bool" where
  "table_answer ucmp es k r \<longleftrightarrow>
     (case find (\<lambda>e. \<not> InternalKey_Compare ucmp (fst e) k < 0) es of
        None \<Rightarrow> r = None
      | Some e \<Rightarrow> r = Some e \<or> r = None \<and> ucmp (entry_user_key e) (ExtractUserKey k) \<noteq> 0)"

definition holds_file :: "(slice \<Rightarrow> slice \<Rightarrow> int) \<Rightarrow> FileMetaData \<Rightarrow> entries \<Rightarrow> bool" where
  "holds_file ucmp f es \<longleftrightarrow> sorted_entries valid_ikey (InternalKey_Compare ucmp) es \<and> all_parse es \<and> es \<noteq> [] \<and>
     fst (hd es) = fm_smallest f \<and> fst (last es) = fm_largest f"

lemma newest_union:
  assumes "newest_visible ucmp u s A a" "newest_visible ucmp u s B b" "a \<noteq> None \<Longrightarrow> \<forall>x\<in>A. \<forall>y\<in>B. visible_for ucmp u s x \<longrightarrow> visible_for ucmp u s y \<longrightarrow> internal_tag (fst y) < internal_tag (fst x)"
  shows "newest_visible ucmp u s (A \<union> B) (case a of None \<Rightarrow> b | Some e \<Rightarrow> Some e)"
proof (cases a)
  case None
  then show ?thesis using assms(1,2) by (auto simp: newest_visible_def split: option.splits)
next
  case (Some e)
  then have a: "e \<in> A" "visible_for ucmp u s e" "\<forall>e'\<in>A. visible_for ucmp u s e' \<longrightarrow> internal_tag (fst e') \<le> internal_tag (fst e)"
    using assms(1) by (auto simp: newest_visible_def)
  have "\<forall>e'\<in>B. visible_for ucmp u s e' \<longrightarrow> internal_tag (fst e') < internal_tag (fst e)" using assms(3) a(1,2) Some by blast
  then show ?thesis using a Some by (auto simp: newest_visible_def less_imp_le)
qed

context user_comparator
begin

lemma visible_eq: "visible_for cmp u s a \<Longrightarrow> visible_for cmp u s b \<Longrightarrow> cmp (entry_user_key a) (entry_user_key b) = 0"
proof -
  assume "visible_for cmp u s a" "visible_for cmp u s b"
  then have "cmp (entry_user_key a) u = 0" "cmp u (entry_user_key b) = 0" "cmp (entry_user_key b) u = 0" "cmp u (entry_user_key a) = 0"
    using cmp_eq_sym by (auto simp: visible_for_def)
  then have "cmp (entry_user_key a) (entry_user_key b) \<le> 0" "cmp (entry_user_key b) (entry_user_key a) \<le> 0"
    using cmp_trans [of "entry_user_key a" u "entry_user_key b"] cmp_trans [of "entry_user_key b" u "entry_user_key a"] by simp_all
  then show ?thesis using cmp_flip [of "entry_user_key a" "entry_user_key b"] by simp
qed

lemma newer_visible: "newer cmp A B \<Longrightarrow> \<forall>x\<in>A. \<forall>y\<in>B. visible_for cmp u s x \<longrightarrow> visible_for cmp u s y \<longrightarrow> internal_tag (fst y) < internal_tag (fst x)"
  using visible_eq by (auto simp: newer_def)

text \<open>Entries visible for a key are those of its user key that the lookup key does not sort after.\<close>

lemma visible_not_below:
  assumes "ParseInternalKey (fst e) \<noteq> None" "unat s < 2 ^ 56" "cmp (entry_user_key e) u = 0"
  shows "visible_for cmp u s e \<longleftrightarrow> \<not> InternalKey_Compare cmp (fst e) (InternalKey u s kValueTypeForSeek) < 0"
proof -
  obtain ik where ik: "ParseInternalKey (fst e) = Some ik" using assms(1) by blast
  have "internal_tag (fst e) \<le> PackSequenceAndType s kValueTypeForSeek \<longleftrightarrow> sequence ik \<le> s"
    using ParseInternalKey_tag [OF ik] Pack_seek_le_iff [OF assms(2)] by simp
  then show ?thesis using assms(3) ik by (auto simp: visible_for_def entry_visible_def ikey_less_iff entry_user_key_def not_less)
qed

lemma table_newest:
  assumes "sorted_entries valid_ikey (InternalKey_Compare cmp) es" "all_parse es" "unat s < 2 ^ 56"
  shows "newest_visible cmp u s (set es)
    (case find (\<lambda>e. \<not> InternalKey_Compare cmp (fst e) (InternalKey u s kValueTypeForSeek) < 0) es of
       None \<Rightarrow> None | Some e \<Rightarrow> if cmp (entry_user_key e) u = 0 then Some e else None)"
proof -
  let ?k = "InternalKey u s kValueTypeForSeek"
  let ?P = "\<lambda>e. \<not> InternalKey_Compare cmp (fst e) ?k < 0"
  have nb: "visible_for cmp u s e \<longleftrightarrow> cmp (entry_user_key e) u = 0 \<and> ?P e" if "e \<in> set es" for e
    using visible_not_below [of e s u] assms(2,3) that by (auto simp: all_parse_def visible_for_def)
  show ?thesis
  proof (cases "find ?P es")
    case None
    then have "\<not> ?P e" if "e \<in> set es" for e using that unfolding find_None_iff by blast
    then show ?thesis using nb None by (simp add: newest_visible_def)
  next
    case (Some e)
    then obtain i where i: "i < length es" "?P (es ! i)" "e = es ! i" "\<forall>j<i. \<not> ?P (es ! j)" by (auto simp: find_Some_iff)
    have after: "InternalKey_Compare cmp (fst e) (fst e') \<le> 0" if "e' \<in> set es" "?P e'" for e'
    proof -
      obtain j where j: "j < length es" "e' = es ! j" using \<open>e' \<in> set es\<close> by (auto simp: in_set_conv_nth)
      then have "i \<le> j" using i(4) \<open>?P e'\<close> by (metis not_less)
      then show ?thesis using assms(1) j i(3) internal.cmp_refl
        by (cases "i = j") (auto simp: sorted_entries_def sorted_wrt_iff_nth_less order_less_imp_le)
    qed
    show ?thesis
    proof (cases "cmp (entry_user_key e) u = 0")
      case True
      have "internal_tag (fst e') \<le> internal_tag (fst e)" if v: "e' \<in> set es" "visible_for cmp u s e'" for e'
      proof -
        have "cmp (entry_user_key e) (entry_user_key e') = 0" using visible_eq [of u s e e'] nb [of e] True i v by auto
        then show ?thesis using after [OF v(1)] nb [OF v(1)] v(2) by (auto simp: ikey_le_iff entry_user_key_def)
      qed
      then show ?thesis using Some True nb [of e] i by (auto simp: newest_visible_def)
    next
      case False
      have "\<not> visible_for cmp u s e'" if v: "e' \<in> set es" for e'
      proof
        assume vis: "visible_for cmp u s e'"
        then have "cmp (entry_user_key e) (entry_user_key e') \<le> 0" "cmp (entry_user_key e') u = 0"
          using after [OF v] nb [OF v] by (auto simp: ikey_le_iff entry_user_key_def)
        then have "cmp (entry_user_key e) u \<le> 0" using cmp_trans by fastforce
        moreover have "0 \<le> cmp (entry_user_key e) u" using i(2,3) by (auto simp: ikey_less_iff entry_user_key_def not_less)
        ultimately show False using False by simp
      qed
      then show ?thesis using Some False by (simp add: newest_visible_def)
    qed
  qed
qed

lemma holds_file_bounds:
  assumes "holds_file cmp f es" "e \<in> set es"
  shows "InternalKey_Compare cmp (fm_smallest f) (fst e) \<le> 0" "InternalKey_Compare cmp (fst e) (fm_largest f) \<le> 0"
proof -
  obtain i where i: "i < length es" "e = es ! i" using assms(2) by (auto simp: in_set_conv_nth)
  have so: "sorted_wrt (\<lambda>a b. InternalKey_Compare cmp (fst a) (fst b) < 0) es" "\<forall>e\<in>set es. valid_ikey (fst e)"
    using assms(1) by (auto simp: holds_file_def sorted_entries_def)
  have le: "InternalKey_Compare cmp (fst (es ! a)) (fst (es ! b)) \<le> 0" if "a \<le> b" "b < length es" for a b
    using so that internal.cmp_refl by (cases "a = b") (auto simp: sorted_wrt_iff_nth_less order_less_imp_le)
  have hd: "fm_smallest f = fst (es ! 0)" "fm_largest f = fst (es ! (length es - 1))"
    using assms(1) by (auto simp: holds_file_def hd_conv_nth last_conv_nth)
  show "InternalKey_Compare cmp (fm_smallest f) (fst e) \<le> 0" unfolding hd i(2) by (rule le) (use i in auto)
  show "InternalKey_Compare cmp (fst e) (fm_largest f) \<le> 0" unfolding hd i(2) by (rule le) (use i in auto)
qed

end

text \<open>A version whose files are tables with the contents \<open>tab\<close>: files with a larger number hold newer entries of a key in level 0,
  and every level holds newer entries of a key than the levels after it.\<close>

locale version_tables = user_comparator cmp sep succ for cmp sep succ +
  fixes v :: Version and tab :: "FileMetaData \<Rightarrow> entries" and tget :: "'c table_get" and ok :: "'c \<Rightarrow> bool"
  assumes levels: "version_ok cmp v"
    and tables: "level < kNumLevels \<Longrightarrow> f \<in> set (level_files v level) \<Longrightarrow> holds_file cmp f (tab f)"
    and numbers: "f \<in> set (level_files v 0) \<Longrightarrow> g \<in> set (level_files v 0) \<Longrightarrow> fm_number f = fm_number g \<Longrightarrow> f = g"
    and distinct0: "distinct (level_files v 0)"
    and newer0: "f \<in> set (level_files v 0) \<Longrightarrow> g \<in> set (level_files v 0) \<Longrightarrow> fm_number g < fm_number f \<Longrightarrow> newer cmp (set (tab f)) (set (tab g))"
    and newer_levels: "i < j \<Longrightarrow> j < kNumLevels \<Longrightarrow> f \<in> set (level_files v i) \<Longrightarrow> g \<in> set (level_files v j) \<Longrightarrow> newer cmp (set (tab f)) (set (tab g))"
    and get_law: "level < kNumLevels \<Longrightarrow> f \<in> set (level_files v level) \<Longrightarrow> valid_ikey k \<Longrightarrow> ok c \<Longrightarrow>
      \<exists>r c'. tget (fm_number f) (fm_file_size f) k c = Some (Status_OK, r, c') \<and> ok c' \<and> table_answer cmp (tab f) k r"

lemma insert_newest_set [simp]: "set (insert_newest f fs) = insert f (set fs)"
  by (induction fs) auto

lemma sort_newest_set [simp]: "set (sort_newest fs) = set fs"
  by (induction fs) (auto simp: sort_newest_def)

lemma insert_newest_sorted:
  "sorted_wrt NewestFirst fs \<Longrightarrow> \<forall>g\<in>set fs. fm_number f \<noteq> fm_number g \<Longrightarrow> sorted_wrt NewestFirst (insert_newest f fs)"
  by (induction fs) (auto simp: NewestFirst_def)

lemma sort_newest_sorted: "distinct (map fm_number fs) \<Longrightarrow> sorted_wrt NewestFirst (sort_newest fs)"
proof (induction fs)
  case (Cons f fs)
  have "sort_newest (f # fs) = insert_newest f (sort_newest fs)" by (simp add: sort_newest_def)
  then show ?case using Cons by (auto intro!: insert_newest_sorted)
qed (simp add: sort_newest_def)

lemma newest_dom:
  assumes "newest_visible ucmp u s A r" "A \<subseteq> B"
    "\<And>e. e \<in> B \<Longrightarrow> visible_for ucmp u s e \<Longrightarrow> \<exists>l\<in>A. visible_for ucmp u s l \<and> internal_tag (fst e) \<le> internal_tag (fst l)"
  shows "newest_visible ucmp u s B r"
proof (cases r)
  case None
  then have "\<forall>l\<in>A. \<not> visible_for ucmp u s l" using assms(1) by (simp add: newest_visible_def)
  then show ?thesis using None assms(3) by (auto simp: newest_visible_def)
next
  case (Some m)
  then have m: "m \<in> A" "visible_for ucmp u s m" "\<forall>e\<in>A. visible_for ucmp u s e \<longrightarrow> internal_tag (fst e) \<le> internal_tag (fst m)"
    using assms(1) by (auto simp: newest_visible_def)
  have "internal_tag (fst e) \<le> internal_tag (fst m)" if e: "e \<in> B" "visible_for ucmp u s e" for e
  proof -
    obtain l where l: "l \<in> A" "visible_for ucmp u s l" "internal_tag (fst e) \<le> internal_tag (fst l)" using assms(3) [OF e] by blast
    then have "internal_tag (fst l) \<le> internal_tag (fst m)" using m(3) by blast
    then show ?thesis using l(3) by (rule order_trans [rotated])
  qed
  then show ?thesis using Some m assms(2) by (auto simp: newest_visible_def)
qed

text \<open>What \<open>Get\<close> returns for an entry.\<close>

definition entry_status :: "slice \<times> slice \<Rightarrow> status" where
  "entry_status e = (if entry_is_value e then Status_OK else Status_NotFound [] [])"

definition entry_result :: "slice \<Rightarrow> slice \<times> slice \<Rightarrow> slice" where
  "entry_result val e = (if entry_is_value e then snd e else val)"

definition get_outcome :: "('c \<Rightarrow> bool) \<Rightarrow> (slice \<times> slice) option \<Rightarrow> 'c get_state \<Rightarrow> status option \<Rightarrow> 'c get_state \<Rightarrow> bool" where
  "get_outcome ok r g st g' \<longleftrightarrow> ok (gs_cache g') \<and> st = map_option entry_status r \<and> gs_value g' = (case r of None \<Rightarrow> gs_value g | Some e \<Rightarrow> entry_result (gs_value g) e)"

context version_tables
begin

lemma Get_file:
  assumes "level < kNumLevels" "f \<in> set (level_files v level)" "unat s < 2 ^ 56" "ok (gs_cache g)"
  shows "\<exists>r g'. newest_visible cmp u s (set (tab f)) r \<and> get_outcome ok r g (map_option entry_status r) g' \<and>
    Get_files cmp tget (LookupKey_make u s) n (f # fs) g =
      (case r of None \<Rightarrow> Get_files cmp tget (LookupKey_make u s) n fs g' | Some e \<Rightarrow> Some (Some (entry_status e), g'))"
proof -
  let ?k = "InternalKey u s kValueTypeForSeek"
  obtain a c' where a: "tget (fm_number f) (fm_file_size f) ?k (gs_cache g) = Some (Status_OK, a, c')" "ok c'" "table_answer cmp (tab f) ?k a"
    using get_law [OF assms(1,2), of ?k "gs_cache g"] assms(4) by (auto simp: valid_ikey_def)
  have h: "sorted_entries valid_ikey (InternalKey_Compare cmp) (tab f)" "all_parse (tab f)" using tables [OF assms(1,2)] by (auto simp: holds_file_def)
  define r where "r = (case a of None \<Rightarrow> None | Some e \<Rightarrow> if cmp (entry_user_key e) u = 0 then Some e else None)"
  have "newest_visible cmp u s (set (tab f)) r"
    using table_newest [OF h assms(3), of u] a(3) unfolding table_answer_def r_def by (auto split: option.splits)
  moreover have pa: "ParseInternalKey (fst e) \<noteq> None" if "a = Some e" for e
  proof -
    have "find (\<lambda>e. \<not> InternalKey_Compare cmp (fst e) ?k < 0) (tab f) = Some e" using a(3) that by (auto simp: table_answer_def split: option.splits)
    then have "e \<in> set (tab f)" unfolding find_Some_iff by auto
    then show ?thesis using h(2) by (simp add: all_parse_def)
  qed
  define st where "st = (case (gs_last g, seek_file (gs_stats g)) of
                 (Some (last_file, last_level), None) \<Rightarrow> \<lparr> seek_file = Some last_file, seek_file_level = last_level \<rparr>
               | _ \<Rightarrow> gs_stats g)"
  define g' where "g' = g \<lparr> gs_stats := st, gs_last := Some (f, int n), gs_value := (case r of None \<Rightarrow> gs_value g | Some e \<Rightarrow> entry_result (gs_value g) e), gs_cache := c' \<rparr>"
  have pre: "(case (gs_last g, seek_file (gs_stats g)) of
       (Some (last_file, last_level), None) \<Rightarrow> g \<lparr> gs_stats := \<lparr> seek_file = Some last_file, seek_file_level = last_level \<rparr> \<rparr>
     | _ \<Rightarrow> g) = g \<lparr> gs_stats := st \<rparr>"
    by (cases g) (auto simp: st_def split: option.splits)
  have sv: "(case a of None \<Rightarrow> \<lparr> sv_state = kNotFound, sv_user_key = u, sv_value = w \<rparr>
        | Some (ikey, x) \<Rightarrow> SaveValue cmp \<lparr> sv_state = kNotFound, sv_user_key = u, sv_value = w \<rparr> ikey x) =
      (case r of None \<Rightarrow> \<lparr> sv_state = kNotFound, sv_user_key = u, sv_value = w \<rparr>
        | Some e \<Rightarrow> \<lparr> sv_state = (if entry_is_value e then kFound else kDeleted), sv_user_key = u, sv_value = entry_result w e \<rparr>)" for w
  proof (cases a)
    case None
    then show ?thesis by (simp add: r_def)
  next
    case (Some e)
    then obtain ik where ik: "ParseInternalKey (fst e) = Some ik" using pa by blast
    have uk: "user_key ik = entry_user_key e" using ParseInternalKey_user_key [OF ik] by (simp add: entry_user_key_def)
    show ?thesis using Some ik uk by (cases e) (auto simp: r_def SaveValue_def entry_result_def entry_is_value_def)
  qed
  have "Get_files cmp tget (LookupKey_make u s) n (f # fs) g =
      (case r of None \<Rightarrow> Get_files cmp tget (LookupKey_make u s) n fs g' | Some e \<Rightarrow> Some (Some (entry_status e), g'))"
    unfolding Get_files.simps Let_def LookupKey_parts pre
    by (simp add: a(1) sv g'_def entry_status_def split: option.split)
  moreover have "get_outcome ok r g (map_option entry_status r) g'" using a(2) by (simp add: get_outcome_def g'_def)
  ultimately show ?thesis by blast
qed

lemma Get_files_law:
  assumes "level < kNumLevels" "set fs \<subseteq> set (level_files v level)" "sorted_wrt (\<lambda>f g. newer cmp (set (tab f)) (set (tab g))) fs"
    "unat s < 2 ^ 56" "ok (gs_cache g)"
  shows "\<exists>r st g'. newest_visible cmp u s (\<Union> (set ` tab ` set fs)) r \<and> Get_files cmp tget (LookupKey_make u s) n fs g = Some (st, g') \<and> get_outcome ok r g st g'"
  using assms(2,3,5)
proof (induction fs arbitrary: g)
  case Nil
  then show ?case by (auto simp: newest_visible_def get_outcome_def intro!: exI [of _ None])
next
  case (Cons f fs)
  obtain r g1 where r: "newest_visible cmp u s (set (tab f)) r" "get_outcome ok r g (map_option entry_status r) g1"
      "Get_files cmp tget (LookupKey_make u s) n (f # fs) g =
        (case r of None \<Rightarrow> Get_files cmp tget (LookupKey_make u s) n fs g1 | Some e \<Rightarrow> Some (Some (entry_status e), g1))"
    using Get_file [OF assms(1) _ assms(4) Cons.prems(3)] Cons.prems(1) by (metis insert_subset list.set(2))
  have g1: "ok (gs_cache g1)" using r(2) by (simp add: get_outcome_def)
  obtain r' st g' where r': "newest_visible cmp u s (\<Union> (set ` tab ` set fs)) r'" "Get_files cmp tget (LookupKey_make u s) n fs g1 = Some (st, g')" "get_outcome ok r' g1 st g'"
    using Cons.IH [OF _ _ g1] Cons.prems(1,2) by auto
  have "newer cmp (set (tab f)) (\<Union> (set ` tab ` set fs))" using Cons.prems(2) by (auto simp: newer_def)
  then have n: "newest_visible cmp u s (\<Union> (set ` tab ` set (f # fs))) (case r of None \<Rightarrow> r' | Some e \<Rightarrow> Some e)"
    using newest_union [OF r(1) r'(1) newer_visible] by simp
  show ?case
  proof (cases r)
    case None
    then have "get_outcome ok r' g st g'" using r(2) r'(3) by (cases r') (simp_all add: get_outcome_def)
    then show ?thesis using n None r(3) r'(2) by auto
  next
    case (Some e)
    then show ?thesis using n r(2,3) by auto
  qed
qed

text \<open>The candidates of a level decide about all files of the level.\<close>

lemma Get_candidates_law:
  assumes "level < kNumLevels" "unat s < 2 ^ 56"
  shows "\<exists>fs. Get_candidates cmp v (LookupKey_make u s) level = Some fs \<and> set fs \<subseteq> set (level_files v level) \<and>
    sorted_wrt (\<lambda>f g. newer cmp (set (tab f)) (set (tab g))) fs \<and>
    (\<forall>r. newest_visible cmp u s (\<Union> (set ` tab ` set fs)) r \<longrightarrow> newest_visible cmp u s (\<Union> (set ` tab ` set (level_files v level))) r)"
proof (cases "level = 0")
  case True
  let ?fs = "filter (overlaps_key cmp u) (level_files v 0)"
  have "inj_on fm_number (set ?fs)" by (rule inj_onI) (use numbers in auto)
  then have "sorted_wrt NewestFirst (sort_newest ?fs)" using distinct0 by (intro sort_newest_sorted) (simp add: distinct_map)
  then have so: "sorted_wrt (\<lambda>f g. newer cmp (set (tab f)) (set (tab g))) (sort_newest ?fs)"
    by (rule sorted_wrt_mono_rel [rotated]) (use newer0 in \<open>auto simp: NewestFirst_def\<close>)
  have out: "\<not> visible_for cmp u s e" if f: "f \<in> set (level_files v 0)" "f \<notin> set ?fs" "e \<in> set (tab f)" for e f
  proof
    assume vis: "visible_for cmp u s e"
    have h: "holds_file cmp f (tab f)" using tables f(1) assms(1) True by blast
    have "cmp (file_start f) (entry_user_key e) \<le> 0" "cmp (entry_user_key e) (file_limit f) \<le> 0"
      using holds_file_bounds [OF h f(3)] by (auto simp: ikey_le_iff entry_user_key_def)
    moreover have "cmp (entry_user_key e) u \<le> 0" "cmp u (entry_user_key e) \<le> 0" using vis cmp_eq_sym [of "entry_user_key e" u] by (auto simp: visible_for_def)
    ultimately have "cmp (file_start f) u \<le> 0" "cmp u (file_limit f) \<le> 0" using cmp_trans by blast+
    then show False using f(1,2) cmp_flip_le by (simp add: overlaps_key_def)
  qed
  have "newest_visible cmp u s (\<Union> (set ` tab ` set (level_files v 0))) r" if "newest_visible cmp u s (\<Union> (set ` tab ` set ?fs)) r" for r
    using that out by (cases r) (fastforce simp: newest_visible_def)+
  moreover have "Get_candidates cmp v (LookupKey_make u s) level = Some (sort_newest ?fs)"
    using True by (simp add: Get_candidates_def LookupKey_parts Let_def sort_newest_def)
  ultimately show ?thesis using so True by (intro exI [of _ "sort_newest ?fs"]) auto
next
  case False
  let ?files = "level_files v level" and ?k = "InternalKey u s kValueTypeForSeek"
  let ?c = "length (takeWhile (\<lambda>f. InternalKey_Compare cmp (fm_largest f) ?k < 0) ?files)"
  have ls: "level_sorted cmp ?files" using levels False assms(1) by (simp add: version_ok_def)
  note cut = level_cut [OF ls, of ?k]
  have below: "\<not> visible_for cmp u s e" if "j < ?c" "e \<in> set (tab (?files ! j))" for j e
  proof
    assume vis: "visible_for cmp u s e"
    have j: "j < length ?files" using that(1) length_takeWhile_le less_le_trans by blast
    then have h: "holds_file cmp (?files ! j) (tab (?files ! j))" using tables assms(1) by simp
    have "\<not> InternalKey_Compare cmp (fst e) ?k < 0"
      using visible_not_below [of e s u] assms(2) vis h that(2) by (auto simp: visible_for_def holds_file_def all_parse_def)
    moreover have "InternalKey_Compare cmp (fst e) (fm_largest (?files ! j)) \<le> 0" using holds_file_bounds(2) [OF h that(2)] .
    moreover have "InternalKey_Compare cmp (fm_largest (?files ! j)) ?k < 0" using cut j that(1) by blast
    ultimately show False by (metis ikey_flip ikey_trans linorder_not_less)
  qed
  have find: "FindFile (InternalKey_Compare cmp) ?files ?k = Some ?c" using FindFile_level [OF ls] .
  have above: "\<exists>l\<in>set (tab (?files ! ?c)). visible_for cmp u s l \<and> internal_tag (fst e) < internal_tag (fst l)"
    if e: "?c < j" "j < length ?files" "e \<in> set (tab (?files ! j))" "visible_for cmp u s e" for j e
  proof -
    have h: "holds_file cmp (?files ! ?c) (tab (?files ! ?c))" "holds_file cmp (?files ! j) (tab (?files ! j))"
      using tables assms(1) e(1,2) by simp_all
    let ?l = "last (tab (?files ! ?c))"
    have l: "?l \<in> set (tab (?files ! ?c))" "fst ?l = fm_largest (?files ! ?c)" using h(1) by (auto simp: holds_file_def)
    have "InternalKey_Compare cmp (fst ?l) (fm_smallest (?files ! j)) < 0" using ls e(1,2) l(2) by (simp add: level_sorted_def sorted_wrt_iff_nth_less)
    then have lt: "InternalKey_Compare cmp (fst ?l) (fst e) < 0" using holds_file_bounds(1) [OF h(2) e(3)] by (metis ikey_flip ikey_trans linorder_not_less)
    have ge: "\<not> InternalKey_Compare cmp (fst ?l) ?k < 0" using cut e(1,2) l(2) by auto
    have "cmp (entry_user_key ?l) (entry_user_key e) \<le> 0" "0 \<le> cmp (entry_user_key ?l) u"
      using lt ge by (auto simp: ikey_less_iff entry_user_key_def)
    moreover have eu: "cmp (entry_user_key e) u = 0" using e(4) by (simp add: visible_for_def)
    ultimately have lu: "cmp (entry_user_key ?l) u = 0" using cmp_trans [of "entry_user_key ?l" "entry_user_key e" u] by simp
    have "ParseInternalKey (fst ?l) \<noteq> None" using l(1) h(1) unfolding holds_file_def all_parse_def by blast
    then have "visible_for cmp u s ?l" using visible_not_below [OF _ assms(2) lu] ge by blast
    moreover have "internal_tag (fst e) < internal_tag (fst ?l)"
      using lt visible_eq [OF \<open>visible_for cmp u s ?l\<close> e(4)] by (auto simp: ikey_less_iff entry_user_key_def)
    ultimately show ?thesis using l(1) by blast
  qed
  have lift: "newest_visible cmp u s (\<Union> (set ` tab ` set ?files)) r" if c: "?c < length ?files" and n: "newest_visible cmp u s (set (tab (?files ! ?c))) r" for r
  proof -
    have dom: "\<exists>l\<in>set (tab (?files ! ?c)). visible_for cmp u s l \<and> internal_tag (fst e) \<le> internal_tag (fst l)"
      if "e \<in> \<Union> (set ` tab ` set ?files)" "visible_for cmp u s e" for e
    proof -
      obtain j where j: "j < length ?files" "e \<in> set (tab (?files ! j))" 
      proof -
        obtain f where "f \<in> set ?files" "e \<in> set (tab f)" using \<open>e \<in> _\<close> by blast
        then show ?thesis using that in_set_conv_nth [of f ?files] by metis
      qed
      then show ?thesis using below [of j e] above [of j e] that(2) by (cases j ?c rule: linorder_cases) (auto intro: less_imp_le)
    qed
    have "set (tab (?files ! ?c)) \<subseteq> \<Union> (set ` tab ` set ?files)" using nth_mem [OF c] by blast
    then show ?thesis using newest_dom [OF n _ dom] by blast
  qed
  have none: "\<not> visible_for cmp u s e" if "?c < length ?files" "cmp u (file_start (?files ! ?c)) < 0" "e \<in> set (tab (?files ! ?c))" for e
  proof
    assume vis: "visible_for cmp u s e"
    have "cmp (file_start (?files ! ?c)) (entry_user_key e) \<le> 0"
      using holds_file_bounds(1) [OF tables [OF assms(1) nth_mem [OF that(1)]] that(3)] by (auto simp: ikey_le_iff entry_user_key_def)
    then have "cmp u (entry_user_key e) < 0" using that(2) cmp_less_le_trans by blast
    then show False using vis cmp_eq_sym [of "entry_user_key e" u] by (simp add: visible_for_def)
  qed
  show ?thesis
  proof (cases "?c < length ?files")
    case True
    show ?thesis
    proof (cases "cmp u (file_start (?files ! ?c)) < 0")
      case skip: True
      have "newest_visible cmp u s (set (tab (?files ! ?c))) None" using none [OF True skip] by (simp add: newest_visible_def)
      then have "newest_visible cmp u s (\<Union> (set ` tab ` set ?files)) None" by (rule lift [OF True])
      then show ?thesis using skip True find False
        by (intro exI [of _ "[]"]) (auto simp: Get_candidates_def LookupKey_parts Let_def newest_visible_def split: option.splits)
    next
      case read: False
      then show ?thesis using lift [OF True] True find False
        by (intro exI [of _ "[?files ! ?c]"]) (auto simp: Get_candidates_def LookupKey_parts Let_def)
    qed
  next
    case end_: False
    then have "?c = length ?files" using length_takeWhile_le le_neq_implies_less by blast
    then have "newest_visible cmp u s (\<Union> (set ` tab ` set ?files)) None" using below unfolding newest_visible_def by (simp add: all_set_conv_all_nth)
    then show ?thesis using end_ find False
      by (intro exI [of _ "[]"]) (auto simp: Get_candidates_def LookupKey_parts Let_def newest_visible_def split: option.splits)
  qed
qed


lemma Get_levels_law:
  assumes "sorted_wrt (<) ls" "\<forall>l\<in>set ls. l < kNumLevels" "unat s < 2 ^ 56" "ok (gs_cache g)"
  shows "\<exists>r g'. newest_visible cmp u s (\<Union>l\<in>set ls. \<Union> (set ` tab ` set (level_files v l))) r \<and>
    Get_levels cmp tget v (LookupKey_make u s) ls g = Some ((case r of None \<Rightarrow> Status_NotFound [] [] | Some e \<Rightarrow> entry_status e), g') \<and>
    get_outcome ok r g (map_option entry_status r) g'"
  using assms(1,2,4)
proof (induction ls arbitrary: g)
  case Nil
  then show ?case by (auto simp: newest_visible_def get_outcome_def intro!: exI [of _ None])
next
  case (Cons l ls)
  obtain fs where fs: "Get_candidates cmp v (LookupKey_make u s) l = Some fs" "set fs \<subseteq> set (level_files v l)"
      "sorted_wrt (\<lambda>f g. newer cmp (set (tab f)) (set (tab g))) fs"
      "\<And>r. newest_visible cmp u s (\<Union> (set ` tab ` set fs)) r \<Longrightarrow> newest_visible cmp u s (\<Union> (set ` tab ` set (level_files v l))) r"
    using Get_candidates_law [OF _ assms(3), of l u] Cons.prems(2) by auto
  obtain r st g1 where r: "newest_visible cmp u s (\<Union> (set ` tab ` set fs)) r" "Get_files cmp tget (LookupKey_make u s) l fs g = Some (st, g1)" "get_outcome ok r g st g1"
    using Get_files_law [OF _ fs(2,3) assms(3) Cons.prems(3), of u l] Cons.prems(2) by auto
  have g1: "ok (gs_cache g1)" using r(3) by (simp add: get_outcome_def)
  obtain r' g' where r': "newest_visible cmp u s (\<Union>l\<in>set ls. \<Union> (set ` tab ` set (level_files v l))) r'"
      "Get_levels cmp tget v (LookupKey_make u s) ls g1 = Some ((case r' of None \<Rightarrow> Status_NotFound [] [] | Some e \<Rightarrow> entry_status e), g')"
      "get_outcome ok r' g1 (map_option entry_status r') g'"
    using Cons.IH [OF _ _ g1] Cons.prems(1,2) by auto
  have "newer cmp (\<Union> (set ` tab ` set (level_files v l))) (\<Union>l\<in>set ls. \<Union> (set ` tab ` set (level_files v l)))"
    using newer_levels Cons.prems(1,2) unfolding newer_def by fastforce
  then have n: "newest_visible cmp u s (\<Union>l\<in>set (l # ls). \<Union> (set ` tab ` set (level_files v l))) (case r of None \<Rightarrow> r' | Some e \<Rightarrow> Some e)"
    using newest_union [OF fs(4) [OF r(1)] r'(1) newer_visible] by simp
  show ?case
  proof (cases r)
    case None
    then have "get_outcome ok r' g (map_option entry_status r') g'" using r(3) r'(3) by (cases r') (simp_all add: get_outcome_def)
    moreover have "st = None" using None r(3) by (simp add: get_outcome_def)
    ultimately show ?thesis using n None fs(1) r(2) r'(2) by auto
  next
    case (Some e)
    then have "st = Some (entry_status e)" using r(3) by (simp add: get_outcome_def)
    then show ?thesis using n Some fs(1) r(2,3) by auto
  qed
qed

lemma Version_Get_law:
  assumes "unat s < 2 ^ 56" "ok c"
  shows "\<exists>r stats c'. newest_visible cmp u s (\<Union>l<kNumLevels. \<Union> (set ` tab ` set (level_files v l))) r \<and> ok c' \<and>
    Version_Get cmp tget v (LookupKey_make u s) val c =
      Some (case r of None \<Rightarrow> (Status_NotFound [] [], val, stats, c') | Some e \<Rightarrow> (entry_status e, entry_result val e, stats, c'))"
proof -
  let ?g = "\<lparr> gs_last = None, gs_stats = \<lparr> seek_file = None, seek_file_level = -1 \<rparr>, gs_value = val, gs_cache = c \<rparr>"
  obtain r g' where r: "newest_visible cmp u s (\<Union>l\<in>set [0..<kNumLevels]. \<Union> (set ` tab ` set (level_files v l))) r"
      "Get_levels cmp tget v (LookupKey_make u s) [0..<kNumLevels] ?g = Some ((case r of None \<Rightarrow> Status_NotFound [] [] | Some e \<Rightarrow> entry_status e), g')"
      "get_outcome ok r ?g (map_option entry_status r) g'"
    using Get_levels_law [of "[0..<kNumLevels]" s ?g u] assms by auto
  then show ?thesis
    by (intro exI [of _ r] exI [of _ "gs_stats g'"] exI [of _ "gs_cache g'"])
      (auto simp: Version_Get_def get_outcome_def atLeast0LessThan split: option.splits)
qed

end

text \<open>The concatenating iterator of a level.\<close>

lemma level_blocks:
  "flat (\<lambda>h. contents (DecodeFixed64 h) (DecodeFixed64 (drop 8 h))) (level_index files) = concat (map (\<lambda>f. contents (fm_number f) (fm_file_size f)) files)"
proof -
  have "DecodeFixed64 (EncodeFixed64 a @ EncodeFixed64 b) = a" "DecodeFixed64 (drop 8 (EncodeFixed64 a @ EncodeFixed64 b)) = b" for a b
    using DecodeFixed64_Encode [of b "[]"] by (simp_all add: DecodeFixed64_Encode)
  then show ?thesis by (simp add: flat_def level_index_def comp_def)
qed

context user_comparator
begin

lemma concatenating_two_level:
  assumes "cursor valid (InternalKey_Compare cmp) dops dat" "level_sorted cmp files"
    "\<And>f c. f \<in> set files \<Longrightarrow> ok c \<Longrightarrow> \<exists>d c' p. new_iter (fm_number f) (fm_file_size f) c = Some (d, c') \<and> ok c' \<and> dat d (contents (fm_number f) (fm_file_size f)) p"
    "\<And>f. f \<in> set files \<Longrightarrow> holds_file cmp f (contents (fm_number f) (fm_file_size f))"
  shows "two_level valid (InternalKey_Compare cmp) (level_iter_ops (InternalKey_Compare cmp)) (level_at valid cmp) dops dat
    (GetFileIterator err new_iter) (\<lambda>h. contents (DecodeFixed64 h) (DecodeFixed64 (drop 8 h))) ok (level_index files)"
proof (intro two_level.intro two_level_axioms.intro assms(1) level_cursor)
  show "key_order valid (InternalKey_Compare cmp)" using assms(1) by (rule cursor.axioms)
  let ?blk = "\<lambda>h. contents (DecodeFixed64 h) (DecodeFixed64 (drop 8 h))"
  have enc: "DecodeFixed64 (EncodeFixed64 a @ EncodeFixed64 b) = a" "DecodeFixed64 (drop 8 (EncodeFixed64 a @ EncodeFixed64 b)) = b"
      "length (EncodeFixed64 a @ EncodeFixed64 b) = 16" for a b
    using DecodeFixed64_Encode [of b "[]"] by (simp_all add: DecodeFixed64_Encode)
  have blk: "?blk (snd (level_index files ! a)) = contents (fm_number (files ! a)) (fm_file_size (files ! a))" if "a < length files" for a
    using that enc by (simp add: level_index_def)
  have len: "length (level_index files) = length files" "fst (level_index files ! a) = fm_largest (files ! a)" if "a < length files" for a
    using that by (simp_all add: level_index_def)
  have n: "length (level_index files) = length files" by (simp add: level_index_def)
  show "\<exists>d c' p. GetFileIterator err new_iter (snd (level_index files ! a)) c = Some (d, c') \<and> ok c' \<and> dat d (?blk (snd (level_index files ! a))) p"
    if "a < length (level_index files)" "ok c" for a c
    using assms(3) [of "files ! a" c] that enc by (simp add: level_index_def GetFileIterator_def)
  show "index_fits (InternalKey_Compare cmp) ?blk (level_index files)"
    unfolding index_fits_def n
  proof (intro conjI allI impI ballI)
    fix a e assume "a < length files" "e \<in> set (?blk (snd (level_index files ! a)))"
    then show "InternalKey_Compare cmp (fst e) (fst (level_index files ! a)) \<le> 0"
      using holds_file_bounds(2) [OF assms(4)] blk len(2) by auto
  next
    fix b a e assume ab: "b < length files" "a < b" "e \<in> set (?blk (snd (level_index files ! b)))"
    have "InternalKey_Compare cmp (fm_largest (files ! a)) (fm_smallest (files ! b)) < 0"
      using assms(2) ab by (simp add: level_sorted_def sorted_wrt_iff_nth_less)
    moreover have "InternalKey_Compare cmp (fm_smallest (files ! b)) (fst e) \<le> 0"
      using holds_file_bounds(1) [OF assms(4)] blk ab by auto
    ultimately show "InternalKey_Compare cmp (fst (level_index files ! a)) (fst e) < 0"
      using len(2) ab by (simp) (metis ikey_flip ikey_trans linorder_not_less)
  qed
qed

end

subsection \<open>Properties\<close>


text \<open>Two tables: a deletion in level 0 and the older value in level 1.\<close>

definition example_contents :: "FileMetaData \<Rightarrow> entries" where
  "example_contents f = (if fm_number f = 9 then [(InternalKey [7] 5 kTypeDeletion, [])] else [(InternalKey [7] 2 kTypeValue, [8])])"

definition example_file :: "uint64 \<Rightarrow> slice \<Rightarrow> FileMetaData" where
  "example_file n k = \<lparr> fm_refs = 1, fm_allowed_seeks = 100, fm_number = n, fm_file_size = 50, fm_smallest = k, fm_largest = k \<rparr>"

definition example_version :: Version where
  "example_version = \<lparr> v_files = [[example_file 9 (InternalKey [7] 5 kTypeDeletion)], [example_file 4 (InternalKey [7] 2 kTypeValue)], [], [], [], [], []] \<rparr>"

definition example_get :: "unit table_get" where
  "example_get n sz k c =
     Some (Status_OK, find (\<lambda>e. \<not> InternalKey_Compare Bytewise_Compare (fst e) k < 0) (example_contents (example_file n [])), c)"

lemma ParseInternalKey_make: "unat q < 2 ^ 56 \<Longrightarrow> ParseInternalKey (InternalKey u q t) = Some \<lparr> user_key = u, sequence = q, value_type = t \<rparr>"
  using ParseInternalKey_append [of "\<lparr> user_key = u, sequence = q, value_type = t \<rparr>"] by (simp add: InternalKey_def)

interpretation example_tables: version_tables Bytewise_Compare Bytewise_FindShortestSeparator Bytewise_FindShortSuccessor
    example_version example_contents example_get "\<lambda>_. True"
proof -
  have lt: "level < 7 \<longleftrightarrow> level \<in> {0, 1, 2, 3, 4, 5, 6}" for level :: nat by auto
  have tag: "PackSequenceAndType 2 kTypeValue < PackSequenceAndType 5 kTypeDeletion"
    using Pack_less_iff [of 2 5 kTypeValue kTypeDeletion] by (simp add: word_less_nat_alt)
  have ok: "file_ok Bytewise_Compare (example_file n (InternalKey u q t))" if "unat q < 2 ^ 56" for n u q t
    using that ubytewise.internal.cmp_refl [of "InternalKey u q t"] by (simp add: file_ok_def example_file_def ParseInternalKey_make valid_ikey_def)
  show "version_tables Bytewise_Compare Bytewise_FindShortestSeparator Bytewise_FindShortSuccessor example_version example_contents example_get (\<lambda>_. True)"
    unfolding version_tables_def version_tables_axioms_def
  proof (intro conjI allI impI)
    show "user_comparator Bytewise_Compare Bytewise_FindShortestSeparator Bytewise_FindShortSuccessor" by (rule ubytewise.user_comparator_axioms)
    show "version_ok Bytewise_Compare example_version"
      unfolding version_ok_def level_sorted_def kNumLevels_def lt using ok by (auto simp: example_version_def)
    show "distinct (level_files example_version 0)" by (simp add: example_version_def)
  next
    fix level f assume "level < kNumLevels" "f \<in> set (level_files example_version level)"
    then show "holds_file Bytewise_Compare f (example_contents f)"
      unfolding kNumLevels_def lt by (auto simp: example_version_def example_contents_def example_file_def holds_file_def sorted_entries_def
          valid_ikey_def all_parse_def ParseInternalKey_make)
  next
    fix f g assume "f \<in> set (level_files example_version 0)" "g \<in> set (level_files example_version 0)"
    then show "f = g" "fm_number g < fm_number f \<Longrightarrow> newer Bytewise_Compare (set (example_contents f)) (set (example_contents g))"
      by (simp_all add: example_version_def)
  next
    fix i j :: nat and f g assume "i < j" "j < kNumLevels" "f \<in> set (level_files example_version i)" "g \<in> set (level_files example_version j)"
    then show "newer Bytewise_Compare (set (example_contents f)) (set (example_contents g))"
      unfolding kNumLevels_def lt using tag by (auto simp: example_version_def newer_def example_contents_def example_file_def)
  next
    fix level f k c assume "f \<in> set (level_files example_version level)" "level < kNumLevels" "valid_ikey k"
    then show "\<exists>r c'. example_get (fm_number f) (fm_file_size f) k c = Some (Status_OK, r, c') \<and> True \<and> table_answer Bytewise_Compare (example_contents f) k r"
      by (auto simp: example_get_def table_answer_def example_contents_def example_file_def split: option.splits)
  qed
qed


text \<open>C10. In a sorted level the binary search agrees with the linear one: \<open>FindFile\<close> gives the number of files that end
  before the key, and \<open>SomeFileOverlapsRange\<close> gives the same answer with and without the promise that the files are
  sorted and disjoint, for ranges open or closed at either end. The search stays in the array for up to \<open>2 ^ 31 - 1\<close>
  files, where the sum of the two ends does not wrap.\<close>

theorem overlap_search_agrees:
  assumes "user_comparator cmp sep succ" "level_sorted cmp files"
  shows "FindFile (InternalKey_Compare cmp) files key = Some (length (takeWhile (\<lambda>f. InternalKey_Compare cmp (fm_largest f) key < 0) files)) \<and>
    SomeFileOverlapsRange cmp True files lo hi = SomeFileOverlapsRange cmp False files lo hi \<and>
    SomeFileOverlapsRange cmp False files lo hi = Some (\<exists>f\<in>set files. in_range cmp lo hi f)"
  using user_comparator.FindFile_level [OF assms] user_comparator.overlaps_search [OF assms]
  by (simp add: SomeFileOverlapsRange_def list_ex_iff user_comparator.in_range_ends [OF assms(1)])

definition example_level :: "FileMetaData list" where
  "example_level = [example_file 4 (InternalKey [3] 2 kTypeValue), example_file 5 (InternalKey [7] 2 kTypeValue)]"

lemma example_level_sorted: "level_sorted Bytewise_Compare example_level"
proof -
  have ok: "file_ok Bytewise_Compare (example_file n (InternalKey u q t))" if "unat q < 2 ^ 56" for n u q t
    using that ubytewise.internal.cmp_refl [of "InternalKey u q t"] by (simp add: file_ok_def example_file_def ParseInternalKey_make valid_ikey_def)
  have "InternalKey_Compare Bytewise_Compare (InternalKey [3] 2 kTypeValue) (InternalKey [7] 2 kTypeValue) < 0"
    by (simp add: ubytewise.ikey_less_iff Bytewise_Compare_def)
  then show ?thesis using ok by (simp add: level_sorted_def example_level_def) (simp add: example_file_def)
qed

theorem overlap_search_agrees_witness:
  "SomeFileOverlapsRange Bytewise_Compare True example_level (Some [4]) (Some [6]) = Some False \<and>
   SomeFileOverlapsRange Bytewise_Compare True example_level (Some [4]) None = Some True"
  using overlap_search_agrees [OF ubytewise.user_comparator_axioms example_level_sorted, of "[]" "Some [4]" "Some [6]"]
    overlap_search_agrees [OF ubytewise.user_comparator_axioms example_level_sorted, of "[]" "Some [4]" None]
  by (simp add: example_level_def example_file_def in_range_def Bytewise_Compare_def)

text \<open>C7. The inputs of a compaction: the loop with its restarts ends for every version, and gives the files of the level that
  meet a range. Above level 0 it is the range that was asked for. In level 0 it is the smallest range around it such
  that every file that meets it lies inside it, so that no file is left behind that overlaps one that is taken.\<close>

theorem overlapping_inputs_least_closed:
  assumes "user_comparator cmp sep succ"
  shows "\<exists>b' e'. GetOverlappingInputs cmp v level b e = Some (filter (in_range cmp b' e') (level_files v level)) \<and>
    range_covers cmp b' e' (map_option ExtractUserKey b) (map_option ExtractUserKey e) \<and>
    (level \<noteq> 0 \<longrightarrow> b' = map_option ExtractUserKey b \<and> e' = map_option ExtractUserKey e) \<and>
    (level = 0 \<longrightarrow> closed_range cmp (level_files v 0) b' e' \<and>
      (\<forall>x y. range_covers cmp x y (map_option ExtractUserKey b) (map_option ExtractUserKey e) \<and> closed_range cmp (level_files v 0) x y \<longrightarrow>
        range_covers cmp x y b' e'))"
  using user_comparator.GetOverlapping_law [OF assms] .

theorem overlapping_inputs_least_closed_witness:
  "GetOverlappingInputs Bytewise_Compare example_version 1 (Some (InternalKey [1] 0 kTypeValue)) None = Some [example_file 4 (InternalKey [7] 2 kTypeValue)]"
proof -
  obtain b' e' where "GetOverlappingInputs Bytewise_Compare example_version 1 (Some (InternalKey [1] 0 kTypeValue)) None =
      Some (filter (in_range Bytewise_Compare b' e') (level_files example_version 1))" "b' = Some [1]" "e' = None"
    using overlapping_inputs_least_closed [OF ubytewise.user_comparator_axioms, of example_version 1 "Some (InternalKey [1] 0 kTypeValue)" None] by auto
  then show ?thesis by (simp add: example_version_def example_file_def in_range_def Bytewise_Compare_def)
qed



text \<open>C6. The iterator over a level is an iterator over the entries of its files, one after the other: when the level is sorted and the
  table cache gives an iterator over the entries of each file, the two-level iterator keeps the iterator contract
  over the concatenation, opening files only when it gets to them.\<close>

theorem concatenating_iterator_is_cursor:
  assumes "user_comparator cmp sep succ" "cursor valid (InternalKey_Compare cmp) dops dat" "level_sorted cmp files"
    "\<forall>f\<in>set files. valid (fm_largest f) \<and> holds_file cmp f (contents (fm_number f) (fm_file_size f))"
    "\<forall>f\<in>set files. \<forall>c. ok c \<longrightarrow> (\<exists>d c' p. new_iter (fm_number f) (fm_file_size f) c = Some (d, c') \<and> ok c' \<and> dat d (contents (fm_number f) (fm_file_size f)) p)"
    "ok c" "valid target"
  shows "\<exists>t at. NewConcatenatingIterator (InternalKey_Compare cmp) files c = Some t \<and>
    (let ops = two_level_ops (level_iter_ops (InternalKey_Compare cmp)) dops (GetFileIterator err new_iter);
         es = concat (map (\<lambda>f. contents (fm_number f) (fm_file_size f)) files)
     in cursor valid (InternalKey_Compare cmp) ops at \<and> at t es (length es) \<and>
       Option.bind (io_SeekToFirst ops t) (iter_scan ops (io_Next ops)) = Some es \<and>
       Option.bind (io_SeekToLast ops t) (iter_scan ops (io_Prev ops)) = Some (rev es) \<and>
       Option.bind (io_Seek ops target t) (iter_scan ops (io_Next ops)) = Some (dropWhile (\<lambda>e. InternalKey_Compare cmp (fst e) target < 0) es))"
proof -
  let ?blk = "\<lambda>h. contents (DecodeFixed64 h) (DecodeFixed64 (drop 8 h))"
  let ?es = "concat (map (\<lambda>f. contents (fm_number f) (fm_file_size f)) files)"
  note tl = user_comparator.concatenating_two_level [OF assms(1-3), of ok new_iter contents err]
  have tl: "two_level valid (InternalKey_Compare cmp) (level_iter_ops (InternalKey_Compare cmp)) (level_at valid cmp) dops dat
      (GetFileIterator err new_iter) ?blk ok (level_index files)" using tl assms(4,5) by blast
  have "unat (word_of_nat (length files) :: uint32) = length files"
    using assms(3) by (simp add: level_sorted_def unat_of_nat take_bit_nat_eq_self)
  then have "level_at valid cmp (LevelFileNumIterator_new files) (level_index files) (length files)"
    using assms(3,4) by (simp add: level_at_def LevelFileNumIterator_new_def level_index_def)
  then obtain t where t: "NewConcatenatingIterator (InternalKey_Compare cmp) files c = Some t"
      "two_level_at (level_at valid cmp) dat ?blk ok (level_index files) t ?es (length ?es)"
    using two_level.new_two_level [OF tl _ assms(6)] by (fastforce simp: NewConcatenatingIterator_def level_blocks)
  note c = two_level.two_level_cursor [OF tl]
  show ?thesis unfolding Let_def using t c cursor.scans [OF c t(2) assms(7)] by blast
qed

text \<open>The blocks of the example tables, as the files of a level.\<close>

definition example_new_iter :: "uint64 \<Rightarrow> uint64 \<Rightarrow> unit \<Rightarrow> (BlockIter \<times> unit) option" where
  "example_new_iter n sz c =
     (case Block_NewIterator (built_block 1 [(InternalKey (if n = 4 then [3] else [7]) 2 kTypeValue, [8])]) of Inl s \<Rightarrow> None | Inr it \<Rightarrow> Some (it, c))"

theorem concatenating_iterator_is_cursor_witness:
  "\<exists>t. NewConcatenatingIterator (InternalKey_Compare Bytewise_Compare) example_level () = Some t \<and>
    (let ops = two_level_ops (level_iter_ops (InternalKey_Compare Bytewise_Compare)) (block_ops (InternalKey_Compare Bytewise_Compare))
           (GetFileIterator (\<lambda>_. BlockIter_new [] 0 0) example_new_iter)
     in Option.bind (io_SeekToLast ops t) (iter_scan ops (io_Prev ops)) =
       Some [(InternalKey [7] 2 kTypeValue, [8]), (InternalKey [3] 2 kTypeValue, [8])])"
proof -
  let ?ct = "\<lambda>n (sz :: uint64). [(InternalKey (if n = (4 :: uint64) then [3] else [7]) 2 kTypeValue, [8])] :: entries"
  have so: "sorted_entries valid_ikey (InternalKey_Compare Bytewise_Compare) (?ct n sz)" for n sz by (simp add: sorted_entries_def valid_ikey_def)
  have l: "length (built_block 1 (?ct n sz)) < 2 ^ 32" for n sz
    by (simp add: built_block_bytes built_restarts_def built_entry_def entry_bytes_def built_shared_def EncodeVarint32_def)
  have it: "\<exists>it. Block_NewIterator (built_block 1 (?ct n sz)) = Inr it \<and> block_at valid_ikey (InternalKey_Compare Bytewise_Compare) it (?ct n sz) (length (?ct n sz))" for n sz
    using built_block_at [OF _ l [of n] ubytewise.ikey_key_order so [of n]] by simp
  have h: "\<forall>f\<in>set example_level. valid_ikey (fm_largest f) \<and> holds_file Bytewise_Compare f (?ct (fm_number f) (fm_file_size f))"
    using so by (auto simp: example_level_def example_file_def holds_file_def valid_ikey_def all_parse_def ParseInternalKey_make)
  have mk: "\<forall>f\<in>set example_level. \<forall>c. True \<longrightarrow> (\<exists>d c' p. example_new_iter (fm_number f) (fm_file_size f) c = Some (d, c') \<and> True \<and>
      block_at valid_ikey (InternalKey_Compare Bytewise_Compare) d (?ct (fm_number f) (fm_file_size f)) p)"
  proof (intro ballI allI impI)
    fix f and c :: unit
    obtain i where "Block_NewIterator (built_block 1 (?ct (fm_number f) (fm_file_size f))) = Inr i"
        "block_at valid_ikey (InternalKey_Compare Bytewise_Compare) i (?ct (fm_number f) (fm_file_size f)) (length (?ct (fm_number f) (fm_file_size f)))"
      using it by blast
    then show "\<exists>d c' p. example_new_iter (fm_number f) (fm_file_size f) c = Some (d, c') \<and> True \<and>
        block_at valid_ikey (InternalKey_Compare Bytewise_Compare) d (?ct (fm_number f) (fm_file_size f)) p"
      unfolding example_new_iter_def by (intro exI [of _ i] exI [of _ c] exI) auto
  qed
  have vt: "valid_ikey (InternalKey [] 0 kTypeValue)" by (simp add: valid_ikey_def)
  show ?thesis
    using concatenating_iterator_is_cursor [OF ubytewise.user_comparator_axioms block_db.inner.cursor_axioms example_level_sorted h mk TrueI vt,
        where c = "()" and err = "\<lambda>_. BlockIter_new [] 0 0"] unfolding Let_def by (auto simp: example_level_def example_file_def)
qed

end
