(* ===== verification/VersionBuilder.thy ===== *)
theory VersionBuilder
  imports VersionFiles
begin

text \<open>
  The other half of \<open>db/version_set.cc\<close>: the builder that applies version edits to the files of a version, the file
  numbers of the version set, and compactions: their inputs, the test whether a deletion may be dropped, and the test
  whether an output is complete. A \<open>std::set\<close> of files is the list its iteration gives. The assertions of a debug build,
  the reference counts and the messages to the info log are left out.
\<close>

subsection \<open>Builder\<close>

definition BySmallestKey :: "(slice \<Rightarrow> slice \<Rightarrow> int) \<Rightarrow> FileMetaData \<Rightarrow> FileMetaData \<Rightarrow> bool" where
  "BySmallestKey icmp f1 f2 =
     (let r = icmp (fm_smallest f1) (fm_smallest f2) in if r \<noteq> 0 then r < 0 else fm_number f1 < fm_number f2)"

record LevelState =
  ls_deleted_files :: "uint64 set"
  ls_added_files :: "FileMetaData list"

record Builder =
  b_base :: Version
  b_levels :: "LevelState list"

definition Builder_new :: "Version \<Rightarrow> Builder" where
  "Builder_new base = \<lparr> b_base = base, b_levels = replicate kNumLevels \<lparr> ls_deleted_files = {}, ls_added_files = [] \<rparr> \<rparr>"

text \<open>Insertion into a \<open>std::set\<close> ordered by \<open>lt\<close>: an element equivalent to one in the set is not inserted.\<close>

fun fileset_insert :: "('a \<Rightarrow> 'a \<Rightarrow> bool) \<Rightarrow> 'a \<Rightarrow> 'a list \<Rightarrow> 'a list" where
  "fileset_insert lt f [] = [f]"
| "fileset_insert lt f (g # gs) = (if lt g f then g # fileset_insert lt f gs else if lt f g then f # g # gs else g # gs)"

definition Apply_compact_pointers :: "VersionEdit \<Rightarrow> slice list \<Rightarrow> slice list" where
  "Apply_compact_pointers edit compact_pointer = fold (\<lambda>(level, key) cp. cp[level := key]) (compact_pointers edit) compact_pointer"

definition Apply_delete :: "nat \<times> uint64 \<Rightarrow> LevelState list \<Rightarrow> LevelState list" where
  "Apply_delete = (\<lambda>(level, number) levels. levels[level := (levels ! level) \<lparr> ls_deleted_files := insert number (ls_deleted_files (levels ! level)) \<rparr>])"

definition new_file_metadata :: "FileMetaData \<Rightarrow> FileMetaData" where
  "new_file_metadata f =
     (let f = f \<lparr> fm_refs := 1, fm_allowed_seeks := sint (ucast (fm_file_size f div 16384) :: 32 word) \<rparr>
      in if fm_allowed_seeks f < 100 then f \<lparr> fm_allowed_seeks := 100 \<rparr> else f)"

definition Apply_add :: "(slice \<Rightarrow> slice \<Rightarrow> int) \<Rightarrow> nat \<times> FileMetaData \<Rightarrow> LevelState list \<Rightarrow> LevelState list" where
  "Apply_add icmp = (\<lambda>(level, meta) levels.
     let f = new_file_metadata meta; ls = levels ! level
     in levels[level := ls \<lparr> ls_deleted_files := ls_deleted_files ls - {fm_number f},
                            ls_added_files := fileset_insert (BySmallestKey icmp) f (ls_added_files ls) \<rparr>])"

definition Builder_Apply :: "(slice \<Rightarrow> slice \<Rightarrow> int) \<Rightarrow> VersionEdit \<Rightarrow> Builder \<times> slice list \<Rightarrow> Builder \<times> slice list" where
  "Builder_Apply icmp edit = (\<lambda>(b, compact_pointer).
     (b \<lparr> b_levels := fold (Apply_add icmp) (new_files edit) (fold Apply_delete (deleted_files edit) (b_levels b)) \<rparr>,
      Apply_compact_pointers edit compact_pointer))"

definition MaybeAddFile :: "LevelState \<Rightarrow> FileMetaData \<Rightarrow> FileMetaData list \<Rightarrow> FileMetaData list" where
  "MaybeAddFile ls f files = (if fm_number f \<in> ls_deleted_files ls then files else files @ [f])"

text \<open>\<open>std::upper_bound\<close>, on a range where the elements not above the value come first: the position of the first one above it.\<close>

definition upper_bound :: "('a \<Rightarrow> 'a \<Rightarrow> bool) \<Rightarrow> 'a \<Rightarrow> 'a list \<Rightarrow> nat" where
  "upper_bound lt x xs = length (takeWhile (\<lambda>y. \<not> lt x y) xs)"

fun SaveTo_level :: "(slice \<Rightarrow> slice \<Rightarrow> int) \<Rightarrow> LevelState \<Rightarrow> FileMetaData list \<Rightarrow> FileMetaData list \<Rightarrow> FileMetaData list \<Rightarrow> FileMetaData list" where
  "SaveTo_level icmp ls base [] files = fold (MaybeAddFile ls) base files"
| "SaveTo_level icmp ls base (added # rest) files =
     (let bpos = upper_bound (BySmallestKey icmp) added base
      in SaveTo_level icmp ls (drop bpos base) rest (MaybeAddFile ls added (fold (MaybeAddFile ls) (take bpos base) files)))"

definition Builder_SaveTo :: "(slice \<Rightarrow> slice \<Rightarrow> int) \<Rightarrow> Builder \<Rightarrow> Version" where
  "Builder_SaveTo icmp b =
     \<lparr> v_files = map (\<lambda>level. SaveTo_level icmp (b_levels b ! level) (level_files (b_base b) level) (ls_added_files (b_levels b ! level)) [])
         [0..<kNumLevels] \<rparr>"

subsection \<open>File numbers\<close>

definition NewFileNumber :: "uint64 \<Rightarrow> uint64 \<times> uint64" where
  "NewFileNumber next_file = (next_file + 1, next_file)"

definition ReuseFileNumber :: "uint64 \<Rightarrow> uint64 \<Rightarrow> uint64" where
  "ReuseFileNumber next_file file_number = (if next_file = file_number + 1 then file_number else next_file)"

definition MarkFileNumberUsed :: "uint64 \<Rightarrow> uint64 \<Rightarrow> uint64" where
  "MarkFileNumberUsed next_file number = (if next_file \<le> number then number + 1 else next_file)"

text \<open>The edit \<open>WriteSnapshot\<close> writes, and the numbers of the files of all versions.\<close>

definition snapshot_edit :: "slice \<Rightarrow> slice list \<Rightarrow> Version \<Rightarrow> VersionEdit" where
  "snapshot_edit comparator_name compact_pointer current =
     fold (\<lambda>level edit. fold (\<lambda>f edit. AddFile edit level (fm_number f) (fm_file_size f) (fm_smallest f) (fm_largest f)) (level_files current level) edit)
       [0..<kNumLevels]
       (fold (\<lambda>level edit. if compact_pointer ! level \<noteq> [] then SetCompactPointer edit level (compact_pointer ! level) else edit) [0..<kNumLevels]
         (SetComparatorName VersionEdit_new comparator_name))"

definition AddLiveFiles :: "Version list \<Rightarrow> uint64 set \<Rightarrow> uint64 set" where
  "AddLiveFiles versions live = fold (\<lambda>v live. fold (\<lambda>files live. fold (\<lambda>f live. insert (fm_number f) live) files live) (v_files v) live) versions live"

definition NumLevelBytes :: "Version \<Rightarrow> nat \<Rightarrow> int" where
  "NumLevelBytes current level = TotalFileSize (level_files current level)"

definition MaxNextLevelOverlappingBytes :: "(slice \<Rightarrow> slice \<Rightarrow> int) \<Rightarrow> Version \<Rightarrow> int option" where
  "MaxNextLevelOverlappingBytes ucmp current =
     fold (\<lambda>level r. fold (\<lambda>f r. case r of None \<Rightarrow> None | Some m \<Rightarrow>
         (case GetOverlappingInputs ucmp current (level + 1) (Some (fm_smallest f)) (Some (fm_largest f)) of
            None \<Rightarrow> None
          | Some overlaps \<Rightarrow> Some (if m < TotalFileSize overlaps then TotalFileSize overlaps else m)))
         (level_files current level) r) [1..<kNumLevels - 1] (Some 0)"

subsection \<open>Compactions\<close>

record Compaction =
  c_level :: nat
  c_max_output_file_size :: uint64
  c_input_version :: "Version option"
  c_edit :: VersionEdit
  c_inputs0 :: "FileMetaData list"
  c_inputs1 :: "FileMetaData list"
  c_grandparents :: "FileMetaData list"
  c_grandparent_index :: nat
  c_seen_key :: bool
  c_overlapped_bytes :: int
  c_level_ptrs :: "nat list"

definition Compaction_new :: "nat \<Rightarrow> Compaction" where
  "Compaction_new level =
     \<lparr> c_level = level, c_max_output_file_size = MaxFileSizeForLevel level, c_input_version = None, c_edit = VersionEdit_new,
       c_inputs0 = [], c_inputs1 = [], c_grandparents = [], c_grandparent_index = 0, c_seen_key = False, c_overlapped_bytes = 0,
       c_level_ptrs = replicate kNumLevels 0 \<rparr>"

definition GetRange :: "(slice \<Rightarrow> slice \<Rightarrow> int) \<Rightarrow> FileMetaData list \<Rightarrow> slice \<times> slice" where
  "GetRange icmp inputs =
     (case inputs of
        [] \<Rightarrow> ([], [])
      | f # fs \<Rightarrow> fold (\<lambda>f (smallest, largest).
            (if icmp (fm_smallest f) smallest < 0 then fm_smallest f else smallest, if 0 < icmp (fm_largest f) largest then fm_largest f else largest))
          fs (fm_smallest f, fm_largest f))"

definition GetRange2 :: "(slice \<Rightarrow> slice \<Rightarrow> int) \<Rightarrow> FileMetaData list \<Rightarrow> FileMetaData list \<Rightarrow> slice \<times> slice" where
  "GetRange2 icmp inputs1 inputs2 = GetRange icmp (inputs1 @ inputs2)"

text \<open>The growing of the inputs: the new range and inputs when the inputs of the next level stay the same in number.\<close>

definition Setup_expand :: "(slice \<Rightarrow> slice \<Rightarrow> int) \<Rightarrow> Version \<Rightarrow> nat \<Rightarrow> FileMetaData list \<Rightarrow> FileMetaData list \<Rightarrow>
    ((slice \<times> slice) \<times> FileMetaData list \<times> FileMetaData list) option option" where
  "Setup_expand ucmp v level inputs0 inputs1 =
     (let icmp = InternalKey_Compare ucmp; (all_start, all_limit) = GetRange2 icmp inputs0 inputs1
      in if inputs1 = [] then Some None
         else case GetOverlappingInputs ucmp v level (Some all_start) (Some all_limit) of
                None \<Rightarrow> None
              | Some expanded0 \<Rightarrow>
                  if length inputs0 < length expanded0 \<and> TotalFileSize inputs1 + TotalFileSize expanded0 < kExpandedCompactionByteSizeLimit
                  then let (new_start, new_limit) = GetRange icmp expanded0
                       in case GetOverlappingInputs ucmp v (level + 1) (Some new_start) (Some new_limit) of
                            None \<Rightarrow> None
                          | Some expanded1 \<Rightarrow>
                              if length expanded1 = length inputs1 then Some (Some ((new_start, new_limit), expanded0, expanded1)) else Some None
                  else Some None)"

definition SetupOtherInputs :: "(slice \<Rightarrow> slice \<Rightarrow> int) \<Rightarrow> Version \<Rightarrow> slice list \<Rightarrow> Compaction \<Rightarrow> (Compaction \<times> slice list) option" where
  "SetupOtherInputs ucmp current compact_pointer c =
     (let icmp = InternalKey_Compare ucmp; level = c_level c; (smallest, largest) = GetRange icmp (c_inputs0 c)
      in case GetOverlappingInputs ucmp current (level + 1) (Some smallest) (Some largest) of
           None \<Rightarrow> None
         | Some inputs1 \<Rightarrow>
             (case Setup_expand ucmp current level (c_inputs0 c) inputs1 of
                None \<Rightarrow> None
              | Some expanded \<Rightarrow>
                  let (largest, inputs0, inputs1) =
                        (case expanded of None \<Rightarrow> (largest, c_inputs0 c, inputs1) | Some ((_, new_limit), e0, e1) \<Rightarrow> (new_limit, e0, e1));
                      (all_start, all_limit) = GetRange2 icmp inputs0 inputs1
                  in case (if level + 2 < kNumLevels then GetOverlappingInputs ucmp current (level + 2) (Some all_start) (Some all_limit)
                           else Some (c_grandparents c)) of
                       None \<Rightarrow> None
                     | Some grandparents \<Rightarrow>
                         Some (c \<lparr> c_inputs0 := inputs0, c_inputs1 := inputs1, c_grandparents := grandparents,
                                  c_edit := SetCompactPointer (c_edit c) level largest \<rparr>,
                               compact_pointer[level := largest])))"

text \<open>\<open>size_level\<close> is the level whose score is at least 1, \<open>seek_file\<close> the file that was read too often, with its level; both are computed
  elsewhere.\<close>

definition Pick_first :: "(slice \<Rightarrow> slice \<Rightarrow> int) \<Rightarrow> slice \<Rightarrow> FileMetaData list \<Rightarrow> FileMetaData list" where
  "Pick_first icmp compact_pointer files =
     (case find (\<lambda>f. compact_pointer = [] \<or> 0 < icmp (fm_largest f) compact_pointer) files of Some f \<Rightarrow> [f] | None \<Rightarrow> [hd files])"

definition PickCompaction :: "(slice \<Rightarrow> slice \<Rightarrow> int) \<Rightarrow> Version \<Rightarrow> slice list \<Rightarrow> nat option \<Rightarrow> (FileMetaData \<times> nat) option \<Rightarrow>
    (Compaction \<times> slice list) option option" where
  "PickCompaction ucmp current compact_pointer size_level seek_file_and_level =
     (case (case size_level of
              Some level \<Rightarrow> Some (level, Pick_first (InternalKey_Compare ucmp) (compact_pointer ! level) (level_files current level))
            | None \<Rightarrow> (case seek_file_and_level of Some (f, level) \<Rightarrow> Some (level, [f]) | None \<Rightarrow> None)) of
        None \<Rightarrow> Some None
      | Some (level, inputs) \<Rightarrow>
          let c = (Compaction_new level) \<lparr> c_input_version := Some current \<rparr>;
              (smallest, largest) = GetRange (InternalKey_Compare ucmp) inputs
          in case (if level = 0 then GetOverlappingInputs ucmp current 0 (Some smallest) (Some largest) else Some inputs) of
               None \<Rightarrow> None
             | Some inputs \<Rightarrow> map_option Some (SetupOtherInputs ucmp current compact_pointer (c \<lparr> c_inputs0 := inputs \<rparr>)))"

text \<open>The prefix of the inputs that reaches the size limit.\<close>

fun Compact_prefix :: "uint64 \<Rightarrow> uint64 \<Rightarrow> FileMetaData list \<Rightarrow> FileMetaData list" where
  "Compact_prefix limit bytes [] = []"
| "Compact_prefix limit bytes (f # fs) =
     (let bytes = bytes + fm_file_size f in if limit \<le> bytes then [f] else f # Compact_prefix limit bytes fs)"

definition CompactRange :: "(slice \<Rightarrow> slice \<Rightarrow> int) \<Rightarrow> Version \<Rightarrow> slice list \<Rightarrow> nat \<Rightarrow> slice option \<Rightarrow> slice option \<Rightarrow>
    (Compaction \<times> slice list) option option" where
  "CompactRange ucmp current compact_pointer level begin_key end_key =
     (case GetOverlappingInputs ucmp current level begin_key end_key of
        None \<Rightarrow> None
      | Some inputs \<Rightarrow>
          if inputs = [] then Some None
          else let inputs = (if 0 < level then Compact_prefix (MaxFileSizeForLevel level) 0 inputs else inputs);
                   c = (Compaction_new level) \<lparr> c_input_version := Some current, c_inputs0 := inputs \<rparr>
               in map_option Some (SetupOtherInputs ucmp current compact_pointer c))"

definition IsTrivialMove :: "Compaction \<Rightarrow> bool" where
  "IsTrivialMove c \<longleftrightarrow> length (c_inputs0 c) = 1 \<and> length (c_inputs1 c) = 0 \<and> TotalFileSize (c_grandparents c) \<le> kMaxGrandParentOverlapBytes"

definition AddInputDeletions :: "Compaction \<Rightarrow> VersionEdit \<Rightarrow> VersionEdit" where
  "AddInputDeletions c edit =
     fold (\<lambda>f edit. VersionEdit_DeleteFile edit (c_level c + 1) (fm_number f)) (c_inputs1 c)
       (fold (\<lambda>f edit. VersionEdit_DeleteFile edit (c_level c) (fm_number f)) (c_inputs0 c) edit)"

text \<open>The scan of one level in \<open>IsBaseLevelForKey\<close>: the new pointer, and whether the key falls into the file there.\<close>

function base_scan :: "(slice \<Rightarrow> slice \<Rightarrow> int) \<Rightarrow> slice \<Rightarrow> FileMetaData list \<Rightarrow> nat \<Rightarrow> nat \<times> bool" where
  "base_scan ucmp ukey files p =
     (if p < length files then
        if ucmp ukey (file_limit (files ! p)) \<le> 0 then (p, 0 \<le> ucmp ukey (file_start (files ! p)))
        else base_scan ucmp ukey files (p + 1)
      else (p, False))"
  by pat_completeness auto
termination
  by (relation "measure (\<lambda>(_, _, files, p). length files - p)") auto

declare base_scan.simps [simp del]

fun base_levels :: "(slice \<Rightarrow> slice \<Rightarrow> int) \<Rightarrow> Version \<Rightarrow> slice \<Rightarrow> nat list \<Rightarrow> nat list \<Rightarrow> nat list \<times> bool" where
  "base_levels ucmp v ukey [] ptrs = (ptrs, True)"
| "base_levels ucmp v ukey (lvl # lvls) ptrs =
     (case base_scan ucmp ukey (level_files v lvl) (ptrs ! lvl) of
        (p, True) \<Rightarrow> (ptrs[lvl := p], False)
      | (p, False) \<Rightarrow> base_levels ucmp v ukey lvls (ptrs[lvl := p]))"

definition IsBaseLevelForKey :: "(slice \<Rightarrow> slice \<Rightarrow> int) \<Rightarrow> slice \<Rightarrow> Compaction \<Rightarrow> (Compaction \<times> bool) option" where
  "IsBaseLevelForKey ucmp ukey c =
     (case c_input_version c of
        None \<Rightarrow> None
      | Some v \<Rightarrow>
          (case base_levels ucmp v ukey [c_level c + 2..<kNumLevels] (c_level_ptrs c) of (ptrs, b) \<Rightarrow> Some (c \<lparr> c_level_ptrs := ptrs \<rparr>, b)))"

function stop_scan :: "(slice \<Rightarrow> slice \<Rightarrow> int) \<Rightarrow> slice \<Rightarrow> Compaction \<Rightarrow> Compaction" where
  "stop_scan icmp ikey c =
     (if c_grandparent_index c < length (c_grandparents c) \<and> 0 < icmp ikey (fm_largest (c_grandparents c ! c_grandparent_index c))
      then stop_scan icmp ikey
        (c \<lparr> c_overlapped_bytes := (if c_seen_key c then sint (word_of_int (c_overlapped_bytes c) + fm_file_size (c_grandparents c ! c_grandparent_index c)) else c_overlapped_bytes c),
            c_grandparent_index := c_grandparent_index c + 1 \<rparr>)
      else c)"
  by pat_completeness auto
termination
  by (relation "measure (\<lambda>(_, _, c). length (c_grandparents c) - c_grandparent_index c)") auto

declare stop_scan.simps [simp del]

definition ShouldStopBefore :: "(slice \<Rightarrow> slice \<Rightarrow> int) \<Rightarrow> slice \<Rightarrow> Compaction \<Rightarrow> Compaction \<times> bool" where
  "ShouldStopBefore icmp ikey c =
     (let c = (stop_scan icmp ikey c) \<lparr> c_seen_key := True \<rparr>
      in if kMaxGrandParentOverlapBytes < c_overlapped_bytes c then (c \<lparr> c_overlapped_bytes := 0 \<rparr>, True) else (c, False))"


subsection \<open>Edits applied to file sets\<close>

fun file_merge :: "('a \<Rightarrow> 'a \<Rightarrow> bool) \<Rightarrow> 'a list \<Rightarrow> 'a list \<Rightarrow> 'a list" where
  "file_merge lt base [] = base"
| "file_merge lt base (a # as) = take (upper_bound lt a base) base @ a # file_merge lt (drop (upper_bound lt a base) base) as"

lemma MaybeAdd_fold: "fold (MaybeAddFile ls) fs files = files @ filter (\<lambda>f. fm_number f \<notin> ls_deleted_files ls) fs"
  by (induction fs arbitrary: files) (auto simp: MaybeAddFile_def)

lemma SaveTo_level_merge:
  "SaveTo_level icmp ls base added files = files @ filter (\<lambda>f. fm_number f \<notin> ls_deleted_files ls) (file_merge (BySmallestKey icmp) base added)"
proof (induction added arbitrary: base files)
  case (Cons a as)
  then show ?case by (simp add: Let_def MaybeAdd_fold MaybeAddFile_def)
qed (simp add: MaybeAdd_fold)

lemma file_merge_set: "set (file_merge lt base as) = set base \<union> set as"
proof (induction as arbitrary: base)
  case (Cons a as)
  have "set base = set (take (upper_bound lt a base) base) \<union> set (drop (upper_bound lt a base) base)"
    by (metis append_take_drop_id set_append)
  then show ?case using Cons by auto
qed simp

lemma file_merge_sorted:
  assumes "\<And>a b c. lt a b \<Longrightarrow> lt b c \<Longrightarrow> lt a c" "\<And>a b. a \<in> set base \<Longrightarrow> b \<in> set as \<Longrightarrow> lt a b \<or> lt b a" "sorted_wrt lt base" "sorted_wrt lt as"
  shows "sorted_wrt lt (file_merge lt base as)"
  using assms(2-4)
proof (induction as arbitrary: base)
  case (Cons a as)
  let ?n = "upper_bound lt a base"
  have b: "base = take ?n base @ drop ?n base" by simp
  have so: "sorted_wrt lt (take ?n base)" "sorted_wrt lt (drop ?n base)" using Cons.prems(2) by (simp_all add: sorted_wrt_take sorted_wrt_drop)
  have front: "lt x a" if "x \<in> set (take ?n base)" for x
  proof -
    have "take ?n base = takeWhile (\<lambda>y. \<not> lt a y) base" unfolding upper_bound_def by (metis takeWhile_eq_take)
    then have "\<not> lt a x" "x \<in> set base" using that by (auto dest: set_takeWhileD)
    then show ?thesis using Cons.prems(1) by auto
  qed
  have rear: "lt a x" if x: "x \<in> set (drop ?n base)" for x
  proof -
    have d: "drop ?n base = dropWhile (\<lambda>y. \<not> lt a y) base" unfolding upper_bound_def by (metis dropWhile_eq_drop)
    obtain h t where h: "drop ?n base = h # t" using x by (cases "drop ?n base") auto
    have "lt a h" using d h hd_dropWhile [of "\<lambda>y. \<not> lt a y" base] by (metis list.discI list.sel(1))
    moreover have "x = h \<or> lt h x" using x h so(2) by auto
    ultimately show ?thesis using assms(1) by blast
  qed
  have "sorted_wrt lt (file_merge lt (drop ?n base) as)"
    by (rule Cons.IH) (use Cons.prems so(2) in \<open>auto dest: in_set_dropD\<close>)
  moreover have "lt a x" if "x \<in> set (file_merge lt (drop ?n base) as)" for x
    using that rear Cons.prems(3) by (auto simp: file_merge_set)
  moreover from this have "lt x y" if "x \<in> set (take ?n base)" "y \<in> set (file_merge lt (drop ?n base) as)" for x y
    using assms(1) [OF front [OF that(1)]] that(2) by blast
  ultimately show ?case using so(1) front by (simp add: sorted_wrt_append)
qed simp

lemma fileset_insert_set: "(\<And>g. g \<in> set gs \<Longrightarrow> lt g f \<or> lt f g) \<Longrightarrow> set (fileset_insert lt f gs) = insert f (set gs)"
  by (induction gs) auto

lemma fileset_insert_sorted:
  assumes "\<And>a b c. lt a b \<Longrightarrow> lt b c \<Longrightarrow> lt a c" "sorted_wrt lt gs"
  shows "sorted_wrt lt (fileset_insert lt f gs)"
proof -
  have sub: "set (fileset_insert lt f gs) \<subseteq> insert f (set gs)" for gs by (induction gs) auto
  show ?thesis using assms(2)
  proof (induction gs)
    case (Cons g gs)
    have g: "\<forall>x\<in>set gs. lt g x" "sorted_wrt lt gs" using Cons.prems by simp_all
    show ?case
    proof (cases "lt g f")
      case True
      then have "\<forall>x\<in>set (fileset_insert lt f gs). lt g x" using sub [of gs] g(1) by blast
      then show ?thesis using True Cons.IH g(2) by simp
    next
      case False
      have "lt f x" if "lt f g" "x \<in> set gs" for x using assms(1) [OF that(1)] g(1) that(2) by blast
      then show ?thesis using False g by simp
    qed
  qed simp
qed

context user_comparator
begin

lemma BySmallest_trans:
  assumes "BySmallestKey (InternalKey_Compare cmp) a b" "BySmallestKey (InternalKey_Compare cmp) b c"
  shows "BySmallestKey (InternalKey_Compare cmp) a c"
proof -
  let ?c = "\<lambda>a b. InternalKey_Compare cmp (fm_smallest a) (fm_smallest b)"
  have ab: "?c a b \<le> 0" "?c a b = 0 \<longrightarrow> fm_number a < fm_number b" using assms(1) by (auto simp: BySmallestKey_def Let_def split: if_splits)
  have bc: "?c b c \<le> 0" "?c b c = 0 \<longrightarrow> fm_number b < fm_number c" using assms(2) by (auto simp: BySmallestKey_def Let_def split: if_splits)
  have ac: "?c a c \<le> 0" using ikey_trans ab(1) bc(1) by blast
  show ?thesis
  proof (cases "?c a c = 0")
    case True
    then have "?c c a \<le> 0" using ikey_flip by (metis less_irrefl linorder_not_less)
    then have "?c b a \<le> 0" "?c c b \<le> 0" using ikey_trans ab(1) bc(1) by blast+
    then have "?c a b = 0" "?c b c = 0" using ab(1) bc(1) ikey_flip by (metis linorder_not_less order_le_less)+
    then show ?thesis using ab(2) bc(2) True by (auto simp: BySmallestKey_def)
  next
    case False
    then show ?thesis using ac by (simp add: BySmallestKey_def Let_def)
  qed
qed

lemma BySmallest_total: "fm_number a \<noteq> fm_number b \<Longrightarrow> BySmallestKey (InternalKey_Compare cmp) a b \<or> BySmallestKey (InternalKey_Compare cmp) b a"
  using ikey_flip [of "fm_smallest a" "fm_smallest b"] ikey_flip [of "fm_smallest b" "fm_smallest a"]
  by (auto simp: BySmallestKey_def Let_def)

end


text \<open>What an edit does to the set of files of a level, and the files a list of edits adds to a level.\<close>

definition edit_files :: "nat \<Rightarrow> VersionEdit \<Rightarrow> FileMetaData set \<Rightarrow> FileMetaData set" where
  "edit_files level edit S =
     {f \<in> S. (level, fm_number f) \<notin> set (deleted_files edit)} \<union> {new_file_metadata f | f. (level, f) \<in> set (new_files edit)}"

definition edit_adds :: "nat \<Rightarrow> VersionEdit \<Rightarrow> FileMetaData list" where
  "edit_adds level edit = map (new_file_metadata \<circ> snd) (filter (\<lambda>p. fst p = level) (new_files edit))"

definition added_files :: "nat \<Rightarrow> VersionEdit list \<Rightarrow> FileMetaData list" where
  "added_files level edits = concat (map (edit_adds level) edits)"

lemma edit_adds_set: "{new_file_metadata f | f. (level, f) \<in> set (new_files edit)} = set (edit_adds level edit)"
  by (force simp: edit_adds_def)

lemma Apply_delete_nth: "l < length levels \<Longrightarrow> Apply_delete (k, n) levels ! l =
    (if k = l then (levels ! l) \<lparr> ls_deleted_files := insert n (ls_deleted_files (levels ! l)) \<rparr> else levels ! l)"
  by (auto simp: Apply_delete_def nth_list_update)

lemma Apply_delete_length [simp]: "length (Apply_delete d levels) = length levels"
  by (simp add: Apply_delete_def split: prod.split)

lemma Apply_delete_fold:
  "l < length levels \<Longrightarrow> fold Apply_delete dels levels ! l =
     (levels ! l) \<lparr> ls_deleted_files := ls_deleted_files (levels ! l) \<union> {n. (l, n) \<in> set dels} \<rparr>"
proof (induction dels arbitrary: levels)
  case (Cons d dels)
  obtain k n where d: "d = (k, n)" by force
  have "{m. (l, m) \<in> set (d # dels)} = (if k = l then insert n {m. (l, m) \<in> set dels} else {m. (l, m) \<in> set dels})" using d by auto
  then show ?case using Cons.IH [of "Apply_delete d levels"] Cons.prems Apply_delete_nth [of l levels k n] d by simp
qed simp

lemma Apply_delete_fold_length [simp]: "length (fold Apply_delete dels levels) = length levels"
  by (induction dels arbitrary: levels) simp_all

lemma Apply_add_nth: "l < length levels \<Longrightarrow> Apply_add icmp (k, f) levels ! l =
    (if k = l then (levels ! l) \<lparr> ls_deleted_files := ls_deleted_files (levels ! l) - {fm_number (new_file_metadata f)},
        ls_added_files := fileset_insert (BySmallestKey icmp) (new_file_metadata f) (ls_added_files (levels ! l)) \<rparr> else levels ! l)"
  by (auto simp: Apply_add_def nth_list_update Let_def)

lemma Apply_add_length [simp]: "length (Apply_add icmp d levels) = length levels"
  by (simp add: Apply_add_def Let_def split: prod.split)

lemma Apply_add_fold:
  "l < length levels \<Longrightarrow> fold (Apply_add icmp) news levels ! l =
    (let N = map (new_file_metadata \<circ> snd) (filter (\<lambda>p. fst p = l) news)
     in (levels ! l) \<lparr> ls_deleted_files := ls_deleted_files (levels ! l) - fm_number ` set N,
                      ls_added_files := fold (fileset_insert (BySmallestKey icmp)) N (ls_added_files (levels ! l)) \<rparr>)"
proof (induction news arbitrary: levels)
  case (Cons d news)
  obtain k f where d: "d = (k, f)" by force
  have two: "D - {x} - N = D - insert x N" for D :: "uint64 set" and x N by blast
  show ?case using Cons.IH [of "Apply_add icmp d levels"] Cons.prems Apply_add_nth [of l levels icmp k f] d
    by (cases "k = l") (simp_all add: Let_def two)
qed simp

lemma Apply_add_fold_length [simp]: "length (fold (Apply_add icmp) news levels) = length levels"
  by (induction news arbitrary: levels) simp_all

lemma sorted_wrt_distinct: "sorted_wrt R xs \<Longrightarrow> (\<And>x. \<not> R x x) \<Longrightarrow> distinct xs"
  by (induction xs) auto

context user_comparator
begin

lemma BySmallest_irrefl: "\<not> BySmallestKey (InternalKey_Compare cmp) f f"
  using ikey_eq_iff [of "fm_smallest f" "fm_smallest f"] by (simp add: BySmallestKey_def cmp_refl)

lemma insert_fold:
  assumes "distinct (map fm_number (A @ N))" "sorted_wrt (BySmallestKey (InternalKey_Compare cmp)) A"
  shows "set (fold (fileset_insert (BySmallestKey (InternalKey_Compare cmp))) N A) = set A \<union> set N \<and>
    sorted_wrt (BySmallestKey (InternalKey_Compare cmp)) (fold (fileset_insert (BySmallestKey (InternalKey_Compare cmp))) N A)"
  using assms
proof (induction N rule: rev_induct)
  case (snoc f N)
  let ?lt = "BySmallestKey (InternalKey_Compare cmp)"
  have IH: "set (fold (fileset_insert ?lt) N A) = set A \<union> set N" "sorted_wrt ?lt (fold (fileset_insert ?lt) N A)" using snoc by auto
  have "fm_number f \<notin> fm_number ` (set A \<union> set N)" 
  proof -
    have "distinct (map fm_number (A @ N) @ [fm_number f])" using snoc.prems(1) by simp
    then show ?thesis unfolding distinct_append by auto
  qed
  then have num: "fm_number g \<noteq> fm_number f" if "g \<in> set A \<union> set N" for g
    using imageI [OF that, of fm_number] by metis
  have tot: "?lt g f \<or> ?lt f g" if "g \<in> set (fold (fileset_insert ?lt) N A)" for g
    using BySmallest_total [OF num [of g]] IH(1) that by simp
  have "set (fileset_insert ?lt f (fold (fileset_insert ?lt) N A)) = insert f (set A \<union> set N)"
    using fileset_insert_set [of "fold (fileset_insert ?lt) N A" ?lt f, OF tot] IH(1) by simp
  moreover have "sorted_wrt ?lt (fileset_insert ?lt f (fold (fileset_insert ?lt) N A))"
    by (rule fileset_insert_sorted [OF _ IH(2)]) (rule BySmallest_trans)
  ultimately show ?case by simp
qed simp

text \<open>The builder after a list of edits.\<close>

lemma Builder_Apply_law:
  assumes "level < kNumLevels" "distinct (map fm_number (level_files base level @ added_files level edits))"
    "fold (Builder_Apply (InternalKey_Compare cmp)) edits (Builder_new base, cps) = (b, cps')"
  shows "b_base b = base \<and> length (b_levels b) = kNumLevels \<and>
    set (ls_added_files (b_levels b ! level)) = set (added_files level edits) \<and>
    sorted_wrt (BySmallestKey (InternalKey_Compare cmp)) (ls_added_files (b_levels b ! level)) \<and>
    {f \<in> set (level_files base level) \<union> set (added_files level edits). fm_number f \<notin> ls_deleted_files (b_levels b ! level)} =
      fold (edit_files level) edits (set (level_files base level))"
  using assms(2,3)
proof (induction edits arbitrary: b cps' rule: rev_induct)
  case Nil
  then show ?case using assms(1) by (auto simp: Builder_new_def added_files_def)
next
  case (snoc e edits)
  let ?lt = "BySmallestKey (InternalKey_Compare cmp)" and ?B = "set (level_files base level)"
  obtain b0 cps0 where b0: "fold (Builder_Apply (InternalKey_Compare cmp)) edits (Builder_new base, cps) = (b0, cps0)" by force
  have di: "distinct (map fm_number (level_files base level @ added_files level edits @ edit_adds level e))"
    using snoc.prems(1) by (simp add: added_files_def)
  then have IH: "b_base b0 = base" "length (b_levels b0) = kNumLevels" "set (ls_added_files (b_levels b0 ! level)) = set (added_files level edits)"
      "sorted_wrt ?lt (ls_added_files (b_levels b0 ! level))"
      "{f \<in> ?B \<union> set (added_files level edits). fm_number f \<notin> ls_deleted_files (b_levels b0 ! level)} = fold (edit_files level) edits ?B"
    using snoc.IH [OF _ b0] by auto
  let ?A = "ls_added_files (b_levels b0 ! level)" and ?N = "edit_adds level e" and ?D = "ls_deleted_files (b_levels b0 ! level)"
  have b: "b = b0 \<lparr> b_levels := fold (Apply_add (InternalKey_Compare cmp)) (new_files e) (fold Apply_delete (deleted_files e) (b_levels b0)) \<rparr>"
    using snoc.prems(2) b0 by (simp add: Builder_Apply_def [of _ e])
  have lv: "b_levels b ! level = (b_levels b0 ! level) \<lparr> ls_deleted_files := ?D \<union> {n. (level, n) \<in> set (deleted_files e)} - fm_number ` set ?N,
      ls_added_files := fold (fileset_insert ?lt) ?N ?A \<rparr>"
    unfolding b using assms(1) IH(2) by (simp add: Apply_add_fold Apply_delete_fold edit_adds_def Let_def)
  have num: "fm_number f \<noteq> fm_number g" if "f \<in> ?B \<union> set (added_files level edits)" "g \<in> set ?N" for f g using di that by force
  have "distinct ?A" by (rule sorted_wrt_distinct [OF IH(4)]) (simp add: BySmallest_irrefl)
  moreover have "inj_on fm_number (set (added_files level edits))" using di by (simp add: distinct_map)
  ultimately have "distinct (map fm_number (?A @ ?N))" using di num IH(3) by (force simp: distinct_map)
  from insert_fold [OF this IH(4)] have ins: "set (fold (fileset_insert ?lt) ?N ?A) = set (added_files level edits) \<union> set ?N" "sorted_wrt ?lt (fold (fileset_insert ?lt) ?N ?A)"
    using IH(3) by simp_all
  have all: "set (added_files level (edits @ [e])) = set (added_files level edits) \<union> set ?N" by (simp add: added_files_def)
  have "{f \<in> ?B \<union> set (added_files level (edits @ [e])). fm_number f \<notin> ls_deleted_files (b_levels b ! level)} =
      {f \<in> ?B \<union> set (added_files level edits). fm_number f \<notin> ?D \<and> (level, fm_number f) \<notin> set (deleted_files e)} \<union> set ?N"
    unfolding lv all using num by auto
  also have "\<dots> = edit_files level e (fold (edit_files level) edits ?B)"
    unfolding edit_files_def edit_adds_set IH(5) [symmetric] by blast
  finally show ?case using IH(1,2) ins all lv b by simp
qed


lemma sorted_disjoint_level:
  assumes "sorted_wrt (BySmallestKey (InternalKey_Compare cmp)) files" "\<forall>f\<in>set files. file_ok cmp f" "length files < 2 ^ 31"
    "\<forall>f\<in>set files. \<forall>g\<in>set files. f = g \<or> InternalKey_Compare cmp (fm_largest f) (fm_smallest g) < 0 \<or> InternalKey_Compare cmp (fm_largest g) (fm_smallest f) < 0"
  shows "level_sorted cmp files"
proof -
  have "sorted_wrt (\<lambda>f g. InternalKey_Compare cmp (fm_largest f) (fm_smallest g) < 0) files"
  proof (rule sorted_wrt_mono_rel [OF _ assms(1)])
    fix f g assume fg: "f \<in> set files" "g \<in> set files" "BySmallestKey (InternalKey_Compare cmp) f g"
    have "InternalKey_Compare cmp (fm_smallest f) (fm_smallest g) \<le> 0" using fg(3) by (auto simp: BySmallestKey_def Let_def split: if_splits)
    moreover have "InternalKey_Compare cmp (fm_smallest g) (fm_largest g) \<le> 0" using assms(2) fg(2) by (simp add: file_ok_def)
    ultimately have "\<not> InternalKey_Compare cmp (fm_largest g) (fm_smallest f) < 0" by (metis ikey_flip ikey_trans linorder_not_less)
    moreover have "f \<noteq> g" using fg(3) BySmallest_irrefl by auto
    ultimately show "InternalKey_Compare cmp (fm_largest f) (fm_smallest g) < 0" using assms(4) fg(1,2) by blast
  qed
  then show ?thesis using assms(2,3) by (simp add: level_sorted_def)
qed

lemma Builder_SaveTo_law:
  assumes "level < kNumLevels" "distinct (map fm_number (level_files base level @ added_files level edits))"
    "sorted_wrt (BySmallestKey (InternalKey_Compare cmp)) (level_files base level)"
    "fold (Builder_Apply (InternalKey_Compare cmp)) edits (Builder_new base, cps) = (b, cps')"
  shows "set (level_files (Builder_SaveTo (InternalKey_Compare cmp) b) level) = fold (edit_files level) edits (set (level_files base level)) \<and>
    sorted_wrt (BySmallestKey (InternalKey_Compare cmp)) (level_files (Builder_SaveTo (InternalKey_Compare cmp) b) level)"
proof -
  let ?lt = "BySmallestKey (InternalKey_Compare cmp)" and ?ls = "b_levels b ! level"
  have b: "b_base b = base" "set (ls_added_files ?ls) = set (added_files level edits)" "sorted_wrt ?lt (ls_added_files ?ls)"
      "{f \<in> set (level_files base level) \<union> set (added_files level edits). fm_number f \<notin> ls_deleted_files ?ls} = fold (edit_files level) edits (set (level_files base level))"
    using Builder_Apply_law [OF assms(1,2,4)] by blast+
  have lv: "level_files (Builder_SaveTo (InternalKey_Compare cmp) b) level =
      filter (\<lambda>f. fm_number f \<notin> ls_deleted_files ?ls) (file_merge ?lt (level_files base level) (ls_added_files ?ls))"
    using assms(1) b(1) by (simp add: Builder_SaveTo_def SaveTo_level_merge)
  have tot: "?lt f g \<or> ?lt g f" if "f \<in> set (level_files base level)" "g \<in> set (ls_added_files ?ls)" for f g
  proof (rule BySmallest_total)
    have "fm_number f \<in> set (map fm_number (level_files base level))" "fm_number g \<in> set (map fm_number (added_files level edits))" using that b(2) by simp_all
    moreover have "set (map fm_number (level_files base level)) \<inter> set (map fm_number (added_files level edits)) = {}"
      using assms(2) by (simp only: map_append distinct_append)
    ultimately show "fm_number f \<noteq> fm_number g" by (metis disjoint_iff)
  qed
  have "sorted_wrt ?lt (file_merge ?lt (level_files base level) (ls_added_files ?ls))"
    by (intro file_merge_sorted assms(3) b(3) tot) (rule BySmallest_trans)
  then show ?thesis unfolding lv using b(2,4) by (auto simp: file_merge_set intro: sorted_wrt_filter)
qed

subsection \<open>Base levels\<close>

lemma base_scan_law:
  assumes "level_sorted cmp files" "p \<le> length files" "\<forall>i<p. cmp (file_limit (files ! i)) u < 0"
  shows "\<exists>p' b. base_scan cmp u files p = (p', b) \<and> p' \<le> length files \<and> (\<forall>i<p'. cmp (file_limit (files ! i)) u < 0) \<and> (b \<longleftrightarrow> (\<exists>f\<in>set files. overlaps_key cmp u f))"
  using assms(2,3)
proof (induction "length files - p" arbitrary: p rule: less_induct)
  case less
  have before: "\<not> overlaps_key cmp u (files ! i)" if "i < p" for i using less.prems(2) that cmp_flip by (fastforce simp: overlaps_key_def)
  show ?case
  proof (cases "p < length files")
    case False
    then have "\<not> (\<exists>f\<in>set files. overlaps_key cmp u f)" using before by (metis in_set_conv_nth le_neq_implies_less less.prems(1))
    moreover have "base_scan cmp u files p = (p, False)" using False by (subst base_scan.simps) simp
    ultimately show ?thesis using less.prems by blast
  next
    case True
    show ?thesis
    proof (cases "cmp u (file_limit (files ! p)) \<le> 0")
      case here: True
      have "(\<exists>f\<in>set files. overlaps_key cmp u f) \<longleftrightarrow> 0 \<le> cmp u (file_start (files ! p))"
      proof
        assume "\<exists>f\<in>set files. overlaps_key cmp u f"
        then obtain i where i: "i < length files" "overlaps_key cmp u (files ! i)" by (metis in_set_conv_nth)
        then have "p \<le> i" using before by (metis not_less)
        then have "cmp (file_start (files ! p)) (file_start (files ! i)) \<le> 0" using user_start_mono [OF assms(1)] i(1) by blast
        moreover have "cmp (file_start (files ! i)) u \<le> 0" using i(2) cmp_flip_le by (simp add: overlaps_key_def)
        ultimately show "0 \<le> cmp u (file_start (files ! p))" using cmp_trans cmp_flip_le by blast
      next
        assume "0 \<le> cmp u (file_start (files ! p))"
        then show "\<exists>f\<in>set files. overlaps_key cmp u f" using here True nth_mem by (fastforce simp: overlaps_key_def)
      qed
      then show ?thesis using True here less.prems by (subst base_scan.simps) simp
    next
      case False
      have "cmp (file_limit (files ! p)) u < 0" using False cmp_flip_le by (simp add: not_le cmp_flip)
      then have "\<forall>i<p + 1. cmp (file_limit (files ! i)) u < 0" using less.prems(2) by (auto simp: less_Suc_eq)
      then show ?thesis using less.hyps [of "p + 1"] True False by (subst base_scan.simps) simp
    qed
  qed
qed

end

text \<open>The pointers of a compaction stand behind files that end before \<open>u\<close>.\<close>

definition ptrs_ok :: "(slice \<Rightarrow> slice \<Rightarrow> int) \<Rightarrow> Version \<Rightarrow> slice \<Rightarrow> nat list \<Rightarrow> bool" where
  "ptrs_ok ucmp v u ptrs \<longleftrightarrow> length ptrs = kNumLevels \<and>
     (\<forall>l<kNumLevels. ptrs ! l \<le> length (level_files v l) \<and> (\<forall>i<ptrs ! l. ucmp (file_limit (level_files v l ! i)) u < 0))"

context user_comparator
begin

lemma base_levels_law:
  assumes "version_ok cmp v" "\<forall>l\<in>set ls. 0 < l \<and> l < kNumLevels" "ptrs_ok cmp v u ptrs"
  shows "\<exists>ptrs' b. base_levels cmp v u ls ptrs = (ptrs', b) \<and> ptrs_ok cmp v u ptrs' \<and>
    (b \<longleftrightarrow> (\<forall>l\<in>set ls. \<forall>f\<in>set (level_files v l). \<not> overlaps_key cmp u f))"
  using assms(2,3)
proof (induction ls arbitrary: ptrs)
  case (Cons l ls)
  have l: "0 < l" "l < kNumLevels" "level_sorted cmp (level_files v l)" using Cons.prems(1) assms(1) by (auto simp: version_ok_def)
  obtain p b where p: "base_scan cmp u (level_files v l) (ptrs ! l) = (p, b)" "p \<le> length (level_files v l)"
      "\<forall>i<p. cmp (file_limit (level_files v l ! i)) u < 0" "b \<longleftrightarrow> (\<exists>f\<in>set (level_files v l). overlaps_key cmp u f)"
    using base_scan_law [OF l(3), of "ptrs ! l" u] Cons.prems(2) l(2) by (auto simp: ptrs_ok_def)
  have ok: "ptrs_ok cmp v u (ptrs[l := p])"
    unfolding ptrs_ok_def
  proof (intro conjI allI impI)
    fix k assume "k < kNumLevels"
    then show "ptrs[l := p] ! k \<le> length (level_files v k)" using Cons.prems(2) p(2) l(2) by (cases "k = l") (auto simp: ptrs_ok_def)
    fix i assume "i < ptrs[l := p] ! k"
    then show "cmp (file_limit (level_files v k ! i)) u < 0" using Cons.prems(2) p(3) l(2) \<open>k < kNumLevels\<close> by (cases "k = l") (auto simp: ptrs_ok_def)
  qed (use Cons.prems(2) in \<open>simp add: ptrs_ok_def\<close>)
  show ?case
  proof (cases b)
    case True
    then show ?thesis using p ok by auto
  next
    case False
    then show ?thesis using Cons.IH [OF _ ok] Cons.prems(1) p(1,4) by auto
  qed
qed (auto intro: exI [of _ True])

end

text \<open>The answers of a compaction for a sequence of user keys.\<close>

fun base_answers :: "(slice \<Rightarrow> slice \<Rightarrow> int) \<Rightarrow> slice list \<Rightarrow> Compaction \<Rightarrow> bool list option" where
  "base_answers ucmp [] c = Some []"
| "base_answers ucmp (u # us) c =
     (case IsBaseLevelForKey ucmp u c of None \<Rightarrow> None | Some (c, b) \<Rightarrow> map_option ((#) b) (base_answers ucmp us c))"

context user_comparator
begin

lemma base_answers_law:
  assumes "version_ok cmp v" "c_input_version c = Some v" "sorted_wrt (\<lambda>a b. cmp a b \<le> 0) us" "us = [] \<or> ptrs_ok cmp v (hd us) (c_level_ptrs c)"
  shows "base_answers cmp us c = Some (map (\<lambda>u. \<forall>l. c_level c + 2 \<le> l \<and> l < kNumLevels \<longrightarrow> (\<forall>f\<in>set (level_files v l). \<not> overlaps_key cmp u f)) us)"
  using assms(2-4)
proof (induction us arbitrary: c)
  case (Cons u us)
  obtain ptrs b where b: "base_levels cmp v u [c_level c + 2..<kNumLevels] (c_level_ptrs c) = (ptrs, b)" "ptrs_ok cmp v u ptrs"
      "b \<longleftrightarrow> (\<forall>l\<in>set [c_level c + 2..<kNumLevels]. \<forall>f\<in>set (level_files v l). \<not> overlaps_key cmp u f)"
    using base_levels_law [OF assms(1), of "[c_level c + 2..<kNumLevels]" u "c_level_ptrs c"] Cons.prems(3) by auto
  have i: "IsBaseLevelForKey cmp u c = Some (c \<lparr> c_level_ptrs := ptrs \<rparr>, b)" using b(1) Cons.prems(1) by (simp add: IsBaseLevelForKey_def)
  have "us = [] \<or> ptrs_ok cmp v (hd us) ptrs"
  proof (cases us)
    case (Cons w ws)
    then have "cmp u w \<le> 0" using Cons.prems(2) by simp
    then show ?thesis using b(2) Cons cmp_less_le_trans by (fastforce simp: ptrs_ok_def)
  qed simp
  then have "base_answers cmp us (c \<lparr> c_level_ptrs := ptrs \<rparr>) =
      Some (map (\<lambda>u. \<forall>l. c_level c + 2 \<le> l \<and> l < kNumLevels \<longrightarrow> (\<forall>f\<in>set (level_files v l). \<not> overlaps_key cmp u f)) us)"
    using Cons.IH [of "c \<lparr> c_level_ptrs := ptrs \<rparr>"] Cons.prems(1,2) by simp
  then show ?case using i b(3) by auto
qed simp

end


subsection \<open>Moving one file of two that share a user key\<close>

text \<open>The edit of \<open>DBImpl::BackgroundCompaction\<close> for a trivial move.\<close>

definition trivial_move_edit :: "Compaction \<Rightarrow> VersionEdit" where
  "trivial_move_edit c =
     (let f = c_inputs0 c ! 0
      in AddFile (VersionEdit_DeleteFile (c_edit c) (c_level c) (fm_number f)) (c_level c + 1) (fm_number f) (fm_file_size f) (fm_smallest f) (fm_largest f))"

text \<open>A deletion and the value it deletes, in two files of level 1.\<close>

definition split_version :: Version where
  "split_version = \<lparr> v_files = [[], [example_file 4 (InternalKey [7] 5 kTypeDeletion), example_file 6 (InternalKey [7] 3 kTypeValue)], [], [], [], [], []] \<rparr>"

definition split_contents :: "uint64 \<Rightarrow> entries" where
  "split_contents n = (if n = 4 then [(InternalKey [7] 5 kTypeDeletion, [])] else [(InternalKey [7] 3 kTypeValue, [8])])"

definition split_get :: "unit table_get" where
  "split_get n sz k c = Some (Status_OK, find (\<lambda>e. \<not> InternalKey_Compare Bytewise_Compare (fst e) k < 0) (split_contents n), c)"

definition split_after :: "Compaction \<Rightarrow> slice list \<Rightarrow> Version" where
  "split_after c cp = Builder_SaveTo (InternalKey_Compare Bytewise_Compare)
     (fst (Builder_Apply (InternalKey_Compare Bytewise_Compare) (trivial_move_edit c) (Builder_new split_version, cp)))"

lemma split_compare:
  "InternalKey_Compare Bytewise_Compare (InternalKey [7] 5 kTypeDeletion) (InternalKey [7] 3 kTypeValue) = -1"
  "InternalKey_Compare Bytewise_Compare (InternalKey [7] 5 kTypeDeletion) (InternalKey [7] 9 kValueTypeForSeek) = 1"
  "InternalKey_Compare Bytewise_Compare (InternalKey [7] 3 kTypeValue) (InternalKey [7] 9 kValueTypeForSeek) = 1"
  by code_simp+

lemma Overlapping_loop_Nil: "Overlapping_loop ucmp level0 [] b e 0 inputs = Some inputs"
  by (subst Overlapping_loop.simps) simp

lemma split_pick:
  "PickCompaction Bytewise_Compare split_version (replicate kNumLevels []) (Some 1) None =
     Some (Some ((Compaction_new 1) \<lparr> c_input_version := Some split_version, c_inputs0 := [example_file 4 (InternalKey [7] 5 kTypeDeletion)],
         c_edit := SetCompactPointer VersionEdit_new 1 (InternalKey [7] 5 kTypeDeletion) \<rparr>,
       (replicate kNumLevels [])[1 := InternalKey [7] 5 kTypeDeletion]))"
  by (simp add: PickCompaction_def split_version_def Pick_first_def kNumLevels_def SetupOtherInputs_def Compaction_new_def GetRange_def GetRange2_def
      example_file_def GetOverlappingInputs_def Overlapping_loop_Nil Setup_expand_def numeral_2_eq_2 numeral_3_eq_3)

lemma split_after_levels:
  assumes "c = (Compaction_new 1) \<lparr> c_input_version := Some split_version, c_inputs0 := [example_file 4 (InternalKey [7] 5 kTypeDeletion)],
         c_edit := SetCompactPointer VersionEdit_new 1 (InternalKey [7] 5 kTypeDeletion) \<rparr>"
  shows "split_after c cp = \<lparr> v_files = [[], [example_file 6 (InternalKey [7] 3 kTypeValue)],
       [example_file 4 (InternalKey [7] 5 kTypeDeletion)], [], [], [], []] \<rparr>"
proof -
  let ?k = "InternalKey [7] 5 kTypeDeletion"
  have u: "[0..<7] = [0, 1, 2, 3, 4, 5, 6 :: nat]" by (simp add: upt_rec)
  have f: "new_file_metadata (FileMetaData_new \<lparr> fm_number := 4, fm_file_size := 50, fm_smallest := ?k, fm_largest := ?k \<rparr>) = example_file 4 ?k"
    by (simp add: new_file_metadata_def FileMetaData_new_def example_file_def)
  have "split_after c cp = \<lparr> v_files = [[], [example_file 6 (InternalKey [7] 3 kTypeValue)],
       [new_file_metadata (FileMetaData_new \<lparr> fm_number := 4, fm_file_size := 50, fm_smallest := ?k, fm_largest := ?k \<rparr>)], [], [], [], []] \<rparr>"
    unfolding split_after_def assms
    by (simp add: trivial_move_edit_def Builder_SaveTo_def Builder_Apply_def Builder_new_def Apply_compact_pointers_def Compaction_new_def
        example_file_def split_version_def kNumLevels_def VersionEdit_DeleteFile_def AddFile_def SetCompactPointer_def VersionEdit_new_def u
        Apply_delete_def Apply_add_def MaybeAddFile_def numeral_2_eq_2 upper_bound_def)
  then show ?thesis by (simp only: f)
qed

lemma split_sorted: "version_ok Bytewise_Compare split_version"
proof -
  have lt: "level < 7 \<longleftrightarrow> level \<in> {0, 1, 2, 3, 4, 5, 6}" for level :: nat by auto
  have ok: "file_ok Bytewise_Compare (example_file n (InternalKey u q t))" if "unat q < 2 ^ 56" for n u q t
    using that ubytewise.internal.cmp_refl [of "InternalKey u q t"] by (simp add: file_ok_def example_file_def ParseInternalKey_make valid_ikey_def)
  show ?thesis
    unfolding version_ok_def level_sorted_def kNumLevels_def lt using ok split_compare by (auto simp: split_version_def example_file_def)
qed

lemma FindFile_first:
  assumes "level_sorted Bytewise_Compare (f # fs)" "\<not> InternalKey_Compare Bytewise_Compare (fm_largest f) key < 0"
  shows "FindFile (InternalKey_Compare Bytewise_Compare) (f # fs) key = Some 0"
  using ubytewise.FindFile_level [OF assms(1), of key] assms(2) by simp

lemma split_reads:
  assumes "v_files v = [[], example_file n k # fs] @ rest" "level_sorted Bytewise_Compare (example_file n k # fs)"
    "(n, k) = (4, InternalKey [7] 5 kTypeDeletion) \<or> (n, k) = (6, InternalKey [7] 3 kTypeValue)"
  shows "\<exists>stats. Version_Get Bytewise_Compare split_get v (LookupKey_make [7] 9) val () =
    Some (if n = 4 then (Status_NotFound [] [], val, stats, ()) else (Status_OK, [8], stats, ()))"
proof -
  have u: "[0..<7] = [0, 1, 2, 3, 4, 5, 6 :: nat]" by (simp add: upt_rec)
  have "\<not> InternalKey_Compare Bytewise_Compare k (InternalKey [7] 9 kValueTypeForSeek) < 0" "ExtractUserKey k = [7]"
    using assms(3) split_compare by auto
  then have c: "Get_candidates Bytewise_Compare v (LookupKey_make [7] 9) 0 = Some []"
      "Get_candidates Bytewise_Compare v (LookupKey_make [7] 9) (Suc 0) = Some [example_file n k]"
    using assms(1) FindFile_first [OF assms(2), of "InternalKey [7] 9 kValueTypeForSeek"]
    by (simp_all add: Get_candidates_def LookupKey_parts example_file_def Bytewise_Compare_def)
  show ?thesis using assms(3)
    by (elim disjE) (simp_all add: Version_Get_def kNumLevels_def u c split_get_def split_contents_def example_file_def split_compare
        LookupKey_parts SaveValue_def ParseInternalKey_make Bytewise_Compare_def)
qed


subsection \<open>Properties\<close>

text \<open>C5. The builder implements the edits: after any sequence of edits with file numbers not used before in a level, the
  version that \<open>SaveTo\<close> writes has in every level exactly the files that deleting and adding, edit by edit, leaves, in
  the order of \<open>BySmallestKey\<close>; and where no two of these files overlap, the level is one the searches of a version
  accept.\<close>

theorem builder_refines_edits:
  assumes "user_comparator cmp sep succ" "level < kNumLevels" "distinct (map fm_number (level_files base level @ added_files level edits))"
    "sorted_wrt (BySmallestKey (InternalKey_Compare cmp)) (level_files base level)"
    "fold (Builder_Apply (InternalKey_Compare cmp)) edits (Builder_new base, cps) = (b, cps')"
    "files = fold (edit_files level) edits (set (level_files base level))"
  shows "set (level_files (Builder_SaveTo (InternalKey_Compare cmp) b) level) = files \<and>
    sorted_wrt (BySmallestKey (InternalKey_Compare cmp)) (level_files (Builder_SaveTo (InternalKey_Compare cmp) b) level) \<and>
    ((\<forall>f\<in>files. file_ok cmp f) \<and> card files < 2 ^ 31 \<and>
     (\<forall>f\<in>files. \<forall>g\<in>files. f = g \<or> InternalKey_Compare cmp (fm_largest f) (fm_smallest g) < 0 \<or> InternalKey_Compare cmp (fm_largest g) (fm_smallest f) < 0) \<longrightarrow>
     level_sorted cmp (level_files (Builder_SaveTo (InternalKey_Compare cmp) b) level))"
proof -
  let ?l = "level_files (Builder_SaveTo (InternalKey_Compare cmp) b) level"
  have l: "set ?l = files" "sorted_wrt (BySmallestKey (InternalKey_Compare cmp)) ?l"
    using user_comparator.Builder_SaveTo_law [OF assms(1-5)] assms(6) by blast+
  have "distinct ?l" by (rule sorted_wrt_distinct [OF l(2)]) (rule user_comparator.BySmallest_irrefl [OF assms(1)])
  then have "card files = length ?l" using l(1) distinct_card by blast
  then show ?thesis using l user_comparator.sorted_disjoint_level [OF assms(1) l(2)] by simp
qed

text \<open>Files 4 and 9, where 9 is deleted again and 12 replaces 4.\<close>

definition example_edits :: "VersionEdit list" where
  "example_edits =
     [AddFile VersionEdit_new 1 9 50 (InternalKey [8] 6 kTypeValue) (InternalKey [8] 6 kTypeValue),
      AddFile (VersionEdit_DeleteFile (VersionEdit_DeleteFile VersionEdit_new 1 9) 1 4) 1 12 50 (InternalKey [9] 7 kTypeValue) (InternalKey [9] 7 kTypeValue)]"

theorem builder_refines_edits_witness:
  "\<exists>b cps. fold (Builder_Apply (InternalKey_Compare Bytewise_Compare)) example_edits (Builder_new example_version, []) = (b, cps) \<and>
    fm_number ` set (level_files (Builder_SaveTo (InternalKey_Compare Bytewise_Compare) b) 1) = {12}"
proof -
  obtain b cps where b: "fold (Builder_Apply (InternalKey_Compare Bytewise_Compare)) example_edits (Builder_new example_version, []) = (b, cps)" by force
  note defs = example_edits_def AddFile_def VersionEdit_DeleteFile_def VersionEdit_new_def example_version_def example_file_def pair_less_def
    FileMetaData_new_def new_file_metadata_def Let_def
  have added: "map fm_number (added_files 1 example_edits) = [9, 12]" by (simp add: added_files_def edit_adds_def defs)
  have "fm_number ` fold (edit_files 1) example_edits (set (level_files example_version 1)) = {12}"
    by (auto simp: edit_files_def edit_adds_set edit_adds_def defs)
  moreover have "distinct (map fm_number (level_files example_version 1 @ added_files 1 example_edits))"
    unfolding map_append added by (simp add: example_version_def example_file_def)
  ultimately show ?thesis
    using builder_refines_edits [OF ubytewise.user_comparator_axioms _ _ _ b refl, of 1] b by (auto simp: kNumLevels_def example_version_def)
qed



text \<open>C38. A compaction may pick one of two files of a level that share a user key, and move it below the other: with a
  deletion of key 7 in the first file of level 1 and the deleted value in the second, the picked compaction is a
  trivial move of the first, and after it \<open>Get\<close> returns the deleted value.\<close>

theorem compaction_splits_user_key:
  "version_ok Bytewise_Compare split_version \<and>
   (\<exists>c cp stats stats'. PickCompaction Bytewise_Compare split_version (replicate kNumLevels []) (Some 1) None = Some (Some (c, cp)) \<and>
      IsTrivialMove c \<and>
      Version_Get Bytewise_Compare split_get split_version (LookupKey_make [7] 9) [] () = Some (Status_NotFound [] [], [], stats, ()) \<and>
      Version_Get Bytewise_Compare split_get (split_after c cp) (LookupKey_make [7] 9) [] () = Some (Status_OK, [8], stats', ()))"
proof -
  let ?c = "(Compaction_new 1) \<lparr> c_input_version := Some split_version, c_inputs0 := [example_file 4 (InternalKey [7] 5 kTypeDeletion)],
     c_edit := SetCompactPointer VersionEdit_new 1 (InternalKey [7] 5 kTypeDeletion) \<rparr>"
  have sorted: "level_sorted Bytewise_Compare (level_files split_version 1)" using split_sorted by (simp add: version_ok_def kNumLevels_def)
  then have rest: "level_sorted Bytewise_Compare [example_file 6 (InternalKey [7] 3 kTypeValue)]"
    by (simp add: split_version_def level_sorted_def)
  have tm: "IsTrivialMove ?c" by (simp add: IsTrivialMove_def Compaction_new_def TotalFileSize_def kMaxGrandParentOverlapBytes_def kTargetFileSize_def)
  obtain stats where "Version_Get Bytewise_Compare split_get split_version (LookupKey_make [7] 9) [] () = Some (Status_NotFound [] [], [], stats, ())"
    using split_reads [of split_version 4 "InternalKey [7] 5 kTypeDeletion" _ _ "[]"] sorted by (auto simp: split_version_def)
  moreover obtain stats' where "Version_Get Bytewise_Compare split_get (split_after ?c cp) (LookupKey_make [7] 9) [] () = Some (Status_OK, [8], stats', ())" for cp
    using split_reads [of "split_after ?c _" 6 "InternalKey [7] 3 kTypeValue" "[]" _ "[]"] rest split_after_levels [OF refl] by auto
  ultimately show ?thesis using split_pick tm split_sorted by blast
qed

end
