(* ===== verification/FilterBlock.thy ===== *)
theory FilterBlock
  imports Dbformat
begin

text \<open>
  Hashing and filters: \<open>util/hash.cc\<close>, the Bloom filter policy of \<open>util/bloom.cc\<close> and the filter block of
  \<open>table/filter_block.cc\<close>. A \<open>FilterPolicy\<close> is the pair of its operations; what the filter block needs of
  them is the locale \<open>filter_policy\<close>, which the Bloom filter and the wrapper for internal keys meet.
\<close>

subsection \<open>Hash\<close>

definition hash_m :: uint32 where "hash_m = 0xc6a4a793"

function Hash_words :: "uint32 \<Rightarrow> slice \<Rightarrow> uint32 \<times> slice" where
  "Hash_words h data =
     (if 4 \<le> length data then
        let w = DecodeFixed32 data; h = (h + w) * hash_m
        in Hash_words (h XOR drop_bit 16 h) (drop 4 data)
      else (h, data))"
  by pat_completeness auto
termination by (relation "measure (\<lambda>(_, data). length data)") auto

declare Hash_words.simps [simp del]

definition Hash :: "slice \<Rightarrow> uint32 \<Rightarrow> uint32" where
  "Hash data seed =
     (case Hash_words (seed XOR (word_of_nat (length data) * hash_m)) data of (h, rest) \<Rightarrow>
        let h = (if length rest = 3 then h + push_bit 16 (ucast (rest ! 2)) else h);
            h = (if length rest = 2 \<or> length rest = 3 then h + push_bit 8 (ucast (rest ! 1)) else h)
        in if rest = [] then h
           else let h = (h + ucast (rest ! 0)) * hash_m in h XOR drop_bit 24 h)"

subsection \<open>Bloom filters\<close>

definition BloomHash :: "slice \<Rightarrow> uint32" where
  "BloomHash key = Hash key 0xbc9f1d34"

record BloomFilterPolicy =
  bits_per_key :: nat
  bloom_k :: nat

text \<open>The product with \<open>0.69\<close> is rounded down; it is an integer only from \<open>100\<close> on, where the bound
  \<open>30\<close> applies, so no floating-point rounding shows.\<close>

definition BloomFilterPolicy_new :: "nat \<Rightarrow> BloomFilterPolicy" where
  "BloomFilterPolicy_new bits =
     (let k = bits * 69 div 100; k = (if k < 1 then 1 else k); k = (if 30 < k then 30 else k)
      in \<lparr> bits_per_key = bits, bloom_k = k \<rparr>)"

definition bloom_delta :: "uint32 \<Rightarrow> uint32" where
  "bloom_delta h = drop_bit 17 h OR push_bit 15 h"

fun bloom_set :: "nat \<Rightarrow> uint32 \<Rightarrow> nat \<Rightarrow> uint32 \<Rightarrow> slice \<Rightarrow> slice" where
  "bloom_set bits delta 0 h a = a"
| "bloom_set bits delta (Suc j) h a =
     (let bitpos = unat h mod bits
      in bloom_set bits delta j (h + delta)
           (a [bitpos div 8 := a ! (bitpos div 8) OR push_bit (bitpos mod 8) 1]))"

definition Bloom_CreateFilter :: "BloomFilterPolicy \<Rightarrow> slice list \<Rightarrow> slice \<Rightarrow> slice" where
  "Bloom_CreateFilter p keys dst =
     (let bits = length keys * bits_per_key p;
          bits = (if bits < 64 then 64 else bits);
          bytes = (bits + 7) div 8;
          bits = bytes * 8
      in dst @ fold (\<lambda>key a. let h = BloomHash key in bloom_set bits (bloom_delta h) (bloom_k p) h a)
                 keys (replicate bytes 0 @ [word_of_nat (bloom_k p)]))"

fun bloom_test :: "nat \<Rightarrow> uint32 \<Rightarrow> nat \<Rightarrow> uint32 \<Rightarrow> slice \<Rightarrow> bool" where
  "bloom_test bits delta 0 h a = True"
| "bloom_test bits delta (Suc j) h a =
     (let bitpos = unat h mod bits
      in if a ! (bitpos div 8) AND push_bit (bitpos mod 8) 1 = 0 then False
         else bloom_test bits delta j (h + delta) a)"

definition Bloom_KeyMayMatch :: "slice \<Rightarrow> slice \<Rightarrow> bool" where
  "Bloom_KeyMayMatch key bloom_filter =
     (let len = length bloom_filter
      in if len < 2 then False
         else let bits = (len - 1) * 8; k = unat (bloom_filter ! (len - 1))
              in if 30 < k then True
                 else let h = BloomHash key in bloom_test bits (bloom_delta h) k h bloom_filter)"

subsection \<open>Filter blocks\<close>

definition kFilterBaseLg :: nat where "kFilterBaseLg = 11"
definition kFilterBase :: uint64 where "kFilterBase = push_bit kFilterBaseLg 1"

record FilterBlockBuilder =
  fb_keys :: slice
  fb_start :: "nat list"
  fb_result :: slice
  fb_offsets :: "uint32 list"

definition FilterBlockBuilder_new :: FilterBlockBuilder where
  "FilterBlockBuilder_new = \<lparr> fb_keys = [], fb_start = [], fb_result = [], fb_offsets = [] \<rparr>"

definition GenerateFilter :: "(slice list \<Rightarrow> slice \<Rightarrow> slice) \<Rightarrow> FilterBlockBuilder \<Rightarrow> FilterBlockBuilder" where
  "GenerateFilter create b =
     (let num_keys = length (fb_start b)
      in if num_keys = 0 then b \<lparr> fb_offsets := fb_offsets b @ [word_of_nat (length (fb_result b))] \<rparr>
         else let start = fb_start b @ [length (fb_keys b)];
                  tmp_keys = map (\<lambda>i. take (start ! (i + 1) - start ! i) (drop (start ! i) (fb_keys b))) [0..<num_keys]
              in b \<lparr> fb_offsets := fb_offsets b @ [word_of_nat (length (fb_result b))],
                     fb_result := create tmp_keys (fb_result b), fb_keys := [], fb_start := [] \<rparr>)"

function StartBlock_loop :: "(slice list \<Rightarrow> slice \<Rightarrow> slice) \<Rightarrow> nat \<Rightarrow> FilterBlockBuilder \<Rightarrow> FilterBlockBuilder" where
  "StartBlock_loop create filter_index b =
     (if length (fb_offsets b) < filter_index then StartBlock_loop create filter_index (GenerateFilter create b) else b)"
  by pat_completeness auto
termination
  by (relation "measure (\<lambda>(_, filter_index, b). filter_index - length (fb_offsets b))")
    (auto simp: GenerateFilter_def Let_def)

declare StartBlock_loop.simps [simp del]

definition FilterBlockBuilder_StartBlock ::
    "(slice list \<Rightarrow> slice \<Rightarrow> slice) \<Rightarrow> FilterBlockBuilder \<Rightarrow> uint64 \<Rightarrow> FilterBlockBuilder" where
  "FilterBlockBuilder_StartBlock create b block_offset = StartBlock_loop create (unat (block_offset div kFilterBase)) b"

definition FilterBlockBuilder_AddKey :: "FilterBlockBuilder \<Rightarrow> slice \<Rightarrow> FilterBlockBuilder" where
  "FilterBlockBuilder_AddKey b key = b \<lparr> fb_start := fb_start b @ [length (fb_keys b)], fb_keys := fb_keys b @ key \<rparr>"

definition FilterBlockBuilder_Finish :: "(slice list \<Rightarrow> slice \<Rightarrow> slice) \<Rightarrow> FilterBlockBuilder \<Rightarrow> slice" where
  "FilterBlockBuilder_Finish create b0 =
     (let b = (if fb_start b0 \<noteq> [] then GenerateFilter create b0 else b0);
          array_offset = word_of_nat (length (fb_result b)) :: uint32;
          result = fold (\<lambda>off dst. PutFixed32 dst off) (fb_offsets b) (fb_result b)
      in PutFixed32 result array_offset @ [word_of_nat kFilterBaseLg])"

record FilterBlockReader =
  fr_data :: slice
  fr_offset :: nat
  fr_num :: nat
  fr_base_lg :: nat

text \<open>\<open>base_lg_\<close> comes from a signed \<open>char\<close>: bytes above 127 become huge values.\<close>

definition FilterBlockReader_new :: "slice \<Rightarrow> FilterBlockReader" where
  "FilterBlockReader_new contents =
     (let n = length contents
      in if n < 5 then \<lparr> fr_data = [], fr_offset = 0, fr_num = 0, fr_base_lg = 0 \<rparr>
         else let base_lg = unat (scast (contents ! (n - 1)) :: uint64);
                  last_word = unat (DecodeFixed32 (drop (n - 5) contents))
              in if n - 5 < last_word then \<lparr> fr_data = [], fr_offset = 0, fr_num = 0, fr_base_lg = base_lg \<rparr>
                 else \<lparr> fr_data = contents, fr_offset = last_word, fr_num = (n - 5 - last_word) div 4, fr_base_lg = base_lg \<rparr>)"

text \<open>\<open>None\<close>: the shift count is not below the width of \<open>uint64_t\<close>.\<close>

definition FilterBlockReader_KeyMayMatch ::
    "(slice \<Rightarrow> slice \<Rightarrow> bool) \<Rightarrow> FilterBlockReader \<Rightarrow> uint64 \<Rightarrow> slice \<Rightarrow> bool option" where
  "FilterBlockReader_KeyMayMatch may_match r block_offset key =
     (if 64 \<le> fr_base_lg r then None
      else let index = unat (drop_bit (fr_base_lg r) block_offset)
           in if index < fr_num r then
                let start = unat (DecodeFixed32 (drop (fr_offset r + index * 4) (fr_data r)));
                    limit = unat (DecodeFixed32 (drop (fr_offset r + index * 4 + 4) (fr_data r)))
                in if start \<le> limit \<and> limit \<le> fr_offset r
                   then Some (may_match key (take (limit - start) (drop start (fr_data r))))
                   else if start = limit then Some False
                   else Some True
              else Some True)"

subsection \<open>What a filter promises\<close>

text \<open>The contract of \<open>include/leveldb/filter_policy.h\<close>: \<open>CreateFilter\<close> appends a filter, which matches every
  key it was created from.\<close>

locale filter_policy =
  fixes create :: "slice list \<Rightarrow> slice \<Rightarrow> slice" and may_match :: "slice \<Rightarrow> slice \<Rightarrow> bool"
  assumes create_appends: "create keys dst = dst @ create keys []"
    and create_matches: "key \<in> set keys \<Longrightarrow> may_match key (create keys [])"

lemma length_bloom_set [simp]: "length (bloom_set bits delta j h a) = length a"
  by (induction j arbitrary: h a) (simp_all add: Let_def)

lemma bloom_set_last:
  assumes "0 < bytes" "length a = Suc bytes"
  shows "bloom_set (bytes * 8) delta j h a ! bytes = a ! bytes"
  using assms(2)
proof (induction j arbitrary: h a)
  case (Suc j)
  have "unat h mod (bytes * 8) div 8 < bytes" using assms(1) by (simp add: less_mult_imp_div_less)
  then show ?case using Suc by (simp add: Let_def)
qed simp

lemma bloom_set_keeps:
  "bit (a ! i) n \<Longrightarrow> i < length a \<Longrightarrow> bit (bloom_set bits delta j h a ! i) n"
proof (induction j arbitrary: h a)
  case (Suc j)
  let ?p = "unat h mod bits"
  have "bit (a [?p div 8 := a ! (?p div 8) OR push_bit (?p mod 8) 1] ! i) n"
    using Suc.prems by (cases "i = ?p div 8") (auto simp: bit_simps nth_list_update)
  then show ?case using Suc by (simp add: Let_def)
qed simp

lemma bloom_test_iff:
  "bloom_test bits delta k h a \<longleftrightarrow>
    (\<forall>j<k. let p = unat (h + word_of_nat j * delta) mod bits in bit (a ! (p div 8)) (p mod 8))"
proof (induction k arbitrary: h)
  case (Suc k)
  have "(\<forall>j<Suc k. let p = unat (h + word_of_nat j * delta) mod bits in bit (a ! (p div 8)) (p mod 8)) \<longleftrightarrow>
    (let p = unat h mod bits in bit (a ! (p div 8)) (p mod 8)) \<and>
    (\<forall>j<k. let p = unat (h + delta + word_of_nat j * delta) mod bits in bit (a ! (p div 8)) (p mod 8))"
    by (simp add: All_less_Suc2 algebra_simps)
  then show ?case using Suc by (auto simp: Let_def and_exp_eq_0_iff_not_bit)
qed simp

lemma bloom_set_tests:
  assumes "0 < bytes" "length a = Suc bytes"
  shows "bloom_test (bytes * 8) delta k h (bloom_set (bytes * 8) delta k h a)"
  using assms(2)
proof (induction k arbitrary: h a)
  case (Suc k)
  let ?p = "unat h mod (bytes * 8)" and ?a = "\<lambda>p. a [p div 8 := a ! (p div 8) OR push_bit (p mod 8) 1]"
  have p: "?p div 8 < Suc bytes" using assms(1) by (simp add: less_mult_imp_div_less less_Suc_eq)
  have "bit (?a ?p ! (?p div 8)) (?p mod 8)" using p Suc.prems by (simp add: bit_simps)
  from bloom_set_keeps [OF this] have "bit (bloom_set (bytes * 8) delta k (h + delta) (?a ?p) ! (?p div 8)) (?p mod 8)"
    using p Suc.prems by simp
  moreover have "bloom_test (bytes * 8) delta k (h + delta) (bloom_set (bytes * 8) delta k (h + delta) (?a ?p))"
    using Suc.IH Suc.prems by simp
  ultimately show ?case by (simp add: Let_def and_exp_eq_0_iff_not_bit)
qed simp

lemma bloom_test_keeps:
  assumes "bloom_test (bytes * 8) delta k h a" "0 < bytes" "length a = Suc bytes"
  shows "bloom_test (bytes * 8) delta k h (bloom_set (bytes * 8) delta' k' h' a)"
proof -
  have "unat g mod (bytes * 8) div 8 < length a" for g :: uint32
    using assms(2,3) by (simp add: less_mult_imp_div_less less_Suc_eq)
  then show ?thesis using assms(1) bloom_set_keeps by (simp add: bloom_test_iff Let_def)
qed

lemma bloom_fold:
  fixes p bytes
  defines "add \<equiv> (\<lambda>key a. let h = BloomHash key in bloom_set (bytes * 8) (bloom_delta h) (bloom_k p) h a)"
  assumes "0 < bytes" "length a = Suc bytes"
  shows "length (fold add keys a) = Suc bytes" "fold add keys a ! bytes = a ! bytes"
    "key \<in> set keys \<or> bloom_test (bytes * 8) (bloom_delta (BloomHash key)) (bloom_k p) (BloomHash key) a \<Longrightarrow>
       bloom_test (bytes * 8) (bloom_delta (BloomHash key)) (bloom_k p) (BloomHash key) (fold add keys a)"
  using assms(3)
proof (induction keys arbitrary: a)
  case (Cons k keys)
  { case 1 then show ?case using Cons.IH(1) by (simp add: add_def Let_def) }
  { case 2 then show ?case using Cons.IH(2) bloom_set_last [OF assms(2)] by (simp add: add_def Let_def) }
  { case 3
    then have "key \<in> set keys \<or> bloom_test (bytes * 8) (bloom_delta (BloomHash key)) (bloom_k p) (BloomHash key) (add k a)"
      using bloom_set_tests [OF assms(2)] bloom_test_keeps [OF _ assms(2)] by (auto simp: add_def Let_def)
    then show ?case using Cons.IH(3) [of "add k a"] 3 by (simp add: add_def Let_def) }
qed (use assms in \<open>auto simp: add_def\<close>)

lemma bloom_filter_matches:
  assumes "key \<in> set keys"
  shows "Bloom_KeyMayMatch key (drop (length dst) (Bloom_CreateFilter (BloomFilterPolicy_new bits) keys dst))"
proof -
  let ?p = "BloomFilterPolicy_new bits"
  have k: "bloom_k ?p \<le> 30" by (simp add: BloomFilterPolicy_new_def Let_def)
  define n where "n = (let b = length keys * bits_per_key ?p in if b < 64 then 64 else b)"
  define bytes where "bytes = (n + 7) div 8"
  have "64 \<le> n" by (simp add: n_def Let_def)
  then have b: "0 < bytes" by (simp add: bytes_def div_greater_zero_iff)
  let ?f = "fold (\<lambda>key a. let h = BloomHash key in bloom_set (bytes * 8) (bloom_delta h) (bloom_k ?p) h a)
                 keys (replicate bytes 0 @ [word_of_nat (bloom_k ?p)])"
  have f: "drop (length dst) (Bloom_CreateFilter ?p keys dst) = ?f"
    by (simp add: Bloom_CreateFilter_def Let_def bytes_def n_def)
  note l = bloom_fold(1,2) [OF b, of "replicate bytes 0 @ [word_of_nat (bloom_k ?p)]" ?p keys]
    bloom_fold(3) [OF b, of "replicate bytes 0 @ [word_of_nat (bloom_k ?p)]" key keys ?p]
  have "unat (word_of_nat (bloom_k ?p) :: byte) = bloom_k ?p" using k by (simp add: unat_word_of_nat)
  then show ?thesis unfolding f Bloom_KeyMayMatch_def Let_def using l assms k b by (simp add: nth_append Let_def)
qed

text \<open>C30. A Bloom filter has no false negatives: the filter \<open>CreateFilter\<close> appends for a list of keys, with
  any number of bits per key, matches each of the keys.\<close>

theorem bloom_no_false_negatives:
  assumes "key \<in> set keys"
  shows "Bloom_KeyMayMatch key (drop (length dst) (Bloom_CreateFilter (BloomFilterPolicy_new bits) keys dst))"
  by (rule bloom_filter_matches [OF assms])

theorem bloom_no_false_negatives_witness:
  "Bloom_KeyMayMatch [1, 2] (drop (length [9 :: byte]) (Bloom_CreateFilter (BloomFilterPolicy_new 10) [[7], [1, 2], []] [9]))"
  by (rule bloom_no_false_negatives) simp

interpretation bloom: filter_policy "Bloom_CreateFilter (BloomFilterPolicy_new bits)" Bloom_KeyMayMatch for bits
proof
  show "Bloom_CreateFilter (BloomFilterPolicy_new bits) keys dst = dst @ Bloom_CreateFilter (BloomFilterPolicy_new bits) keys []"
    for keys dst by (simp add: Bloom_CreateFilter_def Let_def)
qed (use bloom_filter_matches [of _ _ "[]" bits] in simp)

text \<open>The wrapper for internal keys keeps the contract.\<close>

lemma internal_filter_policy:
  assumes "filter_policy create may_match"
  shows "filter_policy (InternalFilterPolicy_CreateFilter create) (InternalFilterPolicy_KeyMayMatch may_match)"
proof
  show "InternalFilterPolicy_CreateFilter create keys dst = dst @ InternalFilterPolicy_CreateFilter create keys []" for keys dst
    unfolding InternalFilterPolicy_CreateFilter_def by (rule filter_policy.create_appends [OF assms])
qed (auto simp: InternalFilterPolicy_CreateFilter_def InternalFilterPolicy_KeyMayMatch_def
      intro: filter_policy.create_matches [OF assms])

interpretation internal_bloom: filter_policy "InternalFilterPolicy_CreateFilter (Bloom_CreateFilter (BloomFilterPolicy_new bits))"
  "InternalFilterPolicy_KeyMayMatch Bloom_KeyMayMatch" for bits
  by (rule internal_filter_policy) unfold_locales

subsection \<open>Filter blocks lose no key\<close>

definition starts :: "slice list \<Rightarrow> nat list" where
  "starts xs = map (\<lambda>i. length (concat (take i xs))) [0..<length xs]"

lemma starts_snoc: "starts (xs @ [x]) = starts xs @ [length (concat xs)]"
  by (simp add: starts_def)

lemma starts_Nil [simp]: "starts [] = []"
  by (simp add: starts_def)

lemma length_starts [simp]: "length (starts xs) = length xs"
  by (simp add: starts_def)

lemma starts_nth:
  assumes "i < length xs"
  shows "(starts xs @ [length (concat xs)]) ! i = length (concat (take i xs))"
    "(starts xs @ [length (concat xs)]) ! Suc i = length (concat (take (Suc i) xs))"
  using assms by (auto simp: starts_def nth_append not_less less_Suc_eq)

lemma length_concat_take_le: "length (concat (take i xs)) \<le> length (concat xs)"
  by (metis append_take_drop_id concat_append le_add1 length_append)

lemma concat_piece:
  assumes "i < length xs"
  shows "take (length (concat (take (Suc i) xs)) - length (concat (take i xs))) (drop (length (concat (take i xs))) (concat xs)) = xs ! i"
proof -
  have "concat xs = concat (take i xs) @ xs ! i @ concat (drop (Suc i) xs)"
    using arg_cong [OF id_take_nth_drop [OF assms], of concat] by simp
  moreover have "concat (take (Suc i) xs) = concat (take i xs) @ xs ! i" using assms by (simp add: take_Suc_conv_app_nth)
  ultimately show ?thesis by simp
qed

lemma starts_piece:
  assumes "i < length xs" "s = starts xs @ [length (concat xs)]"
  shows "take (s ! (i + 1) - s ! i) (drop (s ! i) (concat xs)) = xs ! i"
  using assms concat_piece [OF assms(1)] starts_nth [OF assms(1)] by simp

text \<open>The builder holds the filters \<open>fs\<close> and the pending keys \<open>ks\<close>.\<close>

definition fb_state :: "slice list \<Rightarrow> slice list \<Rightarrow> FilterBlockBuilder" where
  "fb_state fs ks = \<lparr> fb_keys = concat ks, fb_start = starts ks, fb_result = concat fs, fb_offsets = map word_of_nat (starts fs) \<rparr>"

lemma fb_state_new: "FilterBlockBuilder_new = fb_state [] []"
  by (simp add: FilterBlockBuilder_new_def fb_state_def starts_def)

lemma fb_state_AddKey: "FilterBlockBuilder_AddKey (fb_state fs ks) k = fb_state fs (ks @ [k])"
  by (simp add: FilterBlockBuilder_AddKey_def fb_state_def starts_snoc)

context filter_policy
begin

definition next_filter :: "slice list \<Rightarrow> slice" where
  "next_filter ks = (if ks = [] then [] else create ks [])"

lemma Generate_law: "GenerateFilter create (fb_state fs ks) = fb_state (fs @ [next_filter ks]) []"
proof (cases "ks = []")
  case False
  have "map (\<lambda>i. take ((starts ks @ [length (concat ks)]) ! (i + 1) - (starts ks @ [length (concat ks)]) ! i)
      (drop ((starts ks @ [length (concat ks)]) ! i) (concat ks))) [0..<length ks] = ks"
    by (rule nth_equalityI) (simp_all add: starts_piece [OF _ refl, simplified])
  then show ?thesis using False create_appends [of ks "concat fs"]
    by (simp add: GenerateFilter_def fb_state_def Let_def starts_snoc next_filter_def)
qed (simp add: GenerateFilter_def fb_state_def starts_snoc next_filter_def)

lemma StartBlock_law:
  "length fs \<le> i \<Longrightarrow> StartBlock_loop create i (fb_state fs ks) =
    (if length fs = i then fb_state fs ks else fb_state (fs @ next_filter ks # replicate (i - length fs - 1) []) [])"
proof (induction "i - length fs" arbitrary: fs ks)
  case 0
  then show ?case by (simp add: StartBlock_loop.simps fb_state_def)
next
  case (Suc n)
  then have "length fs < i" by simp
  then have "StartBlock_loop create i (fb_state fs ks) = StartBlock_loop create i (fb_state (fs @ [next_filter ks]) [])"
    by (subst StartBlock_loop.simps) (simp add: Generate_law, simp add: fb_state_def)
  also have "\<dots> = (if Suc (length fs) = i then fb_state (fs @ [next_filter ks]) []
      else fb_state ((fs @ [next_filter ks]) @ next_filter [] # replicate (i - Suc (length fs) - 1) []) [])"
    using Suc.hyps(1) [of "fs @ [next_filter ks]" "[]"] Suc.hyps(2) \<open>length fs < i\<close> by simp
  also have "\<dots> = fb_state (fs @ next_filter ks # replicate (i - length fs - 1) []) []"
    using \<open>length fs < i\<close> by (cases "Suc (length fs) = i") (simp_all add: next_filter_def flip: replicate_Suc, simp add: Suc_diff_Suc)
  finally show ?case using \<open>length fs < i\<close> by simp
qed


text \<open>Every key of the blocks so far is in the filter of its block, or pending for the next filter.\<close>

definition fb_holds :: "(uint64 \<times> slice list) list \<Rightarrow> slice list \<Rightarrow> slice list \<Rightarrow> bool" where
  "fb_holds bs fs ks \<longleftrightarrow> (\<forall>(o1, keys)\<in>set bs. \<forall>k\<in>set keys.
     (if unat (o1 div kFilterBase) < length fs then may_match k (fs ! unat (o1 div kFilterBase))
      else unat (o1 div kFilterBase) = length fs \<and> k \<in> set ks))"

lemma fb_holds_generate:
  assumes "fb_holds bs fs ks"
  shows "fb_holds bs (fs @ next_filter ks # rest) []"
  unfolding fb_holds_def
proof (intro ballI, clarify)
  fix o1 keys k assume b: "(o1, keys) \<in> set bs" "k \<in> set keys"
  let ?i = "unat (o1 div kFilterBase)"
  have h: "if ?i < length fs then may_match k (fs ! ?i) else ?i = length fs \<and> k \<in> set ks"
    using assms b unfolding fb_holds_def by fast
  then show "if ?i < length (fs @ next_filter ks # rest) then may_match k ((fs @ next_filter ks # rest) ! ?i)
      else ?i = length (fs @ next_filter ks # rest) \<and> k \<in> set []"
    using create_matches [of k ks] by (cases "?i < length fs") (auto simp: nth_append next_filter_def)
qed

lemma fb_build:
  assumes "sorted (map fst bs)"
  shows "\<exists>fs ks. fold (\<lambda>(o1, keys) b. fold (\<lambda>k b. FilterBlockBuilder_AddKey b k) keys (FilterBlockBuilder_StartBlock create b o1))
      bs FilterBlockBuilder_new = fb_state fs ks \<and> fb_holds bs fs ks \<and> (\<forall>o1. (\<forall>b\<in>set bs. fst b \<le> o1) \<longrightarrow> length fs \<le> unat (o1 div kFilterBase))"
  using assms
proof (induction bs rule: rev_induct)
  case Nil
  show ?case by (intro exI [of _ "[]"]) (simp add: fb_state_new fb_holds_def)
next
  case (snoc b bs)
  obtain o1 keys where b: "b = (o1, keys)" by (cases b)
  obtain fs ks where IH: "fold (\<lambda>(o1, keys) b. fold (\<lambda>k b. FilterBlockBuilder_AddKey b k) keys (FilterBlockBuilder_StartBlock create b o1))
      bs FilterBlockBuilder_new = fb_state fs ks" "fb_holds bs fs ks" "\<forall>o1. (\<forall>b\<in>set bs. fst b \<le> o1) \<longrightarrow> length fs \<le> unat (o1 div kFilterBase)"
    using snoc by (auto simp: sorted_append)
  let ?i = "unat (o1 div kFilterBase)"
  have le: "length fs \<le> ?i" using IH(3) snoc.prems by (auto simp: b sorted_append)
  obtain fs' ks' where st: "FilterBlockBuilder_StartBlock create (fb_state fs ks) o1 = fb_state fs' ks'"
    "fb_holds bs fs' ks'" "length fs' = ?i"
  proof (cases "length fs = ?i")
    case True
    then show thesis using that [of fs ks] StartBlock_law [OF le] IH(2) by (simp add: FilterBlockBuilder_StartBlock_def)
  next
    case False
    then show thesis using that [OF _ fb_holds_generate [OF IH(2)], of "replicate (?i - length fs - 1) []"] StartBlock_law [OF le] le
      by (simp add: FilterBlockBuilder_StartBlock_def)
  qed
  have add: "fold (\<lambda>k b. FilterBlockBuilder_AddKey b k) keys (fb_state fs' ks') = fb_state fs' (ks' @ keys)"
    for keys ks' by (induction keys arbitrary: ks') (simp_all add: fb_state_AddKey)
  have "fb_holds (bs @ [b]) fs' (ks' @ keys)" using st(2,3) unfolding fb_holds_def b by fastforce
  moreover have "?i \<le> unat (o2 div kFilterBase)" if "o1 \<le> o2" for o2
    using that by (simp add: unat_div div_le_mono word_le_nat_alt)
  ultimately show ?case using IH(1) st add b by (intro exI [of _ fs'] exI [of _ "ks' @ keys"]) auto
qed


lemma Finish_law:
  "\<exists>gs. FilterBlockBuilder_Finish create (fb_state fs ks) = concat gs @
      concat (map (\<lambda>i. EncodeFixed32 (word_of_nat i)) (starts gs @ [length (concat gs)])) @ [11] \<and>
    (fb_holds bs fs ks \<longrightarrow> (\<forall>(o1, keys)\<in>set bs. \<forall>k\<in>set keys.
      unat (o1 div kFilterBase) < length gs \<and> may_match k (gs ! unat (o1 div kFilterBase))))"
proof -
  define gs where "gs = (if ks = [] then fs else fs @ [next_filter ks])"
  have "fold (\<lambda>off dst. PutFixed32 dst off) rs buf = buf @ concat (map EncodeFixed32 rs)" for rs buf
    by (induction rs arbitrary: buf) (simp_all add: PutFixed32_def)
  then have "FilterBlockBuilder_Finish create (fb_state fs ks) = concat gs @
      concat (map (\<lambda>i. EncodeFixed32 (word_of_nat i)) (starts gs @ [length (concat gs)])) @ [11]"
    using Generate_law [of fs ks] by (cases "ks = []")
      (auto simp: FilterBlockBuilder_Finish_def Let_def gs_def PutFixed32_def comp_def kFilterBaseLg_def fb_state_def starts_def)
  moreover have "fb_holds bs gs []" if "fb_holds bs fs ks"
    using fb_holds_generate [OF that, of "[]"] that by (cases "ks = []") (simp_all add: gs_def)
  moreover have "\<forall>(o1, keys)\<in>set bs. \<forall>k\<in>set keys.
      unat (o1 div kFilterBase) < length gs \<and> may_match k (gs ! unat (o1 div kFilterBase))" if "fb_holds bs gs []"
    using that unfolding fb_holds_def by (auto split: if_splits)
  ultimately show ?thesis by blast
qed

end

text \<open>Reading a filter out of a finished filter block.\<close>

lemma filter_block_read:
  fixes gs
  defines "block \<equiv> concat gs @ concat (map (\<lambda>i. EncodeFixed32 (word_of_nat i)) (starts gs @ [length (concat gs)])) @ [11]"
  assumes "length block < 2 ^ 32" "unat (o1 div kFilterBase) < length gs"
  shows "FilterBlockReader_KeyMayMatch may_match (FilterBlockReader_new block) o1 key =
    Some (may_match key (gs ! unat (o1 div kFilterBase)))"
proof -
  let ?i = "unat (o1 div kFilterBase)" and ?n = "length (concat gs)" and ?js = "starts gs @ [length (concat gs)]"
  let ?arr = "concat (map (\<lambda>i. EncodeFixed32 (word_of_nat i)) ?js)"
  have len: "length block = ?n + 4 * length gs + 5" by (simp add: block_def)
  have lt: "?n < 2 ^ 32" using assms(2) len by linarith
  have read: "unat (DecodeFixed32 (drop (?n + i * 4) block)) = ?js ! i" if "i \<le> length gs" for i
  proof -
    have j: "?js ! i \<le> ?n"
      using that by (cases "i = length gs") (auto simp: nth_append starts_def length_concat_take_le)
    have "drop (?n + i * 4) block = drop (i * 4) (?arr @ [11])" by (simp add: block_def)
    also have "\<dots> = EncodeFixed32 (word_of_nat (?js ! i)) @ drop (Suc i * 4) (?arr @ [11])"
      using that by (intro drop_fixed32s) simp
    finally show ?thesis using j lt by (simp only: DecodeFixed32_Encode) (simp add: unat_word32)
  qed
  have last: "unat (DecodeFixed32 (drop (length block - 5) block)) = ?n"
    using read [of "length gs"] len by (simp add: nth_append mult.commute)
  have r: "FilterBlockReader_new block = \<lparr> fr_data = block, fr_offset = ?n, fr_num = length gs, fr_base_lg = 11 \<rparr>"
  proof -
    have "block ! (length block - 1) = 11" by (simp add: block_def nth_append)
    then show ?thesis using last len by (simp add: FilterBlockReader_new_def Let_def)
  qed
  have idx: "unat (drop_bit 11 o1) = ?i"
    by (simp add: kFilterBase_def kFilterBaseLg_def drop_bit_eq_div)
  have le: "?js ! ?i \<le> ?js ! (?i + 1)" "?js ! (?i + 1) \<le> ?n"
    using starts_nth [OF assms(3)] length_concat_take_le [of "Suc ?i" gs] assms(3) by (simp_all add: take_Suc_conv_app_nth)
  have "take (?js ! (?i + 1) - ?js ! ?i) (drop (?js ! ?i) block) = gs ! ?i"
  proof -
    show ?thesis using le starts_piece [OF assms(3) refl] by (simp add: block_def)
  qed
  moreover have "unat (DecodeFixed32 (drop (?n + ?i * 4 + 4) block)) = ?js ! (?i + 1)"
    using read [of "?i + 1"] assms(3) by (simp add: add.assoc add.commute [of 4])
  ultimately show ?thesis using le assms(3) read [of ?i]
    by (simp add: FilterBlockReader_KeyMayMatch_def r idx Let_def)
qed


text \<open>The calls a table builder makes: for each data block its offset, then its keys.\<close>

definition filter_block :: "(slice list \<Rightarrow> slice \<Rightarrow> slice) \<Rightarrow> (uint64 \<times> slice list) list \<Rightarrow> slice" where
  "filter_block create blocks = FilterBlockBuilder_Finish create
     (fold (\<lambda>(o1, keys) b. fold (\<lambda>k b. FilterBlockBuilder_AddKey b k) keys (FilterBlockBuilder_StartBlock create b o1))
        blocks FilterBlockBuilder_new)"

lemma filter_block_lookup:
  assumes "filter_policy create may_match" "sorted (map fst blocks)" "length (filter_block create blocks) < 2 ^ 32"
    "(block_offset, keys) \<in> set blocks" "keys \<noteq> []"
  shows "\<exists>f. (\<forall>k. FilterBlockReader_KeyMayMatch may_match (FilterBlockReader_new (filter_block create blocks)) block_offset k = Some (may_match k f)) \<and>
    (\<forall>key\<in>set keys. may_match key f)"
proof -
  let ?i = "unat (block_offset div kFilterBase)"
  obtain fs ks where b: "filter_block create blocks = FilterBlockBuilder_Finish create (fb_state fs ks)"
    "filter_policy.fb_holds may_match blocks fs ks"
    using filter_policy.fb_build [OF assms(1,2)] unfolding filter_block_def by metis
  obtain gs where gs: "filter_block create blocks = concat gs @
      concat (map (\<lambda>i. EncodeFixed32 (word_of_nat i)) (starts gs @ [length (concat gs)])) @ [11]"
    "\<forall>key\<in>set keys. ?i < length gs \<and> may_match key (gs ! ?i)"
    using filter_policy.Finish_law [OF assms(1), of fs ks blocks] b assms(4) by fastforce
  then have "?i < length gs" using assms(5) by (cases keys) auto
  then show ?thesis using filter_block_read [of gs block_offset may_match] gs assms(3) by (intro exI [of _ "gs ! ?i"]) simp
qed

text \<open>C29. A filter block never hides a key: for every filter policy that meets its contract, when the blocks'
  offsets are not decreasing, a key that was added for a data block is matched by the reader at that
  block's offset, however many blocks share one filter and however many filters are empty.\<close>

theorem filter_block_no_false_negatives:
  assumes "filter_policy create may_match" "sorted (map fst blocks)" "length (filter_block create blocks) < 2 ^ 32"
    "(block_offset, keys) \<in> set blocks" "key \<in> set keys"
  shows "FilterBlockReader_KeyMayMatch may_match (FilterBlockReader_new (filter_block create blocks)) block_offset key = Some True"
  using filter_block_lookup [OF assms(1-4)] assms(5) by fastforce

lemma length_Bloom_CreateFilter:
  "length (Bloom_CreateFilter p keys dst) = length dst + (max 64 (length keys * bits_per_key p) + 7) div 8 + 1"
proof -
  have "length (fold (\<lambda>key a. let h = BloomHash key in bloom_set bits (bloom_delta h) (bloom_k p) h a) keys a) = length a" for bits a
    by (induction keys arbitrary: a) (simp_all add: Let_def)
  then show ?thesis by (simp add: Bloom_CreateFilter_def Let_def max_def)
qed

theorem filter_block_no_false_negatives_witness:
  "FilterBlockReader_KeyMayMatch Bloom_KeyMayMatch (FilterBlockReader_new (filter_block
      (Bloom_CreateFilter (BloomFilterPolicy_new 10)) [(0, [[1], [2, 3]]), (5000, [[4]])])) 5000 [4] = Some True"
proof (rule filter_block_no_false_negatives [where keys = "[[4]]"])
  show "filter_policy (Bloom_CreateFilter (BloomFilterPolicy_new 10)) Bloom_KeyMayMatch" by (rule bloom.filter_policy_axioms)
  show "length (filter_block (Bloom_CreateFilter (BloomFilterPolicy_new 10)) [(0, [[1], [2, 3]]), (5000, [[4]])]) < 2 ^ 32"
    unfolding filter_block_def
    by (simp add: fb_state_new FilterBlockBuilder_StartBlock_def bloom.StartBlock_law fb_state_AddKey bloom.next_filter_def kFilterBase_def kFilterBaseLg_def
     FilterBlockBuilder_Finish_def bloom.Generate_law Let_def)
     (simp add: fb_state_def starts_def length_Bloom_CreateFilter PutFixed32_def BloomFilterPolicy_new_def)
qed simp_all

end
