(* ===== verification/Format.thy ===== *)
theory Format
  imports Coding Crc32c EnvFiles
begin

text \<open>
  The file format of tables, \<open>table/format.cc\<close>: block handles, the footer and the reading of one block
  with its trailer. The file is an argument (its \<open>Read\<close>), so is the Snappy library behind
  \<open>port/port_posix.h\<close>. A read outside the memory the code owns is the result \<open>None\<close>.
\<close>

subsection \<open>Handles and footer\<close>

record BlockHandle =
  bh_offset :: uint64
  bh_size :: uint64

definition BlockHandle_new :: BlockHandle where
  "BlockHandle_new = \<lparr> bh_offset = NOT 0, bh_size = NOT 0 \<rparr>"

definition kMaxEncodedLength :: nat where "kMaxEncodedLength = 10 + 10"

definition BlockHandle_EncodeTo :: "BlockHandle \<Rightarrow> slice \<Rightarrow> slice" where
  "BlockHandle_EncodeTo h dst = PutVarint64 (PutVarint64 dst (bh_offset h)) (bh_size h)"

definition BlockHandle_DecodeFrom :: "BlockHandle \<Rightarrow> slice \<Rightarrow> BlockHandle \<times> slice \<times> status" where
  "BlockHandle_DecodeFrom h input =
     (case GetVarint64 input of
        None \<Rightarrow> (h, input, Status_Corruption (str ''bad block handle'') [])
      | Some (off, input1) \<Rightarrow>
          (case GetVarint64 input1 of
             None \<Rightarrow> (h \<lparr> bh_offset := off \<rparr>, input1, Status_Corruption (str ''bad block handle'') [])
           | Some (sz, input2) \<Rightarrow> (h \<lparr> bh_offset := off, bh_size := sz \<rparr>, input2, Status_OK)))"

record Footer =
  metaindex_handle :: BlockHandle
  index_handle :: BlockHandle

definition kEncodedLength :: nat where "kEncodedLength = 2 * kMaxEncodedLength + 8"

definition kTableMagicNumber :: uint64 where "kTableMagicNumber = 0xdb4775248b80fb57"

text \<open>\<open>std::string::resize\<close>: cut, or pad with zero bytes.\<close>

definition resize :: "slice \<Rightarrow> nat \<Rightarrow> slice" where
  "resize s n = take n s @ replicate (n - length s) 0"

definition Footer_EncodeTo :: "Footer \<Rightarrow> slice \<Rightarrow> slice" where
  "Footer_EncodeTo f dst =
     (let dst = BlockHandle_EncodeTo (metaindex_handle f) dst;
          dst = BlockHandle_EncodeTo (index_handle f) dst;
          dst = resize dst (2 * kMaxEncodedLength);
          dst = PutFixed32 dst (ucast (kTableMagicNumber AND 0xffffffff))
      in PutFixed32 dst (ucast (drop_bit 32 kTableMagicNumber)))"

text \<open>The magic number is read at a fixed distance, whatever the length of the input.\<close>

definition Footer_DecodeFrom :: "Footer \<Rightarrow> slice \<Rightarrow> (Footer \<times> slice \<times> status) option" where
  "Footer_DecodeFrom f input =
     (if length input < kEncodedLength then None
      else let magic_ptr = drop (kEncodedLength - 8) input;
               magic_lo = DecodeFixed32 magic_ptr; magic_hi = DecodeFixed32 (drop 4 magic_ptr);
               magic = push_bit 32 (ucast magic_hi) OR ucast magic_lo :: uint64
           in if magic \<noteq> kTableMagicNumber
              then Some (f, input, Status_Corruption (str ''not an sstable (bad magic number)'') [])
              else case BlockHandle_DecodeFrom (metaindex_handle f) input of (mh, input1, s1) \<Rightarrow>
                if \<not> Status_ok s1 then Some (f \<lparr> metaindex_handle := mh \<rparr>, input1, s1)
                else case BlockHandle_DecodeFrom (index_handle f) input1 of (ih, input2, s2) \<Rightarrow>
                  Some (f \<lparr> metaindex_handle := mh, index_handle := ih \<rparr>,
                        if Status_ok s2 then drop 8 magic_ptr else input2, s2))"

subsection \<open>Compression\<close>

datatype CompressionType = kNoCompression | kSnappyCompression

fun CompressionType_code :: "CompressionType \<Rightarrow> byte" where
  "CompressionType_code kNoCompression = 0"
| "CompressionType_code kSnappyCompression = 1"

text \<open>\<open>port_posix.h\<close> built without Snappy.\<close>

definition Snappy_Compress :: "slice \<Rightarrow> slice option" where "Snappy_Compress input = None"
definition Snappy_GetUncompressedLength :: "slice \<Rightarrow> nat option" where "Snappy_GetUncompressedLength input = None"
definition Snappy_Uncompress :: "slice \<Rightarrow> slice option" where "Snappy_Uncompress input = None"

text \<open>The interface of \<open>port_posix.h\<close>: \<open>None\<close> is the result false. Uncompressing what was compressed gives
  it back; the format has a 32-bit length, longer inputs are not compressed.\<close>

locale snappy =
  fixes compress :: "slice \<Rightarrow> slice option"
    and uncompressed_length :: "slice \<Rightarrow> nat option"
    and uncompress :: "slice \<Rightarrow> slice option"
  assumes uncompress_compress: "compress raw = Some c \<Longrightarrow> uncompressed_length c = Some (length raw) \<and> uncompress c = Some raw"
    and compress_length: "compress raw = Some c \<Longrightarrow> length raw < 2 ^ 32"

interpretation no_snappy: snappy Snappy_Compress Snappy_GetUncompressedLength Snappy_Uncompress
  by unfold_locales (simp_all add: Snappy_Compress_def)

subsection \<open>Reading a block\<close>

definition kBlockTrailerSize :: nat where "kBlockTrailerSize = 5"

record BlockContents =
  bc_data :: slice
  bc_cachable :: bool
  bc_heap_allocated :: bool

text \<open>\<open>direct f off n\<close>: the file hands out a pointer to its own memory instead of filling the buffer. \<open>None\<close>:
  the length of the block and its trailer wraps.\<close>

definition ReadBlock ::
    "('f \<Rightarrow> nat \<Rightarrow> nat \<Rightarrow> status \<times> slice) \<Rightarrow> ('f \<Rightarrow> nat \<Rightarrow> nat \<Rightarrow> bool) \<Rightarrow> (slice \<Rightarrow> nat option) \<Rightarrow> (slice \<Rightarrow> slice option) \<Rightarrow>
     'f \<Rightarrow> bool \<Rightarrow> BlockHandle \<Rightarrow> (status \<times> BlockContents) option" where
  "ReadBlock Read direct ulen uncomp file verify_checksums handle =
     (let none = \<lparr> bc_data = [], bc_cachable = False, bc_heap_allocated = False \<rparr>;
          n = unat (bh_size handle)
      in if 2 ^ 64 \<le> n + kBlockTrailerSize then None
         else case Read file (unat (bh_offset handle)) (n + kBlockTrailerSize) of (s, contents) \<Rightarrow>
           if \<not> Status_ok s then Some (s, none)
           else if length contents \<noteq> n + kBlockTrailerSize then Some (Status_Corruption (str ''truncated block read'') [], none)
           else if verify_checksums \<and> crc32c_Value (take (n + 1) contents) \<noteq> crc32c_Unmask (DecodeFixed32 (drop (n + 1) contents))
           then Some (Status_Corruption (str ''block checksum mismatch'') [], none)
           else if contents ! n = CompressionType_code kNoCompression then
             (if direct file (unat (bh_offset handle)) (n + kBlockTrailerSize)
              then Some (Status_OK, \<lparr> bc_data = take n contents, bc_cachable = False, bc_heap_allocated = False \<rparr>)
              else Some (Status_OK, \<lparr> bc_data = take n contents, bc_cachable = True, bc_heap_allocated = True \<rparr>))
           else if contents ! n = CompressionType_code kSnappyCompression then
             (case ulen (take n contents) of
                None \<Rightarrow> Some (Status_Corruption (str ''corrupted compressed block contents'') [], none)
              | Some ulength \<Rightarrow>
                  (case uncomp (take n contents) of
                     None \<Rightarrow> Some (Status_Corruption (str ''corrupted compressed block contents'') [], none)
                   | Some ubuf \<Rightarrow>
                       Some (Status_OK, \<lparr> bc_data = take ulength ubuf, bc_cachable = True, bc_heap_allocated = True \<rparr>)))
           else Some (Status_Corruption (str ''bad block type'') [], none))"

subsection \<open>Round trips\<close>

lemma BlockHandle_Decode_Encode:
  "BlockHandle_DecodeFrom h0 (BlockHandle_EncodeTo h [] @ rest) = (h, rest, Status_OK)"
  by (simp add: BlockHandle_DecodeFrom_def BlockHandle_EncodeTo_def PutVarint64_def GetVarint64_Encode)

lemma BlockHandle_Encode_append: "BlockHandle_EncodeTo h dst = dst @ BlockHandle_EncodeTo h []"
  by (simp add: BlockHandle_EncodeTo_def PutVarint64_def)

lemma length_BlockHandle_EncodeTo: "length (BlockHandle_EncodeTo h []) \<le> 20"
  using length_EncodeVarint64 [of "bh_offset h"] length_EncodeVarint64 [of "bh_size h"]
  by (simp add: BlockHandle_EncodeTo_def PutVarint64_def)

lemma Footer_bytes:
  "\<exists>pad. Footer_EncodeTo f [] = BlockHandle_EncodeTo (metaindex_handle f) [] @ BlockHandle_EncodeTo (index_handle f) [] @ pad @
     EncodeFixed32 0x8b80fb57 @ EncodeFixed32 0xdb477524 \<and> length (Footer_EncodeTo f []) = 48"
proof -
  let ?h = "BlockHandle_EncodeTo (metaindex_handle f) [] @ BlockHandle_EncodeTo (index_handle f) []"
  have "length ?h \<le> 40"
    using length_BlockHandle_EncodeTo [of "metaindex_handle f"] length_BlockHandle_EncodeTo [of "index_handle f"] by simp
  then show ?thesis
    by (simp add: Footer_EncodeTo_def Let_def kMaxEncodedLength_def resize_def PutFixed32_def kTableMagicNumber_def
        BlockHandle_Encode_append [of _ "BlockHandle_EncodeTo (metaindex_handle f) []"])
qed

lemma Footer_Decode_Encode: "Footer_DecodeFrom f0 (Footer_EncodeTo f [] @ rest) = Some (f, rest, Status_OK)"
proof -
  obtain pad where b: "Footer_EncodeTo f [] = BlockHandle_EncodeTo (metaindex_handle f) [] @ BlockHandle_EncodeTo (index_handle f) [] @ pad @
     EncodeFixed32 0x8b80fb57 @ EncodeFixed32 0xdb477524" "length (Footer_EncodeTo f []) = 48"
    using Footer_bytes by blast
  define p where "p = BlockHandle_EncodeTo (metaindex_handle f) [] @ BlockHandle_EncodeTo (index_handle f) [] @ pad"
  have F: "Footer_EncodeTo f [] = p @ EncodeFixed32 0x8b80fb57 @ EncodeFixed32 0xdb477524" "length p = 40"
    using b by (simp_all add: p_def)
  have m: "drop 40 (Footer_EncodeTo f [] @ rest) = EncodeFixed32 0x8b80fb57 @ EncodeFixed32 0xdb477524 @ rest"
    using F by simp
  have d: "drop 8 (EncodeFixed32 x @ EncodeFixed32 y @ rest) = rest" "drop 4 (EncodeFixed32 x @ ys) = ys" for x y ys by simp_all
  have h: "BlockHandle_DecodeFrom h0 (Footer_EncodeTo f [] @ rest) = (metaindex_handle f,
      BlockHandle_EncodeTo (index_handle f) [] @ pad @ EncodeFixed32 0x8b80fb57 @ EncodeFixed32 0xdb477524 @ rest, Status_OK)" for h0
    using BlockHandle_Decode_Encode by (simp add: b(1))
  have h2: "BlockHandle_DecodeFrom h0 (BlockHandle_EncodeTo (index_handle f) [] @ ys) = (index_handle f, ys, Status_OK)" for h0 ys
    by (rule BlockHandle_Decode_Encode)
  show ?thesis
    using b(2) m h h2 by (simp add: Footer_DecodeFrom_def kEncodedLength_def kMaxEncodedLength_def Let_def DecodeFixed32_Encode d kTableMagicNumber_def Status_ok_def Status_OK_def)
qed


text \<open>A block as \<open>WriteRawBlock\<close> stores it: the contents, the type byte and the masked checksum of both.\<close>

definition stored_block :: "slice \<Rightarrow> CompressionType \<Rightarrow> slice" where
  "stored_block contents t = contents @ [CompressionType_code t] @
     EncodeFixed32 (crc32c_Mask (crc32c_Extend (crc32c_Value contents) [CompressionType_code t]))"

lemma length_stored_block [simp]: "length (stored_block contents t) = length contents + 5"
  by (simp add: stored_block_def)

lemma stored_checksum:
  "crc32c_Unmask (DecodeFixed32 (drop (length contents + 1) (stored_block contents t))) =
     crc32c_Value (take (length contents + 1) (stored_block contents t))"
  using DecodeFixed32_Encode [of "crc32c_Mask (crc32c_Extend (crc32c_Value contents) [CompressionType_code t])" "[]"]
  by (simp add: stored_block_def Unmask_Mask crc32c_Value_append)

context snappy
begin

text \<open>What \<open>WriteBlock\<close> stores for the contents \<open>raw\<close> reads back as \<open>raw\<close>, compressed or not.\<close>

lemma ReadBlock_stored:
  assumes "Read f (unat (bh_offset h)) (length c + 5) = (Status_OK, stored_block c t)" "unat (bh_size h) = length c"
    "length c + 5 < 2 ^ 64" "t = kNoCompression \<and> c = raw \<or> t = kSnappyCompression \<and> compress raw = Some c"
  shows "\<exists>cachable heap. ReadBlock Read direct uncompressed_length uncompress f verify h =
    Some (Status_OK, \<lparr> bc_data = raw, bc_cachable = cachable, bc_heap_allocated = heap \<rparr>)"
proof -
  have n: "stored_block c t ! length c = CompressionType_code t" "take (length c) (stored_block c t) = c"
    by (simp_all add: stored_block_def nth_append)
  have sc: "crc32c_Value (take (Suc (length c)) (stored_block c t)) =
      crc32c_Unmask (DecodeFixed32 (drop (Suc (length c)) (stored_block c t)))"
    using stored_checksum [of c t] by simp
  show ?thesis
    using assms(4) uncompress_compress [of raw c] assms(1-3) n sc
    by (elim disjE) (simp_all add: ReadBlock_def Let_def kBlockTrailerSize_def Status_ok_def Status_OK_def, blast+)
qed

end

end
