(* ===== verification/TableBuilder.thy ===== *)
theory TableBuilder
  imports BlockCorrect FilterBlock Format
begin

text \<open>
  Writing tables: \<open>table/table_builder.cc\<close>. The file is an argument (its \<open>Append\<close> and \<open>Flush\<close>), so is the
  compressor. The comparator and the filter policy of the options are their operations;
  \<open>opt_comparator\<close> is the comparator's address.
\<close>

record FilterPolicy =
  fp_CreateFilter :: "slice list \<Rightarrow> slice \<Rightarrow> slice"
  fp_KeyMayMatch :: "slice \<Rightarrow> slice \<Rightarrow> bool"
  fp_Name :: slice

record Options =
  opt_comparator :: nat
  opt_Compare :: "slice \<Rightarrow> slice \<Rightarrow> int"
  opt_FindShortestSeparator :: "slice \<Rightarrow> slice \<Rightarrow> slice"
  opt_FindShortSuccessor :: "slice \<Rightarrow> slice"
  opt_paranoid_checks :: bool
  opt_block_size :: nat
  opt_block_restart_interval :: nat
  opt_compression :: CompressionType
  opt_filter_policy :: "FilterPolicy option"

record 'f write_ops =
  w_Append :: "'f \<Rightarrow> slice \<Rightarrow> 'f \<times> status"
  w_Flush :: "'f \<Rightarrow> 'f \<times> status"
  w_compress :: "slice \<Rightarrow> slice option"

record 'f TableBuilder =
  tb_options :: Options
  tb_file :: 'f
  tb_offset :: uint64
  tb_status :: status
  tb_data_block :: BlockBuilder
  tb_index_block :: BlockBuilder
  tb_last_key :: slice
  tb_num_entries :: nat
  tb_closed :: bool
  tb_filter_block :: "FilterBlockBuilder option"
  tb_pending_index_entry :: bool
  tb_pending_handle :: BlockHandle

definition tb_ok :: "'f TableBuilder \<Rightarrow> bool" where
  "tb_ok r = Status_ok (tb_status r)"

text \<open>The operations on \<open>filter_block\<close>, when there is one.\<close>

definition tb_StartBlock :: "uint64 \<Rightarrow> 'f TableBuilder \<Rightarrow> 'f TableBuilder" where
  "tb_StartBlock off r =
     (case (tb_filter_block r, opt_filter_policy (tb_options r)) of
        (Some fb, Some p) \<Rightarrow> r \<lparr> tb_filter_block := Some (FilterBlockBuilder_StartBlock (fp_CreateFilter p) fb off) \<rparr>
      | _ \<Rightarrow> r)"

definition TableBuilder_new :: "Options \<Rightarrow> 'f \<Rightarrow> 'f TableBuilder" where
  "TableBuilder_new opt f =
     tb_StartBlock 0 \<lparr> tb_options = opt, tb_file = f, tb_offset = 0, tb_status = Status_OK,
       tb_data_block = BlockBuilder_new (opt_block_restart_interval opt), tb_index_block = BlockBuilder_new 1,
       tb_last_key = [], tb_num_entries = 0, tb_closed = False,
       tb_filter_block = (if opt_filter_policy opt = None then None else Some FilterBlockBuilder_new),
       tb_pending_index_entry = False, tb_pending_handle = BlockHandle_new \<rparr>"

text \<open>The block builders read the restart interval through the options they point to.\<close>

definition TableBuilder_ChangeOptions :: "'f TableBuilder \<Rightarrow> Options \<Rightarrow> 'f TableBuilder \<times> status" where
  "TableBuilder_ChangeOptions r opt =
     (if opt_comparator opt \<noteq> opt_comparator (tb_options r)
      then (r, Status_InvalidArgument (str ''changing comparator while building table'') [])
      else (r \<lparr> tb_options := opt,
                tb_data_block := (tb_data_block r) \<lparr> bb_interval := opt_block_restart_interval opt \<rparr>,
                tb_index_block := (tb_index_block r) \<lparr> bb_interval := 1 \<rparr> \<rparr>, Status_OK))"

definition WriteRawBlock :: "'f write_ops \<Rightarrow> 'f TableBuilder \<Rightarrow> slice \<Rightarrow> CompressionType \<Rightarrow> 'f TableBuilder \<times> BlockHandle" where
  "WriteRawBlock ops r contents t =
     (let handle = \<lparr> bh_offset = tb_offset r, bh_size = word_of_nat (length contents) \<rparr>
      in case w_Append ops (tb_file r) contents of (f1, s1) \<Rightarrow>
           if \<not> Status_ok s1 then (r \<lparr> tb_file := f1, tb_status := s1 \<rparr>, handle)
           else let crc = crc32c_Extend (crc32c_Value contents) [CompressionType_code t];
                    trailer = [CompressionType_code t] @ EncodeFixed32 (crc32c_Mask crc)
                in case w_Append ops f1 trailer of (f2, s2) \<Rightarrow>
                     if \<not> Status_ok s2 then (r \<lparr> tb_file := f2, tb_status := s2 \<rparr>, handle)
                     else (r \<lparr> tb_file := f2, tb_status := s2,
                               tb_offset := tb_offset r + word_of_nat (length contents + kBlockTrailerSize) \<rparr>, handle))"

text \<open>\<open>WriteBlock\<close>: what of the finished block is stored, and the reset builder.\<close>

definition compressed_block :: "'f write_ops \<Rightarrow> CompressionType \<Rightarrow> slice \<Rightarrow> slice \<times> CompressionType" where
  "compressed_block ops t raw =
     (case t of
        kNoCompression \<Rightarrow> (raw, kNoCompression)
      | kSnappyCompression \<Rightarrow>
          (case w_compress ops raw of
             Some compressed \<Rightarrow>
               if length compressed < length raw - length raw div 8 then (compressed, kSnappyCompression)
               else (raw, kNoCompression)
           | None \<Rightarrow> (raw, kNoCompression)))"

definition WriteBlock :: "'f write_ops \<Rightarrow> 'f TableBuilder \<Rightarrow> BlockBuilder \<Rightarrow> 'f TableBuilder \<times> BlockBuilder \<times> BlockHandle" where
  "WriteBlock ops r block =
     (let (block, raw) = BlockBuilder_Finish block;
          (contents, t) = compressed_block ops (opt_compression (tb_options r)) raw;
          (r, handle) = WriteRawBlock ops r contents t
      in (r, BlockBuilder_Reset block, handle))"

definition BlockBuilder_empty :: "BlockBuilder \<Rightarrow> bool" where
  "BlockBuilder_empty b \<longleftrightarrow> bb_buffer b = []"

definition TableBuilder_Flush :: "'f write_ops \<Rightarrow> 'f TableBuilder \<Rightarrow> 'f TableBuilder" where
  "TableBuilder_Flush ops r =
     (if \<not> tb_ok r then r
      else if BlockBuilder_empty (tb_data_block r) then r
      else let (r, block, handle) = WriteBlock ops r (tb_data_block r);
               r = r \<lparr> tb_data_block := block, tb_pending_handle := handle \<rparr>;
               r = (if tb_ok r
                    then let (f, s) = w_Flush ops (tb_file r)
                         in r \<lparr> tb_pending_index_entry := True, tb_file := f, tb_status := s \<rparr>
                    else r)
           in tb_StartBlock (tb_offset r) r)"

text \<open>The index entry of the last block, under the given key.\<close>

definition emit_index_entry :: "slice \<Rightarrow> 'f TableBuilder \<Rightarrow> 'f TableBuilder" where
  "emit_index_entry key r =
     r \<lparr> tb_last_key := key,
         tb_index_block := BlockBuilder_Add (tb_index_block r) key (BlockHandle_EncodeTo (tb_pending_handle r) []),
         tb_pending_index_entry := False \<rparr>"

definition TableBuilder_Add :: "'f write_ops \<Rightarrow> 'f TableBuilder \<Rightarrow> slice \<Rightarrow> slice \<Rightarrow> 'f TableBuilder" where
  "TableBuilder_Add ops r key val =
     (if \<not> tb_ok r then r
      else let r = (if tb_pending_index_entry r
                    then emit_index_entry (opt_FindShortestSeparator (tb_options r) (tb_last_key r) key) r
                    else r);
               r = (case tb_filter_block r of
                      Some fb \<Rightarrow> r \<lparr> tb_filter_block := Some (FilterBlockBuilder_AddKey fb key) \<rparr> | None \<Rightarrow> r);
               r = r \<lparr> tb_last_key := key, tb_num_entries := tb_num_entries r + 1,
                       tb_data_block := BlockBuilder_Add (tb_data_block r) key val \<rparr>;
               estimated_block_size = BlockBuilder_CurrentSizeEstimate (tb_data_block r)
           in if opt_block_size (tb_options r) \<le> estimated_block_size then TableBuilder_Flush ops r else r)"

text \<open>The four parts of \<open>Finish\<close>.\<close>

definition Finish_filter :: "'f write_ops \<Rightarrow> 'f TableBuilder \<Rightarrow> 'f TableBuilder \<times> BlockHandle" where
  "Finish_filter ops r =
     (case (tb_filter_block r, opt_filter_policy (tb_options r)) of
        (Some fb, Some p) \<Rightarrow>
          if tb_ok r then WriteRawBlock ops r (FilterBlockBuilder_Finish (fp_CreateFilter p) fb) kNoCompression
          else (r, BlockHandle_new)
      | _ \<Rightarrow> (r, BlockHandle_new))"

definition Finish_metaindex :: "'f write_ops \<Rightarrow> 'f TableBuilder \<Rightarrow> BlockHandle \<Rightarrow> 'f TableBuilder \<times> BlockHandle" where
  "Finish_metaindex ops r filter_block_handle =
     (if tb_ok r then
        let meta = BlockBuilder_new (opt_block_restart_interval (tb_options r));
            meta = (case (tb_filter_block r, opt_filter_policy (tb_options r)) of
                      (Some fb, Some p) \<Rightarrow>
                        BlockBuilder_Add meta (str ''filter.'' @ fp_Name p) (BlockHandle_EncodeTo filter_block_handle [])
                    | _ \<Rightarrow> meta);
            (r, _, handle) = WriteBlock ops r meta
        in (r, handle)
      else (r, BlockHandle_new))"

definition Finish_index :: "'f write_ops \<Rightarrow> 'f TableBuilder \<Rightarrow> 'f TableBuilder \<times> BlockHandle" where
  "Finish_index ops r =
     (if tb_ok r then
        let r = (if tb_pending_index_entry r
                 then emit_index_entry (opt_FindShortSuccessor (tb_options r) (tb_last_key r)) r else r);
            (r, block, handle) = WriteBlock ops r (tb_index_block r)
        in (r \<lparr> tb_index_block := block \<rparr>, handle)
      else (r, BlockHandle_new))"

definition Finish_footer :: "'f write_ops \<Rightarrow> 'f TableBuilder \<Rightarrow> BlockHandle \<Rightarrow> BlockHandle \<Rightarrow> 'f TableBuilder" where
  "Finish_footer ops r metaindex_block_handle index_block_handle =
     (if tb_ok r then
        let footer_encoding = Footer_EncodeTo \<lparr> metaindex_handle = metaindex_block_handle, index_handle = index_block_handle \<rparr> [];
            (f, s) = w_Append ops (tb_file r) footer_encoding;
            r = r \<lparr> tb_file := f, tb_status := s \<rparr>
        in if tb_ok r then r \<lparr> tb_offset := tb_offset r + word_of_nat (length footer_encoding) \<rparr> else r
      else r)"

definition TableBuilder_Finish :: "'f write_ops \<Rightarrow> 'f TableBuilder \<Rightarrow> 'f TableBuilder \<times> status" where
  "TableBuilder_Finish ops r =
     (let r = (TableBuilder_Flush ops r) \<lparr> tb_closed := True \<rparr>;
          (r, filter_block_handle) = Finish_filter ops r;
          (r, metaindex_block_handle) = Finish_metaindex ops r filter_block_handle;
          (r, index_block_handle) = Finish_index ops r;
          r = Finish_footer ops r metaindex_block_handle index_block_handle
      in (r, tb_status r))"

definition TableBuilder_Abandon :: "'f TableBuilder \<Rightarrow> 'f TableBuilder" where
  "TableBuilder_Abandon r = r \<lparr> tb_closed := True \<rparr>"

definition TableBuilder_NumEntries :: "'f TableBuilder \<Rightarrow> nat" where
  "TableBuilder_NumEntries r = tb_num_entries r"

definition TableBuilder_FileSize :: "'f TableBuilder \<Rightarrow> uint64" where
  "TableBuilder_FileSize r = tb_offset r"

subsection \<open>What the builder writes\<close>


text \<open>A data block that has been written: its entries, the bytes stored for it and their compression type.\<close>

type_synonym data_block = "(slice \<times> slice) list \<times> slice \<times> CompressionType"

definition stored :: "data_block \<Rightarrow> slice" where
  "stored b = stored_block (fst (snd b)) (snd (snd b))"

definition block_offset_of :: "data_block list \<Rightarrow> nat \<Rightarrow> nat" where
  "block_offset_of bl i = length (concat (map stored (take i bl)))"

definition handle_of :: "data_block list \<Rightarrow> nat \<Rightarrow> BlockHandle" where
  "handle_of bl i = \<lparr> bh_offset = word_of_nat (block_offset_of bl i), bh_size = word_of_nat (length (fst (snd (bl ! i)))) \<rparr>"

text \<open>The index entries: the separator of a block and what follows it, and the block's handle. The entry
  of the last block waits for the next key.\<close>

definition index_entry :: "(slice \<Rightarrow> slice \<Rightarrow> slice) \<Rightarrow> data_block list \<Rightarrow> (slice \<times> slice) list \<Rightarrow> nat \<Rightarrow> slice \<times> slice" where
  "index_entry sep bl cur i =
     (sep (fst (last (fst (bl ! i)))) (fst (hd (concat (map fst (drop (Suc i) bl)) @ cur))), BlockHandle_EncodeTo (handle_of bl i) [])"

definition index_entries :: "(slice \<Rightarrow> slice \<Rightarrow> slice) \<Rightarrow> data_block list \<Rightarrow> (slice \<times> slice) list \<Rightarrow> (slice \<times> slice) list" where
  "index_entries sep bl cur = map (index_entry sep bl cur) [0..<(if cur = [] then length bl - 1 else length bl)]"

definition filter_state :: "(slice list \<Rightarrow> slice \<Rightarrow> slice) \<Rightarrow> (uint64 \<times> slice list) list \<Rightarrow> FilterBlockBuilder" where
  "filter_state create blocks =
     fold (\<lambda>(o1, keys) b. fold (\<lambda>k b. FilterBlockBuilder_AddKey b k) keys (FilterBlockBuilder_StartBlock create b o1))
       blocks FilterBlockBuilder_new"

definition filter_blocks :: "data_block list \<Rightarrow> (slice \<times> slice) list \<Rightarrow> (uint64 \<times> slice list) list" where
  "filter_blocks bl cur = map (\<lambda>i. (word_of_nat (block_offset_of bl i), map fst (fst (bl ! i)))) [0..<length bl] @
     [(word_of_nat (block_offset_of bl (length bl)), map fst cur)]"

lemma handle_of_append: "i < length bl \<Longrightarrow> handle_of (bl @ bl') i = handle_of bl i"
  by (simp add: handle_of_def block_offset_of_def nth_append)

lemma concat_blocks_nonempty: "\<forall>b\<in>set bl. fst b \<noteq> [] \<Longrightarrow> i < length bl \<Longrightarrow> concat (map fst (drop i bl)) \<noteq> []"
  by (auto simp flip: Cons_nth_drop_Suc)

lemma index_entries_add: "cur \<noteq> [] \<Longrightarrow> index_entries sep bl (cur @ [kv]) = index_entries sep bl cur"
  by (simp add: index_entries_def index_entry_def hd_append)

lemma index_entries_emit:
  assumes "\<forall>b\<in>set bl. fst b \<noteq> []" "bl \<noteq> []"
  shows "index_entries sep bl [kv] = index_entries sep bl [] @
    [(sep (fst (last (concat (map fst bl)))) (fst kv), BlockHandle_EncodeTo (handle_of bl (length bl - 1)) [])]"
proof -
  obtain n where n: "length bl = Suc n" using assms(2) by (cases bl) auto
  have "index_entry sep bl [kv] i = index_entry sep bl [] i" if "i < n" for i
    using concat_blocks_nonempty [OF assms(1), of "Suc i"] that n
    by (cases "concat (map fst (drop (Suc i) bl))") (simp_all add: index_entry_def)
  moreover have "last (concat (map fst bl)) = last (fst (bl ! n))"
  proof -
    have "concat (map fst bl) = concat (map fst (take n bl)) @ fst (bl ! n)"
      using arg_cong [OF id_take_nth_drop [of n bl], of "\<lambda>l. concat (map fst l)"] n by simp
    then show ?thesis using assms(1) n by simp
  qed
  ultimately show ?thesis using n by (simp add: index_entries_def) (simp add: index_entry_def n)
qed

lemma index_entries_flush: "cur \<noteq> [] \<Longrightarrow> index_entries sep (bl @ [(cur, c)]) [] = index_entries sep bl cur"
  by (auto simp: index_entries_def index_entry_def handle_of_append nth_append)

lemma filter_state_add: "filter_state create (filter_blocks bl (cur @ [(k, v)])) = FilterBlockBuilder_AddKey (filter_state create (filter_blocks bl cur)) k"
  by (simp add: filter_state_def filter_blocks_def)

lemma block_offset_of_append: "i \<le> length bl \<Longrightarrow> block_offset_of (bl @ bl') i = block_offset_of bl i"
  by (simp add: block_offset_of_def)

lemma filter_state_flush: "filter_state create (filter_blocks (bl @ [(cur, c)]) []) =
    FilterBlockBuilder_StartBlock create (filter_state create (filter_blocks bl cur)) (word_of_nat (block_offset_of (bl @ [(cur, c)]) (Suc (length bl))))"
proof -
  have "filter_blocks (bl @ [(cur, c)]) [] = filter_blocks bl cur @ [(word_of_nat (block_offset_of (bl @ [(cur, c)]) (Suc (length bl))), [])]"
    by (auto simp: filter_blocks_def block_offset_of_append nth_append)
  then show ?thesis by (simp add: filter_state_def)
qed

lemma block_contents_empty: "1 \<le> interval \<Longrightarrow> BlockBuilder_empty (block_contents interval es) \<longleftrightarrow> es = []"
proof -
  assume i: "1 \<le> interval"
  have "built_entry interval es j \<noteq> []" for j
  proof
    assume "built_entry interval es j = []"
    then show False using length_entry_bytes [of "(built_shared interval es j, es ! j)"] by (simp add: built_entry_def)
  qed
  then have "concat (map (built_entry interval es) [0..<length es]) = [] \<longleftrightarrow> es = []" by (cases es) (simp_all del: upt_Suc, force)
  then show ?thesis by (simp add: BlockBuilder_empty_def block_contents_law [OF i])
qed

lemma block_contents_Reset:
  "1 \<le> interval \<Longrightarrow> BlockBuilder_Reset (fst (BlockBuilder_Finish (block_contents interval es))) = block_contents interval []"
  by (simp add: BlockBuilder_Reset_def BlockBuilder_Finish_def Let_def block_contents_law)
    (simp add: built_restarts_def built_offset_def)

text \<open>What the builder has done after the entries \<open>kvs\<close>.\<close>

definition tb_inv :: "'f write_ops \<Rightarrow> ('f \<Rightarrow> slice) \<Rightarrow> ('f \<Rightarrow> bool) \<Rightarrow> Options \<Rightarrow> (slice \<times> slice) list \<Rightarrow> data_block list \<Rightarrow>
    (slice \<times> slice) list \<Rightarrow> 'f TableBuilder \<Rightarrow> bool" where
  "tb_inv ops contents writable opt kvs bl cur r \<longleftrightarrow>
     tb_options r = opt \<and> tb_status r = Status_OK \<and> writable (tb_file r) \<and> contents (tb_file r) = concat (map stored bl) \<and>
     tb_offset r = word_of_nat (length (concat (map stored bl))) \<and>
     tb_data_block r = block_contents (opt_block_restart_interval opt) cur \<and>
     tb_index_block r = block_contents 1 (index_entries (opt_FindShortestSeparator opt) bl cur) \<and>
     tb_num_entries r = length kvs \<and> (kvs \<noteq> [] \<longrightarrow> tb_last_key r = fst (last kvs)) \<and>
     tb_filter_block r = map_option (\<lambda>p. filter_state (fp_CreateFilter p) (filter_blocks bl cur)) (opt_filter_policy opt) \<and>
     tb_pending_index_entry r = (cur = [] \<and> bl \<noteq> []) \<and>
     (cur = [] \<and> bl \<noteq> [] \<longrightarrow> tb_pending_handle r = handle_of bl (length bl - 1)) \<and>
     kvs = concat (map fst bl) @ cur \<and>
     (\<forall>b\<in>set bl. fst b \<noteq> [] \<and> snd b = compressed_block ops (opt_compression opt) (built_block (opt_block_restart_interval opt) (fst b)))"

locale table_file = writable_file "w_Append ops" "w_Flush ops" contents writable
  for ops :: "'f write_ops" and contents :: "'f \<Rightarrow> slice" and writable :: "'f \<Rightarrow> bool"
begin

lemma WriteRawBlock_law:
  assumes "writable (tb_file r)"
  shows "\<exists>f'. WriteRawBlock ops r c t = (r \<lparr> tb_file := f', tb_status := Status_OK,
      tb_offset := tb_offset r + word_of_nat (length (stored_block c t)) \<rparr>,
      \<lparr> bh_offset = tb_offset r, bh_size = word_of_nat (length c) \<rparr>) \<and>
    writable f' \<and> contents f' = contents (tb_file r) @ stored_block c t"
proof -
  obtain f1 where 1: "w_Append ops (tb_file r) c = (f1, Status_OK)" "writable f1" "contents f1 = contents (tb_file r) @ c"
    using Append_ok [OF assms] by blast
  obtain f2 where 2: "w_Append ops f1 ([CompressionType_code t] @
      EncodeFixed32 (crc32c_Mask (crc32c_Extend (crc32c_Value c) [CompressionType_code t]))) = (f2, Status_OK)" "writable f2"
    "contents f2 = contents f1 @ [CompressionType_code t] @
      EncodeFixed32 (crc32c_Mask (crc32c_Extend (crc32c_Value c) [CompressionType_code t]))"
    using Append_ok [OF 1(2)] by blast
  show ?thesis
    using 1 2 by (intro exI [of _ f2]) (simp add: WriteRawBlock_def Let_def Status_ok_def Status_OK_def kBlockTrailerSize_def stored_block_def)
qed

lemma WriteBlock_law:
  assumes "writable (tb_file r)" "1 \<le> interval"
    "compressed_block ops (opt_compression (tb_options r)) (built_block interval es) = (c, t)"
  shows "\<exists>f'. WriteBlock ops r (block_contents interval es) = (r \<lparr> tb_file := f', tb_status := Status_OK,
      tb_offset := tb_offset r + word_of_nat (length (stored_block c t)) \<rparr>, block_contents interval [],
      \<lparr> bh_offset = tb_offset r, bh_size = word_of_nat (length c) \<rparr>) \<and>
    writable f' \<and> contents f' = contents (tb_file r) @ stored_block c t"
  using WriteRawBlock_law [OF assms(1), of c t] assms(3) block_contents_Reset [OF assms(2), of es]
  by (auto simp: WriteBlock_def built_block_def split: prod.splits)

lemma tb_new:
  assumes "writable f" "contents f = []"
  shows "tb_inv ops contents writable opt [] [] [] (TableBuilder_new opt f)"
  using assms by (auto simp: tb_inv_def TableBuilder_new_def tb_StartBlock_def index_entries_def filter_state_def filter_blocks_def
      block_contents_def block_offset_of_def split: option.splits)

lemma tb_flush:
  assumes "tb_inv ops contents writable opt kvs bl cur r" "1 \<le> opt_block_restart_interval opt"
  shows "\<exists>bl'. tb_inv ops contents writable opt kvs bl' [] (TableBuilder_Flush ops r)"
proof (cases "cur = []")
  case True
  then show ?thesis using assms block_contents_empty [OF assms(2)]
    by (intro exI [of _ bl]) (simp add: TableBuilder_Flush_def tb_inv_def)
next
  case False
  let ?I = "opt_block_restart_interval opt"
  note inv = assms(1) [unfolded tb_inv_def]
  obtain c t where ct: "compressed_block ops (opt_compression opt) (built_block ?I cur) = (c, t)" by (cases "compressed_block ops (opt_compression opt) (built_block ?I cur)")
  let ?bl = "bl @ [(cur, c, t)]"
  obtain f1 where w: "WriteBlock ops r (block_contents ?I cur) = (r \<lparr> tb_file := f1, tb_status := Status_OK,
      tb_offset := tb_offset r + word_of_nat (length (stored_block c t)) \<rparr>, block_contents ?I [],
      \<lparr> bh_offset = tb_offset r, bh_size = word_of_nat (length c) \<rparr>)"
    "writable f1" "contents f1 = contents (tb_file r) @ stored_block c t"
    using WriteBlock_law [of r ?I cur c t] assms(2) ct inv by auto
  obtain f2 where fl: "w_Flush ops f1 = (f2, Status_OK)" "writable f2" "contents f2 = contents f1"
    using Flush_ok [OF w(2)] by blast
  have off: "word_of_nat (length (concat (map stored bl))) + word_of_nat (length (stored_block c t)) =
      (word_of_nat (block_offset_of ?bl (Suc (length bl))) :: uint64)"
    by (simp add: block_offset_of_def stored_def flip: of_nat_add)
  have h: "handle_of ?bl (length bl) = \<lparr> bh_offset = word_of_nat (length (concat (map stored bl))), bh_size = word_of_nat (length c) \<rparr>"
    by (simp add: handle_of_def block_offset_of_def)
  have "TableBuilder_Flush ops r = tb_StartBlock (word_of_nat (block_offset_of ?bl (Suc (length bl))))
      (r \<lparr> tb_offset := word_of_nat (block_offset_of ?bl (Suc (length bl))), tb_data_block := block_contents ?I [],
           tb_pending_handle := handle_of ?bl (length bl), tb_pending_index_entry := True, tb_file := f2, tb_status := Status_OK \<rparr>)"
    using inv w(1) fl(1) block_contents_empty [OF assms(2), of cur] False off h
    by (simp add: TableBuilder_Flush_def tb_ok_def Status_ok_def Status_OK_def)
  then have "tb_inv ops contents writable opt kvs ?bl [] (TableBuilder_Flush ops r)"
    using inv fl(2,3) w(3) ct False index_entries_flush [of cur "opt_FindShortestSeparator opt" bl "(c, t)"] filter_state_flush [of _ bl cur "(c, t)"]
    by (auto simp: tb_inv_def tb_StartBlock_def stored_def block_offset_of_def split: option.splits)
  then show ?thesis by blast
qed

lemma tb_add:
  assumes "tb_inv ops contents writable opt kvs bl cur r" "1 \<le> opt_block_restart_interval opt"
  shows "\<exists>bl' cur'. tb_inv ops contents writable opt (kvs @ [(k, v)]) bl' cur' (TableBuilder_Add ops r k v)"
proof -
  let ?sep = "opt_FindShortestSeparator opt"
  note inv = assms(1) [unfolded tb_inv_def]
  define r1 where "r1 = (if tb_pending_index_entry r
    then emit_index_entry (opt_FindShortestSeparator (tb_options r) (tb_last_key r) k) r else r)"
  define r2 where "r2 = (case tb_filter_block r1 of
                      Some fb \<Rightarrow> r1 \<lparr> tb_filter_block := Some (FilterBlockBuilder_AddKey fb k) \<rparr> | None \<Rightarrow> r1)"
  define r3 where "r3 = r2 \<lparr> tb_last_key := k, tb_num_entries := tb_num_entries r2 + 1,
                       tb_data_block := BlockBuilder_Add (tb_data_block r2) k v \<rparr>"
  have index: "tb_index_block r1 = block_contents 1 (index_entries ?sep bl (cur @ [(k, v)]))"
  proof (cases "cur = [] \<and> bl \<noteq> []")
    case True
    then have kvs: "kvs = concat (map fst bl)" "kvs \<noteq> []"
      using inv concat_blocks_nonempty [of bl 0] by auto
    then have "tb_last_key r = fst (last (concat (map fst bl)))" using inv by simp
    then show ?thesis using True inv index_entries_emit [of bl ?sep "(k, v)"] block_contents_snoc
      by (simp add: r1_def emit_index_entry_def)
  next
    case False
    have "bl = [] \<Longrightarrow> index_entries ?sep bl (cur @ [(k, v)]) = index_entries ?sep bl cur" by (simp add: index_entries_def)
    then show ?thesis using False inv index_entries_add [of cur ?sep bl "(k, v)"] by (auto simp: r1_def)
  qed
  have "tb_inv ops contents writable opt (kvs @ [(k, v)]) bl (cur @ [(k, v)]) r3"
    using inv index by (auto simp: tb_inv_def r3_def r2_def r1_def emit_index_entry_def block_contents_snoc filter_state_add split: option.splits)
  moreover have "TableBuilder_Add ops r k v = (if opt_block_size opt \<le> BlockBuilder_CurrentSizeEstimate (tb_data_block r3)
      then TableBuilder_Flush ops r3 else r3)"
  proof -
    have "tb_ok r" using inv by (simp add: tb_ok_def Status_ok_def Status_OK_def)
    then have "TableBuilder_Add ops r k v = (if opt_block_size (tb_options r3) \<le> BlockBuilder_CurrentSizeEstimate (tb_data_block r3)
      then TableBuilder_Flush ops r3 else r3)"
      unfolding TableBuilder_Add_def Let_def r3_def r2_def r1_def by simp
    then show ?thesis using calculation by (simp add: tb_inv_def)
  qed
  ultimately show ?thesis using tb_flush [OF _ assms(2)] by (metis (full_types))
qed

lemma tb_add_all:
  assumes "1 \<le> opt_block_restart_interval opt" "tb_inv ops contents writable opt kvs0 bl cur r"
  shows "\<exists>bl' cur'. tb_inv ops contents writable opt (kvs0 @ kvs) bl' cur' (fold (\<lambda>(k, v) r. TableBuilder_Add ops r k v) kvs r)"
  using assms(2)
proof (induction kvs arbitrary: kvs0 bl cur r)
  case (Cons kv kvs)
  obtain k v where "kv = (k, v)" by (cases kv)
  then show ?case using tb_add [OF Cons.prems assms(1), of k v] Cons.IH [of "kvs0 @ [(k, v)]"] by fastforce
qed auto

end

text \<open>The file of a finished table: the data blocks, the filter block, the metaindex and index blocks, and the
  footer.\<close>

definition filter_part :: "Options \<Rightarrow> data_block list \<Rightarrow> slice" where
  "filter_part opt bl = (case opt_filter_policy opt of None \<Rightarrow> []
     | Some p \<Rightarrow> stored_block (filter_block (fp_CreateFilter p) (filter_blocks bl [])) kNoCompression)"

definition built_filter_handle :: "Options \<Rightarrow> data_block list \<Rightarrow> BlockHandle" where
  "built_filter_handle opt bl = (case opt_filter_policy opt of None \<Rightarrow> BlockHandle_new
     | Some p \<Rightarrow> \<lparr> bh_offset = word_of_nat (length (concat (map stored bl))),
                   bh_size = word_of_nat (length (filter_block (fp_CreateFilter p) (filter_blocks bl []))) \<rparr>)"

definition meta_entries :: "Options \<Rightarrow> data_block list \<Rightarrow> (slice \<times> slice) list" where
  "meta_entries opt bl = (case opt_filter_policy opt of None \<Rightarrow> []
     | Some p \<Rightarrow> [(str ''filter.'' @ fp_Name p, BlockHandle_EncodeTo (built_filter_handle opt bl) [])])"

definition all_index_entries :: "Options \<Rightarrow> data_block list \<Rightarrow> (slice \<times> slice) list" where
  "all_index_entries opt bl = index_entries (opt_FindShortestSeparator opt) bl [] @
     (if bl = [] then [] else [(opt_FindShortSuccessor opt (fst (last (concat (map fst bl)))), BlockHandle_EncodeTo (handle_of bl (length bl - 1)) [])])"

definition built_meta_block :: "'f write_ops \<Rightarrow> Options \<Rightarrow> data_block list \<Rightarrow> slice \<times> CompressionType" where
  "built_meta_block ops opt bl = compressed_block ops (opt_compression opt) (built_block (opt_block_restart_interval opt) (meta_entries opt bl))"

definition built_index_block :: "'f write_ops \<Rightarrow> Options \<Rightarrow> data_block list \<Rightarrow> slice \<times> CompressionType" where
  "built_index_block ops opt bl = compressed_block ops (opt_compression opt) (built_block 1 (all_index_entries opt bl))"

definition meta_start :: "Options \<Rightarrow> data_block list \<Rightarrow> nat" where
  "meta_start opt bl = length (concat (map stored bl)) + length (filter_part opt bl)"

definition table_footer :: "'f write_ops \<Rightarrow> Options \<Rightarrow> data_block list \<Rightarrow> Footer" where
  "table_footer ops opt bl =
     \<lparr> metaindex_handle = \<lparr> bh_offset = word_of_nat (meta_start opt bl), bh_size = word_of_nat (length (fst (built_meta_block ops opt bl))) \<rparr>,
       index_handle = \<lparr> bh_offset = word_of_nat (meta_start opt bl + length (case_prod stored_block (built_meta_block ops opt bl))),
                        bh_size = word_of_nat (length (fst (built_index_block ops opt bl))) \<rparr> \<rparr>"

definition table_file_bytes :: "'f write_ops \<Rightarrow> Options \<Rightarrow> data_block list \<Rightarrow> slice" where
  "table_file_bytes ops opt bl = concat (map stored bl) @ filter_part opt bl @ case_prod stored_block (built_meta_block ops opt bl) @
     case_prod stored_block (built_index_block ops opt bl) @ Footer_EncodeTo (table_footer ops opt bl) []"

context table_file
begin

text \<open>The builder has appended the bytes \<open>d\<close> to its file.\<close>

definition wrote :: "'f TableBuilder \<Rightarrow> slice \<Rightarrow> 'f TableBuilder \<Rightarrow> bool" where
  "wrote r d r' \<longleftrightarrow> (\<exists>f'. r' = r \<lparr> tb_file := f', tb_status := Status_OK, tb_offset := tb_offset r + word_of_nat (length d) \<rparr> \<and>
     writable f' \<and> contents f' = contents (tb_file r) @ d)"

lemma wrote_Nil: "writable (tb_file r) \<Longrightarrow> tb_status r = Status_OK \<Longrightarrow> wrote r [] r"
  unfolding wrote_def by (intro exI [of _ "tb_file r"]) simp

lemma wrote_fields:
  assumes "wrote r d r'"
  shows "tb_options r' = tb_options r" "tb_filter_block r' = tb_filter_block r" "tb_index_block r' = tb_index_block r"
    "tb_pending_index_entry r' = tb_pending_index_entry r" "tb_last_key r' = tb_last_key r" "tb_pending_handle r' = tb_pending_handle r"
    "tb_num_entries r' = tb_num_entries r" "tb_status r' = Status_OK" "tb_ok r'" "tb_offset r' = tb_offset r + word_of_nat (length d)"
    "writable (tb_file r')" "contents (tb_file r') = contents (tb_file r) @ d"
  using assms by (auto simp: wrote_def tb_ok_def Status_ok_def Status_OK_def)

lemma WriteRawBlock_wrote:
  assumes "writable (tb_file r)"
  shows "\<exists>r'. WriteRawBlock ops r c t = (r', \<lparr> bh_offset = tb_offset r, bh_size = word_of_nat (length c) \<rparr>) \<and> wrote r (stored_block c t) r'"
  using WriteRawBlock_law [OF assms, of c t] unfolding wrote_def by blast

lemma WriteBlock_wrote:
  assumes "writable (tb_file r)" "1 \<le> interval"
    "compressed_block ops (opt_compression (tb_options r)) (built_block interval es) = ct"
  shows "\<exists>r'. WriteBlock ops r (block_contents interval es) = (r', block_contents interval [],
      \<lparr> bh_offset = tb_offset r, bh_size = word_of_nat (length (fst ct)) \<rparr>) \<and> wrote r (case_prod stored_block ct) r'"
  using WriteBlock_law [OF assms(1,2), of es "fst ct" "snd ct"] assms(3) unfolding wrote_def by (cases ct) auto

lemma finish_filter:
  assumes "tb_inv ops contents writable opt kvs bl [] r"
  shows "\<exists>r'. Finish_filter ops r = (r', built_filter_handle opt bl) \<and> wrote r (filter_part opt bl) r'"
proof (cases "opt_filter_policy opt")
  case None
  then show ?thesis using assms wrote_Nil by (auto simp: Finish_filter_def tb_inv_def built_filter_handle_def filter_part_def)
next
  case (Some p)
  have "writable (tb_file r)" using assms by (simp add: tb_inv_def)
  from WriteRawBlock_wrote [OF this] show ?thesis using assms Some
    by (auto simp: Finish_filter_def tb_inv_def built_filter_handle_def filter_part_def tb_ok_def Status_ok_def Status_OK_def
        filter_block_def filter_state_def)
qed

lemma finish_metaindex:
  assumes "tb_options r = opt" "tb_ok r" "writable (tb_file r)" "(tb_filter_block r = None) = (opt_filter_policy opt = None)"
    "1 \<le> opt_block_restart_interval opt"
  shows "\<exists>r'. Finish_metaindex ops r (built_filter_handle opt bl) = (r', \<lparr> bh_offset = tb_offset r, bh_size = word_of_nat (length (fst (built_meta_block ops opt bl))) \<rparr>) \<and>
    wrote r (case_prod stored_block (built_meta_block ops opt bl)) r'"
proof -
  let ?I = "opt_block_restart_interval opt"
  have "(case (tb_filter_block r, opt_filter_policy opt) of
                      (Some fb, Some p) \<Rightarrow>
                        BlockBuilder_Add (BlockBuilder_new ?I) (str ''filter.'' @ fp_Name p) (BlockHandle_EncodeTo (built_filter_handle opt bl) [])
                    | _ \<Rightarrow> BlockBuilder_new ?I) = block_contents ?I (meta_entries opt bl)"
    using assms(4) by (auto simp: meta_entries_def block_contents_def split: option.splits)
  then show ?thesis
    using WriteBlock_wrote [OF assms(3,5), of "meta_entries opt bl" "built_meta_block ops opt bl"] assms(1,2)
    by (auto simp: Finish_metaindex_def Let_def built_meta_block_def)
qed

lemma finish_index:
  assumes "tb_options r = opt" "tb_ok r" "writable (tb_file r)"
    "tb_index_block r = block_contents 1 (index_entries (opt_FindShortestSeparator opt) bl [])"
    "tb_pending_index_entry r = (bl \<noteq> [])" "bl \<noteq> [] \<Longrightarrow> tb_pending_handle r = handle_of bl (length bl - 1) \<and> tb_last_key r = fst (last (concat (map fst bl)))"
  shows "\<exists>r' r1. Finish_index ops r = (r', \<lparr> bh_offset = tb_offset r, bh_size = word_of_nat (length (fst (built_index_block ops opt bl))) \<rparr>) \<and>
    wrote r1 (case_prod stored_block (built_index_block ops opt bl)) (r' \<lparr> tb_index_block := tb_index_block r1 \<rparr>) \<and> tb_file r1 = tb_file r \<and> tb_offset r1 = tb_offset r \<and> tb_num_entries r1 = tb_num_entries r"
proof -
  define r1 where "r1 = (if tb_pending_index_entry r
                 then emit_index_entry (opt_FindShortSuccessor (tb_options r) (tb_last_key r)) r else r)"
  have r1: "tb_options r1 = opt" "tb_file r1 = tb_file r" "tb_offset r1 = tb_offset r" "tb_num_entries r1 = tb_num_entries r"
    using assms(1) by (simp_all add: r1_def emit_index_entry_def)
  have i: "tb_index_block r1 = block_contents 1 (all_index_entries opt bl)"
    using assms by (auto simp: r1_def emit_index_entry_def all_index_entries_def block_contents_snoc)
  obtain r2 where w: "WriteBlock ops r1 (block_contents 1 (all_index_entries opt bl)) = (r2, block_contents 1 [],
      \<lparr> bh_offset = tb_offset r, bh_size = word_of_nat (length (fst (built_index_block ops opt bl))) \<rparr>)"
    "wrote r1 (case_prod stored_block (built_index_block ops opt bl)) r2"
    using WriteBlock_wrote [of r1 1 "all_index_entries opt bl" "built_index_block ops opt bl"] assms(3) r1 by (auto simp: built_index_block_def)
  have "Finish_index ops r = (r2 \<lparr> tb_index_block := block_contents 1 [] \<rparr>, \<lparr> bh_offset = tb_offset r, bh_size = word_of_nat (length (fst (built_index_block ops opt bl))) \<rparr>)"
    using assms(2) w(1) i unfolding Finish_index_def Let_def r1_def [symmetric] by simp
  moreover have "r2 \<lparr> tb_index_block := tb_index_block r1 \<rparr> = r2" using wrote_fields(3) [OF w(2)] by simp
  ultimately show ?thesis using w(2) r1 by (intro exI [of _ "r2 \<lparr> tb_index_block := block_contents 1 [] \<rparr>"] exI [of _ r1]) simp
qed

lemma tb_finish:
  assumes "tb_inv ops contents writable opt kvs bl0 cur0 r0" "1 \<le> opt_block_restart_interval opt"
  shows "\<exists>bl r'. TableBuilder_Finish ops r0 = (r', Status_OK) \<and> writable (tb_file r') \<and>
    contents (tb_file r') = table_file_bytes ops opt bl \<and> tb_offset r' = word_of_nat (length (contents (tb_file r'))) \<and>
    tb_num_entries r' = length kvs \<and> kvs = concat (map fst bl) \<and>
    (\<forall>b\<in>set bl. fst b \<noteq> [] \<and> snd b = compressed_block ops (opt_compression opt) (built_block (opt_block_restart_interval opt) (fst b)))"
proof -
  obtain bl where "tb_inv ops contents writable opt kvs bl [] (TableBuilder_Flush ops r0)"
    using tb_flush [OF assms] by blast
  then have inv: "tb_inv ops contents writable opt kvs bl [] (TableBuilder_Flush ops r0 \<lparr> tb_closed := True \<rparr>)" (is "tb_inv _ _ _ _ _ _ _ ?r")
    by (simp add: tb_inv_def)
  have fields: "tb_options ?r = opt" "writable (tb_file ?r)" "(tb_filter_block ?r = None) = (opt_filter_policy opt = None)"
    "tb_index_block ?r = block_contents 1 (index_entries (opt_FindShortestSeparator opt) bl [])"
    "tb_pending_index_entry ?r = (bl \<noteq> [])" "tb_num_entries ?r = length kvs"
    "tb_offset ?r = word_of_nat (length (concat (map stored bl)))" "contents (tb_file ?r) = concat (map stored bl)"
    "kvs = concat (map fst bl)" "\<forall>b\<in>set bl. fst b \<noteq> [] \<and> snd b = compressed_block ops (opt_compression opt) (built_block (opt_block_restart_interval opt) (fst b))"
    using inv by (simp_all add: tb_inv_def)
  have pend: "bl \<noteq> [] \<Longrightarrow> tb_pending_handle ?r = handle_of bl (length bl - 1) \<and> tb_last_key ?r = fst (last (concat (map fst bl)))"
    using inv concat_blocks_nonempty [of bl 0] by (simp add: tb_inv_def)
  obtain r1 where 1: "Finish_filter ops ?r = (r1, built_filter_handle opt bl)" "wrote ?r (filter_part opt bl) r1"
    using finish_filter [OF inv] by blast
  note f1 = wrote_fields [OF 1(2)]
  obtain r2 where 2: "Finish_metaindex ops r1 (built_filter_handle opt bl) = (r2, metaindex_handle (table_footer ops opt bl))"
      "wrote r1 (case_prod stored_block (built_meta_block ops opt bl)) r2"
    using finish_metaindex [of r1 opt bl] f1 fields assms(2) by (auto simp: table_footer_def meta_start_def)
  note f2 = wrote_fields [OF 2(2)]
  obtain r3 r3' where 3: "Finish_index ops r2 = (r3, index_handle (table_footer ops opt bl))"
      "wrote r3' (case_prod stored_block (built_index_block ops opt bl)) (r3 \<lparr> tb_index_block := tb_index_block r3' \<rparr>)" "tb_file r3' = tb_file r2" "tb_offset r3' = tb_offset r2"
      "tb_num_entries r3' = tb_num_entries r2"
    using finish_index [of r2 opt bl] f1 f2 fields pend by (auto simp: table_footer_def meta_start_def)
  note f3 = wrote_fields [OF 3(2), simplified]
  have ok3: "tb_ok r3" using f3(9) by (simp add: tb_ok_def)
  have c3: "contents (tb_file r3) = concat (map stored bl) @ filter_part opt bl @ case_prod stored_block (built_meta_block ops opt bl) @
      case_prod stored_block (built_index_block ops opt bl)" "tb_offset r3 = word_of_nat (length (contents (tb_file r3)))"
    using f1 f2 f3 3(3,4) fields by simp_all
  obtain f4 where 4: "w_Append ops (tb_file r3) (Footer_EncodeTo (table_footer ops opt bl) []) = (f4, Status_OK)" "writable f4"
    "contents f4 = contents (tb_file r3) @ Footer_EncodeTo (table_footer ops opt bl) []"
    using Append_ok [of "tb_file r3"] f3(11) by metis
  define r4 where "r4 = r3 \<lparr> tb_file := f4, tb_status := Status_OK, tb_offset := tb_offset r3 + word_of_nat (length (Footer_EncodeTo (table_footer ops opt bl) [])) \<rparr>"
  have footer: "\<lparr> metaindex_handle = metaindex_handle (table_footer ops opt bl), index_handle = index_handle (table_footer ops opt bl) \<rparr> =
      table_footer ops opt bl" by simp
  have "Finish_footer ops r3 (metaindex_handle (table_footer ops opt bl)) (index_handle (table_footer ops opt bl)) = r4"
    unfolding Finish_footer_def footer using ok3 4(1) by (simp add: r4_def Let_def tb_ok_def Status_ok_def Status_OK_def)
  then have "TableBuilder_Finish ops r0 = (r4, Status_OK)"
    using 1(1) 2(1) 3(1) by (simp add: TableBuilder_Finish_def Let_def r4_def)
  moreover have "writable (tb_file r4)" "contents (tb_file r4) = table_file_bytes ops opt bl" "tb_offset r4 = word_of_nat (length (contents (tb_file r4)))"
      "tb_num_entries r4 = length kvs"
    using c3 4(2,3) f1 f2 f3 3(5) fields(6) by (simp_all add: r4_def table_file_bytes_def)
  ultimately show ?thesis using fields(9,10) by blast
qed

end

end
