(* ===== verification/Table.thy ===== *)
theory Table
  imports TableBuilder
begin

text \<open>
  Reading tables: \<open>table/table.cc\<close>, and the iterators without entries of \<open>table/iterator.cc\<close>. The file, the
  Snappy library and the block cache are arguments; a cached \<open>Block\<close> is its data. \<open>None\<close> marks a read
  outside the memory the code owns.
\<close>

subsection \<open>Iterators over a block or nothing\<close>

type_synonym any_iter = "status + BlockIter"

definition NewEmptyIterator :: any_iter where "NewEmptyIterator = Inl Status_OK"

definition NewErrorIterator :: "status \<Rightarrow> any_iter" where "NewErrorIterator s = Inl s"

fun iter_Valid :: "any_iter \<Rightarrow> bool" where
  "iter_Valid (Inl s) = False"
| "iter_Valid (Inr it) = BlockIter_Valid it"

fun iter_Seek :: "(slice \<Rightarrow> slice \<Rightarrow> int) \<Rightarrow> any_iter \<Rightarrow> slice \<Rightarrow> any_iter option" where
  "iter_Seek cmp (Inl s) target = Some (Inl s)"
| "iter_Seek cmp (Inr it) target = map_option Inr (BlockIter_Seek cmp it target)"

fun iter_SeekToFirst :: "any_iter \<Rightarrow> any_iter option" where
  "iter_SeekToFirst (Inl s) = Some (Inl s)"
| "iter_SeekToFirst (Inr it) = map_option Inr (BlockIter_SeekToFirst it)"

fun iter_SeekToLast :: "any_iter \<Rightarrow> any_iter option" where
  "iter_SeekToLast (Inl s) = Some (Inl s)"
| "iter_SeekToLast (Inr it) = map_option Inr (BlockIter_SeekToLast it)"

fun iter_status :: "any_iter \<Rightarrow> status" where
  "iter_status (Inl s) = s"
| "iter_status (Inr it) = bi_status it"

fun iter_key :: "any_iter \<Rightarrow> slice" where
  "iter_key (Inl s) = []"
| "iter_key (Inr it) = bi_key it"

fun iter_value :: "any_iter \<Rightarrow> slice" where
  "iter_value (Inl s) = []"
| "iter_value (Inr it) = BlockIter_value it"

subsection \<open>Table\<close>

record 'f read_ops =
  r_Read :: "'f \<Rightarrow> nat \<Rightarrow> nat \<Rightarrow> status \<times> slice"
  r_direct :: "'f \<Rightarrow> nat \<Rightarrow> nat \<Rightarrow> bool"
  r_uncompressed_length :: "slice \<Rightarrow> nat option"
  r_uncompress :: "slice \<Rightarrow> slice option"

text \<open>The block cache as the table uses it: a new id, a lookup, an insertion.\<close>

record 'c cache_ops =
  c_NewId :: "'c \<Rightarrow> 'c \<times> uint64"
  c_Lookup :: "'c \<Rightarrow> slice \<Rightarrow> 'c \<times> slice option"
  c_Insert :: "'c \<Rightarrow> slice \<Rightarrow> slice \<Rightarrow> nat \<Rightarrow> 'c"

record 'f Table =
  t_options :: Options
  t_file :: 'f
  t_cache_id :: uint64
  t_filter :: "FilterBlockReader option"
  t_metaindex_handle :: BlockHandle
  t_index_block :: slice

definition table_ReadBlock :: "'f read_ops \<Rightarrow> 'f \<Rightarrow> bool \<Rightarrow> BlockHandle \<Rightarrow> (status \<times> BlockContents) option" where
  "table_ReadBlock ops = ReadBlock (r_Read ops) (r_direct ops) (r_uncompressed_length ops) (r_uncompress ops)"

definition Table_ReadFilter :: "'f read_ops \<Rightarrow> 'f Table \<Rightarrow> slice \<Rightarrow> 'f Table option" where
  "Table_ReadFilter ops t filter_handle_value =
     (case BlockHandle_DecodeFrom BlockHandle_new filter_handle_value of (filter_handle, _, s) \<Rightarrow>
        if \<not> Status_ok s then Some t
        else case table_ReadBlock ops (t_file t) (opt_paranoid_checks (t_options t)) filter_handle of
          None \<Rightarrow> None
        | Some (s, block) \<Rightarrow>
            if \<not> Status_ok s then Some t
            else Some (t \<lparr> t_filter := Some (FilterBlockReader_new (bc_data block)) \<rparr>))"

definition Table_ReadMeta :: "'f read_ops \<Rightarrow> 'f Table \<Rightarrow> Footer \<Rightarrow> 'f Table option" where
  "Table_ReadMeta ops t footer =
     (case opt_filter_policy (t_options t) of
        None \<Rightarrow> Some t
      | Some p \<Rightarrow>
          (case table_ReadBlock ops (t_file t) (opt_paranoid_checks (t_options t)) (metaindex_handle footer) of
             None \<Rightarrow> None
           | Some (s, contents) \<Rightarrow>
               if \<not> Status_ok s then Some t
               else let key = str ''filter.'' @ fp_Name p
                    in case iter_Seek Bytewise_Compare (Block_NewIterator (bc_data contents)) key of
                         None \<Rightarrow> None
                       | Some iter \<Rightarrow>
                           if iter_Valid iter \<and> Slice_eq (iter_key iter) key
                           then Table_ReadFilter ops t (iter_value iter) else Some t))"

definition Table_Open :: "'f read_ops \<Rightarrow> 'c cache_ops \<Rightarrow> Options \<Rightarrow> 'f \<Rightarrow> nat \<Rightarrow> 'c option \<Rightarrow>
    (status \<times> 'f Table option \<times> 'c option) option" where
  "Table_Open ops cops opt file sz cache =
     (if sz < kEncodedLength then Some (Status_Corruption (str ''file is too short to be an sstable'') [], None, cache)
      else case r_Read ops file (sz - kEncodedLength) kEncodedLength of (s, footer_input) \<Rightarrow>
        if \<not> Status_ok s then Some (s, None, cache)
        else case Footer_DecodeFrom \<lparr> metaindex_handle = BlockHandle_new, index_handle = BlockHandle_new \<rparr> footer_input of
          None \<Rightarrow> None
        | Some (footer, _, s) \<Rightarrow>
            if \<not> Status_ok s then Some (s, None, cache)
            else case table_ReadBlock ops file (opt_paranoid_checks opt) (index_handle footer) of
              None \<Rightarrow> None
            | Some (s, contents) \<Rightarrow>
                if \<not> Status_ok s then Some (s, None, cache)
                else let (cache, cache_id) = (case cache of None \<Rightarrow> (None, 0)
                                              | Some c \<Rightarrow> (case c_NewId cops c of (c, i) \<Rightarrow> (Some c, i)));
                         t = \<lparr> t_options = opt, t_file = file, t_cache_id = cache_id, t_filter = None,
                               t_metaindex_handle = metaindex_handle footer, t_index_block = bc_data contents \<rparr>
                     in case Table_ReadMeta ops t footer of None \<Rightarrow> None | Some t \<Rightarrow> Some (s, Some t, cache))"

definition cache_key :: "uint64 \<Rightarrow> BlockHandle \<Rightarrow> slice" where
  "cache_key cache_id handle = EncodeFixed64 cache_id @ EncodeFixed64 (bh_offset handle)"

text \<open>\<open>Block::size\<close> of the block, the charge of the cache entry.\<close>

definition Block_size :: "slice \<Rightarrow> nat" where
  "Block_size data = fst (Block_make data)"

definition Table_BlockReader :: "'f read_ops \<Rightarrow> 'c cache_ops \<Rightarrow> 'f Table \<Rightarrow> bool \<Rightarrow> bool \<Rightarrow> slice \<Rightarrow> 'c option \<Rightarrow>
    (any_iter \<times> 'c option) option" where
  "Table_BlockReader ops cops t verify_checksums fill_cache index_value cache =
     (case BlockHandle_DecodeFrom BlockHandle_new index_value of (handle, _, s) \<Rightarrow>
        if \<not> Status_ok s then Some (NewErrorIterator s, cache)
        else case cache of
          Some c \<Rightarrow>
            (case c_Lookup cops c (cache_key (t_cache_id t) handle) of
               (c, Some block) \<Rightarrow> Some (Block_NewIterator block, Some c)
             | (c, None) \<Rightarrow>
                 (case table_ReadBlock ops (t_file t) verify_checksums handle of
                    None \<Rightarrow> None
                  | Some (s, contents) \<Rightarrow>
                      if \<not> Status_ok s then Some (NewErrorIterator s, Some c)
                      else let block = bc_data contents;
                               c = (if bc_cachable contents \<and> fill_cache
                                    then c_Insert cops c (cache_key (t_cache_id t) handle) block (Block_size block) else c)
                           in Some (Block_NewIterator block, Some c)))
        | None \<Rightarrow>
            (case table_ReadBlock ops (t_file t) verify_checksums handle of
               None \<Rightarrow> None
             | Some (s, contents) \<Rightarrow>
                 if \<not> Status_ok s then Some (NewErrorIterator s, None)
                 else Some (Block_NewIterator (bc_data contents), None)))"

text \<open>\<open>InternalGet\<close> calls the saver at most once: the result holds the pair it is called with.\<close>

definition Table_InternalGet :: "'f read_ops \<Rightarrow> 'c cache_ops \<Rightarrow> 'f Table \<Rightarrow> bool \<Rightarrow> bool \<Rightarrow> slice \<Rightarrow> 'c option \<Rightarrow>
    (status \<times> (slice \<times> slice) option \<times> 'c option) option" where
  "Table_InternalGet ops cops t verify_checksums fill_cache k cache =
     (case iter_Seek (opt_Compare (t_options t)) (Block_NewIterator (t_index_block t)) k of
        None \<Rightarrow> None
      | Some iiter \<Rightarrow>
          if \<not> iter_Valid iiter then Some (iter_status iiter, None, cache)
          else let handle_value = iter_value iiter;
                   not_found = (case (t_filter t, opt_filter_policy (t_options t)) of
                       (Some flt, Some p) \<Rightarrow>
                         (case BlockHandle_DecodeFrom BlockHandle_new handle_value of (handle, _, s) \<Rightarrow>
                            if Status_ok s
                            then map_option Not (FilterBlockReader_KeyMayMatch (fp_KeyMayMatch p) flt (bh_offset handle) k)
                            else Some False)
                     | _ \<Rightarrow> Some False)
               in case not_found of
                    None \<Rightarrow> None
                  | Some True \<Rightarrow> Some (iter_status iiter, None, cache)
                  | Some False \<Rightarrow>
                      (case Table_BlockReader ops cops t verify_checksums fill_cache handle_value cache of
                         None \<Rightarrow> None
                       | Some (block_iter, cache) \<Rightarrow>
                           (case iter_Seek (opt_Compare (t_options t)) block_iter k of
                              None \<Rightarrow> None
                            | Some block_iter \<Rightarrow>
                                let saved = (if iter_Valid block_iter then Some (iter_key block_iter, iter_value block_iter) else None);
                                    s = iter_status block_iter
                                in Some (if Status_ok s then iter_status iiter else s, saved, cache))))"

definition Table_ApproximateOffsetOf :: "'f Table \<Rightarrow> slice \<Rightarrow> uint64 option" where
  "Table_ApproximateOffsetOf t key =
     (case iter_Seek (opt_Compare (t_options t)) (Block_NewIterator (t_index_block t)) key of
        None \<Rightarrow> None
      | Some index_iter \<Rightarrow>
          if iter_Valid index_iter then
            (case BlockHandle_DecodeFrom BlockHandle_new (iter_value index_iter) of (handle, _, s) \<Rightarrow>
               if Status_ok s then Some (bh_offset handle) else Some (bh_offset (t_metaindex_handle t)))
          else Some (bh_offset (t_metaindex_handle t)))"

end
