(* ===== verification/TableCorrect.thy ===== *)
theory TableCorrect
  imports Table MemEnv
begin

text \<open>
  Tables written and read back: what the bytes of a finished table are (from \<open>TableBuilder\<close>), that
  \<open>Table::Open\<close> reads them, and that \<open>InternalGet\<close> finds an entry over any file, comparator, filter policy,
  compressor and coherent block cache that keep their contracts.
\<close>

subsection \<open>The order a lookup needs\<close>

text \<open>\<open>same k b\<close>: a lookup of \<open>k\<close> must find an entry with the key \<open>b\<close> when it is the first one not below \<open>k\<close>. No
  separator may then come between the two.\<close>

locale lookup_order = shortening_order +
  fixes same :: "'a \<Rightarrow> 'a \<Rightarrow> bool"
  assumes same_separator: "valid s \<Longrightarrow> valid l \<Longrightarrow> valid k \<Longrightarrow> cmp s l < 0 \<Longrightarrow> same k l \<Longrightarrow> cmp s k < 0 \<Longrightarrow> cmp k l \<le> 0 \<Longrightarrow>
    cmp (FindShortestSeparator s l) k < 0"

interpretation bytewise_lookup: lookup_order "\<lambda>_. True" Bytewise_Compare Bytewise_FindShortestSeparator Bytewise_FindShortSuccessor "(=)"
  by unfold_locales (use bytewise.separator_less in blast)

text \<open>For internal keys: the entry with the same user key.\<close>

context user_comparator
begin

lemma internal_lookup_order:
  "lookup_order valid_ikey (InternalKey_Compare cmp) (InternalKey_FindShortestSeparator cmp sep) (InternalKey_FindShortSuccessor cmp succ)
    (\<lambda>a b. ExtractUserKey a = ExtractUserKey b)"
proof
  fix s l k
  assume *: "InternalKey_Compare cmp s l < 0" "ExtractUserKey k = ExtractUserKey l" "InternalKey_Compare cmp s k < 0"
  show "InternalKey_Compare cmp (InternalKey_FindShortestSeparator cmp sep s l) k < 0"
  proof (cases "InternalKey_FindShortestSeparator cmp sep s l = s")
    case False
    with ikey_separator_cases [of s l] have new:
      "InternalKey_FindShortestSeparator cmp sep s l = InternalKey (sep (ExtractUserKey s) (ExtractUserKey l)) kMaxSequenceNumber kValueTypeForSeek"
      "cmp (ExtractUserKey s) (sep (ExtractUserKey s) (ExtractUserKey l)) < 0" by blast+
    then have "cmp (ExtractUserKey s) (ExtractUserKey l) < 0"
      using *(1) separator_same by (auto simp: ikey_less_iff)
    then show ?thesis using separator_less *(2) by (simp add: new ikey_less_iff)
  qed (use * in simp)
qed

end

subsection \<open>Reading a table back\<close>

lemma compressed_block_cases:
  assumes "compressed_block ops ct raw = (c, t)"
  shows "t = kNoCompression \<and> c = raw \<or> t = kSnappyCompression \<and> w_compress ops raw = Some c"
  using assms by (auto simp: compressed_block_def split: CompressionType.splits option.splits if_splits)

text \<open>A block cache is coherent with a table when it holds only what the file holds.\<close>

definition cache_coherent :: "'g read_ops \<Rightarrow> 'c cache_ops \<Rightarrow> 'g Table \<Rightarrow> 'c option \<Rightarrow> bool" where
  "cache_coherent rops cops t cache \<longleftrightarrow> (\<forall>c h c' b v s bc. cache = Some c \<longrightarrow>
     c_Lookup cops c (cache_key (t_cache_id t) h) = (c', Some b) \<longrightarrow>
     table_ReadBlock rops (t_file t) v h = Some (s, bc) \<longrightarrow> Status_ok s \<longrightarrow> b = bc_data bc)"

locale built_table = random_access_file "r_Read rops" bytes readable +
    snappy "w_compress wops" "r_uncompressed_length rops" "r_uncompress rops" +
    lookup_order valid "opt_Compare opt" "opt_FindShortestSeparator opt" "opt_FindShortSuccessor opt" same
  for rops :: "'g read_ops" and bytes :: "'g \<Rightarrow> slice" and readable :: "'g \<Rightarrow> bool" and wops :: "'f write_ops"
    and valid :: "slice \<Rightarrow> bool" and opt :: Options and same :: "slice \<Rightarrow> slice \<Rightarrow> bool" +
  fixes g :: 'g and bl :: "data_block list" and kvs :: "(slice \<times> slice) list"
  assumes interval: "1 \<le> opt_block_restart_interval opt"
    and filter_ok: "opt_filter_policy opt = Some p \<Longrightarrow> filter_policy (fp_CreateFilter p) (fp_KeyMayMatch p)"
    and filter_same: "opt_filter_policy opt = Some p \<Longrightarrow> same k e \<Longrightarrow> fp_KeyMayMatch p k f = fp_KeyMayMatch p e f"
    and entries: "kvs = concat (map fst bl)"
    and blocks: "b \<in> set bl \<Longrightarrow> fst b \<noteq> [] \<and> snd b = compressed_block wops (opt_compression opt) (built_block (opt_block_restart_interval opt) (fst b))"
    and table_bytes: "readable g" "bytes g = table_file_bytes wops opt bl" "length (bytes g) < 2 ^ 32"
    and keys: "sorted_wrt (\<lambda>a b. opt_Compare opt (fst a) (fst b) < 0) kvs" "kv \<in> set kvs \<Longrightarrow> valid (fst kv)"
begin

abbreviation "I \<equiv> opt_block_restart_interval opt"
abbreviation "cmp \<equiv> opt_Compare opt"
abbreviation "ies \<equiv> all_index_entries opt bl"

lemma read_stored:
  assumes "bytes g = pre @ stored_block c t @ post" "compressed_block wops ct raw = (c, t)"
    "h = \<lparr> bh_offset = word_of_nat (length pre), bh_size = word_of_nat (length c) \<rparr>"
  shows "\<exists>ca he. table_ReadBlock rops g v h = Some (Status_OK, \<lparr> bc_data = raw, bc_cachable = ca, bc_heap_allocated = he \<rparr>)"
    "length raw < 2 ^ 32"
proof -
  have l: "length pre + length c + 5 + length post < 2 ^ 32" using table_bytes(3) assms(1) by simp
  then have u: "unat (bh_offset h) = length pre" "unat (bh_size h) = length c" "length c + 5 < 2 ^ 64"
    by (simp_all add: assms(3) unat_word64)
  have "r_Read rops g (length pre) (length c + 5) = (Status_OK, stored_block c t)"
    using ReadAt_law [OF table_bytes(1), of "length pre" "length c + 5"] assms(1) by simp
  then show "\<exists>ca he. table_ReadBlock rops g v h = Some (Status_OK, \<lparr> bc_data = raw, bc_cachable = ca, bc_heap_allocated = he \<rparr>)"
    unfolding table_ReadBlock_def using u compressed_block_cases [OF assms(2)] by (intro ReadBlock_stored) auto
  show "length raw < 2 ^ 32" using compressed_block_cases [OF assms(2)] compress_length [of raw c] l by auto
qed

lemma read_data:
  assumes "i < length bl"
  shows "\<exists>ca he. table_ReadBlock rops g v (handle_of bl i) = Some (Status_OK, \<lparr> bc_data = built_block I (fst (bl ! i)), bc_cachable = ca, bc_heap_allocated = he \<rparr>)"
    "length (built_block I (fst (bl ! i))) < 2 ^ 32"
proof -
  have "concat (map stored bl) = concat (map stored (take i bl)) @ stored (bl ! i) @ concat (map stored (drop (Suc i) bl))"
    using arg_cong [OF id_take_nth_drop [OF assms], of "\<lambda>l. concat (map stored l)"] by simp
  then obtain post where f: "bytes g = concat (map stored (take i bl)) @ stored_block (fst (snd (bl ! i))) (snd (snd (bl ! i))) @ post"
    unfolding table_bytes(2) table_file_bytes_def stored_def by simp
  have c: "compressed_block wops (opt_compression opt) (built_block I (fst (bl ! i))) = (fst (snd (bl ! i)), snd (snd (bl ! i)))"
    using blocks [OF nth_mem [OF assms]] by simp
  have h: "handle_of bl i = \<lparr> bh_offset = word_of_nat (length (concat (map stored (take i bl)))), bh_size = word_of_nat (length (fst (snd (bl ! i)))) \<rparr>"
    by (simp add: handle_of_def block_offset_of_def)
  show "\<exists>ca he. table_ReadBlock rops g v (handle_of bl i) = Some (Status_OK, \<lparr> bc_data = built_block I (fst (bl ! i)), bc_cachable = ca, bc_heap_allocated = he \<rparr>)"
    "length (built_block I (fst (bl ! i))) < 2 ^ 32"
    by (rule read_stored [OF f c h])+
qed

lemma read_index:
  "\<exists>ca he. table_ReadBlock rops g v (index_handle (table_footer wops opt bl)) = Some (Status_OK, \<lparr> bc_data = built_block 1 ies, bc_cachable = ca, bc_heap_allocated = he \<rparr>)"
  "length (built_block 1 ies) < 2 ^ 32"
proof -
  obtain c t where ct: "built_index_block wops opt bl = (c, t)" by fastforce
  have f: "bytes g = (concat (map stored bl) @ filter_part opt bl @ case_prod stored_block (built_meta_block wops opt bl)) @ stored_block c t @
      Footer_EncodeTo (table_footer wops opt bl) []"
    unfolding table_bytes(2) table_file_bytes_def ct by simp
  have h: "index_handle (table_footer wops opt bl) = \<lparr> bh_offset = word_of_nat (length (concat (map stored bl) @ filter_part opt bl @
      case_prod stored_block (built_meta_block wops opt bl))), bh_size = word_of_nat (length c) \<rparr>"
    by (simp add: table_footer_def meta_start_def ct)
  show "\<exists>ca he. table_ReadBlock rops g v (index_handle (table_footer wops opt bl)) = Some (Status_OK, \<lparr> bc_data = built_block 1 ies, bc_cachable = ca, bc_heap_allocated = he \<rparr>)"
    "length (built_block 1 ies) < 2 ^ 32"
    by (rule read_stored [OF f ct [unfolded built_index_block_def] h])+
qed

lemma read_meta:
  "\<exists>ca he. table_ReadBlock rops g v (metaindex_handle (table_footer wops opt bl)) = Some (Status_OK, \<lparr> bc_data = built_block I (meta_entries opt bl), bc_cachable = ca, bc_heap_allocated = he \<rparr>)"
  "length (built_block I (meta_entries opt bl)) < 2 ^ 32"
proof -
  obtain c t where ct: "built_meta_block wops opt bl = (c, t)" by fastforce
  have f: "bytes g = (concat (map stored bl) @ filter_part opt bl) @ stored_block c t @ case_prod stored_block (built_index_block wops opt bl) @
      Footer_EncodeTo (table_footer wops opt bl) []"
    unfolding table_bytes(2) table_file_bytes_def ct by simp
  have h: "metaindex_handle (table_footer wops opt bl) = \<lparr> bh_offset = word_of_nat (length (concat (map stored bl) @ filter_part opt bl)),
      bh_size = word_of_nat (length c) \<rparr>"
    by (simp add: table_footer_def meta_start_def ct)
  show "\<exists>ca he. table_ReadBlock rops g v (metaindex_handle (table_footer wops opt bl)) = Some (Status_OK, \<lparr> bc_data = built_block I (meta_entries opt bl), bc_cachable = ca, bc_heap_allocated = he \<rparr>)"
    "length (built_block I (meta_entries opt bl)) < 2 ^ 32"
    by (rule read_stored [OF f ct [unfolded built_meta_block_def] h])+
qed

lemma read_filter:
  assumes "opt_filter_policy opt = Some p"
  defines "fb \<equiv> filter_block (fp_CreateFilter p) (filter_blocks bl [])"
  shows "\<exists>ca he. table_ReadBlock rops g v (built_filter_handle opt bl) = Some (Status_OK, \<lparr> bc_data = fb, bc_cachable = ca, bc_heap_allocated = he \<rparr>)"
    "length fb < 2 ^ 32"
proof -
  have f: "bytes g = concat (map stored bl) @ stored_block fb kNoCompression @ case_prod stored_block (built_meta_block wops opt bl) @
      case_prod stored_block (built_index_block wops opt bl) @ Footer_EncodeTo (table_footer wops opt bl) []"
    unfolding table_bytes(2) table_file_bytes_def filter_part_def assms by simp
  have h: "built_filter_handle opt bl = \<lparr> bh_offset = word_of_nat (length (concat (map stored bl))), bh_size = word_of_nat (length fb) \<rparr>"
    by (simp add: built_filter_handle_def assms)
  have c: "compressed_block wops kNoCompression fb = (fb, kNoCompression)" by (simp add: compressed_block_def)
  show "\<exists>ca he. table_ReadBlock rops g v (built_filter_handle opt bl) = Some (Status_OK, \<lparr> bc_data = fb, bc_cachable = ca, bc_heap_allocated = he \<rparr>)"
    "length fb < 2 ^ 32"
    by (rule read_stored [OF f c h])+
qed

lemma read_footer:
  "kEncodedLength \<le> length (bytes g)"
  "r_Read rops g (length (bytes g) - kEncodedLength) kEncodedLength = (Status_OK, Footer_EncodeTo (table_footer wops opt bl) [])"
proof -
  have l: "length (Footer_EncodeTo (table_footer wops opt bl) []) = kEncodedLength"
    using Footer_bytes [of "table_footer wops opt bl"] by (auto simp: kEncodedLength_def kMaxEncodedLength_def)
  obtain pre where f: "bytes g = pre @ Footer_EncodeTo (table_footer wops opt bl) []"
    unfolding table_bytes(2) table_file_bytes_def by (metis append.assoc)
  show "kEncodedLength \<le> length (bytes g)"
    "r_Read rops g (length (bytes g) - kEncodedLength) kEncodedLength = (Status_OK, Footer_EncodeTo (table_footer wops opt bl) [])"
    using ReadAt_law [OF table_bytes(1), of "length pre" kEncodedLength] f l by simp_all
qed

end

lemma seek_built:
  assumes "1 \<le> i" "length (built_block i es) < 2 ^ 32" "key_order valid cmp" "valid target" "\<forall>kv\<in>set es. valid (fst kv)"
    "sorted_wrt (\<lambda>a b. cmp (fst a) (fst b) < 0) es"
  shows "\<exists>k it. iter_Seek cmp (Block_NewIterator (built_block i es)) target = Some (Inr it) \<and> k \<le> length es \<and>
    (\<forall>j<k. cmp (fst (es ! j)) target < 0) \<and> (k < length es \<longrightarrow> 0 \<le> cmp (fst (es ! k)) target) \<and>
    BlockIter_Valid it = (k < length es) \<and> bi_status it = Status_OK \<and>
    (k < length es \<longrightarrow> bi_key it = fst (es ! k) \<and> BlockIter_value it = snd (es ! k))"
proof -
  have fb: "finished_block i es" using assms(1,2) by unfold_locales
  note bl = finished_block.layout [OF fb]
  obtain it0 where it0: "Block_NewIterator (built_block i es) = Inr it0"
    "iter_of (built_block i es) (built_offset i es (length es)) (length (built_restarts i es)) it0"
    using finished_block.NewIterator_law [OF fb] by blast
  obtain k it where k: "BlockIter_Seek cmp it0 target = Some it"
      "iter_at (built_block i es) (built_offset i es (length es)) es (map (built_offset i es) [0..<Suc (length es)]) (built_restarts i es) k it"
      "k \<le> length es" "\<forall>j<k. cmp (fst (es ! j)) target < 0" "k < length es \<longrightarrow> 0 \<le> cmp (fst (es ! k)) target"
    using block_layout.Seek_law [OF bl assms(3) it0(2) assms(4-6)] by blast
  then show ?thesis using it0(1) block_layout.standing_Valid [OF bl k(2,3)]
    by (intro exI [of _ k] exI [of _ it]) (auto simp: iter_at_def iter_of_def)
qed

lemma sorted_wrt_concat:
  assumes "sorted_wrt P (concat xss)" "i < length xss"
  shows "sorted_wrt P (xss ! i)" "i < j \<Longrightarrow> j < length xss \<Longrightarrow> x \<in> set (xss ! i) \<Longrightarrow> y \<in> set (xss ! j) \<Longrightarrow> P x y"
  using assms
proof (induction xss arbitrary: i j)
  case (Cons xs xss)
  { case 1 then show ?case using Cons.IH(1) by (cases i) (auto simp: sorted_wrt_append) }
  { case 2 then show ?case using Cons.IH(2) by (cases i; cases j) (auto simp: sorted_wrt_append, metis nth_mem) }
qed simp_all

context built_table
begin

abbreviation "first_key i \<equiv> fst (hd (fst (bl ! i)))"
abbreviation "last_key i \<equiv> fst (last (fst (bl ! i)))"

lemma length_ies [simp]: "length ies = length bl"
  by (cases bl) (simp_all add: all_index_entries_def index_entries_def)

lemma ies_nth:
  assumes "i < length bl"
  shows "ies ! i = (if Suc i = length bl then opt_FindShortSuccessor opt (last_key i)
     else opt_FindShortestSeparator opt (last_key i) (first_key (Suc i)), BlockHandle_EncodeTo (handle_of bl i) [])"
proof -
  obtain n where n: "length bl = Suc n" using assms by (cases "length bl") auto
  have ne: "fst (bl ! j) \<noteq> []" if "j < length bl" for j using blocks [OF nth_mem [OF that]] by simp
  show ?thesis
  proof (cases "i = n")
    case True
    have "concat (map fst bl) = concat (map fst (take n bl)) @ fst (bl ! n)"
      using arg_cong [OF id_take_nth_drop [of n bl], of "\<lambda>l. concat (map fst l)"] n by simp
    then have "last (concat (map fst bl)) = last (fst (bl ! n))" using ne [of n] n by simp
    then show ?thesis using True n by (auto simp: all_index_entries_def index_entries_def nth_append)
  next
    case False
    then have "i < n" using assms n by simp
    moreover have "hd (concat (map fst (drop (Suc i) bl))) = hd (fst (bl ! Suc i))"
      using ne [of "Suc i"] \<open>i < n\<close> n Cons_nth_drop_Suc [of "Suc i" bl, symmetric] by simp
    ultimately show ?thesis using n by (auto simp: all_index_entries_def index_entries_def index_entry_def nth_append)
  qed
qed

lemma block_nonempty: "i < length bl \<Longrightarrow> fst (bl ! i) \<noteq> []"
  using blocks [OF nth_mem] by blast

lemma block_sorted: "i < length bl \<Longrightarrow> sorted_wrt (\<lambda>a b. cmp (fst a) (fst b) < 0) (fst (bl ! i))"
  using sorted_wrt_concat(1) [of _ "map fst bl" i] keys(1) entries by simp

lemma block_less: "i < j \<Longrightarrow> j < length bl \<Longrightarrow> x \<in> set (fst (bl ! i)) \<Longrightarrow> y \<in> set (fst (bl ! j)) \<Longrightarrow> cmp (fst x) (fst y) < 0"
  using sorted_wrt_concat(2) [of _ "map fst bl" i j x y] keys(1) entries by simp

lemma in_kvs: "i < length bl \<Longrightarrow> x \<in> set (fst (bl ! i)) \<Longrightarrow> x \<in> set kvs"
  using entries by auto

lemma block_valid: "i < length bl \<Longrightarrow> x \<in> set (fst (bl ! i)) \<Longrightarrow> valid (fst x)"
  using keys(2) in_kvs by blast

lemma end_keys:
  assumes "i < length bl"
  shows "valid (first_key i)" "valid (last_key i)" "x \<in> set (fst (bl ! i)) \<Longrightarrow> cmp (fst x) (last_key i) \<le> 0"
proof -
  note ne = block_nonempty [OF assms]
  show "valid (first_key i)" "valid (last_key i)" using block_valid [OF assms] ne by simp_all
  assume "x \<in> set (fst (bl ! i))"
  then obtain j where j: "j < length (fst (bl ! i))" "x = fst (bl ! i) ! j" by (auto simp: in_set_conv_nth)
  show "cmp (fst x) (last_key i) \<le> 0"
  proof (cases "Suc j = length (fst (bl ! i))")
    case True
    then have "x = last (fst (bl ! i))" using j ne by (simp add: last_conv_nth flip: True)
    then show ?thesis using cmp_refl \<open>valid (last_key i)\<close> by simp
  next
    case False
    then have "j < length (fst (bl ! i)) - 1" using j by simp
    then show ?thesis
      using sorted_wrt_nth_less [OF block_sorted [OF assms], of j "length (fst (bl ! i)) - 1"] j ne by (simp add: last_conv_nth)
  qed
qed

lemma index_key:
  assumes "i < length bl"
  shows "valid (fst (ies ! i))" "cmp (last_key i) (fst (ies ! i)) \<le> 0" "Suc i < length bl \<Longrightarrow> cmp (fst (ies ! i)) (first_key (Suc i)) < 0"
proof -
  have l: "cmp (last_key i) (first_key (Suc i)) < 0" "valid (first_key (Suc i))" if "Suc i < length bl"
    using block_less [of i "Suc i"] that block_nonempty [OF assms] block_nonempty [OF that] end_keys(1) [OF that] by auto
  show "valid (fst (ies ! i))" "cmp (last_key i) (fst (ies ! i)) \<le> 0" "Suc i < length bl \<Longrightarrow> cmp (fst (ies ! i)) (first_key (Suc i)) < 0"
    using ies_nth [OF assms] end_keys(2) [OF assms] l assms separator_valid separator_ge separator_less successor_valid successor_ge
    by (auto simp: less_Suc_eq)
qed

lemma entry_le_index: "i < length bl \<Longrightarrow> x \<in> set (fst (bl ! i)) \<Longrightarrow> cmp (fst x) (fst (ies ! i)) \<le> 0"
  using cmp_trans [OF block_valid end_keys(2) index_key(1)] end_keys(3) index_key(2) by blast

lemma index_less_entry: "Suc i \<le> j \<Longrightarrow> j < length bl \<Longrightarrow> x \<in> set (fst (bl ! j)) \<Longrightarrow> cmp (fst (ies ! i)) (fst x) < 0"
proof -
  assume a: "Suc i \<le> j" "j < length bl" "x \<in> set (fst (bl ! j))"
  have i: "i < length bl" "Suc i < length bl" using a by simp_all
  have f: "cmp (first_key (Suc i)) (fst x) \<le> 0"
  proof (cases "Suc i = j")
    case True
    obtain n where n: "n < length (fst (bl ! j))" "x = fst (bl ! j) ! n" using a(3) by (auto simp: in_set_conv_nth)
    show ?thesis
    proof (cases n)
      case 0
      then show ?thesis using n True end_keys(1) [OF a(2)] cmp_refl block_nonempty [OF a(2)] by (simp add: hd_conv_nth)
    next
      case (Suc m)
      then show ?thesis using sorted_wrt_nth_less [OF block_sorted [OF a(2)], of 0 n] n True block_nonempty [OF a(2)] by (simp add: hd_conv_nth)
    qed
  next
    case False
    then show ?thesis using block_less [of "Suc i" j _ x] a block_nonempty [OF i(2)] by (metis hd_in_set le_neq_implies_less less_imp_le)
  qed
  show ?thesis
    using cmp_less_le_trans [OF index_key(1) [OF i(1)] end_keys(1) [OF i(2)] block_valid [OF a(2,3)] index_key(3) [OF i] f] .
qed

lemma index_sorted: "sorted_wrt (\<lambda>a b. cmp (fst a) (fst b) < 0) ies"
  unfolding sorted_wrt_iff_nth_less
proof (intro allI impI)
  fix i j assume ij: "i < j" "j < length ies"
  have l: "last (fst (bl ! j)) \<in> set (fst (bl ! j))" using block_nonempty ij by simp
  show "cmp (fst (ies ! i)) (fst (ies ! j)) < 0"
    using cmp_less_le_trans [OF index_key(1) end_keys(2) index_key(1) index_less_entry [OF _ _ l] index_key(2)] ij by simp
qed


text \<open>What \<open>Open\<close> has read.\<close>

definition table_opened :: "'g Table \<Rightarrow> bool" where
  "table_opened t \<longleftrightarrow> t_options t = opt \<and> t_file t = g \<and> t_index_block t = built_block 1 ies \<and>
     t_metaindex_handle t = metaindex_handle (table_footer wops opt bl) \<and>
     t_filter t = map_option (\<lambda>p. FilterBlockReader_new (filter_block (fp_CreateFilter p) (filter_blocks bl []))) (opt_filter_policy opt)"

lemma ReadMeta_law:
  assumes "t_options t = opt" "t_file t = g" "t_filter t = None"
  shows "Table_ReadMeta rops t (table_footer wops opt bl) =
    Some (t \<lparr> t_filter := map_option (\<lambda>p. FilterBlockReader_new (filter_block (fp_CreateFilter p) (filter_blocks bl []))) (opt_filter_policy opt) \<rparr>)"
proof (cases "opt_filter_policy opt")
  case None
  then show ?thesis using assms by (simp add: Table_ReadMeta_def)
next
  case (Some p)
  let ?key = "str ''filter.'' @ fp_Name p"
  have m: "meta_entries opt bl = [(?key, BlockHandle_EncodeTo (built_filter_handle opt bl) [])]" using Some by (simp add: meta_entries_def)
  obtain k it where k: "iter_Seek Bytewise_Compare (Block_NewIterator (built_block I (meta_entries opt bl))) ?key = Some (Inr it)"
    "k \<le> 1" "\<forall>j<k. Bytewise_Compare (fst (meta_entries opt bl ! j)) ?key < 0" "BlockIter_Valid it = (k < 1)"
    "k < 1 \<longrightarrow> bi_key it = fst (meta_entries opt bl ! k) \<and> BlockIter_value it = snd (meta_entries opt bl ! k)"
    using seek_built [OF interval read_meta(2) bytewise.key_order_axioms, of ?key] by (auto simp: m)
  have "k = 0" using k(2,3) bytewise.cmp_refl [of ?key] m by (cases k) auto
  then have it: "BlockIter_Valid it" "bi_key it = ?key" "BlockIter_value it = BlockHandle_EncodeTo (built_filter_handle opt bl) []"
    using k m by simp_all
  obtain ca he where r: "table_ReadBlock rops g (opt_paranoid_checks opt) (metaindex_handle (table_footer wops opt bl)) =
      Some (Status_OK, \<lparr> bc_data = built_block I (meta_entries opt bl), bc_cachable = ca, bc_heap_allocated = he \<rparr>)"
    using read_meta(1) by blast
  obtain ca' he' where r': "table_ReadBlock rops g (opt_paranoid_checks opt) (built_filter_handle opt bl) =
      Some (Status_OK, \<lparr> bc_data = filter_block (fp_CreateFilter p) (filter_blocks bl []), bc_cachable = ca', bc_heap_allocated = he' \<rparr>)"
    using read_filter(1) [OF Some] by blast
  show ?thesis
    using r r' it k(1) Some assms BlockHandle_Decode_Encode [of BlockHandle_new "built_filter_handle opt bl" "[]"]
    by (simp add: Table_ReadMeta_def Table_ReadFilter_def Let_def Status_ok_def Status_OK_def)
qed

lemma Open_law: "\<exists>t cache'. Table_Open rops cops opt g (length (bytes g)) cache = Some (Status_OK, Some t, cache') \<and> table_opened t"
proof -
  obtain ca he where r: "table_ReadBlock rops g (opt_paranoid_checks opt) (index_handle (table_footer wops opt bl)) =
      Some (Status_OK, \<lparr> bc_data = built_block 1 ies, bc_cachable = ca, bc_heap_allocated = he \<rparr>)"
    using read_index(1) by blast
  have f: "Footer_DecodeFrom f0 (Footer_EncodeTo (table_footer wops opt bl) []) = Some (table_footer wops opt bl, [], Status_OK)" for f0
    using Footer_Decode_Encode [of f0 "table_footer wops opt bl" "[]"] by simp
  obtain cache' id where c: "(case cache of None \<Rightarrow> (None, 0) | Some c \<Rightarrow> (case c_NewId cops c of (c, i) \<Rightarrow> (Some c, i))) = (cache', id)"
    by fastforce
  define t where "t = \<lparr> t_options = opt, t_file = g, t_cache_id = id, t_filter = None,
      t_metaindex_handle = metaindex_handle (table_footer wops opt bl), t_index_block = built_block 1 ies \<rparr>"
  have "Table_Open rops cops opt g (length (bytes g)) cache = (case Table_ReadMeta rops t (table_footer wops opt bl) of
      None \<Rightarrow> None | Some t \<Rightarrow> Some (Status_OK, Some t, cache'))"
    using read_footer r f c by (simp add: Table_Open_def Status_ok_def Status_OK_def t_def split: option.splits)
  then show ?thesis using ReadMeta_law [of t] by (simp add: t_def table_opened_def)
qed

lemma coherent_block:
  assumes "cache_coherent rops cops t cache" "table_opened t" "i < length bl" "cache = Some c"
    "c_Lookup cops c (cache_key (t_cache_id t) (handle_of bl i)) = (c', Some b)"
  shows "b = built_block I (fst (bl ! i))"
proof -
  obtain ca he where "table_ReadBlock rops g True (handle_of bl i) =
      Some (Status_OK, \<lparr> bc_data = built_block I (fst (bl ! i)), bc_cachable = ca, bc_heap_allocated = he \<rparr>)"
    using read_data(1) [OF assms(3)] by blast
  then show ?thesis using assms by (fastforce simp: cache_coherent_def table_opened_def Status_ok_def Status_OK_def)
qed

lemma BlockReader_law:
  assumes "table_opened t" "cache_coherent rops cops t cache" "i < length bl"
  shows "\<exists>cache'. Table_BlockReader rops cops t v fill (BlockHandle_EncodeTo (handle_of bl i) []) cache =
    Some (Block_NewIterator (built_block I (fst (bl ! i))), cache')"
proof -
  obtain ca he where r: "table_ReadBlock rops g v (handle_of bl i) =
      Some (Status_OK, \<lparr> bc_data = built_block I (fst (bl ! i)), bc_cachable = ca, bc_heap_allocated = he \<rparr>)"
    using read_data(1) [OF assms(3)] by blast
  have d: "BlockHandle_DecodeFrom h0 (BlockHandle_EncodeTo (handle_of bl i) []) = (handle_of bl i, [], Status_OK)" for h0
    using BlockHandle_Decode_Encode [of h0 "handle_of bl i" "[]"] by simp
  show ?thesis
  proof (cases cache)
    case None
    then show ?thesis using r d assms(1) by (simp add: Table_BlockReader_def table_opened_def Status_ok_def Status_OK_def)
  next
    case (Some c)
    obtain c' b where l: "c_Lookup cops c (cache_key (t_cache_id t) (handle_of bl i)) = (c', b)" by fastforce
    show ?thesis
    proof (cases b)
      case None
      then show ?thesis using Some l r d assms(1) by (simp add: Let_def Table_BlockReader_def table_opened_def Status_ok_def Status_OK_def)
    next
      case (Some b')
      then have "b' = built_block I (fst (bl ! i))" using coherent_block [OF assms(2,1,3) \<open>cache = Some c\<close>] l by simp
      then show ?thesis using Some \<open>cache = Some c\<close> l d by (simp add: Table_BlockReader_def Status_ok_def Status_OK_def)
    qed
  qed
qed


lemma filter_offsets_sorted: "sorted (map fst (filter_blocks bl []))"
proof -
  have mono: "block_offset_of bl i \<le> block_offset_of bl j" if "i \<le> j" for i j
  proof -
    have "take j bl = take i bl @ take (j - i) (drop i bl)" using that take_add [of i "j - i" bl] by simp
    then show ?thesis by (simp add: block_offset_of_def)
  qed
  have lt: "block_offset_of bl i < 2 ^ 64" for i
  proof -
    have "block_offset_of bl i \<le> length (concat (map stored bl))"
      unfolding block_offset_of_def take_map [symmetric] by (rule length_concat_take_le)
    also have "\<dots> < 2 ^ 64" using table_bytes(2,3) by (simp add: table_file_bytes_def)
    finally show ?thesis .
  qed
  have "map fst (filter_blocks bl []) = map (\<lambda>i. word_of_nat (block_offset_of bl i)) [0..<Suc (length bl)]"
    by (simp add: filter_blocks_def)
  moreover have "(word_of_nat (block_offset_of bl i) :: uint64) \<le> word_of_nat (block_offset_of bl j)" if "i \<le> j" for i j
    using mono [OF that] lt by (simp add: word_le_nat_alt unat_word64)
  ultimately show ?thesis by (auto simp: sorted_iff_nth_mono simp del: upt_Suc)
qed

lemma filter_law:
  assumes "opt_filter_policy opt = Some p" "i < length bl"
  shows "\<exists>f. (\<forall>k. FilterBlockReader_KeyMayMatch (fp_KeyMayMatch p) (FilterBlockReader_new (filter_block (fp_CreateFilter p) (filter_blocks bl [])))
      (bh_offset (handle_of bl i)) k = Some (fp_KeyMayMatch p k f)) \<and> (\<forall>kv\<in>set (fst (bl ! i)). fp_KeyMayMatch p (fst kv) f)"
proof -
  have "(bh_offset (handle_of bl i), map fst (fst (bl ! i))) \<in> set (filter_blocks bl [])"
    using assms(2) by (auto simp: filter_blocks_def handle_of_def)
  from filter_block_lookup [OF filter_ok [OF assms(1)] filter_offsets_sorted read_filter(2) [OF assms(1)] this]
  show ?thesis using block_nonempty [OF assms(2)] by auto
qed

lemma in_blocks: "x \<in> set kvs \<Longrightarrow> \<exists>i<length bl. x \<in> set (fst (bl ! i))"
proof -
  assume "x \<in> set kvs"
  then obtain b where "b \<in> set bl" "x \<in> set (fst b)" using entries by auto
  then show ?thesis by (metis in_set_conv_nth)
qed

lemma early_less: "i < length bl \<Longrightarrow> valid k \<Longrightarrow> cmp (fst (ies ! i)) k < 0 \<Longrightarrow> x \<in> set (fst (bl ! i)) \<Longrightarrow> cmp (fst x) k < 0"
  by (rule cmp_le_less_trans [OF block_valid index_key(1) _ entry_le_index])

lemma find_blocks:
  assumes "n < length bl" "\<And>i x. i < n \<Longrightarrow> x \<in> set (fst (bl ! i)) \<Longrightarrow> \<not> P x"
  shows "find P kvs = (case find P (fst (bl ! n)) of Some x \<Rightarrow> Some x | None \<Rightarrow> find P (concat (map fst (drop (Suc n) bl))))"
proof -
  have app: "find P (xs @ ys) = (case find P xs of Some x \<Rightarrow> Some x | None \<Rightarrow> find P ys)" for xs ys :: "(slice \<times> slice) list"
    by (induction xs) auto
  have "\<not> P x" if b: "b \<in> set (take n bl)" "x \<in> set (fst b)" for b x
  proof -
    obtain i where "i < length (take n bl)" "b = take n bl ! i" using b(1) by (auto simp only: in_set_conv_nth)
    then show ?thesis using assms(2) [of i x] b(2) by simp
  qed
  then have "find P (concat (map fst (take n bl))) = None" by (auto simp: find_None_iff)
  moreover have "kvs = concat (map fst (take n bl)) @ fst (bl ! n) @ concat (map fst (drop (Suc n) bl))"
    using arg_cong [OF id_take_nth_drop [OF assms(1)], of "\<lambda>l. concat (map fst l)"] entries by simp
  ultimately show ?thesis by (simp add: app)
qed

lemma find_at:
  assumes "m < length es" "\<forall>j<m. \<not> P (es ! j)" "P (es ! m)"
  shows "find P es = Some (es ! m)"
  using assms by (auto simp: find_Some_iff)

text \<open>An entry the lookup must find is in the block the index leads to.\<close>

lemma lookup_in_block:
  assumes "valid k" "n < length bl" "\<And>i. i < n \<Longrightarrow> cmp (fst (ies ! i)) k < 0" "0 \<le> cmp (fst (ies ! n)) k"
    "find (\<lambda>kv. 0 \<le> cmp (fst kv) k) kvs = Some kv" "same k (fst kv)"
  shows "find (\<lambda>kv. 0 \<le> cmp (fst kv) k) (fst (bl ! n)) = Some kv"
proof (cases "find (\<lambda>kv. 0 \<le> cmp (fst kv) k) (fst (bl ! n))")
  case None
  have early: "\<not> 0 \<le> cmp (fst x) k" if "i < n" "x \<in> set (fst (bl ! i))" for i x
    using early_less [OF _ assms(1) assms(3) [OF that(1)] that(2)] that(1) assms(2) by simp
  have rest: "find (\<lambda>kv. 0 \<le> cmp (fst kv) k) (concat (map fst (drop (Suc n) bl))) = Some kv"
    using find_blocks [OF assms(2) early] None assms(5) by simp
  then have S: "Suc n < length bl" by (cases "Suc n < length bl") auto
  let ?e = "hd (fst (bl ! Suc n))"
  have ne: "fst (bl ! Suc n) \<noteq> []" "fst (bl ! n) \<noteq> []" using block_nonempty S assms(2) by simp_all
  have "cmp k (fst (ies ! n)) \<le> 0" using assms(1,4) index_key(1) [OF assms(2)] by (simp add: cmp_flip_le)
  then have ke: "cmp k (first_key (Suc n)) < 0"
    using cmp_le_less_trans [OF assms(1) index_key(1) [OF assms(2)] end_keys(1) [OF S]] index_key(3) [OF assms(2) S] by blast
  then have "0 \<le> cmp (fst ?e) k" using cmp_flip [OF assms(1) end_keys(1) [OF S]] by simp
  moreover have "concat (map fst (drop (Suc n) bl)) = ?e # (tl (fst (bl ! Suc n)) @ concat (map fst (drop (Suc (Suc n)) bl)))"
    using Cons_nth_drop_Suc [OF S, symmetric] ne by (simp add: hd_Cons_tl)
  ultimately have "kv = ?e" using rest by simp
  moreover have "cmp (last_key n) k < 0" using None last_in_set [OF ne(2)] unfolding find_None_iff by (meson not_le)
  moreover have "cmp (last_key n) (first_key (Suc n)) < 0" using block_less [of n "Suc n"] S ne by simp
  ultimately have "cmp (opt_FindShortestSeparator opt (last_key n) (first_key (Suc n))) k < 0"
    using same_separator [OF end_keys(2) [OF assms(2)] end_keys(1) [OF S] assms(1)] assms(6) ke by simp
  then show ?thesis using ies_nth [OF assms(2)] S assms(4) by simp
next
  case (Some x)
  have early: "\<not> 0 \<le> cmp (fst x) k" if "i < n" "x \<in> set (fst (bl ! i))" for i x
    using early_less [OF _ assms(1) assms(3) [OF that(1)] that(2)] that(1) assms(2) by simp
  show ?thesis using find_blocks [OF assms(2) early] Some assms(5) by simp
qed


text \<open>\<open>InternalGet\<close> hands out only the first entry that is not below the key, and hands it out when it is the
  one looked for.\<close>

lemma InternalGet_law:
  assumes "table_opened t" "cache_coherent rops cops t cache" "valid k"
  shows "\<exists>res cache'. Table_InternalGet rops cops t v fill k cache = Some (Status_OK, res, cache') \<and>
    (\<forall>kv. res = Some kv \<longrightarrow> find (\<lambda>kv. 0 \<le> cmp (fst kv) k) kvs = Some kv) \<and>
    (\<forall>kv. find (\<lambda>kv. 0 \<le> cmp (fst kv) k) kvs = Some kv \<and> same k (fst kv) \<longrightarrow> res = Some kv)"
proof -
  let ?P = "\<lambda>kv. 0 \<le> cmp (fst kv) k"
  have t: "t_options t = opt" "t_index_block t = built_block 1 ies" using assms(1) by (simp_all add: table_opened_def)
  have "\<forall>kv\<in>set ies. valid (fst kv)" using index_key(1) by (metis in_set_conv_nth length_ies)
  then obtain n it where it: "iter_Seek cmp (Block_NewIterator (built_block 1 ies)) k = Some (Inr it)" "n \<le> length ies"
    "\<forall>j<n. cmp (fst (ies ! j)) k < 0" "n < length ies \<longrightarrow> 0 \<le> cmp (fst (ies ! n)) k" "BlockIter_Valid it = (n < length ies)"
    "bi_status it = Status_OK" "n < length ies \<longrightarrow> BlockIter_value it = snd (ies ! n)"
    using seek_built [OF _ read_index(2) key_order_axioms assms(3) _ index_sorted] by auto
  show ?thesis
  proof (cases "n < length bl")
    case False
    then have "n = length bl" using it(2) by simp
    then have "cmp (fst x) k < 0" if "x \<in> set kvs" for x
      using in_blocks [OF that] early_less [OF _ assms(3), of _ x] it(3) by blast
    then have "find ?P kvs = None" unfolding find_None_iff by (meson not_le)
    then show ?thesis using it False t by (simp add: Table_InternalGet_def)
  next
    case True
    have val: "BlockIter_value it = BlockHandle_EncodeTo (handle_of bl n) []" using it(7) True ies_nth [OF True] by simp
    have dec: "BlockHandle_DecodeFrom h0 (BlockHandle_EncodeTo (handle_of bl n) []) = (handle_of bl n, [], Status_OK)" for h0
      using BlockHandle_Decode_Encode [of h0 "handle_of bl n" "[]"] by simp
    have inb: "find ?P (fst (bl ! n)) = Some kv" if "find ?P kvs = Some kv" "same k (fst kv)" for kv
      using lookup_in_block [OF assms(3) True _ _ that] it(3,4) True by simp
    have early: "\<not> ?P x" if "i < n" "x \<in> set (fst (bl ! i))" for i x
      using early_less [OF _ assms(3) _ that(2)] it(3) that(1) True by (simp add: not_le)
    obtain cache' where br: "Table_BlockReader rops cops t v fill (BlockHandle_EncodeTo (handle_of bl n) []) cache =
        Some (Block_NewIterator (built_block I (fst (bl ! n))), cache')"
      using BlockReader_law [OF assms(1,2) True] by blast
    obtain m bit where b: "iter_Seek cmp (Block_NewIterator (built_block I (fst (bl ! n)))) k = Some (Inr bit)" "m \<le> length (fst (bl ! n))"
      "\<forall>j<m. cmp (fst (fst (bl ! n) ! j)) k < 0" "m < length (fst (bl ! n)) \<longrightarrow> 0 \<le> cmp (fst (fst (bl ! n) ! m)) k"
      "BlockIter_Valid bit = (m < length (fst (bl ! n)))" "bi_status bit = Status_OK"
      "m < length (fst (bl ! n)) \<longrightarrow> bi_key bit = fst (fst (bl ! n) ! m) \<and> BlockIter_value bit = snd (fst (bl ! n) ! m)"
      using seek_built [OF interval read_data(2) [OF True] key_order_axioms assms(3) _ block_sorted [OF True]] block_valid [OF True] by blast
    let ?saved = "if m < length (fst (bl ! n)) then Some (fst (bl ! n) ! m) else None"
    have found: "find ?P (fst (bl ! n)) = ?saved"
      using b(2-4) find_at [of m "fst (bl ! n)" ?P] by (auto simp: find_None_iff not_le in_set_conv_nth)
    have get: "(case Table_BlockReader rops cops t v fill (BlockHandle_EncodeTo (handle_of bl n) []) cache of
        None \<Rightarrow> None
      | Some (block_iter, cache) \<Rightarrow>
          (case iter_Seek cmp block_iter k of
             None \<Rightarrow> None
           | Some block_iter \<Rightarrow>
               let saved = (if iter_Valid block_iter then Some (iter_key block_iter, iter_value block_iter) else None);
                   s = iter_status block_iter
               in Some (if Status_ok s then iter_status (Inr it) else s, saved, cache))) = Some (Status_OK, ?saved, cache')"
      using br b it(6) by (auto simp: Let_def Status_ok_def Status_OK_def)
    have ok: "(\<forall>kv. ?saved = Some kv \<longrightarrow> find ?P kvs = Some kv) \<and> (\<forall>kv. find ?P kvs = Some kv \<and> same k (fst kv) \<longrightarrow> ?saved = Some kv)"
      using find_blocks [OF True early] found inb by auto
    define nf where "nf = (case (t_filter t, opt_filter_policy opt) of
        (Some flt, Some p) \<Rightarrow> (case BlockHandle_DecodeFrom BlockHandle_new (BlockHandle_EncodeTo (handle_of bl n) []) of (handle, _, s) \<Rightarrow>
           if Status_ok s then map_option Not (FilterBlockReader_KeyMayMatch (fp_KeyMayMatch p) flt (bh_offset handle) k) else Some False)
      | _ \<Rightarrow> Some False)"
    have unfold: "Table_InternalGet rops cops t v fill k cache =
        (case nf of None \<Rightarrow> None | Some True \<Rightarrow> Some (Status_OK, None, cache) | Some False \<Rightarrow> Some (Status_OK, ?saved, cache'))"
    proof -
      have hv: "iter_value (Inr it) = BlockHandle_EncodeTo (handle_of bl n) []" "iter_Valid (Inr it)" using val it(5) True by simp_all
      have st: "iter_status (Inr it) = Status_OK" using it(6) by simp
      show ?thesis
        by (simp only: Table_InternalGet_def t it(1) option.case hv not_True_eq_False if_False Let_def nf_def [symmetric]
            st get [unfolded Let_def st])
    qed
    show ?thesis
    proof (cases "opt_filter_policy opt")
      case None
      then have "nf = Some False" by (simp add: nf_def split: option.split)
      then have "Table_InternalGet rops cops t v fill k cache = Some (Status_OK, ?saved, cache')" using unfold by simp
      then show ?thesis using ok by blast
    next
      case (Some p)
      obtain f where f: "\<forall>k. FilterBlockReader_KeyMayMatch (fp_KeyMayMatch p) (FilterBlockReader_new (filter_block (fp_CreateFilter p) (filter_blocks bl [])))
          (bh_offset (handle_of bl n)) k = Some (fp_KeyMayMatch p k f)" "\<forall>kv\<in>set (fst (bl ! n)). fp_KeyMayMatch p (fst kv) f"
        using filter_law [OF Some True] by blast
      have nf: "nf = Some (\<not> fp_KeyMayMatch p k f)"
        using f(1) dec Some assms(1) by (simp add: nf_def table_opened_def Status_ok_def Status_OK_def)
      have none: "\<not> (find ?P kvs = Some kv \<and> same k (fst kv))" if "\<not> fp_KeyMayMatch p k f" for kv
        using inb [of kv] f(2) filter_same [OF Some, of k "fst kv" f] that by (metis find_Some_iff nth_mem)
      show ?thesis
      proof (cases "fp_KeyMayMatch p k f")
        case True
        then have "Table_InternalGet rops cops t v fill k cache = Some (Status_OK, ?saved, cache')" using unfold nf by simp
        then show ?thesis using ok by blast
      next
        case False
        then have "Table_InternalGet rops cops t v fill k cache = Some (Status_OK, None, cache)" using unfold nf by simp
        then show ?thesis using none [OF False] by blast
      qed
    qed
  qed
qed

end


text \<open>Building and reading together: the interface of the files and of the compressor, the orders of keys and
  the filter are arguments under their contracts.\<close>

definition filter_fits :: "(slice \<Rightarrow> slice \<Rightarrow> bool) \<Rightarrow> FilterPolicy option \<Rightarrow> bool" where
  "filter_fits same policy \<longleftrightarrow> (\<forall>p. policy = Some p \<longrightarrow> filter_policy (fp_CreateFilter p) (fp_KeyMayMatch p) \<and>
     (\<forall>k e f. same k e \<longrightarrow> fp_KeyMayMatch p k f = fp_KeyMayMatch p e f))"

definition build_table :: "'f write_ops \<Rightarrow> Options \<Rightarrow> 'f \<Rightarrow> (slice \<times> slice) list \<Rightarrow> 'f TableBuilder \<times> status" where
  "build_table wops opt f kvs = TableBuilder_Finish wops (fold (\<lambda>(k, v) r. TableBuilder_Add wops r k v) kvs (TableBuilder_new opt f))"

lemma build_table_law:
  assumes "writable_file (w_Append wops) (w_Flush wops) contents writable" "writable f" "contents f = []"
    "1 \<le> opt_block_restart_interval opt" "build_table wops opt f kvs = (r, s)"
  shows "s = Status_OK \<and> writable (tb_file r) \<and> tb_num_entries r = length kvs \<and> tb_offset r = word_of_nat (length (contents (tb_file r))) \<and>
    (\<exists>bl. contents (tb_file r) = table_file_bytes wops opt bl \<and> kvs = concat (map fst bl) \<and>
      (\<forall>b\<in>set bl. fst b \<noteq> [] \<and> snd b = compressed_block wops (opt_compression opt) (built_block (opt_block_restart_interval opt) (fst b))))"
proof -
  have tf: "table_file wops contents writable" using assms(1) by (simp add: table_file_def)
  obtain bl cur where "tb_inv wops contents writable opt kvs bl cur (fold (\<lambda>(k, v) r. TableBuilder_Add wops r k v) kvs (TableBuilder_new opt f))"
    using table_file.tb_add_all [OF tf assms(4) table_file.tb_new [OF tf assms(2,3)], of kvs] by auto
  from table_file.tb_finish [OF tf this assms(4)] show ?thesis using assms(5) unfolding build_table_def by auto
qed



subsection \<open>Tables on memory files\<close>

definition mem_wops :: "FileState write_ops" where
  "mem_wops = \<lparr> w_Append = WritableFileImpl_Append zero_memory, w_Flush = WritableFileImpl_Flush, w_compress = Snappy_Compress \<rparr>"

definition mem_rops :: "FileState read_ops" where
  "mem_rops = \<lparr> r_Read = (\<lambda>fs off n. RandomAccessFileImpl_Read fs off n []), r_direct = (\<lambda>_ _ _. False),
     r_uncompressed_length = Snappy_GetUncompressedLength, r_uncompress = Snappy_Uncompress \<rparr>"

definition default_options :: Options where
  "default_options = \<lparr> opt_comparator = 0, opt_Compare = Bytewise_Compare, opt_FindShortestSeparator = Bytewise_FindShortestSeparator,
     opt_FindShortSuccessor = Bytewise_FindShortSuccessor, opt_paranoid_checks = False, opt_block_size = 4096,
     opt_block_restart_interval = 16, opt_compression = kSnappyCompression, opt_filter_policy = None \<rparr>"

interpretation mem_table: table_file mem_wops file_contents file_wf
  unfolding table_file_def mem_wops_def by (simp, rule zero_mem.mem_file.writable_file_axioms)

interpretation empty_metaindex: finished_block "Suc n" "[]" for n
  by unfold_locales (simp_all add: built_block_bytes built_restarts_def)

text \<open>A table with one entry: its bytes and a bound on their number.\<close>

lemma no_compression: "compressed_block mem_wops t raw = (raw, kNoCompression)"
  by (cases t) (simp_all add: compressed_block_def mem_wops_def Snappy_Compress_def)

lemma one_entry_build:
  assumes "file_wf f" "file_contents f = []" "build_table mem_wops default_options f [(k, v)] = (r, s)"
  shows "s = Status_OK" "file_wf (tb_file r)"
    "file_contents (tb_file r) = table_file_bytes mem_wops default_options [([(k, v)], built_block 16 [(k, v)], kNoCompression)]"
proof -
  obtain bl where b: "s = Status_OK" "file_wf (tb_file r)" "file_contents (tb_file r) = table_file_bytes mem_wops default_options bl"
      "[(k, v)] = concat (map fst bl)" "\<forall>b\<in>set bl. fst b \<noteq> [] \<and> snd b = (built_block 16 (fst b), kNoCompression)"
    using build_table_law [OF mem_table.writable_file_axioms assms(1,2) _ assms(3)] no_compression by (auto simp: default_options_def)
  have "bl = [([(k, v)], built_block 16 [(k, v)], kNoCompression)]"
  proof (cases bl)
    case (Cons x xs)
    have "fst x \<noteq> []" using b(5) Cons by simp
    then have x: "fst x = [(k, v)]" "concat (map fst xs) = []" using b(4) Cons by (auto simp: Cons_eq_append_conv)
    moreover have "xs = []" using x(2) b(5) Cons by (cases xs) auto
    ultimately show ?thesis using Cons b(5) by (cases x) auto
  qed (use b(4) in simp)
  then show "s = Status_OK" "file_wf (tb_file r)"
    "file_contents (tb_file r) = table_file_bytes mem_wops default_options [([(k, v)], built_block 16 [(k, v)], kNoCompression)]"
    using b(1-3) by simp_all
qed

lemma one_entry_bytes:
  "0 < length (table_file_bytes mem_wops default_options [([(k, v)], built_block 16 [(k, v)], kNoCompression)])"
  "length (table_file_bytes mem_wops default_options [([(k, v)], built_block 16 [(k, v)], kNoCompression)]) \<le> 200 + 2 * length k + length v"
proof -
  have f: "length (Footer_EncodeTo f []) = 48" for f using Footer_bytes by blast
  have h: "length (BlockHandle_EncodeTo h []) \<le> 20" for h by (rule length_BlockHandle_EncodeTo)
  have vl: "length (EncodeVarint32 v) \<le> 5" for v by (rule length_EncodeVarint32)
  have e: "length (entry_bytes (s, k, v)) \<le> 15 + length k + length v" for s k v
    using vl [of "word_of_nat s"] vl [of "word_of_nat (length k - s)"] vl [of "word_of_nat (length v)"] by (simp add: entry_bytes_def)
  have one: "length (built_block (Suc n) [(k, v)]) \<le> 23 + length k + length v" for n k v
    using e [of 0 k v] by (simp add: built_block_bytes built_restarts_def built_entry_def built_shared_def)
  have none: "length (built_block (Suc n) []) = 8" for n by (simp add: built_block_bytes built_restarts_def)
  show "0 < length (table_file_bytes mem_wops default_options [([(k, v)], built_block 16 [(k, v)], kNoCompression)])"
    "length (table_file_bytes mem_wops default_options [([(k, v)], built_block 16 [(k, v)], kNoCompression)]) \<le> 200 + 2 * length k + length v"
    unfolding table_file_bytes_def built_index_block_def built_meta_block_def no_compression
    using f one [of 15 k v] none [of 15] one [of 0 "Bytewise_FindShortSuccessor k" "BlockHandle_EncodeTo (handle_of [([(k, v)], built_block 16 [(k, v)], kNoCompression)] 0) []"]
      h [of "handle_of [([(k, v)], built_block 16 [(k, v)], kNoCompression)] 0"] successor_shorter [of k]
    by (simp_all add: default_options_def filter_part_def meta_entries_def all_index_entries_def index_entries_def stored_def)
qed

definition one_entry_table :: "FileState TableBuilder" where
  "one_entry_table = fst (build_table mem_wops default_options FileState_new [([1], [7])])"

lemma one_entry_table_law:
  "build_table mem_wops default_options FileState_new [([1], [7])] = (one_entry_table, Status_OK)"
  "file_wf (tb_file one_entry_table)"
  "file_contents (tb_file one_entry_table) = table_file_bytes mem_wops default_options [([([1], [7])], built_block 16 [([1], [7])], kNoCompression)]"
proof -
  have new: "file_wf FileState_new" "file_contents FileState_new = []"
    by (simp_all add: FileState_new_def file_wf_def file_contents_def)
  obtain r s where r: "build_table mem_wops default_options FileState_new [([1], [7])] = (r, s)" by fastforce
  then have "one_entry_table = r" by (simp add: one_entry_table_def)
  then show "build_table mem_wops default_options FileState_new [([1], [7])] = (one_entry_table, Status_OK)"
    "file_wf (tb_file one_entry_table)"
    "file_contents (tb_file one_entry_table) = table_file_bytes mem_wops default_options [([([1], [7])], built_block 16 [([1], [7])], kNoCompression)]"
    using one_entry_build [OF new r] r by simp_all
qed

lemma one_entry_table_size: "length (file_contents (tb_file one_entry_table)) < 2 ^ 32"
  unfolding one_entry_table_law(3) using one_entry_bytes(2) [of "[1]" "[7]"] by simp

interpretation one_entry: built_table mem_rops file_contents file_wf mem_wops "\<lambda>_. True" default_options "(=)" "tb_file one_entry_table"
  "[([([1], [7])], built_block 16 [([1], [7])], kNoCompression)]" "[([1], [7])]"
proof -
  note nc = no_compression
  have "random_access_file (r_Read mem_rops) file_contents file_wf"
    unfolding mem_rops_def by (simp, rule mem_random.random_access_file_axioms)
  moreover have "snappy (w_compress mem_wops) (r_uncompressed_length mem_rops) (r_uncompress mem_rops)"
    unfolding mem_rops_def mem_wops_def by (simp, rule no_snappy.snappy_axioms)
  ultimately show "built_table mem_rops file_contents file_wf mem_wops (\<lambda>_. True) default_options (=) (tb_file one_entry_table)
      [([([1], [7])], built_block 16 [([1], [7])], kNoCompression)] [([1], [7])]"
    unfolding built_table_def built_table_axioms_def
    using bytewise_lookup.lookup_order_axioms one_entry_table_law one_entry_table_size nc
    by (simp add: default_options_def)
qed

definition no_cache_ops :: "unit cache_ops" where
  "no_cache_ops = \<lparr> c_NewId = (\<lambda>c. (c, 1)), c_Lookup = (\<lambda>c k. (c, None)), c_Insert = (\<lambda>c k b n. c) \<rparr>"


end
