(* ===== verification/TableIter.thy ===== *)
theory TableIter
  imports TableCorrect TwoLevel IterCursors
begin

text \<open>
  \<open>Table::NewIterator\<close> of \<open>table/table.cc\<close>: the two-level iterator over the index block of a table and \<open>BlockReader\<close>.
  It is an iterator over all the entries that were added to the builder, whatever the block cache does, as long as the
  cache returns nothing but what was inserted under the key.
\<close>

subsection \<open>Operations\<close>

fun iter_Next :: "any_iter \<Rightarrow> any_iter option" where
  "iter_Next (Inl s) = None"
| "iter_Next (Inr it) = map_option Inr (BlockIter_Next it)"

fun iter_Prev :: "any_iter \<Rightarrow> any_iter option" where
  "iter_Prev (Inl s) = None"
| "iter_Prev (Inr it) = map_option Inr (BlockIter_Prev it)"

definition any_ops :: "(slice \<Rightarrow> slice \<Rightarrow> int) \<Rightarrow> any_iter iter_ops" where
  "any_ops cmp =
     \<lparr> io_Valid = iter_Valid, io_key = iter_key, io_value = iter_value, io_status = iter_status, io_Next = iter_Next, io_Prev = iter_Prev,
       io_Seek = (\<lambda>k it. iter_Seek cmp it k), io_SeekToFirst = iter_SeekToFirst, io_SeekToLast = iter_SeekToLast \<rparr>"

type_synonym 'c table_iter = "(any_iter, any_iter, 'c option) TwoLevelIterator"

definition Table_NewIterator :: "'f Table \<Rightarrow> 'c option \<Rightarrow> 'c table_iter option" where
  "Table_NewIterator t cache =
     NewTwoLevelIterator (any_ops (opt_Compare (t_options t))) (Block_NewIterator (t_index_block t)) cache"

definition table_iter_ops :: "'f read_ops \<Rightarrow> 'c cache_ops \<Rightarrow> 'f Table \<Rightarrow> bool \<Rightarrow> bool \<Rightarrow> 'c table_iter iter_ops" where
  "table_iter_ops rops cops t verify_checksums fill_cache =
     two_level_ops (any_ops (opt_Compare (t_options t))) (any_ops (opt_Compare (t_options t))) (Table_BlockReader rops cops t verify_checksums fill_cache)"

subsection \<open>Iterators over a block or nothing\<close>

definition any_at :: "(slice \<Rightarrow> bool) \<Rightarrow> (slice \<Rightarrow> slice \<Rightarrow> int) \<Rightarrow> any_iter \<Rightarrow> entries \<Rightarrow> nat \<Rightarrow> bool" where
  "any_at valid cmp it es j \<longleftrightarrow> (\<exists>i. it = Inr i \<and> block_at valid cmp i es j)"

lemma any_cursor:
  assumes "key_order valid cmp"
  shows "cursor valid cmp (any_ops cmp) (any_at valid cmp)"
proof (intro cursor.intro cursor_axioms.intro assms)
  fix it es j assume "any_at valid cmp it es j"
  then obtain i where i: "it = Inr i" and b: "block_at valid cmp i es j" by (auto simp: any_at_def)
  note c = block_cursor [OF assms]
  note d = any_ops_def any_at_def i
  show "sorted_entries valid cmp es" "j \<le> length es" using cursor.at_sorted [OF c b] cursor.at_le [OF c b] .
  show "io_Valid (any_ops cmp) it = (j < length es)" "io_status (any_ops cmp) it = Status_OK"
    using cursor.at_valid [OF c b] cursor.at_status [OF c b] by (simp_all add: d block_ops_def)
  show "\<exists>i'. io_SeekToFirst (any_ops cmp) it = Some i' \<and> any_at valid cmp i' es 0"
    using cursor.at_first [OF c b] by (auto simp: d block_ops_def)
  show "\<exists>i'. io_SeekToLast (any_ops cmp) it = Some i' \<and> any_at valid cmp i' es (step_back (length es) (length es))"
    using cursor.at_last [OF c b] by (auto simp: d block_ops_def)
  show "\<exists>i'. io_Seek (any_ops cmp) k it = Some i' \<and> any_at valid cmp i' es (cut_pos (\<lambda>a. cmp a k < 0) es)" if "valid k" for k
    using cursor.at_seek [OF c b that] by (auto simp: d block_ops_def)
  assume j: "j < length es"
  show "io_key (any_ops cmp) it = fst (es ! j)" "io_value (any_ops cmp) it = snd (es ! j)"
    using cursor.at_key [OF c b j] cursor.at_value [OF c b j] by (simp_all add: d block_ops_def)
  show "\<exists>i'. io_Next (any_ops cmp) it = Some i' \<and> any_at valid cmp i' es (Suc j)"
    using cursor.at_next [OF c b j] by (auto simp: d block_ops_def)
  show "\<exists>i'. io_Prev (any_ops cmp) it = Some i' \<and> any_at valid cmp i' es (step_back (length es) j)"
    using cursor.at_prev [OF c b j] by (auto simp: d block_ops_def)
qed

subsection \<open>The block cache\<close>

text \<open>What a lookup finds was there before the last operation, or is what that operation inserted.\<close>

locale block_cache =
  fixes cops :: "'c cache_ops"
  assumes after_lookup: "c_Lookup cops c k = (c', r) \<Longrightarrow> c_Lookup cops c' k' = (d, Some b) \<Longrightarrow> \<exists>d'. c_Lookup cops c k' = (d', Some b)"
    and after_insert: "c_Lookup cops (c_Insert cops c k b n) k' = (d, Some b') \<Longrightarrow> k' = k \<and> b' = b \<or> (\<exists>d'. c_Lookup cops c k' = (d', Some b'))"

interpretation no_cache: block_cache no_cache_ops
  by unfold_locales (simp_all add: no_cache_ops_def)

subsection \<open>The blocks of a table\<close>

definition block_named :: "data_block list \<Rightarrow> slice \<Rightarrow> entries" where
  "block_named bl h = (case find (\<lambda>i. BlockHandle_EncodeTo (handle_of bl i) [] = h) [0..<length bl] of None \<Rightarrow> [] | Some i \<Rightarrow> fst (bl ! i))"

definition cache_agrees :: "'c cache_ops \<Rightarrow> 'f Table \<Rightarrow> nat \<Rightarrow> data_block list \<Rightarrow> 'c option \<Rightarrow> bool" where
  "cache_agrees cops t interval bl cache \<longleftrightarrow> (\<forall>c c' b. \<forall>i<length bl. cache = Some c \<longrightarrow>
     c_Lookup cops c (cache_key (t_cache_id t) (handle_of bl i)) = (c', Some b) \<longrightarrow> b = built_block interval (fst (bl ! i)))"

context built_table
begin

lemma block_offsets:
  assumes "i < j" "j < length bl"
  shows "block_offset_of bl i < block_offset_of bl j" "block_offset_of bl j < 2 ^ 32"
proof -
  have "take j bl = take i bl @ bl ! i # drop (Suc i) (take j bl)"
    using id_take_nth_drop [of i "take j bl"] assms by simp
  from arg_cong [OF this, of "\<lambda>l. length (concat (map stored l))"]
  have "length (concat (map stored (take j bl))) = length (concat (map stored (take i bl))) + length (stored (bl ! i)) +
      length (concat (map stored (drop (Suc i) (take j bl))))"
    by (simp only: map_append list.map concat_append concat.simps length_append)
  then show "block_offset_of bl i < block_offset_of bl j" by (simp add: block_offset_of_def stored_def)
  have "concat (map stored bl) = concat (map stored (take j bl)) @ concat (map stored (drop j bl))"
    by (metis append_take_drop_id concat_append map_append)
  then show "block_offset_of bl j < 2 ^ 32"
    using table_bytes(2,3) by (simp add: block_offset_of_def table_file_bytes_def)
qed

lemma handle_inj:
  assumes "i < length bl" "j < length bl" "bh_offset (handle_of bl i) = bh_offset (handle_of bl j)"
  shows "i = j"
proof (rule ccontr)
  assume "i \<noteq> j"
  then have "block_offset_of bl i \<noteq> block_offset_of bl j" "block_offset_of bl i < 2 ^ 32" "block_offset_of bl j < 2 ^ 32"
    using block_offsets [of i j] block_offsets [of j i] assms(1,2) by (cases "i < j"; force)+
  then show False using arg_cong [OF assms(3), of unat] by (simp add: handle_of_def unat_word64)
qed

lemma block_named_handle:
  assumes "i < length bl"
  shows "block_named bl (BlockHandle_EncodeTo (handle_of bl i) []) = fst (bl ! i)"
proof -
  have inj: "j = i" if "j < length bl" "BlockHandle_EncodeTo (handle_of bl j) [] = BlockHandle_EncodeTo (handle_of bl i) []" for j
    using BlockHandle_Decode_Encode [of BlockHandle_new "handle_of bl j" "[]"] BlockHandle_Decode_Encode [of BlockHandle_new "handle_of bl i" "[]"]
      that handle_inj assms by simp
  have "find (\<lambda>j. BlockHandle_EncodeTo (handle_of bl j) [] = BlockHandle_EncodeTo (handle_of bl i) []) [0..<length bl] = Some i"
    unfolding find_Some_iff using assms inj by (intro exI [of _ i]) (auto dest: less_trans)
  then show ?thesis by (simp add: block_named_def)
qed

lemma flat_blocks: "flat (block_named bl) ies = kvs"
proof -
  have "map (block_named bl \<circ> snd) ies = map fst bl"
    using ies_nth block_named_handle by (intro nth_equalityI) simp_all
  then show ?thesis using entries by (simp add: flat_def)
qed

lemma cache_key_inj: "i < length bl \<Longrightarrow> j < length bl \<Longrightarrow> cache_key n (handle_of bl i) = cache_key n (handle_of bl j) \<Longrightarrow> i = j"
  using handle_inj DecodeFixed64_Encode [of _ "[]"] by (metis append_Nil2 append_eq_append_conv cache_key_def)

lemma BlockReader_keeps:
  assumes "block_cache cops" "table_opened t" "cache_agrees cops t I bl cache" "i < length bl"
  shows "\<exists>cache'. Table_BlockReader rops cops t v fill (BlockHandle_EncodeTo (handle_of bl i) []) cache =
    Some (Block_NewIterator (built_block I (fst (bl ! i))), cache') \<and> cache_agrees cops t I bl cache'"
proof -
  let ?b = "built_block I (fst (bl ! i))" and ?k = "cache_key (t_cache_id t) (handle_of bl i)"
  obtain ca he where r: "table_ReadBlock rops g v (handle_of bl i) =
      Some (Status_OK, \<lparr> bc_data = ?b, bc_cachable = ca, bc_heap_allocated = he \<rparr>)"
    using read_data(1) [OF assms(4)] by blast
  have d: "BlockHandle_DecodeFrom h0 (BlockHandle_EncodeTo (handle_of bl i) []) = (handle_of bl i, [], Status_OK)" for h0
    using BlockHandle_Decode_Encode [of h0 "handle_of bl i" "[]"] by simp
  note defs = Table_BlockReader_def Status_ok_def Status_OK_def Let_def
  show ?thesis
  proof (cases cache)
    case None
    then show ?thesis using r d assms(2) by (simp add: defs table_opened_def cache_agrees_def)
  next
    case (Some c)
    obtain c' b where l: "c_Lookup cops c ?k = (c', b)" by fastforce
    have keep: "cache_agrees cops t I bl (Some c')"
      using block_cache.after_lookup [OF assms(1) l] assms(3) Some unfolding cache_agrees_def by blast
    have ins: "cache_agrees cops t I bl (Some (c_Insert cops c' ?k ?b n))" for n
      unfolding cache_agrees_def
    proof (intro allI impI)
      fix x d b' j assume j: "j < length bl" "Some (c_Insert cops c' ?k ?b n) = Some x" "c_Lookup cops x (cache_key (t_cache_id t) (handle_of bl j)) = (d, Some b')"
      then consider "cache_key (t_cache_id t) (handle_of bl j) = ?k" "b' = ?b" | d' where "c_Lookup cops c' (cache_key (t_cache_id t) (handle_of bl j)) = (d', Some b')"
        using block_cache.after_insert [OF assms(1)] by blast
      then show "b' = built_block I (fst (bl ! j))"
        using keep j(1) cache_key_inj [OF j(1) assms(4)] unfolding cache_agrees_def by cases blast+
    qed
    show ?thesis
    proof (cases b)
      case None
      then show ?thesis using Some l r d assms(2) keep ins by (simp add: defs table_opened_def)
    next
      case (Some b')
      then have "b' = ?b" using assms(3,4) \<open>cache = Some c\<close> l unfolding cache_agrees_def by blast
      then show ?thesis using Some \<open>cache = Some c\<close> l d keep by (simp add: defs)
    qed
  qed
qed

lemma coherent_agrees: "cache_coherent rops cops t cache \<Longrightarrow> table_opened t \<Longrightarrow> cache_agrees cops t I bl cache"
  unfolding cache_agrees_def by (intro allI impI) (rule coherent_block)

lemma table_two_level:
  assumes "block_cache cops" "table_opened t"
  shows "two_level valid cmp (any_ops cmp) (any_at valid cmp) (any_ops cmp) (any_at valid cmp) (Table_BlockReader rops cops t v fill)
    (block_named bl) (cache_agrees cops t I bl) ies"
proof (intro two_level.intro two_level_axioms.intro any_cursor key_order_axioms)
  fix a c assume a: "a < length ies" and c: "cache_agrees cops t I bl c"
  have i: "a < length bl" "snd (ies ! a) = BlockHandle_EncodeTo (handle_of bl a) []" using a ies_nth by simp_all
  have s: "sorted_entries valid cmp (fst (bl ! a))" using block_sorted [OF i(1)] block_valid [OF i(1)] by (simp add: sorted_entries_def)
  obtain it where "Block_NewIterator (built_block I (fst (bl ! a))) = Inr it" "block_at valid cmp it (fst (bl ! a)) (length (fst (bl ! a)))"
    using built_block_at [OF interval read_data(2) [OF i(1)] key_order_axioms s] by blast
  then show "\<exists>d c' p. Table_BlockReader rops cops t v fill (snd (ies ! a)) c = Some (d, c') \<and> cache_agrees cops t I bl c' \<and>
      any_at valid cmp d (block_named bl (snd (ies ! a))) p"
    using BlockReader_keeps [OF assms c i(1), of v fill] block_named_handle [OF i(1)] i(2) by (auto simp: any_at_def)
next
  show "index_fits cmp (block_named bl) ies"
    using entry_le_index index_less_entry block_named_handle ies_nth by (auto simp: index_fits_def Suc_le_eq)
qed

lemma NewIterator_at:
  assumes "block_cache cops" "table_opened t" "cache_coherent rops cops t cache"
  shows "\<exists>it. Table_NewIterator t cache = Some it \<and>
    two_level_at (any_at valid cmp) (any_at valid cmp) (block_named bl) (cache_agrees cops t I bl) ies it kvs (length kvs)"
proof -
  have s: "sorted_entries valid cmp ies" using index_sorted index_key(1) unfolding sorted_entries_def by (metis in_set_conv_nth length_ies)
  obtain i where i: "Block_NewIterator (built_block 1 ies) = Inr i" "block_at valid cmp i ies (length ies)"
    using built_block_at [OF _ read_index(2) key_order_axioms s] by auto
  have "any_at valid cmp (Inr i) ies (length ies)" using i(2) by (simp add: any_at_def)
  from two_level.new_two_level [OF table_two_level [OF assms(1,2)] this coherent_agrees [OF assms(3,2)]]
  show ?thesis using i(1) assms(2) flat_blocks by (simp add: Table_NewIterator_def table_opened_def)
qed

end

subsection \<open>Property\<close>

text \<open>C11. A table is iterated in full: an iterator over a table that the builder wrote is an iterator over the list of
  entries added to the builder. It keeps the iterator contract in every state, so that it stands where the same seeks
  and moves stand in the list; a forward scan gives the list, a backward scan its reverse, a scan after \<open>Seek\<close> the
  entries from the target on, and every loop over the index ends. It holds for every block size, compression and filter
  policy, and with any block cache that returns only what was inserted.\<close>

theorem table_iterator_is_cursor:
  assumes "writable_file (w_Append wops) (w_Flush wops) contents writable" "writable f" "contents f = []"
    "1 \<le> opt_block_restart_interval opt" "build_table wops opt f kvs = (r, s)"
    "lookup_order valid (opt_Compare opt) (opt_FindShortestSeparator opt) (opt_FindShortSuccessor opt) same"
    "sorted_wrt (\<lambda>a b. opt_Compare opt (fst a) (fst b) < 0) kvs" "\<forall>kv\<in>set kvs. valid (fst kv)"
    "filter_fits same (opt_filter_policy opt)"
    "snappy (w_compress wops) (r_uncompressed_length rops) (r_uncompress rops)"
    "random_access_file (r_Read rops) bytes readable" "readable g" "bytes g = contents (tb_file r)" "length (bytes g) < 2 ^ 32"
    "block_cache cops" "valid k"
  shows "\<exists>t cache'. Table_Open rops cops opt g (length (bytes g)) cache = Some (Status_OK, Some t, cache') \<and>
    (\<forall>c. cache_coherent rops cops t c \<longrightarrow> (\<exists>it. Table_NewIterator t c = Some it \<and>
      (let ops = table_iter_ops rops cops t verify fill in
       (\<exists>at. cursor valid (opt_Compare opt) ops at \<and> at it kvs (length kvs)) \<and>
       Option.bind (io_SeekToFirst ops it) (iter_scan ops (io_Next ops)) = Some kvs \<and>
       Option.bind (io_SeekToLast ops it) (iter_scan ops (io_Prev ops)) = Some (rev kvs) \<and>
       Option.bind (io_Seek ops k it) (iter_scan ops (io_Next ops)) = Some (dropWhile (\<lambda>e. opt_Compare opt (fst e) k < 0) kvs))))"
proof -
  obtain bl where b: "contents (tb_file r) = table_file_bytes wops opt bl" "kvs = concat (map fst bl)"
    "\<forall>b\<in>set bl. fst b \<noteq> [] \<and> snd b = compressed_block wops (opt_compression opt) (built_block (opt_block_restart_interval opt) (fst b))"
    using build_table_law [OF assms(1-5)] by blast
  have bt: "built_table rops bytes readable wops valid opt same g bl kvs"
    unfolding built_table_def built_table_axioms_def
    using assms(4,6-14) b by (simp add: filter_fits_def) fastforce
  obtain t cache' where t: "Table_Open rops cops opt g (length (bytes g)) cache = Some (Status_OK, Some t, cache')"
      "built_table.table_opened wops opt g bl t"
    using built_table.Open_law [OF bt] by blast
  note tl = built_table.table_two_level [OF bt assms(15) t(2), of verify fill]
  have o: "t_options t = opt" using t(2) built_table.table_opened_def [OF bt] by simp
  note c = two_level.two_level_cursor [OF tl, folded table_iter_ops_def [of rops cops t verify fill, unfolded o]]
  have "\<exists>it. Table_NewIterator t x = Some it \<and> (let ops = table_iter_ops rops cops t verify fill in
       (\<exists>at. cursor valid (opt_Compare opt) ops at \<and> at it kvs (length kvs)) \<and>
       Option.bind (io_SeekToFirst ops it) (iter_scan ops (io_Next ops)) = Some kvs \<and>
       Option.bind (io_SeekToLast ops it) (iter_scan ops (io_Prev ops)) = Some (rev kvs) \<and>
       Option.bind (io_Seek ops k it) (iter_scan ops (io_Next ops)) = Some (dropWhile (\<lambda>e. opt_Compare opt (fst e) k < 0) kvs))"
    if coh: "cache_coherent rops cops t x" for x
  proof -
    obtain it where it: "Table_NewIterator t x = Some it" "two_level_at (any_at valid (opt_Compare opt)) (any_at valid (opt_Compare opt)) (block_named bl)
        (cache_agrees cops t (opt_block_restart_interval opt) bl) (all_index_entries opt bl) it kvs (length kvs)"
      using built_table.NewIterator_at [OF bt assms(15) t(2) coh] by blast
    show ?thesis unfolding Let_def using it(1) c it(2) cursor.scans [OF c it(2) assms(16)] by blast
  qed
  then show ?thesis using t(1) by blast
qed

text \<open>The table with one entry, opened from memory.\<close>

definition one_entry_opened :: "FileState Table" where
  "one_entry_opened =
     (case Table_Open mem_rops no_cache_ops default_options (tb_file one_entry_table) (length (file_contents (tb_file one_entry_table))) None of
        Some (_, Some t, _) \<Rightarrow> t)"

lemma one_entry_opened_law: "one_entry.table_opened one_entry_opened"
  using one_entry.Open_law [of no_cache_ops None] by (auto simp: one_entry_opened_def)

interpretation one_entry_iter: two_level "\<lambda>_. True" "opt_Compare default_options" "any_ops (opt_Compare default_options)"
    "any_at (\<lambda>_. True) (opt_Compare default_options)" "any_ops (opt_Compare default_options)" "any_at (\<lambda>_. True) (opt_Compare default_options)"
    "Table_BlockReader mem_rops no_cache_ops one_entry_opened True True" "block_named [([([1], [7])], built_block 16 [([1], [7])], kNoCompression)]"
    "cache_agrees no_cache_ops one_entry_opened (opt_block_restart_interval default_options) [([([1], [7])], built_block 16 [([1], [7])], kNoCompression)]"
    "all_index_entries default_options [([([1], [7])], built_block 16 [([1], [7])], kNoCompression)]"
  by (rule one_entry.table_two_level [OF no_cache.block_cache_axioms one_entry_opened_law])

theorem table_iterator_is_cursor_witness:
  "\<exists>t cache' it. Table_Open mem_rops no_cache_ops default_options (tb_file one_entry_table)
      (length (file_contents (tb_file one_entry_table))) (Some ()) = Some (Status_OK, Some t, cache') \<and> Table_NewIterator t (Some ()) = Some it \<and>
    Option.bind (io_SeekToFirst (table_iter_ops mem_rops no_cache_ops t True True) it)
      (iter_scan (table_iter_ops mem_rops no_cache_ops t True True) (io_Next (table_iter_ops mem_rops no_cache_ops t True True))) = Some [([1], [7])]"
proof -
  have new: "file_wf FileState_new" "file_contents FileState_new = []"
    by (simp_all add: FileState_new_def file_wf_def file_contents_def)
  have o: "lookup_order (\<lambda>_. True) (opt_Compare default_options) (opt_FindShortestSeparator default_options)
      (opt_FindShortSuccessor default_options) (=)"
    unfolding default_options_def by (simp, rule bytewise_lookup.lookup_order_axioms)
  have ff: "filter_fits (=) (opt_filter_policy default_options)" by (simp add: filter_fits_def default_options_def)
  have so: "sorted_wrt (\<lambda>a b. opt_Compare default_options (fst a) (fst b) < 0) [([1], [7])]" by simp
  have coh: "cache_coherent mem_rops no_cache_ops t c" for t c by (simp add: cache_coherent_def no_cache_ops_def)
  have i: "1 \<le> opt_block_restart_interval default_options" by (simp add: default_options_def)
  have val: "\<forall>kv\<in>set [([1], [7])]. True" by simp
  show ?thesis
    using table_iterator_is_cursor [OF mem_table.writable_file_axioms new i one_entry_table_law(1) o so val ff one_entry.snappy_axioms
        one_entry.random_access_file_axioms one_entry_table_law(2) refl one_entry_table_size no_cache.block_cache_axioms TrueI,
        of "Some ()" True True] coh unfolding Let_def by blast
qed

end
