(* ===== verification/Compaction.thy ===== *)
theory Compaction
  imports VersionBuilder TableIter
begin

text \<open>
  The compaction of \<open>db/db_impl.cc\<close>: which entries are dropped, and the loop that writes the others to tables. The
  operations on files, the opening of a finished table by the table cache, the loads of \<open>shutting_down_\<close> and what
  the memtable compactions in between do to the file numbers are arguments. A file is a value; the files that have
  been closed are kept in \<open>cs_files\<close>. Time stamps, statistics and the messages to the info log are left out.
\<close>

subsection \<open>Dropping entries\<close>

record DropState =
  ds_current_user_key :: slice
  ds_has_current_user_key :: bool
  ds_last_sequence_for_key :: uint64

definition DropState_new :: DropState where
  "DropState_new = \<lparr> ds_current_user_key = [], ds_has_current_user_key = False, ds_last_sequence_for_key = kMaxSequenceNumber \<rparr>"

definition compaction_drop :: "(slice \<Rightarrow> slice \<Rightarrow> int) \<Rightarrow> uint64 \<Rightarrow> slice \<Rightarrow> DropState \<Rightarrow> Compaction \<Rightarrow> (DropState \<times> Compaction \<times> bool) option" where
  "compaction_drop ucmp smallest_snapshot key d c =
     (case ParseInternalKey key of
        None \<Rightarrow> Some (DropState_new, c, False)
      | Some ikey \<Rightarrow>
          let d = (if \<not> ds_has_current_user_key d \<or> ucmp (user_key ikey) (ds_current_user_key d) \<noteq> 0
                   then \<lparr> ds_current_user_key = user_key ikey, ds_has_current_user_key = True, ds_last_sequence_for_key = kMaxSequenceNumber \<rparr>
                   else d)
          in case (if ds_last_sequence_for_key d \<le> smallest_snapshot then Some (c, True)
                   else if value_type ikey = kTypeDeletion \<and> sequence ikey \<le> smallest_snapshot then IsBaseLevelForKey ucmp (user_key ikey) c
                   else Some (c, False)) of
               None \<Rightarrow> None
             | Some (c, drop_it) \<Rightarrow> Some (d \<lparr> ds_last_sequence_for_key := sequence ikey \<rparr>, c, drop_it))"

subsection \<open>Output files\<close>

record Output =
  out_number :: uint64
  out_file_size :: uint64
  out_smallest :: slice
  out_largest :: slice

record 'f CompactionState =
  cs_compaction :: Compaction
  cs_smallest_snapshot :: uint64
  cs_outputs :: "Output list"
  cs_builder :: "'f TableBuilder option"
  cs_total_bytes :: uint64
  cs_files :: "(uint64 \<times> 'f) list"
  cs_next_file :: uint64
  cs_pending_outputs :: "uint64 set"

definition CompactionState_new :: "Compaction \<Rightarrow> uint64 \<Rightarrow> uint64 set \<Rightarrow> 'f CompactionState" where
  "CompactionState_new c next_file pending =
     \<lparr> cs_compaction = c, cs_smallest_snapshot = 0, cs_outputs = [], cs_builder = None, cs_total_bytes = 0, cs_files = [],
       cs_next_file = next_file, cs_pending_outputs = pending \<rparr>"

text \<open>\<open>oo_verify number size file\<close> is the status of the iterator that \<open>TableCache::NewIterator\<close> gives for the file.\<close>

record 'f output_ops =
  oo_write :: "'f write_ops"
  oo_NewWritableFile :: "uint64 \<Rightarrow> 'f option \<times> status"
  oo_Sync :: "'f \<Rightarrow> 'f \<times> status"
  oo_Close :: "'f \<Rightarrow> 'f \<times> status"
  oo_verify :: "uint64 \<Rightarrow> uint64 \<Rightarrow> 'f \<Rightarrow> status"

definition OpenCompactionOutputFile :: "'f output_ops \<Rightarrow> Options \<Rightarrow> 'f CompactionState \<Rightarrow> 'f CompactionState \<times> status" where
  "OpenCompactionOutputFile ops opt cs =
     (let (next_file, file_number) = NewFileNumber (cs_next_file cs);
          cs = cs \<lparr> cs_next_file := next_file, cs_pending_outputs := insert file_number (cs_pending_outputs cs),
                    cs_outputs := cs_outputs cs @ [\<lparr> out_number = file_number, out_file_size = 0, out_smallest = [], out_largest = [] \<rparr>] \<rparr>
      in case oo_NewWritableFile ops file_number of
           (Some f, s) \<Rightarrow> (if Status_ok s then cs \<lparr> cs_builder := Some (TableBuilder_new opt f) \<rparr> else cs, s)
         | (None, s) \<Rightarrow> (cs, s))"

definition update_current_output :: "(Output \<Rightarrow> Output) \<Rightarrow> 'f CompactionState \<Rightarrow> 'f CompactionState" where
  "update_current_output f cs = cs \<lparr> cs_outputs := butlast (cs_outputs cs) @ [f (last (cs_outputs cs))] \<rparr>"

text \<open>\<open>None\<close> where the code would use a null builder.\<close>

definition FinishCompactionOutputFile :: "'f output_ops \<Rightarrow> status \<Rightarrow> 'f CompactionState \<Rightarrow> ('f CompactionState \<times> status) option" where
  "FinishCompactionOutputFile ops input_status cs =
     (case cs_builder cs of
        None \<Rightarrow> None
      | Some builder \<Rightarrow>
          let output_number = out_number (last (cs_outputs cs));
              current_entries = TableBuilder_NumEntries builder;
              (builder, s) = (if Status_ok input_status then TableBuilder_Finish (oo_write ops) builder else (TableBuilder_Abandon builder, input_status));
              current_bytes = TableBuilder_FileSize builder;
              cs = (update_current_output (\<lambda>out. out \<lparr> out_file_size := current_bytes \<rparr>) cs)
                     \<lparr> cs_total_bytes := cs_total_bytes cs + current_bytes, cs_builder := None \<rparr>;
              (f, s) = (if Status_ok s then oo_Sync ops (tb_file builder) else (tb_file builder, s));
              (f, s) = (if Status_ok s then oo_Close ops f else (f, s));
              cs = cs \<lparr> cs_files := cs_files cs @ [(output_number, f)] \<rparr>;
              s = (if Status_ok s \<and> 0 < current_entries then oo_verify ops output_number current_bytes f else s)
          in Some (cs, s))"

subsection \<open>The compaction loop\<close>

text \<open>One round of the loop, from the key of the iterator to the test of the output's size.\<close>

definition compact_entry :: "'f output_ops \<Rightarrow> Options \<Rightarrow> (slice \<Rightarrow> slice \<Rightarrow> int) \<Rightarrow> status \<Rightarrow> slice \<Rightarrow> slice \<Rightarrow> 'f CompactionState \<times> DropState \<Rightarrow>
    (('f CompactionState \<times> DropState) \<times> status) option" where
  "compact_entry ops opt ucmp input_status key val = (\<lambda>(cs, d).
     let (c, stop) = ShouldStopBefore (InternalKey_Compare ucmp) key (cs_compaction cs);
         cs = cs \<lparr> cs_compaction := c \<rparr>
     in case (if stop \<and> cs_builder cs \<noteq> None then FinishCompactionOutputFile ops input_status cs else Some (cs, Status_OK)) of
          None \<Rightarrow> None
        | Some (cs, s) \<Rightarrow>
            if \<not> Status_ok s then Some ((cs, d), s)
            else case compaction_drop ucmp (cs_smallest_snapshot cs) key d (cs_compaction cs) of
                   None \<Rightarrow> None
                 | Some (d, c, drop_it) \<Rightarrow>
                     let cs = cs \<lparr> cs_compaction := c \<rparr>
                     in if drop_it then Some ((cs, d), s)
                        else let (cs, s) = (if cs_builder cs = None then OpenCompactionOutputFile ops opt cs else (cs, s))
                             in if \<not> Status_ok s then Some ((cs, d), s)
                                else case cs_builder cs of
                                       None \<Rightarrow> None
                                     | Some builder \<Rightarrow>
                                         let cs = (if TableBuilder_NumEntries builder = 0 then update_current_output (\<lambda>out. out \<lparr> out_smallest := key \<rparr>) cs else cs);
                                             cs = update_current_output (\<lambda>out. out \<lparr> out_largest := key \<rparr>) cs;
                                             builder = TableBuilder_Add (oo_write ops) builder key val;
                                             cs = cs \<lparr> cs_builder := Some builder \<rparr>
                                         in if c_max_output_file_size (cs_compaction cs) \<le> TableBuilder_FileSize builder
                                            then map_option (\<lambda>(cs, s). ((cs, d), s)) (FinishCompactionOutputFile ops input_status cs)
                                            else Some ((cs, d), s))"

text \<open>\<open>shut n\<close> is what the \<open>n\<close>-th test of the loop reads in \<open>shutting_down_\<close>, \<open>imm n\<close> what a memtable compaction in that round
  does to the counter of file numbers. The result has the number of the last test.\<close>

partial_function (option) compact_loop :: "'i iter_ops \<Rightarrow> 'f output_ops \<Rightarrow> Options \<Rightarrow> (slice \<Rightarrow> slice \<Rightarrow> int) \<Rightarrow> (nat \<Rightarrow> bool) \<Rightarrow> (nat \<Rightarrow> uint64 \<Rightarrow> uint64) \<Rightarrow>
    nat \<Rightarrow> 'i \<Rightarrow> 'f CompactionState \<Rightarrow> DropState \<Rightarrow> (nat \<times> 'i \<times> 'f CompactionState \<times> status) option" where
  "compact_loop iops ops opt ucmp shut imm n it cs d =
     (if io_Valid iops it \<and> \<not> shut n then
        (case compact_entry ops opt ucmp (io_status iops it) (io_key iops it) (io_value iops it) (cs \<lparr> cs_next_file := imm n (cs_next_file cs) \<rparr>, d) of
           None \<Rightarrow> None
         | Some ((cs, d), s) \<Rightarrow>
             if \<not> Status_ok s then Some (n, it, cs, s)
             else (case io_Next iops it of
                     None \<Rightarrow> None
                   | Some it \<Rightarrow> compact_loop iops ops opt ucmp shut imm (n + 1) it cs d))
      else Some (n, it, cs, Status_OK))"

text \<open>\<open>snapshots\<close> are the sequence numbers of the live snapshots, oldest first.\<close>

definition oldest_snapshot :: "uint64 list \<Rightarrow> uint64 \<Rightarrow> uint64" where
  "oldest_snapshot snapshots last_seq = (case snapshots of [] \<Rightarrow> last_seq | n # _ \<Rightarrow> n)"

definition DoCompactionWork :: "'i iter_ops \<Rightarrow> 'f output_ops \<Rightarrow> Options \<Rightarrow> (slice \<Rightarrow> slice \<Rightarrow> int) \<Rightarrow> (nat \<Rightarrow> bool) \<Rightarrow> (nat \<Rightarrow> uint64 \<Rightarrow> uint64) \<Rightarrow>
    uint64 list \<Rightarrow> uint64 \<Rightarrow> 'i \<Rightarrow> 'f CompactionState \<Rightarrow> ('f CompactionState \<times> status) option" where
  "DoCompactionWork iops ops opt ucmp shut imm snapshots last_seq input cs =
     (case io_SeekToFirst iops input of
        None \<Rightarrow> None
      | Some it \<Rightarrow>
          (case compact_loop iops ops opt ucmp shut imm 0 it (cs \<lparr> cs_smallest_snapshot := oldest_snapshot snapshots last_seq \<rparr>) DropState_new of
             None \<Rightarrow> None
           | Some (n, it, cs, s) \<Rightarrow>
               let s = (if Status_ok s \<and> shut (n + 1) then Status_IOError (str ''Deleting DB during compaction'') [] else s)
               in case (if Status_ok s \<and> cs_builder cs \<noteq> None then FinishCompactionOutputFile ops (io_status iops it) cs else Some (cs, s)) of
                    None \<Rightarrow> None
                  | Some (cs, s) \<Rightarrow> Some (cs, if Status_ok s then io_status iops it else s)))"

text \<open>The edit that installs the results, and the end of a compaction.\<close>

definition InstallCompactionResults_edit :: "'f CompactionState \<Rightarrow> VersionEdit" where
  "InstallCompactionResults_edit cs =
     (let c = cs_compaction cs
      in fold (\<lambda>out edit. AddFile edit (c_level c + 1) (out_number out) (out_file_size out) (out_smallest out) (out_largest out)) (cs_outputs cs)
           (AddInputDeletions c (c_edit c)))"

definition CleanupCompaction :: "'f CompactionState \<Rightarrow> uint64 set" where
  "CleanupCompaction cs = fold (\<lambda>out pending. pending - {out_number out}) (cs_outputs cs) (cs_pending_outputs cs)"


subsection \<open>What is dropped\<close>

definition entry_seq :: "slice \<times> slice \<Rightarrow> uint64" where
  "entry_seq e = drop_bit 8 (internal_tag (fst e))"

text \<open>\<open>base u\<close> says that no level below the output level can have entries of \<open>u\<close>.\<close>

definition dropped :: "(slice \<Rightarrow> slice \<Rightarrow> int) \<Rightarrow> uint64 \<Rightarrow> (slice \<Rightarrow> bool) \<Rightarrow> entries \<Rightarrow> nat \<Rightarrow> bool" where
  "dropped ucmp snap base es i \<longleftrightarrow>
     (\<exists>j<i. ucmp (entry_user_key (es ! j)) (entry_user_key (es ! i)) = 0 \<and> entry_seq (es ! j) \<le> snap) \<or>
     \<not> entry_is_value (es ! i) \<and> entry_seq (es ! i) \<le> snap \<and> base (entry_user_key (es ! i))"

definition kept :: "(slice \<Rightarrow> slice \<Rightarrow> int) \<Rightarrow> uint64 \<Rightarrow> (slice \<Rightarrow> bool) \<Rightarrow> entries \<Rightarrow> entries" where
  "kept ucmp snap base es = map ((!) es) (filter (\<lambda>i. \<not> dropped ucmp snap base es i) [0..<length es])"

definition base_key :: "(slice \<Rightarrow> slice \<Rightarrow> int) \<Rightarrow> Version \<Rightarrow> nat \<Rightarrow> slice \<Rightarrow> bool" where
  "base_key ucmp v level u \<longleftrightarrow> (\<forall>l. level + 2 \<le> l \<and> l < kNumLevels \<longrightarrow> (\<forall>f\<in>set (level_files v l). \<not> overlaps_key ucmp u f))"

lemma entry_is_deletion: "ParseInternalKey (fst e) = Some ik \<Longrightarrow> value_type ik = kTypeDeletion \<longleftrightarrow> \<not> entry_is_value e"
  by (cases "value_type ik") (simp_all add: entry_is_value_def)

lemma entry_visible_seq: "ParseInternalKey (fst e) \<noteq> None \<Longrightarrow> entry_visible s e \<longleftrightarrow> entry_seq e \<le> s"
  using ParseInternalKey_sequence [of "fst e"] by (auto simp: entry_visible_def entry_seq_def)

lemma entry_seq_mono: "internal_tag (fst a) \<le> internal_tag (fst b) \<Longrightarrow> entry_seq a \<le> entry_seq b"
  unfolding entry_seq_def word_le_nat_alt drop_bit_eq_div by (simp add: unat_div div_le_mono)

text \<open>The state of the loop before entry \<open>p\<close>.\<close>

definition drop_inv :: "(slice \<Rightarrow> slice \<Rightarrow> int) \<Rightarrow> entries \<Rightarrow> nat \<Rightarrow> DropState \<Rightarrow> bool" where
  "drop_inv ucmp es p d \<longleftrightarrow>
     (if p = 0 then \<not> ds_has_current_user_key d
      else ds_has_current_user_key d \<and> ucmp (ds_current_user_key d) (entry_user_key (es ! (p - 1))) = 0 \<and>
           ds_last_sequence_for_key d = entry_seq (es ! (p - 1)))"

definition base_inv :: "(slice \<Rightarrow> slice \<Rightarrow> int) \<Rightarrow> Version \<Rightarrow> nat \<Rightarrow> entries \<Rightarrow> nat \<Rightarrow> Compaction \<Rightarrow> bool" where
  "base_inv ucmp v level es p c \<longleftrightarrow> c_input_version c = Some v \<and> c_level c = level \<and>
     (p < length es \<longrightarrow> ptrs_ok ucmp v (entry_user_key (es ! p)) (c_level_ptrs c))"

context user_comparator
begin

lemma user_eq_trans: "cmp a b = 0 \<Longrightarrow> cmp b c = 0 \<Longrightarrow> cmp a c = 0"
  using cmp_trans [of a b c] cmp_trans [of c b a] cmp_eq_sym cmp_flip_le by (metis antisym order.refl)

lemma sorted_user_key:
  assumes "sorted_entries ivalid (InternalKey_Compare cmp) es" "i \<le> j" "j < length es"
  shows "cmp (entry_user_key (es ! i)) (entry_user_key (es ! j)) \<le> 0"
proof (cases "i = j")
  case False
  then have "InternalKey_Compare cmp (fst (es ! i)) (fst (es ! j)) < 0" using assms by (auto simp: sorted_entries_def sorted_wrt_iff_nth_less)
  then show ?thesis by (auto simp: ikey_less_iff entry_user_key_def)
qed (simp add: cmp_refl)

lemma sorted_seq:
  assumes "sorted_entries ivalid (InternalKey_Compare cmp) es" "i < j" "j < length es"
    "cmp (entry_user_key (es ! i)) (entry_user_key (es ! j)) = 0"
  shows "internal_tag (fst (es ! j)) < internal_tag (fst (es ! i))" "entry_seq (es ! j) \<le> entry_seq (es ! i)"
proof -
  have "InternalKey_Compare cmp (fst (es ! i)) (fst (es ! j)) < 0" using assms by (auto simp: sorted_entries_def sorted_wrt_iff_nth_less)
  then show "internal_tag (fst (es ! j)) < internal_tag (fst (es ! i))" using assms(4) by (auto simp: ikey_less_iff entry_user_key_def)
  then show "entry_seq (es ! j) \<le> entry_seq (es ! i)" using entry_seq_mono by simp
qed

text \<open>Entries between two of the same user key have that user key.\<close>

lemma sorted_between:
  assumes "sorted_entries ivalid (InternalKey_Compare cmp) es" "i \<le> k" "k \<le> j" "j < length es"
    "cmp (entry_user_key (es ! i)) (entry_user_key (es ! j)) = 0"
  shows "cmp (entry_user_key (es ! k)) (entry_user_key (es ! j)) = 0"
proof -
  have "cmp (entry_user_key (es ! i)) (entry_user_key (es ! k)) \<le> 0" "cmp (entry_user_key (es ! k)) (entry_user_key (es ! j)) \<le> 0"
    using sorted_user_key [OF assms(1)] assms(2-4) by auto
  moreover have "cmp (entry_user_key (es ! j)) (entry_user_key (es ! i)) \<le> 0" using assms(5) cmp_eq_sym by (metis order.refl)
  ultimately show ?thesis by (metis cmp_flip_le cmp_trans antisym)
qed

lemma drop_step:
  assumes "sorted_entries ivalid (InternalKey_Compare cmp) es" "all_parse es" "p < length es" "version_ok cmp v"
    "snap < kMaxSequenceNumber" "drop_inv cmp es p d" "base_inv cmp v level es p c"
  shows "\<exists>d' ptrs. compaction_drop cmp snap (fst (es ! p)) d c = Some (d', c \<lparr> c_level_ptrs := ptrs \<rparr>, dropped cmp snap (base_key cmp v level) es p) \<and>
    drop_inv cmp es (Suc p) d' \<and> base_inv cmp v level es (Suc p) (c \<lparr> c_level_ptrs := ptrs \<rparr>)"
proof -
  obtain ik where ik: "ParseInternalKey (fst (es ! p)) = Some ik" using assms(2,3) by (fastforce simp: all_parse_def)
  have uk: "user_key ik = entry_user_key (es ! p)" "sequence ik = entry_seq (es ! p)"
    using ParseInternalKey_user_key [OF ik] ParseInternalKey_sequence [OF ik] by (simp_all add: entry_user_key_def entry_seq_def)
  let ?u = "entry_user_key (es ! p)"
  define fresh where "fresh \<longleftrightarrow> \<not> ds_has_current_user_key d \<or> cmp ?u (ds_current_user_key d) \<noteq> 0"
  define d1 where "d1 = (if fresh then \<lparr> ds_current_user_key = ?u, ds_has_current_user_key = True, ds_last_sequence_for_key = kMaxSequenceNumber \<rparr> else d)"
  have hidden: "ds_last_sequence_for_key d1 \<le> snap \<longleftrightarrow> (\<exists>j<p. cmp (entry_user_key (es ! j)) ?u = 0 \<and> entry_seq (es ! j) \<le> snap)"
  proof (cases fresh)
    case True
    have "cmp (entry_user_key (es ! j)) ?u \<noteq> 0" if "j < p" for j
    proof
      assume "cmp (entry_user_key (es ! j)) ?u = 0"
      then have "cmp (entry_user_key (es ! (p - 1))) ?u = 0" using sorted_between [OF assms(1), of j "p - 1" p] that assms(3) by simp
      moreover have "ds_has_current_user_key d" "cmp (ds_current_user_key d) (entry_user_key (es ! (p - 1))) = 0"
        using assms(6) that by (auto simp: drop_inv_def)
      ultimately have "cmp ?u (ds_current_user_key d) = 0" by (metis cmp_eq_sym user_eq_trans)
      then show False using True \<open>ds_has_current_user_key d\<close> by (simp add: fresh_def)
    qed
    then show ?thesis using True assms(5) by (auto simp: d1_def)
  next
    case False
    then have p: "p \<noteq> 0" "cmp (ds_current_user_key d) (entry_user_key (es ! (p - 1))) = 0" "ds_last_sequence_for_key d = entry_seq (es ! (p - 1))"
      using assms(6) by (auto simp: fresh_def drop_inv_def split: if_splits)
    have same: "cmp (entry_user_key (es ! (p - 1))) ?u = 0" using p(2) False by (metis cmp_eq_sym user_eq_trans fresh_def)
    have "entry_seq (es ! (p - 1)) \<le> entry_seq (es ! j)" if "j < p" "cmp (entry_user_key (es ! j)) ?u = 0" for j
    proof (cases "j = p - 1")
      case False
      have "cmp (entry_user_key (es ! j)) (entry_user_key (es ! (p - 1))) = 0" using that(2) same by (metis cmp_eq_sym user_eq_trans)
      then show ?thesis using sorted_seq(2) [OF assms(1), of j "p - 1"] False that(1) assms(3) by simp
    qed simp
    then show ?thesis using False p(1,3) same by (auto simp: d1_def intro!: exI [of _ "p - 1"] dest: order_trans)
  qed
  obtain ptrs where ptrs: "(if ds_last_sequence_for_key d1 \<le> snap then Some (c, True)
      else if value_type ik = kTypeDeletion \<and> sequence ik \<le> snap then IsBaseLevelForKey cmp ?u c else Some (c, False)) =
      Some (c \<lparr> c_level_ptrs := ptrs \<rparr>, dropped cmp snap (base_key cmp v level) es p)" "ptrs_ok cmp v ?u ptrs"
  proof -
    have c: "c_input_version c = Some v" "c_level c = level" "ptrs_ok cmp v ?u (c_level_ptrs c)" using assms(3,7) by (auto simp: base_inv_def)
    obtain ptrs b where b: "base_levels cmp v ?u [level + 2..<kNumLevels] (c_level_ptrs c) = (ptrs, b)" "ptrs_ok cmp v ?u ptrs"
        "b \<longleftrightarrow> (\<forall>l\<in>set [level + 2..<kNumLevels]. \<forall>f\<in>set (level_files v l). \<not> overlaps_key cmp ?u f)"
      using base_levels_law [OF assms(4), of "[level + 2..<kNumLevels]" ?u "c_level_ptrs c"] c(3) by auto
    have "b = base_key cmp v level ?u" using b(3) by (auto simp: base_key_def)
    then have "IsBaseLevelForKey cmp ?u c = Some (c \<lparr> c_level_ptrs := ptrs \<rparr>, base_key cmp v level ?u)" using b(1) c by (simp add: IsBaseLevelForKey_def)
    note base = this and p0 = c(3)
    consider "ds_last_sequence_for_key d1 \<le> snap" | "\<not> ds_last_sequence_for_key d1 \<le> snap" "value_type ik = kTypeDeletion \<and> sequence ik \<le> snap"
      | "\<not> ds_last_sequence_for_key d1 \<le> snap" "\<not> (value_type ik = kTypeDeletion \<and> sequence ik \<le> snap)" by blast
    then show thesis
    proof cases
      case 1
      then show thesis using that [of "c_level_ptrs c"] p0 hidden by (simp add: dropped_def)
    next
      case 2
      then have "dropped cmp snap (base_key cmp v level) es p \<longleftrightarrow> base_key cmp v level ?u"
        using hidden by (auto simp: dropped_def uk entry_is_deletion [OF ik])
      then show thesis using that [of ptrs] base b(2) 2 by simp
    next
      case 3
      then have "\<not> dropped cmp snap (base_key cmp v level) es p" using hidden by (auto simp: dropped_def uk entry_is_deletion [OF ik])
      then show thesis using that [of "c_level_ptrs c"] p0 3 by simp
    qed
  qed
  let ?d = "d1 \<lparr> ds_last_sequence_for_key := entry_seq (es ! p) \<rparr>"
  have "compaction_drop cmp snap (fst (es ! p)) d c = Some (?d, c \<lparr> c_level_ptrs := ptrs \<rparr>, dropped cmp snap (base_key cmp v level) es p)"
  proof -
    have "compaction_drop cmp snap (fst (es ! p)) d c =
        (case (if ds_last_sequence_for_key d1 \<le> snap then Some (c, True)
               else if value_type ik = kTypeDeletion \<and> sequence ik \<le> snap then IsBaseLevelForKey cmp ?u c else Some (c, False)) of
           None \<Rightarrow> None | Some (c, drop_it) \<Rightarrow> Some (d1 \<lparr> ds_last_sequence_for_key := sequence ik \<rparr>, c, drop_it))"
      unfolding compaction_drop_def ik option.case Let_def uk(1) d1_def fresh_def by (rule refl)
    then have "compaction_drop cmp snap (fst (es ! p)) d c =
        Some (d1 \<lparr> ds_last_sequence_for_key := sequence ik \<rparr>, c \<lparr> c_level_ptrs := ptrs \<rparr>, dropped cmp snap (base_key cmp v level) es p)"
      by (simp only: ptrs(1) option.case prod.case)
    then show ?thesis by (simp only: uk(2))
  qed
  moreover have "drop_inv cmp es (Suc p) ?d"
    using cmp_refl cmp_eq_sym by (auto simp: drop_inv_def d1_def fresh_def)
  moreover have "ptrs_ok cmp v (entry_user_key (es ! Suc p)) ptrs" if "Suc p < length es"
    using ptrs(2) sorted_user_key [OF assms(1), of p "Suc p"] that cmp_less_le_trans by (fastforce simp: ptrs_ok_def)
  ultimately show ?thesis using assms(7) by (auto simp: base_inv_def)
qed

end


subsection \<open>Reads before and after\<close>

text \<open>What a read of \<open>u\<close> at sequence number \<open>s\<close> may return from a set of entries: a value, or nothing when the newest visible
  entry is a deletion or there is none.\<close>

definition read_result :: "(slice \<times> slice) option \<Rightarrow> slice option" where
  "read_result r = (case r of None \<Rightarrow> None | Some e \<Rightarrow> if entry_is_value e then Some (snd e) else None)"

definition reads :: "(slice \<Rightarrow> slice \<Rightarrow> int) \<Rightarrow> slice \<Rightarrow> uint64 \<Rightarrow> (slice \<times> slice) set \<Rightarrow> slice option set" where
  "reads ucmp u s E = read_result ` {r. newest_visible ucmp u s E r}"

text \<open>Two sets of entries read the same when every visible entry in only one of them is older than a visible one in both.\<close>

lemma newest_visible_cong:
  assumes "\<And>e. e \<in> A \<Longrightarrow> visible_for ucmp u s e \<Longrightarrow> e \<in> B \<or> (\<exists>x\<in>A \<inter> B. visible_for ucmp u s x \<and> internal_tag (fst e) < internal_tag (fst x))"
    "\<And>e. e \<in> B \<Longrightarrow> visible_for ucmp u s e \<Longrightarrow> e \<in> A \<or> (\<exists>x\<in>A \<inter> B. visible_for ucmp u s x \<and> internal_tag (fst e) < internal_tag (fst x))"
  shows "newest_visible ucmp u s A r \<longleftrightarrow> newest_visible ucmp u s B r"
proof -
  have imp: "newest_visible ucmp u s B r" if nv: "newest_visible ucmp u s A r"
    and A: "\<And>e. e \<in> A \<Longrightarrow> visible_for ucmp u s e \<Longrightarrow> e \<in> B \<or> (\<exists>x\<in>A \<inter> B. visible_for ucmp u s x \<and> internal_tag (fst e) < internal_tag (fst x))"
    and B: "\<And>e. e \<in> B \<Longrightarrow> visible_for ucmp u s e \<Longrightarrow> e \<in> A \<or> (\<exists>x\<in>A \<inter> B. visible_for ucmp u s x \<and> internal_tag (fst e) < internal_tag (fst x))" for A B
  proof (cases r)
    case None
    then show ?thesis using nv B by (fastforce simp: newest_visible_def)
  next
    case (Some e)
    have e: "e \<in> A" "visible_for ucmp u s e" "\<And>x. x \<in> A \<Longrightarrow> visible_for ucmp u s x \<Longrightarrow> internal_tag (fst x) \<le> internal_tag (fst e)"
      using nv Some by (auto simp: newest_visible_def)
    have "e \<in> B" using A [OF e(1,2)] e(3) by (force simp: not_less)
    moreover have "internal_tag (fst x) \<le> internal_tag (fst e)" if x: "x \<in> B" "visible_for ucmp u s x" for x
      using B [OF x] e(3) x(2) by (meson IntD1 less_imp_le order_trans)
    ultimately show ?thesis using Some e(2) by (simp add: newest_visible_def)
  qed
  show ?thesis using imp [of A B] imp [of B A] assms by (auto simp: Int_commute)
qed

lemma kept_sub: "set (kept ucmp snap base es) \<subseteq> set es"
  by (auto simp: kept_def)

lemma kept_nth: "i < length es \<Longrightarrow> \<not> dropped ucmp snap base es i \<Longrightarrow> es ! i \<in> set (kept ucmp snap base es)"
  by (auto simp: kept_def)

context user_comparator
begin

lemma kept_iff:
  assumes "sorted_entries ivalid (InternalKey_Compare cmp) es" "i < length es"
  shows "es ! i \<in> set (kept cmp snap base es) \<longleftrightarrow> \<not> dropped cmp snap base es i"
proof
  assume "es ! i \<in> set (kept cmp snap base es)"
  then obtain j where j: "j < length es" "\<not> dropped cmp snap base es j" "es ! i = es ! j" by (auto simp: kept_def)
  have "i = j"
  proof (rule ccontr)
    assume "i \<noteq> j"
    then have "InternalKey_Compare cmp (fst (es ! i)) (fst (es ! i)) < 0"
      using assms j by (metis (no_types, lifting) linorder_neqE_nat sorted_entries_def sorted_wrt_iff_nth_less)
    then show False using ikey_eq_iff [of "fst (es ! i)" "fst (es ! i)"] cmp_refl by simp
  qed
  then show "\<not> dropped cmp snap base es i" using j(2) by simp
qed (rule kept_nth [OF assms(2)])

text \<open>The newest visible entry of a key in a sorted list, when it is dropped: a deletion, and no entry of its key is kept that
  is visible.\<close>

lemma dropped_newest:
  assumes "sorted_entries ivalid (InternalKey_Compare cmp) es" "all_parse es" "snap \<le> s" "i < length es" "visible_for cmp u s (es ! i)"
    "\<forall>e\<in>set es. visible_for cmp u s e \<longrightarrow> internal_tag (fst e) \<le> internal_tag (fst (es ! i))" "dropped cmp snap base es i"
    "\<And>a b. cmp a b = 0 \<Longrightarrow> base a = base b"
  shows "\<not> entry_is_value (es ! i)" "base u" "\<forall>e\<in>set (kept cmp snap base es). \<not> visible_for cmp u s e"
proof -
  have ui: "cmp (entry_user_key (es ! i)) u = 0" "entry_seq (es ! i) \<le> s" using assms(2,4,5) entry_visible_seq [of "es ! i" s] by (simp_all add: visible_for_def all_parse_def)
  have not_hidden: "\<not> (cmp (entry_user_key (es ! j)) (entry_user_key (es ! i)) = 0 \<and> entry_seq (es ! j) \<le> snap)" if "j < i" for j
  proof
    assume j: "cmp (entry_user_key (es ! j)) (entry_user_key (es ! i)) = 0 \<and> entry_seq (es ! j) \<le> snap"
    have "entry_seq (es ! j) \<le> s" using j assms(3) order_trans by blast
    moreover have "ParseInternalKey (fst (es ! j)) \<noteq> None" using assms(2,4) that by (simp add: all_parse_def)
    ultimately have "entry_visible s (es ! j)" using entry_visible_seq by blast
    then have "visible_for cmp u s (es ! j)" using user_eq_trans [OF _ ui(1)] j by (simp add: visible_for_def)
    then have "internal_tag (fst (es ! j)) \<le> internal_tag (fst (es ! i))" using assms(4,6) that by simp
    moreover have "internal_tag (fst (es ! i)) < internal_tag (fst (es ! j))" using sorted_seq(1) [OF assms(1) that assms(4)] j by simp
    ultimately show False by simp
  qed
  then have d: "\<not> entry_is_value (es ! i)" "entry_seq (es ! i) \<le> snap" "base (entry_user_key (es ! i))" using assms(7) by (auto simp: dropped_def)
  then show "\<not> entry_is_value (es ! i)" "base u" using assms(8) [OF ui(1)] by blast+
  show "\<forall>e\<in>set (kept cmp snap base es). \<not> visible_for cmp u s e"
  proof (intro ballI notI)
    fix e assume e: "e \<in> set (kept cmp snap base es)" "visible_for cmp u s e"
    have "e \<in> set es" by (rule subsetD [OF kept_sub e(1)])
    then obtain k where k: "k < length es" "e = es ! k" by (auto simp: in_set_conv_nth)
    have nd: "\<not> dropped cmp snap base es k" using kept_iff [OF assms(1) k(1)] e(1) k(2) by blast
    have same: "cmp (entry_user_key (es ! i)) (entry_user_key (es ! k)) = 0"
      using visible_eq [OF assms(5) e(2)] k(2) by simp
    consider "k < i" | "k = i" | "i < k" by linarith
    then show False
    proof cases
      case 1
      then have "internal_tag (fst (es ! i)) < internal_tag (fst (es ! k))" using sorted_seq(1) [OF assms(1) 1 assms(4)] same cmp_eq_sym by blast
      moreover have "internal_tag (fst (es ! k)) \<le> internal_tag (fst (es ! i))" using assms(6) e(2) k by simp
      ultimately show False by simp
    next
      case 2
      then show False using nd assms(7) by simp
    next
      case 3
      then show False using nd same d(2) by (auto simp: dropped_def)
    qed
  qed
qed

text \<open>The newest visible entry of a key in a list, if there is a visible one.\<close>

lemma newest_exists:
  assumes "e \<in> set es" "visible_for cmp u s e"
  obtains i where "i < length es" "visible_for cmp u s (es ! i)" "\<forall>x\<in>set es. visible_for cmp u s x \<longrightarrow> internal_tag (fst x) \<le> internal_tag (fst (es ! i))"
proof -
  let ?t = "\<lambda>x. unat (internal_tag (fst x))"
  have "\<exists>m. (m \<in> set es \<and> visible_for cmp u s m) \<and> (\<forall>y. y \<in> set es \<and> visible_for cmp u s y \<longrightarrow> ?t y \<le> ?t m)"
    by (rule ex_has_greatest_nat [of _ e _ "2 ^ 64"]) (use assms unat_less_64 less_imp_le in auto)
  then obtain m where m: "m \<in> set es" "visible_for cmp u s m" "\<And>y. y \<in> set es \<Longrightarrow> visible_for cmp u s y \<Longrightarrow> ?t y \<le> ?t m" by blast
  obtain i where "i < length es" "m = es ! i" using m(1) by (metis in_set_conv_nth)
  then show thesis using that m by (auto simp: word_le_nat_alt)
qed

lemma newest_only:
  assumes "sorted_entries ivalid (InternalKey_Compare cmp) es" "i < length es" "visible_for cmp u s (es ! i)" "e \<in> set es" "visible_for cmp u s e"
    "internal_tag (fst e) = internal_tag (fst (es ! i))"
  shows "e = es ! i"
proof -
  obtain j where j: "j < length es" "e = es ! j" using assms(4) by (metis in_set_conv_nth)
  have "cmp (entry_user_key (es ! i)) (entry_user_key (es ! j)) = 0" "cmp (entry_user_key (es ! j)) (entry_user_key (es ! i)) = 0"
    using visible_eq assms(3,5) j(2) by blast+
  then show ?thesis using sorted_seq(1) [OF assms(1), of i j] sorted_seq(1) [OF assms(1), of j i] assms(2,6) j
    by (metis linorder_neqE_nat order_less_irrefl)
qed

lemma reads_kept:
  assumes "sorted_entries ivalid (InternalKey_Compare cmp) es" "all_parse es" "snap \<le> s"
    "newer cmp N (set es)" "newer cmp (set es) D" "\<And>e. e \<in> D \<Longrightarrow> \<not> base (entry_user_key e)"
    "\<And>a b. cmp a b = 0 \<Longrightarrow> base a = base b"
  shows "reads cmp u s (N \<union> set (kept cmp snap base es) \<union> D) = reads cmp u s (N \<union> set es \<union> D)"
proof -
  let ?K = "set (kept cmp snap base es)" and ?E = "set es" and ?v = "visible_for cmp u s"
  have sub: "?K \<subseteq> ?E" by (rule kept_sub)
  have same: "cmp (entry_user_key a) (entry_user_key b) = 0" if "?v a" "?v b" for a b using visible_eq that by blast
  have above: "internal_tag (fst b) < internal_tag (fst a)" if "a \<in> N" "b \<in> ?E" "?v a" "?v b" for a b using assms(4) that same by (auto simp: newer_def)
  have below: "internal_tag (fst b) < internal_tag (fst a)" if "a \<in> ?E" "b \<in> D" "?v a" "?v b" for a b using assms(5) that same by (auto simp: newer_def)
  show ?thesis
  proof (cases "\<exists>e\<in>?E. ?v e")
    case False
    then have "newest_visible cmp u s (N \<union> ?K \<union> D) r \<longleftrightarrow> newest_visible cmp u s (N \<union> ?E \<union> D) r" for r
      using sub by (auto simp: newest_visible_def split: option.splits)
    then show ?thesis by (simp add: reads_def)
  next
    case True
    then obtain i where i: "i < length es" "?v (es ! i)" "\<forall>x\<in>?E. ?v x \<longrightarrow> internal_tag (fst x) \<le> internal_tag (fst (es ! i))"
      using newest_exists by blast
    have ei: "es ! i \<in> ?E" using i(1) by simp
    show ?thesis
    proof (cases "dropped cmp snap base es i")
      case False
      then have k: "es ! i \<in> ?K" using kept_nth i(1) by blast
      have "e \<in> ?K \<or> internal_tag (fst e) < internal_tag (fst (es ! i))" if "e \<in> ?E" "?v e" for e
        using newest_only [OF assms(1) i(1,2) that] i(3) that k by (cases "internal_tag (fst e) = internal_tag (fst (es ! i))") (auto simp: order_less_le)
      then have "newest_visible cmp u s (N \<union> ?K \<union> D) r \<longleftrightarrow> newest_visible cmp u s (N \<union> ?E \<union> D) r" for r
        by (intro newest_visible_cong) (use sub k ei i(2) in blast)+
      then show ?thesis by (simp add: reads_def)
    next
      case True
      note d = dropped_newest [OF assms(1-3) i True assms(7)]
      have no_D: "\<forall>e\<in>D. \<not> ?v e" using assms(6,7) d(2) by (auto simp: visible_for_def)
      show ?thesis
      proof (cases "\<exists>e\<in>N. ?v e")
        case True
        then have "newest_visible cmp u s (N \<union> ?K \<union> D) r \<longleftrightarrow> newest_visible cmp u s (N \<union> ?E \<union> D) r" for r
          by (intro newest_visible_cong) (use sub above in blast)+
        then show ?thesis by (simp add: reads_def)
      next
        case False
        have "newest_visible cmp u s (N \<union> ?K \<union> D) r \<longleftrightarrow> r = None" for r
          using False d(3) no_D by (auto simp: newest_visible_def split: option.splits)
        then have "reads cmp u s (N \<union> ?K \<union> D) = {None}" by (simp add: reads_def read_result_def)
        moreover have "newest_visible cmp u s (N \<union> ?E \<union> D) r \<longleftrightarrow> r = Some (es ! i)" for r
        proof (cases r)
          case (Some e)
          have "e = es ! i" if "e \<in> ?E" "?v e" "internal_tag (fst (es ! i)) \<le> internal_tag (fst e)"
            using newest_only [OF assms(1) i(1,2) that(1,2)] i(3) that by (simp add: antisym)
          then show ?thesis using Some False no_D i ei by (auto simp: newest_visible_def)
        qed (use i ei in \<open>auto simp: newest_visible_def\<close>)
        then have "reads cmp u s (N \<union> ?E \<union> D) = {None}" using d(1) by (simp add: reads_def read_result_def)
        ultimately show ?thesis by simp
      qed
    qed
  qed
qed

end


subsection \<open>The loop writes the kept entries\<close>

text \<open>Output files that report no errors.\<close>

locale output_files = table_file "oo_write ops" contents writable for ops :: "'f output_ops" and contents writable +
  assumes new_law: "\<exists>f. oo_NewWritableFile ops n = (Some f, Status_OK) \<and> writable f \<and> contents f = []"
    and sync_law: "writable f \<Longrightarrow> \<exists>f'. oo_Sync ops f = (f', Status_OK) \<and> writable f' \<and> contents f' = contents f"
    and close_law: "writable f \<Longrightarrow> \<exists>f'. oo_Close ops f = (f', Status_OK) \<and> contents f' = contents f"

text \<open>\<open>bytes\<close> is the table that the builder writes for \<open>kvs\<close>.\<close>

definition table_of :: "'f write_ops \<Rightarrow> ('f \<Rightarrow> slice) \<Rightarrow> ('f \<Rightarrow> bool) \<Rightarrow> Options \<Rightarrow> entries \<Rightarrow> slice \<Rightarrow> bool" where
  "table_of wops contents writable opt kvs bytes \<longleftrightarrow>
     (\<exists>f r. writable f \<and> contents f = [] \<and> build_table wops opt f kvs = (r, Status_OK) \<and> contents (tb_file r) = bytes)"

definition output_ok :: "'f write_ops \<Rightarrow> ('f \<Rightarrow> slice) \<Rightarrow> ('f \<Rightarrow> bool) \<Rightarrow> Options \<Rightarrow> Output \<Rightarrow> uint64 \<times> 'f \<Rightarrow> entries \<Rightarrow> bool" where
  "output_ok wops contents writable opt out nf kvs \<longleftrightarrow> kvs \<noteq> [] \<and> fst nf = out_number out \<and>
     out_smallest out = fst (hd kvs) \<and> out_largest out = fst (last kvs) \<and> out_file_size out = word_of_nat (length (contents (snd nf))) \<and>
     table_of wops contents writable opt kvs (contents (snd nf))"

fun outputs_ok :: "'f write_ops \<Rightarrow> ('f \<Rightarrow> slice) \<Rightarrow> ('f \<Rightarrow> bool) \<Rightarrow> Options \<Rightarrow> Output list \<Rightarrow> (uint64 \<times> 'f) list \<Rightarrow> entries list \<Rightarrow> bool" where
  "outputs_ok wops contents writable opt [] [] [] = True"
| "outputs_ok wops contents writable opt (out # outs) (nf # nfs) (kvs # ks) =
     (output_ok wops contents writable opt out nf kvs \<and> outputs_ok wops contents writable opt outs nfs ks)"
| "outputs_ok wops contents writable opt _ _ _ = False"

lemma outputs_ok_snoc:
  "outputs_ok wops contents writable opt outs nfs ks \<Longrightarrow> output_ok wops contents writable opt out nf kvs \<Longrightarrow>
    outputs_ok wops contents writable opt (outs @ [out]) (nfs @ [nf]) (ks @ [kvs])"
  by (induction wops contents writable opt outs nfs ks rule: outputs_ok.induct) auto

definition run_builder :: "'f write_ops \<Rightarrow> Options \<Rightarrow> 'f \<Rightarrow> entries \<Rightarrow> 'f TableBuilder" where
  "run_builder wops opt f kvs = fold (\<lambda>(k, v) r. TableBuilder_Add wops r k v) kvs (TableBuilder_new opt f)"

text \<open>The outputs finished so far hold \<open>chunks\<close>, the one being built holds \<open>cur\<close>.\<close>

definition out_inv :: "'f write_ops \<Rightarrow> ('f \<Rightarrow> slice) \<Rightarrow> ('f \<Rightarrow> bool) \<Rightarrow> Options \<Rightarrow> entries list \<Rightarrow> entries \<Rightarrow> 'f CompactionState \<Rightarrow> bool" where
  "out_inv wops contents writable opt chunks cur cs \<longleftrightarrow>
     (if cur = [] then cs_builder cs = None \<and> outputs_ok wops contents writable opt (cs_outputs cs) (cs_files cs) chunks
      else \<exists>f outs out. writable f \<and> contents f = [] \<and> cs_builder cs = Some (run_builder wops opt f cur) \<and> cs_outputs cs = outs @ [out] \<and>
             out_smallest out = fst (hd cur) \<and> out_largest out = fst (last cur) \<and> outputs_ok wops contents writable opt outs (cs_files cs) chunks)"

context output_files
begin

lemma run_builder_entries:
  assumes "1 \<le> opt_block_restart_interval opt" "writable f" "contents f = []"
  shows "TableBuilder_NumEntries (run_builder (oo_write ops) opt f kvs) = length kvs"
  using tb_add_all [OF assms(1) tb_new [OF assms(2,3)], of kvs] by (auto simp: tb_inv_def TableBuilder_NumEntries_def run_builder_def)

lemma Finish_law:
  assumes "1 \<le> opt_block_restart_interval opt" "out_inv (oo_write ops) contents writable opt chunks cur cs" "cur \<noteq> []"
    "\<And>n sz f. table_of (oo_write ops) contents writable opt cur (contents f) \<Longrightarrow> oo_verify ops n sz f = Status_OK"
  shows "\<exists>cs'. FinishCompactionOutputFile ops Status_OK cs = Some (cs', Status_OK) \<and>
    out_inv (oo_write ops) contents writable opt (chunks @ [cur]) [] cs' \<and>
    cs_compaction cs' = cs_compaction cs \<and> cs_smallest_snapshot cs' = cs_smallest_snapshot cs"
proof -
  obtain f outs out where i: "writable f" "contents f = []" "cs_builder cs = Some (run_builder (oo_write ops) opt f cur)" "cs_outputs cs = outs @ [out]"
      "out_smallest out = fst (hd cur)" "out_largest out = fst (last cur)" "outputs_ok (oo_write ops) contents writable opt outs (cs_files cs) chunks"
    using assms(2,3) by (auto simp: out_inv_def)
  obtain bl cur' where "tb_inv (oo_write ops) contents writable opt cur bl cur' (run_builder (oo_write ops) opt f cur)"
    using tb_add_all [OF assms(1) tb_new [OF i(1,2)], of cur] by (auto simp: run_builder_def)
  from tb_finish [OF this assms(1)] obtain r where r: "TableBuilder_Finish (oo_write ops) (run_builder (oo_write ops) opt f cur) = (r, Status_OK)"
      "writable (tb_file r)" "tb_offset r = word_of_nat (length (contents (tb_file r)))" by blast
  obtain f1 where f1: "oo_Sync ops (tb_file r) = (f1, Status_OK)" "writable f1" "contents f1 = contents (tb_file r)" using sync_law [OF r(2)] by blast
  obtain f2 where f2: "oo_Close ops f1 = (f2, Status_OK)" "contents f2 = contents f1" using close_law [OF f1(2)] by blast
  have t: "table_of (oo_write ops) contents writable opt cur (contents f2)"
    unfolding table_of_def using i(1,2) r(1) f1(3) f2(2) by (auto simp: build_table_def run_builder_def)
  let ?out = "out \<lparr> out_file_size := tb_offset r \<rparr>"
  let ?cs = "cs \<lparr> cs_outputs := outs @ [?out], cs_total_bytes := cs_total_bytes cs + tb_offset r, cs_builder := None, cs_files := cs_files cs @ [(out_number out, f2)] \<rparr>"
  have "FinishCompactionOutputFile ops Status_OK cs = Some (?cs, Status_OK)"
    using i(3,4) r(1) f1(1) f2(1) assms(4) [OF t]
    by (simp add: FinishCompactionOutputFile_def update_current_output_def TableBuilder_FileSize_def Let_def)
  moreover have "output_ok (oo_write ops) contents writable opt ?out (out_number out, f2) cur"
    using assms(3) i(5,6) r(3) t f1(3) f2(2) by (simp add: output_ok_def)
  ultimately show ?thesis using outputs_ok_snoc [OF i(7)] by (intro exI [of _ ?cs]) (simp add: out_inv_def)
qed

end

lemma stop_scan_fields:
  "\<exists>g b. stop_scan icmp k c = c \<lparr> c_grandparent_index := g, c_overlapped_bytes := b \<rparr>"
proof (induction icmp k c rule: stop_scan.induct)
  case (1 icmp k c)
  show ?case
  proof (cases "c_grandparent_index c < length (c_grandparents c) \<and> 0 < icmp k (fm_largest (c_grandparents c ! c_grandparent_index c))")
    case True
    then show ?thesis using 1 by (subst stop_scan.simps) force
  next
    case False
    have "c = c \<lparr> c_grandparent_index := c_grandparent_index c, c_overlapped_bytes := c_overlapped_bytes c \<rparr>" by simp
    then show ?thesis using False by (subst stop_scan.simps) metis
  qed
qed

lemma ShouldStopBefore_fields:
  assumes "ShouldStopBefore icmp k c = (c', stop)"
  shows "c_level c' = c_level c" "c_input_version c' = c_input_version c" "c_level_ptrs c' = c_level_ptrs c"
proof -
  obtain g b where "stop_scan icmp k c = c \<lparr> c_grandparent_index := g, c_overlapped_bytes := b \<rparr>" using stop_scan_fields by blast
  then show "c_level c' = c_level c" "c_input_version c' = c_input_version c" "c_level_ptrs c' = c_level_ptrs c"
    using assms by (auto simp: ShouldStopBefore_def Let_def split: if_splits)
qed


definition kept_upto :: "(slice \<Rightarrow> slice \<Rightarrow> int) \<Rightarrow> uint64 \<Rightarrow> (slice \<Rightarrow> bool) \<Rightarrow> entries \<Rightarrow> nat \<Rightarrow> entries" where
  "kept_upto ucmp snap base es p = map ((!) es) (filter (\<lambda>i. \<not> dropped ucmp snap base es i) [0..<p])"

lemma kept_upto_Suc: "kept_upto ucmp snap base es (Suc p) = kept_upto ucmp snap base es p @ (if dropped ucmp snap base es p then [] else [es ! p])"
  by (simp add: kept_upto_def)

lemma kept_upto_sub: "p \<le> length es \<Longrightarrow> set (kept_upto ucmp snap base es p) \<subseteq> set es"
  by (auto simp: kept_upto_def)

definition compact_inv :: "'f write_ops \<Rightarrow> ('f \<Rightarrow> slice) \<Rightarrow> ('f \<Rightarrow> bool) \<Rightarrow> Options \<Rightarrow> (slice \<Rightarrow> slice \<Rightarrow> int) \<Rightarrow> Version \<Rightarrow> nat \<Rightarrow> uint64 \<Rightarrow> entries \<Rightarrow> nat \<Rightarrow>
    'f CompactionState \<Rightarrow> DropState \<Rightarrow> bool" where
  "compact_inv wops contents writable opt ucmp v level snap es p cs d \<longleftrightarrow>
     (\<exists>chunks cur. out_inv wops contents writable opt chunks cur cs \<and> concat chunks @ cur = kept_upto ucmp snap (base_key ucmp v level) es p) \<and>
     cs_smallest_snapshot cs = snap \<and> drop_inv ucmp es p d \<and> base_inv ucmp v level es p (cs_compaction cs)"

lemma out_inv_compaction: "out_inv wops contents writable opt chunks cur (cs \<lparr> cs_compaction := c \<rparr>) = out_inv wops contents writable opt chunks cur cs"
  by (simp add: out_inv_def)

context output_files
begin

text \<open>An entry added to the output being built, or to a new one.\<close>

lemma open_add:
  assumes "1 \<le> opt_block_restart_interval opt" "out_inv (oo_write ops) contents writable opt chunks cur cs"
    "(if cs_builder cs = None then OpenCompactionOutputFile ops opt cs else (cs, Status_OK)) = (cs1, s)"
  shows "s = Status_OK \<and> cs_compaction cs1 = cs_compaction cs \<and> cs_smallest_snapshot cs1 = cs_smallest_snapshot cs \<and>
    (\<exists>b. cs_builder cs1 = Some b \<and> (\<forall>cs2. cs2 = (let cs2 = (if TableBuilder_NumEntries b = 0 then update_current_output (\<lambda>out. out \<lparr> out_smallest := key \<rparr>) cs1 else cs1);
          cs2 = update_current_output (\<lambda>out. out \<lparr> out_largest := key \<rparr>) cs2
        in cs2 \<lparr> cs_builder := Some (TableBuilder_Add (oo_write ops) b key val) \<rparr>) \<longrightarrow>
      out_inv (oo_write ops) contents writable opt chunks (cur @ [(key, val)]) cs2 \<and> cs_compaction cs2 = cs_compaction cs \<and>
      cs_smallest_snapshot cs2 = cs_smallest_snapshot cs))"
proof (cases "cur = []")
  case True
  then have b: "cs_builder cs = None" "outputs_ok (oo_write ops) contents writable opt (cs_outputs cs) (cs_files cs) chunks"
    using assms(2) by (simp_all add: out_inv_def)
  obtain f where f: "oo_NewWritableFile ops (cs_next_file cs) = (Some f, Status_OK)" "writable f" "contents f = []" using new_law by blast
  have n: "TableBuilder_NumEntries (TableBuilder_new opt f) = 0"
    using run_builder_entries [OF assms(1) f(2,3), of "[]"] by (simp add: run_builder_def)
  let ?out = "\<lparr> out_number = cs_next_file cs, out_file_size = 0, out_smallest = [], out_largest = [] \<rparr>"
  have cs1: "cs1 = cs \<lparr> cs_next_file := cs_next_file cs + 1, cs_pending_outputs := insert (cs_next_file cs) (cs_pending_outputs cs),
      cs_outputs := cs_outputs cs @ [?out], cs_builder := Some (TableBuilder_new opt f) \<rparr>" "s = Status_OK"
    using assms(3) b(1) f(1) by (simp_all add: OpenCompactionOutputFile_def NewFileNumber_def)
  have "out_inv (oo_write ops) contents writable opt chunks [(key, val)] (cs1 \<lparr> cs_outputs := cs_outputs cs @ [?out \<lparr> out_smallest := key, out_largest := key \<rparr>],
      cs_builder := Some (TableBuilder_Add (oo_write ops) (TableBuilder_new opt f) key val) \<rparr>)"
    unfolding out_inv_def using f(2,3) b(2) cs1(1) by (auto simp: run_builder_def intro!: exI [of _ f])
  then show ?thesis using cs1 n True by (intro conjI exI [of _ "TableBuilder_new opt f"]) (simp_all add: update_current_output_def)
next
  case False
  then obtain f outs out where i: "writable f" "contents f = []" "cs_builder cs = Some (run_builder (oo_write ops) opt f cur)" "cs_outputs cs = outs @ [out]"
      "out_smallest out = fst (hd cur)" "out_largest out = fst (last cur)" "outputs_ok (oo_write ops) contents writable opt outs (cs_files cs) chunks"
    using assms(2) by (auto simp: out_inv_def)
  have n: "TableBuilder_NumEntries (run_builder (oo_write ops) opt f cur) \<noteq> 0" using run_builder_entries [OF assms(1) i(1,2)] False by simp
  have "run_builder (oo_write ops) opt f (cur @ [(key, val)]) = TableBuilder_Add (oo_write ops) (run_builder (oo_write ops) opt f cur) key val"
    by (simp add: run_builder_def)
  then show ?thesis using assms(3) i False n by (auto simp: update_current_output_def out_inv_def hd_append Let_def)
qed

end

locale compaction_run = user_comparator cmp sep succ + output_files ops contents writable
  for cmp sep succ and ops :: "'f output_ops" and contents writable +
  fixes opt :: Options and v :: Version and es :: entries and level :: nat and snap :: uint64 and ivalid :: "slice \<Rightarrow> bool"
  assumes interval: "1 \<le> opt_block_restart_interval opt" and levels: "version_ok cmp v" and snapshot: "snap < kMaxSequenceNumber"
    and sorted: "sorted_entries ivalid (InternalKey_Compare cmp) es" and parses: "all_parse es"
    and verifies: "set kvs \<subseteq> set es \<Longrightarrow> table_of (oo_write ops) contents writable opt kvs (contents f) \<Longrightarrow> oo_verify ops n sz f = Status_OK"
begin

abbreviation "good \<equiv> compact_inv (oo_write ops) contents writable opt cmp v level snap es"
abbreviation "keeps \<equiv> kept_upto cmp snap (base_key cmp v level) es"

lemma compact_entry_law:
  assumes "good p cs d" "p < length es"
  shows "\<exists>cs' d'. compact_entry ops opt cmp Status_OK (fst (es ! p)) (snd (es ! p)) (cs, d) = Some ((cs', d'), Status_OK) \<and> good (Suc p) cs' d'"
proof -
  let ?key = "fst (es ! p)" and ?val = "snd (es ! p)" and ?I = "out_inv (oo_write ops) contents writable opt"
  obtain chunks cur where i: "?I chunks cur cs" "concat chunks @ cur = keeps p" "cs_smallest_snapshot cs = snap" "drop_inv cmp es p d"
      "base_inv cmp v level es p (cs_compaction cs)" using assms(1) by (auto simp: compact_inv_def)
  obtain c stop where c: "ShouldStopBefore (InternalKey_Compare cmp) ?key (cs_compaction cs) = (c, stop)" by force
  let ?cs0 = "cs \<lparr> cs_compaction := c \<rparr>"
  have sub: "set cur \<subseteq> set es" using i(2) kept_upto_sub [of p es cmp snap "base_key cmp v level"] assms(2) by (metis Un_subset_iff less_imp_le set_append)
  have b0: "base_inv cmp v level es p c" using i(5) ShouldStopBefore_fields [OF c] by (simp add: base_inv_def)
  obtain cs1 chunks1 cur1 where 1: "(if stop \<and> cs_builder ?cs0 \<noteq> None then FinishCompactionOutputFile ops Status_OK ?cs0 else Some (?cs0, Status_OK)) = Some (cs1, Status_OK)"
      "?I chunks1 cur1 cs1" "concat chunks1 @ cur1 = keeps p" "cs_compaction cs1 = c" "cs_smallest_snapshot cs1 = snap"
  proof (cases "stop \<and> cs_builder ?cs0 \<noteq> None")
    case True
    then have "cur \<noteq> []" using i(1) by (auto simp: out_inv_def)
    then obtain cs' where "FinishCompactionOutputFile ops Status_OK ?cs0 = Some (cs', Status_OK)" "?I (chunks @ [cur]) [] cs'"
        "cs_compaction cs' = c" "cs_smallest_snapshot cs' = snap"
      using Finish_law [OF interval, of chunks cur ?cs0] i(1,3) verifies [OF sub] by (auto simp: out_inv_compaction)
    then show thesis using that [of cs' "chunks @ [cur]" "[]"] True i(2) by simp
  next
    case False
    then show thesis using that [of ?cs0 chunks cur] i(1-3) by (simp only: out_inv_compaction if_False) simp
  qed
  obtain d' ptrs where 2: "compaction_drop cmp snap ?key d c = Some (d', c \<lparr> c_level_ptrs := ptrs \<rparr>, dropped cmp snap (base_key cmp v level) es p)"
      "drop_inv cmp es (Suc p) d'" "base_inv cmp v level es (Suc p) (c \<lparr> c_level_ptrs := ptrs \<rparr>)"
    using drop_step [OF sorted parses assms(2) levels snapshot i(4) b0] by blast
  let ?cs2 = "cs1 \<lparr> cs_compaction := c \<lparr> c_level_ptrs := ptrs \<rparr> \<rparr>"
  note step = compact_entry_def c 1(1,4,5) 2(1) Let_def prod.case option.case Status_ok_simps
  show ?thesis
  proof (cases "dropped cmp snap (base_key cmp v level) es p")
    case True
    have "compact_entry ops opt cmp Status_OK ?key ?val (cs, d) = Some ((?cs2, d'), Status_OK)" by (simp only: step True) simp
    moreover have "good (Suc p) ?cs2 d'"
      using 1(2,3,5) 2(2,3) True by (auto simp: compact_inv_def out_inv_compaction kept_upto_Suc)
    ultimately show ?thesis by blast
  next
    case False
    obtain cs3 s where 3: "(if cs_builder ?cs2 = None then OpenCompactionOutputFile ops opt ?cs2 else (?cs2, Status_OK)) = (cs3, s)" by force
    have i2: "?I chunks1 cur1 ?cs2" using 1(2) by (simp add: out_inv_compaction)
    obtain b where s: "s = Status_OK" "cs_builder cs3 = Some b" and add: "\<And>cs2. cs2 = (let cs2 = (if TableBuilder_NumEntries b = 0
          then update_current_output (\<lambda>out. out \<lparr> out_smallest := ?key \<rparr>) cs3 else cs3);
          cs2 = update_current_output (\<lambda>out. out \<lparr> out_largest := ?key \<rparr>) cs2
        in cs2 \<lparr> cs_builder := Some (TableBuilder_Add (oo_write ops) b ?key ?val) \<rparr>) \<Longrightarrow>
      ?I chunks1 (cur1 @ [(?key, ?val)]) cs2 \<and> cs_compaction cs2 = cs_compaction ?cs2 \<and> cs_smallest_snapshot cs2 = cs_smallest_snapshot ?cs2"
      using open_add [OF interval i2 3, of ?key ?val] by blast
    define cs4 where "cs4 = (update_current_output (\<lambda>out. out \<lparr> out_largest := ?key \<rparr>)
      (if TableBuilder_NumEntries b = 0 then update_current_output (\<lambda>out. out \<lparr> out_smallest := ?key \<rparr>) cs3 else cs3))
        \<lparr> cs_builder := Some (TableBuilder_Add (oo_write ops) b ?key ?val) \<rparr>"
    have 4: "?I chunks1 (cur1 @ [es ! p]) cs4" "cs_compaction cs4 = c \<lparr> c_level_ptrs := ptrs \<rparr>" "cs_smallest_snapshot cs4 = snap"
      using add [of cs4] 1(5) by (simp_all add: cs4_def Let_def)
    have up: "concat chunks1 @ cur1 @ [es ! p] = keeps (Suc p)" using 1(3) False by (simp add: kept_upto_Suc flip: append_assoc)
    have e: "compact_entry ops opt cmp Status_OK ?key ?val (cs, d) =
        (if c_max_output_file_size (cs_compaction cs4) \<le> TableBuilder_FileSize (TableBuilder_Add (oo_write ops) b ?key ?val)
         then map_option (\<lambda>(cs, s). ((cs, d'), s)) (FinishCompactionOutputFile ops Status_OK cs4) else Some ((cs4, d'), Status_OK))"
      by (simp only: step False 3 s simp_thms if_False if_True not_not cs4_def)
    have sub1: "set (cur1 @ [es ! p]) \<subseteq> set es" using up kept_upto_sub [of "Suc p" es cmp snap "base_key cmp v level"] assms(2) by (metis Suc_leI Un_subset_iff set_append)
    obtain cs5 where "FinishCompactionOutputFile ops Status_OK cs4 = Some (cs5, Status_OK)" "?I (chunks1 @ [cur1 @ [es ! p]]) [] cs5"
        "cs_compaction cs5 = cs_compaction cs4" "cs_smallest_snapshot cs5 = cs_smallest_snapshot cs4"
      using Finish_law [OF interval 4(1)] verifies [OF sub1] by auto
    note 5 = this
    have "good (Suc p) cs5 d'"
      unfolding compact_inv_def using 4 5 up 2(2,3) by (intro conjI exI [of _ "chunks1 @ [cur1 @ [es ! p]]"] exI [of _ "[]"]; simp)
    moreover have "good (Suc p) cs4 d'" using 4 up 2(2,3) by (auto simp: compact_inv_def)
    ultimately show ?thesis unfolding e using 5(1) by auto
  qed
qed

end


context user_comparator
begin

lemma base_key_cong:
  assumes "cmp a b = 0"
  shows "base_key cmp v l a = base_key cmp v l b"
proof -
  have ba: "cmp a b \<le> 0" "cmp b a \<le> 0" using assms cmp_eq_sym [of a b] by simp_all
  have "0 \<le> cmp a x \<longleftrightarrow> 0 \<le> cmp b x" for x using cmp_trans ba cmp_flip_le by meson
  moreover have "cmp a x \<le> 0 \<longleftrightarrow> cmp b x \<le> 0" for x using cmp_trans ba by meson
  ultimately show ?thesis by (simp add: base_key_def overlaps_key_def)
qed

end

context compaction_run
begin

lemma good_next_file: "good p (cs \<lparr> cs_next_file := n \<rparr>) d = good p cs d"
  by (simp add: compact_inv_def out_inv_def)

lemma compact_loop_law:
  assumes "cursor ivalid (InternalKey_Compare cmp) iops at" "\<forall>n. \<not> shut n" "at it es p" "good p cs d"
  shows "\<exists>n' it' cs' d'. compact_loop iops ops opt cmp shut imm n it cs d = Some (n', it', cs', Status_OK) \<and> at it' es (length es) \<and> good (length es) cs' d'"
  using assms(3,4)
proof (induction "length es - p" arbitrary: n it cs d p rule: less_induct)
  case less
  note at = cursor.at_valid [OF assms(1) less.prems(1)] cursor.at_le [OF assms(1) less.prems(1)] cursor.at_status [OF assms(1) less.prems(1)]
  show ?case
  proof (cases "p < length es")
    case True
    obtain cs' d' where e: "compact_entry ops opt cmp Status_OK (fst (es ! p)) (snd (es ! p)) (cs \<lparr> cs_next_file := imm n (cs_next_file cs) \<rparr>, d) = Some ((cs', d'), Status_OK)"
        "good (Suc p) cs' d'"
      using compact_entry_law [OF _ True] less.prems(2) good_next_file by blast
    obtain it' where it': "io_Next iops it = Some it'" "at it' es (Suc p)" using cursor.at_next [OF assms(1) less.prems(1) True] by blast
    have "compact_loop iops ops opt cmp shut imm n it cs d = compact_loop iops ops opt cmp shut imm (n + 1) it' cs' d'"
      using True at assms(2) cursor.at_key [OF assms(1) less.prems(1) True] cursor.at_value [OF assms(1) less.prems(1) True] e(1) it'(1)
      by (subst compact_loop.simps) simp
    then show ?thesis using less.hyps [of "Suc p" it' cs' d' "n + 1"] True it'(2) e(2) by simp
  next
    case False
    then have "p = length es" using at(2) by simp
    moreover have "compact_loop iops ops opt cmp shut imm n it cs d = Some (n, it, cs, Status_OK)" using False at(1) by (subst compact_loop.simps) simp
    ultimately show ?thesis using less.prems by blast
  qed
qed

lemma DoCompactionWork_law:
  assumes "cursor ivalid (InternalKey_Compare cmp) iops at" "\<forall>n. \<not> shut n" "at input es j" "snap = oldest_snapshot snapshots last_seq"
    "c_input_version c = Some v" "c_level c = level" "c_level_ptrs c = replicate kNumLevels 0"
  shows "\<exists>cs' chunks. DoCompactionWork iops ops opt cmp shut imm snapshots last_seq input (CompactionState_new c next_file pending) = Some (cs', Status_OK) \<and>
    outputs_ok (oo_write ops) contents writable opt (cs_outputs cs') (cs_files cs') chunks \<and> concat chunks = kept cmp snap (base_key cmp v level) es"
proof -
  obtain it where it: "io_SeekToFirst iops input = Some it" "at it es 0" using cursor.at_first [OF assms(1,3)] by blast
  let ?cs = "CompactionState_new c next_file pending \<lparr> cs_smallest_snapshot := snap \<rparr>"
  have "good 0 ?cs DropState_new"
    unfolding compact_inv_def using assms(5-7)
    by (auto simp: CompactionState_new_def out_inv_def kept_upto_def drop_inv_def DropState_new_def base_inv_def ptrs_ok_def kNumLevels_def intro!: exI [of _ "[]"])
  then obtain n it' cs d where l: "compact_loop iops ops opt cmp shut imm 0 it ?cs DropState_new = Some (n, it', cs, Status_OK)" "at it' es (length es)" "good (length es) cs d"
    using compact_loop_law [OF assms(1,2) it(2)] by blast
  obtain chunks cur where i: "out_inv (oo_write ops) contents writable opt chunks cur cs" "concat chunks @ cur = kept cmp snap (base_key cmp v level) es"
    using l(3) by (auto simp: compact_inv_def kept_def kept_upto_def)
  note st = cursor.at_status [OF assms(1) l(2)]
  show ?thesis
  proof (cases "cur = []")
    case True
    then have "DoCompactionWork iops ops opt cmp shut imm snapshots last_seq input (CompactionState_new c next_file pending) = Some (cs, Status_OK)"
      using it(1) l(1) assms(2,4) i(1) st by (simp add: DoCompactionWork_def out_inv_def)
    then show ?thesis using i True by (auto simp: out_inv_def)
  next
    case False
    have "set cur \<subseteq> set es" using i(2) kept_sub [of cmp snap "base_key cmp v level" es] by (metis Un_subset_iff set_append)
    then obtain cs' where f: "FinishCompactionOutputFile ops Status_OK cs = Some (cs', Status_OK)" "out_inv (oo_write ops) contents writable opt (chunks @ [cur]) [] cs'"
      using Finish_law [OF interval i(1) False] verifies by blast
    have "cs_builder cs \<noteq> None" using i(1) False by (auto simp: out_inv_def)
    then have "DoCompactionWork iops ops opt cmp shut imm snapshots last_seq input (CompactionState_new c next_file pending) = Some (cs', Status_OK)"
      using it(1) l(1) assms(2,4) f(1) st by (simp add: DoCompactionWork_def)
    then show ?thesis using f(2) i(2) by (auto simp: out_inv_def intro!: exI [of _ "chunks @ [cur]"])
  qed
qed

end

subsection \<open>Output files in memory\<close>

definition mem_output_ops :: "FileState output_ops" where
  "mem_output_ops = \<lparr> oo_write = mem_wops, oo_NewWritableFile = (\<lambda>_. (Some FileState_new, Status_OK)), oo_Sync = WritableFileImpl_Sync,
     oo_Close = WritableFileImpl_Close, oo_verify = (\<lambda>_ _ _. Status_OK) \<rparr>"

interpretation mem_output: output_files mem_output_ops file_contents file_wf
  unfolding output_files_def output_files_axioms_def
  using mem_table.table_file_axioms
  by (auto simp: mem_output_ops_def WritableFileImpl_Sync_def WritableFileImpl_Close_def FileState_new_def file_wf_def file_contents_def)

definition empty_version :: Version where
  "empty_version = \<lparr> v_files = replicate kNumLevels [] \<rparr>"

definition compaction_example :: entries where
  "compaction_example = [(InternalKey [6] 4 kTypeValue, [1]), (InternalKey [7] 5 kTypeDeletion, []), (InternalKey [7] 3 kTypeValue, [8])]"

interpretation example_run: compaction_run Bytewise_Compare Bytewise_FindShortestSeparator Bytewise_FindShortSuccessor mem_output_ops file_contents file_wf
    default_options empty_version compaction_example 1 9 valid_ikey
proof (intro compaction_run.intro compaction_run_axioms.intro ubytewise.user_comparator_axioms mem_output.output_files_axioms)
  show "1 \<le> opt_block_restart_interval default_options" by (simp add: default_options_def)
  show "version_ok Bytewise_Compare empty_version" by (auto simp: version_ok_def empty_version_def level_sorted_def kNumLevels_def)
  show "(9 :: uint64) < kMaxSequenceNumber" by (simp add: kMaxSequenceNumber_def)
  show "sorted_entries valid_ikey (InternalKey_Compare Bytewise_Compare) compaction_example"
    by (simp add: compaction_example_def sorted_entries_def ubytewise.ikey_less_iff Bytewise_Compare_def valid_ikey_def PackSequenceAndType_def)
  show "all_parse compaction_example" by (simp add: compaction_example_def all_parse_def ParseInternalKey_make)
qed (simp add: mem_output_ops_def)


subsection \<open>Properties\<close>

text \<open>C0. A compaction that meets no error and is not interrupted ends, and writes exactly the entries it must keep: for every
  input iterator over sorted entries, every comparator, options and files, \<open>DoCompactionWork\<close> returns OK, and its outputs
  are tables that hold, in order and without gaps, all entries but those hidden by a newer entry of the same key that
  every snapshot sees, and deletions every snapshot sees of keys no deeper level has; each output is recorded with its
  first and last key and the length of its file.\<close>

theorem compaction_writes_kept:
  assumes "compaction_run cmp sep succ ops contents writable opt v es snap ivalid" "cursor ivalid (InternalKey_Compare cmp) iops at" "at input es j"
    "\<forall>n. \<not> shut n" "snap = oldest_snapshot snapshots last_seq" "c_input_version c = Some v" "c_level_ptrs c = c_level_ptrs (Compaction_new 0)"
  shows "\<exists>cs' chunks. DoCompactionWork iops ops opt cmp shut imm snapshots last_seq input (CompactionState_new c next_file pending) = Some (cs', Status_OK) \<and>
    outputs_ok (oo_write ops) contents writable opt (cs_outputs cs') (cs_files cs') chunks \<and>
    concat chunks = kept cmp snap (base_key cmp v (c_level c)) es"
  by (rule compaction_run.DoCompactionWork_law [OF assms(1,2,4,3,5,6) refl]) (simp add: assms(7) Compaction_new_def)

text \<open>C0. Compaction preserves reads: let \<open>N\<close> be the entries of everything searched before the inputs, all newer than the
  inputs' entries of the same key, and \<open>D\<close> those of the levels below the output level, all older and each in the key
  range of its file. Then for every key and every sequence number from the oldest live snapshot on, reading from
  \<open>N\<close>, the tables the compaction writes and \<open>D\<close> gives what reading from \<open>N\<close>, the inputs and \<open>D\<close> gave.\<close>

theorem compaction_preserves_reads:
  assumes "compaction_run cmp sep succ ops contents writable opt v es snap ivalid" "cursor ivalid (InternalKey_Compare cmp) iops at" "at input es j"
    "\<forall>n. \<not> shut n" "snap = oldest_snapshot snapshots last_seq" "c_input_version c = Some v" "c_level_ptrs c = c_level_ptrs (Compaction_new 0)"
    "newer cmp N (set es)" "newer cmp (set es) D"
    "\<forall>e\<in>D. \<exists>l f. c_level c + 2 \<le> l \<and> l < kNumLevels \<and> f \<in> set (level_files v l) \<and> overlaps_key cmp (entry_user_key e) f"
  shows "\<exists>cs' chunks. DoCompactionWork iops ops opt cmp shut imm snapshots last_seq input (CompactionState_new c next_file pending) = Some (cs', Status_OK) \<and>
    outputs_ok (oo_write ops) contents writable opt (cs_outputs cs') (cs_files cs') chunks \<and>
    (\<forall>u s. snap \<le> s \<longrightarrow> reads cmp u s (N \<union> set (concat chunks) \<union> D) = reads cmp u s (N \<union> set es \<union> D))"
proof -
  have u: "user_comparator cmp sep succ" and so: "sorted_entries ivalid (InternalKey_Compare cmp) es" "all_parse es"
    using assms(1) by (auto simp: compaction_run_def compaction_run_axioms_def)
  have "\<not> base_key cmp v (c_level c) (entry_user_key e)" if "e \<in> D" for e using assms(10) that by (fastforce simp: base_key_def)
  then have reads: "reads cmp w s (N \<union> set (kept cmp snap (base_key cmp v (c_level c)) es) \<union> D) = reads cmp w s (N \<union> set es \<union> D)" if "snap \<le> s" for w s
    by (intro user_comparator.reads_kept [OF u so that assms(8,9)] user_comparator.base_key_cong [OF u])
  obtain cs' chunks where "DoCompactionWork iops ops opt cmp shut imm snapshots last_seq input (CompactionState_new c next_file pending) = Some (cs', Status_OK)"
      "outputs_ok (oo_write ops) contents writable opt (cs_outputs cs') (cs_files cs') chunks" "concat chunks = kept cmp snap (base_key cmp v (c_level c)) es"
    using compaction_run.DoCompactionWork_law [OF assms(1,2,4,3,5,6) refl, of imm next_file pending] assms(7) by (auto simp: Compaction_new_def)
  then show ?thesis using reads by (metis (no_types, lifting))
qed

definition example_compaction :: Compaction where
  "example_compaction = (Compaction_new 1) \<lparr> c_input_version := Some empty_version \<rparr>"

lemma compaction_example_block:
  "\<exists>i. Block_NewIterator (built_block 1 compaction_example) = Inr i \<and>
    block_at valid_ikey (InternalKey_Compare Bytewise_Compare) i compaction_example (length compaction_example)"
proof (rule built_block_at [OF _ _ ubytewise.ikey_key_order example_run.sorted])
  show "length (built_block 1 compaction_example) < 2 ^ 32"
    by (simp add: compaction_example_def built_block_bytes built_restarts_def built_entry_def entry_bytes_def built_shared_def EncodeVarint32_def upt_rec)
qed simp

lemma compaction_example_kept: "kept Bytewise_Compare 9 (\<lambda>_. True) compaction_example = [(InternalKey [6] 4 kTypeValue, [1])]"
proof -
  have s: "entry_seq (InternalKey u q t, v) = q" if "unat q < 2 ^ 56" for u q t v using drop_Pack that by (simp add: entry_seq_def)
  have u: "[0..<3] = [0, 1, 2 :: nat]" by (simp add: upt_rec)
  let ?d = "dropped Bytewise_Compare 9 (\<lambda>_. True) compaction_example"
  note defs = dropped_def compaction_example_def entry_user_key_def entry_is_value_def ParseInternalKey_make Bytewise_Compare_def s
  have "\<not> ?d 0" "?d 1" by (simp_all add: defs)
  moreover have "?d 2" by (simp add: defs) (intro exI [of _ "1 :: nat"], simp add: s)
  moreover have "kept Bytewise_Compare 9 (\<lambda>_. True) compaction_example = map ((!) compaction_example) (filter (\<lambda>i. \<not> ?d i) [0..<3])"
  proof -
    have "length compaction_example = 3" by (simp add: compaction_example_def)
    then show ?thesis unfolding kept_def by (simp only:)
  qed
  ultimately show ?thesis unfolding u by (simp add: compaction_example_def)
qed

lemma outputs_ok_nonempty: "outputs_ok w co wr op outs nfs ks \<Longrightarrow> [] \<notin> set ks"
  by (induction w co wr op outs nfs ks rule: outputs_ok.induct) (auto simp: output_ok_def)

lemma outputs_ok_one: "outputs_ok w co wr op outs nfs [kvs] \<Longrightarrow> \<exists>out nf. outs = [out] \<and> nfs = [nf] \<and> output_ok w co wr op out nf kvs"
  by (cases outs; cases nfs; cases "tl outs"; cases "tl nfs") auto

lemma concat_single: "concat ks = [e] \<Longrightarrow> [] \<notin> set ks \<Longrightarrow> ks = [[e]]"
  by (cases ks; cases "tl ks") (auto simp: append_eq_Cons_conv)

theorem compaction_writes_kept_witness:
  "\<exists>i cs' out nf. Block_NewIterator (built_block 1 compaction_example) = Inr i \<and>
    DoCompactionWork (block_ops (InternalKey_Compare Bytewise_Compare)) mem_output_ops default_options Bytewise_Compare (\<lambda>_. False) (\<lambda>_ n. n) [] 9 i
      (CompactionState_new example_compaction 20 {}) = Some (cs', Status_OK) \<and> cs_outputs cs' = [out] \<and> cs_files cs' = [nf] \<and>
    output_ok mem_wops file_contents file_wf default_options out nf [(InternalKey [6] 4 kTypeValue, [1])]"
proof -
  obtain i where i: "Block_NewIterator (built_block 1 compaction_example) = Inr i"
      "block_at valid_ikey (InternalKey_Compare Bytewise_Compare) i compaction_example (length compaction_example)" using compaction_example_block by blast
  have b: "base_key Bytewise_Compare empty_version (c_level example_compaction) = (\<lambda>_. True)"
    by (auto simp: base_key_def empty_version_def)
  have c: "9 = oldest_snapshot [] 9" "c_input_version example_compaction = Some empty_version" "c_level_ptrs example_compaction = c_level_ptrs (Compaction_new 0)"
    by (simp_all add: oldest_snapshot_def example_compaction_def Compaction_new_def)
  obtain cs' chunks where r: "DoCompactionWork (block_ops (InternalKey_Compare Bytewise_Compare)) mem_output_ops default_options Bytewise_Compare (\<lambda>_. False) (\<lambda>_ n. n) [] 9 i
        (CompactionState_new example_compaction 20 {}) = Some (cs', Status_OK)"
      "outputs_ok mem_wops file_contents file_wf default_options (cs_outputs cs') (cs_files cs') chunks" "concat chunks = [(InternalKey [6] 4 kTypeValue, [1])]"
    using compaction_writes_kept [OF example_run.compaction_run_axioms block_db.inner.cursor_axioms i(2) _ c, of "\<lambda>_. False" "\<lambda>_ n. n" 20 "{}"]
    unfolding b compaction_example_kept by (auto simp: mem_output_ops_def)
  have "chunks = [[(InternalKey [6] 4 kTypeValue, [1])]]"
  proof (rule concat_single [OF r(3)])
    show "[] \<notin> set chunks" by (rule outputs_ok_nonempty [OF r(2)])
  qed
  then show ?thesis using i(1) r(1,2) outputs_ok_one by blast
qed

theorem compaction_preserves_reads_witness:
  "\<exists>i cs' chunks. Block_NewIterator (built_block 1 compaction_example) = Inr i \<and>
    DoCompactionWork (block_ops (InternalKey_Compare Bytewise_Compare)) mem_output_ops default_options Bytewise_Compare (\<lambda>_. False) (\<lambda>_ n. n) [] 9 i
      (CompactionState_new example_compaction 20 {}) = Some (cs', Status_OK) \<and>
    outputs_ok mem_wops file_contents file_wf default_options (cs_outputs cs') (cs_files cs') chunks \<and>
    reads Bytewise_Compare [7] 9 (set (concat chunks)) = reads Bytewise_Compare [7] 9 (set compaction_example)"
proof -
  obtain i where i: "Block_NewIterator (built_block 1 compaction_example) = Inr i"
      "block_at valid_ikey (InternalKey_Compare Bytewise_Compare) i compaction_example (length compaction_example)" using compaction_example_block by blast
  have c: "9 = oldest_snapshot [] 9" "c_input_version example_compaction = Some empty_version" "c_level_ptrs example_compaction = c_level_ptrs (Compaction_new 0)"
    by (simp_all add: oldest_snapshot_def example_compaction_def Compaction_new_def)
  have "newer Bytewise_Compare {} (set compaction_example)" "newer Bytewise_Compare (set compaction_example) {}" by (simp_all add: newer_def)
  then show ?thesis
    using compaction_preserves_reads [OF example_run.compaction_run_axioms block_db.inner.cursor_axioms i(2) _ c, of "\<lambda>_. False" "{}" "{}" "\<lambda>_ n. n" 20 "{}"] i(1)
    by (fastforce simp: mem_output_ops_def)
qed

end
