(* ===== verification/DbImpl.thy ===== *)
theory DbImpl
  imports Compaction Log
begin

text \<open>
  The database object, \<open>db/db_impl.cc\<close>: snapshots, point lookups, the queue of writers with its grouping of
  batches, and the making of room in the memtable. The log (its file with the log writer), the number of level-0
  files and the background work are arguments or steps of their own; the mutex is held between steps and released
  inside none of them but where the code releases it, which is where another step begins.
\<close>

subsection \<open>Snapshots\<close>

text \<open>The list of live snapshots, oldest first; a snapshot is its address with its number.\<close>

type_synonym SnapshotList = "(nat \<times> uint64) list"

definition SnapshotList_New :: "nat \<Rightarrow> uint64 \<Rightarrow> SnapshotList \<Rightarrow> SnapshotList" where
  "SnapshotList_New a seq l = l @ [(a, seq)]"

definition SnapshotList_Delete :: "nat \<Rightarrow> SnapshotList \<Rightarrow> SnapshotList" where
  "SnapshotList_Delete a l = filter (\<lambda>x. fst x \<noteq> a) l"

subsection \<open>Lookups\<close>

text \<open>The result is \<open>None\<close> where a lookup would read outside its memory; otherwise the status, the caller's string, the
  statistics of the files read, if any, and the state of the table cache.\<close>

definition DBImpl_Get :: "(slice \<Rightarrow> slice \<Rightarrow> int) \<Rightarrow> 'c table_get \<Rightarrow> MemTable \<Rightarrow> MemTable option \<Rightarrow> Version \<Rightarrow> uint64 \<Rightarrow> uint64 option \<Rightarrow> slice \<Rightarrow> slice \<Rightarrow> 'c \<Rightarrow>
    (status \<times> slice \<times> GetStats option \<times> 'c) option" where
  "DBImpl_Get ucmp tget mem imm current last_seq snapshot_option key val cache =
     (let snapshot = (case snapshot_option of Some n \<Rightarrow> n | None \<Rightarrow> last_seq);
          lkey = LookupKey_make key snapshot;
          found = (\<lambda>r. case r of Inr v \<Rightarrow> (Status_OK, v, None, cache) | Inl s \<Rightarrow> (s, val, None, cache))
      in case MemTable_Get ucmp mem lkey of
           None \<Rightarrow> None
         | Some (Some r) \<Rightarrow> Some (found r)
         | Some None \<Rightarrow>
             (case (case imm of None \<Rightarrow> Some None | Some m \<Rightarrow> MemTable_Get ucmp m lkey) of
                None \<Rightarrow> None
              | Some (Some r) \<Rightarrow> Some (found r)
              | Some None \<Rightarrow> map_option (\<lambda>(s, v, stats, c). (s, v, Some stats, c)) (Version_Get ucmp tget current lkey val cache)))"

text \<open>The seek counters, by file number, and the file that has been read too often, with its level.\<close>

record SeekState =
  sk_allowed_seeks :: "uint64 \<Rightarrow> int"
  sk_file_to_compact :: "(FileMetaData \<times> int) option"

definition UpdateStats :: "GetStats \<Rightarrow> SeekState \<Rightarrow> SeekState \<times> bool" where
  "UpdateStats stats st =
     (case seek_file stats of
        None \<Rightarrow> (st, False)
      | Some f \<Rightarrow>
          let n = sk_allowed_seeks st (fm_number f) - 1;
              st = st \<lparr> sk_allowed_seeks := (sk_allowed_seeks st) (fm_number f := n) \<rparr>
          in if n \<le> 0 \<and> sk_file_to_compact st = None then (st \<lparr> sk_file_to_compact := Some (f, seek_file_level stats) \<rparr>, True) else (st, False))"

text \<open>\<open>State::Match\<close>: the first matching file and the number of matches.\<close>

definition RecordReadSample_Match :: "GetStats \<times> nat \<Rightarrow> nat \<Rightarrow> FileMetaData \<Rightarrow> (GetStats \<times> nat) \<times> bool" where
  "RecordReadSample_Match = (\<lambda>(stats, matches) level f.
     let matches = matches + 1;
         stats = (if matches = 1 then \<lparr> seek_file = Some f, seek_file_level = int level \<rparr> else stats)
     in ((stats, matches), matches < 2))"

definition RecordReadSample :: "(slice \<Rightarrow> slice \<Rightarrow> int) \<Rightarrow> Version \<Rightarrow> slice \<Rightarrow> SeekState \<Rightarrow> (SeekState \<times> bool) option" where
  "RecordReadSample ucmp v ikey_bytes st =
     (case ParseInternalKey ikey_bytes of
        None \<Rightarrow> Some (st, False)
      | Some ikey \<Rightarrow>
          (case ForEachOverlapping ucmp v (user_key ikey) ikey_bytes RecordReadSample_Match (\<lparr> seek_file = None, seek_file_level = -1 \<rparr>, 0) of
             None \<Rightarrow> None
           | Some (stats, matches) \<Rightarrow> Some (if 2 \<le> matches then UpdateStats stats st else (st, False))))"

subsection \<open>Writers\<close>

definition kL0_SlowdownWritesTrigger :: nat where "kL0_SlowdownWritesTrigger = 8"
definition kL0_StopWritesTrigger :: nat where "kL0_StopWritesTrigger = 12"

record DBImpl_Writer =
  wr_batch :: "slice option"
  wr_sync :: bool

text \<open>What the writer at the front of the queue does: it waits for its turn, is in \<open>MakeRoomForWrite\<close> with its two variables, or has
  released the mutex to log the group of the first \<open>k\<close> writers.\<close>

datatype WriterPc = Waiting | MakingRoom bool bool | Logging slice nat bool

record 'l DbState =
  db_writers :: "DBImpl_Writer list"
  db_pc :: WriterPc
  db_mem :: MemTable
  db_imm :: "MemTable option"
  db_last_sequence :: uint64
  db_log :: 'l
  db_logfile_number :: uint64
  db_next_file :: uint64
  db_tmp_batch :: slice
  db_bg_error :: status
  db_done :: "(DBImpl_Writer \<times> status) list"

text \<open>The log: a new log file with its writer, a record, a sync.\<close>

record 'l log_ops =
  lo_New :: "uint64 \<Rightarrow> 'l option \<times> status"
  lo_AddRecord :: "'l \<Rightarrow> slice \<Rightarrow> 'l \<times> status"
  lo_Sync :: "'l \<Rightarrow> 'l \<times> status"

fun group_loop :: "bool \<Rightarrow> slice \<Rightarrow> slice \<Rightarrow> nat \<Rightarrow> DBImpl_Writer list \<Rightarrow> nat \<Rightarrow> slice \<times> nat \<times> bool \<Rightarrow> slice \<times> nat \<times> bool" where
  "group_loop first_sync first_batch tmp max_size [] sz (result, k, used) = (result, k, used)"
| "group_loop first_sync first_batch tmp max_size (w # ws) sz (result, k, used) =
     (if wr_sync w \<and> \<not> first_sync then (result, k, used)
      else case wr_batch w of
             None \<Rightarrow> group_loop first_sync first_batch tmp max_size ws sz (result, k + 1, used)
           | Some b \<Rightarrow>
               let sz = sz + length b
               in if max_size < sz then (result, k, used)
                  else let result = (if used then result else WriteBatch_Append tmp first_batch)
                       in group_loop first_sync first_batch tmp max_size ws sz (WriteBatch_Append result b, k + 1, True))"

text \<open>The batch of the group, the number of writers in it, and whether the batch is \<open>tmp_batch_\<close>.\<close>

definition BuildBatchGroup :: "DBImpl_Writer list \<Rightarrow> slice \<Rightarrow> (slice \<times> nat \<times> bool) option" where
  "BuildBatchGroup writers tmp =
     (case writers of
        [] \<Rightarrow> None
      | w # ws \<Rightarrow>
          (case wr_batch w of
             None \<Rightarrow> None
           | Some first_batch \<Rightarrow>
               let sz = length first_batch;
                   max_size = (if sz \<le> 131072 then sz + 131072 else 1048576)
               in Some (group_loop (wr_sync w) first_batch tmp max_size ws sz (first_batch, 1, False))))"

definition RecordBackgroundError :: "status \<Rightarrow> 'l DbState \<Rightarrow> 'l DbState" where
  "RecordBackgroundError s db = (if Status_ok (db_bg_error db) then db \<lparr> db_bg_error := s \<rparr> else db)"

text \<open>The end of \<open>Write\<close>: the writers of the group are taken from the queue and told the status.\<close>

definition finish_group :: "nat \<Rightarrow> status \<Rightarrow> 'l DbState \<Rightarrow> 'l DbState" where
  "finish_group k s db =
     db \<lparr> db_done := db_done db @ map (\<lambda>w. (w, s)) (take k (db_writers db)), db_writers := drop k (db_writers db), db_pc := Waiting \<rparr>"

datatype RoomAction = RoomError | RoomDelay | RoomReady | RoomWait | RoomSwitch

definition MakeRoom_action :: "status \<Rightarrow> bool \<Rightarrow> bool \<Rightarrow> nat \<Rightarrow> nat \<Rightarrow> nat \<Rightarrow> bool \<Rightarrow> RoomAction" where
  "MakeRoom_action bg_error force allow_delay l0_files usage write_buffer_size has_imm =
     (if \<not> Status_ok bg_error then RoomError
      else if allow_delay \<and> kL0_SlowdownWritesTrigger \<le> l0_files then RoomDelay
      else if \<not> force \<and> usage \<le> write_buffer_size then RoomReady
      else if has_imm then RoomWait
      else if kL0_StopWritesTrigger \<le> l0_files then RoomWait
      else RoomSwitch)"

text \<open>The part of \<open>Write\<close> between \<open>MakeRoomForWrite\<close> and the release of the mutex.\<close>

definition Write_group :: "'l DbState \<Rightarrow> 'l DbState option" where
  "Write_group db =
     (case db_writers db of
        [] \<Rightarrow> None
      | w # _ \<Rightarrow>
          if wr_batch w = None then Some (finish_group 1 Status_OK db)
          else case BuildBatchGroup (db_writers db) (db_tmp_batch db) of
                 None \<Rightarrow> None
               | Some (updates, k, used) \<Rightarrow>
                   let updates = WriteBatch_SetSequence updates (db_last_sequence db + 1)
                   in Some (db \<lparr> db_pc := Logging updates k used, db_tmp_batch := (if used then updates else db_tmp_batch db) \<rparr>))"

text \<open>One round of the loop of \<open>MakeRoomForWrite\<close>.\<close>

definition MakeRoom_round :: "'l log_ops \<Rightarrow> new_char \<Rightarrow> nat \<Rightarrow> nat \<Rightarrow> 'l DbState \<Rightarrow> 'l DbState option" where
  "MakeRoom_round lops new write_buffer_size l0_files db =
     (case db_pc db of
        MakingRoom force allow_delay \<Rightarrow>
          (case MakeRoom_action (db_bg_error db) force allow_delay l0_files (ApproximateMemoryUsage (db_mem db)) write_buffer_size (db_imm db \<noteq> None) of
             RoomError \<Rightarrow> Some (finish_group 1 (db_bg_error db) db)
           | RoomDelay \<Rightarrow> Some (db \<lparr> db_pc := MakingRoom force False \<rparr>)
           | RoomReady \<Rightarrow> Write_group db
           | RoomWait \<Rightarrow> Some db
           | RoomSwitch \<Rightarrow>
               let (next_file, new_log_number) = NewFileNumber (db_next_file db);
                   db = db \<lparr> db_next_file := next_file \<rparr>
               in case lo_New lops new_log_number of
                    (lfile, s) \<Rightarrow>
                      if \<not> Status_ok s then Some (finish_group 1 s (db \<lparr> db_next_file := ReuseFileNumber next_file new_log_number \<rparr>))
                      else (case lfile of
                              None \<Rightarrow> None
                            | Some l \<Rightarrow> Some (db \<lparr> db_log := l, db_logfile_number := new_log_number, db_imm := Some (db_mem db),
                                               db_mem := MemTable_Ref (MemTable_new new), db_pc := MakingRoom False allow_delay \<rparr>)))
      | _ \<Rightarrow> None)"

text \<open>The logging of a group, its insertion into the memtable and the end of \<open>Write\<close>.\<close>

definition Write_log :: "'l log_ops \<Rightarrow> new_char \<Rightarrow> (slice \<Rightarrow> slice \<Rightarrow> int) \<Rightarrow> 'l DbState \<Rightarrow> 'l DbState option" where
  "Write_log lops new ucmp db =
     (case (db_pc db, db_writers db) of
        (Logging updates k used, w # _) \<Rightarrow>
          let (l, s) = lo_AddRecord lops (db_log db) updates;
              (l, s, sync_error) = (if Status_ok s \<and> wr_sync w then (case lo_Sync lops l of (l, s) \<Rightarrow> (l, s, \<not> Status_ok s)) else (l, s, False));
              (mem, s) = (if Status_ok s then WriteBatch_InsertInto (memtable_adder new ucmp) updates (Some (db_mem db)) else (Some (db_mem db), s))
          in (case mem of
                None \<Rightarrow> None
              | Some mem \<Rightarrow>
                  let db = db \<lparr> db_log := l, db_mem := mem \<rparr>;
                      db = (if sync_error then RecordBackgroundError s db else db);
                      db = db \<lparr> db_tmp_batch := (if used then WriteBatch_Clear else db_tmp_batch db),
                                db_last_sequence := db_last_sequence db + scast (WriteBatch_Count updates) \<rparr>
                  in Some (finish_group k s db))
      | _ \<Rightarrow> None)"

text \<open>The steps of the writer at the front of the queue and of the background thread, which empties the immutable memtable and
  reports errors; the number of level-0 files is whatever the background thread has left.\<close>

inductive write_step :: "'l log_ops \<Rightarrow> new_char \<Rightarrow> (slice \<Rightarrow> slice \<Rightarrow> int) \<Rightarrow> nat \<Rightarrow> 'l DbState \<Rightarrow> 'l DbState \<Rightarrow> bool" for lops new ucmp buffer where
  Turn: "db_pc db = Waiting \<Longrightarrow> db_writers db = w # ws \<Longrightarrow>
    write_step lops new ucmp buffer db (db \<lparr> db_pc := MakingRoom (wr_batch w = None) (wr_batch w \<noteq> None) \<rparr>)"
| Room: "MakeRoom_round lops new buffer l0_files db = Some db' \<Longrightarrow> write_step lops new ucmp buffer db db'"
| Log: "Write_log lops new ucmp db = Some db' \<Longrightarrow> write_step lops new ucmp buffer db db'"
| Flushed: "write_step lops new ucmp buffer db (db \<lparr> db_imm := None \<rparr>)"
| BackgroundError: "write_step lops new ucmp buffer db (RecordBackgroundError s db)"

text \<open>The start of a call of \<open>Write\<close>.\<close>

definition Write_enqueue :: "DBImpl_Writer \<Rightarrow> 'l DbState \<Rightarrow> 'l DbState" where
  "Write_enqueue w db = db \<lparr> db_writers := db_writers db @ [w] \<rparr>"

text \<open>The states reached from \<open>start\<close> after the calls of \<open>Write\<close> with the writers \<open>ws\<close>, in the order of their arrival.\<close>

inductive serves :: "'l log_ops \<Rightarrow> new_char \<Rightarrow> (slice \<Rightarrow> slice \<Rightarrow> int) \<Rightarrow> nat \<Rightarrow> 'l DbState \<Rightarrow> DBImpl_Writer list \<Rightarrow> 'l DbState \<Rightarrow> bool" for lops new ucmp buffer start where
  Start: "serves lops new ucmp buffer start [] start"
| Arrive: "serves lops new ucmp buffer start ws db \<Longrightarrow> serves lops new ucmp buffer start (ws @ [w]) (Write_enqueue w db)"
| Step: "serves lops new ucmp buffer start ws db \<Longrightarrow> write_step lops new ucmp buffer db db' \<Longrightarrow> serves lops new ucmp buffer start ws db'"


subsection \<open>Groups of batches\<close>

text \<open>The updates in a batch, and a call of \<open>Write\<close> whose batch was made by \<open>Put\<close> and \<open>Delete\<close> and whose count fits an \<open>int\<close>.\<close>

definition batch_updates :: "slice \<Rightarrow> Update list" where
  "batch_updates rep = fst (WriteBatch_Iterate (\<lambda>h k v. h @ [UPut k v]) (\<lambda>h k. h @ [UDelete k]) rep [])"

definition writer_updates :: "DBImpl_Writer \<Rightarrow> Update list" where
  "writer_updates w = (case wr_batch w of None \<Rightarrow> [] | Some b \<Rightarrow> batch_updates b)"

definition writer_ok :: "DBImpl_Writer \<Rightarrow> bool" where
  "writer_ok w \<longleftrightarrow> (case wr_batch w of None \<Rightarrow> True | Some b \<Rightarrow> length b < 2 ^ 31 \<and> (\<exists>s us. is_batch b s us))"

definition group_updates :: "DBImpl_Writer list \<Rightarrow> Update list" where
  "group_updates ws = concat (map writer_updates ws)"

lemma group_updates_simps [simp]:
  "group_updates [] = []" "group_updates (w # ws) = writer_updates w @ group_updates ws" "group_updates (xs @ ys) = group_updates xs @ group_updates ys"
  by (simp_all add: group_updates_def)

lemma fold_collect: "fold (handle (\<lambda>h k v. h @ [UPut k v]) (\<lambda>h k. h @ [UDelete k])) us h = h @ us"
proof (induction us arbitrary: h)
  case (Cons u us)
  then show ?case by (cases u) simp_all
qed simp

lemma update_bytes_length: "length (update_key u) < length (update_bytes u)"
  by (cases u) (simp_all add: PutLengthPrefixedSlice_def)

lemma update_bytes_small: "length (update_bytes u) < 2 ^ 31 \<Longrightarrow> small u \<and> length (update_key u) + 8 < 2 ^ 32"
  by (cases u) (simp_all add: PutLengthPrefixedSlice_def)

lemma is_batch_updates:
  assumes "is_batch b s us" "length b < 2 ^ 31"
  shows "\<forall>u\<in>set us. small u \<and> length (update_key u) + 8 < 2 ^ 32" "batch_updates b = us" "length us \<le> length b"
proof -
  have len: "length (update_bytes u) \<le> length (concat (map update_bytes us))" if "u \<in> set us" for u
    using that by (induction us) auto
  show a: "\<forall>u\<in>set us. small u \<and> length (update_key u) + 8 < 2 ^ 32"
  proof
    fix u
    assume "u \<in> set us"
    then have "length (update_bytes u) < 2 ^ 31" using len [of u] assms by (simp add: is_batch_def)
    then show "small u \<and> length (update_key u) + 8 < 2 ^ 32" by (rule update_bytes_small)
  qed
  show "batch_updates b = us" using a by (simp add: batch_updates_def Iterate_batch [OF assms(1)] fold_collect)
  have "length us \<le> length (concat (map update_bytes us))"
  proof (induction us)
    case (Cons u us)
    have "1 \<le> length (update_bytes u)" by (cases u) simp_all
    then show ?case using Cons by simp
  qed simp
  then show "length us \<le> length b" using assms(1) by (simp add: is_batch_def)
qed

lemma writer_updates_batch:
  assumes "writer_ok w" "wr_batch w = Some b"
  shows "\<exists>s. is_batch b s (writer_updates w)" "length (writer_updates w) \<le> length b"
    "\<forall>u\<in>set (writer_updates w). small u \<and> length (update_key u) + 8 < 2 ^ 32"
  using assms is_batch_updates by (auto simp: writer_ok_def writer_updates_def)

lemma writer_updates_small: "writer_ok w \<Longrightarrow> \<forall>u\<in>set (writer_updates w). small u \<and> length (update_key u) + 8 < 2 ^ 32"
  using writer_updates_batch(3) by (cases "wr_batch w") (auto simp: writer_updates_def)

lemma group_loop_law:
  assumes "is_batch tmp t []" "is_batch first s0 us0" "\<forall>w\<in>set ws. writer_ok w" "max_size < 2 ^ 31"
    and "is_batch result s us" "\<not> used \<longrightarrow> us = us0" "length us \<le> sz" "length us < 2 ^ 31"
    and "group_loop first_sync first tmp max_size ws sz (result, k, used) = (result', k', used')"
  shows "\<exists>n\<le>length ws. k' = k + n \<and> (\<exists>s. is_batch result' s (us @ group_updates (take n ws))) \<and> length (us @ group_updates (take n ws)) < 2 ^ 31"
  using assms(3-)
proof (induction ws arbitrary: sz result k used s us)
  case Nil
  then show ?case by auto
next
  case (Cons w ws)
  show ?case
  proof (cases "wr_sync w \<and> \<not> first_sync")
    case True
    then show ?thesis using Cons.prems by (intro exI [of _ 0]) auto
  next
    case False
    show ?thesis
    proof (cases "wr_batch w")
      case None
      then have u: "writer_updates w = []" by (simp add: writer_updates_def)
      have "group_loop first_sync first tmp max_size ws sz (result, k + 1, used) = (result', k', used')"
        using Cons.prems(7) False None by simp
      from Cons.IH [OF _ Cons.prems(2,3,4,5,6) this] Cons.prems(1) obtain n where "n \<le> length ws" "k' = k + 1 + n"
          "\<exists>s. is_batch result' s (us @ group_updates (take n ws))" "length (us @ group_updates (take n ws)) < 2 ^ 31" by auto
      then show ?thesis using u by (intro exI [of _ "Suc n"]) auto
    next
      case (Some b)
      show ?thesis
      proof (cases "max_size < sz + length b")
        case True
        then show ?thesis using Cons.prems False Some by (intro exI [of _ 0]) (auto simp: Let_def)
      next
        case fits: False
        let ?r = "if used then result else WriteBatch_Append tmp first"
        obtain s1 where s1: "is_batch ?r s1 us" using Cons.prems(3,4) is_batch_Append [OF assms(1,2)] by (cases used) auto
        obtain s2 where s2: "is_batch b s2 (writer_updates w)" using writer_updates_batch [OF _ Some] Cons.prems(1) by auto
        have app: "is_batch (WriteBatch_Append ?r b) s1 (us @ writer_updates w)" using is_batch_Append [OF s1 s2] .
        have l: "length (us @ writer_updates w) \<le> sz + length b" using Cons.prems(1,5) writer_updates_batch(2) [OF _ Some] by simp
        have l2: "length (us @ writer_updates w) < 2 ^ 31" using l fits Cons.prems(2) by simp
        have "group_loop first_sync first tmp max_size ws (sz + length b) (WriteBatch_Append ?r b, k + 1, True) = (result', k', used')"
          using Cons.prems(7) False Some fits by (simp add: Let_def)
        from Cons.IH [OF _ Cons.prems(2) app _ l l2 this] Cons.prems(1) obtain n where "n \<le> length ws" "k' = k + 1 + n"
          "\<exists>s. is_batch result' s ((us @ writer_updates w) @ group_updates (take n ws))" "length ((us @ writer_updates w) @ group_updates (take n ws)) < 2 ^ 31" by auto
        then show ?thesis by (intro exI [of _ "Suc n"]) auto
      qed
    qed
  qed
qed

lemma BuildBatchGroup_law:
  assumes "is_batch tmp t []" "\<forall>w\<in>set ws. writer_ok w" "BuildBatchGroup ws tmp = Some (updates, k, used)"
  shows "1 \<le> k \<and> k \<le> length ws \<and> (\<exists>s. is_batch updates s (group_updates (take k ws))) \<and> length (group_updates (take k ws)) < 2 ^ 31"
proof -
  obtain w rest b where w: "ws = w # rest" "wr_batch w = Some b"
    using assms(3) by (auto simp: BuildBatchGroup_def split: list.splits option.splits)
  let ?max = "if length b \<le> 131072 then length b + 131072 else 1048576"
  have g: "group_loop (wr_sync w) b tmp ?max rest (length b) (b, 1, False) = (updates, k, used)"
    using assms(3) w by (simp add: BuildBatchGroup_def Let_def)
  obtain s where s: "is_batch b s (writer_updates w)" "length (writer_updates w) \<le> length b" "length b < 2 ^ 31"
    using writer_updates_batch [OF _ w(2)] assms(2) w by (auto simp: writer_ok_def)
  have m: "?max < 2 ^ 31" by simp
  have l: "length (writer_updates w) < 2 ^ 31" using s(2,3) by simp
  have "\<exists>n\<le>length rest. k = 1 + n \<and> (\<exists>s. is_batch updates s (writer_updates w @ group_updates (take n rest))) \<and>
      length (writer_updates w @ group_updates (take n rest)) < 2 ^ 31"
    by (rule group_loop_law [OF assms(1) s(1) _ m s(1) _ s(2) l g]) (use assms(2) w in simp_all)
  then show ?thesis using w(1) by auto
qed


subsection \<open>The invariant of the writers' queue\<close>

text \<open>The updates that have been reported as written, in the order of the calls.\<close>

definition written_updates :: "'l DbState \<Rightarrow> Update list" where
  "written_updates db = group_updates (map fst (filter (\<lambda>x. Status_ok (snd x)) (db_done db)))"

text \<open>The additions the memtables were filled with: what has left for a file, the immutable memtable and the active one.\<close>

definition mem_of :: "new_char \<Rightarrow> (slice \<Rightarrow> slice \<Rightarrow> int) \<Rightarrow> mem_add list \<Rightarrow> MemTable \<Rightarrow> bool" where
  "mem_of new ucmp as m \<longleftrightarrow> mem_add_all new ucmp as (MemTable_Ref (MemTable_new new)) = Some m"

definition tables_of :: "new_char \<Rightarrow> (slice \<Rightarrow> slice \<Rightarrow> int) \<Rightarrow> 'l DbState \<Rightarrow> mem_add list \<Rightarrow> mem_add list \<Rightarrow> mem_add list \<Rightarrow> bool" where
  "tables_of new ucmp db F I M \<longleftrightarrow> mem_of new ucmp M (db_mem db) \<and> (case db_imm db of None \<Rightarrow> I = [] | Some m \<Rightarrow> mem_of new ucmp I m)"

definition numbered :: "uint64 \<Rightarrow> uint64 \<Rightarrow> uint64 list \<Rightarrow> bool" where
  "numbered lo hi qs \<longleftrightarrow> sorted_wrt (<) qs \<and> (\<forall>q\<in>set qs. lo < q \<and> q \<le> hi)"

definition stored_writes :: "new_char \<Rightarrow> (slice \<Rightarrow> slice \<Rightarrow> int) \<Rightarrow> uint64 \<Rightarrow> 'l DbState \<Rightarrow> bool" where
  "stored_writes new ucmp lo db \<longleftrightarrow> (\<exists>F I M qs. tables_of new ucmp db F I M \<and> numbered lo (db_last_sequence db) qs \<and>
     length qs = length (written_updates db) \<and> F @ I @ M = map2 update_add qs (written_updates db))"

definition pc_ok :: "'l DbState \<Rightarrow> bool" where
  "pc_ok db \<longleftrightarrow>
     (case db_pc db of
        Waiting \<Rightarrow> db_tmp_batch db = WriteBatch_Clear
      | MakingRoom force allow_delay \<Rightarrow> db_tmp_batch db = WriteBatch_Clear \<and> db_writers db \<noteq> []
      | Logging updates k used \<Rightarrow> 1 \<le> k \<and> k \<le> length (db_writers db) \<and> (\<not> used \<longrightarrow> db_tmp_batch db = WriteBatch_Clear) \<and>
          is_batch updates (db_last_sequence db + 1) (group_updates (take k (db_writers db))) \<and> length (group_updates (take k (db_writers db))) < 2 ^ 31)"

text \<open>The sequence numbers that are still to be given out.\<close>

definition room_for :: "uint64 \<Rightarrow> DBImpl_Writer list \<Rightarrow> 'l DbState \<Rightarrow> bool" where
  "room_for lo ws db \<longleftrightarrow> lo \<le> db_last_sequence db \<and>
     unat (db_last_sequence db) + length (group_updates (db_writers db)) \<le> unat lo + length (group_updates ws)"

definition queue_inv :: "new_char \<Rightarrow> (slice \<Rightarrow> slice \<Rightarrow> int) \<Rightarrow> uint64 \<Rightarrow> DBImpl_Writer list \<Rightarrow> 'l DbState \<Rightarrow> bool" where
  "queue_inv new ucmp lo ws db \<longleftrightarrow> map fst (db_done db) @ db_writers db = ws \<and> pc_ok db \<and> room_for lo ws db \<and> stored_writes new ucmp lo db"

lemma mem_of_holds:
  assumes "user_comparator ucmp sep succ" "\<forall>a\<in>set as. add_ok a" "distinct_adds ucmp as"
  shows "\<exists>m ks. mem_of new ucmp as m \<and> mem_holds ucmp m ks as"
proof -
  have "mem_holds ucmp (MemTable_Ref (MemTable_new new)) [] []"
    using user_comparator.mem_new [OF assms(1), of new] by (simp add: mem_holds_def MemTable_Ref_def)
  then show ?thesis using user_comparator.mem_add_all_from [OF assms(1) _ assms(2,3)] by (auto simp: mem_of_def)
qed

lemma finish_group_fields [simp]:
  "db_mem (finish_group k s db) = db_mem db" "db_imm (finish_group k s db) = db_imm db" "db_last_sequence (finish_group k s db) = db_last_sequence db"
  "db_tmp_batch (finish_group k s db) = db_tmp_batch db" "db_pc (finish_group k s db) = Waiting" "db_writers (finish_group k s db) = drop k (db_writers db)"
  "db_done (finish_group k s db) = db_done db @ map (\<lambda>w. (w, s)) (take k (db_writers db))"
  "db_log (finish_group k s db) = db_log db" "db_bg_error (finish_group k s db) = db_bg_error db"
  by (simp_all add: finish_group_def)

lemma finish_group_writers: "map fst (db_done (finish_group k s db)) @ db_writers (finish_group k s db) = map fst (db_done db) @ db_writers db"
  by (simp add: comp_def)

lemma finish_group_written:
  "written_updates (finish_group k s db) = written_updates db @ (if Status_ok s then group_updates (take k (db_writers db)) else [])"
  by (simp add: written_updates_def filter_map comp_def)

lemma stored_cong:
  assumes "stored_writes new ucmp lo db" "db_mem db' = db_mem db" "db_imm db' = db_imm db" "db_last_sequence db' = db_last_sequence db"
    "written_updates db' = written_updates db"
  shows "stored_writes new ucmp lo db'"
  using assms by (simp add: stored_writes_def tables_of_def)

lemma pc_ok_cong:
  "db_pc db' = db_pc db \<Longrightarrow> db_tmp_batch db' = db_tmp_batch db \<Longrightarrow> db_writers db' = db_writers db \<Longrightarrow> db_last_sequence db' = db_last_sequence db \<Longrightarrow>
    pc_ok db' = pc_ok db"
  by (simp add: pc_ok_def split: WriterPc.split)

lemma is_batch_sequence_eq: "is_batch b q us \<Longrightarrow> b = WriteBatch_SetSequence (batch_of us) q"
  using is_batch_SetSequence [OF is_batch_of [of us], of q] by (simp add: is_batch_def)

lemma batch_adds_map2: "batch_adds q us = map2 update_add (map (\<lambda>i. q + word_of_nat i) [0..<length us]) us"
  by (rule nth_equalityI) (simp_all add: batch_adds_def)

lemma mem_add_all_append: "mem_add_all new ucmp (as @ bs) m = Option.bind (mem_add_all new ucmp as m) (mem_add_all new ucmp bs)"
proof -
  have "fold (\<lambda>(s, t, k, v) mo. Option.bind mo (\<lambda>m. MemTable_Add new ucmp m s t k v)) bs None = None" for bs
    by (induction bs) auto
  then show ?thesis by (cases "mem_add_all new ucmp as m") (simp_all add: mem_add_all_def)
qed

lemma numbered_extend:
  assumes "numbered lo hi qs" "lo \<le> hi" "unat hi + n < 2 ^ 56"
  shows "numbered lo (hi + word_of_nat n) (qs @ map (\<lambda>i. hi + 1 + word_of_nat i) [0..<n])"
proof -
  have un: "unat (hi + 1 + word_of_nat i) = unat hi + 1 + i" if "i < n" for i
    using assms(3) that by (simp add: unat_word_ariths unat_of_nat take_bit_nat_eq_self)
  have unn: "unat (hi + word_of_nat n) = unat hi + n" using assms(3) by (simp add: unat_word_ariths unat_of_nat take_bit_nat_eq_self)
  have "sorted_wrt (<) (map (\<lambda>i. hi + 1 + word_of_nat i) [0..<n])"
    unfolding sorted_wrt_map using un by (auto simp: sorted_wrt_iff_nth_less word_less_nat_alt)
  then show ?thesis using assms(1,2) un unn
    by (fastforce simp: numbered_def sorted_wrt_append word_less_nat_alt word_le_nat_alt)
qed

lemma scast_count: "n < 2 ^ 31 \<Longrightarrow> scast (word_of_nat n :: uint32) = (word_of_nat n :: uint64)"
  by (simp add: signed_of_nat signed_take_bit_int_eq_self)


lemma queue_inv_finish:
  assumes "queue_inv new ucmp lo ws db" "\<not> Status_ok s \<or> group_updates (take k (db_writers db)) = []" "db_tmp_batch db = WriteBatch_Clear"
  shows "queue_inv new ucmp lo ws (finish_group k s db)"
proof -
  have "length (group_updates (drop k (db_writers db))) \<le> length (group_updates (db_writers db))"
    by (metis append_take_drop_id group_updates_simps(3) length_append le_add2)
  then have "room_for lo ws (finish_group k s db)" using assms(1) by (simp add: queue_inv_def room_for_def)
  moreover have "stored_writes new ucmp lo (finish_group k s db)"
    by (rule stored_cong [of _ _ _ db]) (use assms(1,2) in \<open>auto simp: queue_inv_def finish_group_written\<close>)
  ultimately show ?thesis using assms(1,3) finish_group_writers [of k s db] by (simp add: queue_inv_def pc_ok_def comp_def)
qed

text \<open>Fields the invariant does not look at.\<close>

lemma queue_inv_cong:
  assumes "queue_inv new ucmp lo ws db" "db_writers db' = db_writers db" "db_done db' = db_done db" "db_mem db' = db_mem db" "db_imm db' = db_imm db"
    "db_last_sequence db' = db_last_sequence db" "pc_ok db'"
  shows "queue_inv new ucmp lo ws db'"
proof -
  have "stored_writes new ucmp lo db'" by (rule stored_cong [of _ _ _ db]) (use assms in \<open>simp_all add: queue_inv_def written_updates_def\<close>)
  then show ?thesis using assms by (simp add: queue_inv_def room_for_def)
qed

lemma queue_inv_group:
  assumes "queue_inv new ucmp lo ws db" "\<forall>w\<in>set ws. writer_ok w" "db_pc db = MakingRoom f d" "Write_group db = Some db'"
  shows "queue_inv new ucmp lo ws db'"
proof -
  obtain w rest where w: "db_writers db = w # rest" using assms(4) by (auto simp: Write_group_def split: list.splits)
  have tmp: "db_tmp_batch db = WriteBatch_Clear" using assms(1,3) by (simp add: queue_inv_def pc_ok_def)
  show ?thesis
  proof (cases "wr_batch w")
    case None
    then have "db' = finish_group 1 Status_OK db" "group_updates (take 1 (db_writers db)) = []"
      using assms(4) w by (simp_all add: Write_group_def writer_updates_def)
    then show ?thesis using queue_inv_finish [OF assms(1) _ tmp] by simp
  next
    case (Some b)
    then obtain up k used where g: "BuildBatchGroup (db_writers db) (db_tmp_batch db) = Some (up, k, used)"
        "db' = db \<lparr> db_pc := Logging (WriteBatch_SetSequence up (db_last_sequence db + 1)) k used,
                    db_tmp_batch := (if used then WriteBatch_SetSequence up (db_last_sequence db + 1) else db_tmp_batch db) \<rparr>"
      using assms(4) w by (auto simp: Write_group_def Let_def split: option.splits)
    have "\<forall>w\<in>set (db_writers db). writer_ok w" using assms(1,2) by (auto simp: queue_inv_def)
    from BuildBatchGroup_law [OF _ this g(1)] tmp is_batch_Clear
    have "1 \<le> k \<and> k \<le> length (db_writers db) \<and> (\<exists>s. is_batch up s (group_updates (take k (db_writers db)))) \<and>
        length (group_updates (take k (db_writers db))) < 2 ^ 31" by metis
    then have "pc_ok db'" using is_batch_SetSequence tmp by (auto simp: g(2) pc_ok_def)
    then show ?thesis by (intro queue_inv_cong [OF assms(1)]) (simp_all add: g(2))
  qed
qed

lemma queue_inv_switch:
  assumes "queue_inv new ucmp lo ws db" "db_imm db = None" "db_pc db = MakingRoom f d"
  shows "queue_inv new ucmp lo ws (db \<lparr> db_next_file := nf, db_log := l, db_logfile_number := n, db_imm := Some (db_mem db), db_mem := MemTable_Ref (MemTable_new new),
    db_pc := MakingRoom f' d' \<rparr>)" (is "queue_inv _ _ _ _ ?db")
proof -
  obtain F I M qs where s: "tables_of new ucmp db F I M" "numbered lo (db_last_sequence db) qs"
      "length qs = length (written_updates db)" "F @ I @ M = map2 update_add qs (written_updates db)"
    using assms(1) by (auto simp: queue_inv_def stored_writes_def)
  have "tables_of new ucmp ?db F M []" "I = []" using s(1) assms(2) by (simp_all add: tables_of_def mem_of_def mem_add_all_def)
  moreover have "written_updates ?db = written_updates db" by (simp add: written_updates_def)
  ultimately have "stored_writes new ucmp lo ?db" unfolding stored_writes_def using s(2-4)
    by (intro exI [of _ F] exI [of _ M] exI [of _ "[]"] exI [of _ qs]) simp
  then show ?thesis using assms by (simp add: queue_inv_def room_for_def pc_ok_def)
qed

lemma queue_inv_room:
  assumes "queue_inv new ucmp lo ws db" "\<forall>w\<in>set ws. writer_ok w" "MakeRoom_round lops new buffer l0 db = Some db'"
  shows "queue_inv new ucmp lo ws db'"
proof -
  obtain f d where pc: "db_pc db = MakingRoom f d" using assms(3) by (auto simp: MakeRoom_round_def split: WriterPc.splits)
  have tmp: "db_tmp_batch db = WriteBatch_Clear" using assms(1) pc by (simp add: queue_inv_def pc_ok_def)
  let ?a = "MakeRoom_action (db_bg_error db) f d l0 (ApproximateMemoryUsage (db_mem db)) buffer (db_imm db \<noteq> None)"
  show ?thesis
  proof (cases ?a)
    case RoomError
    then have "\<not> Status_ok (db_bg_error db)" by (auto simp: MakeRoom_action_def split: if_splits)
    then show ?thesis using assms(3) pc RoomError queue_inv_finish [OF assms(1) _ tmp] by (auto simp: MakeRoom_round_def)
  next
    case RoomDelay
    then show ?thesis using assms(3) pc tmp by (intro queue_inv_cong [OF assms(1)]) (use assms(1) in \<open>auto simp: MakeRoom_round_def pc_ok_def queue_inv_def\<close>)
  next
    case RoomReady
    then show ?thesis using assms(3) pc queue_inv_group [OF assms(1,2) pc] by (simp add: MakeRoom_round_def)
  next
    case RoomWait
    then show ?thesis using assms(1,3) pc by (simp add: MakeRoom_round_def)
  next
    case RoomSwitch
    then have imm: "db_imm db = None" by (auto simp: MakeRoom_action_def split: if_splits)
    obtain lf s where n: "lo_New lops (db_next_file db) = (lf, s)" by fastforce
    show ?thesis
    proof (cases "Status_ok s")
      case True
      then obtain l where "lf = Some l" "db' = db \<lparr> db_next_file := db_next_file db + 1, db_log := l, db_logfile_number := db_next_file db, db_imm := Some (db_mem db),
            db_mem := MemTable_Ref (MemTable_new new), db_pc := MakingRoom False d \<rparr>"
        using assms(3) pc RoomSwitch n by (auto simp: MakeRoom_round_def NewFileNumber_def Let_def split: option.splits)
      then show ?thesis using queue_inv_switch [OF assms(1) imm pc] by simp
    next
      case False
      define db1 where "db1 = db \<lparr> db_next_file := ReuseFileNumber (db_next_file db + 1) (db_next_file db) \<rparr>"
      have "pc_ok db1" using assms(1) pc_ok_cong [of db1 db] by (simp add: db1_def queue_inv_def)
      then have "queue_inv new ucmp lo ws db1" by (intro queue_inv_cong [OF assms(1)]) (simp_all add: db1_def)
      moreover have "db' = finish_group 1 s db1" using assms(3) pc RoomSwitch n False by (auto simp: MakeRoom_round_def NewFileNumber_def Let_def db1_def)
      ultimately show ?thesis using False tmp by (auto intro!: queue_inv_finish simp: db1_def)
    qed
  qed
qed


text \<open>The log and the sync may fail or not; only the status they return matters here.\<close>

definition log_group :: "'l log_ops \<Rightarrow> bool \<Rightarrow> slice \<Rightarrow> 'l \<Rightarrow> 'l \<times> status \<times> bool" where
  "log_group lops sync updates l =
     (case lo_AddRecord lops l updates of
        (l, s) \<Rightarrow> if Status_ok s \<and> sync then (case lo_Sync lops l of (l, s) \<Rightarrow> (l, s, \<not> Status_ok s)) else (l, s, False))"

lemma InsertInto_is_batch:
  assumes "is_batch b q us" "\<forall>u\<in>set us. small u"
  shows "WriteBatch_InsertInto (memtable_adder new ucmp) b (Some m) = (mem_add_all new ucmp (batch_adds q us) m, Status_OK)"
  using InsertInto_batch [OF assms(2), of new ucmp q m] is_batch_sequence_eq [OF assms(1)] by simp

lemma Write_log_cases:
  assumes "db_pc db = Logging updates k used" "db_writers db = w # rest" "log_group lops (wr_sync w) updates (db_log db) = (l, s, bad)"
    and "is_batch updates q us" "\<forall>u\<in>set us. small u"
  shows "Write_log lops new ucmp db = map_option (\<lambda>m. finish_group k s
     (let db = db \<lparr> db_log := l, db_mem := m \<rparr>; db = (if bad then RecordBackgroundError s db else db)
      in db \<lparr> db_tmp_batch := (if used then WriteBatch_Clear else db_tmp_batch db), db_last_sequence := db_last_sequence db + scast (WriteBatch_Count updates) \<rparr>))
     (if Status_ok s then mem_add_all new ucmp (batch_adds q us) (db_mem db) else Some (db_mem db))"
proof -
  have log: "(let (l, s) = lo_AddRecord lops (db_log db) updates in
      (if Status_ok s \<and> wr_sync w then (case lo_Sync lops l of (l, s) \<Rightarrow> (l, s, \<not> Status_ok s)) else (l, s, False))) = (l, s, bad)"
    using assms(3) by (simp add: log_group_def Let_def split: prod.splits)
  have "Status_ok s \<longrightarrow> s = Status_OK" by (simp add: Status_ok_def Status_OK_def)
  then show ?thesis
    using log unfolding Write_log_def assms(1,2)
    by (auto simp: InsertInto_is_batch [OF assms(4,5)] Let_def split: prod.splits option.splits if_splits)
qed

lemma queue_inv_log:
  assumes inv: "queue_inv new ucmp lo ws db" and ok: "\<forall>w\<in>set ws. writer_ok w" and room: "unat lo + length (group_updates ws) < 2 ^ 56"
    and log: "Write_log lops new ucmp db = Some db'"
  shows "queue_inv new ucmp lo ws db'"
proof -
  obtain updates k used w rest where pc: "db_pc db = Logging updates k used" and w: "db_writers db = w # rest"
    using log by (auto simp: Write_log_def split: WriterPc.splits list.splits)
  let ?us = "group_updates (take k (db_writers db))" and ?q = "db_last_sequence db"
  have up: "k \<le> length (db_writers db)" "\<not> used \<longrightarrow> db_tmp_batch db = WriteBatch_Clear" "is_batch updates (?q + 1) ?us" "length ?us < 2 ^ 31"
    using inv pc by (simp_all add: queue_inv_def pc_ok_def)
  have "\<forall>w\<in>set (take k (db_writers db)). writer_ok w" using inv ok by (auto simp: queue_inv_def dest: in_set_takeD)
  then have small: "\<forall>u\<in>set ?us. small u" using writer_updates_small by (auto simp: group_updates_def)
  obtain l s bad where lg: "log_group lops (wr_sync w) updates (db_log db) = (l, s, bad)" by (cases "log_group lops (wr_sync w) updates (db_log db)") auto
  have "scast (WriteBatch_Count updates) = (word_of_nat (length ?us) :: uint64)" using is_batch_parts(1) [OF up(3)] scast_count [OF up(4)] by simp
  then obtain m db1 where m: "(if Status_ok s then mem_add_all new ucmp (batch_adds (?q + 1) ?us) (db_mem db) else Some (db_mem db)) = Some m"
      and db': "db' = finish_group k s db1" and db1: "db_mem db1 = m" "db_imm db1 = db_imm db" "db_last_sequence db1 = ?q + word_of_nat (length ?us)"
        "db_writers db1 = db_writers db" "db_done db1 = db_done db" "db_tmp_batch db1 = WriteBatch_Clear"
    using log up(2) unfolding Write_log_cases [OF pc w lg up(3) small] by (auto simp: Let_def RecordBackgroundError_def split: if_splits)
  have split: "length (group_updates (db_writers db)) = length ?us + length (group_updates (drop k (db_writers db)))"
    by (metis append_take_drop_id group_updates_simps(3) length_append)
  have rf: "lo \<le> ?q" "unat ?q + length (group_updates (db_writers db)) \<le> unat lo + length (group_updates ws)" using inv by (simp_all add: queue_inv_def room_for_def)
  have un: "unat (?q + word_of_nat (length ?us)) = unat ?q + length ?us"
    using rf(2) split room by (simp add: unat_word_ariths unat_of_nat take_bit_nat_eq_self)
  have r: "room_for lo ws db'" using rf split un db1 by (simp add: room_for_def db' word_le_nat_alt)
  obtain F I M qs where st: "tables_of new ucmp db F I M" "numbered lo ?q qs" "length qs = length (written_updates db)"
      "F @ I @ M = map2 update_add qs (written_updates db)"
    using inv by (auto simp: queue_inv_def stored_writes_def)
  let ?qs = "map (\<lambda>i. ?q + 1 + word_of_nat i) [0..<length ?us]"
  have num: "numbered lo (?q + word_of_nat (length ?us)) (qs @ ?qs)" by (rule numbered_extend [OF st(2) rf(1)]) (use rf(2) split room in simp)
  have wr: "written_updates db' = written_updates db @ (if Status_ok s then ?us else [])"
    unfolding db' finish_group_written using db1 by (simp add: written_updates_def)
  have "stored_writes new ucmp lo db'"
  proof (cases "Status_ok s")
    case True
    have "tables_of new ucmp db' F I (M @ batch_adds (?q + 1) ?us)"
      using st(1) m True db1 by (simp add: tables_of_def db' mem_of_def mem_add_all_append)
    moreover have "F @ I @ M @ batch_adds (?q + 1) ?us = map2 update_add (qs @ ?qs) (written_updates db')"
      using st(3,4) wr True by (simp add: batch_adds_map2 zip_append)
    ultimately show ?thesis unfolding stored_writes_def using num wr True st(3) db1(3)
      by (intro exI [of _ F] exI [of _ I] exI [of _ "M @ batch_adds (?q + 1) ?us"] exI [of _ "qs @ ?qs"]) (simp add: db')
  next
    case False
    have "tables_of new ucmp db' F I M" using st(1) m False db1 by (simp add: tables_of_def db')
    moreover have "numbered lo (db_last_sequence db') qs" using num db1 by (auto simp: numbered_def db' sorted_wrt_append)
    ultimately show ?thesis unfolding stored_writes_def using st(3,4) wr False by (intro exI [of _ F] exI [of _ I] exI [of _ M] exI [of _ qs]) simp
  qed
  moreover have "map fst (db_done db') @ db_writers db' = ws" using inv finish_group_writers [of k s db1] db1 by (simp add: queue_inv_def db')
  ultimately show ?thesis using r db1(6) by (simp add: queue_inv_def pc_ok_def db')
qed

lemma queue_inv_step:
  assumes "queue_inv new ucmp lo ws db" "\<forall>w\<in>set ws. writer_ok w" "unat lo + length (group_updates ws) < 2 ^ 56" "write_step lops new ucmp buffer db db'"
  shows "queue_inv new ucmp lo ws db'"
  using assms(4)
proof cases
  case (Turn w rest)
  then show ?thesis by (intro queue_inv_cong [OF assms(1)]) (use assms(1) in \<open>simp_all add: queue_inv_def pc_ok_def\<close>)
next
  case (Room l0_files)
  then show ?thesis using queue_inv_room [OF assms(1,2)] by blast
next
  case Log
  then show ?thesis using queue_inv_log [OF assms(1-3)] by blast
next
  case Flushed
  obtain F I M qs where st: "tables_of new ucmp db F I M" "numbered lo (db_last_sequence db) qs" "length qs = length (written_updates db)"
      "F @ I @ M = map2 update_add qs (written_updates db)"
    using assms(1) by (auto simp: queue_inv_def stored_writes_def)
  have w: "written_updates (db \<lparr> db_imm := None \<rparr>) = written_updates db" by (simp add: written_updates_def)
  have "stored_writes new ucmp lo (db \<lparr> db_imm := None \<rparr>)"
    unfolding stored_writes_def w using st by (intro exI [of _ "F @ I"] exI [of _ "[]"] exI [of _ M] exI [of _ qs]) (simp add: tables_of_def)
  then show ?thesis using assms(1) Flushed by (simp add: queue_inv_def pc_ok_cong [of "db \<lparr> db_imm := None \<rparr>" db] room_for_def)
next
  case (BackgroundError s)
  then have "pc_ok db'" using assms(1) pc_ok_cong [of db' db] by (simp add: queue_inv_def RecordBackgroundError_def)
  then show ?thesis using BackgroundError by (intro queue_inv_cong [OF assms(1)]) (simp_all add: RecordBackgroundError_def)
qed


text \<open>A database that has just been opened.\<close>

definition db_fresh :: "new_char \<Rightarrow> 'l DbState \<Rightarrow> bool" where
  "db_fresh new db \<longleftrightarrow> db_writers db = [] \<and> db_pc db = Waiting \<and> db_mem db = MemTable_Ref (MemTable_new new) \<and> db_imm db = None \<and> db_tmp_batch db = WriteBatch_Clear \<and> db_done db = []"

lemma queue_inv_fresh: "db_fresh new db \<Longrightarrow> queue_inv new ucmp (db_last_sequence db) [] db"
  by (auto simp: db_fresh_def queue_inv_def pc_ok_def room_for_def stored_writes_def tables_of_def mem_of_def mem_add_all_def numbered_def written_updates_def)

lemma queue_inv_enqueue:
  assumes "queue_inv new ucmp lo ws db"
  shows "queue_inv new ucmp lo (ws @ [w]) (Write_enqueue w db)"
proof -
  have "stored_writes new ucmp lo (Write_enqueue w db)"
    by (rule stored_cong [of _ _ _ db]) (use assms in \<open>simp_all add: queue_inv_def Write_enqueue_def written_updates_def\<close>)
  moreover have "pc_ok (Write_enqueue w db)" using assms by (auto simp: queue_inv_def pc_ok_def Write_enqueue_def split: WriterPc.splits)
  ultimately show ?thesis using assms by (auto simp: queue_inv_def Write_enqueue_def room_for_def)
qed

lemma serves_inv:
  assumes "serves lops new ucmp buffer start ws db" "db_fresh new start" "\<forall>w\<in>set ws. writer_ok w"
    "unat (db_last_sequence start) + length (group_updates ws) < 2 ^ 56"
  shows "queue_inv new ucmp (db_last_sequence start) ws db"
  using assms
proof (induction rule: serves.induct)
  case Start
  then show ?case using queue_inv_fresh by blast
next
  case (Arrive ws db w)
  then show ?case by (intro queue_inv_enqueue) simp
next
  case (Step ws db db')
  then show ?case using queue_inv_step by blast
qed

subsection \<open>No step is undefined\<close>

lemma updates_add_ok:
  assumes "numbered lo hi qs" "unat hi < 2 ^ 56" "\<forall>u\<in>set us. small u \<and> length (update_key u) + 8 < 2 ^ 32"
  shows "\<forall>a\<in>set (map2 update_add qs us). add_ok a"
proof -
  have "add_ok (update_add q u)" if q: "q \<in> set qs" and u: "u \<in> set us" for q u
  proof -
    have "unat q < 2 ^ 56" using assms(1,2) q by (fastforce simp: numbered_def word_le_nat_alt)
    then have "q \<le> kMaxSequenceNumber" by (simp add: kMaxSequenceNumber_unat)
    moreover have "small u" "length (update_key u) + 8 < 2 ^ 32" using assms(3) u by auto
    ultimately show ?thesis by (cases u) simp_all
  qed
  then show ?thesis by (auto dest: set_zip_leftD set_zip_rightD)
qed

lemma updates_distinct:
  assumes "numbered lo hi qs" "unat hi < 2 ^ 56" "user_comparator ucmp sep succ" "length qs = length us"
  shows "distinct_adds ucmp (map2 update_add qs us)"
proof -
  have u: "unat (qs ! i) < 2 ^ 56" if "i < length qs" for i
    using assms(1,2) nth_mem [OF that] by (fastforce simp: numbered_def word_le_nat_alt)
  have "map2 update_add qs us = map (\<lambda>i. update_add (qs ! i) (us ! i)) [0..<length qs]" using assms(4) by (intro nth_equalityI) simp_all
  moreover have "distinct_adds ucmp (map (\<lambda>i. update_add (qs ! i) (us ! i)) [0..<length qs])"
  proof (rule distinct_by_seq [OF _ assms(3)])
    fix i j assume ij: "i < j" "j < length qs"
    then have "qs ! i < qs ! j" using assms(1) by (simp add: numbered_def sorted_wrt_iff_nth_less)
    moreover have "drop_bit 8 (add_tag (update_add (qs ! n) (us ! n))) = qs ! n" if "n < length qs" for n using u [OF that] by (simp add: drop_Pack)
    ultimately show "add_tag (update_add (qs ! i) (us ! i)) \<noteq> add_tag (update_add (qs ! j) (us ! j))" using ij by (metis order.strict_trans order.irrefl)
  qed
  ultimately show ?thesis by simp
qed

lemma distinct_adds_suffix: "distinct_adds ucmp (as @ bs) \<Longrightarrow> distinct_adds ucmp bs"
  by (simp add: distinct_adds_def sorted_wrt_append)

lemma group_updates_mono: "set xs \<subseteq> set ys \<Longrightarrow> set (group_updates xs) \<subseteq> set (group_updates ys)"
  by (auto simp: group_updates_def)

lemma written_subset:
  assumes "queue_inv new ucmp lo ws db"
  shows "set (written_updates db) \<subseteq> set (group_updates ws)"
proof -
  have "set (map fst (filter (\<lambda>x. Status_ok (snd x)) (db_done db))) \<subseteq> set (map fst (db_done db) @ db_writers db)" by auto
  then show ?thesis using assms group_updates_mono unfolding written_updates_def queue_inv_def by metis
qed

lemma Write_log_defined:
  assumes inv: "queue_inv new ucmp lo ws db" and ok: "\<forall>w\<in>set ws. writer_ok w" and room: "unat lo + length (group_updates ws) < 2 ^ 56"
    and uc: "user_comparator ucmp sep succ" and pc: "db_pc db = Logging updates k used"
  shows "\<exists>db'. Write_log lops new ucmp db = Some db'"
proof -
  let ?us = "group_updates (take k (db_writers db))" and ?q = "db_last_sequence db"
  have up: "1 \<le> k" "k \<le> length (db_writers db)" "is_batch updates (?q + 1) ?us"
    using inv pc by (simp_all add: queue_inv_def pc_ok_def)
  then obtain w rest where w: "db_writers db = w # rest" by (cases "db_writers db") auto
  have "\<forall>w\<in>set (take k (db_writers db)). writer_ok w" using inv ok by (auto simp: queue_inv_def dest: in_set_takeD)
  then have small: "\<forall>u\<in>set ?us. small u \<and> length (update_key u) + 8 < 2 ^ 32" using writer_updates_small by (auto simp: group_updates_def)
  have small_ws: "\<forall>u\<in>set (written_updates db). small u \<and> length (update_key u) + 8 < 2 ^ 32"
    using written_subset [OF inv] ok writer_updates_small by (fastforce simp: group_updates_def)
  obtain F I M qs where st: "tables_of new ucmp db F I M" "numbered lo ?q qs" "length qs = length (written_updates db)"
      "F @ I @ M = map2 update_add qs (written_updates db)"
    using inv by (auto simp: queue_inv_def stored_writes_def)
  have rf: "lo \<le> ?q" "unat ?q + length (group_updates (db_writers db)) \<le> unat lo + length (group_updates ws)" using inv by (simp_all add: queue_inv_def room_for_def)
  have "length ?us \<le> length (group_updates (db_writers db))" by (metis append_take_drop_id group_updates_simps(3) length_append le_add1)
  then have bound: "unat ?q + length ?us < 2 ^ 56" using rf(2) room by simp
  let ?qs = "map (\<lambda>i. ?q + 1 + word_of_nat i) [0..<length ?us]"
  have num: "numbered lo (?q + word_of_nat (length ?us)) (qs @ ?qs)" using numbered_extend [OF st(2) rf(1) bound] .
  have hi: "unat (?q + word_of_nat (length ?us)) < 2 ^ 56" using bound by (simp add: unat_word_ariths unat_of_nat take_bit_nat_eq_self)
  have all: "map2 update_add (qs @ ?qs) (written_updates db @ ?us) = (F @ I) @ M @ batch_adds (?q + 1) ?us"
    using st(3,4) by (simp add: batch_adds_map2 zip_append)
  have "distinct_adds ucmp (M @ batch_adds (?q + 1) ?us)"
  proof -
    have "length (qs @ ?qs) = length (written_updates db @ ?us)" using st(3) by simp
    from updates_distinct [OF num hi uc this] show ?thesis unfolding all by (rule distinct_adds_suffix)
  qed
  moreover have "\<forall>a\<in>set (M @ batch_adds (?q + 1) ?us). add_ok a"
  proof -
    have "\<forall>u\<in>set (written_updates db @ ?us). small u \<and> length (update_key u) + 8 < 2 ^ 32" using small small_ws unfolding set_append by blast
    from updates_add_ok [OF num hi this] show ?thesis unfolding all set_append by blast
  qed
  ultimately have "\<exists>m. mem_of new ucmp (M @ batch_adds (?q + 1) ?us) m" using mem_of_holds [OF uc] by blast
  then have "\<exists>m. mem_add_all new ucmp (batch_adds (?q + 1) ?us) (db_mem db) = Some m"
    using st(1) by (simp add: mem_add_all_append tables_of_def mem_of_def)
  moreover obtain l s bad where lg: "log_group lops (wr_sync w) updates (db_log db) = (l, s, bad)" by (cases "log_group lops (wr_sync w) updates (db_log db)") auto
  moreover have "\<forall>u\<in>set ?us. small u" using small by blast
  ultimately show ?thesis using Write_log_cases [OF pc w lg up(3)] by auto
qed


subsection \<open>Lookups see the newest entry of the memtables and the files\<close>

definition entry_answer :: "slice \<times> slice \<Rightarrow> status + slice" where
  "entry_answer e = (if entry_is_value e then Inr (snd e) else Inl (Status_NotFound [] []))"

lemma add_pair_visible: "add_ok a \<Longrightarrow> visible_for cmp u s (add_pair a) = add_visible cmp u s a"
  by (cases a) (simp add: visible_for_def entry_visible_def entry_user_key_def ParseInternalKey_make kMaxSequenceNumber_unat)

lemma add_pair_tag [simp]: "internal_tag (fst (add_pair a)) = add_tag a"
  by (cases a) simp

lemma add_pair_answer: "add_ok a \<Longrightarrow> entry_answer (add_pair a) = add_result a"
proof -
  assume "add_ok a"
  then show ?thesis
    by (cases a rule: add_result.cases) (simp_all add: entry_answer_def entry_is_value_def ParseInternalKey_make kMaxSequenceNumber_unat)
qed

lemma newest_add_pairs:
  assumes "\<forall>a\<in>set as. add_ok a" "newest cmp as u s r"
  shows "newest_visible cmp u s (add_pair ` set as) (map_option add_pair r)"
  using assms by (cases r) (auto simp: newest_def newest_visible_def add_pair_visible)

lemma mem_get_entries:
  assumes "user_comparator cmp sep succ" "mem_of new cmp as m" "\<forall>a\<in>set as. add_ok a" "distinct_adds cmp as" "s \<le> kMaxSequenceNumber" "length u + 8 < 2 ^ 32"
  shows "\<exists>r. newest_visible cmp u s (add_pair ` set as) r \<and> MemTable_Get cmp m (LookupKey_make u s) = Some (map_option entry_answer r)"
proof -
  obtain ks where h: "mem_holds cmp m ks as"
    using mem_of_holds [OF assms(1,3,4), of new] assms(2) by (auto simp: mem_of_def)
  obtain r where r: "newest cmp as u s r" "MemTable_Get cmp m (LookupKey_make u s) = Some (map_option add_result r)"
    using user_comparator.Get_newest [OF assms(1) h assms(5,6)] by blast
  have "map_option add_result r = map_option entry_answer (map_option add_pair r)"
    using r(1) assms(3) by (cases r) (auto simp: newest_def add_pair_answer)
  then show ?thesis using r(2) newest_add_pairs [OF assms(3) r(1)] by auto
qed

text \<open>The entries of the files of a version.\<close>

definition version_entries :: "(FileMetaData \<Rightarrow> entries) \<Rightarrow> Version \<Rightarrow> (slice \<times> slice) set" where
  "version_entries tab v = (\<Union>l<kNumLevels. \<Union> (set ` tab ` set (level_files v l)))"

text \<open>The answer of \<open>Get\<close> for the newest visible entry.\<close>

definition get_answer :: "slice \<Rightarrow> (slice \<times> slice) option \<Rightarrow> status \<times> slice" where
  "get_answer val r = (case r of None \<Rightarrow> (Status_NotFound [] [], val) | Some e \<Rightarrow> (entry_status e, entry_result val e))"

lemma get_answer_mem: "get_answer val (Some e) = (case entry_answer e of Inr v \<Rightarrow> (Status_OK, v) | Inl s \<Rightarrow> (s, val))"
  by (simp add: get_answer_def entry_answer_def entry_status_def entry_result_def)

definition imm_of :: "new_char \<Rightarrow> (slice \<Rightarrow> slice \<Rightarrow> int) \<Rightarrow> mem_add list \<Rightarrow> MemTable option \<Rightarrow> bool" where
  "imm_of new cmp as imm \<longleftrightarrow> (case imm of None \<Rightarrow> as = [] | Some m \<Rightarrow> mem_of new cmp as m)"

lemma DBImpl_Get_law:
  assumes vt: "version_tables cmp sep succ v tab tget ok" and "mem_of new cmp M mem" "imm_of new cmp I imm" "\<forall>a\<in>set (I @ M). add_ok a" "distinct_adds cmp (I @ M)"
    and nw: "newer cmp (add_pair ` set M) (add_pair ` set I \<union> version_entries tab v)" "newer cmp (add_pair ` set I) (version_entries tab v)"
    and s: "s = (case snap of Some n \<Rightarrow> n | None \<Rightarrow> last_seq)" "s \<le> kMaxSequenceNumber" and u: "length u + 8 < 2 ^ 32" and "ok c"
  shows "\<exists>r stats c'. newest_visible cmp u s (add_pair ` set M \<union> add_pair ` set I \<union> version_entries tab v) r \<and> ok c' \<and>
    DBImpl_Get cmp tget mem imm v last_seq snap u val c = Some (case get_answer val r of (st, x) \<Rightarrow> (st, x, stats, c'))"
proof -
  have uc: "user_comparator cmp sep succ" using vt by (simp add: version_tables_def)
  let ?V = "version_entries tab v" and ?k = "LookupKey_make u s"
  have key: "LookupKey_make u (case snap of Some n \<Rightarrow> n | None \<Rightarrow> last_seq) = ?k" using s(1) by simp
  have dM: "distinct_adds cmp M" "distinct_adds cmp I" using assms(5) by (auto simp: distinct_adds_def sorted_wrt_append)
  have okM: "\<forall>a\<in>set M. add_ok a" "\<forall>a\<in>set I. add_ok a" using assms(4) by auto
  obtain rm where rm: "newest_visible cmp u s (add_pair ` set M) rm" "MemTable_Get cmp mem ?k = Some (map_option entry_answer rm)"
    using mem_get_entries [OF uc assms(2) okM(1) dM(1) s(2) u] by blast
  have "\<exists>r. newest_visible cmp u s (add_pair ` set I) r \<and> (case imm of None \<Rightarrow> Some None | Some m \<Rightarrow> MemTable_Get cmp m ?k) = Some (map_option entry_answer r)"
  proof (cases imm)
    case None
    then show ?thesis using assms(3) by (intro exI [of _ None]) (simp add: imm_of_def newest_visible_def)
  next
    case (Some m)
    then show ?thesis using assms(3) mem_get_entries [OF uc _ okM(2) dM(2) s(2) u] by (simp add: imm_of_def)
  qed
  then obtain ri where ri: "newest_visible cmp u s (add_pair ` set I) ri"
      "(case imm of None \<Rightarrow> Some None | Some m \<Rightarrow> MemTable_Get cmp m ?k) = Some (map_option entry_answer ri)" by blast
  have "unat s < 2 ^ 56" using s(2) by (simp add: kMaxSequenceNumber_unat)
  from version_tables.Version_Get_law [OF vt this \<open>ok c\<close>] obtain rv stats c' where rv: "newest_visible cmp u s ?V rv" "ok c'"
      "Version_Get cmp tget v ?k val c = Some (case rv of None \<Rightarrow> (Status_NotFound [] [], val, stats, c') | Some e \<Rightarrow> (entry_status e, entry_result val e, stats, c'))"
    unfolding version_entries_def by blast
  have iv: "newest_visible cmp u s (add_pair ` set I \<union> ?V) (case ri of None \<Rightarrow> rv | Some e \<Rightarrow> Some e)"
    by (rule newest_union [OF ri(1) rv(1)]) (rule user_comparator.newer_visible [OF uc nw(2)])
  let ?r = "case rm of None \<Rightarrow> (case ri of None \<Rightarrow> rv | Some e \<Rightarrow> Some e) | Some e \<Rightarrow> Some e"
  have all: "newest_visible cmp u s (add_pair ` set M \<union> add_pair ` set I \<union> ?V) ?r"
    unfolding Un_assoc by (rule newest_union [OF rm(1) iv]) (rule user_comparator.newer_visible [OF uc nw(1)])
  note unfold = DBImpl_Get_def [of cmp tget mem imm v last_seq snap u val c, unfolded Let_def key]
  show ?thesis
  proof (cases rm)
    case (Some e)
    have "DBImpl_Get cmp tget mem imm v last_seq snap u val c = Some (case get_answer val ?r of (st, x) \<Rightarrow> (st, x, None, c))"
      using rm(2) Some unfolding unfold by (simp add: get_answer_mem split: sum.split)
    then show ?thesis using all \<open>ok c\<close> by blast
  next
    case None
    note m = None
    show ?thesis
    proof (cases ri)
      case (Some e)
      have "DBImpl_Get cmp tget mem imm v last_seq snap u val c = Some (case get_answer val ?r of (st, x) \<Rightarrow> (st, x, None, c))"
        using rm(2) ri(2) m Some unfolding unfold by (simp add: get_answer_mem split: sum.split)
      then show ?thesis using all \<open>ok c\<close> by blast
    next
      case None
      have "DBImpl_Get cmp tget mem imm v last_seq snap u val c = Some (case get_answer val ?r of (st, x) \<Rightarrow> (st, x, Some stats, c'))"
        using rm(2) ri(2) rv(3) m None unfolding unfold by (simp add: get_answer_def split: option.split)
      then show ?thesis using all rv(2) by blast
    qed
  qed
qed


lemma newer_by_seq: "(\<And>a b. a \<in> A \<Longrightarrow> b \<in> B \<Longrightarrow> entry_seq b < entry_seq a) \<Longrightarrow> newer cmp A B"
  unfolding newer_def using entry_seq_mono by (metis not_le)

lemma entry_seq_update: "unat q < 2 ^ 56 \<Longrightarrow> entry_seq (add_pair (update_add q w)) = q"
  by (cases w) (simp_all add: entry_seq_def drop_Pack)

lemma sorted_adds_seq:
  assumes "numbered lo hi qs" "unat hi < 2 ^ 56" "length qs = length us"
  shows "sorted_wrt (\<lambda>a b. entry_seq (add_pair a) < entry_seq (add_pair b)) (map2 update_add qs us)"
    "\<forall>a\<in>set (map2 update_add qs us). lo < entry_seq (add_pair a) \<and> entry_seq (add_pair a) \<le> hi"
proof -
  have u: "unat q < 2 ^ 56" if "q \<in> set qs" for q using assms(1,2) that by (fastforce simp: numbered_def word_le_nat_alt)
  have s: "entry_seq (add_pair (update_add (qs ! i) (us ! i))) = qs ! i" if "i < length qs" for i using entry_seq_update u that by simp
  show "sorted_wrt (\<lambda>a b. entry_seq (add_pair a) < entry_seq (add_pair b)) (map2 update_add qs us)"
    using assms(1,3) s by (simp add: sorted_wrt_iff_nth_less numbered_def)
  show "\<forall>a\<in>set (map2 update_add qs us). lo < entry_seq (add_pair a) \<and> entry_seq (add_pair a) \<le> hi"
  proof
    fix a
    assume "a \<in> set (map2 update_add qs us)"
    then obtain i where "i < length qs" "a = update_add (qs ! i) (us ! i)" using assms(3) by (auto simp: in_set_zip)
    then show "lo < entry_seq (add_pair a) \<and> entry_seq (add_pair a) \<le> hi" using s assms(1) by (simp add: numbered_def)
  qed
qed

lemma newest_is_last_update:
  assumes num: "numbered lo hi qs" "unat hi < 2 ^ 56" "length qs = length us" and ok: "\<forall>a\<in>set (map2 update_add qs us). add_ok a"
    and old: "\<forall>e\<in>B. entry_seq e \<le> lo" and r: "newest_visible cmp u hi (add_pair ` set (map2 update_add qs us) \<union> B) r"
  shows "case find (\<lambda>w. cmp (update_key w) u = 0) (rev us) of
      Some w \<Rightarrow> \<exists>e. r = Some e \<and> entry_answer e = update_result w
    | None \<Rightarrow> newest_visible cmp u hi B r"
proof -
  let ?P = "\<lambda>w. cmp (update_key w) u = 0"
  define A where "A = map2 update_add qs us"
  note ok = ok [folded A_def] and r = r [folded A_def]
  have len: "length A = length us" using num(3) by (simp add: A_def)
  have nth: "A ! i = update_add (qs ! i) (us ! i)" if "i < length us" for i using that num(3) by (simp add: A_def)
  have vis: "visible_for cmp u hi (add_pair (A ! i)) \<longleftrightarrow> ?P (us ! i)" if i: "i < length us" for i
  proof -
    have "add_ok (A ! i)" using ok i len nth_mem [of i A] by simp
    moreover have "qs ! i \<le> hi" using num(1,3) i by (simp add: numbered_def)
    ultimately show ?thesis using add_pair_visible [of "A ! i"] nth [OF i] by simp
  qed
  show ?thesis
  proof (cases "find ?P (rev us)")
    case None
    then have n: "\<not> ?P (us ! i)" if "i < length us" for i using that by (auto simp: find_None_iff)
    have "\<not> visible_for cmp u hi e" if e: "e \<in> add_pair ` set A" for e
    proof -
      obtain i where "i < length us" "e = add_pair (A ! i)" using e len by (auto simp: in_set_conv_nth)
      then show ?thesis using vis n by simp
    qed
    then show ?thesis using None r by (auto simp: newest_visible_def split: option.splits)
  next
    case (Some w)
    then obtain k where k: "k < length us" "?P (rev us ! k)" "w = rev us ! k" "\<forall>j<k. \<not> ?P (rev us ! j)" by (auto simp: find_Some_iff)
    define i where "i = length us - Suc k"
    have i: "i < length us" "w = us ! i" "?P w" using k by (auto simp: i_def rev_nth)
    have after: "\<not> ?P (us ! j)" if "i < j" "j < length us" for j
      using k(4) [rule_format, of "length us - Suc j"] that by (simp add: rev_nth i_def)
    let ?e = "add_pair (A ! i)"
    have mem: "?e \<in> add_pair ` set A" using i(1) len by auto
    have seq: "sorted_wrt (\<lambda>a b. entry_seq (add_pair a) < entry_seq (add_pair b)) A" "\<forall>a\<in>set A. lo < entry_seq (add_pair a) \<and> entry_seq (add_pair a) \<le> hi"
      using sorted_adds_seq [OF num] unfolding A_def by blast+
    have v: "visible_for cmp u hi ?e" using vis [OF i(1)] i by simp
    have "r \<noteq> None"
    proof
      assume "r = None"
      then have "\<forall>e\<in>add_pair ` set A \<union> B. \<not> visible_for cmp u hi e" using r unfolding newest_visible_def by simp
      then show False using v mem by blast
    qed
    then obtain e where e: "r = Some e" by blast
    then have e: "r = Some e" "e \<in> add_pair ` set A \<union> B" "visible_for cmp u hi e" "internal_tag (fst ?e) \<le> internal_tag (fst e)"
      using r mem v unfolding e newest_visible_def option.case by blast+
    have le: "entry_seq ?e \<le> entry_seq e" using entry_seq_mono [OF e(4)] .
    have "A ! i \<in> set A" using i(1) len by (intro nth_mem) simp
    then have "lo < entry_seq ?e" using seq(2) by blast
    then have "lo < entry_seq e" using le by (rule order_less_le_trans)
    then have "e \<notin> B" using old by (meson not_le)
    then obtain j where j: "j < length us" "e = add_pair (A ! j)" using e(2) len by (auto simp: in_set_conv_nth)
    have "?P (us ! j)" using vis [OF j(1)] e(3) j(2) by simp
    then have "j \<le> i" using after j(1) by (meson not_le)
    moreover have "\<not> j < i" using sorted_wrt_nth_less [OF seq(1)] i(1) len le unfolding j(2) by (metis not_le)
    ultimately have "e = ?e" using j(2) by simp
    moreover have "add_ok (A ! i)" using ok i(1) len nth_mem [of i A] by simp
    ultimately have "entry_answer e = update_result w" using add_pair_answer [of "A ! i"] nth [OF i(1)] i(2) by simp
    then show ?thesis using Some e(1) by simp
  qed
qed


subsection \<open>Progress of the writers\<close>

text \<open>What the writers rely on: an environment that reports success has made the log file.\<close>

locale log_maker =
  fixes lops :: "'l log_ops"
  assumes new_log: "lo_New lops n = (lf, s) \<Longrightarrow> Status_ok s \<Longrightarrow> lf \<noteq> None"
begin

lemma MakeRoom_defined:
  assumes "pc_ok db" "db_pc db = MakingRoom f d"
  shows "\<exists>db'. MakeRoom_round lops new buffer l0 db = Some db'"
proof -
  obtain w rest where w: "db_writers db = w # rest" using assms by (cases "db_writers db") (auto simp: pc_ok_def)
  have "Write_group db \<noteq> None" using w by (auto simp: Write_group_def BuildBatchGroup_def Let_def split: option.splits prod.splits)
  moreover obtain lf s where n: "lo_New lops (db_next_file db) = (lf, s)" by fastforce
  moreover have "Status_ok s \<Longrightarrow> lf \<noteq> None" using new_log n by blast
  ultimately show ?thesis using assms(2) by (auto simp: MakeRoom_round_def Let_def NewFileNumber_def split: RoomAction.splits option.splits prod.splits)
qed

end

text \<open>The step of the writer at the front of the queue, with \<open>l0\<close> files in level 0.\<close>

definition front_round :: "'l log_ops \<Rightarrow> new_char \<Rightarrow> (slice \<Rightarrow> slice \<Rightarrow> int) \<Rightarrow> nat \<Rightarrow> nat \<Rightarrow> 'l DbState \<Rightarrow> 'l DbState option" where
  "front_round lops new ucmp buffer l0 db =
     (case db_pc db of
        Waiting \<Rightarrow> (case db_writers db of [] \<Rightarrow> None | w # _ \<Rightarrow> Some (db \<lparr> db_pc := MakingRoom (wr_batch w = None) (wr_batch w \<noteq> None) \<rparr>))
      | MakingRoom _ _ \<Rightarrow> MakeRoom_round lops new buffer l0 db
      | Logging _ _ _ \<Rightarrow> Write_log lops new ucmp db)"

fun front_rounds :: "'l log_ops \<Rightarrow> new_char \<Rightarrow> (slice \<Rightarrow> slice \<Rightarrow> int) \<Rightarrow> nat \<Rightarrow> nat \<Rightarrow> nat \<Rightarrow> 'l DbState \<Rightarrow> 'l DbState option" where
  "front_rounds lops new ucmp buffer l0 0 db = Some db"
| "front_rounds lops new ucmp buffer l0 (Suc n) db = Option.bind (front_round lops new ucmp buffer l0 db) (front_rounds lops new ucmp buffer l0 n)"

lemma front_round_step: "front_round lops new ucmp buffer l0 db = Some db' \<Longrightarrow> write_step lops new ucmp buffer db db'"
  by (auto simp: front_round_def simp del: not_None_eq intro: write_step.intros split: WriterPc.splits list.splits)

lemma front_rounds_serves:
  "serves lops new ucmp buffer start ws db \<Longrightarrow> front_rounds lops new ucmp buffer l0 n db = Some db' \<Longrightarrow> serves lops new ucmp buffer start ws db'"
proof (induction n arbitrary: db)
  case (Suc n)
  then obtain db1 where "front_round lops new ucmp buffer l0 db = Some db1" "front_rounds lops new ucmp buffer l0 n db1 = Some db'" by (auto simp: bind_eq_Some_conv)
  then show ?case using Suc.IH serves.Step [OF Suc.prems(1) front_round_step] by blast
qed simp

context log_maker
begin

lemma front_defined:
  assumes "queue_inv new ucmp lo ws db" "\<forall>w\<in>set ws. writer_ok w" "unat lo + length (group_updates ws) < 2 ^ 56" "user_comparator ucmp sep succ" "db_writers db \<noteq> []"
  shows "\<exists>db'. front_round lops new ucmp buffer l0 db = Some db'"
proof (cases "db_pc db")
  case Waiting
  then show ?thesis using assms(5) by (auto simp: front_round_def neq_Nil_conv)
next
  case (MakingRoom f d)
  then show ?thesis using MakeRoom_defined assms(1) by (simp add: front_round_def queue_inv_def)
next
  case (Logging up k used)
  then show ?thesis using Write_log_defined [OF assms(1-4)] by (simp add: front_round_def)
qed

end

text \<open>How far the front writer is from its answer.\<close>

definition rounds_left :: "nat \<Rightarrow> 'l DbState \<Rightarrow> nat" where
  "rounds_left buffer db =
     (case db_pc db of
        Waiting \<Rightarrow> 5
      | MakingRoom force allow_delay \<Rightarrow> 2 + (if allow_delay then 1 else 0) + (if force \<or> buffer < ApproximateMemoryUsage (db_mem db) then 1 else 0)
      | Logging _ _ _ \<Rightarrow> 1)"

lemma MemTable_new_usage: "ApproximateMemoryUsage (MemTable_Ref (MemTable_new new)) = 4104"
  by (simp add: ApproximateMemoryUsage_def MemTable_Ref_def MemTable_new_def AllocateAligned_def AllocateFallback_def AllocateNewBlock_def Arena_new_def node_bytes_def
      kMaxHeight_def arena_kBlockSize_def MemoryUsage_def Let_def)

lemma finish_done: "1 \<le> k \<Longrightarrow> db_writers db = w # rest \<Longrightarrow> \<exists>s more. db_done (finish_group k s' db) = db_done db @ (w, s) # more"
  by (cases k) auto

lemma front_round_nearer:
  assumes "pc_ok db" "db_writers db = w # rest" "front_round lops new ucmp buffer l0 db = Some db'" "l0 < kL0_StopWritesTrigger" "4104 \<le> buffer"
    and "db_imm db = None \<or> (\<exists>d. db_pc db = MakingRoom False d) \<and> ApproximateMemoryUsage (db_mem db) \<le> buffer \<or> (\<exists>u k b. db_pc db = Logging u k b)"
  shows "(\<exists>s more. db_done db' = db_done db @ (w, s) # more) \<or>
    rounds_left buffer db' < rounds_left buffer db \<and> db_writers db' = db_writers db \<and> db_done db' = db_done db \<and>
      (db_imm db' = None \<or> (\<exists>d. db_pc db' = MakingRoom False d) \<and> ApproximateMemoryUsage (db_mem db') \<le> buffer \<or> (\<exists>u k b. db_pc db' = Logging u k b))"
proof (cases "db_pc db")
  case Waiting
  then show ?thesis using assms by (auto simp: front_round_def rounds_left_def)
next
  case (Logging up k used)
  then have k: "1 \<le> k" using assms(1) by (simp add: pc_ok_def)
  obtain s db1 where "db' = finish_group k s db1" "db_writers db1 = w # rest" "db_done db1 = db_done db"
    using assms(2,3) Logging by (auto simp: front_round_def Write_log_def Let_def RecordBackgroundError_def split: prod.splits option.splits if_splits)
  then show ?thesis using finish_done [OF k, of db1 w rest s] by auto
next
  case (MakingRoom f d)
  let ?a = "MakeRoom_action (db_bg_error db) f d l0 (ApproximateMemoryUsage (db_mem db)) buffer (db_imm db \<noteq> None)"
  have r: "MakeRoom_round lops new buffer l0 db = Some db'" using assms(3) MakingRoom by (simp add: front_round_def)
  have fin: "\<exists>s more. db_done (finish_group 1 s' db1) = db_done db @ (w, s) # more" if "db_writers db1 = w # rest" "db_done db1 = db_done db" for s' db1
    using finish_done [of 1 db1 w rest s'] that by auto
  show ?thesis
  proof (cases ?a)
    case RoomError
    then show ?thesis using r MakingRoom fin [OF assms(2) refl] by (auto simp: MakeRoom_round_def)
  next
    case RoomDelay
    then have "d" by (auto simp: MakeRoom_action_def split: if_splits)
    then show ?thesis using r MakingRoom RoomDelay assms(6) by (auto simp: MakeRoom_round_def rounds_left_def)
  next
    case RoomReady
    then have g: "Write_group db = Some db'" using r MakingRoom by (simp add: MakeRoom_round_def)
    show ?thesis
    proof (cases "wr_batch w")
      case None
      then show ?thesis using g assms(2) fin [OF assms(2) refl] by (auto simp: Write_group_def)
    next
      case (Some b)
      then obtain u k us where "db_pc db' = Logging u k us" "db_writers db' = db_writers db" "db_done db' = db_done db"
        using g assms(2) by (auto simp: Write_group_def Let_def split: option.splits)
      then show ?thesis using MakingRoom by (auto simp: rounds_left_def)
    qed
  next
    case RoomWait
    then have "db_imm db \<noteq> None" "f \<or> buffer < ApproximateMemoryUsage (db_mem db)" using assms(4) by (auto simp: MakeRoom_action_def split: if_splits)
    then show ?thesis using assms(6) MakingRoom by auto
  next
    case RoomSwitch
    then have f: "f \<or> buffer < ApproximateMemoryUsage (db_mem db)" by (auto simp: MakeRoom_action_def split: if_splits)
    obtain lf s where n: "lo_New lops (db_next_file db) = (lf, s)" by fastforce
    show ?thesis
    proof (cases "Status_ok s")
      case True
      then show ?thesis using r MakingRoom RoomSwitch n f assms(5) MemTable_new_usage [of new]
        by (auto simp: MakeRoom_round_def NewFileNumber_def Let_def rounds_left_def split: option.splits)
    next
      case False
      then show ?thesis using r MakingRoom RoomSwitch n assms(2) by (auto simp: MakeRoom_round_def NewFileNumber_def Let_def intro!: fin)
    qed
  qed
qed


context log_maker
begin

lemma front_answered:
  assumes "\<forall>w\<in>set ws. writer_ok w" "unat lo + length (group_updates ws) < 2 ^ 56" "user_comparator ucmp sep succ" "l0 < kL0_StopWritesTrigger" "4104 \<le> buffer"
    and "queue_inv new ucmp lo ws db" "db_writers db = w # rest" "rounds_left buffer db \<le> n"
    and "db_imm db = None \<or> (\<exists>d. db_pc db = MakingRoom False d) \<and> ApproximateMemoryUsage (db_mem db) \<le> buffer \<or> (\<exists>u k b. db_pc db = Logging u k b)"
  shows "\<exists>i\<le>n. \<exists>db' s more. front_rounds lops new ucmp buffer l0 i db = Some db' \<and> db_done db' = db_done db @ (w, s) # more"
  using assms(6-)
proof (induction n arbitrary: db)
  case 0
  then show ?case by (auto simp: rounds_left_def split: WriterPc.splits)
next
  case (Suc n)
  obtain db1 where db1: "front_round lops new ucmp buffer l0 db = Some db1"
    using front_defined [OF Suc.prems(1) assms(1-3)] Suc.prems(2) by auto
  have inv: "queue_inv new ucmp lo ws db1" using queue_inv_step [OF Suc.prems(1) assms(1,2) front_round_step [OF db1]] .
  have "pc_ok db" using Suc.prems(1) by (simp add: queue_inv_def)
  from front_round_nearer [OF this Suc.prems(2) db1 assms(4,5) Suc.prems(4)]
  show ?case
  proof
    assume "\<exists>s more. db_done db1 = db_done db @ (w, s) # more"
    then show ?thesis using db1 by (intro exI [of _ 1]) auto
  next
    assume c: "rounds_left buffer db1 < rounds_left buffer db \<and> db_writers db1 = db_writers db \<and> db_done db1 = db_done db \<and>
      (db_imm db1 = None \<or> (\<exists>d. db_pc db1 = MakingRoom False d) \<and> ApproximateMemoryUsage (db_mem db1) \<le> buffer \<or> (\<exists>u k b. db_pc db1 = Logging u k b))"
    have "\<exists>i\<le>n. \<exists>db' s more. front_rounds lops new ucmp buffer l0 i db1 = Some db' \<and> db_done db' = db_done db1 @ (w, s) # more"
      by (rule Suc.IH [OF inv]) (use c Suc.prems in auto)
    then obtain i db' s more where "i \<le> n" "front_rounds lops new ucmp buffer l0 i db1 = Some db'" "db_done db' = db_done db1 @ (w, s) # more" by blast
    then show ?thesis using db1 c by (intro exI [of _ "Suc i"]) auto
  qed
qed

end

subsection \<open>The log of the model\<close>

text \<open>Logs written by \<open>log::Writer\<close> into files of the in-memory environment.\<close>

definition mem_log_ops :: "FileState Writer log_ops" where
  "mem_log_ops = \<lparr> lo_New = (\<lambda>n. (Some (Writer_new FileState_new), Status_OK)),
     lo_AddRecord = AddRecord (WritableFileImpl_Append zero_memory) WritableFileImpl_Flush,
     lo_Sync = (\<lambda>w. (w, snd (WritableFileImpl_Sync (dest w)))) \<rparr>"

interpretation mem_log: log_maker mem_log_ops
  by unfold_locales (auto simp: mem_log_ops_def)

subsection \<open>Properties\<close>

text \<open>C0. Writes are served in the order of their calls and none is lost. After any interleaving of calls of \<open>Write\<close> with the steps of the
  front writer and of the background thread, the calls answered and the calls waiting are all the calls in their order; and
  the memtables hold, after what has been flushed, exactly the updates of the calls answered with OK, in order, under
  sequence numbers that grow from the number the database was opened with to its last number, whatever the grouping of
  batches, the switches of memtables and the errors of the log were.\<close>

theorem writes_are_serial:
  assumes "serves lops new cmp buffer start ws db" "db_fresh new start" "\<forall>w\<in>set ws. writer_ok w"
    "unat (db_last_sequence start) + length (group_updates ws) < 2 ^ 56"
  shows "map fst (db_done db) @ db_writers db = ws \<and>
    (\<exists>F I M qs. mem_of new cmp M (db_mem db) \<and> imm_of new cmp I (db_imm db) \<and> numbered (db_last_sequence start) (db_last_sequence db) qs \<and>
      length qs = length (written_updates db) \<and> F @ I @ M = map2 update_add qs (written_updates db))"
  using serves_inv [OF assms] by (auto simp: queue_inv_def stored_writes_def tables_of_def imm_of_def)

text \<open>C0. Reads see the last write. In every state the writers reach, there is a sequence of updates that has left the memtables such that, once
  the files of the current version hold them beside the entries from before the database was opened, \<open>Get\<close> without a
  snapshot returns what the last answered write of the key put, NotFound when that was a deletion, and what the old
  entries give when no write touched the key.\<close>

theorem db_reads_last_write:
  assumes "serves lops new cmp buffer start ws db" "db_fresh new start" "\<forall>w\<in>set ws. writer_ok w"
    "unat (db_last_sequence start) + length (group_updates ws) < 2 ^ 56"
  shows "\<exists>F I M qs. mem_of new cmp M (db_mem db) \<and> imm_of new cmp I (db_imm db) \<and> F @ I @ M = map2 update_add qs (written_updates db) \<and>
    (\<forall>sep succ v tab tget ok B c u val. version_tables cmp sep succ v tab tget (ok :: 'c \<Rightarrow> bool) \<and> version_entries tab v = add_pair ` set F \<union> B \<and>
       (\<forall>e\<in>B. entry_seq e \<le> db_last_sequence start) \<and> ok c \<and> length u + 8 < 2 ^ 32 \<longrightarrow>
       (\<exists>r stats c'. DBImpl_Get cmp tget (db_mem db) (db_imm db) v (db_last_sequence db) None u val c =
          Some (case get_answer val r of (st, x) \<Rightarrow> (st, x, stats, c')) \<and>
        (case find (\<lambda>w. cmp (update_key w) u = 0) (rev (written_updates db)) of
           Some w \<Rightarrow> get_answer val r = (case update_result w of Inr x \<Rightarrow> (Status_OK, x) | Inl s \<Rightarrow> (s, val))
         | None \<Rightarrow> newest_visible cmp u (db_last_sequence db) B r)))"
proof -
  have inv: "queue_inv new cmp (db_last_sequence start) ws db" using serves_inv [OF assms] .
  let ?lo = "db_last_sequence start" and ?hi = "db_last_sequence db" and ?us = "written_updates db"
  obtain F I M qs where st: "mem_of new cmp M (db_mem db)" "imm_of new cmp I (db_imm db)" "numbered ?lo ?hi qs" "length qs = length ?us"
      "F @ I @ M = map2 update_add qs ?us"
    using inv by (auto simp: queue_inv_def stored_writes_def tables_of_def imm_of_def)
  have hi: "unat ?hi < 2 ^ 56" using inv assms(4) by (simp add: queue_inv_def room_for_def)
  have small: "\<forall>u\<in>set ?us. small u \<and> length (update_key u) + 8 < 2 ^ 32"
    using written_subset [OF inv] assms(3) writer_updates_small by (fastforce simp: group_updates_def)
  note ok = updates_add_ok [OF st(3) hi small]
  have seq: "sorted_wrt (\<lambda>a b. entry_seq (add_pair a) < entry_seq (add_pair b)) (F @ I @ M)" "\<forall>a\<in>set (F @ I @ M). ?lo < entry_seq (add_pair a)"
    using sorted_adds_seq [OF st(3) hi st(4)] unfolding st(5) by blast+
  have get: "\<exists>r stats c'. DBImpl_Get cmp tget (db_mem db) (db_imm db) v ?hi None u val c = Some (case get_answer val r of (st, x) \<Rightarrow> (st, x, stats, c')) \<and>
        (case find (\<lambda>w. cmp (update_key w) u = 0) (rev ?us) of
           Some w \<Rightarrow> get_answer val r = (case update_result w of Inr x \<Rightarrow> (Status_OK, x) | Inl s \<Rightarrow> (s, val))
         | None \<Rightarrow> newest_visible cmp u ?hi B r)"
    if vt: "version_tables cmp sep succ v tab tget (ok :: 'c \<Rightarrow> bool)" and V: "version_entries tab v = add_pair ` set F \<union> B"
      and old: "\<forall>e\<in>B. entry_seq e \<le> ?lo" and c: "ok c" and u: "length u + 8 < 2 ^ 32" for sep succ v tab tget ok B c u val
  proof -
    have uc: "user_comparator cmp sep succ" using vt by (simp add: version_tables_def)
    have below: "entry_seq e < entry_seq (add_pair a)" if "e \<in> B" "a \<in> set (F @ I @ M)" for e a
      using old seq(2) that by (meson order_le_less_trans)
    have nw: "newer cmp (add_pair ` set M) (add_pair ` set I \<union> version_entries tab v)" "newer cmp (add_pair ` set I) (version_entries tab v)"
    proof -
      have o: "\<forall>x\<in>set F \<union> set I. \<forall>y\<in>set M. entry_seq (add_pair x) < entry_seq (add_pair y)" "\<forall>x\<in>set F. \<forall>y\<in>set I. entry_seq (add_pair x) < entry_seq (add_pair y)"
        using seq(1) unfolding sorted_wrt_append set_append by blast+
      note below = below [unfolded set_append]
      show "newer cmp (add_pair ` set M) (add_pair ` set I \<union> version_entries tab v)" unfolding V by (rule newer_by_seq) (use o below in blast)
      show "newer cmp (add_pair ` set I) (version_entries tab v)" unfolding V by (rule newer_by_seq) (use o below in blast)
    qed
    have d: "distinct_adds cmp (I @ M)" using updates_distinct [OF st(3) hi uc st(4)] unfolding st(5) [symmetric] by (rule distinct_adds_suffix)
    have okIM: "\<forall>a\<in>set (I @ M). add_ok a" using ok unfolding st(5) [symmetric] by simp
    have "?hi \<le> kMaxSequenceNumber" using hi by (simp add: kMaxSequenceNumber_unat)
    from DBImpl_Get_law [OF vt st(1,2) okIM d nw _ this u c, where snap = None and last_seq = ?hi and val = val]
    obtain r stats c' where r: "newest_visible cmp u ?hi (add_pair ` set M \<union> add_pair ` set I \<union> version_entries tab v) r"
        "DBImpl_Get cmp tget (db_mem db) (db_imm db) v ?hi None u val c = Some (case get_answer val r of (st, x) \<Rightarrow> (st, x, stats, c'))" by auto
    have "add_pair ` set M \<union> add_pair ` set I \<union> version_entries tab v = add_pair ` set (map2 update_add qs ?us) \<union> B"
      unfolding V st(5) [symmetric] by (auto simp: image_Un)
    then have "newest_visible cmp u ?hi (add_pair ` set (map2 update_add qs ?us) \<union> B) r" using r(1) by simp
    from newest_is_last_update [OF st(3) hi st(4) ok old this]
    have "case find (\<lambda>w. cmp (update_key w) u = 0) (rev ?us) of
           Some w \<Rightarrow> get_answer val r = (case update_result w of Inr x \<Rightarrow> (Status_OK, x) | Inl s \<Rightarrow> (s, val))
         | None \<Rightarrow> newest_visible cmp u ?hi B r"
      by (cases "find (\<lambda>w. cmp (update_key w) u = 0) (rev ?us)") (auto simp: get_answer_mem)
    then show ?thesis using r(2) by blast
  qed
  show ?thesis
    by (rule exI [of _ F], rule exI [of _ I], rule exI [of _ M], rule exI [of _ qs], intro conjI st(1,2,5) allI impI, elim conjE, rule get)
qed

text \<open>C0. No writer ever gets stuck: in every state the writers reach, while calls are waiting the next step of the front writer is defined, so
  its assertions hold, the memtable accepts every update and no log is missing, however many files level 0 has.\<close>

theorem front_writer_defined:
  assumes "log_maker lops" "user_comparator cmp sep succ" "serves lops new cmp buffer start ws db" "db_fresh new start" "\<forall>w\<in>set ws. writer_ok w"
    "unat (db_last_sequence start) + length (group_updates ws) < 2 ^ 56" "db_writers db \<noteq> []"
  shows "\<exists>db'. front_round lops new cmp buffer l0 db = Some db' \<and> serves lops new cmp buffer start ws db'"
  using log_maker.front_defined [OF assms(1) serves_inv [OF assms(3-6)] assms(5,6,2,7)] front_round_step serves.Step [OF assms(3)] by blast

text \<open>C0. Every write is answered: when no memtable waits to be flushed, level 0 has fewer than \<open>kL0_StopWritesTrigger\<close> files and the write buffer
  exceeds the size of an empty memtable, the call at the front of the queue is answered within five rounds.\<close>

theorem front_writer_answered:
  assumes "log_maker lops" "user_comparator cmp sep succ" "serves lops new cmp buffer start ws db" "db_fresh new start" "\<forall>w\<in>set ws. writer_ok w"
    "unat (db_last_sequence start) + length (group_updates ws) < 2 ^ 56" "db_writers db = w # rest" "db_imm db = None"
    "l0 < kL0_StopWritesTrigger" "4104 \<le> buffer"
  shows "\<exists>n\<le>5. \<exists>db' s more. front_rounds lops new cmp buffer l0 n db = Some db' \<and> db_done db' = db_done db @ (w, s) # more"
proof -
  have "rounds_left buffer db \<le> 5" by (simp add: rounds_left_def split: WriterPc.splits)
  then show ?thesis using log_maker.front_answered [OF assms(1,5,6,2,9,10) serves_inv [OF assms(3-6)] assms(7)] assms(8) by blast
qed


text \<open>A database opened at sequence number 6, and one call that puts a key.\<close>

definition example_start :: "FileState Writer DbState" where
  "example_start = \<lparr> db_writers = [], db_pc = Waiting, db_mem = MemTable_Ref (MemTable_new bump_new), db_imm = None, db_last_sequence = 6, db_log = Writer_new FileState_new,
     db_logfile_number = 3, db_next_file = 4, db_tmp_batch = WriteBatch_Clear, db_bg_error = Status_OK, db_done = [] \<rparr>"

definition example_writer :: DBImpl_Writer where
  "example_writer = \<lparr> wr_batch = Some (batch_of [UPut [7] [8]]), wr_sync = True \<rparr>"

lemma example_start_fresh: "db_fresh bump_new example_start"
  by (simp add: db_fresh_def example_start_def)

lemma example_batch: "length (batch_of [UPut [7] [8]]) = 17"
proof -
  have "batch_of [UPut [7] [8]] = EncodeFixed64 0 @ EncodeFixed32 1 @ update_bytes (UPut [7] [8])" using is_batch_of [of "[UPut [7] [8]]"] by (simp add: is_batch_def)
  moreover have "length (EncodeVarint32 1) = 1" by (subst EncodeVarint32_def) (simp add: word_less_nat_alt)
  ultimately show ?thesis by (simp add: PutLengthPrefixedSlice_def PutVarint32_def)
qed

lemma example_writer_ok: "writer_ok example_writer"
  using is_batch_of [of "[UPut [7] [8]]"] by (auto simp: writer_ok_def example_writer_def example_batch)

lemma example_writer_updates: "writer_updates example_writer = [UPut [7] [8]]"
  using is_batch_updates(2) [OF is_batch_of [of "[UPut [7] [8]]"]] by (simp add: writer_updates_def example_writer_def example_batch)

lemma example_answered:
  "\<exists>db. serves mem_log_ops bump_new Bytewise_Compare 65536 example_start [example_writer] db \<and> db_done db = [(example_writer, Status_OK)] \<and>
     db_imm db = None \<and> db_last_sequence db = 7 \<and> mem_of bump_new Bytewise_Compare [(7, kTypeValue, [7], [8])] (db_mem db)"
proof -
  let ?S = "serves mem_log_ops bump_new Bytewise_Compare 65536 example_start [example_writer]"
  let ?b = "batch_of [UPut [7] [8]]"
  define db0 where "db0 = Write_enqueue example_writer example_start"
  define db1 where "db1 = db0 \<lparr> db_pc := MakingRoom False True \<rparr>"
  define db2 where "db2 = db1 \<lparr> db_pc := Logging (WriteBatch_SetSequence ?b 7) 1 False \<rparr>"
  have s0: "?S db0" using serves.Arrive [OF serves.Start, of mem_log_ops bump_new Bytewise_Compare 65536 example_start example_writer] by (simp add: db0_def)
  have "write_step mem_log_ops bump_new Bytewise_Compare 65536 db0 (db0 \<lparr> db_pc := MakingRoom (wr_batch example_writer = None) (wr_batch example_writer \<noteq> None) \<rparr>)"
    by (rule write_step.Turn) (simp_all add: db0_def example_start_def Write_enqueue_def)
  then have s1: "?S db1" using serves.Step [OF s0] by (simp add: db1_def example_writer_def)
  have g: "BuildBatchGroup [example_writer] WriteBatch_Clear = Some (?b, 1, False)" by (simp add: BuildBatchGroup_def example_writer_def Let_def)
  have "MakeRoom_round mem_log_ops bump_new 65536 0 db1 = Some db2"
    using g MemTable_new_usage [of bump_new]
    by (simp add: MakeRoom_round_def MakeRoom_action_def db2_def db1_def db0_def example_start_def Write_enqueue_def kL0_SlowdownWritesTrigger_def Write_group_def example_writer_def)
  then have s2: "?S db2" using serves.Step [OF s1] write_step.Room by blast
  have ib: "is_batch (WriteBatch_SetSequence ?b 7) 7 [UPut [7] [8]]" by (rule is_batch_SetSequence [OF is_batch_of])
  have pc: "db_pc db2 = Logging (WriteBatch_SetSequence ?b 7) 1 False" "db_writers db2 = example_writer # []"
    by (simp_all add: db2_def db1_def db0_def example_start_def Write_enqueue_def)
  have "\<exists>w'. lo_AddRecord mem_log_ops (db_log db2) d = (w', Status_OK)" for d
  proof -
    have "file_wf (dest (Writer_new FileState_new))" "type_crc (Writer_new FileState_new) = InitTypeCrc"
      by (simp_all add: Writer_new_def FileState_new_def file_wf_def kMemBlockSize_def)
    from zero_mem.mem_file.AddRecord_loop_law [OF this, of d True] show ?thesis
      by (auto simp: mem_log_ops_def AddRecord_def db2_def db1_def db0_def example_start_def Write_enqueue_def)
  qed
  then obtain l where "lo_AddRecord mem_log_ops (db_log db2) (WriteBatch_SetSequence ?b 7) = (l, Status_OK)" by blast
  then have lg: "log_group mem_log_ops (wr_sync example_writer) (WriteBatch_SetSequence ?b 7) (db_log db2) = (l, Status_OK, False)"
    by (simp add: log_group_def example_writer_def mem_log_ops_def WritableFileImpl_Sync_def)
  have inv: "queue_inv bump_new Bytewise_Compare 6 [example_writer] db2"
    using serves_inv [OF s2 example_start_fresh] example_writer_ok by (simp add: example_writer_updates) (simp add: example_start_def)
  obtain db3 where db3: "Write_log mem_log_ops bump_new Bytewise_Compare db2 = Some db3"
    using Write_log_defined [OF inv _ _ ubytewise.user_comparator_axioms pc(1), of mem_log_ops] example_writer_ok by (auto simp: example_writer_updates)
  have c: "scast (WriteBatch_Count (WriteBatch_SetSequence ?b 7)) = (1 :: uint64)" using is_batch_parts(1) [OF ib] scast_count [of 1] by simp
  have add: "batch_adds 7 [UPut [7] [8]] = [(7, kTypeValue, [7], [8])]" by (simp add: batch_adds_def)
  have "?S db3" using serves.Step [OF s2] write_step.Log [OF db3] by blast
  moreover have "db_done db3 = [(example_writer, Status_OK)] \<and> db_imm db3 = None \<and> db_last_sequence db3 = 7 \<and> mem_of bump_new Bytewise_Compare [(7, kTypeValue, [7], [8])] (db_mem db3)"
    using db3 unfolding Write_log_cases [OF pc lg ib, simplified]
    by (auto simp: add Let_def c mem_of_def db2_def db1_def db0_def example_start_def Write_enqueue_def)
  ultimately show ?thesis by blast
qed


lemmas example_calls = example_start_fresh example_writer_ok

lemma example_room: "unat (db_last_sequence example_start) + length (group_updates [example_writer]) < 2 ^ 56" "\<forall>w\<in>set [example_writer]. writer_ok w"
  using example_writer_ok by (simp_all add: example_writer_updates) (simp add: example_start_def)

lemma example_written: "db_done db = [(example_writer, Status_OK)] \<Longrightarrow> written_updates db = [UPut [7] [8]]"
  by (simp add: written_updates_def example_writer_updates)

theorem writes_are_serial_witness:
  "\<exists>db F I M q. serves mem_log_ops bump_new Bytewise_Compare 65536 example_start [example_writer] db \<and>
     mem_of bump_new Bytewise_Compare M (db_mem db) \<and> imm_of bump_new Bytewise_Compare I (db_imm db) \<and> 6 < q \<and> q \<le> 7 \<and> F @ I @ M = [(q, kTypeValue, [7], [8])]"
proof -
  obtain db where db: "serves mem_log_ops bump_new Bytewise_Compare 65536 example_start [example_writer] db"
      "db_done db = [(example_writer, Status_OK)]" "db_last_sequence db = 7" using example_answered by blast
  have lo: "db_last_sequence example_start = 6" by (simp add: example_start_def)
  obtain F I M qs where w: "mem_of bump_new Bytewise_Compare M (db_mem db)" "imm_of bump_new Bytewise_Compare I (db_imm db)" "numbered 6 7 qs"
      "length qs = 1" "F @ I @ M = map2 update_add qs [UPut [7] [8]]"
    using writes_are_serial [OF db(1) example_start_fresh example_room(2,1)] unfolding example_written [OF db(2)] db(3) lo by auto
  then obtain q where "qs = [q]" by (cases qs) auto
  then show ?thesis using db(1) w
    by (intro exI [of _ db] exI [of _ F] exI [of _ I] exI [of _ M] exI [of _ q]) (simp add: numbered_def)
qed

theorem db_reads_last_write_witness:
  "\<exists>db stats. serves mem_log_ops bump_new Bytewise_Compare 65536 example_start [example_writer] db \<and>
     DBImpl_Get Bytewise_Compare example_get (db_mem db) (db_imm db) example_version (db_last_sequence db) None [7] [] () = Some (Status_OK, [8], stats, ())"
proof -
  obtain db where db: "serves mem_log_ops bump_new Bytewise_Compare 65536 example_start [example_writer] db"
      "db_done db = [(example_writer, Status_OK)]" "db_last_sequence db = 7" "mem_of bump_new Bytewise_Compare [(7, kTypeValue, [7], [8])] (db_mem db)"
    using example_answered by blast
  note us = example_written [OF db(2)]
  obtain F I M qs where w: "mem_of bump_new Bytewise_Compare M (db_mem db)" "imm_of bump_new Bytewise_Compare I (db_imm db)"
      "F @ I @ M = map2 update_add qs [UPut [7] [8]]"
      "\<forall>sep succ v tab tget ok B c u val. version_tables Bytewise_Compare sep succ v tab tget (ok :: unit \<Rightarrow> bool) \<and> version_entries tab v = add_pair ` set F \<union> B \<and>
       (\<forall>e\<in>B. entry_seq e \<le> db_last_sequence example_start) \<and> ok c \<and> length u + 8 < 2 ^ 32 \<longrightarrow>
       (\<exists>r stats c'. DBImpl_Get Bytewise_Compare tget (db_mem db) (db_imm db) v (db_last_sequence db) None u val c =
          Some (case get_answer val r of (st, x) \<Rightarrow> (st, x, stats, c')) \<and>
        (case find (\<lambda>w. Bytewise_Compare (update_key w) u = 0) (rev [UPut [7] [8]]) of
           Some w \<Rightarrow> get_answer val r = (case update_result w of Inr x \<Rightarrow> (Status_OK, x) | Inl s \<Rightarrow> (s, val))
         | None \<Rightarrow> newest_visible Bytewise_Compare u (db_last_sequence db) B r))"
    using db_reads_last_write [OF db(1) example_start_fresh example_room(2,1), where 'c = unit] unfolding us by blast
  have "M \<noteq> []"
  proof
    assume M: "M = []"
    let ?k = "LookupKey_make [7] 7" and ?a = "(7, kTypeValue, [7], [8]) :: mem_add"
    have k: "(7 :: uint64) \<le> kMaxSequenceNumber" by (simp add: kMaxSequenceNumber_unat)
    obtain r where r: "newest_visible Bytewise_Compare [7] 7 (add_pair ` set []) r" "MemTable_Get Bytewise_Compare (db_mem db) ?k = Some (map_option entry_answer r)"
      using mem_get_entries [OF ubytewise.user_comparator_axioms w(1) _ _ k, of "[7]"] M by (auto simp: distinct_adds_def)
    obtain r' where r': "newest_visible Bytewise_Compare [7] 7 (add_pair ` set [?a]) r'" "MemTable_Get Bytewise_Compare (db_mem db) ?k = Some (map_option entry_answer r')"
      using mem_get_entries [OF ubytewise.user_comparator_axioms db(4) _ _ k, of "[7]"] by (auto simp: distinct_adds_def kMaxSequenceNumber_unat)
    have "visible_for Bytewise_Compare [7] 7 (add_pair ?a)"
      using add_pair_visible [of ?a Bytewise_Compare "[7]" 7] by (simp add: kMaxSequenceNumber_unat Bytewise_Compare_def)
    then have "r' \<noteq> None" using r'(1) by (cases r') (simp_all add: newest_visible_def)
    moreover have "r = None" using r(1) by (cases r) (auto simp: newest_visible_def)
    ultimately show False using r(2) r'(2) by simp
  qed
  moreover have "length (F @ I @ M) \<le> 1" unfolding w(3) by simp
  ultimately have F: "F = []" by (cases F; cases M) auto
  let ?V = "version_entries example_contents example_version"
  have lt: "{..<kNumLevels} = {0, 1, 2, 3, 4, 5, 6}" by (auto simp: kNumLevels_def)
  have "?V = {(InternalKey [7] 5 kTypeDeletion, []), (InternalKey [7] 2 kTypeValue, [8])}"
    unfolding version_entries_def lt by (auto simp: example_version_def example_contents_def example_file_def)
  then have old: "\<forall>e\<in>?V. entry_seq e \<le> db_last_sequence example_start" by (simp add: entry_seq_def drop_Pack example_start_def word_le_nat_alt)
  from w(4) [rule_format, of Bytewise_FindShortestSeparator Bytewise_FindShortSuccessor example_version example_contents example_get "\<lambda>_. True" ?V "()" "[7]" "[]"]
    example_tables.version_tables_axioms old F
  obtain stats c' where "DBImpl_Get Bytewise_Compare example_get (db_mem db) (db_imm db) example_version (db_last_sequence db) None [7] [] () = Some (Status_OK, [8], stats, c')"
    by (auto simp: Bytewise_Compare_def)
  then show ?thesis using db(1) by (intro exI [of _ db] exI [of _ stats]) simp
qed

theorem front_writer_defined_witness:
  "\<exists>db'. front_round mem_log_ops bump_new Bytewise_Compare 65536 20 (Write_enqueue example_writer example_start) = Some db'"
proof -
  have "serves mem_log_ops bump_new Bytewise_Compare 65536 example_start [example_writer] (Write_enqueue example_writer example_start)"
    using serves.Arrive [OF serves.Start, of mem_log_ops bump_new Bytewise_Compare 65536 example_start example_writer] by simp
  from front_writer_defined [OF mem_log.log_maker_axioms ubytewise.user_comparator_axioms this example_start_fresh example_room(2,1), of 20]
  show ?thesis by (auto simp: Write_enqueue_def)
qed

theorem front_writer_answered_witness:
  "\<exists>n\<le>5. \<exists>db' s. front_rounds mem_log_ops bump_new Bytewise_Compare 65536 3 n (Write_enqueue example_writer example_start) = Some db' \<and> db_done db' = [(example_writer, s)]"
proof -
  let ?db = "Write_enqueue example_writer example_start"
  have s: "serves mem_log_ops bump_new Bytewise_Compare 65536 example_start [example_writer] ?db"
    using serves.Arrive [OF serves.Start, of mem_log_ops bump_new Bytewise_Compare 65536 example_start example_writer] by simp
  have w: "db_writers ?db = [example_writer]" "db_imm ?db = None" "db_done ?db = []" by (simp_all add: Write_enqueue_def example_start_def)
  obtain n db' st more where n: "n \<le> 5" "front_rounds mem_log_ops bump_new Bytewise_Compare 65536 3 n ?db = Some db'" "db_done db' = (example_writer, st) # more"
    using front_writer_answered [OF mem_log.log_maker_axioms ubytewise.user_comparator_axioms s example_start_fresh example_room(2,1) w(1,2), of 3] w(3)
    by (auto simp: kL0_StopWritesTrigger_def)
  have "serves mem_log_ops bump_new Bytewise_Compare 65536 example_start [example_writer] db'" using front_rounds_serves [OF s n(2)] .
  then have "map fst (db_done db') @ db_writers db' = [example_writer]" using serves_inv [OF _ example_start_fresh example_room(2,1)] by (simp add: queue_inv_def)
  then have "more = []" using n(3) by simp
  then show ?thesis using n by blast
qed

end
