(* ===== verification/Recovery.thy ===== *)
theory Recovery
  imports DbImpl Filename
begin

text \<open>
  Flushing and recovery: \<open>db/builder.cc\<close>, and from \<open>db/db_impl.cc\<close> the writing of a memtable to a level-0 table, the
  replay of a log, the choice of the logs to replay and of the files to delete, and the options. Files are values and the
  operations on them arguments, as for compactions; a table that was kept is recorded under its number in the list of files.
\<close>

subsection \<open>Options\<close>

text \<open>\<open>static_cast<V>\<close> makes an \<open>int\<close> of the value before it is compared.\<close>

definition ClipToRange :: "'a::len word \<Rightarrow> int \<Rightarrow> int \<Rightarrow> 'a word" where
  "ClipToRange x minvalue maxvalue =
     (let cast = (\<lambda>x. sint (ucast x :: 32 word));
          x = (if maxvalue < cast x then word_of_int maxvalue else x)
      in if cast x < minvalue then word_of_int minvalue else x)"

text \<open>The three sizes that \<open>SanitizeOptions\<close> clips: open files, write buffer and block.\<close>

definition SanitizeOptions_sizes :: "32 word \<times> uint64 \<times> uint64 \<Rightarrow> 32 word \<times> uint64 \<times> uint64" where
  "SanitizeOptions_sizes = (\<lambda>(max_open_files, write_buffer_size, block_size).
     (ClipToRange max_open_files (64 + 10) 50000, ClipToRange write_buffer_size 65536 1073741824, ClipToRange block_size 1024 4194304))"

definition MaybeIgnoreError :: "bool \<Rightarrow> status \<Rightarrow> status" where
  "MaybeIgnoreError paranoid_checks s = (if Status_ok s \<or> paranoid_checks then s else Status_OK)"

subsection \<open>Building a table\<close>

record 'f BuiltTable =
  bt_file_size :: uint64
  bt_smallest :: slice
  bt_largest :: slice
  bt_file :: "'f option"

partial_function (option) BuildTable_loop :: "'i iter_ops \<Rightarrow> 'f write_ops \<Rightarrow> 'i \<Rightarrow> slice \<Rightarrow> 'f TableBuilder \<Rightarrow> ('i \<times> slice \<times> 'f TableBuilder) option" where
  "BuildTable_loop iops wops it largest builder =
     (if io_Valid iops it then
        (case io_Next iops it of
           None \<Rightarrow> None
         | Some it' \<Rightarrow> BuildTable_loop iops wops it' (io_key iops it) (TableBuilder_Add wops builder (io_key iops it) (io_value iops it)))
      else Some (it, largest, builder))"

text \<open>\<open>bt_file\<close> is the file when it is kept. \<open>None\<close> where an iterator would leave its memory or a file be missing.\<close>

definition BuildTable :: "'i iter_ops \<Rightarrow> 'f output_ops \<Rightarrow> Options \<Rightarrow> uint64 \<Rightarrow> 'i \<Rightarrow> ('f BuiltTable \<times> status) option" where
  "BuildTable iops ops opt number it =
     (let none = \<lparr> bt_file_size = 0, bt_smallest = [], bt_largest = [], bt_file = None \<rparr> in
      case io_SeekToFirst iops it of
        None \<Rightarrow> None
      | Some it \<Rightarrow>
          if io_Valid iops it then
            (case oo_NewWritableFile ops number of
               (lfile, s) \<Rightarrow>
                 if \<not> Status_ok s then Some (none, s)
                 else (case lfile of
                         None \<Rightarrow> None
                       | Some f \<Rightarrow>
                           (case BuildTable_loop iops (oo_write ops) it [] (TableBuilder_new opt f) of
                              None \<Rightarrow> None
                            | Some (it', largest, builder) \<Rightarrow>
                                let (builder, s) = TableBuilder_Finish (oo_write ops) builder;
                                    file_size = (if Status_ok s then TableBuilder_FileSize builder else 0);
                                    (f, s) = (if Status_ok s then oo_Sync ops (tb_file builder) else (tb_file builder, s));
                                    (f, s) = (if Status_ok s then oo_Close ops f else (f, s));
                                    s = (if Status_ok s then oo_verify ops number file_size f else s);
                                    s = (if \<not> Status_ok (io_status iops it') then io_status iops it' else s)
                                in Some (\<lparr> bt_file_size = file_size, bt_smallest = io_key iops it, bt_largest = largest,
                                           bt_file = (if Status_ok s \<and> 0 < file_size then Some f else None) \<rparr>, s))))
          else Some (none, io_status iops it))"

text \<open>The counter of file numbers, the edit and the files, with the status.\<close>

definition WriteLevel0Table :: "'f output_ops \<Rightarrow> Options \<Rightarrow> (slice \<Rightarrow> slice \<Rightarrow> int) \<Rightarrow> MemTable \<Rightarrow> Version option \<Rightarrow> uint64 \<times> VersionEdit \<times> (uint64 \<times> 'f) list \<Rightarrow>
    ((uint64 \<times> VersionEdit \<times> (uint64 \<times> 'f) list) \<times> status) option" where
  "WriteLevel0Table ops opt ucmp mem base = (\<lambda>(next_file, edit, files).
     let (next_file, number) = NewFileNumber next_file
     in case BuildTable (memiter_ops ucmp mem) ops opt number Iter_new of
          None \<Rightarrow> None
        | Some (t, s) \<Rightarrow>
            let files = (case bt_file t of None \<Rightarrow> files | Some f \<Rightarrow> files @ [(number, f)])
            in if Status_ok s \<and> 0 < bt_file_size t then
                 (case (case base of None \<Rightarrow> Some 0 | Some v \<Rightarrow> PickLevelForMemTableOutput ucmp v (ExtractUserKey (bt_smallest t)) (ExtractUserKey (bt_largest t))) of
                    None \<Rightarrow> None
                  | Some level \<Rightarrow> Some ((next_file, AddFile edit level number (bt_file_size t) (bt_smallest t) (bt_largest t), files), s))
               else Some ((next_file, edit, files), s))"

subsection \<open>Replaying a log\<close>

record 'f RecoverState =
  rv_status :: status
  rv_mem :: "MemTable option"
  rv_max_sequence :: uint64
  rv_compactions :: nat
  rv_save_manifest :: bool
  rv_out :: "uint64 \<times> VersionEdit \<times> (uint64 \<times> 'f) list"

definition LogReporter_Corruption :: "bool \<Rightarrow> status \<Rightarrow> status \<Rightarrow> status" where
  "LogReporter_Corruption paranoid_checks s status = (if paranoid_checks \<and> Status_ok status then s else status)"

text \<open>One round of the loop over the records; the flag says whether the loop goes on.\<close>

definition recover_record :: "'f output_ops \<Rightarrow> Options \<Rightarrow> nat \<Rightarrow> new_char \<Rightarrow> (slice \<Rightarrow> slice \<Rightarrow> int) \<Rightarrow> slice \<Rightarrow> 'f RecoverState \<Rightarrow> ('f RecoverState \<times> bool) option" where
  "recover_record ops opt write_buffer_size new ucmp rec st =
     (if length rec < 12 then
        Some (st \<lparr> rv_status := LogReporter_Corruption (opt_paranoid_checks opt) (Status_Corruption (str ''log record too small'') []) (rv_status st) \<rparr>, True)
      else
        let batch = WriteBatch_SetContents rec;
            mem = (case rv_mem st of None \<Rightarrow> MemTable_Ref (MemTable_new new) | Some m \<Rightarrow> m)
        in case WriteBatch_InsertInto (memtable_adder new ucmp) batch (Some mem) of
             (None, _) \<Rightarrow> None
           | (Some mem, s) \<Rightarrow>
               let s = MaybeIgnoreError (opt_paranoid_checks opt) s;
                   st = st \<lparr> rv_mem := Some mem, rv_status := s \<rparr>
               in if \<not> Status_ok s then Some (st, False)
                  else let last_seq = WriteBatch_Sequence batch + scast (WriteBatch_Count batch) - 1;
                           st = (if rv_max_sequence st < last_seq then st \<lparr> rv_max_sequence := last_seq \<rparr> else st)
                       in if write_buffer_size < ApproximateMemoryUsage mem then
                            (case WriteLevel0Table ops opt ucmp mem None (rv_out st) of
                               None \<Rightarrow> None
                             | Some (out, s) \<Rightarrow>
                                 Some (st \<lparr> rv_compactions := rv_compactions st + 1, rv_save_manifest := True, rv_out := out, rv_status := s, rv_mem := None \<rparr>, Status_ok s))
                          else Some (st, True))"

text \<open>The loop over the records of a log, in \<open>RecoverLogFile\<close> and in \<open>VersionSet::Recover\<close>: \<open>report\<close> is called for every corruption the reader
  finds, \<open>ok\<close> is the test of the status, and \<open>body\<close> a round.\<close>

partial_function (option) log_loop :: "(uint32 \<Rightarrow> slice) \<Rightarrow> ('r \<Rightarrow> nat \<Rightarrow> 'r \<times> status \<times> slice) \<Rightarrow> ('r \<Rightarrow> nat \<Rightarrow> 'r \<times> status) \<Rightarrow>
    (status \<Rightarrow> 's \<Rightarrow> 's) \<Rightarrow> ('s \<Rightarrow> bool) \<Rightarrow> (slice \<Rightarrow> 's \<Rightarrow> ('s \<times> bool) option) \<Rightarrow> 'r Reader \<Rightarrow> 's \<Rightarrow> 's option" where
  "log_loop decimal Read Skip report ok body r st =
     (case ReadRecord decimal Read Skip r of
        None \<Rightarrow> None
      | Some (r1, got, rec) \<Rightarrow>
          let st = fold (\<lambda>(bytes, s). report s) (drop (length (r_reports r)) (r_reports r1)) st
          in if got \<and> ok st then
               (case body rec st of
                  None \<Rightarrow> None
                | Some (st, continue) \<Rightarrow> if continue then log_loop decimal Read Skip report ok body r1 st else Some st)
             else Some st)"

definition recover_loop :: "(uint32 \<Rightarrow> slice) \<Rightarrow> ('r \<Rightarrow> nat \<Rightarrow> 'r \<times> status \<times> slice) \<Rightarrow> ('r \<Rightarrow> nat \<Rightarrow> 'r \<times> status) \<Rightarrow>
    'f output_ops \<Rightarrow> Options \<Rightarrow> nat \<Rightarrow> new_char \<Rightarrow> (slice \<Rightarrow> slice \<Rightarrow> int) \<Rightarrow> 'r Reader \<Rightarrow> 'f RecoverState \<Rightarrow> 'f RecoverState option" where
  "recover_loop decimal Read Skip ops opt write_buffer_size new ucmp =
     log_loop decimal Read Skip (\<lambda>s st. st \<lparr> rv_status := LogReporter_Corruption (opt_paranoid_checks opt) s (rv_status st) \<rparr>)
       (\<lambda>st. Status_ok (rv_status st)) (recover_record ops opt write_buffer_size new ucmp)"

text \<open>The log that is kept for reuse: its number, its writer, and the memtable that goes with it.\<close>

record 'l Reused =
  ru_log :: 'l
  ru_number :: uint64
  ru_mem :: MemTable

text \<open>\<open>reopen\<close> is the appendable file with its size, if both could be had.\<close>

definition reuse_log :: "new_char \<Rightarrow> ('w \<times> nat) option \<Rightarrow> uint64 \<Rightarrow> 'f RecoverState \<Rightarrow> 'w Writer Reused option" where
  "reuse_log new reopen log_num st =
     (if Status_ok (rv_status st) \<and> rv_compactions st = 0
      then map_option (\<lambda>(w, sz). \<lparr> ru_log = Writer_append w sz, ru_number = log_num,
             ru_mem = (case rv_mem st of Some m \<Rightarrow> m | None \<Rightarrow> MemTable_Ref (MemTable_new new)) \<rparr>) reopen
      else None)"

text \<open>\<open>sfile\<close> is the result of opening the file.\<close>

definition RecoverLogFile :: "(uint32 \<Rightarrow> slice) \<Rightarrow> ('r \<Rightarrow> nat \<Rightarrow> 'r \<times> status \<times> slice) \<Rightarrow> ('r \<Rightarrow> nat \<Rightarrow> 'r \<times> status) \<Rightarrow> 'f output_ops \<Rightarrow> Options \<Rightarrow> nat \<Rightarrow> new_char \<Rightarrow>
    (slice \<Rightarrow> slice \<Rightarrow> int) \<Rightarrow> bool \<Rightarrow> bool \<Rightarrow> ('w \<times> nat) option \<Rightarrow> uint64 \<Rightarrow> 'r option \<times> status \<Rightarrow> 'f RecoverState \<Rightarrow>
    ('f RecoverState \<times> 'w Writer Reused option) option" where
  "RecoverLogFile decimal Read Skip ops opt write_buffer_size new ucmp reuse_logs last_log reopen log_num sfile st =
     (if \<not> Status_ok (snd sfile) then Some (st \<lparr> rv_status := MaybeIgnoreError (opt_paranoid_checks opt) (snd sfile) \<rparr>, None)
      else case fst sfile of
             None \<Rightarrow> None
           | Some file \<Rightarrow>
               (case recover_loop decimal Read Skip ops opt write_buffer_size new ucmp (Reader_new file True True 0)
                       (st \<lparr> rv_status := Status_OK, rv_mem := None, rv_compactions := 0 \<rparr>) of
                  None \<Rightarrow> None
                | Some st \<Rightarrow>
                    let reused = (if reuse_logs \<and> last_log then reuse_log new reopen log_num st else None);
                        st = (if reused \<noteq> None then st \<lparr> rv_mem := None \<rparr> else st)
                    in (case rv_mem st of
                         None \<Rightarrow> Some (st, reused)
                       | Some mem \<Rightarrow>
                           if Status_ok (rv_status st) then
                             (case WriteLevel0Table ops opt ucmp mem None (rv_out st) of
                                None \<Rightarrow> None
                              | Some (out, s) \<Rightarrow> Some (st \<lparr> rv_save_manifest := True, rv_out := out, rv_status := s, rv_mem := None \<rparr>, reused))
                           else Some (st \<lparr> rv_mem := None \<rparr>, reused))))"

subsection \<open>The files of a database\<close>

text \<open>What \<open>Recover\<close> reads from the names of the directory: the numbers of the tables that are missing, and the logs in the order of their numbers.\<close>

definition Recover_files :: "uint64 set \<Rightarrow> uint64 \<Rightarrow> uint64 \<Rightarrow> slice list \<Rightarrow> uint64 set \<times> uint64 list" where
  "Recover_files expected min_log prev_log filenames =
     (let (expected, logs) = fold (\<lambda>name (expected, logs).
            case ParseFileName name of
              None \<Rightarrow> (expected, logs)
            | Some (number, type) \<Rightarrow>
                (expected - {number}, if type = kLogFile \<and> (min_log \<le> number \<or> number = prev_log) then logs @ [number] else logs))
            filenames (expected, [])
      in (expected, sort logs))"

definition obsolete_keep :: "uint64 set \<Rightarrow> uint64 \<Rightarrow> uint64 \<Rightarrow> uint64 \<Rightarrow> uint64 \<Rightarrow> FileType \<Rightarrow> bool" where
  "obsolete_keep live log_num prev_log manifest_number number type =
     (case type of
        kLogFile \<Rightarrow> log_num \<le> number \<or> number = prev_log
      | kDescriptorFile \<Rightarrow> manifest_number \<le> number
      | kTableFile \<Rightarrow> number \<in> live
      | kTempFile \<Rightarrow> number \<in> live
      | _ \<Rightarrow> True)"

text \<open>The names that are deleted.\<close>

definition DeleteObsoleteFiles :: "status \<Rightarrow> uint64 set \<Rightarrow> Version list \<Rightarrow> uint64 \<Rightarrow> uint64 \<Rightarrow> uint64 \<Rightarrow> slice list \<Rightarrow> slice list" where
  "DeleteObsoleteFiles bg_error pending_outputs versions log_num prev_log manifest_number filenames =
     (if \<not> Status_ok bg_error then []
      else let live = AddLiveFiles versions pending_outputs
           in filter (\<lambda>name. case ParseFileName name of
                None \<Rightarrow> False
              | Some (number, type) \<Rightarrow> \<not> obsolete_keep live log_num prev_log manifest_number number type) filenames)"

definition DestroyDB_names :: "slice list \<Rightarrow> slice list" where
  "DestroyDB_names filenames = filter (\<lambda>name. case ParseFileName name of None \<Rightarrow> False | Some (_, type) \<Rightarrow> type \<noteq> kDBLockFile) filenames"


subsection \<open>A table built from an iterator holds its entries\<close>

context cursor
begin

lemma BuildTable_loop_law:
  "at it es j \<Longrightarrow> \<exists>it'. BuildTable_loop ops wops it largest b =
      Some (it', if j < length es then fst (last es) else largest, fold (\<lambda>(k, v) r. TableBuilder_Add wops r k v) (drop j es) b) \<and> at it' es (length es)"
proof (induction "length es - j" arbitrary: it j largest b)
  case 0
  then have "j = length es" "\<not> io_Valid ops it" using at_le [of it es j] at_valid [of it es j] by auto
  then show ?case using 0 by (subst BuildTable_loop.simps) simp
next
  case (Suc n)
  then have j: "j < length es" by simp
  have v: "io_Valid ops it" "io_key ops it = fst (es ! j)" "io_value ops it = snd (es ! j)"
    using at_valid [OF Suc.prems] at_key [OF Suc.prems j] at_value [OF Suc.prems j] j by simp_all
  obtain it1 where it1: "io_Next ops it = Some it1" "at it1 es (Suc j)" using at_next [OF Suc.prems j] by blast
  have "n = length es - Suc j" using Suc.hyps(2) by simp
  from Suc.hyps(1) [OF this it1(2)] obtain it' where it': "BuildTable_loop ops wops it1 (fst (es ! j)) (TableBuilder_Add wops b (fst (es ! j)) (snd (es ! j))) =
      Some (it', if Suc j < length es then fst (last es) else fst (es ! j),
        fold (\<lambda>(k, v) r. TableBuilder_Add wops r k v) (drop (Suc j) es) (TableBuilder_Add wops b (fst (es ! j)) (snd (es ! j))))" "at it' es (length es)"
    by blast
  have "fold (\<lambda>(k, v) r. TableBuilder_Add wops r k v) (drop j es) b =
      fold (\<lambda>(k, v) r. TableBuilder_Add wops r k v) (drop (Suc j) es) (TableBuilder_Add wops b (fst (es ! j)) (snd (es ! j)))"
    using j by (simp add: Cons_nth_drop_Suc [symmetric] case_prod_unfold)
  moreover have "(if Suc j < length es then fst (last es) else fst (es ! j)) = fst (last es)"
  proof (cases "Suc j < length es")
    case False
    then have "j = length es - 1" "es \<noteq> []" using j by auto
    then show ?thesis by (simp add: last_conv_nth)
  qed simp
  ultimately show ?case using v it1(1) it' j by (subst BuildTable_loop.simps) auto
qed

end

context output_files
begin

lemma BuildTable_law:
  assumes "cursor ivalid icmp iops at" "at it es j" "es \<noteq> []" "1 \<le> opt_block_restart_interval opt"
    and "\<And>n sz f. table_of (oo_write ops) contents writable opt es (contents f) \<Longrightarrow> oo_verify ops n sz f = Status_OK"
  shows "\<exists>f. table_of (oo_write ops) contents writable opt es (contents f) \<and>
    BuildTable iops ops opt number it = Some (\<lparr> bt_file_size = word_of_nat (length (contents f)), bt_smallest = fst (hd es), bt_largest = fst (last es),
      bt_file = (if 0 < (word_of_nat (length (contents f)) :: uint64) then Some f else None) \<rparr>, Status_OK)"
proof -
  obtain i where i: "io_SeekToFirst iops it = Some i" "at i es 0" using cursor.at_first [OF assms(1,2)] by blast
  have v: "io_Valid iops i" "io_key iops i = fst (hd es)"
    using cursor.at_valid [OF assms(1) i(2)] cursor.at_key [OF assms(1) i(2)] assms(3) by (simp_all add: hd_conv_nth)
  obtain f where f: "oo_NewWritableFile ops number = (Some f, Status_OK)" "writable f" "contents f = []" using new_law by blast
  obtain i' where i': "BuildTable_loop iops (oo_write ops) i [] (TableBuilder_new opt f) = Some (i', fst (last es), run_builder (oo_write ops) opt f es)" "at i' es (length es)"
    using cursor.BuildTable_loop_law [OF assms(1) i(2)] assms(3) unfolding run_builder_def by fastforce
  obtain bl cur where "tb_inv (oo_write ops) contents writable opt es bl cur (run_builder (oo_write ops) opt f es)"
    using tb_add_all [OF assms(4) tb_new [OF f(2,3)], of es] by (auto simp: run_builder_def)
  from tb_finish [OF this assms(4)] obtain r where r: "TableBuilder_Finish (oo_write ops) (run_builder (oo_write ops) opt f es) = (r, Status_OK)"
      "writable (tb_file r)" "tb_offset r = word_of_nat (length (contents (tb_file r)))" by blast
  obtain f1 where f1: "oo_Sync ops (tb_file r) = (f1, Status_OK)" "writable f1" "contents f1 = contents (tb_file r)" using sync_law [OF r(2)] by blast
  obtain f2 where f2: "oo_Close ops f1 = (f2, Status_OK)" "contents f2 = contents f1" using close_law [OF f1(2)] by blast
  have t: "table_of (oo_write ops) contents writable opt es (contents f2)"
    unfolding table_of_def using f(2,3) r(1) f1(3) f2(2) by (auto simp: build_table_def run_builder_def)
  have "io_status iops i' = Status_OK" using cursor.at_status [OF assms(1) i'(2)] .
  then have "BuildTable iops ops opt number it = Some (\<lparr> bt_file_size = word_of_nat (length (contents f2)), bt_smallest = fst (hd es), bt_largest = fst (last es),
      bt_file = (if 0 < (word_of_nat (length (contents f2)) :: uint64) then Some f2 else None) \<rparr>, Status_OK)"
    using i(1) v f(1) i'(1) r(1,3) f1(1,3) f2(1,2) assms(5) [OF t] by (simp add: BuildTable_def TableBuilder_FileSize_def Let_def)
  then show ?thesis using t by blast
qed

end

text \<open>The entries of a memtable in the order of a table.\<close>

definition flushed_as :: "(slice \<Rightarrow> slice \<Rightarrow> int) \<Rightarrow> mem_add list \<Rightarrow> entries \<Rightarrow> bool" where
  "flushed_as ucmp as es \<longleftrightarrow> set es = add_pair ` set as \<and> sorted_entries valid_ikey (InternalKey_Compare ucmp) es"

lemma mem_flush_cursor:
  assumes "user_comparator ucmp sep succ" "mem_of new ucmp as m" "\<forall>a\<in>set as. add_ok a" "distinct_adds ucmp as"
  shows "\<exists>es. flushed_as ucmp as es \<and> mem_at ucmp m Iter_new es (length es)"
proof -
  obtain ks where "mem_holds ucmp m ks as" using mem_of_holds [OF assms(1,3,4), of new] assms(2) by (auto simp: mem_of_def)
  then obtain zs where z: "set zs = set as" "mem_at ucmp m Iter_new (map add_pair zs) (length zs)" using user_comparator.mem_iterator [OF assms(1)] by blast
  have "sorted_entries valid_mkey (InternalKey_Compare ucmp) (map add_pair zs)" using user_comparator.mem_at_sorted [OF assms(1) z(2)] .
  then have "sorted_entries valid_ikey (InternalKey_Compare ucmp) (map add_pair zs)" by (auto simp: sorted_entries_def valid_mkey_def)
  then show ?thesis using z by (intro exI [of _ "map add_pair zs"]) (simp add: flushed_as_def)
qed


subsection \<open>Flushing\<close>

text \<open>Files in which a memtable with additions from \<open>A\<close> can be written: the tables open again and their lengths are not a multiple of \<open>2 ^ 64\<close>.\<close>

locale flush_files = user_comparator ucmp sep succ + output_files ops contents writable
  for ucmp sep succ and ops :: "'f output_ops" and contents writable +
  fixes opt :: Options and A :: "mem_add set"
  assumes interval: "1 \<le> opt_block_restart_interval opt"
    and usable: "flushed_as ucmp as es \<Longrightarrow> as \<noteq> [] \<Longrightarrow> set as \<subseteq> A \<Longrightarrow> table_of (oo_write ops) contents writable opt es (contents f) \<Longrightarrow>
      oo_verify ops n sz f = Status_OK \<and> (word_of_nat (length (contents f)) :: uint64) \<noteq> 0"

text \<open>What a flush of a memtable with the additions \<open>as\<close> does to the counter, the edit and the files.\<close>

fun flush_step :: "'f write_ops \<Rightarrow> ('f \<Rightarrow> slice) \<Rightarrow> ('f \<Rightarrow> bool) \<Rightarrow> Options \<Rightarrow> (slice \<Rightarrow> slice \<Rightarrow> int) \<Rightarrow> mem_add list \<Rightarrow>
    uint64 \<times> VersionEdit \<times> (uint64 \<times> 'f) list \<Rightarrow> uint64 \<times> VersionEdit \<times> (uint64 \<times> 'f) list \<Rightarrow> bool" where
  "flush_step wops contents writable opt ucmp as (nf, edit, files) out \<longleftrightarrow>
     (if as = [] then out = (nf + 1, edit, files)
      else \<exists>es f. flushed_as ucmp as es \<and> table_of wops contents writable opt es (contents f) \<and>
        out = (nf + 1, AddFile edit 0 nf (word_of_nat (length (contents f))) (fst (hd es)) (fst (last es)), files @ [(nf, f)]))"

fun flush_steps :: "'f write_ops \<Rightarrow> ('f \<Rightarrow> slice) \<Rightarrow> ('f \<Rightarrow> bool) \<Rightarrow> Options \<Rightarrow> (slice \<Rightarrow> slice \<Rightarrow> int) \<Rightarrow> mem_add list list \<Rightarrow>
    uint64 \<times> VersionEdit \<times> (uint64 \<times> 'f) list \<Rightarrow> uint64 \<times> VersionEdit \<times> (uint64 \<times> 'f) list \<Rightarrow> bool" where
  "flush_steps wops contents writable opt ucmp [] out out' \<longleftrightarrow> out' = out"
| "flush_steps wops contents writable opt ucmp (as # ass) out out' \<longleftrightarrow>
     (\<exists>out1. flush_step wops contents writable opt ucmp as out out1 \<and> flush_steps wops contents writable opt ucmp ass out1 out')"

lemma flush_steps_snoc:
  "flush_steps wops contents writable opt ucmp ass out out1 \<Longrightarrow> flush_step wops contents writable opt ucmp as out1 out2 \<Longrightarrow>
    flush_steps wops contents writable opt ucmp (ass @ [as]) out out2"
  by (induction ass arbitrary: out) (simp del: flush_step.simps split_paired_Ex, simp del: flush_step.simps split_paired_Ex, blast)

context flush_files
begin

lemma WriteLevel0_law:
  assumes "mem_of new ucmp as m" "\<forall>a\<in>set as. add_ok a" "distinct_adds ucmp as" "set as \<subseteq> A"
  shows "\<exists>out'. WriteLevel0Table ops opt ucmp m None out = Some (out', Status_OK) \<and> flush_step (oo_write ops) contents writable opt ucmp as out out'"
proof -
  obtain nf edit files where out: "out = (nf, edit, files)" by (cases out)
  obtain es where es: "flushed_as ucmp as es" "mem_at ucmp m Iter_new es (length es)" using mem_flush_cursor [OF user_comparator_axioms assms(1-3)] by blast
  have c: "cursor valid_mkey (InternalKey_Compare ucmp) (memiter_ops ucmp m) (mem_at ucmp m)" by (rule mem_cursor)
  show ?thesis
  proof (cases "as = []")
    case True
    then have "es = []" using es(1) by (simp add: flushed_as_def)
    obtain i where i: "io_SeekToFirst (memiter_ops ucmp m) Iter_new = Some i" "mem_at ucmp m i es 0" using cursor.at_first [OF c es(2)] by blast
    have "\<not> io_Valid (memiter_ops ucmp m) i" "io_status (memiter_ops ucmp m) i = Status_OK"
      using cursor.at_valid [OF c i(2)] cursor.at_status [OF c i(2)] \<open>es = []\<close> by simp_all
    then show ?thesis using i(1) True out by (simp add: WriteLevel0Table_def BuildTable_def NewFileNumber_def)
  next
    case False
    then have ne: "es \<noteq> []" using es(1) by (auto simp: flushed_as_def)
    note ok = usable [OF es(1) False assms(4)]
    obtain f where f: "table_of (oo_write ops) contents writable opt es (contents f)"
        "BuildTable (memiter_ops ucmp m) ops opt nf Iter_new = Some (\<lparr> bt_file_size = word_of_nat (length (contents f)), bt_smallest = fst (hd es), bt_largest = fst (last es),
          bt_file = (if 0 < (word_of_nat (length (contents f)) :: uint64) then Some f else None) \<rparr>, Status_OK)"
      using BuildTable_law [OF c es(2) ne interval] ok by blast
    have "0 < (word_of_nat (length (contents f)) :: uint64)" using ok [OF f(1)] by (simp add: word_neq_0_conv)
    then show ?thesis using f es(1) False out by (auto simp: WriteLevel0Table_def NewFileNumber_def)
  qed
qed

end

subsection \<open>Replaying records\<close>

text \<open>The rounds of the loop on a list of records.\<close>

fun replay :: "('s \<Rightarrow> bool) \<Rightarrow> (slice \<Rightarrow> 's \<Rightarrow> ('s \<times> bool) option) \<Rightarrow> slice list \<Rightarrow> 's \<Rightarrow> 's option" where
  "replay ok body [] st = Some st"
| "replay ok body (rec # recs) st =
     (if ok st then
        (case body rec st of
           None \<Rightarrow> None
         | Some (st, continue) \<Rightarrow> if continue then replay ok body recs st else Some st)
      else Some st)"

context sequential_file
begin

lemma log_loop_replay:
  assumes "at_block b (take n (log_bytes b ds)) r"
  shows "\<exists>k\<le>length ds. log_loop decimal Read Skip report ok body r st = replay ok body (take k ds) st \<and>
    length (log_bytes b (take k ds)) \<le> n \<and> (k < length ds \<longrightarrow> n < length (log_bytes b (take (Suc k) ds)))"
  using assms
proof (induction ds arbitrary: b n r st)
  case Nil
  then have at: "at_block b (take 0 (fst (record_bytes b [] True))) r" by simp
  obtain r' where "ReadRecord decimal Read Skip r = Some (r', False, [])" "same_reports r r'"
    using read_record_cut [OF at record_bytes_nonempty, where scratch = "[]"] ReadRecord_at [OF Nil] by metis
  then show ?case by (subst log_loop.simps) (simp add: same_reports_def)
next
  case (Cons d ds)
  let ?h = "fst (record_bytes b d True)" and ?b = "snd (record_bytes b d True)"
  show ?case
  proof (cases "n < length ?h")
    case True
    then have at: "at_block b (take n ?h) r" using Cons.prems by (simp add: log_bytes_Cons)
    obtain r' where "ReadRecord decimal Read Skip r = Some (r', False, [])" "same_reports r r'"
      using read_record_cut [OF at True, where scratch = "[]"] ReadRecord_at [OF at] by metis
    then show ?thesis using True
      by (subst log_loop.simps) (simp add: same_reports_def log_bytes_Cons exI [of _ 0])
  next
    case False
    let ?m = "n - length ?h"
    have at: "at_block b (?h @ take ?m (log_bytes ?b ds)) r" using Cons.prems False by (simp add: log_bytes_Cons)
    obtain r1 where r1: "ReadRecord decimal Read Skip r = Some (r1, True, d)" "at_block ?b (take ?m (log_bytes ?b ds)) r1"
      "same_reports r r1"
      using read_record [OF at, where scratch = "[]"] ReadRecord_at [OF at] by force
    have rest: "\<exists>k\<le>length ds. log_loop decimal Read Skip report ok body r1 st' = replay ok body (take k ds) st' \<and>
        length (log_bytes ?b (take k ds)) \<le> ?m \<and> (k < length ds \<longrightarrow> ?m < length (log_bytes ?b (take (Suc k) ds)))" for st'
      using Cons.IH [OF r1(2)] .
    define st1 where "st1 = (case body d st of Some (st', _) \<Rightarrow> st' | None \<Rightarrow> st)"
    obtain k where k: "k \<le> length ds" "log_loop decimal Read Skip report ok body r1 st1 = replay ok body (take k ds) st1"
        "length (log_bytes ?b (take k ds)) \<le> ?m" "k < length ds \<longrightarrow> ?m < length (log_bytes ?b (take (Suc k) ds))" using rest by blast
    have "log_loop decimal Read Skip report ok body r st = replay ok body (take (Suc k) (d # ds)) st"
      using r1(1,3) k(2) by (subst log_loop.simps) (auto simp: same_reports_def st1_def split: option.splits)
    then show ?thesis using k False by (intro exI [of _ "Suc k"]) (auto simp: log_bytes_Cons)
  qed
qed

end


text \<open>The batches of a log, each with its first sequence number, the additions they stand for and the number after which they leave off.\<close>

type_synonym log_batch = "uint64 \<times> Update list"

definition batch_record :: "log_batch \<Rightarrow> slice" where
  "batch_record b = WriteBatch_SetSequence (batch_of (snd b)) (fst b)"

definition batches_adds :: "log_batch list \<Rightarrow> mem_add list" where
  "batches_adds bs = concat (map (\<lambda>b. batch_adds (fst b) (snd b)) bs)"

definition batches_last :: "log_batch list \<Rightarrow> uint64 \<Rightarrow> uint64" where
  "batches_last bs m = fold (\<lambda>b m. max m (fst b + word_of_nat (length (snd b)) - 1)) bs m"

definition batch_fits :: "log_batch \<Rightarrow> bool" where
  "batch_fits b \<longleftrightarrow> length (snd b) < 2 ^ 31 \<and> (\<forall>u\<in>set (snd b). small u)"

text \<open>The state of the loop once the additions \<open>T\<close> have been replayed: those of \<open>chunks\<close> are in tables, the others in the memtable.\<close>

definition recover_inv :: "'f write_ops \<Rightarrow> ('f \<Rightarrow> slice) \<Rightarrow> ('f \<Rightarrow> bool) \<Rightarrow> Options \<Rightarrow> new_char \<Rightarrow> (slice \<Rightarrow> slice \<Rightarrow> int) \<Rightarrow> 'f RecoverState \<Rightarrow>
    mem_add list \<Rightarrow> mem_add list list \<Rightarrow> mem_add list \<Rightarrow> 'f RecoverState \<Rightarrow> bool" where
  "recover_inv wops contents writable opt new ucmp start T chunks cur st \<longleftrightarrow> Status_ok (rv_status st) \<and> T = concat chunks @ cur \<and>
     imm_of new ucmp cur (rv_mem st) \<and> rv_compactions st = length chunks \<and> rv_save_manifest st = (rv_save_manifest start \<or> chunks \<noteq> []) \<and>
     flush_steps wops contents writable opt ucmp chunks (rv_out start) (rv_out st)"

lemma batch_record_is: "is_batch (batch_record b) (fst b) (snd b)"
  unfolding batch_record_def by (rule is_batch_SetSequence [OF is_batch_of])

lemma batch_record_length: "12 \<le> length (batch_record b)"
  using batch_record_is [of b] by (simp add: is_batch_def)

lemma mem_of_empty: "mem_of new ucmp [] (MemTable_Ref (MemTable_new new))"
  by (simp add: mem_of_def mem_add_all_def)

context flush_files
begin

lemma recover_record_law:
  assumes inv: "recover_inv (oo_write ops) contents writable opt new ucmp start T chunks cur st" and b: "batch_fits b"
    and ok: "\<forall>a\<in>set (T @ batch_adds (fst b) (snd b)). add_ok a" "distinct_adds ucmp (T @ batch_adds (fst b) (snd b))" "set (T @ batch_adds (fst b) (snd b)) \<subseteq> A"
  shows "\<exists>st' chunks' cur'. recover_record ops opt buffer new ucmp (batch_record b) st = Some (st', True) \<and>
    recover_inv (oo_write ops) contents writable opt new ucmp start (T @ batch_adds (fst b) (snd b)) chunks' cur' st' \<and>
    rv_max_sequence st' = max (rv_max_sequence st) (fst b + word_of_nat (length (snd b)) - 1)"
proof -
  let ?as = "batch_adds (fst b) (snd b)" and ?m0 = "case rv_mem st of None \<Rightarrow> MemTable_Ref (MemTable_new new) | Some m \<Rightarrow> m"
  let ?last = "fst b + word_of_nat (length (snd b)) - 1"
  have T: "T = concat chunks @ cur" and mem: "mem_of new ucmp cur ?m0"
    using inv mem_of_empty by (auto simp: recover_inv_def imm_of_def split: option.splits)
  have d: "distinct_adds ucmp (cur @ ?as)" using ok(2) distinct_adds_suffix [of ucmp "concat chunks" "cur @ ?as"] by (simp add: T)
  have o: "\<forall>a\<in>set (cur @ ?as). add_ok a" "set (cur @ ?as) \<subseteq> A" using ok(1,3) by (auto simp: T)
  obtain m where m: "mem_of new ucmp (cur @ ?as) m" using mem_of_holds [OF user_comparator_axioms o(1) d] by blast
  then have add: "mem_add_all new ucmp ?as ?m0 = Some m" using mem by (simp add: mem_of_def mem_add_all_append)
  have ins: "WriteBatch_InsertInto (memtable_adder new ucmp) (batch_record b) (Some ?m0) = (Some m, Status_OK)"
    using InsertInto_is_batch [OF batch_record_is, of b new ucmp ?m0] b add by (simp add: batch_fits_def)
  have seq: "WriteBatch_Sequence (batch_record b) + scast (WriteBatch_Count (batch_record b)) - 1 = ?last"
    using is_batch_parts(1,2) [OF batch_record_is, of b] scast_count [of "length (snd b)"] b by (simp add: batch_fits_def)
  define st1 where "st1 = (if rv_max_sequence st < ?last then st \<lparr> rv_mem := Some m, rv_status := Status_OK, rv_max_sequence := ?last \<rparr> else st \<lparr> rv_mem := Some m, rv_status := Status_OK \<rparr>)"
  have st1: "rv_out st1 = rv_out st" "rv_mem st1 = Some m" "rv_status st1 = Status_OK" "rv_compactions st1 = rv_compactions st" "rv_save_manifest st1 = rv_save_manifest st"
      "rv_max_sequence st1 = max (rv_max_sequence st) ?last" by (auto simp: st1_def max_def)
  have r: "recover_record ops opt buffer new ucmp (batch_record b) st =
      (if buffer < ApproximateMemoryUsage m then
         (case WriteLevel0Table ops opt ucmp m None (rv_out st1) of None \<Rightarrow> None
          | Some (out, s) \<Rightarrow> Some (st1 \<lparr> rv_compactions := rv_compactions st1 + 1, rv_save_manifest := True, rv_out := out, rv_status := s, rv_mem := None \<rparr>, Status_ok s))
       else Some (st1, True))"
    using batch_record_length [of b] ins seq by (simp add: recover_record_def WriteBatch_SetContents_def MaybeIgnoreError_def Let_def st1_def split: option.split prod.split)
  show ?thesis
  proof (cases "buffer < ApproximateMemoryUsage m")
    case True
    obtain out where out: "WriteLevel0Table ops opt ucmp m None (rv_out st1) = Some (out, Status_OK)" "flush_step (oo_write ops) contents writable opt ucmp (cur @ ?as) (rv_out st1) out"
      using WriteLevel0_law [OF m o(1) d o(2)] by blast
    let ?st = "st1 \<lparr> rv_compactions := rv_compactions st1 + 1, rv_save_manifest := True, rv_out := out, rv_status := Status_OK, rv_mem := None \<rparr>"
    have "recover_inv (oo_write ops) contents writable opt new ucmp start (T @ ?as) (chunks @ [cur @ ?as]) [] ?st"
      using inv flush_steps_snoc [of "oo_write ops" contents writable opt ucmp chunks "rv_out start" "rv_out st" "cur @ ?as" out] out(2) st1
      by (simp add: recover_inv_def T imm_of_def)
    then show ?thesis using r True out(1) st1 by auto
  next
    case False
    have "recover_inv (oo_write ops) contents writable opt new ucmp start (T @ ?as) chunks (cur @ ?as) st1"
      using inv st1 m by (simp add: recover_inv_def T imm_of_def)
    then show ?thesis using r False st1 by auto
  qed
qed

lemma replay_law:
  assumes "recover_inv (oo_write ops) contents writable opt new ucmp start T chunks cur st" "\<forall>b\<in>set bs. batch_fits b"
    and "\<forall>a\<in>set (T @ batches_adds bs). add_ok a" "distinct_adds ucmp (T @ batches_adds bs)" "set (T @ batches_adds bs) \<subseteq> A"
  shows "\<exists>st' chunks' cur'. replay (\<lambda>st. Status_ok (rv_status st)) (recover_record ops opt buffer new ucmp) (map batch_record bs) st = Some st' \<and>
    recover_inv (oo_write ops) contents writable opt new ucmp start (T @ batches_adds bs) chunks' cur' st' \<and> rv_max_sequence st' = batches_last bs (rv_max_sequence st)"
  using assms
proof (induction bs arbitrary: T chunks cur st)
  case Nil
  then show ?case by (auto simp: batches_adds_def batches_last_def)
next
  case (Cons b bs)
  let ?as = "batch_adds (fst b) (snd b)"
  have bs: "T @ batches_adds (b # bs) = (T @ ?as) @ batches_adds bs" by (simp add: batches_adds_def)
  note prems = Cons.prems(3,4,5) [unfolded bs]
  have d: "distinct_adds ucmp (T @ ?as)" using prems(2) by (simp add: distinct_adds_def sorted_wrt_append)
  have o: "\<forall>a\<in>set (T @ ?as). add_ok a" "set (T @ ?as) \<subseteq> A" using prems(1,3) by auto
  have "batch_fits b" using Cons.prems(2) by simp
  from recover_record_law [OF Cons.prems(1) this o(1) d o(2)] obtain st1 chunks1 cur1 where
    st1: "recover_record ops opt buffer new ucmp (batch_record b) st = Some (st1, True)"
      "recover_inv (oo_write ops) contents writable opt new ucmp start (T @ ?as) chunks1 cur1 st1"
      "rv_max_sequence st1 = max (rv_max_sequence st) (fst b + word_of_nat (length (snd b)) - 1)" by blast
  have "Status_ok (rv_status st)" using Cons.prems(1) by (simp add: recover_inv_def)
  moreover obtain st' chunks' cur' where "replay (\<lambda>st. Status_ok (rv_status st)) (recover_record ops opt buffer new ucmp) (map batch_record bs) st1 = Some st'"
      "recover_inv (oo_write ops) contents writable opt new ucmp start ((T @ ?as) @ batches_adds bs) chunks' cur' st'" "rv_max_sequence st' = batches_last bs (rv_max_sequence st1)"
    using Cons.IH [OF st1(2) _ prems] Cons.prems(2) by auto
  ultimately show ?case using st1 unfolding bs by (auto simp: batches_last_def)
qed

end


lemma take_map_batch: "take k (map batch_record bs) = map batch_record (take k bs)"
  by (simp add: take_map)

context flush_files
begin

lemma finish_recovery:
  assumes inv: "recover_inv (oo_write ops) contents writable opt new ucmp start T chunks cur st"
    and ok: "\<forall>a\<in>set T. add_ok a" "distinct_adds ucmp T" "set T \<subseteq> A" and mem: "rv_mem st = Some m"
  shows "\<exists>out. WriteLevel0Table ops opt ucmp m None (rv_out st) = Some (out, Status_OK) \<and> flush_steps (oo_write ops) contents writable opt ucmp (chunks @ [cur]) (rv_out start) out"
proof -
  have T: "T = concat chunks @ cur" and m: "mem_of new ucmp cur m" using inv mem by (auto simp: recover_inv_def imm_of_def)
  have d: "distinct_adds ucmp cur" using ok(2) unfolding T by (rule distinct_adds_suffix)
  have o: "\<forall>a\<in>set cur. add_ok a" "set cur \<subseteq> A" using ok(1,3) T by auto
  obtain out where "WriteLevel0Table ops opt ucmp m None (rv_out st) = Some (out, Status_OK)" "flush_step (oo_write ops) contents writable opt ucmp cur (rv_out st) out"
    using WriteLevel0_law [OF m o(1) d o(2)] by blast
  moreover have "flush_steps (oo_write ops) contents writable opt ucmp chunks (rv_out start) (rv_out st)" using inv by (simp add: recover_inv_def)
  ultimately show ?thesis using flush_steps_snoc by blast
qed

lemma RecoverLogFile_law:
  assumes loop: "recover_loop decimal Read Skip ops opt buffer new ucmp (Reader_new file True True 0) (start \<lparr> rv_status := Status_OK, rv_mem := None, rv_compactions := 0 \<rparr>) =
      replay (\<lambda>st. Status_ok (rv_status st)) (recover_record ops opt buffer new ucmp) (map batch_record bs) (start \<lparr> rv_status := Status_OK, rv_mem := None, rv_compactions := 0 \<rparr>)"
    and fits: "\<forall>b\<in>set bs. batch_fits b" and ok: "\<forall>a\<in>set (batches_adds bs). add_ok a" "distinct_adds ucmp (batches_adds bs)" "set (batches_adds bs) \<subseteq> A"
  shows "\<exists>st' reused chunks cur. RecoverLogFile decimal Read Skip ops opt buffer new ucmp reuse_logs last_log reopen log_num (Some file, Status_OK) start = Some (st', reused) \<and>
    Status_ok (rv_status st') \<and> concat chunks @ cur = batches_adds bs \<and> flush_steps (oo_write ops) contents writable opt ucmp chunks (rv_out start) (rv_out st') \<and>
    rv_max_sequence st' = batches_last bs (rv_max_sequence start) \<and>
    (case reused of None \<Rightarrow> cur = [] | Some r \<Rightarrow> chunks = [] \<and> mem_of new ucmp cur (ru_mem r))"
proof -
  let ?s = "start \<lparr> rv_status := Status_OK, rv_mem := None, rv_compactions := 0 \<rparr>"
  have "recover_inv (oo_write ops) contents writable opt new ucmp start [] [] [] ?s" by (simp add: recover_inv_def imm_of_def)
  from replay_law [OF this fits, of buffer] ok obtain st chunks cur where st: "replay (\<lambda>st. Status_ok (rv_status st)) (recover_record ops opt buffer new ucmp) (map batch_record bs) ?s = Some st"
      "recover_inv (oo_write ops) contents writable opt new ucmp start (batches_adds bs) chunks cur st" "rv_max_sequence st = batches_last bs (rv_max_sequence start)" by auto
  have inv: "Status_ok (rv_status st)" "batches_adds bs = concat chunks @ cur" "imm_of new ucmp cur (rv_mem st)" "rv_compactions st = length chunks"
      "flush_steps (oo_write ops) contents writable opt ucmp chunks (rv_out start) (rv_out st)" using st(2) by (simp_all add: recover_inv_def)
  define reused where "reused = (if reuse_logs \<and> last_log then reuse_log new reopen log_num st else None)"
  note unfold = RecoverLogFile_def [of decimal Read Skip ops opt buffer new ucmp reuse_logs last_log reopen log_num "(Some file, Status_OK)" start]
  show ?thesis
  proof (cases reused)
    case (Some r)
    have "chunks = []" using Some inv(4) by (auto simp: reused_def reuse_log_def split: if_splits)
    have "mem_of new ucmp cur (ru_mem r)" using Some inv(3) mem_of_empty [of new ucmp]
      by (auto simp: reused_def reuse_log_def imm_of_def split: if_splits option.splits)
    moreover have "RecoverLogFile decimal Read Skip ops opt buffer new ucmp reuse_logs last_log reopen log_num (Some file, Status_OK) start = Some (st \<lparr> rv_mem := None \<rparr>, Some r)"
      using loop st(1) Some by (simp add: unfold reused_def [symmetric] Let_def)
    ultimately show ?thesis using inv st(3) \<open>chunks = []\<close>
      by (intro exI [of _ "st \<lparr> rv_mem := None \<rparr>"] exI [of _ "Some r"] exI [of _ "[]"] exI [of _ cur]) simp
  next
    case None
    show ?thesis
    proof (cases "rv_mem st")
      case m: None
      have "RecoverLogFile decimal Read Skip ops opt buffer new ucmp reuse_logs last_log reopen log_num (Some file, Status_OK) start = Some (st, None)"
        using loop st(1) None m by (simp add: unfold reused_def [symmetric] Let_def)
      then show ?thesis using inv st(3) m by (intro exI [of _ st] exI [of _ None] exI [of _ chunks] exI [of _ cur]) (simp add: imm_of_def)
    next
      case (Some m)
      obtain out where out: "WriteLevel0Table ops opt ucmp m None (rv_out st) = Some (out, Status_OK)"
          "flush_steps (oo_write ops) contents writable opt ucmp (chunks @ [cur]) (rv_out start) out" using finish_recovery [OF st(2) ok Some] by blast
      let ?st = "st \<lparr> rv_save_manifest := True, rv_out := out, rv_status := Status_OK, rv_mem := None \<rparr>"
      have "RecoverLogFile decimal Read Skip ops opt buffer new ucmp reuse_logs last_log reopen log_num (Some file, Status_OK) start = Some (?st, None)"
        using loop st(1) None Some out(1) inv(1) by (simp add: unfold reused_def [symmetric] Let_def)
      then show ?thesis using inv(2) out(2) st(3) by (intro exI [of _ ?st] exI [of _ None] exI [of _ "chunks @ [cur]"] exI [of _ "[]"]) simp
    qed
  qed
qed

end

subsection \<open>Deleting and finding files\<close>

lemma AddLiveFiles_set: "AddLiveFiles versions live = live \<union> {fm_number f | v fs f. v \<in> set versions \<and> fs \<in> set (v_files v) \<and> f \<in> set fs}"
proof -
  have files: "fold (\<lambda>f live. insert (fm_number f) live) fs L = L \<union> fm_number ` set fs" for fs L by (induction fs arbitrary: L) auto
  have levels: "fold (\<lambda>files live. fold (\<lambda>f live. insert (fm_number f) live) files live) fss L = L \<union> (\<Union>fs\<in>set fss. fm_number ` set fs)" for fss L
    by (induction fss arbitrary: L) (auto simp: files)
  have "AddLiveFiles versions live = live \<union> (\<Union>v\<in>set versions. \<Union>fs\<in>set (v_files v). fm_number ` set fs)"
    unfolding AddLiveFiles_def levels by (induction versions arbitrary: live) auto
  then show ?thesis by auto
qed

lemma Recover_files_eq:
  "Recover_files expected min_log prev_log names =
     (expected - {n. \<exists>name\<in>set names. \<exists>t. ParseFileName name = Some (n, t)},
      sort (concat (map (\<lambda>name. case ParseFileName name of Some (n, t) \<Rightarrow> if t = kLogFile \<and> (min_log \<le> n \<or> n = prev_log) then [n] else [] | None \<Rightarrow> []) names)))"
proof -
  let ?step = "\<lambda>name (expected, logs). case ParseFileName name of None \<Rightarrow> (expected, logs)
      | Some (number, type) \<Rightarrow> (expected - {number}, if type = kLogFile \<and> (min_log \<le> number \<or> number = prev_log) then logs @ [number] else logs)"
  have "fold ?step names (E, L) = (E - {n. \<exists>name\<in>set names. \<exists>t. ParseFileName name = Some (n, t)},
      L @ concat (map (\<lambda>name. case ParseFileName name of Some (n, t) \<Rightarrow> if t = kLogFile \<and> (min_log \<le> n \<or> n = prev_log) then [n] else [] | None \<Rightarrow> []) names))" for E L
    by (induction names arbitrary: E L) (auto split: option.splits prod.splits)
  then show ?thesis by (simp add: Recover_files_def)
qed


subsection \<open>Properties\<close>

text \<open>C0. What was logged survives a crash. Batches are logged one after the other and the log is cut anywhere; replaying it, with whatever write buffer,
  recovers exactly the batches whose records were complete before the cut: their updates are all in the level-0 tables that
  the recovery writes, in order of their numbers and each with its key range in the edit, and, when the log is reused, in the
  memtable that is kept with it; the last sequence number is that of the last batch recovered; no error is reported.\<close>

theorem recovery_replays_log:
  assumes "writable_file Append Flush log_contents log_writable" "sequential_file Read Skip remaining readable"
    "flush_files ucmp sep succ ops contents writable opt (set (batches_adds bs))" "log_writable d" "log_contents d = []"
    "AddRecords Append Flush (Writer_new d) (map batch_record bs) = (w, s)" "readable f" "remaining f = take n (log_contents (dest w))"
    "\<forall>b\<in>set bs. batch_fits b" "\<forall>a\<in>set (batches_adds bs). add_ok a" "distinct_adds ucmp (batches_adds bs)"
  shows "\<exists>k\<le>length bs. (\<forall>j\<le>length bs. j \<le> k \<longleftrightarrow>
        length (log_contents (dest (fst (AddRecords Append Flush (Writer_new d) (map batch_record (take j bs)))))) \<le> n) \<and>
    (\<exists>st' reused chunks cur. RecoverLogFile decimal Read Skip ops opt buffer new ucmp reuse_logs last_log reopen log_num (Some f, Status_OK) start = Some (st', reused) \<and>
      Status_ok (rv_status st') \<and> concat chunks @ cur = batches_adds (take k bs) \<and>
      flush_steps (oo_write ops) contents writable opt ucmp chunks (rv_out start) (rv_out st') \<and>
      rv_max_sequence st' = batches_last (take k bs) (rv_max_sequence start) \<and>
      (case reused of None \<Rightarrow> cur = [] | Some r \<Rightarrow> chunks = [] \<and> mem_of new ucmp cur (ru_mem r)))"
proof -
  have empty: "log_writable (dest (Writer_new d))" "type_crc (Writer_new d) = InitTypeCrc" "block_offset (Writer_new d) = 0" "log_contents (dest (Writer_new d)) = []"
    using assms(4,5) by (simp_all add: Writer_new_def)
  have written: "log_contents (dest (fst (AddRecords Append Flush (Writer_new d) xs))) = log_bytes 0 xs" for xs
    using writable_file.AddRecords_law [OF assms(1) empty(1,2), of xs] empty(3,4) by auto
  let ?ds = "map batch_record bs"
  have at: "reader_at remaining readable kBlockSize (take n (log_bytes kBlockSize ?ds)) (Reader_new f True True 0)"
    using sequential_file.at_start [OF assms(2,7)] assms(6,8) written [of ?ds] by (simp add: log_bytes_block_end)
  from sequential_file.log_loop_replay [OF assms(2) at, of decimal "\<lambda>s st. st \<lparr> rv_status := LogReporter_Corruption (opt_paranoid_checks opt) s (rv_status st) \<rparr>"
      "\<lambda>st. Status_ok (rv_status st)" "recover_record ops opt buffer new ucmp" "start \<lparr> rv_status := Status_OK, rv_mem := None, rv_compactions := 0 \<rparr>"]
  obtain k where k: "k \<le> length bs"
      "recover_loop decimal Read Skip ops opt buffer new ucmp (Reader_new f True True 0) (start \<lparr> rv_status := Status_OK, rv_mem := None, rv_compactions := 0 \<rparr>) =
        replay (\<lambda>st. Status_ok (rv_status st)) (recover_record ops opt buffer new ucmp) (map batch_record (take k bs)) (start \<lparr> rv_status := Status_OK, rv_mem := None, rv_compactions := 0 \<rparr>)"
      "length (log_bytes 0 (take k ?ds)) \<le> n" "k < length ?ds \<longrightarrow> n < length (log_bytes 0 (take (Suc k) ?ds))"
    unfolding log_bytes_block_end recover_loop_def [symmetric] by (auto simp: take_map)
  have cut: "j \<le> k \<longleftrightarrow> length (log_bytes 0 (map batch_record (take j bs))) \<le> n" if "j \<le> length bs" for j
    using k(1,3,4) that length_log_bytes_take [of j k 0 ?ds] length_log_bytes_take [of "Suc k" j 0 ?ds] by (cases "j \<le> k") (auto simp: take_map)
  have sub: "batches_adds bs = batches_adds (take k bs) @ batches_adds (drop k bs)"
    unfolding batches_adds_def by (metis append_take_drop_id concat_append map_append)
  have pre: "\<forall>b\<in>set (take k bs). batch_fits b" "\<forall>a\<in>set (batches_adds (take k bs)). add_ok a" "set (batches_adds (take k bs)) \<subseteq> set (batches_adds bs)"
    using assms(9,10) sub by (auto dest: in_set_takeD)
  have dis: "distinct_adds ucmp (batches_adds (take k bs))" using assms(11) unfolding sub by (simp add: distinct_adds_def sorted_wrt_append)
  from flush_files.RecoverLogFile_law [OF assms(3) k(2) pre(1,2) dis pre(3), of reuse_logs last_log reopen log_num]
  show ?thesis unfolding written by (intro exI [of _ k] conjI k(1) allI impI cut)
qed

text \<open>C0. Garbage collection keeps what a recovery needs. Whatever names the directory has, what \<open>DeleteObsoleteFiles\<close> deletes leaves every table
  of every live version, \<open>CURRENT\<close>, the lock and the manifest in use; and the recovery of a live version that had all its
  tables finds none missing, and the same logs to replay as if nothing had been deleted. After a background error nothing
  is deleted.\<close>

theorem obsolete_deletion_recoverable:
  assumes "v \<in> set versions" "\<forall>fs\<in>set (v_files v). \<forall>f\<in>set fs. printf_06llu (unat (fm_number f)) @ str ''.ldb'' \<in> set names"
    "deleted = DeleteObsoleteFiles bg_error pending versions log_num prev_log manifest names" "left = filter (\<lambda>name. name \<notin> set deleted) names"
  shows "(\<forall>fs\<in>set (v_files v). \<forall>f\<in>set fs. printf_06llu (unat (fm_number f)) @ str ''.ldb'' \<in> set left) \<and>
    str ''CURRENT'' \<notin> set deleted \<and> str ''LOCK'' \<notin> set deleted \<and> str ''MANIFEST-'' @ printf_06llu (unat manifest) \<notin> set deleted \<and>
    Recover_files (AddLiveFiles [v] {}) log_num prev_log left = ({}, snd (Recover_files (AddLiveFiles [v] {}) log_num prev_log names)) \<and>
    (\<not> Status_ok bg_error \<longrightarrow> left = names)"
proof -
  have tab: "ParseFileName (printf_06llu (unat n) @ str ''.ldb'') = Some (n, kTableFile)" for n
    using ParseFileName_numbered [of "str ''.ldb''" n] by (simp add: str_def is_digit_def)
  have del: "name \<in> set deleted \<longleftrightarrow> Status_ok bg_error \<and> name \<in> set names \<and>
      (\<exists>n t. ParseFileName name = Some (n, t) \<and> \<not> obsolete_keep (AddLiveFiles versions pending) log_num prev_log manifest n t)" for name
    unfolding assms(3) DeleteObsoleteFiles_def by (auto split: option.splits)
  have live: "fm_number f \<in> AddLiveFiles versions pending" if "fs \<in> set (v_files v)" "f \<in> set fs" for fs f
    using assms(1) that unfolding AddLiveFiles_set by blast
  have tables: "printf_06llu (unat (fm_number f)) @ str ''.ldb'' \<in> set left" if "fs \<in> set (v_files v)" "f \<in> set fs" for fs f
    using assms(2) live [OF that] that del tab unfolding assms(4) by (auto simp: obsolete_keep_def)
  have fixed: "str ''CURRENT'' \<notin> set deleted" "str ''LOCK'' \<notin> set deleted" "str ''MANIFEST-'' @ printf_06llu (unat manifest) \<notin> set deleted"
    unfolding del by (simp_all add: ParseFileName_fixed obsolete_keep_def)
  let ?L = "\<lambda>name. case ParseFileName name of Some (n, t) \<Rightarrow> if t = kLogFile \<and> (log_num \<le> n \<or> n = prev_log) then [n] else [] | None \<Rightarrow> []"
  have "?L name = []" if "name \<in> set deleted" for name
    using that unfolding del by (auto simp: obsolete_keep_def)
  then have logs: "concat (map ?L left) = concat (map ?L names)" unfolding assms(4) by (induction names) auto
  have "n \<in> {n. \<exists>name\<in>set left. \<exists>t. ParseFileName name = Some (n, t)}" if "n \<in> AddLiveFiles [v] {}" for n
    using that tables tab unfolding AddLiveFiles_set by fastforce
  then have missing: "AddLiveFiles [v] {} - {n. \<exists>name\<in>set left. \<exists>t. ParseFileName name = Some (n, t)} = {}" by blast
  have "Recover_files (AddLiveFiles [v] {}) log_num prev_log left = ({}, snd (Recover_files (AddLiveFiles [v] {}) log_num prev_log names))"
    unfolding Recover_files_eq logs missing by simp
  moreover have "\<not> Status_ok bg_error \<longrightarrow> left = names" unfolding assms(4) del by simp
  ultimately show ?thesis using tables fixed by blast
qed


definition example_batches :: "log_batch list" where
  "example_batches = [(7, [UPut [7] [8]])]"

lemma example_batches_adds: "batches_adds example_batches = [(7, kTypeValue, [7], [8])]"
  by (simp add: batches_adds_def example_batches_def batch_adds_def)

interpretation example_flush: flush_files Bytewise_Compare Bytewise_FindShortestSeparator Bytewise_FindShortSuccessor mem_output_ops file_contents file_wf
    default_options "set (batches_adds example_batches)"
proof (intro flush_files.intro flush_files_axioms.intro ubytewise.user_comparator_axioms mem_output.output_files_axioms)
  show "1 \<le> opt_block_restart_interval default_options" by (simp add: default_options_def)
  fix as es f n sz
  assume a: "flushed_as Bytewise_Compare as es" "as \<noteq> []" "set as \<subseteq> set (batches_adds example_batches)"
    and t: "table_of (oo_write mem_output_ops) file_contents file_wf default_options es (file_contents f)"
  let ?k = "InternalKey [7] 7 kTypeValue"
  have "set as = {(7, kTypeValue, [7], [8])}" using a(2,3) by (cases as) (auto simp: example_batches_adds)
  then have s: "set es = {(?k, [8])}" "sorted_wrt (\<lambda>a b. InternalKey_Compare Bytewise_Compare (fst a) (fst b) < 0) es"
    using a(1) by (simp_all add: flushed_as_def sorted_entries_def)
  have "es = [(?k, [8])]"
  proof (cases es)
    case (Cons x xs)
    then have "x = (?k, [8])" "set xs \<subseteq> {(?k, [8])}" using s(1) by auto
    moreover have "xs = []" using calculation s(2) Cons ubytewise.internal.cmp_refl [of ?k] by (cases xs) (auto simp: valid_ikey_def)
    ultimately show ?thesis using Cons by simp
  qed (use s in simp)
  then obtain g r where "file_wf g" "file_contents g = []" "build_table mem_wops default_options g [(?k, [8])] = (r, Status_OK)" "file_contents (tb_file r) = file_contents f"
    using t by (auto simp: table_of_def mem_output_ops_def)
  then have l: "0 < length (file_contents f)" "length (file_contents f) \<le> 219"
    using one_entry_build(3) [of g ?k "[8]" r] one_entry_bytes [of ?k "[8]"] by simp_all
  then have "(word_of_nat (length (file_contents f)) :: uint64) \<noteq> 0"
    by (auto simp: word_of_nat_eq_0_iff dest: dvd_imp_le)
  then show "oo_verify mem_output_ops n sz f = Status_OK \<and> (word_of_nat (length (file_contents f)) :: uint64) \<noteq> 0" by (simp add: mem_output_ops_def)
qed


definition example_recover :: "FileState RecoverState" where
  "example_recover = \<lparr> rv_status = Status_OK, rv_mem = None, rv_max_sequence = 6, rv_compactions = 0, rv_save_manifest = False, rv_out = (20, VersionEdit_new, []) \<rparr>"

lemma flush_steps_none: "flush_steps wops contents writable opt ucmp chunks out out' \<Longrightarrow> concat chunks = [] \<Longrightarrow> snd (snd out') = snd (snd out)"
proof (induction chunks arbitrary: out)
  case (Cons as chunks)
  obtain nf edit files where "out = (nf, edit, files)" by (cases out)
  then have "flush_steps wops contents writable opt ucmp chunks (nf + 1, edit, files) out'" "concat chunks = []" using Cons.prems by auto
  then show ?case using Cons.IH \<open>out = (nf, edit, files)\<close> by fastforce
qed simp

lemma flush_steps_one:
  "flush_steps wops contents writable opt ucmp chunks out out' \<Longrightarrow> concat chunks = [a] \<Longrightarrow>
    \<exists>n es g. snd (snd out') = snd (snd out) @ [(n, g)] \<and> flushed_as ucmp [a] es \<and> table_of wops contents writable opt es (contents g)"
proof (induction chunks arbitrary: out)
  case (Cons as chunks)
  obtain nf edit files where out: "out = (nf, edit, files)" by (cases out)
  obtain out1 where out1: "flush_step wops contents writable opt ucmp as out out1" "flush_steps wops contents writable opt ucmp chunks out1 out'" using Cons.prems(1) by auto
  show ?case
  proof (cases as)
    case Nil
    then have "snd (snd out1) = snd (snd out)" "concat chunks = [a]" using out1(1) out Cons.prems(2) by auto
    then show ?thesis using Cons.IH [OF out1(2)] by simp
  next
    case (Cons b bs)
    then have "as = [a]" "concat chunks = []" using Cons.prems(2) by auto
    then show ?thesis using out1(1) flush_steps_none [OF out1(2)] out by auto
  qed
qed simp

theorem recovery_replays_log_witness:
  "\<exists>w f st' es n g. AddRecords (WritableFileImpl_Append zero_memory) WritableFileImpl_Flush (Writer_new FileState_new) [batch_record (7, [UPut [7] [8]])] = (w, Status_OK) \<and>
     file_contents (fst f) = file_contents (dest w) \<and>
     RecoverLogFile (\<lambda>_. []) mem_Read mem_Skip mem_output_ops default_options 65536 bump_new Bytewise_Compare False True (None :: (FileState \<times> nat) option) 5 (Some f, Status_OK) example_recover = Some (st', None) \<and>
     rv_max_sequence st' = 7 \<and> flushed_as Bytewise_Compare [(7, kTypeValue, [7], [8])] es \<and>
     table_of mem_wops file_contents file_wf default_options es (file_contents g) \<and> snd (snd (rv_out st')) = [(n, g)]"
proof -
  let ?App = "WritableFileImpl_Append zero_memory" and ?bs = example_batches
  have new: "file_wf FileState_new" "file_contents FileState_new = []"
    by (simp_all add: FileState_new_def file_wf_def file_contents_def kMemBlockSize_def)
  obtain w s where w: "AddRecords ?App WritableFileImpl_Flush (Writer_new FileState_new) (map batch_record ?bs) = (w, s)" by fastforce
  have ok: "file_wf (dest w)" "s = Status_OK"
    using zero_mem.mem_file.AddRecords_law [of "Writer_new FileState_new" "map batch_record ?bs"] new w by (simp_all add: Writer_new_def)
  define f where "f = (dest w, \<lparr> sq_file = 0, sq_pos = 0 \<rparr>)"
  have rd: "mem_readable f" "mem_remaining f = take (length (file_contents (dest w))) (file_contents (dest w))"
    using ok by (simp_all add: f_def mem_readable_def mem_remaining_def)
  have fits: "\<forall>b\<in>set ?bs. batch_fits b" by (simp add: example_batches_def batch_fits_def)
  have adds: "\<forall>a\<in>set (batches_adds ?bs). add_ok a" "distinct_adds Bytewise_Compare (batches_adds ?bs)"
    by (simp_all add: example_batches_adds distinct_adds_def kMaxSequenceNumber_unat)
  obtain k st' reused chunks cur where k: "k \<le> length ?bs"
      "\<forall>j\<le>length ?bs. j \<le> k \<longleftrightarrow> length (file_contents (dest (fst (AddRecords ?App WritableFileImpl_Flush (Writer_new FileState_new) (map batch_record (take j ?bs)))))) \<le> length (file_contents (dest w))"
      and r: "RecoverLogFile (\<lambda>_. []) mem_Read mem_Skip mem_output_ops default_options 65536 bump_new Bytewise_Compare False True (None :: (FileState \<times> nat) option) 5 (Some f, Status_OK) example_recover = Some (st', reused)"
      "concat chunks @ cur = batches_adds (take k ?bs)" "flush_steps (oo_write mem_output_ops) file_contents file_wf default_options Bytewise_Compare chunks (rv_out example_recover) (rv_out st')"
      "rv_max_sequence st' = batches_last (take k ?bs) (rv_max_sequence example_recover)"
      "case reused of None \<Rightarrow> cur = [] | Some r \<Rightarrow> chunks = [] \<and> mem_of bump_new Bytewise_Compare cur (ru_mem r)"
    using recovery_replays_log [OF zero_mem.mem_file.writable_file_axioms mem_seq.sequential_file_axioms example_flush.flush_files_axioms new w rd fits adds,
        of "\<lambda>_. []" 65536 bump_new False True "None :: (FileState \<times> nat) option" 5 example_recover] by blast
  have n: "length ?bs = 1" by (simp add: example_batches_def)
  then have all: "take k ?bs = ?bs" using k(1) k(2) [rule_format, of 1] w by (cases k) auto
  have re: "reused = None" using r(1) by (auto simp: RecoverLogFile_def Let_def split: option.splits if_splits)
  have c: "concat chunks = [(7, kTypeValue, [7], [8])]" using r(2,5) re unfolding all by (simp add: example_batches_adds)
  have "rv_max_sequence st' = 7" using r(4) unfolding all by (simp add: batches_last_def example_batches_def example_recover_def max_def word_le_nat_alt)
  moreover obtain n es g where "snd (snd (rv_out st')) = [(n, g)]" "flushed_as Bytewise_Compare [(7, kTypeValue, [7], [8])] es"
      "table_of mem_wops file_contents file_wf default_options es (file_contents g)"
    using flush_steps_one [OF r(3) c] by (auto simp: example_recover_def mem_output_ops_def)
  moreover have "file_contents (fst f) = file_contents (dest w)" by (simp add: f_def)
  moreover have "AddRecords ?App WritableFileImpl_Flush (Writer_new FileState_new) [batch_record (7, [UPut [7] [8]])] = (w, Status_OK)"
    using w ok(2) by (simp add: example_batches_def)
  ultimately show ?thesis using r(1) re by blast
qed

text \<open>Two live tables, an obsolete one, an old and the current log.\<close>

definition example_names :: "slice list" where
  "example_names = [printf_06llu 9 @ str ''.ldb'', printf_06llu 4 @ str ''.ldb'', printf_06llu 3 @ str ''.ldb'', printf_06llu 2 @ str ''.log'', printf_06llu 8 @ str ''.log'', str ''CURRENT'']"

lemma ParseFileName_example:
  "ParseFileName (printf_06llu (unat n) @ str ''.ldb'') = Some (n, kTableFile)" "ParseFileName (printf_06llu (unat n) @ str ''.log'') = Some (n, kLogFile)"
  using ParseFileName_numbered [of "str ''.ldb''" n] ParseFileName_numbered [of "str ''.log''" n] by (simp_all add: str_def is_digit_def)

theorem obsolete_deletion_recoverable_witness:
  "Recover_files (AddLiveFiles [example_version] {}) 8 0
     (filter (\<lambda>name. name \<notin> set (DeleteObsoleteFiles Status_OK {} [example_version] 8 0 5 example_names)) example_names) = ({}, [8]) \<and>
   printf_06llu 3 @ str ''.ldb'' \<in> set (DeleteObsoleteFiles Status_OK {} [example_version] 8 0 5 example_names)"
proof -
  have p: "ParseFileName (printf_06llu 9 @ str ''.ldb'') = Some (9, kTableFile)" "ParseFileName (printf_06llu 4 @ str ''.ldb'') = Some (4, kTableFile)"
      "ParseFileName (printf_06llu 3 @ str ''.ldb'') = Some (3, kTableFile)" "ParseFileName (printf_06llu 2 @ str ''.log'') = Some (2, kLogFile)"
      "ParseFileName (printf_06llu 8 @ str ''.log'') = Some (8, kLogFile)"
    using ParseFileName_example(1) [of 9] ParseFileName_example(1) [of 4] ParseFileName_example(1) [of 3] ParseFileName_example(2) [of 2] ParseFileName_example(2) [of 8] by simp_all
  have present: "\<forall>fs\<in>set (v_files example_version). \<forall>f\<in>set fs. printf_06llu (unat (fm_number f)) @ str ''.ldb'' \<in> set example_names"
    by (simp add: example_version_def example_file_def example_names_def)
  have logs: "snd (Recover_files (AddLiveFiles [example_version] {}) 8 0 example_names) = [8]"
    unfolding Recover_files_eq example_names_def by (simp add: p ParseFileName_fixed word_le_nat_alt)
  have "3 \<notin> AddLiveFiles [example_version] {}" by (auto simp: AddLiveFiles_def example_version_def example_file_def)
  then have "printf_06llu 3 @ str ''.ldb'' \<in> set (DeleteObsoleteFiles Status_OK {} [example_version] 8 0 5 example_names)"
    unfolding DeleteObsoleteFiles_def by (simp add: example_names_def p obsolete_keep_def Let_def)
  then show ?thesis
    using obsolete_deletion_recoverable [OF _ present refl refl, of "[example_version]" Status_OK "{}" 8 0 5] logs by simp
qed

lemma sint_cast32: "unat (x :: uint64) < 2 ^ 31 \<Longrightarrow> sint (ucast x :: 32 word) = int (unat x)"
proof -
  assume "unat x < 2 ^ 31"
  then have "int (unat x) < int (2 ^ 31)" by (simp only: of_nat_less_iff)
  then have "uint x < 2 ^ 31" unfolding uint_nat by simp
  moreover have "sint (ucast x :: 32 word) = signed_take_bit 31 (uint x)" by (transfer) (simp add: signed_take_bit_take_bit)
  moreover have "- (2 ^ 31) \<le> uint x" by (rule order_trans [OF _ uint_ge_0]) simp
  ultimately show ?thesis using signed_take_bit_int_eq_self [of 31 "uint x"] by simp
qed

lemma ClipToRange_small:
  assumes "unat (x :: uint64) < 2 ^ 31" "0 \<le> lo" "lo \<le> hi" "hi < 2 ^ 31"
  shows "int (unat (ClipToRange x lo hi)) = max lo (min hi (int (unat x)))"
proof -
  have w: "int (unat (word_of_int k :: uint64)) = k" if "0 \<le> k" "k < 2 ^ 31" for k
    using that by (simp add: unat_eq_nat_uint uint_word_of_int)
  have c: "sint (ucast (word_of_int k :: uint64) :: 32 word) = k" if "0 \<le> k" "k < 2 ^ 31" for k
  proof -
    have "unat (word_of_int k :: uint64) < 2 ^ 31" using w [OF that] that(2) by (simp add: nat_less_iff flip: of_nat_less_iff [where ?'a = int])
    then show ?thesis using sint_cast32 w [OF that] by simp
  qed
  show ?thesis using assms w [of lo] w [of hi] c [of hi] sint_cast32 [OF assms(1)] by (simp add: ClipToRange_def Let_def)
qed

text \<open>C0. Sizes are clipped as \<open>int\<close>. A write buffer size below 2 GiB is brought into its range of 64 KiB to 1 GiB; one of exactly 2 GiB
  turns negative in the cast and becomes 64 KiB, and one of 5 GiB passes unchanged.\<close>

theorem options_clip_casts:
  "(unat wb < 2 ^ 31 \<longrightarrow> int (unat (fst (snd (SanitizeOptions_sizes (mo, wb, bs))))) = max 65536 (min 1073741824 (int (unat wb)))) \<and>
   fst (snd (SanitizeOptions_sizes (mo, 2 ^ 31, bs))) = 65536 \<and> fst (snd (SanitizeOptions_sizes (mo, 5 * 2 ^ 30, bs))) = 5 * 2 ^ 30"
proof (intro conjI impI)
  show "int (unat (fst (snd (SanitizeOptions_sizes (mo, wb, bs))))) = max 65536 (min 1073741824 (int (unat wb)))" if "unat wb < 2 ^ 31"
    using ClipToRange_small [OF that, of 65536 1073741824] by (simp add: SanitizeOptions_sizes_def)
qed (simp_all add: SanitizeOptions_sizes_def ClipToRange_def Let_def)

theorem options_clip_casts_witness:
  "unat (1000 :: uint64) < 2 ^ 31 \<and> fst (snd (SanitizeOptions_sizes (1000, 1000, 4096))) = 65536"
proof -
  have "int (unat (fst (snd (SanitizeOptions_sizes (1000, 1000, 4096))))) = 65536" using options_clip_casts [of 1000 1000 4096] by simp
  then have "uint (fst (snd (SanitizeOptions_sizes (1000, 1000, 4096)))) = uint (65536 :: uint64)" by simp
  then have "fst (snd (SanitizeOptions_sizes (1000, 1000, 4096))) = 65536" by (rule unsigned_word_eqI)
  then show ?thesis by simp
qed

end
