(* ===== verification/Manifest.thy ===== *)
theory Manifest
  imports Recovery
begin

text \<open>
  The MANIFEST, the rest of \<open>db/version_set.cc\<close>: \<open>LogAndApply\<close>, which logs an edit and installs the version it leads to, and
  \<open>Recover\<close>, which reads the edits back. The descriptor log is a log writer; the operations on its file, and the status
  \<open>SetCurrentFile\<close> returns, are arguments. The compaction score of \<open>Finalize\<close> and the list of live versions are left out.
\<close>

record 'w manifest_ops =
  mo_NewWritableFile :: "uint64 \<Rightarrow> 'w option \<times> status"
  mo_Append :: "'w \<Rightarrow> slice \<Rightarrow> 'w \<times> status"
  mo_Flush :: "'w \<Rightarrow> 'w \<times> status"
  mo_Sync :: "'w \<Rightarrow> 'w \<times> status"
  mo_SetCurrentFile :: "uint64 \<Rightarrow> status"

record 'w VersionSet =
  vs_next_file_number :: uint64
  vs_manifest_file_number :: uint64
  vs_last_sequence :: uint64
  vs_log_number :: uint64
  vs_prev_log_number :: uint64
  vs_current :: Version
  vs_compact_pointer :: "slice list"
  vs_descriptor_log :: "'w Writer option"

definition VersionSet_new :: "'w VersionSet" where
  "VersionSet_new = \<lparr> vs_next_file_number = 2, vs_manifest_file_number = 0, vs_last_sequence = 0, vs_log_number = 0, vs_prev_log_number = 0,
     vs_current = \<lparr> v_files = replicate kNumLevels [] \<rparr>, vs_compact_pointer = replicate kNumLevels [], vs_descriptor_log = None \<rparr>"

definition LogAndApply_edit :: "VersionEdit \<Rightarrow> 'w VersionSet \<Rightarrow> VersionEdit" where
  "LogAndApply_edit edit vs =
     (let edit = (if has_log_number edit then edit else SetLogNumber edit (vs_log_number vs));
          edit = (if has_prev_log_number edit then edit else SetPrevLogNumber edit (vs_prev_log_number vs))
      in SetLastSequence (SetNextFile edit (vs_next_file_number vs)) (vs_last_sequence vs))"

definition WriteSnapshot :: "'w manifest_ops \<Rightarrow> slice \<Rightarrow> 'w VersionSet \<Rightarrow> 'w Writer \<Rightarrow> 'w Writer \<times> status" where
  "WriteSnapshot mops name vs w =
     AddRecord (mo_Append mops) (mo_Flush mops) w (EncodeTo (snapshot_edit name (vs_compact_pointer vs) (vs_current vs)) [])"

text \<open>The descriptor log, made with a snapshot when there is none.\<close>

definition open_descriptor :: "'w manifest_ops \<Rightarrow> slice \<Rightarrow> 'w VersionSet \<Rightarrow> ('w Writer option \<times> status) option" where
  "open_descriptor mops name vs =
     (case vs_descriptor_log vs of
        Some w \<Rightarrow> Some (Some w, Status_OK)
      | None \<Rightarrow>
          (case mo_NewWritableFile mops (vs_manifest_file_number vs) of
             (lfile, s) \<Rightarrow>
               if Status_ok s then
                 (case lfile of None \<Rightarrow> None | Some f \<Rightarrow> (case WriteSnapshot mops name vs (Writer_new f) of (w, s) \<Rightarrow> Some (Some w, s)))
               else Some (None, s)))"

definition write_edit :: "'w manifest_ops \<Rightarrow> VersionEdit \<Rightarrow> 'w Writer \<Rightarrow> 'w Writer \<times> status" where
  "write_edit mops edit w =
     (case AddRecord (mo_Append mops) (mo_Flush mops) w (EncodeTo edit []) of
        (w, s) \<Rightarrow> if Status_ok s then (case mo_Sync mops (dest w) of (f, s) \<Rightarrow> (w \<lparr> dest := f \<rparr>, s)) else (w, s))"

definition LogAndApply :: "'w manifest_ops \<Rightarrow> (slice \<Rightarrow> slice \<Rightarrow> int) \<Rightarrow> slice \<Rightarrow> VersionEdit \<Rightarrow> 'w VersionSet \<Rightarrow> ('w VersionSet \<times> status) option" where
  "LogAndApply mops icmp name edit vs =
     (let edit = LogAndApply_edit edit vs;
          (b, cps) = Builder_Apply icmp edit (Builder_new (vs_current vs), vs_compact_pointer vs);
          v = Builder_SaveTo icmp b;
          vs = vs \<lparr> vs_compact_pointer := cps \<rparr>;
          new_manifest = (vs_descriptor_log vs = None)
      in case open_descriptor mops name vs of
           None \<Rightarrow> None
         | Some (None, s) \<Rightarrow> Some (vs, s)
         | Some (Some w, s) \<Rightarrow>
             let (w, s) = (if Status_ok s then write_edit mops edit w else (w, s));
                 s = (if Status_ok s \<and> new_manifest then mo_SetCurrentFile mops (vs_manifest_file_number vs) else s)
             in Some (if Status_ok s
                      then vs \<lparr> vs_current := v, vs_log_number := log_number edit, vs_prev_log_number := prev_log_number edit, vs_descriptor_log := Some w \<rparr>
                      else vs \<lparr> vs_descriptor_log := (if new_manifest then None else Some w) \<rparr>, s))"

subsection \<open>Recovery\<close>

text \<open>The name of the manifest in the contents of \<open>CURRENT\<close>.\<close>

definition current_manifest :: "slice \<Rightarrow> status + slice" where
  "current_manifest current =
     (if current = [] \<or> last current \<noteq> 10 then Inl (Status_Corruption (str ''CURRENT file does not end with newline'') []) else Inr (butlast current))"

record ManifestState =
  ms_status :: status
  ms_builder :: Builder
  ms_compact_pointer :: "slice list"
  ms_log_number :: "uint64 option"
  ms_prev_log_number :: "uint64 option"
  ms_next_file :: "uint64 option"
  ms_last_sequence :: "uint64 option"

definition recover_edit :: "(slice \<Rightarrow> slice \<Rightarrow> int) \<Rightarrow> slice \<Rightarrow> slice \<Rightarrow> ManifestState \<Rightarrow> (ManifestState \<times> bool) option" where
  "recover_edit icmp name rec st =
     (let (edit, s) = DecodeFrom VersionEdit_new rec;
          s = (if Status_ok s \<and> has_comparator edit \<and> comparator edit \<noteq> name
               then Status_InvalidArgument (comparator edit @ str '' does not match existing comparator '') name else s);
          (b, cps) = (if Status_ok s then Builder_Apply icmp edit (ms_builder st, ms_compact_pointer st) else (ms_builder st, ms_compact_pointer st))
      in Some (\<lparr> ms_status = s, ms_builder = b, ms_compact_pointer = cps,
                 ms_log_number = (if has_log_number edit then Some (log_number edit) else ms_log_number st),
                 ms_prev_log_number = (if has_prev_log_number edit then Some (prev_log_number edit) else ms_prev_log_number st),
                 ms_next_file = (if has_next_file_number edit then Some (next_file_number edit) else ms_next_file st),
                 ms_last_sequence = (if has_last_sequence edit then Some (last_sequence edit) else ms_last_sequence st) \<rparr>, True))"

text \<open>What is made of the edits read.\<close>

definition install_recovered :: "(slice \<Rightarrow> slice \<Rightarrow> int) \<Rightarrow> ManifestState \<Rightarrow> 'w VersionSet \<Rightarrow> 'w VersionSet \<times> status" where
  "install_recovered icmp st vs =
     (if Status_ok (ms_status st) then
        let s = (if ms_next_file st = None then Status_Corruption (str ''no meta-nextfile entry in descriptor'') []
                 else if ms_log_number st = None then Status_Corruption (str ''no meta-lognumber entry in descriptor'') []
                 else if ms_last_sequence st = None then Status_Corruption (str ''no last-sequence-number entry in descriptor'') []
                 else Status_OK);
            value = (\<lambda>x. case x of None \<Rightarrow> 0 | Some n \<Rightarrow> n);
            prev = value (ms_prev_log_number st);
            log = value (ms_log_number st);
            next = value (ms_next_file st);
            vs = vs \<lparr> vs_next_file_number := MarkFileNumberUsed (MarkFileNumberUsed (vs_next_file_number vs) prev) log \<rparr>
        in (if Status_ok s
            then vs \<lparr> vs_current := Builder_SaveTo icmp (ms_builder st), vs_manifest_file_number := next, vs_next_file_number := next + 1,
                      vs_last_sequence := value (ms_last_sequence st), vs_log_number := log, vs_prev_log_number := prev \<rparr>
            else vs, s)
      else (vs, ms_status st))"

definition Recover_manifest :: "(uint32 \<Rightarrow> slice) \<Rightarrow> ('r \<Rightarrow> nat \<Rightarrow> 'r \<times> status \<times> slice) \<Rightarrow> ('r \<Rightarrow> nat \<Rightarrow> 'r \<times> status) \<Rightarrow>
    (slice \<Rightarrow> slice \<Rightarrow> int) \<Rightarrow> slice \<Rightarrow> 'r \<Rightarrow> 'w VersionSet \<Rightarrow> ('w VersionSet \<times> status) option" where
  "Recover_manifest decimal Read Skip icmp name file vs =
     map_option (\<lambda>st. install_recovered icmp st (vs \<lparr> vs_compact_pointer := ms_compact_pointer st \<rparr>))
       (log_loop decimal Read Skip (\<lambda>s st. if Status_ok (ms_status st) then st \<lparr> ms_status := s \<rparr> else st) (\<lambda>st. Status_ok (ms_status st)) (recover_edit icmp name)
          (Reader_new file True True 0)
          \<lparr> ms_status = Status_OK, ms_builder = Builder_new (vs_current vs), ms_compact_pointer = vs_compact_pointer vs,
            ms_log_number = None, ms_prev_log_number = None, ms_next_file = None, ms_last_sequence = None \<rparr>)"

text \<open>\<open>file_size\<close> and \<open>appendable\<close> are what the environment gives for the manifest.\<close>

definition ReuseManifest :: "bool \<Rightarrow> slice \<Rightarrow> nat option \<Rightarrow> 'w option \<times> status \<Rightarrow> 'w VersionSet \<Rightarrow> ('w VersionSet \<times> bool) option" where
  "ReuseManifest reuse_logs dscbase file_size appendable vs =
     (if \<not> reuse_logs then Some (vs, False)
      else case ParseFileName dscbase of
             Some (manifest_number, kDescriptorFile) \<Rightarrow>
               (case file_size of
                  None \<Rightarrow> Some (vs, False)
                | Some manifest_size \<Rightarrow>
                    if kTargetFileSize \<le> int manifest_size then Some (vs, False)
                    else if \<not> Status_ok (snd appendable) then Some (vs, False)
                    else (case fst appendable of
                            None \<Rightarrow> None
                          | Some f \<Rightarrow> Some (vs \<lparr> vs_descriptor_log := Some (Writer_append f manifest_size), vs_manifest_file_number := manifest_number \<rparr>, True)))
           | _ \<Rightarrow> Some (vs, False))"

text \<open>The whole of \<open>Recover\<close>: \<open>current\<close> is what reading the \<open>CURRENT\<close> file gives; the environment opens files of the database by their
  name. The last component is \<open>*save_manifest\<close>.\<close>

definition VersionSet_Recover :: "(uint32 \<Rightarrow> slice) \<Rightarrow> ('r \<Rightarrow> nat \<Rightarrow> 'r \<times> status \<times> slice) \<Rightarrow> ('r \<Rightarrow> nat \<Rightarrow> 'r \<times> status) \<Rightarrow>
    (slice \<Rightarrow> slice \<Rightarrow> int) \<Rightarrow> slice \<Rightarrow> bool \<Rightarrow> status + slice \<Rightarrow> (slice \<Rightarrow> 'r option \<times> status) \<Rightarrow> (slice \<Rightarrow> nat option) \<Rightarrow> (slice \<Rightarrow> 'w option \<times> status) \<Rightarrow>
    'w VersionSet \<Rightarrow> bool \<Rightarrow> ('w VersionSet \<times> status \<times> bool) option" where
  "VersionSet_Recover decimal Read Skip icmp name reuse_logs current open_sequential file_size open_appendable vs save_manifest =
     (case current of
        Inl s \<Rightarrow> Some (vs, s, save_manifest)
      | Inr contents \<Rightarrow>
          (case current_manifest contents of
             Inl s \<Rightarrow> Some (vs, s, save_manifest)
           | Inr dscbase \<Rightarrow>
               (case open_sequential dscbase of
                  (file, s) \<Rightarrow>
                    if \<not> Status_ok s then Some (vs, s, save_manifest)
                    else (case file of
                            None \<Rightarrow> None
                          | Some file \<Rightarrow>
                              (case Recover_manifest decimal Read Skip icmp name file vs of
                                 None \<Rightarrow> None
                               | Some (vs, s) \<Rightarrow>
                                   if Status_ok s
                                   then map_option (\<lambda>(vs, reused). (vs, s, save_manifest \<or> \<not> reused))
                                          (ReuseManifest reuse_logs dscbase (file_size dscbase) (open_appendable dscbase) vs)
                                   else Some (vs, s, save_manifest))))))"


subsection \<open>What the descriptor log holds\<close>

lemma DecodeFrom_wf: "edit_wf e \<Longrightarrow> DecodeFrom d (EncodeTo e []) = (e \<lparr> compact_pointers := compact_pointers d @ compact_pointers e \<rparr>, Status_OK)"
  using Decode_fields [of "edit_fields e" "VersionEdit_Clear d"] fold_edit_fields [of e d] by (simp add: DecodeFrom_def EncodeTo_fields edit_wf_def)

lemma DecodeFrom_new: "edit_wf e \<Longrightarrow> DecodeFrom VersionEdit_new (EncodeTo e []) = (e, Status_OK)"
  using DecodeFrom_wf [of e VersionEdit_new] by (simp add: VersionEdit_new_def)

definition log_offset :: "nat \<Rightarrow> slice list \<Rightarrow> nat" where
  "log_offset b ds = fold (\<lambda>d b. snd (record_bytes b d True)) ds b"

lemma log_bytes_snoc: "log_bytes b (ds @ [d]) = log_bytes b ds @ fst (record_bytes (log_offset b ds) d True)"
  by (induction ds arbitrary: b) (simp_all add: log_bytes_Cons log_offset_def)

text \<open>A descriptor log that holds the edits \<open>eds\<close>.\<close>

definition holds_edits :: "('w \<Rightarrow> slice) \<Rightarrow> ('w \<Rightarrow> bool) \<Rightarrow> VersionEdit list \<Rightarrow> 'w Writer \<Rightarrow> bool" where
  "holds_edits contents writable eds w \<longleftrightarrow> writable (dest w) \<and> type_crc w = InitTypeCrc \<and>
     contents (dest w) = log_bytes 0 (map (\<lambda>e. EncodeTo e []) eds) \<and> block_offset w = log_offset 0 (map (\<lambda>e. EncodeTo e []) eds)"

locale manifest_file = writable_file "mo_Append mops" "mo_Flush mops" contents writable
  for mops :: "'w manifest_ops" and contents writable +
  assumes new_law: "mo_NewWritableFile mops n = (lf, s) \<Longrightarrow> Status_ok s \<Longrightarrow> \<exists>f. lf = Some f \<and> writable f \<and> contents f = []"
    and sync_law: "writable f \<Longrightarrow> mo_Sync mops f = (f', s) \<Longrightarrow> writable f' \<and> contents f' = contents f"
begin

lemma AddRecord_edit:
  assumes "holds_edits contents writable eds w" "AddRecord (mo_Append mops) (mo_Flush mops) w (EncodeTo e []) = (w', s)"
  shows "s = Status_OK \<and> holds_edits contents writable (eds @ [e]) w'"
proof -
  let ?recs = "map (\<lambda>e. EncodeTo e []) eds" and ?d = "EncodeTo e []"
  have "log_offset 0 (?recs @ [?d]) = snd (record_bytes (log_offset 0 ?recs) ?d True)" by (simp add: log_offset_def)
  then show ?thesis
    using AddRecord_loop_law [of w ?d True] assms log_bytes_snoc [of 0 ?recs ?d] by (auto simp: holds_edits_def AddRecord_def)
qed

lemma write_edit_law:
  assumes "holds_edits contents writable eds w" "write_edit mops e w = (w', s)"
  shows "holds_edits contents writable (eds @ [e]) w'"
proof -
  obtain w1 s1 where w1: "AddRecord (mo_Append mops) (mo_Flush mops) w (EncodeTo e []) = (w1, s1)" by fastforce
  obtain f s2 where f: "mo_Sync mops (dest w1) = (f, s2)" by fastforce
  have h: "s1 = Status_OK" "holds_edits contents writable (eds @ [e]) w1" using AddRecord_edit [OF assms(1) w1] by blast+
  then have "w' = w1 \<lparr> dest := f \<rparr>" using assms(2) w1 f by (simp add: write_edit_def)
  then show ?thesis using h(2) sync_law [OF _ f] by (simp add: holds_edits_def)
qed

lemma LogAndApply_law:
  assumes ok: "LogAndApply mops icmp name e vs = Some (vs', s)" "Status_ok s"
    and desc: "case vs_descriptor_log vs of None \<Rightarrow> eds = [snapshot_edit name (Apply_compact_pointers (LogAndApply_edit e vs) (vs_compact_pointer vs)) (vs_current vs)]
      | Some w \<Rightarrow> holds_edits contents writable eds w"
  shows "(\<exists>w. vs_descriptor_log vs' = Some w \<and> holds_edits contents writable (eds @ [LogAndApply_edit e vs]) w) \<and>
    (\<exists>b cps. Builder_Apply icmp (LogAndApply_edit e vs) (Builder_new (vs_current vs), vs_compact_pointer vs) = (b, cps) \<and> vs_current vs' = Builder_SaveTo icmp b) \<and>
    vs_log_number vs' = log_number (LogAndApply_edit e vs) \<and> vs_prev_log_number vs' = prev_log_number (LogAndApply_edit e vs)"
proof -
  let ?e = "LogAndApply_edit e vs"
  obtain b where b: "Builder_Apply icmp ?e (Builder_new (vs_current vs), vs_compact_pointer vs) = (b, Apply_compact_pointers ?e (vs_compact_pointer vs))"
    by (simp add: Builder_Apply_def)
  let ?vs = "vs \<lparr> vs_compact_pointer := Apply_compact_pointers ?e (vs_compact_pointer vs) \<rparr>"
  obtain wo s1 where od: "open_descriptor mops name ?vs = Some (wo, s1)" using ok(1) b by (auto simp: LogAndApply_def Let_def split: option.splits)
  have "\<exists>w. wo = Some w \<and> s1 = Status_OK \<and> holds_edits contents writable eds w"
  proof (cases "vs_descriptor_log vs")
    case (Some w)
    have "holds_edits contents writable eds w" using desc Some by simp
    moreover have "wo = Some w" "s1 = Status_OK" using od Some by (simp_all add: open_descriptor_def)
    ultimately show ?thesis by blast
  next
    case None
    obtain lf s2 where lf: "mo_NewWritableFile mops (vs_manifest_file_number vs) = (lf, s2)" by fastforce
    have "Status_ok s2"
    proof (rule ccontr)
      assume "\<not> Status_ok s2"
      then have "s = s2" using ok(1) b od None lf by (simp add: LogAndApply_def open_descriptor_def Let_def)
      then show False using ok(2) \<open>\<not> Status_ok s2\<close> by simp
    qed
    then obtain f where f: "lf = Some f" "writable f" "contents f = []" using new_law [OF lf] by blast
    obtain w s3 where w: "WriteSnapshot mops name ?vs (Writer_new f) = (w, s3)" by fastforce
    have "holds_edits contents writable [] (Writer_new f)" using f by (simp add: holds_edits_def Writer_new_def log_offset_def)
    from AddRecord_edit [OF this] w have "s3 = Status_OK" "holds_edits contents writable eds w" using desc None by (auto simp: WriteSnapshot_def)
    then show ?thesis using od None lf f(1) w \<open>Status_ok s2\<close> by (auto simp: open_descriptor_def)
  qed
  then obtain w where w: "wo = Some w" "s1 = Status_OK" "holds_edits contents writable eds w" by blast
  obtain w1 s4 where w1: "write_edit mops ?e w = (w1, s4)" by fastforce
  have h: "holds_edits contents writable (eds @ [?e]) w1" using write_edit_law [OF w(3) w1] .
  show ?thesis using ok b od w(1,2) w1 h by (auto simp: LogAndApply_def Let_def split: if_splits)
qed

end


subsection \<open>Edits and snapshots\<close>

lemma LogAndApply_edit_fields [simp]:
  "deleted_files (LogAndApply_edit e vs) = deleted_files e" "new_files (LogAndApply_edit e vs) = new_files e" "compact_pointers (LogAndApply_edit e vs) = compact_pointers e"
  "has_comparator (LogAndApply_edit e vs) = has_comparator e" "comparator (LogAndApply_edit e vs) = comparator e"
  "has_log_number (LogAndApply_edit e vs)" "has_prev_log_number (LogAndApply_edit e vs)" "has_next_file_number (LogAndApply_edit e vs)" "has_last_sequence (LogAndApply_edit e vs)"
  "next_file_number (LogAndApply_edit e vs) = vs_next_file_number vs" "last_sequence (LogAndApply_edit e vs) = vs_last_sequence vs"
  by (simp_all add: LogAndApply_edit_def Let_def SetLogNumber_def SetPrevLogNumber_def SetNextFile_def SetLastSequence_def)

lemma LogAndApply_edit_wf: "edit_wf e \<Longrightarrow> edit_wf (LogAndApply_edit e vs)"
  using edit_wf_set_field [of _ "FLogNumber _"] edit_wf_set_field [of _ "FPrevLogNumber _"] edit_wf_set_field [of _ "FNextFile _"] edit_wf_set_field [of _ "FLastSequence _"]
  by (simp add: LogAndApply_edit_def Let_def)

definition file_meta :: "FileMetaData \<Rightarrow> FileMetaData" where
  "file_meta f = FileMetaData_new \<lparr> fm_number := fm_number f, fm_file_size := fm_file_size f, fm_smallest := fm_smallest f, fm_largest := fm_largest f \<rparr>"

lemma snapshot_edit_eq:
  "snapshot_edit name cps v = VersionEdit_new \<lparr> comparator := name, has_comparator := True,
     compact_pointers := map (\<lambda>l. (l, cps ! l)) (filter (\<lambda>l. cps ! l \<noteq> []) [0..<kNumLevels]),
     new_files := concat (map (\<lambda>l. map (\<lambda>f. (l, file_meta f)) (level_files v l)) [0..<kNumLevels]) \<rparr>"
proof -
  have files: "fold (\<lambda>f edit. AddFile edit l (fm_number f) (fm_file_size f) (fm_smallest f) (fm_largest f)) fs e =
      e \<lparr> new_files := new_files e @ map (\<lambda>f. (l, file_meta f)) fs \<rparr>" for l fs e
    by (induction fs arbitrary: e) (simp_all add: AddFile_def file_meta_def)
  have levels: "fold (\<lambda>level edit. fold (\<lambda>f edit. AddFile edit level (fm_number f) (fm_file_size f) (fm_smallest f) (fm_largest f)) (level_files v level) edit) ls e =
      e \<lparr> new_files := new_files e @ concat (map (\<lambda>l. map (\<lambda>f. (l, file_meta f)) (level_files v l)) ls) \<rparr>" for ls e
    by (induction ls arbitrary: e) (simp_all add: files)
  have ptrs: "fold (\<lambda>level edit. if cps ! level \<noteq> [] then SetCompactPointer edit level (cps ! level) else edit) ls e =
      e \<lparr> compact_pointers := compact_pointers e @ map (\<lambda>l. (l, cps ! l)) (filter (\<lambda>l. cps ! l \<noteq> []) ls) \<rparr>" for ls e
    by (induction ls arbitrary: e) (simp_all add: SetCompactPointer_def)
  show ?thesis unfolding snapshot_edit_def ptrs levels by (simp add: SetComparatorName_def VersionEdit_new_def)
qed

text \<open>A version whose files are as the builder makes them, with keys that fit a record.\<close>

definition version_plain :: "Version \<Rightarrow> bool" where
  "version_plain v \<longleftrightarrow> (\<forall>l<kNumLevels. \<forall>f\<in>set (level_files v l). new_file_metadata (file_meta f) = f \<and> length (fm_smallest f) < 2 ^ 32 \<and> length (fm_largest f) < 2 ^ 32)"

lemma snapshot_wf:
  assumes "version_plain v" "length name < 2 ^ 32" "\<forall>k\<in>set cps. length k < 2 ^ 32" "length cps = kNumLevels"
  shows "edit_wf (snapshot_edit name cps v)"
  using assms by (auto simp: snapshot_edit_eq edit_wf_def edit_fields_def VersionEdit_new_def version_plain_def file_meta_def FileMetaData_new_def)

lemma concat_pick: "concat (map (\<lambda>k. if k = l then F k else []) [0..<n]) = (if l < n then F l else [])"
  by (induction n) (auto simp: less_Suc_eq)

lemma snapshot_adds:
  assumes "version_plain v" "l < kNumLevels"
  shows "edit_adds l (snapshot_edit name cps v) = level_files v l"
proof -
  have "filter (\<lambda>p. fst p = l) (concat (map (\<lambda>k. map (\<lambda>f. (k, file_meta f)) (level_files v k)) ls)) =
      concat (map (\<lambda>k. if k = l then map (\<lambda>f. (k, file_meta f)) (level_files v k) else []) ls)" for ls
    by (induction ls) (auto simp: filter_map comp_def)
  then have "edit_adds l (snapshot_edit name cps v) = map (new_file_metadata \<circ> file_meta) (level_files v l)"
    using assms(2) by (simp add: edit_adds_def snapshot_edit_eq comp_def concat_pick)
  also have "\<dots> = level_files v l" using assms by (intro map_idI) (auto simp: version_plain_def)
  finally show ?thesis .
qed

subsection \<open>The versions along the edits\<close>

definition levels_after :: "(slice \<Rightarrow> slice \<Rightarrow> int) \<Rightarrow> VersionEdit list \<Rightarrow> Version \<Rightarrow> bool" where
  "levels_after icmp eds v \<longleftrightarrow> (\<forall>l<kNumLevels. set (level_files v l) = fold (edit_files l) eds {} \<and> sorted_wrt (BySmallestKey icmp) (level_files v l))"

definition fresh_numbers :: "VersionEdit list \<Rightarrow> bool" where
  "fresh_numbers eds \<longleftrightarrow> (\<forall>l<kNumLevels. distinct (map fm_number (added_files l eds)))"

lemma added_files_append: "added_files l (xs @ ys) = added_files l xs @ added_files l ys"
  by (simp add: added_files_def)

lemma fold_edit_files_sub: "fold (edit_files l) eds S \<subseteq> S \<union> set (added_files l eds)"
proof (induction eds arbitrary: S)
  case (Cons e eds)
  have "edit_files l e S \<subseteq> S \<union> set (edit_adds l e)" unfolding edit_files_def edit_adds_set by blast
  moreover have "fold (edit_files l) eds (edit_files l e S) \<subseteq> edit_files l e S \<union> set (added_files l eds)" by (rule Cons.IH)
  ultimately show ?case by (auto simp: added_files_def)
qed (simp add: added_files_def)

lemma sorted_wrt_unique:
  assumes "sorted_wrt R xs" "sorted_wrt R ys" "set xs = set ys" "\<And>x. \<not> R x x" "\<And>x y z. R x y \<Longrightarrow> R y z \<Longrightarrow> R x z"
  shows "xs = ys"
  using assms(1-3)
proof (induction xs arbitrary: ys)
  case (Cons x xs)
  then obtain y zs where ys: "ys = y # zs" by (cases ys) auto
  have "x = y"
  proof (rule ccontr)
    assume "x \<noteq> y"
    then have "x \<in> set zs" "y \<in> set xs" using Cons.prems(3) ys by auto
    then have "R y x" "R x y" using Cons.prems(1,2) ys by auto
    then show False using assms(4,5) by blast
  qed
  moreover have "x \<notin> set xs" "y \<notin> set zs" using Cons.prems(1,2) ys assms(4) by auto
  ultimately have "set xs = set zs" using Cons.prems(3) ys by auto
  then show ?case using Cons.IH [of zs] Cons.prems(1,2) ys \<open>x = y\<close> by simp
qed simp

context user_comparator
begin

lemma levels_after_step:
  assumes "levels_after (InternalKey_Compare cmp) eds v" "fresh_numbers (eds @ [e])" "Builder_Apply (InternalKey_Compare cmp) e (Builder_new v, cps) = (b, cps')"
  shows "levels_after (InternalKey_Compare cmp) (eds @ [e]) (Builder_SaveTo (InternalKey_Compare cmp) b)"
  unfolding levels_after_def
proof (intro allI impI)
  fix l assume l: "l < kNumLevels"
  have v: "set (level_files v l) = fold (edit_files l) eds {}" "sorted_wrt (BySmallestKey (InternalKey_Compare cmp)) (level_files v l)"
    using assms(1) l by (auto simp: levels_after_def)
  have sub: "set (level_files v l) \<subseteq> set (added_files l eds)" using fold_edit_files_sub [of l eds "{}"] v(1) by simp
  have d: "distinct (map fm_number (added_files l eds @ added_files l [e]))" using assms(2) l by (simp add: fresh_numbers_def added_files_append)
  have "distinct (level_files v l)" by (rule sorted_wrt_distinct [OF v(2)]) (rule BySmallest_irrefl)
  moreover have "inj_on fm_number (set (level_files v l))" using d sub by (auto simp: distinct_map intro: inj_on_subset)
  ultimately have "distinct (map fm_number (level_files v l))" by (simp add: distinct_map)
  then have dl: "distinct (map fm_number (level_files v l @ added_files l [e]))"
    using d sub by (simp add: distinct_map) blast
  have "fold (Builder_Apply (InternalKey_Compare cmp)) [e] (Builder_new v, cps) = (b, cps')" using assms(3) by simp
  from Builder_SaveTo_law [OF l dl v(2) this]
  show "set (level_files (Builder_SaveTo (InternalKey_Compare cmp) b) l) = fold (edit_files l) (eds @ [e]) {} \<and>
      sorted_wrt (BySmallestKey (InternalKey_Compare cmp)) (level_files (Builder_SaveTo (InternalKey_Compare cmp) b) l)"
    using v(1) by simp
qed

lemma levels_after_all:
  assumes "fresh_numbers eds" "fold (Builder_Apply (InternalKey_Compare cmp)) eds (Builder_new \<lparr> v_files = replicate kNumLevels [] \<rparr>, cps) = (b, cps')"
  shows "levels_after (InternalKey_Compare cmp) eds (Builder_SaveTo (InternalKey_Compare cmp) b)"
  unfolding levels_after_def
proof (intro allI impI)
  fix l assume l: "l < kNumLevels"
  have e: "level_files \<lparr> v_files = replicate kNumLevels [] \<rparr> l = []" using l by simp
  have d: "distinct (map fm_number (level_files \<lparr> v_files = replicate kNumLevels [] \<rparr> l @ added_files l eds))" using assms(1) l by (simp add: e fresh_numbers_def)
  show "set (level_files (Builder_SaveTo (InternalKey_Compare cmp) b) l) = fold (edit_files l) eds {} \<and>
      sorted_wrt (BySmallestKey (InternalKey_Compare cmp)) (level_files (Builder_SaveTo (InternalKey_Compare cmp) b) l)"
    using Builder_SaveTo_law [OF l d _ assms(2)] l by simp
qed

lemma levels_after_unique:
  assumes "levels_after (InternalKey_Compare cmp) eds (Builder_SaveTo (InternalKey_Compare cmp) a)" "levels_after (InternalKey_Compare cmp) eds (Builder_SaveTo (InternalKey_Compare cmp) b)"
  shows "Builder_SaveTo (InternalKey_Compare cmp) a = Builder_SaveTo (InternalKey_Compare cmp) b"
proof -
  let ?s = "Builder_SaveTo (InternalKey_Compare cmp)"
  have len: "length (v_files (?s x)) = kNumLevels" for x by (simp add: Builder_SaveTo_def)
  have "level_files (?s a) l = level_files (?s b) l" if "l < kNumLevels" for l
    by (rule sorted_wrt_unique [where R = "BySmallestKey (InternalKey_Compare cmp)"])
      (use assms that BySmallest_irrefl BySmallest_trans in \<open>auto simp: levels_after_def\<close>)
  then have "v_files (?s a) = v_files (?s b)" using len by (intro nth_equalityI) simp_all
  then show ?thesis by simp
qed

end


subsection \<open>Compaction pointers\<close>

lemma length_Apply_compact_pointers [simp]: "length (Apply_compact_pointers e cps) = length cps"
proof -
  have "length (fold (\<lambda>(level, key) cp. cp[level := key]) ps cps) = length cps" for ps :: "(nat \<times> slice) list"
    by (induction ps arbitrary: cps) auto
  then show ?thesis by (simp add: Apply_compact_pointers_def)
qed

lemma Apply_compact_pointers_nth:
  "l < length cps \<Longrightarrow> Apply_compact_pointers e cps ! l = (case map_of (rev (compact_pointers e)) l of None \<Rightarrow> cps ! l | Some k \<Rightarrow> k)"
proof -
  have "l < length cps \<Longrightarrow> fold (\<lambda>(level, key) cp. cp[level := key]) ps cps ! l = (case map_of (rev ps) l of None \<Rightarrow> cps ! l | Some k \<Rightarrow> k)" for ps :: "(nat \<times> slice) list"
    by (induction ps arbitrary: cps) (auto simp: map_add_def nth_list_update split: option.splits)
  then show "l < length cps \<Longrightarrow> ?thesis" by (simp add: Apply_compact_pointers_def)
qed

lemma Apply_compact_pointers_idem: "Apply_compact_pointers e (Apply_compact_pointers e cps) = Apply_compact_pointers e cps"
  by (rule nth_equalityI) (simp_all add: Apply_compact_pointers_nth split: option.split)

lemma snapshot_pointers:
  assumes "length cps = kNumLevels"
  shows "Apply_compact_pointers (snapshot_edit name cps v) (replicate kNumLevels []) = cps"
proof (rule nth_equalityI)
  fix l assume "l < length (Apply_compact_pointers (snapshot_edit name cps v) (replicate kNumLevels []))"
  then have l: "l < kNumLevels" by simp
  let ?ps = "map (\<lambda>l. (l, cps ! l)) (filter (\<lambda>l. cps ! l \<noteq> []) [0..<kNumLevels])"
  have "map_of (rev ?ps) l = (if cps ! l \<noteq> [] then Some (cps ! l) else None)"
    using l by (auto simp: rev_map map_of_eq_None_iff map_of_map_restrict restrict_map_def)
  then show "Apply_compact_pointers (snapshot_edit name cps v) (replicate kNumLevels []) ! l = cps ! l"
    using l by (simp add: Apply_compact_pointers_nth snapshot_edit_eq)
qed (simp add: assms)

subsection \<open>A run of the version set\<close>

text \<open>Calls of \<open>LogAndApply\<close>, each with the values that \<open>NewFileNumber\<close> and \<open>SetLastSequence\<close> have left; \<open>None\<close> when one fails.\<close>

definition set_counters :: "uint64 \<Rightarrow> uint64 \<Rightarrow> 'w VersionSet \<Rightarrow> 'w VersionSet" where
  "set_counters nf q vs = vs \<lparr> vs_next_file_number := nf, vs_last_sequence := q \<rparr>"

fun apply_edits :: "'w manifest_ops \<Rightarrow> (slice \<Rightarrow> slice \<Rightarrow> int) \<Rightarrow> slice \<Rightarrow> (uint64 \<times> uint64 \<times> VersionEdit) list \<Rightarrow> 'w VersionSet \<Rightarrow> 'w VersionSet option" where
  "apply_edits mops icmp name [] vs = Some vs"
| "apply_edits mops icmp name ((nf, q, e) # steps) vs =
     (case LogAndApply mops icmp name e (set_counters nf q vs) of
        None \<Rightarrow> None
      | Some (vs', s) \<Rightarrow> if Status_ok s then apply_edits mops icmp name steps vs' else None)"

definition edit_ok :: "slice \<Rightarrow> VersionEdit \<Rightarrow> bool" where
  "edit_ok name e \<longleftrightarrow> edit_wf e \<and> (has_comparator e \<longrightarrow> comparator e = name)"

text \<open>What the edits \<open>eds\<close>, the last of them complete, say of a version set.\<close>

definition numbers_after :: "VersionEdit list \<Rightarrow> 'w VersionSet \<Rightarrow> bool" where
  "numbers_after eds vs \<longleftrightarrow> eds \<noteq> [] \<and> has_log_number (last eds) \<and> has_prev_log_number (last eds) \<and> has_next_file_number (last eds) \<and> has_last_sequence (last eds) \<and>
     vs_log_number vs = log_number (last eds) \<and> vs_prev_log_number vs = prev_log_number (last eds) \<and> vs_next_file_number vs = next_file_number (last eds) \<and>
     vs_last_sequence vs = last_sequence (last eds)"

definition pointers_after :: "VersionEdit list \<Rightarrow> 'w VersionSet \<Rightarrow> bool" where
  "pointers_after eds vs \<longleftrightarrow> vs_compact_pointer vs = fold Apply_compact_pointers eds (replicate kNumLevels [])"

definition manifest_inv :: "('w \<Rightarrow> slice) \<Rightarrow> ('w \<Rightarrow> bool) \<Rightarrow> (slice \<Rightarrow> slice \<Rightarrow> int) \<Rightarrow> slice \<Rightarrow> VersionEdit list \<Rightarrow> 'w VersionSet \<Rightarrow> bool" where
  "manifest_inv contents writable icmp name eds vs \<longleftrightarrow>
     (\<exists>w. vs_descriptor_log vs = Some w \<and> holds_edits contents writable eds w) \<and> (\<exists>b. vs_current vs = Builder_SaveTo icmp b) \<and> levels_after icmp eds (vs_current vs) \<and>
     (\<forall>e\<in>set eds. edit_ok name e) \<and> fresh_numbers eds \<and> numbers_after eds vs \<and> pointers_after eds vs"

lemma LogAndApply_edit_adds: "added_files l (LogAndApply_edit e vs # es) = added_files l (e # es)"
  by (simp add: added_files_def edit_adds_def)

lemma fresh_numbers_cong: "(\<And>l. added_files l xs = added_files l ys) \<Longrightarrow> fresh_numbers xs = fresh_numbers ys"
  by (simp add: fresh_numbers_def)

lemma fresh_numbers_logged: "fresh_numbers (eds @ LogAndApply_edit e vs # es) = fresh_numbers (eds @ e # es)"
  by (rule fresh_numbers_cong) (simp add: added_files_append LogAndApply_edit_adds)

lemma fresh_numbers_prefix: "fresh_numbers (xs @ ys) \<Longrightarrow> fresh_numbers xs"
  by (simp add: fresh_numbers_def added_files_append)

lemma LogAndApply_keeps:
  assumes "LogAndApply mops icmp name e vs = Some (vs', s)" "Status_ok s"
  shows "vs_next_file_number vs' = vs_next_file_number vs \<and> vs_last_sequence vs' = vs_last_sequence vs \<and>
    vs_compact_pointer vs' = Apply_compact_pointers (LogAndApply_edit e vs) (vs_compact_pointer vs)"
  using assms by (auto simp: LogAndApply_def Let_def Builder_Apply_def split: option.splits prod.splits if_splits)

locale manifest_run = user_comparator cmp sep succ + manifest_file mops contents writable
  for cmp sep succ and mops :: "'w manifest_ops" and contents writable
begin

lemma manifest_step:
  assumes eds: "case vs_descriptor_log vs of None \<Rightarrow> eds = [snapshot_edit name (Apply_compact_pointers (LogAndApply_edit e (set_counters nf q vs)) (vs_compact_pointer vs)) (vs_current vs)]
      | Some w \<Rightarrow> holds_edits contents writable eds w"
    and lv: "levels_after (InternalKey_Compare cmp) eds (vs_current vs)" and wf: "\<forall>e\<in>set eds. edit_ok name e" "edit_ok name e"
    and fr: "fresh_numbers (eds @ [e])" and la: "LogAndApply mops (InternalKey_Compare cmp) name e (set_counters nf q vs) = Some (vs', s)" "Status_ok s"
    and cp: "Apply_compact_pointers (LogAndApply_edit e (set_counters nf q vs)) (fold Apply_compact_pointers eds (replicate kNumLevels [])) =
      Apply_compact_pointers (LogAndApply_edit e (set_counters nf q vs)) (vs_compact_pointer vs)"
  shows "manifest_inv contents writable (InternalKey_Compare cmp) name (eds @ [LogAndApply_edit e (set_counters nf q vs)]) vs'"
proof -
  let ?vs = "set_counters nf q vs"
  let ?e = "LogAndApply_edit e ?vs"
  have c: "vs_descriptor_log ?vs = vs_descriptor_log vs" "vs_compact_pointer ?vs = vs_compact_pointer vs" "vs_current ?vs = vs_current vs"
    by (simp_all add: set_counters_def)
  from LogAndApply_law [OF la, of eds] eds c obtain w b cps where r: "vs_descriptor_log vs' = Some w" "holds_edits contents writable (eds @ [?e]) w"
      "Builder_Apply (InternalKey_Compare cmp) ?e (Builder_new (vs_current vs), vs_compact_pointer vs) = (b, cps)" "vs_current vs' = Builder_SaveTo (InternalKey_Compare cmp) b"
      "vs_log_number vs' = log_number ?e" "vs_prev_log_number vs' = prev_log_number ?e" by (auto split: option.splits)
  have fr': "fresh_numbers (eds @ [?e])" using fr by (simp add: fresh_numbers_logged)
  then have "levels_after (InternalKey_Compare cmp) (eds @ [?e]) (vs_current vs')" using levels_after_step [OF lv _ r(3)] r(4) by simp
  moreover have "edit_ok name ?e" using wf(2) LogAndApply_edit_wf by (auto simp: edit_ok_def)
  moreover have "numbers_after (eds @ [?e]) vs'" using LogAndApply_keeps [OF la] r(5,6) by (simp add: numbers_after_def)
  moreover have "pointers_after (eds @ [?e]) vs'" using LogAndApply_keeps [OF la] cp c(2) by (simp add: pointers_after_def)
  ultimately show ?thesis using r wf(1) fr' unfolding manifest_inv_def by auto
qed

lemma apply_edits_law:
  assumes "manifest_inv contents writable (InternalKey_Compare cmp) name eds vs" "\<forall>(nf, q, e)\<in>set steps. edit_ok name e"
    "fresh_numbers (eds @ map (snd \<circ> snd) steps)" "apply_edits mops (InternalKey_Compare cmp) name steps vs = Some vs'"
  shows "\<exists>eds'. manifest_inv contents writable (InternalKey_Compare cmp) name eds' vs'"
  using assms
proof (induction steps arbitrary: eds vs)
  case Nil
  then show ?case by auto
next
  case (Cons x steps)
  obtain nf q e where x: "x = (nf, q, e)" by (cases x)
  obtain vs1 s where la: "LogAndApply mops (InternalKey_Compare cmp) name e (set_counters nf q vs) = Some (vs1, s)" "Status_ok s"
      "apply_edits mops (InternalKey_Compare cmp) name steps vs1 = Some vs'" using Cons.prems(4) x by (auto split: option.splits if_splits)
  let ?e = "LogAndApply_edit e (set_counters nf q vs)"
  have fr: "fresh_numbers (eds @ [e])" using Cons.prems(3) x fresh_numbers_prefix [of "eds @ [e]"] by simp
  have inv: "manifest_inv contents writable (InternalKey_Compare cmp) name (eds @ [?e]) vs1"
  proof (rule manifest_step [OF _ _ _ _ fr la(1,2)])
    show "case vs_descriptor_log vs of None \<Rightarrow> eds = [snapshot_edit name (Apply_compact_pointers ?e (vs_compact_pointer vs)) (vs_current vs)] | Some w \<Rightarrow> holds_edits contents writable eds w"
      using Cons.prems(1) by (auto simp: manifest_inv_def)
    show "levels_after (InternalKey_Compare cmp) eds (vs_current vs)" "\<forall>e\<in>set eds. edit_ok name e"
      using Cons.prems(1) by (auto simp: manifest_inv_def)
    show "edit_ok name e" using Cons.prems(2) x by simp
    show "Apply_compact_pointers ?e (fold Apply_compact_pointers eds (replicate kNumLevels [])) = Apply_compact_pointers ?e (vs_compact_pointer vs)"
      using Cons.prems(1) by (simp add: manifest_inv_def pointers_after_def)
  qed
  have "fresh_numbers ((eds @ [?e]) @ map (snd \<circ> snd) steps)" using Cons.prems(3) x by (simp add: fresh_numbers_logged comp_def)
  from Cons.IH [OF inv _ this la(3)] Cons.prems(2) show ?case using x by auto
qed

end


subsection \<open>Reading the edits back\<close>

definition ms_numbers :: "VersionEdit \<Rightarrow> ManifestState \<Rightarrow> bool" where
  "ms_numbers e st \<longleftrightarrow> ms_log_number st = Some (log_number e) \<and> ms_prev_log_number st = Some (prev_log_number e) \<and>
     ms_next_file st = Some (next_file_number e) \<and> ms_last_sequence st = Some (last_sequence e)"

definition edit_numbers :: "VersionEdit \<Rightarrow> bool" where
  "edit_numbers e \<longleftrightarrow> has_log_number e \<and> has_prev_log_number e \<and> has_next_file_number e \<and> has_last_sequence e"

lemma fold_Builder_Apply_pointers: "snd (fold (Builder_Apply icmp) eds (b, cps)) = fold Apply_compact_pointers eds cps"
  by (induction eds arbitrary: b cps) (simp_all add: Builder_Apply_def)

lemma recover_edit_law:
  assumes "edit_ok name e"
  obtains st' where "recover_edit icmp name (EncodeTo e []) st = Some (st', True)" "Status_ok (ms_status st')"
    "(ms_builder st', ms_compact_pointer st') = Builder_Apply icmp e (ms_builder st, ms_compact_pointer st)" "edit_numbers e \<longrightarrow> ms_numbers e st'"
proof -
  have dec: "DecodeFrom VersionEdit_new (EncodeTo e []) = (e, Status_OK)" "(has_comparator e \<and> comparator e \<noteq> name) = False"
    using assms DecodeFrom_new [of e] by (auto simp: edit_ok_def)
  obtain b cps where b: "Builder_Apply icmp e (ms_builder st, ms_compact_pointer st) = (b, cps)" by fastforce
  have "recover_edit icmp name (EncodeTo e []) st = Some (\<lparr> ms_status = Status_OK, ms_builder = b, ms_compact_pointer = cps,
                 ms_log_number = (if has_log_number e then Some (log_number e) else ms_log_number st),
                 ms_prev_log_number = (if has_prev_log_number e then Some (prev_log_number e) else ms_prev_log_number st),
                 ms_next_file = (if has_next_file_number e then Some (next_file_number e) else ms_next_file st),
                 ms_last_sequence = (if has_last_sequence e then Some (last_sequence e) else ms_last_sequence st) \<rparr>, True)"
    unfolding recover_edit_def Let_def dec(1) by (simp add: dec(2) b del: if_split)
  then show ?thesis by (rule that) (simp_all add: b edit_numbers_def ms_numbers_def)
qed

lemma replay_edits:
  assumes "\<forall>e\<in>set eds. edit_ok name e" "Status_ok (ms_status st)"
  shows "\<exists>st'. replay (\<lambda>st. Status_ok (ms_status st)) (recover_edit icmp name) (map (\<lambda>e. EncodeTo e []) eds) st = Some st' \<and> Status_ok (ms_status st') \<and>
    (ms_builder st', ms_compact_pointer st') = fold (Builder_Apply icmp) eds (ms_builder st, ms_compact_pointer st) \<and>
    (eds \<noteq> [] \<and> edit_numbers (last eds) \<longrightarrow> ms_numbers (last eds) st')"
  using assms
proof (induction eds arbitrary: st)
  case (Cons e eds)
  obtain st1 where st1: "recover_edit icmp name (EncodeTo e []) st = Some (st1, True)" "Status_ok (ms_status st1)"
      "(ms_builder st1, ms_compact_pointer st1) = Builder_Apply icmp e (ms_builder st, ms_compact_pointer st)" "edit_numbers e \<longrightarrow> ms_numbers e st1"
    using Cons.prems(1) recover_edit_law [of name e icmp st] by auto
  show ?case
  proof (cases eds)
    case Nil
    then show ?thesis using st1 Cons.prems(2) by simp
  next
    case (Cons e1 es1)
    then show ?thesis using Cons.IH [of st1] st1 Cons.prems by simp
  qed
qed simp

text \<open>The state in which a version set opens its first descriptor log.\<close>

definition snapshot_ready :: "(slice \<Rightarrow> slice \<Rightarrow> int) \<Rightarrow> slice \<Rightarrow> 'w VersionSet \<Rightarrow> bool" where
  "snapshot_ready icmp name vs \<longleftrightarrow> vs_descriptor_log vs = None \<and> version_plain (vs_current vs) \<and> length name < 2 ^ 32 \<and>
     (\<forall>l<kNumLevels. sorted_wrt (BySmallestKey icmp) (level_files (vs_current vs) l)) \<and>
     length (vs_compact_pointer vs) = kNumLevels \<and> (\<forall>k\<in>set (vs_compact_pointer vs). length k < 2 ^ 32)"

text \<open>The numbers of the files the calls add are new at their level.\<close>

definition new_numbers :: "(uint64 \<times> uint64 \<times> VersionEdit) list \<Rightarrow> Version \<Rightarrow> bool" where
  "new_numbers steps v \<longleftrightarrow> (\<forall>l<kNumLevels. distinct (map fm_number (level_files v l @ added_files l (map (snd \<circ> snd) steps))))"

lemma set_Apply_compact_pointers: "set (Apply_compact_pointers e cps) \<subseteq> set cps \<union> snd ` set (compact_pointers e)"
proof -
  have "set (fold (\<lambda>(level, key) cp. cp[level := key]) ps cps) \<subseteq> set cps \<union> snd ` set ps" for ps :: "(nat \<times> slice) list"
  proof (induction ps arbitrary: cps)
    case (Cons p ps)
    obtain l k where p: "p = (l, k)" by (cases p)
    have "set (cps[l := k]) \<subseteq> insert k (set cps)" by (rule set_update_subset_insert)
    then show ?case using Cons.IH [of "cps[l := k]"] p by auto
  qed simp
  then show ?thesis by (simp add: Apply_compact_pointers_def)
qed

lemma edit_wf_pointers: "edit_wf e \<Longrightarrow> (l, k) \<in> set (compact_pointers e) \<Longrightarrow> length k < 2 ^ 32"
proof -
  assume "edit_wf e" "(l, k) \<in> set (compact_pointers e)"
  then have "FCompactPointer l k \<in> set (edit_fields e)" "\<forall>x\<in>set (edit_fields e). field_ok x"
    unfolding edit_wf_def edit_fields_def by (simp_all add: rev_image_eqI)
  then have "field_ok (FCompactPointer l k)" by blast
  then show ?thesis by simp
qed

context manifest_run
begin

lemma first_edit:
  assumes ready: "snapshot_ready (InternalKey_Compare cmp) name vs" and ok: "edit_ok name e" and new: "new_numbers ((nf, q, e) # steps) (vs_current vs)"
    and la: "LogAndApply mops (InternalKey_Compare cmp) name e (set_counters nf q vs) = Some (vs', s)" "Status_ok s"
  shows "\<exists>eds. manifest_inv contents writable (InternalKey_Compare cmp) name eds vs' \<and> fresh_numbers (eds @ map (snd \<circ> snd) steps)"
proof -
  let ?e = "LogAndApply_edit e (set_counters nf q vs)"
  let ?cps = "Apply_compact_pointers ?e (vs_compact_pointer vs)"
  let ?snap = "snapshot_edit name ?cps (vs_current vs)"
  have r: "vs_descriptor_log vs = None" "version_plain (vs_current vs)" "length name < 2 ^ 32" "length ?cps = kNumLevels"
    using ready by (simp_all add: snapshot_ready_def)
  have "length k < 2 ^ 32" if "k \<in> set ?cps" for k
    using that set_Apply_compact_pointers [of ?e "vs_compact_pointer vs"] ready edit_wf_pointers [of e _ k] ok by (auto simp: snapshot_ready_def edit_ok_def)
  then have wf: "edit_ok name ?snap" using snapshot_wf [OF r(2,3) _ r(4)] by (simp add: edit_ok_def snapshot_edit_eq)
  have adds: "edit_adds l ?snap = level_files (vs_current vs) l" if "l < kNumLevels" for l using snapshot_adds [OF r(2) that] .
  have lv: "levels_after (InternalKey_Compare cmp) [?snap] (vs_current vs)"
    using ready adds by (simp add: levels_after_def snapshot_ready_def edit_files_def edit_adds_set)
  have fr: "fresh_numbers ([?snap] @ e # map (snd \<circ> snd) steps)" using new adds by (simp add: fresh_numbers_def new_numbers_def added_files_def)
  have fr1: "fresh_numbers ([?snap] @ [e])" using fr fresh_numbers_prefix [of "[?snap] @ [e]" "map (snd \<circ> snd) steps"] by simp
  have cp: "fold Apply_compact_pointers [?snap] (replicate kNumLevels []) = ?cps" using snapshot_pointers [OF r(4)] by simp
  have "manifest_inv contents writable (InternalKey_Compare cmp) name ([?snap] @ [?e]) vs'"
    by (rule manifest_step [OF _ lv _ ok fr1 la]) (use r(1) wf cp in \<open>simp_all add: Apply_compact_pointers_idem\<close>)
  moreover have "fresh_numbers (([?snap] @ [?e]) @ map (snd \<circ> snd) steps)"
    using fr fresh_numbers_logged [of "[?snap]" e "set_counters nf q vs" "map (snd \<circ> snd) steps"] by simp
  ultimately show ?thesis by blast
qed

lemma apply_edits_inv:
  assumes "snapshot_ready (InternalKey_Compare cmp) name vs" "\<forall>(nf, q, e)\<in>set steps. edit_ok name e" "new_numbers steps (vs_current vs)" "steps \<noteq> []"
    "apply_edits mops (InternalKey_Compare cmp) name steps vs = Some vs'"
  shows "\<exists>eds. manifest_inv contents writable (InternalKey_Compare cmp) name eds vs'"
proof -
  obtain nf q e rest where st: "steps = (nf, q, e) # rest" using assms(4) by (cases steps) auto
  obtain vs1 s where la: "LogAndApply mops (InternalKey_Compare cmp) name e (set_counters nf q vs) = Some (vs1, s)" "Status_ok s"
      "apply_edits mops (InternalKey_Compare cmp) name rest vs1 = Some vs'" using assms(5) st by (auto split: option.splits if_splits)
  obtain eds where "manifest_inv contents writable (InternalKey_Compare cmp) name eds vs1" "fresh_numbers (eds @ map (snd \<circ> snd) rest)"
    using first_edit [OF assms(1) _ _ la(1,2)] assms(2,3) st by auto
  then show ?thesis using apply_edits_law [OF _ _ _ la(3)] assms(2) st by auto
qed

end


lemma install_recovered_ok:
  assumes "Status_ok (ms_status st)" "ms_numbers e st"
  shows "install_recovered icmp st vs = (vs \<lparr> vs_next_file_number := next_file_number e + 1, vs_current := Builder_SaveTo icmp (ms_builder st), vs_manifest_file_number := next_file_number e,
     vs_last_sequence := last_sequence e, vs_log_number := log_number e, vs_prev_log_number := prev_log_number e \<rparr>, Status_OK)"
  using assms by (cases vs) (simp add: install_recovered_def ms_numbers_def Let_def)


context manifest_run
begin

lemma log_after_cut:
  assumes "holds_edits contents writable eds w" "AddRecord (mo_Append mops) (mo_Flush mops) w d = (w2, s2)"
    "length (contents (dest w)) \<le> n" "n < length (contents (dest w2))" "sequential_file Read Skip remaining readable" "readable f" "remaining f = take n (contents (dest w2))"
  shows "log_loop decimal Read Skip report ok body (Reader_new f True True 0) st = replay ok body (map (\<lambda>e. EncodeTo e []) eds) st"
proof -
  let ?ds = "map (\<lambda>e. EncodeTo e []) eds"
  have w: "contents (dest w) = log_bytes 0 ?ds" "contents (dest w2) = log_bytes 0 (?ds @ [d])"
    using AddRecord_loop_law [of w d True] assms(1,2) log_bytes_snoc [of 0 ?ds d] by (auto simp: holds_edits_def AddRecord_def)
  have at: "reader_at remaining readable kBlockSize (take n (log_bytes kBlockSize (?ds @ [d]))) (Reader_new f True True 0)"
    using sequential_file.at_start [OF assms(5,6)] assms(7) w by (simp add: log_bytes_block_end)
  from sequential_file.log_loop_replay [OF assms(5) at, of decimal report ok body st]
  obtain k where k: "k \<le> Suc (length ?ds)" "log_loop decimal Read Skip report ok body (Reader_new f True True 0) st = replay ok body (take k (?ds @ [d])) st"
      "length (log_bytes 0 (take k (?ds @ [d]))) \<le> n" "k < Suc (length ?ds) \<Longrightarrow> n < length (log_bytes 0 (take (Suc k) (?ds @ [d])))"
    unfolding log_bytes_block_end by auto
  have "k \<noteq> Suc (length ?ds)" using k(3) assms(4) w by auto
  moreover have "\<not> k < length ?ds"
  proof
    assume "k < length ?ds"
    then have "length (log_bytes 0 (take (Suc k) ?ds)) \<le> length (log_bytes 0 ?ds)" using length_log_bytes_take [of "Suc k" "length ?ds" 0 ?ds] by simp
    then show False using k(4) \<open>k < length ?ds\<close> assms(3) w by simp
  qed
  ultimately have "k = length ?ds" using k(1) by simp
  then show ?thesis using k(2) by simp
qed

lemma Recover_manifest_law:
  assumes inv: "manifest_inv contents writable (InternalKey_Compare cmp) name eds vs'" and w: "vs_descriptor_log vs' = Some w"
    and log: "AddRecord (mo_Append mops) (mo_Flush mops) w d = (w2, s2)" "length (contents (dest w)) \<le> n" "n < length (contents (dest w2))"
    "sequential_file Read Skip remaining readable" "readable f" "remaining f = take n (contents (dest w2))"
  shows "Recover_manifest decimal Read Skip (InternalKey_Compare cmp) name f VersionSet_new =
    Some (vs' \<lparr> vs_next_file_number := vs_next_file_number vs' + 1, vs_manifest_file_number := vs_next_file_number vs', vs_descriptor_log := None \<rparr>, Status_OK)"
proof -
  let ?icmp = "InternalKey_Compare cmp" and ?empty = "\<lparr> v_files = replicate kNumLevels [] \<rparr>"
  have h: "holds_edits contents writable eds w" and okm: "\<forall>e\<in>set eds. edit_ok name e" and fr: "fresh_numbers eds" and num: "numbers_after eds vs'"
      and ptr: "pointers_after eds vs'" and lv: "levels_after ?icmp eds (vs_current vs')" using inv w by (auto simp: manifest_inv_def)
  obtain b0 where b0: "vs_current vs' = Builder_SaveTo ?icmp b0" using inv by (auto simp: manifest_inv_def)
  have vs_new: "vs_current VersionSet_new = ?empty" "vs_compact_pointer VersionSet_new = replicate kNumLevels []" by (simp_all add: VersionSet_new_def)
  let ?st = "\<lparr> ms_status = Status_OK, ms_builder = Builder_new ?empty, ms_compact_pointer = replicate kNumLevels [],
            ms_log_number = None, ms_prev_log_number = None, ms_next_file = None, ms_last_sequence = None \<rparr>"
  obtain st where st: "replay (\<lambda>st. Status_ok (ms_status st)) (recover_edit ?icmp name) (map (\<lambda>e. EncodeTo e []) eds) ?st = Some st" "Status_ok (ms_status st)"
      "(ms_builder st, ms_compact_pointer st) = fold (Builder_Apply ?icmp) eds (Builder_new ?empty, replicate kNumLevels [])" "ms_numbers (last eds) st"
    using replay_edits [OF okm, of ?st ?icmp] num by (auto simp: numbers_after_def edit_numbers_def)
  have "levels_after ?icmp eds (Builder_SaveTo ?icmp (ms_builder st))" using levels_after_all [OF fr st(3) [symmetric]] .
  then have cur: "Builder_SaveTo ?icmp (ms_builder st) = vs_current vs'" using levels_after_unique lv b0 by simp
  have cps: "ms_compact_pointer st = vs_compact_pointer vs'"
    using arg_cong [OF st(3), of snd] ptr by (simp add: fold_Builder_Apply_pointers pointers_after_def)
  have "Recover_manifest decimal Read Skip ?icmp name f VersionSet_new = Some (install_recovered ?icmp st (VersionSet_new \<lparr> vs_compact_pointer := ms_compact_pointer st \<rparr>))"
    unfolding Recover_manifest_def log_after_cut [OF h log] vs_new st(1) by simp
  also have "install_recovered ?icmp st (VersionSet_new \<lparr> vs_compact_pointer := ms_compact_pointer st \<rparr>) =
      (vs' \<lparr> vs_next_file_number := vs_next_file_number vs' + 1, vs_manifest_file_number := vs_next_file_number vs', vs_descriptor_log := None \<rparr>, Status_OK)"
    unfolding install_recovered_ok [OF st(2,4)] cps cur using num by (cases vs') (simp add: VersionSet_new_def numbers_after_def)
  finally show ?thesis .
qed

end

text \<open>Reuse changes only where the next edits go.\<close>

lemma ReuseManifest_keeps:
  assumes "\<forall>s. appendable = (None, s) \<longrightarrow> \<not> Status_ok s"
  obtains d m r where "ReuseManifest reuse_logs dscbase file_size appendable vs = Some (vs \<lparr> vs_descriptor_log := d, vs_manifest_file_number := m \<rparr>, r)"
proof -
  obtain lf s where app: "appendable = (lf, s)" by fastforce
  have "ReuseManifest reuse_logs dscbase file_size (lf, s) vs = Some (vs, False) \<or>
      (\<exists>d m. ReuseManifest reuse_logs dscbase file_size (lf, s) vs = Some (vs \<lparr> vs_descriptor_log := d, vs_manifest_file_number := m \<rparr>, True))"
    using assms unfolding ReuseManifest_def app
    by (cases lf; cases file_size; cases "ParseFileName dscbase"; auto split: FileType.splits if_splits) blast
  then show ?thesis using that [of "vs_manifest_file_number vs" "vs_descriptor_log vs" False] that app by fastforce
qed

subsection \<open>Manifests in memory\<close>

definition mem_manifest_ops :: "FileState manifest_ops" where
  "mem_manifest_ops = \<lparr> mo_NewWritableFile = (\<lambda>n. (Some FileState_new, Status_OK)), mo_Append = WritableFileImpl_Append zero_memory, mo_Flush = WritableFileImpl_Flush,
     mo_Sync = (\<lambda>f. (f, snd (WritableFileImpl_Sync f))), mo_SetCurrentFile = (\<lambda>n. Status_OK) \<rparr>"

interpretation mem_manifest: manifest_run Bytewise_Compare Bytewise_FindShortestSeparator Bytewise_FindShortSuccessor mem_manifest_ops file_contents file_wf
proof (intro manifest_run.intro manifest_file.intro manifest_file_axioms.intro)
  show "user_comparator Bytewise_Compare Bytewise_FindShortestSeparator Bytewise_FindShortSuccessor" by (rule ubytewise.user_comparator_axioms)
  show "writable_file (mo_Append mem_manifest_ops) (mo_Flush mem_manifest_ops) file_contents file_wf"
    using zero_mem.mem_file.writable_file_axioms by (simp add: mem_manifest_ops_def)
  show "mo_NewWritableFile mem_manifest_ops n = (lf, s) \<Longrightarrow> Status_ok s \<Longrightarrow> \<exists>f. lf = Some f \<and> file_wf f \<and> file_contents f = []" for n lf s
    by (auto simp: mem_manifest_ops_def FileState_new_def file_wf_def file_contents_def kMemBlockSize_def)
  show "file_wf f \<Longrightarrow> mo_Sync mem_manifest_ops f = (f', s) \<Longrightarrow> file_wf f' \<and> file_contents f' = file_contents f" for f f' s
    by (simp add: mem_manifest_ops_def)
qed

subsection \<open>Properties\<close>

text \<open>C0. The MANIFEST carries the version set over a crash. After any calls of \<open>LogAndApply\<close>, the first of which opens the descriptor log, and after
  a cut anywhere in the record that a next call is writing, \<open>Recover\<close> reads back the version the calls led to, file by file and level
  by level, with its compaction pointers, log numbers and last sequence number; the file number after the one the last edit
  logged is the next it will give out.\<close>

theorem manifest_roundtrip:
  fixes mops :: "'w manifest_ops" and open_appendable :: "slice \<Rightarrow> 'w option \<times> status"
  assumes "user_comparator cmp sep succ" "manifest_file mops contents writable" "sequential_file Read Skip remaining readable"
    "snapshot_ready (InternalKey_Compare cmp) name vs" "\<forall>(nf, q, e)\<in>set steps. edit_ok name e" "new_numbers steps (vs_current vs)" "steps \<noteq> []"
    "apply_edits mops (InternalKey_Compare cmp) name steps vs = Some vs'" "vs_descriptor_log vs' = Some w"
    "AddRecord (mo_Append mops) (mo_Flush mops) w d = (w2, s2)" "length (contents (dest w)) \<le> n" "n < length (contents (dest w2))"
    "readable f" "remaining f = take n (contents (dest w2))" "open_sequential m = (Some f, Status_OK)" "\<forall>s. open_appendable m = (None, s) \<longrightarrow> \<not> Status_ok s"
  shows "\<exists>vs2 save. VersionSet_Recover decimal Read Skip (InternalKey_Compare cmp) name reuse_logs (Inr (m @ [10])) open_sequential file_size open_appendable VersionSet_new False =
      Some (vs2, Status_OK, save) \<and>
    vs_current vs2 = vs_current vs' \<and> vs_compact_pointer vs2 = vs_compact_pointer vs' \<and> vs_log_number vs2 = vs_log_number vs' \<and>
    vs_prev_log_number vs2 = vs_prev_log_number vs' \<and> vs_last_sequence vs2 = vs_last_sequence vs' \<and> vs_next_file_number vs2 = vs_next_file_number vs' + 1"
proof -
  note run = manifest_run.intro [OF assms(1,2)]
  obtain eds where inv: "manifest_inv contents writable (InternalKey_Compare cmp) name eds vs'"
    using manifest_run.apply_edits_inv [OF run assms(4-8)] by blast
  have cur: "current_manifest (m @ [10]) = Inr m" by (simp add: current_manifest_def)
  obtain l k r where "ReuseManifest reuse_logs m (file_size m) (open_appendable m)
      (vs' \<lparr> vs_next_file_number := vs_next_file_number vs' + 1, vs_manifest_file_number := vs_next_file_number vs', vs_descriptor_log := None \<rparr>) =
    Some (vs' \<lparr> vs_next_file_number := vs_next_file_number vs' + 1, vs_manifest_file_number := vs_next_file_number vs', vs_descriptor_log := None \<rparr>
      \<lparr> vs_descriptor_log := l, vs_manifest_file_number := k \<rparr>, r)" using ReuseManifest_keeps [OF assms(16)] by metis
  moreover have "Recover_manifest decimal Read Skip (InternalKey_Compare cmp) name f VersionSet_new =
    Some (vs' \<lparr> vs_next_file_number := vs_next_file_number vs' + 1, vs_manifest_file_number := vs_next_file_number vs', vs_descriptor_log := None \<rparr>, Status_OK)"
    by (rule manifest_run.Recover_manifest_law [OF run inv assms(9-12,3,13,14)])
  ultimately show ?thesis unfolding VersionSet_Recover_def sum.case cur assms(15) by simp
qed


lemma mem_LogAndApply_ok:
  assumes "vs_descriptor_log vs = None"
  shows "\<exists>vs'. LogAndApply mem_manifest_ops icmp name e vs = Some (vs', Status_OK)"
proof -
  let ?e = "LogAndApply_edit e vs" and ?vs = "\<lambda>cps. vs \<lparr> vs_compact_pointer := cps \<rparr>"
  obtain b cps where b: "Builder_Apply icmp ?e (Builder_new (vs_current vs), vs_compact_pointer vs) = (b, cps)" by fastforce
  have "holds_edits file_contents file_wf [] (Writer_new FileState_new)"
    by (simp add: holds_edits_def Writer_new_def log_offset_def FileState_new_def file_wf_def file_contents_def kMemBlockSize_def)
  note h0 = this
  obtain w s where ws: "AddRecord (mo_Append mem_manifest_ops) (mo_Flush mem_manifest_ops) (Writer_new FileState_new) (EncodeTo (snapshot_edit name cps (vs_current vs)) []) = (w, s)" by fastforce
  have w: "s = Status_OK" "holds_edits file_contents file_wf [snapshot_edit name cps (vs_current vs)] w" using mem_manifest.AddRecord_edit [OF h0 ws] by simp_all
  then have sn: "WriteSnapshot mem_manifest_ops name (?vs cps) (Writer_new FileState_new) = (w, Status_OK)" using ws by (simp add: WriteSnapshot_def)
  obtain w1 s1 where ws1: "AddRecord (mo_Append mem_manifest_ops) (mo_Flush mem_manifest_ops) w (EncodeTo ?e []) = (w1, s1)" by fastforce
  then have w1: "AddRecord (mo_Append mem_manifest_ops) (mo_Flush mem_manifest_ops) w (EncodeTo ?e []) = (w1, Status_OK)"
    using mem_manifest.AddRecord_edit [OF w(2) ws1] by simp
  have "open_descriptor mem_manifest_ops name (?vs cps) = Some (Some w, Status_OK)" 
    using assms sn unfolding open_descriptor_def by (simp add: mem_manifest_ops_def)
  moreover have "write_edit mem_manifest_ops ?e w = (w1, Status_OK)"
    using w1 by (simp add: write_edit_def mem_manifest_ops_def WritableFileImpl_Sync_def)
  ultimately show ?thesis using b assms by (simp add: LogAndApply_def Let_def) (simp add: mem_manifest_ops_def)
qed

text \<open>A database whose first edit adds one file to level 1.\<close>

definition example_first_edit :: VersionEdit where
  "example_first_edit = SetLogNumber (AddFile VersionEdit_new 1 4 50 (InternalKey [7] 3 kTypeValue) (InternalKey [7] 3 kTypeValue)) 3"

lemma example_first_edit_ok: "edit_ok (str ''leveldb.BytewiseComparator'') example_first_edit"
  by (simp add: edit_ok_def example_first_edit_def edit_wf_def edit_fields_def SetLogNumber_def AddFile_def VersionEdit_new_def FileMetaData_new_def kNumLevels_def InternalKey_def)

lemma example_first_files:
  assumes "Builder_Apply icmp (LogAndApply_edit example_first_edit vs) (Builder_new \<lparr> v_files = replicate kNumLevels [] \<rparr>, cps) = (b, cps')"
  shows "map fm_number (level_files (Builder_SaveTo icmp b) 1) = [4]"
proof -
  have u: "[0..<7] = [0, 1, 2, 3, 4, 5, 6 :: nat]" by (simp add: upt_rec)
  have "new_files (LogAndApply_edit example_first_edit vs) = new_files example_first_edit" "deleted_files (LogAndApply_edit example_first_edit vs) = []" by (simp_all add: example_first_edit_def SetLogNumber_def AddFile_def VersionEdit_new_def)
  then show ?thesis
    using assms by (auto simp: Builder_SaveTo_def Builder_Apply_def Builder_new_def kNumLevels_def u Apply_add_def MaybeAddFile_def example_first_edit_def SetLogNumber_def AddFile_def
        VersionEdit_new_def FileMetaData_new_def new_file_metadata_def upper_bound_def)
qed

theorem manifest_roundtrip_witness:
  "\<exists>vs' w f vs2 save. apply_edits mem_manifest_ops (InternalKey_Compare Bytewise_Compare) (str ''leveldb.BytewiseComparator'') [(5, 7, example_first_edit)] VersionSet_new = Some vs' \<and>
     vs_descriptor_log vs' = Some w \<and> mem_remaining f = file_contents (dest w) \<and>
     VersionSet_Recover (\<lambda>_. []) mem_Read mem_Skip (InternalKey_Compare Bytewise_Compare) (str ''leveldb.BytewiseComparator'') False (Inr (str ''MANIFEST-000000'' @ [10]))
       (\<lambda>m. (Some f, Status_OK)) (\<lambda>m. None) (\<lambda>m. (Some FileState_new, Status_OK)) VersionSet_new False = Some (vs2, Status_OK, save) \<and>
     map fm_number (level_files (vs_current vs2) 1) = [4] \<and> vs_last_sequence vs2 = 7 \<and> vs_next_file_number vs2 = 6 \<and> vs_log_number vs2 = 3"
proof -
  let ?icmp = "InternalKey_Compare Bytewise_Compare" and ?name = "str ''leveldb.BytewiseComparator''" and ?vs = "set_counters 5 7 (VersionSet_new :: FileState VersionSet)"
  have new: "vs_descriptor_log ?vs = None" by (simp add: set_counters_def VersionSet_new_def)
  obtain vs' where la: "LogAndApply mem_manifest_ops ?icmp ?name example_first_edit ?vs = Some (vs', Status_OK)" using mem_LogAndApply_ok [OF new] by blast
  have run: "apply_edits mem_manifest_ops ?icmp ?name [(5, 7, example_first_edit)] VersionSet_new = Some vs'" using la by simp
  from mem_manifest.LogAndApply_law [OF la] new obtain w b cps where w: "vs_descriptor_log vs' = Some w"
      and b: "Builder_Apply ?icmp (LogAndApply_edit example_first_edit ?vs) (Builder_new (vs_current ?vs), vs_compact_pointer ?vs) = (b, cps)" "vs_current vs' = Builder_SaveTo ?icmp b"
      and wf: "file_wf (dest w)" "type_crc w = InitTypeCrc" and lg: "vs_log_number vs' = log_number (LogAndApply_edit example_first_edit ?vs)" by (auto simp: holds_edits_def)
  have files: "map fm_number (level_files (vs_current vs') 1) = [4]" using example_first_files b by (simp add: set_counters_def VersionSet_new_def)
  obtain w2 where w2: "AddRecord (mo_Append mem_manifest_ops) (mo_Flush mem_manifest_ops) w [] = (w2, Status_OK)"
      "length (file_contents (dest w)) < length (file_contents (dest w2))"
    using mem_manifest.AddRecord_loop_law [OF wf, of "[]" True] record_bytes_nonempty [of "block_offset w" "[]" True] by (auto simp: AddRecord_def)
  have pre: "file_contents (dest w) = take (length (file_contents (dest w))) (file_contents (dest w2))"
    using mem_manifest.AddRecord_loop_law [OF wf, of "[]" True] w2(1) by (auto simp: AddRecord_def)
  define f where "f = (dest w, \<lparr> sq_file = 0, sq_pos = 0 \<rparr>)"
  have f: "mem_readable f" "mem_remaining f = file_contents (dest w)" using wf by (simp_all add: f_def mem_readable_def mem_remaining_def)
  have ready: "snapshot_ready ?icmp ?name (VersionSet_new :: FileState VersionSet)"
    by (simp add: snapshot_ready_def VersionSet_new_def version_plain_def str_def)
  have fresh: "new_numbers [(5, 7, example_first_edit)] (vs_current (VersionSet_new :: FileState VersionSet))"
    by (auto simp: new_numbers_def added_files_def edit_adds_def example_first_edit_def VersionSet_new_def SetLogNumber_def AddFile_def VersionEdit_new_def)
  obtain vs2 save where r: "VersionSet_Recover (\<lambda>_. []) mem_Read mem_Skip ?icmp ?name False (Inr (str ''MANIFEST-000000'' @ [10]))
       (\<lambda>m. (Some f, Status_OK)) (\<lambda>m. None) (\<lambda>m. (Some FileState_new, Status_OK)) VersionSet_new False = Some (vs2, Status_OK, save)"
      "vs_current vs2 = vs_current vs'" "vs_log_number vs2 = vs_log_number vs'" "vs_last_sequence vs2 = vs_last_sequence vs'" "vs_next_file_number vs2 = vs_next_file_number vs' + 1"
    using manifest_roundtrip [OF ubytewise.user_comparator_axioms mem_manifest.manifest_file_axioms mem_seq.sequential_file_axioms ready _ fresh _ run w w2(1) _ w2(2) f(1),
        of "\<lambda>m. (Some f, Status_OK)" "str ''MANIFEST-000000''" "\<lambda>m. (Some FileState_new, Status_OK)" "\<lambda>_. []" False "\<lambda>m. None"] f(2) pre example_first_edit_ok by auto
  have nums: "vs_next_file_number vs' = 5" "vs_last_sequence vs' = 7" using LogAndApply_keeps [OF la] by (simp_all add: set_counters_def)
  have "vs_log_number vs' = 3"
    using lg by (simp add: example_first_edit_def LogAndApply_edit_def SetLogNumber_def AddFile_def VersionEdit_new_def SetPrevLogNumber_def SetNextFile_def SetLastSequence_def Let_def)
  then have "map fm_number (level_files (vs_current vs2) 1) = [4]" "vs_last_sequence vs2 = 7" "vs_next_file_number vs2 = 6" "vs_log_number vs2 = 3"
    using r(2-) files nums by simp_all
  with run w f(2) r(1) show ?thesis
    by (intro exI [where x = vs'] exI [where x = w] exI [where x = f] exI [where x = vs2] exI [where x = save] conjI)
qed

end
