(* ===== verification/Spec2Isabelle.thy ===== *)
theory Spec2Isabelle
  imports Log WriteBatch Filename DbIter Manifest
begin

text \<open>
  Verification of the storage engine under \<open>leveldb/\<close>.
\<close>

end
